(* ===== verification/ScalePrelude.thy ===== *)
theory ScalePrelude
  imports Main "HOL-Library.Word" "HOL-Library.Multiset"
begin

unbundle bit_operations_syntax

text \<open>
  Shared vocabulary of the development: the machine integers of the code, the errors its
  checks raise, C memory moves on arrays, and the list, option and word lemmas that the
  component theories use.  An array of the code is a list whose length is the array's
  extent; a pointer that may be null is an \<^typ>\<open>'a option\<close>.
\<close>

section \<open>Machine integers, errors and results\<close>

type_synonym u8 = "8 word"
type_synonym u16 = "16 word"
type_synonym u64 = "64 word"

text \<open>
  What stops a call: a failed \<open>ensure\<close> (a \<open>std::runtime_error\<close>, shared-headers/Defs.hpp
  line 30), an exception thrown by hand, or an access outside an array or to a page of another
  type, for which C++ gives no meaning at all and which the model therefore keeps as values of
  their own.  \<open>Blocked\<close> is a call that waits for something no step of the caller will provide, \<open>Undefined\<close> a use of a
  null pointer or of the standard library outside its preconditions.
\<close>

datatype cpp_error =
    Ensure_failed
  | Runtime_error string
  | Invalid_argument string
  | Out_of_bounds
  | Bad_page
  | Blocked
  | Undefined

type_synonym 'a result = "cpp_error + 'a"

definition ensure :: "bool \<Rightarrow> 'a result \<Rightarrow> 'a result" where
  "ensure e k = (if e then k else Inl Ensure_failed)"

definition bind_r :: "'a result \<Rightarrow> ('a \<Rightarrow> 'b result) \<Rightarrow> 'b result" where
  "bind_r r f = (case r of Inl e \<Rightarrow> Inl e | Inr x \<Rightarrow> f x)"

definition array_get :: "'a list \<Rightarrow> nat \<Rightarrow> 'a result" where
  "array_get a i = (if i < length a then Inr (a ! i) else Inl Out_of_bounds)"

lemma ensure_True [simp]: "ensure True k = k"
  by (simp add: ensure_def)

lemma ensure_False [simp]: "ensure False k = Inl Ensure_failed"
  by (simp add: ensure_def)

lemma ensure_eq_Inr [simp]: "ensure e k = Inr x \<longleftrightarrow> e \<and> k = Inr x"
  by (simp add: ensure_def)

lemma bind_r_simps [simp]: "bind_r (Inl e) f = Inl e" "bind_r (Inr x) f = f x"
  by (simp_all add: bind_r_def)

lemma bind_r_eq_Inr: "bind_r r f = Inr y \<longleftrightarrow> (\<exists>x. r = Inr x \<and> f x = Inr y)"
  by (cases r) auto

lemma array_get_Inr [simp]: "i < length a \<Longrightarrow> array_get a i = Inr (a ! i)"
  by (simp add: array_get_def)

section \<open>Arrays and memory moves\<close>

definition array_set :: "'a list \<Rightarrow> nat \<Rightarrow> 'a \<Rightarrow> 'a list result" where
  "array_set a i v = (if i < length a then Inr (a[i := v]) else Inl Out_of_bounds)"

text \<open>\<open>memmove(a + dst, a + src, n)\<close> inside one array, and \<open>memcpy\<close> between two; counts in elements.\<close>

definition memmove :: "'a list \<Rightarrow> nat \<Rightarrow> nat \<Rightarrow> nat \<Rightarrow> 'a list result" where
  "memmove a dst src n =
     (if dst + n \<le> length a \<and> src + n \<le> length a
      then Inr (take dst a @ take n (drop src a) @ drop (dst + n) a) else Inl Out_of_bounds)"

definition memcpy :: "'a list \<Rightarrow> nat \<Rightarrow> 'a list \<Rightarrow> nat \<Rightarrow> nat \<Rightarrow> 'a list result" where
  "memcpy a dst b src n =
     (if dst + n \<le> length a \<and> src + n \<le> length b
      then Inr (take dst a @ take n (drop src b) @ drop (dst + n) a) else Inl Out_of_bounds)"

lemma array_set_Inr [simp]: "i < length a \<Longrightarrow> array_set a i v = Inr (a[i := v])"
  by (simp add: array_set_def)

lemma memmove_Inr:
  "dst + n \<le> length a \<Longrightarrow> src + n \<le> length a \<Longrightarrow>
     memmove a dst src n = Inr (take dst a @ take n (drop src a) @ drop (dst + n) a)"
  by (simp add: memmove_def)

lemma memcpy_Inr:
  "dst + n \<le> length a \<Longrightarrow> src + n \<le> length b \<Longrightarrow>
     memcpy a dst b src n = Inr (take dst a @ take n (drop src b) @ drop (dst + n) a)"
  by (simp add: memcpy_def)

text \<open>Opening a gap at \<open>p\<close> in the first \<open>c\<close> entries and filling it inserts into the live prefix;
  closing the gap at \<open>p\<close> removes from it.\<close>

lemma live_insert:
  assumes "p \<le> c" and "c < length a"
  shows "take (c + 1) ((take (p + 1) a @ take (c - p) (drop p a) @ drop (p + 1 + (c - p)) a)[p := v])
    = take p a @ v # drop p (take c a)"
proof -
  obtain xs ys z zs where a: "a = xs @ ys @ z # zs" "length xs = p" "length ys = c - p"
  proof
    show "a = take p a @ drop p (take c a) @ a ! c # drop (Suc c) a"
      using assms by (metis Cons_nth_drop_Suc append.assoc append_take_drop_id min.absorb1 take_take)
  qed (use assms in auto)
  moreover from this have "c = p + length ys" using assms(1) by simp
  ultimately show ?thesis by (cases ys) (auto simp: list_update_append)
qed

lemma live_insert_inner:
  assumes "p \<le> c" and "c + 1 < length a"
    and b_def: "b = (take (p + 1) a @ take (c - p + 1) (drop p a) @ drop (p + 1 + (c - p + 1)) a)[p := v]"
  shows "take (c + 1) b = take p a @ v # drop p (take c a)"
    and "take (c + 2) (b[p := b ! (p + 1), p + 1 := v]) = take (p + 1) a @ v # drop (p + 1) (take (c + 1) a)"
proof -
  obtain xs y ys z zs where a: "a = xs @ y # ys @ z # zs" "length xs = p" "length ys = c - p"
  proof
    have "a = take p a @ a ! p # drop (Suc p) a" using assms by (simp add: id_take_nth_drop)
    moreover have "drop (Suc p) a = take (c - p) (drop (Suc p) a) @ drop (Suc p) a ! (c - p) # drop (Suc (c - p)) (drop (Suc p) a)"
      using assms by (intro id_take_nth_drop) simp
    ultimately show "a = take p a @ a ! p # take (c - p) (drop (Suc p) a) @ drop (Suc p) a ! (c - p) # drop (Suc (c - p)) (drop (Suc p) a)"
      by simp
  qed (use assms in auto)
  then have c: "c = p + length ys" using assms(1) by simp
  have b: "b = xs @ v # y # ys @ zs"
    using a c by (simp add: b_def list_update_append)
  show "take (c + 1) b = take p a @ v # drop p (take c a)"
    using a c unfolding b by (cases ys rule: rev_cases) simp_all
  show "take (c + 2) (b[p := b ! (p + 1), p + 1 := v]) = take (p + 1) a @ v # drop (p + 1) (take (c + 1) a)"
    using a c unfolding b by (simp add: nth_append list_update_append)
qed

lemma live_remove:
  assumes "p < c" and "c \<le> length a"
  shows "take (c - 1) (take p a @ take (c - (p + 1)) (drop (p + 1) a) @ drop (p + (c - (p + 1))) a)
    = take p a @ drop (p + 1) (take c a)"
proof -
  obtain xs y ys zs where a: "a = xs @ y # ys @ zs" "length xs = p" "length ys = c - (p + 1)"
  proof
    have "a = take c a @ drop c a" "take c a = take p a @ a ! p # drop (Suc p) (take c a)"
      using assms id_take_nth_drop [of p "take c a"] by (simp_all add: min_def)
    then show "a = take p a @ a ! p # drop (p + 1) (take c a) @ drop c a"
      by (metis Cons_eq_appendI Suc_eq_plus1 append.assoc)
  qed (use assms in auto)
  moreover from this have "c = Suc (p + length ys)" using assms(1) by simp
  ultimately show ?thesis by simp
qed

lemma take_insert_at:
  "p \<le> length xs \<Longrightarrow> length (take p xs @ v # drop p xs) = length xs + 1"
  by simp

section \<open>Bits of words\<close>

lemma bit_exp_le_unat: "bit w n \<Longrightarrow> 2 ^ n \<le> unat w"
proof -
  assume "bit w n"
  then have "bit (unat w) n"
    using bit_imp_le_length [of w n] by (simp add: bit_unsigned_iff)
  then have "odd (unat w div 2 ^ n)"
    by (simp add: bit_iff_odd)
  then have "unat w div 2 ^ n \<noteq> 0"
    by (metis even_zero)
  then show ?thesis
    by (meson div_less not_le)
qed

lemma unat_less_exp_iff: "unat w < 2 ^ k \<longleftrightarrow> (\<forall>n\<ge>k. \<not> bit w n)"
  for w :: "'a::len word"
proof
  assume lt: "unat w < 2 ^ k"
  show "\<forall>n\<ge>k. \<not> bit w n"
  proof (intro allI impI notI)
    fix n assume "k \<le> n" and "bit w n"
    then have "(2::nat) ^ k \<le> 2 ^ n" "2 ^ n \<le> unat w"
      by (simp_all add: bit_exp_le_unat)
    with lt show False by linarith
  qed
next
  assume high: "\<forall>n\<ge>k. \<not> bit w n"
  have "take_bit k w = w"
    by (rule bit_eqI) (use high in \<open>auto simp: bit_take_bit_iff not_le [symmetric]\<close>)
  then have "unat w = take_bit k (unat w)"
    by (metis unsigned_take_bit_eq)
  then show "unat w < 2 ^ k"
    by (metis take_bit_nat_less_exp)
qed

lemma bit_minus_lowbit:
  fixes w :: "'a::len word"
  assumes r: "bit w r" and low: "\<And>n. n < r \<Longrightarrow> \<not> bit w n"
  shows "bit (w - 1) n \<longleftrightarrow> n < r \<or> (r < n \<and> bit w n)"
proof -
  have len: "r < LENGTH('a)"
    using r by (rule bit_imp_le_length)
  let ?hi = "w AND NOT (mask (Suc r))"
  have dis: "?hi AND push_bit r 1 = 0" "?hi AND mask r = 0"
    by (rule bit_eqI; auto simp: bit_simps)+
  have "w = ?hi OR push_bit r 1"
    by (rule bit_eqI) (auto simp: bit_simps r not_less Suc_le_eq, metis low linorder_neqE_nat)
  also have "\<dots> = ?hi + push_bit r 1"
    using dis by (simp add: disjunctive_add_eq_or)
  finally have "w - 1 = ?hi + mask r"
    by (simp add: push_bit_eq_mult mask_eq_exp_minus_1)
  also have "\<dots> = ?hi OR mask r"
    using dis by (simp add: disjunctive_add_eq_or)
  finally show ?thesis
    using len by (auto simp: bit_simps bit_mask_iff dest: bit_imp_le_length)
qed

lemma and_minus_lowbit:
  fixes w :: "'a::len word"
  assumes r: "bit w r" and low: "\<And>n. n < r \<Longrightarrow> \<not> bit w n"
  shows "w AND (- w) = push_bit r 1"
proof (rule bit_eqI)
  fix n assume "possible_bit TYPE('a word) n"
  then show "bit (w AND (- w)) n = bit (push_bit r (1::'a word)) n"
    using r low by (auto simp: bit_simps bit_minus_iff bit_minus_lowbit[OF r low] dest: bit_imp_le_length) 
qed

section \<open>Collections used by the component proofs\<close>

named_theorems arr_simps \<open>effect of array moves on the live prefix of an array\<close>
named_theorems frame_simps \<open>fields an operation leaves alone\<close>

end
