(* ===== verification/Latch.thy ===== *)
theory Latch
  imports ScalePrelude
begin

text \<open>
  The latches of syncprimitives/HybridLatch.hpp: the version-only \<open>OptimisticLatch\<close> of the hash table
  buckets and the \<open>HybridLatch\<close> of the buffer frames, which couples a version with a
  \<open>std::shared_mutex\<close>.  Bit 1 of a version says that a writer is inside.

  The functions of the latches are modelled as the sequence of their atomic accesses.  Where a function
  reads the version before it owns the mutex, other threads may run in between: that gap is a
  parameter \<open>gap\<close>, the change the other threads make to the latch.  The locale \<open>version_latch\<close> is
  the contract both latches give to optimistic readers; the last section interleaves the accesses of
  any number of threads on one \<open>HybridLatch\<close>.
\<close>

section \<open>Versions\<close>

type_synonym Version = u64

definition isLatchedV :: "Version \<Rightarrow> bool" where
  "isLatchedV version \<longleftrightarrow> version AND 2 = 2"

lemma isLatchedV_bit: "isLatchedV v \<longleftrightarrow> bit v 1"
proof -
  have "v AND 2 = (if bit v 1 then 2 else 0)"
    by (rule bit_word_eqI) (auto simp: bit_simps bit_2_iff)
  then show ?thesis by (simp add: isLatchedV_def)
qed

lemma isLatchedV_mod: "isLatchedV v \<longleftrightarrow> 2 \<le> unat v mod 4"
proof -
  have "bit v 1 \<longleftrightarrow> bit (unat v) 1" by (simp add: bit_unsigned_iff)
  also have "\<dots> \<longleftrightarrow> odd (unat v div 2)" by (simp add: bit_iff_odd)
  also have "\<dots> \<longleftrightarrow> 2 \<le> unat v mod 4" by presburger
  finally show ?thesis by (simp add: isLatchedV_bit)
qed

lemma unat_plus2_mod4: "unat (v + 2 :: u64) mod 4 = (unat v + 2) mod 4"
proof -
  have "unat (v + 2) = (unat v + 2) mod 2 ^ 64" by (simp add: unat_word_ariths)
  then show ?thesis by (simp add: mod_mod_cancel)
qed

lemma isLatchedV_plus2 [simp]: "isLatchedV (v + 2) \<longleftrightarrow> \<not> isLatchedV v"
  by (simp add: isLatchedV_mod unat_plus2_mod4) presburger

lemma isLatchedV_plus4 [simp]: "isLatchedV (v + 4) \<longleftrightarrow> isLatchedV v"
  using isLatchedV_plus2 [of "v + 2"] by (simp add: add.assoc)

lemma isLatchedV_even: "isLatchedV (of_nat (4 + 2 * n)) \<longleftrightarrow> odd n"
proof (induction n)
  case (Suc n)
  have "(of_nat (4 + 2 * Suc n) :: u64) = of_nat (4 + 2 * n) + 2" by simp
  then show ?case using Suc by (metis isLatchedV_plus2 even_Suc)
qed (simp add: isLatchedV_def)

lemma of_nat_4_eq_0: "n < 2 ^ 62 \<Longrightarrow> (of_nat (4 * n) :: u64) = 0 \<longleftrightarrow> n = 0"
  by (subst word_of_nat_eq_0_iff) (auto dest: dvd_imp_le)

section \<open>OptimisticLatch\<close>

record OptimisticLatch =
  typeVersionLockObsolete :: Version

definition new_OptimisticLatch :: OptimisticLatch where
  "new_OptimisticLatch = \<lparr>typeVersionLockObsolete = 4\<rparr>"

definition ol_isLatched :: "OptimisticLatch \<Rightarrow> bool" where
  "ol_isLatched l \<longleftrightarrow> isLatchedV (typeVersionLockObsolete l)"

definition ol_optimisticLatchOrRestart :: "OptimisticLatch \<Rightarrow> Version option" where
  "ol_optimisticLatchOrRestart l =
     (let version = typeVersionLockObsolete l in if isLatchedV version then None else Some version)"

text \<open>\<open>compare_exchange_strong\<close> stores the current value into its reference argument when it fails; the
  version the caller holds is therefore a result too.\<close>

definition ol_upgradeToExclusiveLatch :: "Version \<Rightarrow> OptimisticLatch \<Rightarrow> bool \<times> Version \<times> OptimisticLatch" where
  "ol_upgradeToExclusiveLatch version l =
     (if isLatchedV version then (False, version, l)
      else if typeVersionLockObsolete l = version
           then (True, version + 2, l\<lparr>typeVersionLockObsolete := version + 2\<rparr>)
           else (False, typeVersionLockObsolete l, l))"

definition ol_tryLatchExclusive :: "(OptimisticLatch \<Rightarrow> OptimisticLatch) \<Rightarrow> OptimisticLatch \<Rightarrow> bool \<times> OptimisticLatch" where
  "ol_tryLatchExclusive gap l =
     (case ol_optimisticLatchOrRestart l of
        None \<Rightarrow> (False, l)
      | Some version \<Rightarrow> (case ol_upgradeToExclusiveLatch version (gap l) of
          (False, _, l') \<Rightarrow> (False, l')
        | (True, _, l') \<Rightarrow> (True, l')))"

definition ol_unlatchExclusive :: "OptimisticLatch \<Rightarrow> OptimisticLatch result" where
  "ol_unlatchExclusive l =
     ensure (ol_isLatched l) (Inr (l\<lparr>typeVersionLockObsolete := typeVersionLockObsolete l + 2\<rparr>))"

definition ol_downgradeToOptimisticLatch :: "OptimisticLatch \<Rightarrow> (Version \<times> OptimisticLatch) result" where
  "ol_downgradeToOptimisticLatch l =
     (let version = typeVersionLockObsolete l + 2 in bind_r (ol_unlatchExclusive l) (\<lambda>l. Inr (version, l)))"

definition ol_optimisticUnlatch :: "Version \<Rightarrow> OptimisticLatch \<Rightarrow> bool" where
  "ol_optimisticUnlatch startRead l \<longleftrightarrow> startRead = typeVersionLockObsolete l"

definition ol_checkOrRestart :: "Version \<Rightarrow> OptimisticLatch \<Rightarrow> bool" where
  "ol_checkOrRestart startRead l = ol_optimisticUnlatch startRead l"

definition ol_writeUnlockObsolete :: "OptimisticLatch \<Rightarrow> OptimisticLatch" where
  "ol_writeUnlockObsolete l = l\<lparr>typeVersionLockObsolete := typeVersionLockObsolete l + 3\<rparr>"

section \<open>The shared mutex\<close>

text \<open>\<open>std::shared_mutex\<close>: free, held by a number of readers, or held by one writer.  A blocking
  acquisition that cannot proceed is \<open>Blocked\<close>; releasing what is not held is \<open>Undefined\<close>.\<close>

datatype shared_mutex = Unlocked | Readers nat | Writer

fun lock :: "shared_mutex \<Rightarrow> shared_mutex result" where
  "lock Unlocked = Inr Writer"
| "lock _ = Inl Blocked"

fun lock_shared :: "shared_mutex \<Rightarrow> shared_mutex result" where
  "lock_shared Unlocked = Inr (Readers 1)"
| "lock_shared (Readers n) = Inr (Readers (n + 1))"
| "lock_shared Writer = Inl Blocked"

fun try_lock :: "shared_mutex \<Rightarrow> bool \<times> shared_mutex" where
  "try_lock Unlocked = (True, Writer)"
| "try_lock m = (False, m)"

fun try_lock_shared :: "shared_mutex \<Rightarrow> bool \<times> shared_mutex" where
  "try_lock_shared Unlocked = (True, Readers 1)"
| "try_lock_shared (Readers n) = (True, Readers (n + 1))"
| "try_lock_shared Writer = (False, Writer)"

fun unlock :: "shared_mutex \<Rightarrow> shared_mutex result" where
  "unlock Writer = Inr Unlocked"
| "unlock _ = Inl Undefined"

fun unlock_shared :: "shared_mutex \<Rightarrow> shared_mutex result" where
  "unlock_shared (Readers (Suc n)) = Inr (if n = 0 then Unlocked else Readers n)"
| "unlock_shared _ = Inl Undefined"

section \<open>HybridLatch\<close>

record HybridLatch =
  version :: Version
  smut :: shared_mutex

definition new_HybridLatch :: HybridLatch where
  "new_HybridLatch = \<lparr>version = 4, smut = Unlocked\<rparr>"

definition isLatched :: "HybridLatch \<Rightarrow> bool" where
  "isLatched l \<longleftrightarrow> isLatchedV (version l)"

definition bump :: "HybridLatch \<Rightarrow> HybridLatch" where
  "bump l = l\<lparr>version := version l + 2\<rparr>"

definition latchShared :: "HybridLatch \<Rightarrow> HybridLatch result" where
  "latchShared l = bind_r (lock_shared (smut l)) (\<lambda>m. let l = l\<lparr>smut := m\<rparr> in ensure (\<not> isLatched l) (Inr l))"

definition unlatchShared :: "HybridLatch \<Rightarrow> HybridLatch result" where
  "unlatchShared l = bind_r (unlock_shared (smut l)) (\<lambda>m. Inr (l\<lparr>smut := m\<rparr>))"

definition latchExclusive :: "HybridLatch \<Rightarrow> HybridLatch result" where
  "latchExclusive l = bind_r (lock (smut l)) (\<lambda>m. let l = bump (l\<lparr>smut := m\<rparr>) in ensure (isLatched l) (Inr l))"

definition unlatchExclusive :: "HybridLatch \<Rightarrow> HybridLatch result" where
  "unlatchExclusive l =
     ensure (isLatched l) (let l = bump l in
     ensure (\<not> isLatched l) (bind_r (unlock (smut l)) (\<lambda>m. Inr (l\<lparr>smut := m\<rparr>))))"

definition tryLatchExclusive :: "HybridLatch \<Rightarrow> bool \<times> HybridLatch" where
  "tryLatchExclusive l =
     (case try_lock (smut l) of (False, _) \<Rightarrow> (False, l) | (True, m) \<Rightarrow> (True, bump (l\<lparr>smut := m\<rparr>)))"

definition tryLatchShared :: "HybridLatch \<Rightarrow> bool \<times> HybridLatch" where
  "tryLatchShared l = (let (success, m) = try_lock_shared (smut l) in (success, l\<lparr>smut := m\<rparr>))"

text \<open>The mutex is released and taken again: \<open>gap\<close> is what happens in between.\<close>

definition tryDowngradeExclusiveToShared :: "(HybridLatch \<Rightarrow> HybridLatch) \<Rightarrow> HybridLatch \<Rightarrow> (bool \<times> HybridLatch) result" where
  "tryDowngradeExclusiveToShared gap l =
     bind_r (unlatchExclusive l) (\<lambda>l1. let v = version l1 in
     bind_r (latchShared (gap l1)) (\<lambda>l.
     if v \<noteq> version l then bind_r (unlatchShared l) (\<lambda>l. Inr (False, l)) else Inr (True, l)))"

definition downgradeExclusiveToOptimistic :: "HybridLatch \<Rightarrow> (Version \<times> HybridLatch) result" where
  "downgradeExclusiveToOptimistic l = (let v = version l + 2 in bind_r (unlatchExclusive l) (\<lambda>l. Inr (v, l)))"

definition downgradeSharedToOptimistic :: "HybridLatch \<Rightarrow> (Version \<times> HybridLatch) result" where
  "downgradeSharedToOptimistic l = (let v = version l in bind_r (unlatchShared l) (\<lambda>l. Inr (v, l)))"

definition optimisticUpgradeToShared ::
  "(HybridLatch \<Rightarrow> HybridLatch) \<Rightarrow> Version \<Rightarrow> HybridLatch \<Rightarrow> (bool \<times> HybridLatch) result" where
  "optimisticUpgradeToShared gap startRead l =
     (let v = version l in
      if isLatchedV v then Inr (False, l)
      else if v \<noteq> startRead then Inr (False, l)
      else let (success, l) = tryLatchShared (gap l) in
           if \<not> success then Inr (False, l)
           else if version l = startRead then Inr (True, l)
           else bind_r (unlatchShared l) (\<lambda>l. Inr (False, l)))"

definition optimisticUpgradeToExclusive ::
  "(HybridLatch \<Rightarrow> HybridLatch) \<Rightarrow> Version \<Rightarrow> HybridLatch \<Rightarrow> (bool \<times> HybridLatch) result" where
  "optimisticUpgradeToExclusive gap startRead l =
     (let v = version l in
      if v \<noteq> startRead then Inr (False, l)
      else let (success, l) = tryLatchExclusive (gap l) in
           if \<not> success then Inr (False, l)
           else if startRead + 2 \<noteq> version l then
             ensure (isLatched l) (bind_r (unlatchExclusive l) (\<lambda>l. Inr (False, l)))
           else ensure (isLatched l) (Inr (True, l)))"

definition optimisticLatchOrRestart :: "HybridLatch \<Rightarrow> Version option" where
  "optimisticLatchOrRestart l = (let v = version l in if isLatchedV v then None else Some v)"

definition optimisticReadUnlatchOrRestart :: "Version \<Rightarrow> HybridLatch \<Rightarrow> bool" where
  "optimisticReadUnlatchOrRestart startRead l \<longleftrightarrow> startRead = version l"

definition optimisticCheckOrRestart :: "Version \<Rightarrow> HybridLatch \<Rightarrow> bool" where
  "optimisticCheckOrRestart v l = optimisticReadUnlatchOrRestart v l"

section \<open>Well-formed latches\<close>

text \<open>Between two functions of the latch the version says exactly whether a writer holds the mutex.\<close>

definition latch_ok :: "HybridLatch \<Rightarrow> bool" where
  "latch_ok l \<longleftrightarrow> (isLatched l \<longleftrightarrow> smut l = Writer) \<and> smut l \<noteq> Readers 0"

fun readers :: "HybridLatch \<Rightarrow> nat" where
  "readers l = (case smut l of Readers n \<Rightarrow> n | _ \<Rightarrow> 0)"

lemma isLatched_bump [simp]: "isLatched (bump l) \<longleftrightarrow> \<not> isLatched l"
  by (simp add: isLatched_def bump_def)

lemma bump_sel [simp]: "version (bump l) = version l + 2" "smut (bump l) = smut l"
  by (simp_all add: bump_def)

lemma new_HybridLatch_ok: "latch_ok new_HybridLatch" "\<not> isLatched new_HybridLatch"
  by (simp_all add: latch_ok_def new_HybridLatch_def isLatched_def isLatchedV_def)

lemma isLatched_smut [simp]: "isLatched (l\<lparr>smut := m\<rparr>) = isLatched l"
  by (simp add: isLatched_def)

lemma unlatchExclusive_ok:
  assumes "latch_ok l" and "isLatched l"
  shows "unlatchExclusive l = Inr (l\<lparr>version := version l + 2, smut := Unlocked\<rparr>)"
    and "latch_ok (l\<lparr>version := version l + 2, smut := Unlocked\<rparr>)"
  using assms by (auto simp: unlatchExclusive_def latch_ok_def Let_def bump_def isLatched_def)

lemma unlatchExclusive_free: "latch_ok l \<Longrightarrow> \<not> isLatched l \<Longrightarrow> unlatchExclusive l = Inl Ensure_failed"
  by (simp add: unlatchExclusive_def)

lemma tryLatchExclusive_ok:
  assumes "latch_ok l"
  shows "tryLatchExclusive l = (if smut l = Unlocked then (True, l\<lparr>version := version l + 2, smut := Writer\<rparr>) else (False, l))"
    and "latch_ok (snd (tryLatchExclusive l))"
  using assms by (cases "smut l"; auto simp: tryLatchExclusive_def latch_ok_def bump_def isLatched_def)+

lemma tryLatchShared_ok:
  assumes "latch_ok l"
  shows "tryLatchShared l = (if isLatched l then (False, l) else (True, l\<lparr>smut := Readers (readers l + 1)\<rparr>))"
    and "latch_ok (snd (tryLatchShared l))"
  using assms by (cases "smut l"; auto simp: tryLatchShared_def latch_ok_def)+

lemma unlatchShared_ok:
  assumes "latch_ok l" and "0 < readers l"
  shows "\<exists>l'. unlatchShared l = Inr l' \<and> latch_ok l' \<and> version l' = version l \<and> readers l' = readers l - 1"
proof -
  from assms(2) obtain n where "smut l = Readers (Suc n)" by (cases "smut l") (auto simp: gr0_conv_Suc)
  with assms(1) show ?thesis by (auto simp: unlatchShared_def latch_ok_def isLatched_def)
qed

text \<open>An upgrade that reports success owns the latch in the new mode at the version the reader started
  from, whatever happened in the gap; one that fails leaves what the other threads left.\<close>

lemma upgradeToExclusive_cases:
  assumes "latch_ok l" and "latch_ok (gap l)"
  obtains l' where "optimisticUpgradeToExclusive gap startRead l = Inr (True, l')" "latch_ok l'" "isLatched l'"
      "version l' = startRead + 2" "version (gap l) = startRead" "smut (gap l) = Unlocked" "version l = startRead"
  | l' where "optimisticUpgradeToExclusive gap startRead l = Inr (False, l')" "latch_ok l'"
      "l' = l \<or> l' = gap l \<or> (\<not> isLatched l' \<and> version l' = version (gap l) + 4)"
proof (cases "version l = startRead \<and> smut (gap l) = Unlocked")
  case False
  then have "optimisticUpgradeToExclusive gap startRead l = Inr (False, if version l = startRead then gap l else l)"
    using tryLatchExclusive_ok [OF assms(2)] by (simp add: optimisticUpgradeToExclusive_def)
  then show thesis using that(2) assms by (cases "version l = startRead") auto
next
  case True
  let ?l = "(gap l)\<lparr>version := version (gap l) + 2, smut := Writer\<rparr>"
  have t: "tryLatchExclusive (gap l) = (True, ?l)" using tryLatchExclusive_ok(1) [OF assms(2)] True by simp
  have ok: "latch_ok ?l" "isLatched ?l"
    using tryLatchExclusive_ok(2) [OF assms(2)] t by (simp_all add: latch_ok_def)
  show thesis
  proof (cases "version (gap l) = startRead")
    case eq: True
    then show thesis using that(1) [of ?l] t ok True by (simp add: optimisticUpgradeToExclusive_def)
  next
    case False
    then have "optimisticUpgradeToExclusive gap startRead l = Inr (False, ?l\<lparr>version := version ?l + 2, smut := Unlocked\<rparr>)"
      using t ok True unlatchExclusive_ok(1) [OF ok] by (simp add: optimisticUpgradeToExclusive_def)
    then show thesis
      using that(2) unlatchExclusive_ok(2) [OF ok] by (simp add: latch_ok_def add.assoc)
  qed
qed

lemma upgradeToShared_cases:
  assumes "latch_ok l" and "latch_ok (gap l)"
  obtains l' where "optimisticUpgradeToShared gap startRead l = Inr (True, l')" "latch_ok l'" "\<not> isLatched l'"
      "version l' = startRead" "0 < readers l'" "version (gap l) = startRead" "version l = startRead"
  | l' where "optimisticUpgradeToShared gap startRead l = Inr (False, l')" "latch_ok l'" "l' = l \<or> version l' = version (gap l)"
proof (cases "\<not> isLatched l \<and> version l = startRead \<and> \<not> isLatched (gap l)")
  case False
  then have "optimisticUpgradeToShared gap startRead l = Inr (False, if \<not> isLatched l \<and> version l = startRead then gap l else l)"
    using tryLatchShared_ok [OF assms(2)] by (auto simp: optimisticUpgradeToShared_def isLatched_def Let_def)
  then show thesis using that(2) assms by (cases "\<not> isLatched l \<and> version l = startRead") auto
next
  case True
  let ?l = "(gap l)\<lparr>smut := Readers (readers (gap l) + 1)\<rparr>"
  have t: "tryLatchShared (gap l) = (True, ?l)" and ok: "latch_ok ?l"
    using tryLatchShared_ok [OF assms(2)] True by simp_all
  show thesis
  proof (cases "version (gap l) = startRead")
    case eq: True
    then show thesis
      using that(1) [of ?l] t ok True by (simp add: optimisticUpgradeToShared_def isLatched_def Let_def)
  next
    case False
    obtain l' where l': "unlatchShared ?l = Inr l'" "latch_ok l'" "version l' = version (gap l)"
      using unlatchShared_ok [OF ok] by auto
    have "\<not> isLatchedV (version l)" using True by (auto simp: isLatched_def)
    then have "optimisticUpgradeToShared gap startRead l = Inr (False, l')"
      using t True False l'(1) by (simp add: optimisticUpgradeToShared_def)
    then show thesis using that(2) [of l'] l' by simp
  qed
qed

declare readers.simps [simp del]

section \<open>What an optimistic reader may rely on\<close>

text \<open>
  The contract: a writer is inside exactly while the version is marked, an upgrade succeeds only at the
  version the reader saw, and entering and leaving each add 2 to the version.  A \<open>section\<close> is one
  successful upgrade followed by the release.
\<close>

definition crit :: "(Version \<Rightarrow> 'l \<Rightarrow> 'l \<Rightarrow> bool) \<Rightarrow> ('l \<Rightarrow> 'l result) \<Rightarrow> 'l \<Rightarrow> 'l \<Rightarrow> bool" where
  "crit upgrade release l l'' \<longleftrightarrow> (\<exists>v l'. upgrade v l l' \<and> release l' = Inr l'')"

definition ol_enter :: "Version \<Rightarrow> OptimisticLatch \<Rightarrow> OptimisticLatch \<Rightarrow> bool" where
  "ol_enter v l l' \<longleftrightarrow> ol_upgradeToExclusiveLatch v l = (True, v + 2, l')"

definition hl_enter :: "Version \<Rightarrow> HybridLatch \<Rightarrow> HybridLatch \<Rightarrow> bool" where
  "hl_enter v l l' \<longleftrightarrow> optimisticUpgradeToExclusive (\<lambda>l. l) v l = Inr (True, l')"

locale version_latch =
  fixes ok :: "'l \<Rightarrow> bool" and ver :: "'l \<Rightarrow> Version"
    and read :: "'l \<Rightarrow> Version option" and validate :: "Version \<Rightarrow> 'l \<Rightarrow> bool"
    and upgrade :: "Version \<Rightarrow> 'l \<Rightarrow> 'l \<Rightarrow> bool" and release :: "'l \<Rightarrow> 'l result"
  assumes read_ok: "ok l \<Longrightarrow> read l = (if isLatchedV (ver l) then None else Some (ver l))"
    and validate_ok: "ok l \<Longrightarrow> validate v l \<longleftrightarrow> v = ver l"
    and upgrade_ok: "ok l \<Longrightarrow> upgrade v l l' \<Longrightarrow> ok l' \<and> ver l = v \<and> ver l' = v + 2 \<and> \<not> isLatchedV v"
    and release_ok: "ok l \<Longrightarrow> isLatchedV (ver l) \<Longrightarrow> \<exists>l'. release l = Inr l' \<and> ok l' \<and> ver l' = ver l + 2"
    and release_free: "ok l \<Longrightarrow> \<not> isLatchedV (ver l) \<Longrightarrow> release l = Inl Ensure_failed"
begin

lemma crit_step:
  assumes "ok l" and "crit upgrade release l l''"
  shows "ok l'' \<and> ver l'' = ver l + 4 \<and> \<not> isLatchedV (ver l'')"
proof -
  from assms(2) obtain v l' where c: "upgrade v l l'" "release l' = Inr l''" by (auto simp: crit_def)
  have u: "ok l'" "ver l = v" "ver l' = v + 2" "\<not> isLatchedV v" using upgrade_ok [OF assms(1) c(1)] by simp_all
  then have "isLatchedV (ver l')" by simp
  from release_ok [OF u(1) this] c(2) u show ?thesis by (simp add: add.assoc)
qed

lemma one_writer: "ok l \<Longrightarrow> upgrade v l l' \<Longrightarrow> \<not> upgrade w l' l''"
  using upgrade_ok by (metis isLatchedV_plus2)

lemma crits:
  assumes "(crit upgrade release ^^ n) l l'" and "ok l"
  shows "ok l' \<and> ver l' = ver l + of_nat (4 * n)"
  using assms
proof (induction n arbitrary: l')
  case (Suc n)
  from Suc.prems(1) obtain m where m: "(crit upgrade release ^^ n) l m" "crit upgrade release m l'" by (auto simp: relcompp_apply)
  then show ?case using Suc.IH [OF m(1) Suc.prems(2)] crit_step [OF _ m(2)] by simp
qed simp

text \<open>A validated read saw no writer, as long as fewer than \<open>2 ^ 62\<close> critical sections passed.\<close>

lemma validated_read:
  assumes "ok l" and "read l = Some v" and "(crit upgrade release ^^ n) l l'" and "n < 2 ^ 62" and "validate v l'"
  shows "n = 0 \<and> l' = l"
proof -
  have v: "v = ver l" using assms(1,2) read_ok by (auto split: if_splits)
  have "ver l = ver l + of_nat (4 * n)" using crits [OF assms(3,1)] assms(5) validate_ok v by metis
  then have "n = 0" using of_nat_4_eq_0 [OF assms(4)] by simp
  then show ?thesis using assms(3) by simp
qed

text \<open>And the bound is needed: the version is back after \<open>2 ^ 62\<close> sections.\<close>

lemma wraps: "ok l \<Longrightarrow> (crit upgrade release ^^ (2 ^ 62)) l l' \<Longrightarrow> ver l' = ver l"
  using crits by fastforce

end

interpretation ol: version_latch "\<lambda>_. True" typeVersionLockObsolete ol_optimisticLatchOrRestart ol_checkOrRestart
  ol_enter ol_unlatchExclusive
  by unfold_locales (auto simp: ol_optimisticLatchOrRestart_def ol_checkOrRestart_def ol_optimisticUnlatch_def Let_def
      ol_enter_def ol_upgradeToExclusiveLatch_def ol_unlatchExclusive_def ol_isLatched_def split: if_splits)

interpretation hl: version_latch latch_ok version optimisticLatchOrRestart optimisticCheckOrRestart hl_enter unlatchExclusive
proof
  fix l l' v assume l: "latch_ok l" and e: "hl_enter v l l'"
  show "latch_ok l' \<and> version l = v \<and> version l' = v + 2 \<and> \<not> isLatchedV v"
    by (rule upgradeToExclusive_cases [of l "\<lambda>l. l" v]) (use e l in \<open>auto simp: hl_enter_def latch_ok_def isLatched_def\<close>)
next
  fix l assume l: "latch_ok l" "isLatchedV (version l)"
  then show "\<exists>l'. unlatchExclusive l = Inr l' \<and> latch_ok l' \<and> version l' = version l + 2"
    using unlatchExclusive_ok [of l] by (simp add: isLatched_def)
qed (simp_all add: unlatchExclusive_free isLatched_def optimisticLatchOrRestart_def Let_def
    optimisticCheckOrRestart_def optimisticReadUnlatchOrRestart_def)

text \<open>an upgrade of a \<open>HybridLatch\<close> that reports success owns the latch exclusively, and the version
  it started from was current when it took the mutex, whatever other threads did between its two
  accesses; the upgrade to shared mode likewise.  An upgrade that fails holds nothing.\<close>

theorem hybrid_upgrades_sound:
  assumes "latch_ok l" and "latch_ok (gap l)"
  shows "(\<exists>b l'. optimisticUpgradeToExclusive gap v l = Inr (b, l') \<and> latch_ok l'
            \<and> (if b then smut l' = Writer \<and> version (gap l) = v \<and> version l' = v + 2 \<and> smut (gap l) = Unlocked
               else smut l' = Writer \<longrightarrow> smut l = Writer \<or> smut (gap l) = Writer))
       \<and> (\<exists>b l'. optimisticUpgradeToShared gap v l = Inr (b, l') \<and> latch_ok l'
            \<and> (if b then 0 < readers l' \<and> version (gap l) = v \<and> version l' = v \<and> smut (gap l) \<noteq> Writer
               else l' = l \<or> version l' = version (gap l)))"
proof
  show "\<exists>b l'. optimisticUpgradeToExclusive gap v l = Inr (b, l') \<and> latch_ok l'
      \<and> (if b then smut l' = Writer \<and> version (gap l) = v \<and> version l' = v + 2 \<and> smut (gap l) = Unlocked
         else smut l' = Writer \<longrightarrow> smut l = Writer \<or> smut (gap l) = Writer)"
    by (rule upgradeToExclusive_cases [of l gap v]) (use assms in \<open>auto simp: latch_ok_def\<close>)
  show "\<exists>b l'. optimisticUpgradeToShared gap v l = Inr (b, l') \<and> latch_ok l'
      \<and> (if b then 0 < readers l' \<and> version (gap l) = v \<and> version l' = v \<and> smut (gap l) \<noteq> Writer
         else l' = l \<or> version l' = version (gap l))"
    by (rule upgradeToShared_cases [of l gap v]) (use assms in \<open>auto simp: latch_ok_def isLatched_def\<close>)
qed

theorem hybrid_upgrades_sound_witness:
  "\<exists>b l'. optimisticUpgradeToExclusive (\<lambda>l. l) 4 new_HybridLatch = Inr (b, l') \<and> latch_ok l'"
  using hybrid_upgrades_sound [OF new_HybridLatch_ok(1), of "\<lambda>l. l" 4] new_HybridLatch_ok(1) by auto

text \<open>A validated optimistic read of a hash table bucket or of a frame overlapped no critical section
  of a writer, provided fewer than \<open>2 ^ 62\<close> sections were completed meanwhile.\<close>

theorem optimistic_read_valid:
  assumes "n < 2 ^ 62"
  shows "(ol_optimisticLatchOrRestart o1 = Some v \<longrightarrow> (crit ol_enter ol_unlatchExclusive ^^ n) o1 o2 \<longrightarrow> ol_checkOrRestart v o2 \<longrightarrow> n = 0 \<and> o2 = o1)
       \<and> (latch_ok l1 \<longrightarrow> optimisticLatchOrRestart l1 = Some w \<longrightarrow> (crit hl_enter unlatchExclusive ^^ n) l1 l2 \<longrightarrow> optimisticCheckOrRestart w l2 \<longrightarrow> n = 0 \<and> l2 = l1)"
  using ol.validated_read [of o1 v n o2, OF _ _ _ assms] hl.validated_read [of l1 w n l2, OF _ _ _ assms] by blast

theorem optimistic_read_valid_witness:
  "ol_optimisticLatchOrRestart new_OptimisticLatch = Some 4 \<and> ol_checkOrRestart 4 new_OptimisticLatch
   \<and> (\<nexists>o2. (crit ol_enter ol_unlatchExclusive ^^ 3) new_OptimisticLatch o2 \<and> ol_checkOrRestart 4 o2)"
  using optimistic_read_valid [of 3 new_OptimisticLatch 4]
  by (auto simp: new_OptimisticLatch_def ol_optimisticLatchOrRestart_def isLatchedV_def ol_checkOrRestart_def ol_optimisticUnlatch_def)

section \<open>Threads interleaving on one HybridLatch\<close>

text \<open>
  The accesses of \<open>latchExclusive\<close>/\<open>unlatchExclusive\<close> (lock, load, store, the protected writes, load,
  store, unlock), of \<open>latchShared\<close>/\<open>unlatchShared\<close> and of an optimistic read, one step each, by threads
  numbered by \<open>nat\<close>.  \<open>data\<close> is what the latch protects; \<open>stores\<close> counts the stores to the version and is
  read by no step.
\<close>

datatype pc = Idle | Entered | Loaded Version | Inside | Leaving Version | Unmarked | InShared | Reading Version

record 'd lsys =
  latch :: HybridLatch
  pcs :: "nat \<Rightarrow> pc"
  data :: 'd
  stores :: nat

definition goto_pc :: "nat \<Rightarrow> pc \<Rightarrow> 'd lsys \<Rightarrow> 'd lsys" where
  "goto_pc t p s = s\<lparr>pcs := (pcs s)(t := p)\<rparr>"

definition set_smut :: "shared_mutex \<Rightarrow> 'd lsys \<Rightarrow> 'd lsys" where
  "set_smut m s = s\<lparr>latch := (latch s)\<lparr>smut := m\<rparr>\<rparr>"

definition store_version :: "Version \<Rightarrow> 'd lsys \<Rightarrow> 'd lsys" where
  "store_version v s = s\<lparr>latch := (latch s)\<lparr>version := v\<rparr>, stores := stores s + 1\<rparr>"

inductive lstep :: "'d lsys \<Rightarrow> 'd lsys \<Rightarrow> bool" where
  x_lock: "pcs s t = Idle \<Longrightarrow> lock (smut (latch s)) = Inr m \<Longrightarrow> lstep s (goto_pc t Entered (set_smut m s))"
| x_load: "pcs s t = Entered \<Longrightarrow> lstep s (goto_pc t (Loaded (version (latch s))) s)"
| x_store: "pcs s t = Loaded v \<Longrightarrow> lstep s (goto_pc t Inside (store_version (v + 2) s))"
| x_write: "pcs s t = Inside \<Longrightarrow> lstep s (s\<lparr>data := d\<rparr>)"
| u_load: "pcs s t = Inside \<Longrightarrow> lstep s (goto_pc t (Leaving (version (latch s))) s)"
| u_store: "pcs s t = Leaving v \<Longrightarrow> lstep s (goto_pc t Unmarked (store_version (v + 2) s))"
| u_unlock: "pcs s t = Unmarked \<Longrightarrow> unlock (smut (latch s)) = Inr m \<Longrightarrow> lstep s (goto_pc t Idle (set_smut m s))"
| s_lock: "pcs s t = Idle \<Longrightarrow> lock_shared (smut (latch s)) = Inr m \<Longrightarrow> lstep s (goto_pc t InShared (set_smut m s))"
| s_unlock: "pcs s t = InShared \<Longrightarrow> unlock_shared (smut (latch s)) = Inr m \<Longrightarrow> lstep s (goto_pc t Idle (set_smut m s))"
| r_begin: "pcs s t = Idle \<Longrightarrow> optimisticLatchOrRestart (latch s) = Some v \<Longrightarrow> lstep s (goto_pc t (Reading v) s)"
| r_end: "pcs s t = Reading v \<Longrightarrow> lstep s (goto_pc t Idle s)"

definition linit :: "'d \<Rightarrow> 'd lsys" where
  "linit d = \<lparr>latch = new_HybridLatch, pcs = (\<lambda>_. Idle), data = d, stores = 0\<rparr>"

fun owns :: "pc \<Rightarrow> bool" where
  "owns Entered = True"
| "owns (Loaded v) = True"
| "owns Inside = True"
| "owns (Leaving v) = True"
| "owns Unmarked = True"
| "owns _ = False"

text \<open>What the program counter of the owner says about the version.\<close>

fun pc_ok :: "pc \<Rightarrow> Version \<Rightarrow> nat \<Rightarrow> bool" where
  "pc_ok (Loaded v) w n \<longleftrightarrow> v = w \<and> even n"
| "pc_ok (Leaving v) w n \<longleftrightarrow> v = w \<and> odd n"
| "pc_ok Inside w n \<longleftrightarrow> odd n"
| "pc_ok Entered w n \<longleftrightarrow> even n"
| "pc_ok Unmarked w n \<longleftrightarrow> even n"
| "pc_ok _ w n \<longleftrightarrow> True"

definition linv :: "'d lsys \<Rightarrow> bool" where
  "linv s \<longleftrightarrow> version (latch s) = of_nat (4 + 2 * stores s) \<and>
     (\<forall>t. pc_ok (pcs s t) (version (latch s)) (stores s)) \<and> finite {t. pcs s t = InShared} \<and>
     (case smut (latch s) of
        Writer \<Rightarrow> (\<exists>t. owns (pcs s t) \<and> (\<forall>t'. owns (pcs s t') \<longrightarrow> t' = t)) \<and> (\<forall>t. pcs s t \<noteq> InShared)
      | Unlocked \<Rightarrow> (\<forall>t. \<not> owns (pcs s t) \<and> pcs s t \<noteq> InShared) \<and> even (stores s)
      | Readers n \<Rightarrow> (\<forall>t. \<not> owns (pcs s t)) \<and> n = card {t. pcs s t = InShared} \<and> 0 < n \<and> even (stores s))"

lemmas lstep_defs = goto_pc_def set_smut_def store_version_def

lemma linv_init: "linv (linit d)"
  by (simp add: linv_def linit_def new_HybridLatch_def)

lemma pc_ok_idle: "\<not> owns p \<Longrightarrow> pc_ok p w n"
  by (cases p) simp_all

lemma InShared_upd:
  "{t'. ((pcs s)(t := p)) t' = InShared} = (if p = InShared then insert t else (\<lambda>T. T - {t})) {t'. pcs s t' = InShared}"
  by auto

lemma mutex_cases:
  "lock m = Inr m' \<longleftrightarrow> m = Unlocked \<and> m' = Writer"
  "unlock m = Inr m' \<longleftrightarrow> m = Writer \<and> m' = Unlocked"
  "lock_shared m = Inr m' \<longleftrightarrow> m = Unlocked \<and> m' = Readers 1 \<or> (\<exists>n. m = Readers n \<and> m' = Readers (n + 1))"
  "unlock_shared m = Inr m' \<longleftrightarrow> (\<exists>n. m = Readers (Suc n) \<and> m' = (if n = 0 then Unlocked else Readers n))"
proof -
  show "unlock_shared m = Inr m' \<longleftrightarrow> (\<exists>n. m = Readers (Suc n) \<and> m' = (if n = 0 then Unlocked else Readers n))"
    by (cases m rule: unlock_shared.cases) auto
qed (cases m; auto)+

lemma linv_owner:
  assumes "linv s" and "owns (pcs s t)"
  shows "smut (latch s) = Writer" and "\<And>t'. owns (pcs s t') \<Longrightarrow> t' = t" and "\<And>t. pcs s t \<noteq> InShared"
    and "version (latch s) = of_nat (4 + 2 * stores s)" and "pc_ok (pcs s t) (version (latch s)) (stores s)"
proof -
  show w: "smut (latch s) = Writer"
    using assms by (cases "smut (latch s)") (simp_all add: linv_def)
  show "owns (pcs s t') \<Longrightarrow> t' = t" for t' using assms w unfolding linv_def by (simp, metis)
  show "pcs s t \<noteq> InShared" for t using assms w by (simp add: linv_def)
  show "version (latch s) = of_nat (4 + 2 * stores s)" "pc_ok (pcs s t) (version (latch s)) (stores s)"
    using assms(1) unfolding linv_def by blast+
qed

text \<open>The owner of the mutex moves on; nobody else owns it, so no other program counter is affected.\<close>

lemma linv_owner_step:
  assumes "linv s" and "owns (pcs s t)" and "owns p"
    and "smut l = Writer" and "version l = of_nat (4 + 2 * n)" and "pc_ok p (version l) n"
  shows "linv (s\<lparr>latch := l, stores := n, pcs := (pcs s)(t := p)\<rparr>)"
proof -
  note w = linv_owner [OF assms(1,2)]
  have p: "p \<noteq> InShared" using assms(3) by auto
  have "pc_ok (((pcs s)(t := p)) t') (version l) n" for t'
    using assms(6) w(2) [of t'] pc_ok_idle [of "pcs s t'"] by (cases "t' = t") auto
  moreover have "owns (((pcs s)(t := p)) t') \<longleftrightarrow> t' = t" for t' using w(2) [of t'] assms(3) by auto
  moreover have "((pcs s)(t := p)) t' \<noteq> InShared" for t' using w(3) [of t'] p by auto
  ultimately show ?thesis using assms(4,5) by (simp add: linv_def del: fun_upd_apply)
qed

text \<open>A thread that holds nothing moves to a place where it holds nothing.\<close>

lemma linv_silent:
  assumes "linv s" and "\<not> owns (pcs s t)" "pcs s t \<noteq> InShared" and "\<not> owns p" "p \<noteq> InShared"
  shows "linv (s\<lparr>pcs := (pcs s)(t := p)\<rparr>)"
proof -
  let ?p = "(pcs s)(t := p)"
  have o: "owns (?p t') \<longleftrightarrow> owns (pcs s t')" and i: "?p t' = InShared \<longleftrightarrow> pcs s t' = InShared" for t'
    using assms(2-5) by auto
  have "pc_ok (?p t') (version (latch s)) (stores s)" for t'
    using assms(1,4) pc_ok_idle [of p] by (cases "t' = t") (auto simp: linv_def)
  then show ?thesis
    using assms(1) by (cases "smut (latch s)") (simp_all add: linv_def o i del: fun_upd_apply)
qed

lemma linv_step:
  assumes "lstep s s'" and "linv s"
  shows "linv s'"
  using assms
proof (induction rule: lstep.induct)
  case (x_lock s t m)
  then show ?case
    by (auto simp: linv_def lstep_defs mutex_cases InShared_upd intro!: exI [of _ t] split: if_splits)
next
  case (x_load s t)
  then show ?case
    using linv_owner_step [of s t "Loaded (version (latch s))" "latch s" "stores s"] linv_owner [of s t] by (simp add: lstep_defs)
next
  case (x_store s t v)
  then show ?case
    using linv_owner_step [of s t Inside "(latch s)\<lparr>version := v + 2\<rparr>" "stores s + 1"] linv_owner [of s t] by (simp add: lstep_defs)
next
  case (x_write s t d)
  have "linv (s\<lparr>data := d\<rparr>) \<longleftrightarrow> linv s" by (cases "smut (latch s)") (simp_all add: linv_def)
  with x_write show ?case by simp
next
  case (u_load s t)
  then show ?case
    using linv_owner_step [of s t "Leaving (version (latch s))" "latch s" "stores s"] linv_owner [of s t] by (simp add: lstep_defs)
next
  case (u_store s t v)
  then show ?case
    using linv_owner_step [of s t Unmarked "(latch s)\<lparr>version := v + 2\<rparr>" "stores s + 1"] linv_owner [of s t] by (simp add: lstep_defs)
next
  case (u_unlock s t m)
  then have o: "owns (pcs s t)" by simp
  note w = linv_owner [OF u_unlock(3) o]
  have "\<not> owns (((pcs s)(t := Idle)) t')" "((pcs s)(t := Idle)) t' \<noteq> InShared" for t' using w(2,3) [of t'] by auto
  moreover have "m = Unlocked" "even (stores s)" using u_unlock w(5) by (simp_all add: mutex_cases)
  ultimately show ?case
    using u_unlock(3) pc_ok_idle by (simp add: linv_def lstep_defs del: fun_upd_apply)
next
  case (s_lock s t m)
  let ?p = "(pcs s)(t := InShared)"
  have R: "\<And>t'. \<not> owns (?p t')" "even (stores s)"
    using s_lock by (auto simp: linv_def mutex_cases)
  have fin: "finite {t'. pcs s t' = InShared}" "t \<notin> {t'. pcs s t' = InShared}" using s_lock by (simp_all add: linv_def)
  have set: "{t'. ?p t' = InShared} = insert t {t'. pcs s t' = InShared}" by auto
  have "m = Readers (card {t'. ?p t' = InShared})"
    using s_lock(2,3) fin unfolding set by (auto simp: mutex_cases linv_def)
  moreover have "0 < card {t'. ?p t' = InShared}" "finite {t'. ?p t' = InShared}" using fin unfolding set by (simp_all add: card_gt_0_iff)
  ultimately show ?case
    using s_lock(3) R pc_ok_idle by (simp add: linv_def lstep_defs del: fun_upd_apply)
next
  case (s_unlock s t m)
  let ?p = "(pcs s)(t := Idle)"
  obtain n where n: "smut (latch s) = Readers (Suc n)" "m = (if n = 0 then Unlocked else Readers n)"
    using s_unlock(2) by (auto simp: mutex_cases)
  have R: "\<And>t'. \<not> owns (?p t')" "even (stores s)" "Suc n = card {t'. pcs s t' = InShared}" "finite {t'. pcs s t' = InShared}"
    using s_unlock n by (auto simp: linv_def)
  have "{t'. ?p t' = InShared} = {t'. pcs s t' = InShared} - {t}" by auto
  then have c: "card {t'. ?p t' = InShared} = n" "finite {t'. ?p t' = InShared}" using R(3,4) s_unlock(1) by simp_all
  moreover have "?p t' \<noteq> InShared" if "n = 0" for t' using c that by (simp add: card_eq_0_iff)
  ultimately show ?case
    using s_unlock(3) R(1,2) pc_ok_idle n by (simp add: linv_def lstep_defs del: fun_upd_apply)
next
  case (r_begin s t v)
  then show ?case using linv_silent [of s t "Reading v"] by (simp add: goto_pc_def)
next
  case (r_end s t v)
  then show ?case using linv_silent [of s t Idle] by (simp add: goto_pc_def)
qed

lemma linv_reach: "lstep\<^sup>*\<^sup>* s s' \<Longrightarrow> linv s \<Longrightarrow> linv s'"
  by (induction rule: rtranclp_induct) (auto intro: linv_step)



lemma lstep_data:
  assumes "lstep s s'" and "linv s"
  shows "stores s \<le> stores s'" and "even (stores s) \<Longrightarrow> data s' = data s"
proof -
  show "stores s \<le> stores s'" using assms(1) by cases (simp_all add: lstep_defs)
  show "data s' = data s" if "even (stores s)"
    using assms(1)
  proof cases
    case (x_write t d)
    then show ?thesis using linv_owner(5) [OF assms(2), of t] that by simp
  qed (simp_all add: lstep_defs)
qed

lemma lsteps_data:
  assumes "lstep\<^sup>*\<^sup>* s s'" and "linv s"
  shows "stores s \<le> stores s' \<and> (even (stores s) \<longrightarrow> stores s' = stores s \<longrightarrow> data s' = data s)"
  using assms
proof (induction rule: rtranclp_induct)
  case (step m s')
  from lstep_data [OF step.hyps(2)] linv_reach [OF step.hyps(1) step.prems] step.IH step.prems
  show ?case by (metis le_antisym le_trans)
qed simp

text \<open>C18: validation.  A thread read version \<open>v\<close> unmarked in state \<open>s\<close> and finds it unchanged in \<open>s'\<close>; then
  the protected data had the same value at every moment in between, if the version was stored fewer than
  \<open>2 ^ 63\<close> times.  The steps are those of any number of threads.\<close>

theorem optimistic_validation_sound:
  assumes "lstep\<^sup>*\<^sup>* (linit d) s" and "optimisticLatchOrRestart (latch s) = Some v"
    and "lstep\<^sup>*\<^sup>* s m" and "lstep\<^sup>*\<^sup>* m s'" and "optimisticReadUnlatchOrRestart v (latch s')"
    and "stores s' - stores s < 2 ^ 63"
  shows "data m = data s \<and> data s' = data s \<and> \<not> isLatched (latch m)"
proof -
  have inv: "linv s" "linv m" "linv s'" using linv_reach linv_init assms(1,3,4) by (metis rtranclp_trans)+
  have ver: "version (latch x) = of_nat (4 + 2 * stores x)" if "linv x" for x :: "'a lsys"
    using that by (simp add: linv_def)
  have le: "stores s \<le> stores m" "stores m \<le> stores s'" using lsteps_data assms(3,4) inv by blast+
  have "(of_nat (4 + 2 * stores s) :: u64) = of_nat (4 + 2 * stores s')"
    using assms(2,5) ver [OF inv(1)] ver [OF inv(3)]
    by (simp add: optimisticLatchOrRestart_def optimisticReadUnlatchOrRestart_def Let_def split: if_splits)
  then have "(of_nat (2 * (stores s' - stores s)) :: u64) = 0" using le by (simp add: of_nat_diff)
  then have same: "stores s' = stores s"
    using assms(6) le by (subst (asm) word_of_nat_eq_0_iff) (auto dest!: dvd_imp_le)
  have even: "even (stores s)"
    using assms(2) ver [OF inv(1)] isLatchedV_even [of "stores s"] by (auto simp: optimisticLatchOrRestart_def Let_def split: if_splits)
  have mid: "stores m = stores s" using same le by simp
  have "data m = data s" using lsteps_data [OF assms(3) inv(1)] even mid by blast
  moreover have "data s' = data m" using lsteps_data [OF assms(4) inv(2)] even mid same by metis
  moreover have "\<not> isLatched (latch m)"
    unfolding isLatched_def ver [OF inv(2)] isLatchedV_even using even mid by simp
  ultimately show ?thesis by simp
qed

theorem optimistic_validation_sound_witness:
  "\<exists>m. lstep\<^sup>*\<^sup>* (linit (5 :: nat)) m \<and> pcs m 3 = Reading 4 \<and> data m = 5 \<and> \<not> isLatched (latch m)"
proof -
  define m where "m = goto_pc 3 (Reading 4) (linit (5 :: nat))"
  have r: "optimisticLatchOrRestart (latch (linit (5 :: nat))) = Some 4"
    by (simp add: linit_def new_HybridLatch_def optimisticLatchOrRestart_def isLatchedV_def)
  then have "lstep (linit 5) m" unfolding m_def by (intro r_begin) (simp_all add: linit_def)
  then have m: "lstep\<^sup>*\<^sup>* (linit 5) m" by blast
  moreover have "optimisticReadUnlatchOrRestart 4 (latch m)" "stores m = 0" "pcs m 3 = Reading 4"
    by (simp_all add: m_def goto_pc_def linit_def new_HybridLatch_def optimisticReadUnlatchOrRestart_def)
  ultimately show ?thesis
    using optimistic_validation_sound [OF rtranclp.rtrancl_refl r m rtranclp.rtrancl_refl] by (auto simp: linit_def)
qed

end
