(* ===== verification/Bitmap.thy ===== *)
theory Bitmap
  imports ScalePrelude
begin

unbundle bit_operations_syntax

text \<open>
  The bitmaps of backend/scalestore/storage/datastructures/Bitmap.hpp.  \<open>StaticBitmap<64>\<close> is one
  64-bit word (it records the nodes that share a page); \<open>StaticBitmap<SIZE>\<close>, \<open>Bitmap\<close> and
  \<open>AtomicBitmap\<close> are arrays of words.  The callback of \<open>applyForAll\<close> and its kin is a state
  transformer, so a call is a function of the state it is run on.
\<close>

section \<open>The compiler's bit counting\<close>

text \<open>The set bits of a word in ascending order: the reference for the decoding loops.\<close>

definition bits_of :: "u64 \<Rightarrow> nat list" where
  "bits_of w = filter (bit w) [0..<64]"

text \<open>\<open>__builtin_ctzll\<close> has no meaning for 0; the code calls it on non-zero words only.\<close>

definition ctzll :: "u64 \<Rightarrow> nat" where
  "ctzll w = (case bits_of w of [] \<Rightarrow> 64 | i # _ \<Rightarrow> i)"

definition popcountll :: "u64 \<Rightarrow> nat" where
  "popcountll w = length (bits_of w)"

lemma bits_of_0 [simp]: "bits_of 0 = []"
  by (simp add: bits_of_def)

lemma set_bits_of: "set (bits_of w) = {i. bit w i}"
  using bit_imp_le_length [of w] by (auto simp: bits_of_def)

lemma bits_of_eq_Nil [simp]: "bits_of w = [] \<longleftrightarrow> w = 0"
proof
  assume "bits_of w = []"
  then have "{i. bit w i} = {}" using set_bits_of [of w] by simp
  then show "w = 0" by (intro bit_eqI) auto
qed simp

lemma sorted_bits_of: "sorted_wrt (<) (bits_of w)"
  by (simp add: bits_of_def sorted_wrt_filter)

lemma bits_of_eqI: "sorted_wrt (<) xs \<Longrightarrow> set xs = {i. bit w i} \<Longrightarrow> bits_of w = xs"
  by (metis set_bits_of sorted_bits_of strict_sorted_equal)

lemma bits_of_ctzll: "w \<noteq> 0 \<Longrightarrow> bits_of w = ctzll w # tl (bits_of w)"
  using bits_of_eq_Nil [of w] by (cases "bits_of w") (simp_all add: ctzll_def)

lemma ctzll_props:
  assumes "w \<noteq> 0"
  shows "bit w (ctzll w)" and "bit w n \<Longrightarrow> ctzll w \<le> n" and "ctzll w < 64"
proof -
  note hd = bits_of_ctzll [OF assms]
  have "ctzll w \<in> set (bits_of w)" by (subst hd) simp
  then show b: "bit w (ctzll w)" by (simp add: set_bits_of)
  then show "ctzll w < 64" using bit_imp_le_length [of w] by simp
  assume "bit w n"
  then have "n \<in> set (ctzll w # tl (bits_of w))"
    using hd by (metis mem_Collect_eq set_bits_of)
  then show "ctzll w \<le> n"
    using sorted_bits_of [of w] by (subst (asm) hd) auto
qed

lemma isolate_lowest: "w \<noteq> 0 \<Longrightarrow> w AND (- w) = push_bit (ctzll w) 1"
  by (rule and_minus_lowbit) (auto simp: ctzll_props dest: ctzll_props(2))

lemma bits_of_clear_lowest:
  assumes "w \<noteq> 0"
  shows "bits_of w = ctzll w # bits_of (w XOR (w AND (- w)))"
proof (rule bits_of_eqI)
  let ?w = "w XOR (w AND (- w))"
  have bit: "bit ?w n \<longleftrightarrow> bit w n \<and> ctzll w < n" for n
    using ctzll_props(2) [OF assms, of n] bit_imp_le_length [of w n]
    by (auto simp: isolate_lowest [OF assms] bit_simps ctzll_props(1) [OF assms])
  show "sorted_wrt (<) (ctzll w # bits_of ?w)"
    by (simp add: sorted_bits_of set_bits_of bit)
  show "set (ctzll w # bits_of ?w) = {i. bit w i}"
    using ctzll_props [OF assms] by (auto simp: set_bits_of bit le_less)
qed

section \<open>StaticBitmap of 64 bits\<close>

type_synonym StaticBitmap64 = u64

definition bm64_bit :: "u64 \<Rightarrow> u64" where
  "bm64_bit p = push_bit (unat (p AND 63)) 1"

definition bm64_set :: "StaticBitmap64 \<Rightarrow> u64 \<Rightarrow> StaticBitmap64" where
  "bm64_set bm p = bm OR bm64_bit p"

definition bm64_reset :: "StaticBitmap64 \<Rightarrow> u64 \<Rightarrow> StaticBitmap64" where
  "bm64_reset bm p = bm AND NOT (bm64_bit p)"

definition bm64_reset_all :: "StaticBitmap64 \<Rightarrow> StaticBitmap64" where
  "bm64_reset_all bm = 0"

definition bm64_test :: "StaticBitmap64 \<Rightarrow> u64 \<Rightarrow> bool" where
  "bm64_test bm p \<longleftrightarrow> bm AND bm64_bit p \<noteq> 0"

definition bm64_none :: "StaticBitmap64 \<Rightarrow> bool" where
  "bm64_none bm \<longleftrightarrow> \<not> bm \<noteq> 0"

definition bm64_any :: "StaticBitmap64 \<Rightarrow> bool" where
  "bm64_any bm \<longleftrightarrow> \<not> bm64_none bm"

definition bm64_count :: "StaticBitmap64 \<Rightarrow> nat" where
  "bm64_count bm = 0 + popcountll bm"

text \<open>The loop \<open>while (bitset != 0)\<close> shared by the decoders: visit the lowest bit, clear it.\<close>

function bits_loop :: "(nat \<Rightarrow> 's \<Rightarrow> 's) \<Rightarrow> u64 \<Rightarrow> 's \<Rightarrow> 's" where
  "bits_loop f bitset s =
     (if bitset \<noteq> 0 then
        let t = bitset AND (- bitset); r = ctzll bitset
        in bits_loop f (bitset XOR t) (f r s)
      else s)"
  by pat_completeness auto
termination
  by (relation "measure (\<lambda>(f, bitset, s). length (bits_of bitset))")
    (simp_all add: bits_of_clear_lowest)

declare bits_loop.simps [simp del]

lemma bits_loop_fold: "bits_loop f w s = fold f (bits_of w) s"
proof (induction f w s rule: bits_loop.induct)
  case (1 f w s)
  show ?case
  proof (cases "w = 0")
    case True
    then show ?thesis by (simp add: bits_loop.simps)
  next
    case False
    with 1 show ?thesis
      by (subst bits_loop.simps) (simp add: bits_of_clear_lowest [OF False] Let_def)
  qed
qed

text \<open>\<open>applyForAll\<close> returns its local \<open>pos\<close>, which no statement changes.\<close>

definition bm64_applyForAll :: "(nat \<Rightarrow> 's \<Rightarrow> 's) \<Rightarrow> StaticBitmap64 \<Rightarrow> 's \<Rightarrow> nat \<times> 's" where
  "bm64_applyForAll func bm s = (0, bits_loop func bm s)"

definition bm64_decode_ctz :: "StaticBitmap64 \<Rightarrow> nat list" where
  "bm64_decode_ctz bm = bits_loop (\<lambda>r out. out @ [r]) bm []"

definition bm64_applyToOne :: "(nat \<Rightarrow> 's \<Rightarrow> 's) \<Rightarrow> StaticBitmap64 \<Rightarrow> 's \<Rightarrow> 's" where
  "bm64_applyToOne func bm s = (if bm \<noteq> 0 then func (ctzll bm) s else s)"

text \<open>\<open>answ\<close> is not initialised before the loop: \<open>None\<close> stands for reading it unset.\<close>

definition bm64_getHighestBitSet :: "StaticBitmap64 \<Rightarrow> nat option" where
  "bm64_getHighestBitSet bm = bits_loop (\<lambda>r _. Some r) bm None"

definition bm64_getFreeSlot :: "StaticBitmap64 \<Rightarrow> nat option" where
  "bm64_getFreeSlot bm = (if bm \<noteq> 0xFFFFFFFFFFFFFFFF then Some (ctzll (NOT bm)) else None)"

text \<open>The loop of \<open>applyToOneRnd\<close>: \<open>pick\<close> is the value of \<open>getRandU64(0, cnt - 1)\<close>.\<close>

function pick_loop :: "(nat \<Rightarrow> 's \<Rightarrow> 's) \<Rightarrow> nat \<Rightarrow> nat \<Rightarrow> u64 \<Rightarrow> 's \<Rightarrow> 's" where
  "pick_loop f pick idx bitset s =
     (if bitset \<noteq> 0 then
        if idx = pick then f (ctzll bitset) s
        else pick_loop f pick (idx + 1) (bitset XOR (bitset AND (- bitset))) s
      else s)"
  by pat_completeness auto
termination
  by (relation "measure (\<lambda>(f, pick, idx, bitset, s). length (bits_of bitset))")
    (simp_all add: bits_of_clear_lowest)

declare pick_loop.simps [simp del]

definition bm64_applyToOneRnd :: "(nat \<Rightarrow> nat) \<Rightarrow> (nat \<Rightarrow> 's \<Rightarrow> 's) \<Rightarrow> StaticBitmap64 \<Rightarrow> 's \<Rightarrow> 's" where
  "bm64_applyToOneRnd rnd func bm s =
     (let cnt = bm64_count bm
      in if cnt = 1 then bm64_applyToOne func bm s
         else pick_loop func (rnd cnt) 0 bm s)"

section \<open>Bitmaps over arrays of words\<close>

text \<open>
  \<open>StaticBitmap<SIZE>\<close> holds \<open>SIZE >> 6\<close> words.  A bit position whose word lies outside the array
  is an access C++ leaves undefined; the model returns \<open>Out_of_bounds\<close>.
\<close>

type_synonym words = "u64 list"

definition static_init :: "nat \<Rightarrow> words result" where
  "static_init SIZE = ensure (SIZE mod 64 = 0) (Inr (replicate (SIZE div 64) 0))"

definition word_pos :: "u64 \<Rightarrow> nat" where
  "word_pos p = unat (drop_bit 6 p)"

definition static_set :: "words \<Rightarrow> u64 \<Rightarrow> words result" where
  "static_set bm p = bind_r (array_get bm (word_pos p)) (\<lambda>w. Inr (bm[word_pos p := w OR bm64_bit p]))"

definition static_reset :: "words \<Rightarrow> u64 \<Rightarrow> words result" where
  "static_reset bm p = bind_r (array_get bm (word_pos p)) (\<lambda>w. Inr (bm[word_pos p := w AND NOT (bm64_bit p)]))"

definition static_test :: "words \<Rightarrow> u64 \<Rightarrow> bool result" where
  "static_test bm p = bind_r (array_get bm (word_pos p)) (\<lambda>w. Inr (w AND bm64_bit p \<noteq> 0))"

definition static_reset_all :: "words \<Rightarrow> words" where
  "static_reset_all bm = map (\<lambda>_. 0) bm"

text \<open>The loop over the words: \<open>k\<close> counts up, each word is decoded with offset \<open>k * 64\<close>.\<close>

fun words_loop :: "(nat \<Rightarrow> 's \<Rightarrow> 's) \<Rightarrow> nat \<Rightarrow> words \<Rightarrow> 's \<Rightarrow> 's" where
  "words_loop f k [] s = s"
| "words_loop f k (w # ws) s = words_loop f (k + 1) ws (bits_loop (\<lambda>r. f (k * 64 + r)) w s)"

definition static_applyForAll :: "(nat \<Rightarrow> 's \<Rightarrow> 's) \<Rightarrow> words \<Rightarrow> 's \<Rightarrow> nat \<times> 's" where
  "static_applyForAll func bm s = (0, words_loop func 0 bm s)"

definition static_decode_ctz :: "words \<Rightarrow> nat list" where
  "static_decode_ctz bm = words_loop (\<lambda>i out. out @ [i]) 0 bm []"

fun static_none :: "words \<Rightarrow> bool" where
  "static_none [] = True"
| "static_none (w # ws) = (if w \<noteq> 0 then False else static_none ws)"

definition static_any :: "words \<Rightarrow> bool" where
  "static_any bm \<longleftrightarrow> \<not> static_none bm"

fun static_applyToOne :: "(nat \<Rightarrow> 's \<Rightarrow> 's) \<Rightarrow> nat \<Rightarrow> words \<Rightarrow> 's \<Rightarrow> 's" where
  "static_applyToOne f k [] s = s"
| "static_applyToOne f k (w # ws) s =
     (if w \<noteq> 0 then f (k * 64 + ctzll w) s else static_applyToOne f (k + 1) ws s)"

definition static_getHighestBitSet :: "words \<Rightarrow> nat option" where
  "static_getHighestBitSet bm = words_loop (\<lambda>i _. Some i) 0 bm None"

definition static_count :: "words \<Rightarrow> nat" where
  "static_count bm = fold (\<lambda>w answ. answ + popcountll w) bm 0"

fun static_getFreeSlot :: "nat \<Rightarrow> words \<Rightarrow> nat option" where
  "static_getFreeSlot k [] = None"
| "static_getFreeSlot k (w # ws) =
     (if w \<noteq> 0xFFFFFFFFFFFFFFFF then Some (k * 64 + ctzll (NOT w)) else static_getFreeSlot (k + 1) ws)"

text \<open>\<open>Bitmap\<close>: the same array, allocated at run time, with its extents kept in the object.\<close>

record Bitmap =
  bitmap :: words
  size_words :: nat
  sizeBits :: nat

definition Bitmap_init :: "nat \<Rightarrow> Bitmap result" where
  "Bitmap_init n = ensure (n mod 64 = 0)
     (Inr \<lparr>bitmap = replicate (n div 64) 0, size_words = n div 64, sizeBits = n\<rparr>)"

definition Bitmap_set :: "Bitmap \<Rightarrow> u64 \<Rightarrow> Bitmap result" where
  "Bitmap_set b p = bind_r (static_set (bitmap b) p) (\<lambda>ws. Inr (b\<lparr>bitmap := ws\<rparr>))"

definition Bitmap_reset :: "Bitmap \<Rightarrow> u64 \<Rightarrow> Bitmap result" where
  "Bitmap_reset b p = bind_r (static_reset (bitmap b) p) (\<lambda>ws. Inr (b\<lparr>bitmap := ws\<rparr>))"

definition Bitmap_test :: "Bitmap \<Rightarrow> u64 \<Rightarrow> bool result" where
  "Bitmap_test b p = static_test (bitmap b) p"

definition Bitmap_decode_ctz :: "Bitmap \<Rightarrow> nat list" where
  "Bitmap_decode_ctz b = words_loop (\<lambda>i out. out @ [i]) 0 (take (size_words b) (bitmap b)) []"

definition Bitmap_applyForAll :: "(nat \<Rightarrow> 's \<Rightarrow> 's) \<Rightarrow> Bitmap \<Rightarrow> 's \<Rightarrow> nat \<times> 's" where
  "Bitmap_applyForAll func b s = (0, words_loop func 0 (take (size_words b) (bitmap b)) s)"

definition Bitmap_getHighestBitSet :: "Bitmap \<Rightarrow> nat option" where
  "Bitmap_getHighestBitSet b = words_loop (\<lambda>i _. Some i) 0 (take (size_words b) (bitmap b)) None"

definition Bitmap_count :: "Bitmap \<Rightarrow> nat" where
  "Bitmap_count b = fold (\<lambda>w answ. answ + popcountll w) (take (size_words b) (bitmap b)) 0"

definition Bitmap_getFreeSlot :: "Bitmap \<Rightarrow> nat option" where
  "Bitmap_getFreeSlot b = static_getFreeSlot 0 (take (size_words b) (bitmap b))"

section \<open>Properties of the 64-bit bitmap\<close>

lemma bm64_bit_iff: "bit (bm64_bit p) n \<longleftrightarrow> n = unat p mod 64"
proof -
  have "p AND 63 = take_bit 6 p"
    by (simp add: take_bit_eq_mask mask_eq_exp_minus_1)
  then have u: "unat (p AND 63) = unat p mod 64"
    by (simp add: take_bit_eq_mod unat_mod)
  then have "unat (p AND 63) < 64" by simp
  then show ?thesis
    by (auto simp: bm64_bit_def bit_simps u)
qed

lemma bm64_test_iff: "bm64_test bm p \<longleftrightarrow> bit bm (unat p mod 64)"
proof -
  have "bm AND bm64_bit p \<noteq> 0 \<longleftrightarrow> (\<exists>n. bit (bm AND bm64_bit p) n)"
    by (metis bit_0_eq bit_eqI bot_apply bot_bool_def)
  also have "\<dots> \<longleftrightarrow> bit bm (unat p mod 64)"
    by (simp add: bit_and_iff bm64_bit_iff)
  finally show ?thesis by (simp add: bm64_test_def)
qed

lemma bit_bm64_set: "bit (bm64_set bm p) n \<longleftrightarrow> bit bm n \<or> n = unat p mod 64"
  by (simp add: bm64_set_def bit_or_iff bm64_bit_iff)

lemma bit_bm64_reset: "bit (bm64_reset bm p) n \<longleftrightarrow> bit bm n \<and> n \<noteq> unat p mod 64"
  using bit_imp_le_length [of bm n]
  by (auto simp: bm64_reset_def bit_and_iff bit_not_iff bm64_bit_iff)

text \<open>The nodes a bitmap names; node ids are below 64 (\<open>MAX_NODES\<close>).\<close>

definition bm64_nodes :: "StaticBitmap64 \<Rightarrow> nat set" where
  "bm64_nodes bm = set (bits_of bm)"

lemma bm64_nodes_bit: "n \<in> bm64_nodes bm \<longleftrightarrow> bit bm n"
  by (simp add: bm64_nodes_def set_bits_of)

lemma bm64_nodes_0 [simp]: "bm64_nodes 0 = {}"
  by (simp add: bm64_nodes_def)

lemma bm64_nodes_empty_iff: "bm64_nodes bm = {} \<longleftrightarrow> bm = 0"
  by (simp add: bm64_nodes_def)

lemma finite_bm64_nodes [simp]: "finite (bm64_nodes bm)"
  by (simp add: bm64_nodes_def)

lemma bm64_nodes_lt: "n \<in> bm64_nodes bm \<Longrightarrow> n < 64"
  using bit_imp_le_length [of bm n] by (simp add: bm64_nodes_bit)

text \<open>the 64-bit bitmap implements a finite set of node ids: \<open>set\<close>, \<open>reset\<close>, \<open>test\<close>, \<open>none\<close>,
  \<open>any\<close> and \<open>count\<close> are insertion, deletion, membership, emptiness and cardinality.\<close>

theorem bm64_is_node_set:
  "bm64_nodes (bm64_set bm p) = insert (unat p mod 64) (bm64_nodes bm)
   \<and> bm64_nodes (bm64_reset bm p) = bm64_nodes bm - {unat p mod 64}
   \<and> bm64_test bm p = (unat p mod 64 \<in> bm64_nodes bm)
   \<and> bm64_none bm = (bm64_nodes bm = {}) \<and> bm64_any bm = (bm64_nodes bm \<noteq> {})
   \<and> bm64_count bm = card (bm64_nodes bm) \<and> bm64_nodes (bm64_reset_all bm) = {}"
proof -
  have "distinct (bits_of bm)"
    by (simp add: bits_of_def)
  then have "bm64_count bm = card (bm64_nodes bm)"
    by (simp add: bm64_count_def popcountll_def bm64_nodes_def distinct_card)
  then show ?thesis
    by (auto simp: bm64_nodes_bit bit_bm64_set bit_bm64_reset bm64_test_iff bm64_none_def bm64_any_def
        bm64_reset_all_def bm64_nodes_empty_iff)
qed

text \<open>\<open>applyForAll\<close> calls its function exactly once for every node in the set, in ascending
  order, also when the function itself changes the bitmap object (it iterates over a copy); the
  returned count is always 0.\<close>

theorem bm64_applyForAll_visits:
  "bm64_applyForAll func bm s = (0, fold func (bits_of bm) s)
   \<and> sorted_wrt (<) (bits_of bm) \<and> set (bits_of bm) = bm64_nodes bm"
  by (simp add: bm64_applyForAll_def bits_loop_fold sorted_bits_of bm64_nodes_def)

lemma fold_snoc: "fold (\<lambda>r out. out @ [f r]) xs ys = ys @ map f xs"
  by (induction xs arbitrary: ys) auto

lemma fold_Some: "fold (\<lambda>r _. Some r) xs z = (if xs = [] then z else Some (last xs))"
  by (induction xs arbitrary: z) auto

lemma bm64_decode_ctz_eq: "bm64_decode_ctz bm = bits_of bm"
  using fold_snoc [of "\<lambda>r. r" "bits_of bm" "[]"] by (simp add: bm64_decode_ctz_def bits_loop_fold)

lemma pick_loop_nth:
  "idx \<le> pick \<Longrightarrow> pick_loop f pick idx w s =
     (if pick - idx < length (bits_of w) then f (bits_of w ! (pick - idx)) s else s)"
proof (induction f pick idx w s rule: pick_loop.induct)
  case (1 f pick idx w s)
  show ?case
  proof (cases "w = 0 \<or> idx = pick")
    case True
    then show ?thesis
      by (subst pick_loop.simps) (auto simp: bits_of_clear_lowest)
  next
    case False
    then have "pick - idx = Suc (pick - (idx + 1))" using "1.prems" by arith
    with False "1.IH" "1.prems" show ?thesis
      by (subst pick_loop.simps) (simp add: bits_of_clear_lowest [of w])
  qed
qed

text \<open>\<open>applyToOneRnd\<close> on a non-empty set, with the random pick below the count, calls its
  function exactly once, on a member of the set, and a pick below the count exists for every member (the code asks for a
  number in the half-open interval up to the count minus one, so that the last member is out of its reach).\<close>

theorem bm64_applyToOneRnd_member:
  assumes "bm64_any bm" and "\<And>c. 0 < c \<Longrightarrow> rnd c < c"
  shows "(\<exists>n\<in>bm64_nodes bm. bm64_applyToOneRnd rnd func bm s = func n s)
    \<and> (\<forall>n\<in>bm64_nodes bm. \<exists>r<bm64_count bm. bm64_applyToOneRnd (\<lambda>_. r) func bm s = func n s)"
proof -
  from assms(1) have nz: "bm \<noteq> 0"
    by (simp add: bm64_any_def bm64_none_def)
  then have pos: "0 < bm64_count bm"
    by (simp add: bm64_count_def popcountll_def)
  have one: "bm64_applyToOne func bm s = func (bits_of bm ! 0) s"
    by (simp add: bm64_applyToOne_def nz bits_of_clear_lowest [OF nz])
  have len: "bm64_count bm = length (bits_of bm)"
    by (simp add: bm64_count_def popcountll_def)
  have nth: "bm64_applyToOneRnd rnd func bm s = func (bits_of bm ! rnd (bm64_count bm)) s"
    if "rnd (bm64_count bm) < bm64_count bm" for rnd
    using that one by (cases "bm64_count bm = 1")
      (simp_all add: bm64_applyToOneRnd_def Let_def pick_loop_nth len)
  have "\<exists>n\<in>bm64_nodes bm. bm64_applyToOneRnd rnd func bm s = func n s"
    using nth [of rnd, OF assms(2) [OF pos]] assms(2) [OF pos] len
    by (metis bm64_nodes_def nth_mem)
  moreover have "\<exists>r<bm64_count bm. bm64_applyToOneRnd (\<lambda>_. r) func bm s = func n s"
    if mem: "n \<in> bm64_nodes bm" for n
  proof -
    obtain r where "r < length (bits_of bm)" "bits_of bm ! r = n"
      using mem unfolding bm64_nodes_def in_set_conv_nth by blast
    then show ?thesis using nth [of "\<lambda>_. r"] len by metis
  qed
  ultimately show ?thesis by blast
qed

theorem bm64_applyToOneRnd_member_witness:
  "\<exists>n\<in>bm64_nodes 5. bm64_applyToOneRnd (\<lambda>c. c - 1) (#) 5 [] = [n]"
  using bm64_applyToOneRnd_member [of 5 "\<lambda>c. c - 1" "(#)" "[]"]
  by (simp add: bm64_any_def bm64_none_def)

lemma bit_ones [simp]: "bit (0xFFFFFFFFFFFFFFFF :: u64) n \<longleftrightarrow> n < 64"
proof -
  have "(0xFFFFFFFFFFFFFFFF :: u64) = NOT 0" by simp
  then have "bit (0xFFFFFFFFFFFFFFFF :: u64) n \<longleftrightarrow> bit (NOT (0 :: u64)) n" by (rule arg_cong)
  then show ?thesis by (simp only: bit_not_iff bit_0_eq possible_bit_word) simp
qed

lemma ctzll_not_props:
  assumes "w \<noteq> (0xFFFFFFFFFFFFFFFF :: u64)"
  shows "ctzll (NOT w) < 64" "\<not> bit w (ctzll (NOT w))" "n < ctzll (NOT w) \<Longrightarrow> bit w n"
proof -
  have nz: "NOT w \<noteq> 0"
  proof
    assume "NOT w = 0"
    then have "w = NOT 0" by (metis bit.double_compl)
    with assms show False by simp
  qed
  note p = ctzll_props [OF nz]
  show "ctzll (NOT w) < 64" by (rule p(3))
  show "\<not> bit w (ctzll (NOT w))" using p(1) by (simp add: bit_not_iff)
  assume "n < ctzll (NOT w)"
  with p(2) [of n] p(3) show "bit w n" by (auto simp: bit_not_iff)
qed

section \<open>Properties of the array bitmaps\<close>

text \<open>A bit position of an array bitmap, and the set of positions that are set.\<close>

definition words_nodes :: "words \<Rightarrow> nat set" where
  "words_nodes ws = {i. i div 64 < length ws \<and> bit (ws ! (i div 64)) (i mod 64)}"

lemma word_pos_div: "word_pos p = unat p div 64"
  by (simp add: word_pos_def drop_bit_eq_div unat_div)

lemma words_nodes_Nil [simp]: "words_nodes [] = {}"
  by (simp add: words_nodes_def)

text \<open>The array bitmaps implement sets of bit positions below their size: a position inside
  the array is inserted, removed and tested without touching any other position.\<close>

theorem static_bitmap_set_ops:
  assumes "unat p < 64 * length ws"
  shows "(\<exists>ws'. static_set ws p = Inr ws' \<and> length ws' = length ws
        \<and> words_nodes ws' = insert (unat p) (words_nodes ws))
    \<and> (\<exists>ws'. static_reset ws p = Inr ws' \<and> length ws' = length ws
        \<and> words_nodes ws' = words_nodes ws - {unat p})
    \<and> static_test ws p = Inr (unat p \<in> words_nodes ws)"
proof (intro conjI)
  have pos: "word_pos p < length ws"
    using assms by (simp add: word_pos_div less_mult_imp_div_less mult.commute)
  have split: "i = unat p \<longleftrightarrow> i div 64 = unat p div 64 \<and> i mod 64 = unat p mod 64" for i
    by (metis div_mult_mod_eq)
  note pos' = pos [unfolded word_pos_div]
  let ?ws1 = "ws[word_pos p := ws ! word_pos p OR bm64_bit p]"
  have "words_nodes ?ws1 = insert (unat p) (words_nodes ws)"
    using pos' by (auto simp: words_nodes_def word_pos_div split nth_list_update bit_or_iff bm64_bit_iff)
  then show "\<exists>ws'. static_set ws p = Inr ws' \<and> length ws' = length ws
        \<and> words_nodes ws' = insert (unat p) (words_nodes ws)"
    using pos by (simp add: static_set_def)
  let ?ws2 = "ws[word_pos p := ws ! word_pos p AND NOT (bm64_bit p)]"
  have "words_nodes ?ws2 = words_nodes ws - {unat p}"
    using pos' by (auto simp: words_nodes_def word_pos_div split nth_list_update bit_and_iff bit_not_iff bm64_bit_iff)
  then show "\<exists>ws'. static_reset ws p = Inr ws' \<and> length ws' = length ws
        \<and> words_nodes ws' = words_nodes ws - {unat p}"
    using pos by (simp add: static_reset_def)
  have "static_test ws p = Inr (bit (ws ! word_pos p) (unat p mod 64))"
    using pos bm64_test_iff [of "ws ! word_pos p" p] by (simp add: static_test_def bm64_test_def)
  then show "static_test ws p = Inr (unat p \<in> words_nodes ws)"
    using pos by (simp add: words_nodes_def word_pos_div)
qed

theorem static_bitmap_set_ops_witness:
  "static_test [0, 4] 66 = Inr (unat (66::u64) \<in> words_nodes [0, 4])"
  using static_bitmap_set_ops [of 66 "[0, 4]"] by simp

text \<open>All set positions of an array, word by word from position \<open>64 * k\<close> on.\<close>

fun words_bits :: "nat \<Rightarrow> words \<Rightarrow> nat list" where
  "words_bits k [] = []"
| "words_bits k (w # ws) = map (\<lambda>r. k * 64 + r) (bits_of w) @ words_bits (k + 1) ws"

lemma words_loop_fold: "words_loop f k ws s = fold f (words_bits k ws) s"
  by (induction f k ws s rule: words_loop.induct) (simp_all add: bits_loop_fold fold_map comp_def)

lemma mem_words_bits:
  "i \<in> set (words_bits k ws) \<longleftrightarrow> (\<exists>j<length ws. \<exists>r. bit (ws ! j) r \<and> i = (k + j) * 64 + r)"
proof (induction k ws rule: words_bits.induct)
  case (2 k w ws)
  have "(\<exists>j<length (w # ws). \<exists>r. bit ((w # ws) ! j) r \<and> i = (k + j) * 64 + r) \<longleftrightarrow>
     (\<exists>r. bit w r \<and> i = k * 64 + r) \<or> (\<exists>j<length ws. \<exists>r. bit (ws ! j) r \<and> i = (k + 1 + j) * 64 + r)"
    by (simp add: Ex_less_Suc2 algebra_simps)
  with "2.IH" show ?case
    by (simp add: set_bits_of image_iff)
qed simp

lemma set_words_bits: "set (words_bits 0 ws) = words_nodes ws"
proof -
  have "(\<exists>j<length ws. \<exists>r. bit (ws ! j) r \<and> i = j * 64 + r) \<longleftrightarrow>
     i div 64 < length ws \<and> bit (ws ! (i div 64)) (i mod 64)" (is "?l \<longleftrightarrow> ?r") for i
  proof
    assume ?l
    then obtain j r where j: "j < length ws" "bit (ws ! j) r" "i = j * 64 + r" by blast
    then have "r < 64" using bit_imp_le_length [of "ws ! j" r] by simp
    with j show ?r by simp
  next
    assume ?r
    then show ?l by (intro exI [of _ "i div 64"] conjI exI [of _ "i mod 64"]) auto
  qed
  then show ?thesis
    by (auto simp: mem_words_bits words_nodes_def)
qed

lemma sorted_words_bits: "sorted_wrt (<) (words_bits k ws)"
proof (induction k ws rule: words_bits.induct)
  case (2 k w ws)
  have "sorted_wrt (<) (map (\<lambda>r. k * 64 + r) (bits_of w))"
    using sorted_bits_of [of w] by (simp add: sorted_wrt_map)
  moreover have "k * 64 + r < i" if "r \<in> set (bits_of w)" "i \<in> set (words_bits (k + 1) ws)" for r i
  proof -
    have "r < 64" using that(1) bit_imp_le_length [of w r] by (simp add: set_bits_of)
    moreover have "(k + 1) * 64 \<le> i" using that(2) by (auto simp: mem_words_bits)
    ultimately show ?thesis by (simp add: algebra_simps)
  qed
  ultimately show ?case
    using "2.IH" by (auto simp: sorted_wrt_append)
qed simp

lemma static_count_length: "fold (\<lambda>w answ. answ + popcountll w) ws a = a + length (words_bits k ws)"
  by (induction k ws arbitrary: a rule: words_bits.induct) (simp_all add: popcountll_def)

text \<open>on an array bitmap \<open>applyForAll\<close> and \<open>bitmap_decode_ctz\<close> enumerate exactly the set
  positions in ascending order, and \<open>count\<close>, \<open>none\<close> and \<open>any\<close> agree with that set.\<close>

theorem static_bitmap_enumeration:
  "\<exists>xs. sorted_wrt (<) xs \<and> set xs = words_nodes ws
    \<and> static_applyForAll func ws s = (0, fold func xs s) \<and> static_decode_ctz ws = xs
    \<and> static_count ws = card (words_nodes ws)
    \<and> static_none ws = (words_nodes ws = {}) \<and> static_any ws = (words_nodes ws \<noteq> {})"
proof -
  let ?xs = "words_bits 0 ws"
  have "static_none ws = (words_bits k ws = [])" for k
    by (induction k ws rule: words_bits.induct) simp_all
  then have none: "static_none ws = (words_nodes ws = {})"
    using set_words_bits by (metis set_empty)
  have "distinct ?xs"
    using sorted_words_bits strict_sorted_iff by blast
  then have "static_count ws = card (words_nodes ws)"
    using static_count_length [of ws 0 0] set_words_bits [of ws]
    by (metis static_count_def add_0 distinct_card)
  moreover have "static_decode_ctz ws = ?xs"
    using fold_snoc [of "\<lambda>r. r" ?xs "[]"] by (simp add: static_decode_ctz_def words_loop_fold)
  ultimately show ?thesis
    using none sorted_words_bits set_words_bits
    by (intro exI [of _ ?xs]) (simp add: static_applyForAll_def words_loop_fold static_any_def)
qed

lemma words_nodes_Cons:
  "i \<in> words_nodes (w # ws) \<longleftrightarrow> (if i < 64 then bit w i else i - 64 \<in> words_nodes ws)"
proof (cases "i < 64")
  case False
  then have "i div 64 = Suc ((i - 64) div 64)" "i mod 64 = (i - 64) mod 64"
    by (auto simp: le_div_geq le_mod_geq)
  with False show ?thesis by (simp add: words_nodes_def)
qed (simp add: words_nodes_def)

lemma getFreeSlot_offset: "static_getFreeSlot k ws = map_option (\<lambda>n. k * 64 + n) (static_getFreeSlot 0 ws)"
proof (induction ws arbitrary: k)
  case (Cons w ws)
  show ?case
    using Cons.IH [of "k + 1"] Cons.IH [of 1]
    by (auto simp: option.map_comp comp_def algebra_simps)
qed simp

text \<open>\<open>getFreeSlot\<close> returns the least clear position of the array and fails exactly when every
  position is set.\<close>

theorem static_getFreeSlot_least:
  "case static_getFreeSlot 0 ws of
     None \<Rightarrow> words_nodes ws = {..<64 * length ws}
   | Some n \<Rightarrow> n < 64 * length ws \<and> n \<notin> words_nodes ws \<and> {..<n} \<subseteq> words_nodes ws"
proof (induction ws)
  case (Cons w ws)
  show ?case
  proof (cases "w = 0xFFFFFFFFFFFFFFFF")
    case False
    with ctzll_not_props [OF False] show ?thesis
      by (auto simp: words_nodes_Cons)
  next
    case True
    then have mem: "i \<in> words_nodes (w # ws) \<longleftrightarrow> i < 64 \<or> i - 64 \<in> words_nodes ws" for i
      unfolding True words_nodes_Cons bit_ones by simp
    have slot: "static_getFreeSlot 0 (w # ws) = map_option (\<lambda>n. 64 + n) (static_getFreeSlot 0 ws)"
      using True getFreeSlot_offset [of 1 ws] by simp
    show ?thesis
    proof (cases "static_getFreeSlot 0 ws")
      case None
      with Cons.IH have "words_nodes ws = {..<64 * length ws}" by simp
      then have "words_nodes (w # ws) = {..<64 * length (w # ws)}"
      proof (intro set_eqI)
        fix i
        have "i - 64 \<in> words_nodes ws \<longleftrightarrow> i - 64 < 64 * length ws"
          using \<open>words_nodes ws = _\<close> by simp
        then show "i \<in> words_nodes (w # ws) \<longleftrightarrow> i \<in> {..<64 * length (w # ws)}"
          unfolding mem by (simp add: less_diff_conv2) linarith
      qed
      with None slot show ?thesis by simp
    next
      case (Some n)
      with Cons.IH have n: "n < 64 * length ws" "n \<notin> words_nodes ws" "{..<n} \<subseteq> words_nodes ws"
        by simp_all
      have "i \<in> words_nodes (w # ws)" if "i < 64 + n" for i
      proof (cases "i < 64")
        case False
        with that have "i - 64 \<in> {..<n}" by simp
        with n(3) show ?thesis unfolding mem by blast
      qed (simp add: mem)
      then have "{..<64 + n} \<subseteq> words_nodes (w # ws)" by blast
      with Some slot n show ?thesis by (simp add: mem)
    qed
  qed
qed simp

end
