(* ===== verification/Defs_PID.thy ===== *)
theory Defs_PID
  imports ScalePrelude
begin

unbundle bit_operations_syntax

text \<open>
  Page identifiers and the power-of-two helpers of shared-headers/Defs.hpp.  A PID packs the
  owning node into the top 8 bits and the page number into the low 56 bits of a 64-bit word.
\<close>

section \<open>Page identifiers\<close>

type_synonym NodeID = u64

record PID =
  id :: u64

definition PAGEID_BITS_NODEID :: nat where
  "PAGEID_BITS_NODEID = 8"

definition NODEID_MASK :: u64 where
  "NODEID_MASK = drop_bit 8 (NOT 0)"

definition mk_PID :: "u64 \<Rightarrow> u64 \<Rightarrow> PID" where
  "mk_PID owner i = \<lparr>id = (push_bit (64 - PAGEID_BITS_NODEID) owner) OR i\<rparr>"

definition getOwner :: "PID \<Rightarrow> NodeID" where
  "getOwner p = drop_bit (64 - PAGEID_BITS_NODEID) (id p)"

definition plainPID :: "PID \<Rightarrow> u64" where
  "plainPID p = id p AND NODEID_MASK"

text \<open>
  \<open>EMPTY_PID\<close> passes \<open>~uint8_t(0)\<close>, which integer promotion turns into the int \<open>-1\<close> and the
  conversion to \<open>uint64_t\<close> into all ones.
\<close>

definition EMPTY_PID :: PID where
  "EMPTY_PID = mk_PID (NOT 0) (NOT 0)"

definition EMPTY_EPOCH :: u64 where
  "EMPTY_EPOCH = NOT 0"

definition EMPTY_NODEID :: NodeID where
  "EMPTY_NODEID = NOT 0"

definition CATALOG_OWNER :: NodeID where
  "CATALOG_OWNER = 0"

definition CATALOG_PID :: PID where
  "CATALOG_PID = mk_PID CATALOG_OWNER 0"

definition MAX_NODES :: nat where
  "MAX_NODES = 64"

definition pid_less :: "PID \<Rightarrow> PID \<Rightarrow> bool" where
  "pid_less l r \<longleftrightarrow> id l < id r"

definition pid_less_eq :: "PID \<Rightarrow> PID \<Rightarrow> bool" where
  "pid_less_eq l r \<longleftrightarrow> id l \<le> id r"

section \<open>Powers of two\<close>

definition nextPowerTwo :: "u64 \<Rightarrow> u64" where
  "nextPowerTwo v0 =
     (let v = v0 - 1;
          v = v OR drop_bit 1 v;
          v = v OR drop_bit 2 v;
          v = v OR drop_bit 4 v;
          v = v OR drop_bit 8 v;
          v = v OR drop_bit 16 v
      in v + 1)"

definition powerOfTwo :: "u64 \<Rightarrow> bool" where
  "powerOfTwo n \<longleftrightarrow> n \<noteq> 0 \<and> n AND (n - 1) = 0"

section \<open>Properties\<close>

lemma NODEID_MASK_mask: "NODEID_MASK = mask 56"
  by (simp add: NODEID_MASK_def mask_eq_exp_minus_1)

text \<open>Packing an owner of 8 bits and a page number of 56 bits into a PID loses nothing:
  \<open>getOwner\<close> and \<open>plainPID\<close> read both parts back, and every PID is the packing of its parts.\<close>

theorem pid_pack_roundtrip:
  assumes "unat owner < 2 ^ 8" and "unat i < 2 ^ 56"
  shows "getOwner (mk_PID owner i) = owner \<and> plainPID (mk_PID owner i) = i
    \<and> mk_PID (getOwner p) (plainPID p) = p"
proof (intro conjI)
  from assms have owner: "\<And>n. 8 \<le> n \<Longrightarrow> \<not> bit owner n" and i: "\<And>n. 56 \<le> n \<Longrightarrow> \<not> bit i n"
    using unat_less_exp_iff [of owner 8] unat_less_exp_iff [of i 56] by blast+
  have "n < 8" if "bit owner n" for n
    using owner that by (meson not_le)
  then show "getOwner (mk_PID owner i) = owner"
    by (intro bit_eqI) (auto simp: getOwner_def mk_PID_def PAGEID_BITS_NODEID_def bit_simps i)
  have "n < 56" if "bit i n" for n
    using i that by (meson not_le)
  then show "plainPID (mk_PID owner i) = i"
    by (intro bit_eqI)
      (auto simp: plainPID_def mk_PID_def PAGEID_BITS_NODEID_def NODEID_MASK_mask bit_simps)
  have "id (mk_PID (getOwner p) (plainPID p)) = id p"
    by (rule bit_eqI)
      (auto simp: getOwner_def plainPID_def mk_PID_def PAGEID_BITS_NODEID_def NODEID_MASK_mask
        bit_simps)
  then show "mk_PID (getOwner p) (plainPID p) = p"
    by simp
qed

theorem pid_pack_roundtrip_witness:
  "getOwner (mk_PID 5 77) = 5 \<and> plainPID (mk_PID 5 77) = 77
    \<and> mk_PID (getOwner CATALOG_PID) (plainPID CATALOG_PID) = CATALOG_PID"
  using pid_pack_roundtrip [of 5 77 CATALOG_PID] by simp

text \<open>The five shift-or steps of \<open>nextPowerTwo\<close> copy every bit to the 31 positions below it.\<close>

lemma smear_step:
  fixes x w :: u64
  assumes "\<And>n. bit x n \<longleftrightarrow> (\<exists>d<m. bit w (n + d))"
  shows "bit (x OR drop_bit m x) n \<longleftrightarrow> (\<exists>d<m + m. bit w (n + d))"
proof -
  have "bit (x OR drop_bit m x) n \<longleftrightarrow> (\<exists>d<m. bit w (n + d)) \<or> (\<exists>d<m. bit w (m + n + d))"
    by (simp add: bit_or_iff bit_drop_bit_eq assms)
  also have "\<dots> \<longleftrightarrow> (\<exists>d<m + m. bit w (n + d))" (is "?l \<or> ?r \<longleftrightarrow> ?s")
  proof
    assume "?l \<or> ?r"
    then consider d where "d < m" "bit w (n + d)" | d where "d < m" "bit w (n + (m + d))"
      by (auto simp: ac_simps)
    then show ?s
    proof cases
      case (1 d)
      then show ?thesis by (intro exI [of _ d]) simp
    next
      case (2 d)
      then show ?thesis by (intro exI [of _ "m + d"]) simp
    qed
  next
    assume ?s
    then obtain d where d: "d < m + m" "bit w (n + d)" by blast
    show "?l \<or> ?r"
    proof (cases "d < m")
      case True
      with d show ?thesis by blast
    next
      case False
      with d have "d - m < m" "bit w (m + n + (d - m))"
        by (simp_all add: add.commute add.left_commute)
      then show ?thesis by blast
    qed
  qed
  finally show ?thesis .
qed

lemma bit_nextPowerTwo_smear:
  fixes v :: u64
  defines "s1 \<equiv> v OR drop_bit 1 v"
  defines "s2 \<equiv> s1 OR drop_bit 2 s1"
  defines "s3 \<equiv> s2 OR drop_bit 4 s2"
  defines "s4 \<equiv> s3 OR drop_bit 8 s3"
  shows "bit (s4 OR drop_bit 16 s4) n \<longleftrightarrow> (\<exists>d<32. bit v (n + d))"
proof -
  have "bit s1 n \<longleftrightarrow> (\<exists>d<2. bit v (n + d))" for n
    using smear_step [of v 1 v n] by (simp add: s1_def numeral_2_eq_2)
  then have "bit s2 n \<longleftrightarrow> (\<exists>d<4. bit v (n + d))" for n
    using smear_step [of s1 2 v n] by (simp add: s2_def)
  then have "bit s3 n \<longleftrightarrow> (\<exists>d<8. bit v (n + d))" for n
    using smear_step [of s2 4 v n] by (simp add: s3_def)
  then have "bit s4 n \<longleftrightarrow> (\<exists>d<16. bit v (n + d))" for n
    using smear_step [of s3 8 v n] by (simp add: s4_def)
  then show ?thesis
    using smear_step [of s4 16 v n] by simp
qed

lemma nextPowerTwo_mask:
  assumes k: "k \<le> 32" and hi: "\<And>n. k \<le> n \<Longrightarrow> \<not> bit (v - 1) n" and top: "k = 0 \<or> bit (v - 1) (k - 1)"
  shows "nextPowerTwo v = 2 ^ k"
proof -
  have "(\<exists>d<32. bit (v - 1) (n + d)) \<longleftrightarrow> n < k" for n
  proof
    assume "\<exists>d<32. bit (v - 1) (n + d)"
    then show "n < k" by (metis hi le_add1 le_trans not_le)
  next
    assume "n < k"
    then have "k - 1 - n < 32" "n + (k - 1 - n) = k - 1" using k by auto
    with \<open>n < k\<close> top show "\<exists>d<32. bit (v - 1) (n + d)" by (metis not_less_zero)
  qed
  then have "nextPowerTwo v = mask k + 1"
    unfolding nextPowerTwo_def Let_def
    by (intro arg_cong [where f = "\<lambda>x. x + 1"] bit_eqI)
      (use k in \<open>simp only: bit_nextPowerTwo_smear, simp add: bit_mask_iff\<close>)
  then show ?thesis
    by (simp add: mask_eq_exp_minus_1)
qed

lemma nextPowerTwo_pow:
  assumes "1 \<le> unat v" and "unat v \<le> 2 ^ 32"
  shows "\<exists>k\<le>32. nextPowerTwo v = 2 ^ k \<and> unat v \<le> 2 ^ k \<and> (\<forall>j<k. 2 ^ j < unat v)"
proof -
  have v1: "unat (v - 1) = unat v - 1"
    using assms(1) by (metis One_nat_def unat_1 unat_sub word_le_nat_alt)
  define k where "k = (LEAST k. unat (v - 1) < 2 ^ k)"
  have ex: "unat (v - 1) < 2 ^ (32::nat)"
    using assms v1 by linarith
  then have lt: "unat (v - 1) < 2 ^ k" and k32: "k \<le> 32"
    unfolding k_def by (rule LeastI, rule Least_le)
  have least: "2 ^ j \<le> unat (v - 1)" if "j < k" for j
    using that not_less_Least [of j "\<lambda>k. unat (v - 1) < 2 ^ k"] by (simp add: k_def)
  have hi: "\<not> bit (v - 1) n" if "k \<le> n" for n
    using lt that by (simp add: unat_less_exp_iff)
  have "bit (v - 1) (k - 1)" if "k \<noteq> 0"
  proof (rule ccontr)
    assume "\<not> bit (v - 1) (k - 1)"
    then have "\<forall>n\<ge>k - 1. \<not> bit (v - 1) n"
      using hi by (metis Suc_diff_1 le_antisym not_gr_zero not_less_eq_eq that)
    then have "unat (v - 1) < 2 ^ (k - 1)"
      by (simp add: unat_less_exp_iff)
    with least [of "k - 1"] that show False by simp
  qed
  with hi k32 have "nextPowerTwo v = 2 ^ k"
    by (intro nextPowerTwo_mask) auto
  moreover have "unat v \<le> 2 ^ k" using lt v1 assms by linarith
  moreover have "\<forall>j<k. 2 ^ j < unat v"
    using least v1 assms by (metis One_nat_def Suc_pred' le_imp_less_Suc less_eq_Suc_le)
  ultimately show ?thesis using k32 by blast
qed

text \<open>For every size from 1 up to \<open>2^32\<close>, \<open>nextPowerTwo\<close> returns the least power of two that
  is not below it.\<close>

theorem nextPowerTwo_least:
  assumes "1 \<le> unat v" and "unat v \<le> 2 ^ 32"
  shows "\<exists>k\<le>32. nextPowerTwo v = 2 ^ k \<and> unat v \<le> 2 ^ k \<and> (\<forall>j<k. 2 ^ j < unat v)"
  by (rule nextPowerTwo_pow [OF assms])

theorem nextPowerTwo_least_witness:
  "\<exists>k\<le>32. nextPowerTwo 1000 = 2 ^ k \<and> unat (1000::u64) \<le> 2 ^ k \<and> (\<forall>j<k. 2 ^ j < unat (1000::u64))"
  using nextPowerTwo_least [of 1000] by simp

text \<open>above \<open>2^32\<close> the missing shift by 32 shows: the value returned for \<open>2^32 + 1\<close> is not a
  power of two, so a page table sized with it would mask its hashes with the wrong pattern.\<close>

theorem nextPowerTwo_above_32_bits:
  "nextPowerTwo (2 ^ 32 + 1) = 2 ^ 33 - 1 \<and> \<not> powerOfTwo (nextPowerTwo (2 ^ 32 + 1))"
  by (simp add: nextPowerTwo_def powerOfTwo_def Let_def)

end
