(* ===== verification/Frame.thy ===== *)
theory Frame
  imports Latch Bitmap Defs_PID
begin

text \<open>
  Buffer frames (storage/buffermanager/BufferFrame.hpp): who possesses a page and in which mode, the
  state of the frame, and its latches.  The union \<open>Possessors\<close> is one 64-bit word, read as a node id in
  mode \<open>EXCLUSIVE\<close> and as a set of node ids in mode \<open>SHARED\<close>, as in the code.  A pointer to a page is an
  address of the node's page pool, \<open>next\<close> an index into the array of all frames.
\<close>

type_synonym addr = u64

type_synonym fref = nat

datatype POSSESSION = NOBODY | EXCLUSIVE_P | SHARED_P

datatype BF_STATE = FREE | HOT | EVICTED | IO_RDMA | IO_SSD | INVALIDATION_EXPECTED

record BufferFrame =
  pid :: PID
  nextF :: "fref option"
  pageP :: "addr option"
  pVersion :: u64
  epoch :: u64
  ht_bucket_latch :: OptimisticLatch
  possessors :: u64
  state :: BF_STATE
  mhWaiting :: bool
  cooling :: bool
  dirty :: bool
  isHtBucket :: bool
  possession :: POSSESSION
  bflatch :: HybridLatch

definition new_BufferFrame :: BufferFrame where
  "new_BufferFrame = \<lparr>pid = EMPTY_PID, nextF = None, pageP = None, pVersion = 0, epoch = EMPTY_EPOCH,
     ht_bucket_latch = new_OptimisticLatch, possessors = 0, state = FREE, mhWaiting = False, cooling = False,
     dirty = False, isHtBucket = False, possession = NOBODY, bflatch = new_HybridLatch\<rparr>"

definition bf_fill :: "PID \<Rightarrow> addr option \<Rightarrow> POSSESSION \<Rightarrow> BufferFrame \<Rightarrow> BufferFrame" where
  "bf_fill pid1 page1 possession1 f = f\<lparr>pid := pid1, pageP := page1, possession := possession1\<rparr>"

definition bf_reset :: "BufferFrame \<Rightarrow> BufferFrame" where
  "bf_reset f = f\<lparr>pVersion := 0, pid := EMPTY_PID, nextF := (if \<not> isHtBucket f then None else nextF f),
     pageP := None, possession := NOBODY, possessors := 0, mhWaiting := False, epoch := EMPTY_EPOCH,
     dirty := False, state := FREE\<rparr>"

definition setPossession :: "POSSESSION \<Rightarrow> BufferFrame \<Rightarrow> BufferFrame" where
  "setPossession p f = f\<lparr>possession := p\<rparr>"

definition setPossessor :: "NodeID \<Rightarrow> BufferFrame \<Rightarrow> BufferFrame result" where
  "setPossessor nodeId f =
     (case possession f of
        NOBODY \<Rightarrow> Inl (Runtime_error ''Object not in possesion'')
      | EXCLUSIVE_P \<Rightarrow> Inr (f\<lparr>possessors := nodeId\<rparr>)
      | SHARED_P \<Rightarrow> Inr (f\<lparr>possessors := bm64_set (possessors f) nodeId\<rparr>))"

definition isPossessor :: "NodeID \<Rightarrow> BufferFrame \<Rightarrow> bool" where
  "isPossessor nodeId f =
     (case possession f of
        EXCLUSIVE_P \<Rightarrow> possessors f = nodeId
      | SHARED_P \<Rightarrow> bm64_test (possessors f) nodeId
      | NOBODY \<Rightarrow> False)"

definition bf_isDirty :: "BufferFrame \<Rightarrow> bool" where
  "bf_isDirty f = dirty f"

definition setDirty :: "BufferFrame \<Rightarrow> BufferFrame" where
  "setDirty f = f\<lparr>dirty := True\<rparr>"

section \<open>The possessors as a set of nodes\<close>

text \<open>The set of nodes the union stands for.  Node ids below 64 are what the bitmap can hold.\<close>

definition holders :: "BufferFrame \<Rightarrow> NodeID set" where
  "holders f = {n. isPossessor n f \<and> unat n < MAX_NODES}"

end
