(* ===== verification/Guard.thy ===== *)
theory Guard
  imports Frame
begin

text \<open>
  Guards (Guard.hpp) and the access functors that acquire a frame for a worker (AccessFunctors.hpp) or
  for the message handler (\<open>Protocol\<close>, \<open>Invalidation\<close> and \<open>Copy\<close> in rdma/MessageHandler.hpp).

  A functor reads the fields of the frame optimistically before it upgrades its latch; \<open>gap\<close> is what
  other threads do to the frame between the two.  \<open>undisturbed_fields\<close> is what the latch guarantees about
  that gap: where the unmarked version has not moved, the fields it protects have not either.
\<close>

section \<open>Guards\<close>

datatype STATE = UNINITIALIZED | SSD | REMOTE | LOCAL_POSSESSION_CHANGE | REMOTE_POSSESSION_CHANGE
  | RETRY | INITIALIZED | MOVED | NOT_FOUND

datatype CONTENTION_METHOD = BLOCKING | NON_BLOCKING

datatype LATCH_STATE = UNLATCHED | OPTIMISTIC | SHARED | EXCLUSIVE

record 'f Guard =
  vAcquired :: Version
  gframe :: "'f option"
  gstate :: STATE
  gmethod :: CONTENTION_METHOD
  latchState :: LATCH_STATE

definition new_Guard :: "'f Guard" where
  "new_Guard = \<lparr>vAcquired = 0, gframe = None, gstate = UNINITIALIZED, gmethod = BLOCKING, latchState = UNLATCHED\<rparr>"

text \<open>The move constructor leaves everything but the state of the source; move assignment first releases
  what the target holds (\<open>release_held\<close>, applied to the frame of the target).\<close>

definition guard_move_ctor :: "'f Guard \<Rightarrow> 'f Guard \<times> 'f Guard" where
  "guard_move_ctor other = (other, other\<lparr>gstate := MOVED\<rparr>)"

definition release_held :: "LATCH_STATE \<Rightarrow> HybridLatch \<Rightarrow> HybridLatch result" where
  "release_held ls l = (case ls of EXCLUSIVE \<Rightarrow> unlatchExclusive l | SHARED \<Rightarrow> unlatchShared l | _ \<Rightarrow> Inr l)"

definition guard_move_assign :: "'f Guard \<Rightarrow> HybridLatch \<Rightarrow> 'f Guard \<Rightarrow> ('f Guard \<times> HybridLatch \<times> 'f Guard) result" where
  "guard_move_assign g l other =
     bind_r (release_held (latchState g) l) (\<lambda>l.
     Inr (other, l, other\<lparr>vAcquired := 0, gframe := None, latchState := UNLATCHED, gstate := MOVED\<rparr>))"

definition swapWith :: "'f Guard \<Rightarrow> 'f Guard \<Rightarrow> 'f Guard \<times> 'f Guard" where
  "swapWith g other = (other, g)"

definition needDowngrade :: "LATCH_STATE \<Rightarrow> 'f Guard \<Rightarrow> bool result" where
  "needDowngrade desired g =
     (if desired = EXCLUSIVE \<and> desired \<noteq> latchState g then Inl (Runtime_error ''Would need latch update '')
      else Inr (desired \<noteq> latchState g))"

text \<open>\<open>downgrade\<close>, on the latch of the guard's frame.  Going to shared mode releases the latch and tries
  to take it again; \<open>gap\<close> is what others do in between.\<close>

definition downgrade :: "(HybridLatch \<Rightarrow> HybridLatch) \<Rightarrow> LATCH_STATE \<Rightarrow> 'f Guard \<Rightarrow> HybridLatch \<Rightarrow> (bool \<times> 'f Guard \<times> HybridLatch) result" where
  "downgrade gap desired g l =
     (case desired of
        EXCLUSIVE \<Rightarrow> ensure (desired = latchState g) (Inr (True, g, l))
      | SHARED \<Rightarrow>
          ensure (isLatched l) (let v = version l in
          bind_r (unlatchExclusive l) (\<lambda>l.
          let (success, l) = tryLatchShared (gap l) in
          if \<not> success then Inr (False, g\<lparr>latchState := UNLATCHED, gstate := RETRY\<rparr>, l)
          else if v + 2 \<noteq> version l then
            bind_r (unlatchShared l) (\<lambda>l. Inr (False, g\<lparr>vAcquired := v + 2, latchState := UNLATCHED, gstate := RETRY\<rparr>, l))
          else Inr (True, g\<lparr>vAcquired := version l, latchState := SHARED\<rparr>, l)))
      | OPTIMISTIC \<Rightarrow>
          ensure (vAcquired g = version l)
            (case latchState g of
               EXCLUSIVE \<Rightarrow> bind_r (downgradeExclusiveToOptimistic l) (\<lambda>(v, l). Inr (True, g\<lparr>vAcquired := v, latchState := OPTIMISTIC\<rparr>, l))
             | SHARED \<Rightarrow> bind_r (downgradeSharedToOptimistic l) (\<lambda>(v, l). Inr (True, g\<lparr>vAcquired := v, latchState := OPTIMISTIC\<rparr>, l))
             | _ \<Rightarrow> Inr (True, g, l))
      | UNLATCHED \<Rightarrow> Inr (True, g, l))"

definition guard_unlock :: "'f Guard \<Rightarrow> HybridLatch \<Rightarrow> ('f Guard \<times> HybridLatch) result" where
  "guard_unlock g l =
     (case latchState g of
        EXCLUSIVE \<Rightarrow> ensure (isLatched l) (bind_r (unlatchExclusive l) (\<lambda>l. Inr (g\<lparr>gstate := UNINITIALIZED, latchState := UNLATCHED\<rparr>, l)))
      | SHARED \<Rightarrow> bind_r (unlatchShared l) (\<lambda>l. Inr (g\<lparr>gstate := UNINITIALIZED, latchState := UNLATCHED\<rparr>, l))
      | OPTIMISTIC \<Rightarrow>
          Inr (if \<not> optimisticReadUnlatchOrRestart (vAcquired g) l then g\<lparr>gstate := RETRY, latchState := UNLATCHED\<rparr>
               else g\<lparr>latchState := UNLATCHED\<rparr>, l)
      | UNLATCHED \<Rightarrow> Inr (g\<lparr>latchState := UNLATCHED\<rparr>, l))"

section \<open>Access functors of the workers\<close>

text \<open>Upgrading the latch of a frame that others may have changed since its version was compared.\<close>

definition bf_upgrade ::
  "((HybridLatch \<Rightarrow> HybridLatch) \<Rightarrow> Version \<Rightarrow> HybridLatch \<Rightarrow> (bool \<times> HybridLatch) result) \<Rightarrow>
     (BufferFrame \<Rightarrow> BufferFrame) \<Rightarrow> Version \<Rightarrow> BufferFrame \<Rightarrow> (bool \<times> BufferFrame) result" where
  "bf_upgrade up gap v f =
     (let f' = gap f
      in bind_r (up (\<lambda>l. l) v (bflatch f')) (\<lambda>(b, l). Inr (b, f'\<lparr>bflatch := l\<rparr>)))"

definition possession_change :: "NodeID \<Rightarrow> BufferFrame \<Rightarrow> STATE" where
  "possession_change nodeId f = (if getOwner (pid f) = nodeId then LOCAL_POSSESSION_CHANGE else REMOTE_POSSESSION_CHANGE)"

definition Exclusive_access :: "(BufferFrame \<Rightarrow> BufferFrame) \<Rightarrow> NodeID \<Rightarrow> 'f Guard \<Rightarrow> BufferFrame \<Rightarrow> ('f Guard \<times> BufferFrame) result" where
  "Exclusive_access gap nodeId g f =
     (case optimisticLatchOrRestart (bflatch f) of
        None \<Rightarrow> Inr (g\<lparr>gstate := RETRY, latchState := UNLATCHED\<rparr>, f)
      | Some v \<Rightarrow>
          if mhWaiting f then Inr (g\<lparr>gstate := RETRY, latchState := UNLATCHED\<rparr>, f)
          else let g = g\<lparr>gstate := (if possession f \<noteq> EXCLUSIVE_P \<or> \<not> isPossessor nodeId f then possession_change nodeId f else INITIALIZED)\<rparr>
               in bind_r (bf_upgrade optimisticUpgradeToExclusive gap v f) (\<lambda>(b, f).
                  if \<not> b then Inr (g\<lparr>gstate := RETRY, vAcquired := version (bflatch f), latchState := UNLATCHED\<rparr>, f)
                  else Inr (g\<lparr>vAcquired := version (bflatch f), latchState := EXCLUSIVE\<rparr>, f)))"

definition Exclusive_undo :: "'f Guard \<Rightarrow> BufferFrame \<Rightarrow> ('f Guard \<times> BufferFrame) result" where
  "Exclusive_undo g f =
     ensure (gstate g \<noteq> RETRY) (ensure (isLatched (bflatch f)) (bind_r (unlatchExclusive (bflatch f)) (\<lambda>l.
     Inr (g\<lparr>gstate := UNINITIALIZED, latchState := UNLATCHED\<rparr>, f\<lparr>bflatch := l\<rparr>))))"

definition Shared_access :: "(BufferFrame \<Rightarrow> BufferFrame) \<Rightarrow> NodeID \<Rightarrow> 'f Guard \<Rightarrow> BufferFrame \<Rightarrow> ('f Guard \<times> BufferFrame) result" where
  "Shared_access gap nodeId g f =
     (case optimisticLatchOrRestart (bflatch f) of
        None \<Rightarrow> Inr (g\<lparr>latchState := UNLATCHED, gstate := RETRY\<rparr>, f)
      | Some v \<Rightarrow>
          if mhWaiting f then Inr (g\<lparr>latchState := UNLATCHED, gstate := RETRY\<rparr>, f)
          else if \<not> isPossessor nodeId f then
            let g = g\<lparr>gstate := possession_change nodeId f\<rparr>
            in bind_r (bf_upgrade optimisticUpgradeToExclusive gap v f) (\<lambda>(b, f).
               Inr ((if \<not> b then g\<lparr>gstate := RETRY, latchState := UNLATCHED\<rparr> else g\<lparr>latchState := EXCLUSIVE\<rparr>)
                      \<lparr>vAcquired := version (bflatch f)\<rparr>, f))
          else
            let g = g\<lparr>gstate := INITIALIZED\<rparr>
            in bind_r (bf_upgrade optimisticUpgradeToShared gap v f) (\<lambda>(b, f).
               if \<not> b then Inr (g\<lparr>gstate := RETRY, vAcquired := version (bflatch f), latchState := UNLATCHED\<rparr>, f)
               else Inr (g\<lparr>vAcquired := version (bflatch f), latchState := SHARED\<rparr>, f)))"

definition Shared_undo :: "'f Guard \<Rightarrow> BufferFrame \<Rightarrow> ('f Guard \<times> BufferFrame) result" where
  "Shared_undo g f =
     (if latchState g = EXCLUSIVE then
        ensure (gstate g \<noteq> RETRY) (ensure (isLatched (bflatch f)) (bind_r (unlatchExclusive (bflatch f)) (\<lambda>l.
        Inr (g\<lparr>gstate := UNINITIALIZED, latchState := UNLATCHED\<rparr>, f\<lparr>bflatch := l\<rparr>))))
      else
        ensure (latchState g = SHARED) (ensure (gstate g \<noteq> RETRY) (ensure (\<not> isLatched (bflatch f))
        (bind_r (unlatchShared (bflatch f)) (\<lambda>l. Inr (g\<lparr>gstate := UNINITIALIZED, latchState := UNLATCHED\<rparr>, f\<lparr>bflatch := l\<rparr>))))))"

text \<open>\<open>Optimistic\<close> keeps no latch; it compares the version once more.\<close>

definition Optimistic_access :: "(BufferFrame \<Rightarrow> BufferFrame) \<Rightarrow> NodeID \<Rightarrow> 'f Guard \<Rightarrow> BufferFrame \<Rightarrow> ('f Guard \<times> BufferFrame) result" where
  "Optimistic_access gap nodeId g f =
     (case optimisticLatchOrRestart (bflatch f) of
        None \<Rightarrow> Inr (g\<lparr>gstate := RETRY, latchState := UNLATCHED\<rparr>, f)
      | Some v \<Rightarrow>
          if mhWaiting f then Inr (g\<lparr>gstate := RETRY, latchState := UNLATCHED\<rparr>, f)
          else if \<not> isPossessor nodeId f then
            let g = g\<lparr>gstate := possession_change nodeId f\<rparr>
            in bind_r (bf_upgrade optimisticUpgradeToExclusive gap v f) (\<lambda>(b, f).
               Inr (if \<not> b then g\<lparr>gstate := RETRY\<rparr> else g\<lparr>latchState := EXCLUSIVE, vAcquired := version (bflatch f)\<rparr>, f))
          else
            let f' = gap f
            in Inr (g\<lparr>gstate := (if \<not> optimisticCheckOrRestart v (bflatch f') then RETRY else INITIALIZED),
                 vAcquired := v, latchState := OPTIMISTIC\<rparr>, f'))"

definition Optimistic_undo :: "'f Guard \<Rightarrow> BufferFrame \<Rightarrow> ('f Guard \<times> BufferFrame) result" where
  "Optimistic_undo g f =
     (if latchState g = EXCLUSIVE then
        ensure (gstate g \<noteq> RETRY) (ensure (isLatched (bflatch f)) (bind_r (unlatchExclusive (bflatch f)) (\<lambda>l.
        Inr (g\<lparr>gstate := UNINITIALIZED, latchState := UNLATCHED\<rparr>, f\<lparr>bflatch := l\<rparr>))))
      else Inr (g\<lparr>gstate := UNINITIALIZED, latchState := UNLATCHED\<rparr>, f))"

section \<open>Functors of the message handler\<close>

definition Protocol_access ::
  "POSSESSION \<Rightarrow> (BufferFrame \<Rightarrow> BufferFrame) \<Rightarrow> NodeID \<Rightarrow> 'f Guard \<Rightarrow> BufferFrame \<Rightarrow> ('f Guard \<times> BufferFrame) result" where
  "Protocol_access DESIRED_MODE gap nodeId g f =
     (case optimisticLatchOrRestart (bflatch f) of
        None \<Rightarrow> Inr (g\<lparr>gstate := RETRY, latchState := UNLATCHED\<rparr>, f)
      | Some v \<Rightarrow>
          let g = g\<lparr>gstate := (if possession f \<noteq> DESIRED_MODE \<or> \<not> isPossessor nodeId f then LOCAL_POSSESSION_CHANGE else INITIALIZED)\<rparr>
          in bind_r (bf_upgrade optimisticUpgradeToExclusive gap v f) (\<lambda>(b, f).
             Inr (if b then g\<lparr>vAcquired := version (bflatch f), latchState := EXCLUSIVE\<rparr>
                  else g\<lparr>gstate := RETRY, latchState := UNLATCHED\<rparr>, f)))"

definition Protocol_undo :: "'f Guard \<Rightarrow> BufferFrame \<Rightarrow> ('f Guard \<times> BufferFrame) result" where
  "Protocol_undo g f =
     (if latchState g = EXCLUSIVE then
        ensure (gstate g \<noteq> RETRY) (ensure (isLatched (bflatch f)) (bind_r (unlatchExclusive (bflatch f)) (\<lambda>l.
        Inr (g\<lparr>gstate := RETRY, latchState := UNLATCHED\<rparr>, f\<lparr>bflatch := l\<rparr>))))
      else Inr (g, f))"

definition Invalidation_access :: "NodeID \<Rightarrow> 'f Guard \<Rightarrow> BufferFrame \<Rightarrow> 'f Guard \<times> BufferFrame" where
  "Invalidation_access nodeId g f =
     (let (b, l) = tryLatchExclusive (bflatch f); f = f\<lparr>bflatch := l\<rparr>
      in if \<not> b then (g\<lparr>latchState := UNLATCHED, gstate := RETRY\<rparr>, f)
         else (g\<lparr>vAcquired := version (bflatch f), latchState := EXCLUSIVE, gstate := INITIALIZED\<rparr>, f))"

definition Invalidation_undo :: "'f Guard \<Rightarrow> BufferFrame \<Rightarrow> ('f Guard \<times> BufferFrame) result" where
  "Invalidation_undo g f = Protocol_undo g f"

definition Copy_access :: "NodeID \<Rightarrow> 'f Guard \<Rightarrow> BufferFrame \<Rightarrow> 'f Guard \<times> BufferFrame" where
  "Copy_access nodeId g f =
     (let (b, l) = tryLatchShared (bflatch f); f = f\<lparr>bflatch := l\<rparr>
      in if \<not> b then (g\<lparr>latchState := UNLATCHED, gstate := RETRY\<rparr>, f)
         else (g\<lparr>vAcquired := version (bflatch f), latchState := SHARED, gstate := INITIALIZED\<rparr>, f))"

definition Copy_undo :: "'f Guard \<Rightarrow> BufferFrame \<Rightarrow> ('f Guard \<times> BufferFrame) result" where
  "Copy_undo g f =
     (if latchState g = SHARED then
        ensure (gstate g \<noteq> RETRY) (ensure (\<not> isLatched (bflatch f)) (bind_r (unlatchShared (bflatch f)) (\<lambda>l.
        Inr (g\<lparr>gstate := RETRY, latchState := UNLATCHED\<rparr>, f\<lparr>bflatch := l\<rparr>))))
      else Inr (g, f))"

section \<open>What a guard holds\<close>

definition same_fields :: "BufferFrame \<Rightarrow> BufferFrame \<Rightarrow> bool" where
  "same_fields f f' \<longleftrightarrow> f'\<lparr>bflatch := bflatch f\<rparr> = f"

definition undisturbed_fields :: "(BufferFrame \<Rightarrow> BufferFrame) \<Rightarrow> BufferFrame \<Rightarrow> bool" where
  "undisturbed_fields gap f \<longleftrightarrow> latch_ok (bflatch (gap f)) \<and>
     (\<not> isLatched (bflatch f) \<and> version (bflatch (gap f)) = version (bflatch f) \<longrightarrow>
        possession (gap f) = possession f \<and> possessors (gap f) = possessors f \<and> pid (gap f) = pid f)"

definition guard_holds :: "'f Guard \<Rightarrow> BufferFrame \<Rightarrow> bool" where
  "guard_holds g f \<longleftrightarrow>
     (case latchState g of
        EXCLUSIVE \<Rightarrow> smut (bflatch f) = Writer \<and> version (bflatch f) = vAcquired g
      | SHARED \<Rightarrow> 0 < readers (bflatch f) \<and> version (bflatch f) = vAcquired g
      | _ \<Rightarrow> True)"

definition holds_nothing :: "'f Guard \<Rightarrow> bool" where
  "holds_nothing g \<longleftrightarrow> latchState g \<noteq> EXCLUSIVE \<and> latchState g \<noteq> SHARED"

lemma readers_upd [simp]: "readers (l\<lparr>smut := Readers n\<rparr>) = n"
  by (simp add: readers.simps)

lemma same_fields_sel:
  "same_fields f f' \<Longrightarrow> possession f' = possession f \<and> possessors f' = possessors f \<and> pid f' = pid f \<and> state f' = state f
     \<and> pageP f' = pageP f \<and> pVersion f' = pVersion f \<and> dirty f' = dirty f \<and> nextF f' = nextF f \<and> isHtBucket f' = isHtBucket f
     \<and> ht_bucket_latch f' = ht_bucket_latch f \<and> mhWaiting f' = mhWaiting f \<and> epoch f' = epoch f \<and> cooling f' = cooling f"
  unfolding same_fields_def by (cases f; cases f') auto

lemma same_fields_latch [simp]: "same_fields f (f\<lparr>bflatch := l\<rparr>)"
  by (simp add: same_fields_def)

lemma same_fields_refl [simp]: "same_fields f f"
  by (simp add: same_fields_def)

lemma isPossessor_cong:
  "possession f' = possession f \<Longrightarrow> possessors f' = possessors f \<Longrightarrow> isPossessor n f' = isPossessor n f"
  by (simp add: isPossessor_def split: POSSESSION.split)

lemma bf_upgradeX_cases:
  assumes "latch_ok (bflatch (gap f))"
  obtains l where "bf_upgrade optimisticUpgradeToExclusive gap v f = Inr (True, (gap f)\<lparr>bflatch := l\<rparr>)" "latch_ok l"
      "smut l = Writer" "version l = v + 2" "version (bflatch (gap f)) = v"
  | l where "bf_upgrade optimisticUpgradeToExclusive gap v f = Inr (False, (gap f)\<lparr>bflatch := l\<rparr>)" "latch_ok l"
proof (rule upgradeToExclusive_cases [of "bflatch (gap f)" "\<lambda>l. l" v])
  fix l' assume "optimisticUpgradeToExclusive (\<lambda>l. l) v (bflatch (gap f)) = Inr (True, l')" "latch_ok l'" "isLatched l'"
    "version l' = v + 2" "version (bflatch (gap f)) = v"
  then show thesis using that(1) [of l'] by (simp add: bf_upgrade_def latch_ok_def)
next
  fix l' assume "optimisticUpgradeToExclusive (\<lambda>l. l) v (bflatch (gap f)) = Inr (False, l')" "latch_ok l'"
  then show thesis using that(2) [of l'] by (simp add: bf_upgrade_def)
qed (use assms in simp_all)

lemma bf_upgradeS_cases:
  assumes "latch_ok (bflatch (gap f))"
  obtains l where "bf_upgrade optimisticUpgradeToShared gap v f = Inr (True, (gap f)\<lparr>bflatch := l\<rparr>)" "latch_ok l"
      "0 < readers l" "version l = v" "version (bflatch (gap f)) = v"
  | l where "bf_upgrade optimisticUpgradeToShared gap v f = Inr (False, (gap f)\<lparr>bflatch := l\<rparr>)" "latch_ok l"
proof (rule upgradeToShared_cases [of "bflatch (gap f)" "\<lambda>l. l" v])
  fix l' assume "optimisticUpgradeToShared (\<lambda>l. l) v (bflatch (gap f)) = Inr (True, l')" "latch_ok l'"
    "version l' = v" "0 < readers l'" "version (bflatch (gap f)) = v"
  then show thesis using that(1) [of l'] by (simp add: bf_upgrade_def)
next
  fix l' assume "optimisticUpgradeToShared (\<lambda>l. l) v (bflatch (gap f)) = Inr (False, l')" "latch_ok l'"
  then show thesis using that(2) [of l'] by (simp add: bf_upgrade_def)
qed (use assms in simp_all)

lemma optimisticLatch_Some: "optimisticLatchOrRestart l = Some v \<longleftrightarrow> \<not> isLatched l \<and> v = version l"
  by (auto simp: optimisticLatchOrRestart_def isLatched_def Let_def)

lemma optimisticLatch_None: "optimisticLatchOrRestart l = None \<longleftrightarrow> isLatched l"
  by (auto simp: optimisticLatchOrRestart_def isLatched_def Let_def)

section \<open>The contract of the access functors\<close>

text \<open>
  \<open>access\<close> either retries holding nothing, or leaves the guard holding the frame: in the mode wanted when
  the node's possession suffices (\<open>INITIALIZED\<close>), exclusively when it has to be changed first.
  \<open>undo\<close> gives back what \<open>access\<close> took.  The lookups in the page table rely on nothing else.
\<close>

definition granted ::
  "LATCH_STATE \<Rightarrow> (NodeID \<Rightarrow> BufferFrame \<Rightarrow> bool) \<Rightarrow> NodeID \<Rightarrow> (BufferFrame \<Rightarrow> BufferFrame) \<Rightarrow>
     'f Guard \<Rightarrow> BufferFrame \<Rightarrow> 'f Guard \<Rightarrow> BufferFrame \<Rightarrow> bool" where
  "granted mode suffices n gap g f g' f' \<longleftrightarrow>
     latch_ok (bflatch f') \<and> gframe g' = gframe g \<and> guard_holds g' f' \<and> (same_fields f f' \<or> same_fields (gap f) f')
     \<and> (gstate g' = RETRY \<and> holds_nothing g'
        \<or> gstate g' = INITIALIZED \<and> latchState g' = mode \<and> suffices n f'
          \<and> (mode = OPTIMISTIC \<longrightarrow> \<not> isLatched (bflatch f') \<and> vAcquired g' = version (bflatch f'))
        \<or> gstate g' \<in> {LOCAL_POSSESSION_CHANGE, REMOTE_POSSESSION_CHANGE} \<and> latchState g' = EXCLUSIVE \<and> \<not> suffices n f')"

definition released :: "'f Guard \<Rightarrow> BufferFrame \<Rightarrow> 'f Guard \<Rightarrow> BufferFrame \<Rightarrow> bool" where
  "released g f g' f' \<longleftrightarrow> latch_ok (bflatch f') \<and> same_fields f f' \<and> holds_nothing g' \<and> gframe g' = gframe g
     \<and> (latchState g = EXCLUSIVE \<longrightarrow> smut (bflatch f') = Unlocked)
     \<and> (latchState g = SHARED \<longrightarrow> readers (bflatch f') = readers (bflatch f) - 1)"

locale access_functor =
  fixes access :: "(BufferFrame \<Rightarrow> BufferFrame) \<Rightarrow> NodeID \<Rightarrow> 'f Guard \<Rightarrow> BufferFrame \<Rightarrow> ('f Guard \<times> BufferFrame) result"
    and undo :: "'f Guard \<Rightarrow> BufferFrame \<Rightarrow> ('f Guard \<times> BufferFrame) result"
    and mode :: LATCH_STATE and suffices :: "NodeID \<Rightarrow> BufferFrame \<Rightarrow> bool"
  assumes access_ok: "latch_ok (bflatch f) \<Longrightarrow> undisturbed_fields gap f \<Longrightarrow> holds_nothing g \<Longrightarrow>
       \<exists>g' f'. access gap n g f = Inr (g', f') \<and> granted mode suffices n gap g f g' f'"
    and undo_ok: "latch_ok (bflatch f) \<Longrightarrow> guard_holds g f \<Longrightarrow> gstate g \<noteq> RETRY \<Longrightarrow>
       latchState g = mode \<or> latchState g = EXCLUSIVE \<and> \<not> suffices n f \<Longrightarrow>
       \<exists>g' f'. undo g f = Inr (g', f') \<and> released g f g' f'"

definition suffices_X :: "NodeID \<Rightarrow> BufferFrame \<Rightarrow> bool" where
  "suffices_X n f \<longleftrightarrow> possession f = EXCLUSIVE_P \<and> possessors f = n"

lemma unlatchX_undo:
  assumes "latch_ok (bflatch f)" and "smut (bflatch f) = Writer"
  shows "isLatched (bflatch f)" and "\<exists>l. unlatchExclusive (bflatch f) = Inr l \<and> latch_ok l \<and> smut l = Unlocked"
  using assms unlatchExclusive_ok [of "bflatch f"] by (auto simp: latch_ok_def)

text \<open>The result an upgrade to exclusive mode leads to, for every functor that makes one.\<close>

lemma upgradeX_result:
  assumes ok: "latch_ok (bflatch f)" and u: "undisturbed_fields gap f" and v: "optimisticLatchOrRestart (bflatch f) = Some v"
  obtains f' where "bf_upgrade optimisticUpgradeToExclusive gap v f = Inr (True, f')" "latch_ok (bflatch f')" "same_fields (gap f) f'"
      "smut (bflatch f') = Writer" "possession f' = possession f" "possessors f' = possessors f" "\<And>n. isPossessor n f' = isPossessor n f"
  | f' where "bf_upgrade optimisticUpgradeToExclusive gap v f = Inr (False, f')" "latch_ok (bflatch f')" "same_fields (gap f) f'"
proof (rule bf_upgradeX_cases [of gap f v])
  show "latch_ok (bflatch (gap f))" using u by (simp add: undisturbed_fields_def)
  fix l assume l: "bf_upgrade optimisticUpgradeToExclusive gap v f = Inr (True, (gap f)\<lparr>bflatch := l\<rparr>)" "latch_ok l"
    "smut l = Writer" "version (bflatch (gap f)) = v"
  have "possession (gap f) = possession f \<and> possessors (gap f) = possessors f \<and> pid (gap f) = pid f"
    using u v l(4) by (auto simp: undisturbed_fields_def optimisticLatch_Some)
  then show thesis using that(1) [OF l(1)] l isPossessor_cong [of "(gap f)\<lparr>bflatch := l\<rparr>" f] by simp
next
  fix l assume l: "bf_upgrade optimisticUpgradeToExclusive gap v f = Inr (False, (gap f)\<lparr>bflatch := l\<rparr>)" "latch_ok l"
  then show thesis using that(2) [OF l(1)] by simp
qed

lemma upgradeS_result:
  assumes ok: "latch_ok (bflatch f)" and u: "undisturbed_fields gap f" and v: "optimisticLatchOrRestart (bflatch f) = Some v"
  obtains f' where "bf_upgrade optimisticUpgradeToShared gap v f = Inr (True, f')" "latch_ok (bflatch f')" "same_fields (gap f) f'"
      "0 < readers (bflatch f')" "possession f' = possession f" "possessors f' = possessors f" "\<And>n. isPossessor n f' = isPossessor n f"
  | f' where "bf_upgrade optimisticUpgradeToShared gap v f = Inr (False, f')" "latch_ok (bflatch f')" "same_fields (gap f) f'"
proof (rule bf_upgradeS_cases [of gap f v])
  show "latch_ok (bflatch (gap f))" using u by (simp add: undisturbed_fields_def)
  fix l assume l: "bf_upgrade optimisticUpgradeToShared gap v f = Inr (True, (gap f)\<lparr>bflatch := l\<rparr>)" "latch_ok l"
    "0 < readers l" "version (bflatch (gap f)) = v"
  have "possession (gap f) = possession f \<and> possessors (gap f) = possessors f \<and> pid (gap f) = pid f"
    using u v l(4) by (auto simp: undisturbed_fields_def optimisticLatch_Some)
  then show thesis using that(1) [OF l(1)] l isPossessor_cong [of "(gap f)\<lparr>bflatch := l\<rparr>" f] by simp
next
  fix l assume l: "bf_upgrade optimisticUpgradeToShared gap v f = Inr (False, (gap f)\<lparr>bflatch := l\<rparr>)" "latch_ok l"
  then show thesis using that(2) [OF l(1)] by simp
qed

lemmas guard_simps = guard_holds_def holds_nothing_def possession_change_def

lemmas access_simps = granted_def released_def guard_simps

interpretation ex: access_functor Exclusive_access Exclusive_undo EXCLUSIVE suffices_X
proof
  fix f :: BufferFrame and gap and g :: "'f Guard" and n
  assume a: "latch_ok (bflatch f)" "undisturbed_fields gap f" "holds_nothing g"
  show "\<exists>g' f'. Exclusive_access gap n g f = Inr (g', f') \<and> granted EXCLUSIVE suffices_X n gap g f g' f'"
  proof (cases "optimisticLatchOrRestart (bflatch f)")
    case None
    then show ?thesis using a by (simp add: Exclusive_access_def access_simps)
  next
    case (Some v)
    show ?thesis
      by (rule upgradeX_result [OF a(1,2) Some])
        (use a Some in \<open>auto simp: Exclusive_access_def access_simps suffices_X_def isPossessor_def\<close>)
  qed
next
  fix f :: BufferFrame and g :: "'f Guard" and n
  assume "latch_ok (bflatch f)" "guard_holds g f" "gstate g \<noteq> RETRY" "latchState g = EXCLUSIVE \<or> latchState g = EXCLUSIVE \<and> \<not> suffices_X n f"
  then show "\<exists>g' f'. Exclusive_undo g f = Inr (g', f') \<and> released g f g' f'"
    using unlatchX_undo [of f] by (auto simp: Exclusive_undo_def access_simps)
qed

lemma unlatchS_undo:
  assumes "latch_ok (bflatch f)" and "0 < readers (bflatch f)"
  shows "\<not> isLatched (bflatch f)" and "\<exists>l. unlatchShared (bflatch f) = Inr l \<and> latch_ok l \<and> readers l = readers (bflatch f) - 1"
  using assms unlatchShared_ok [of "bflatch f"] by (auto simp: latch_ok_def readers.simps [of "bflatch f"] split: shared_mutex.splits)

interpretation sh: access_functor Shared_access Shared_undo SHARED isPossessor
proof
  fix f :: BufferFrame and gap and g :: "'f Guard" and n
  assume a: "latch_ok (bflatch f)" "undisturbed_fields gap f" "holds_nothing g"
  show "\<exists>g' f'. Shared_access gap n g f = Inr (g', f') \<and> granted SHARED isPossessor n gap g f g' f'"
  proof (cases "optimisticLatchOrRestart (bflatch f)")
    case None
    then show ?thesis using a by (simp add: Shared_access_def access_simps)
  next
    case (Some v)
    show ?thesis
    proof (cases "isPossessor n f")
      case True
      show ?thesis
        by (rule upgradeS_result [OF a(1,2) Some])
          (use a Some True in \<open>auto simp: Shared_access_def access_simps\<close>)
    next
      case False
      show ?thesis
        by (rule upgradeX_result [OF a(1,2) Some])
          (use a Some False in \<open>auto simp: Shared_access_def access_simps\<close>)
    qed
  qed
next
  fix f :: BufferFrame and g :: "'f Guard" and n
  assume "latch_ok (bflatch f)" "guard_holds g f" "gstate g \<noteq> RETRY" "latchState g = SHARED \<or> latchState g = EXCLUSIVE \<and> \<not> isPossessor n f"
  then show "\<exists>g' f'. Shared_undo g f = Inr (g', f') \<and> released g f g' f'"
    using unlatchX_undo [of f] unlatchS_undo [of f] by (auto simp: Shared_undo_def access_simps)
qed

lemma bflatch_gap: "undisturbed_fields gap f \<Longrightarrow> latch_ok (bflatch (gap f))"
  by (simp add: undisturbed_fields_def)

interpretation opt: access_functor Optimistic_access Optimistic_undo OPTIMISTIC isPossessor
proof
  fix f :: BufferFrame and gap and g :: "'f Guard" and n
  assume a: "latch_ok (bflatch f)" "undisturbed_fields gap f" "holds_nothing g"
  show "\<exists>g' f'. Optimistic_access gap n g f = Inr (g', f') \<and> granted OPTIMISTIC isPossessor n gap g f g' f'"
  proof (cases "optimisticLatchOrRestart (bflatch f)")
    case None
    then show ?thesis using a by (simp add: Optimistic_access_def access_simps)
  next
    case (Some v)
    show ?thesis
    proof (cases "isPossessor n f")
      case True
      have v: "\<not> isLatched (bflatch f)" "v = version (bflatch f)" using Some by (simp_all add: optimisticLatch_Some)
      have "isPossessor n (gap f) \<and> \<not> isLatched (bflatch (gap f))" if "version (bflatch (gap f)) = v"
        using a(2) v that True isPossessor_cong [of "gap f" f n] by (auto simp: undisturbed_fields_def isLatched_def)
      then show ?thesis
        using a(1,3) bflatch_gap [OF a(2)] Some True
        by (auto simp: Optimistic_access_def access_simps optimisticCheckOrRestart_def optimisticReadUnlatchOrRestart_def Let_def)
    next
      case False
      show ?thesis
        by (rule upgradeX_result [OF a(1,2) Some])
          (use a Some False in \<open>auto simp: Optimistic_access_def access_simps split: LATCH_STATE.splits\<close>)
    qed
  qed
next
  fix f :: BufferFrame and g :: "'f Guard" and n
  assume "latch_ok (bflatch f)" "guard_holds g f" "gstate g \<noteq> RETRY" "latchState g = OPTIMISTIC \<or> latchState g = EXCLUSIVE \<and> \<not> isPossessor n f"
  then show "\<exists>g' f'. Optimistic_undo g f = Inr (g', f') \<and> released g f g' f'"
    using unlatchX_undo [of f] by (auto simp: Optimistic_undo_def access_simps)
qed

text \<open>The functors of the message handler.  \<open>Invalidation\<close> and \<open>Copy\<close> read no field before they latch.\<close>

definition suffices_P :: "POSSESSION \<Rightarrow> NodeID \<Rightarrow> BufferFrame \<Rightarrow> bool" where
  "suffices_P m n f \<longleftrightarrow> possession f = m \<and> isPossessor n f"

interpretation prot: access_functor "Protocol_access m" Protocol_undo EXCLUSIVE "suffices_P m" for m
proof
  fix f :: BufferFrame and gap and g :: "'f Guard" and n
  assume a: "latch_ok (bflatch f)" "undisturbed_fields gap f" "holds_nothing g"
  show "\<exists>g' f'. Protocol_access m gap n g f = Inr (g', f') \<and> granted EXCLUSIVE (suffices_P m) n gap g f g' f'"
  proof (cases "optimisticLatchOrRestart (bflatch f)")
    case None
    then show ?thesis using a by (simp add: Protocol_access_def access_simps)
  next
    case (Some v)
    show ?thesis
      by (rule upgradeX_result [OF a(1,2) Some])
        (use a Some in \<open>auto simp: Protocol_access_def access_simps suffices_P_def Let_def\<close>)
  qed
next
  fix f :: BufferFrame and g :: "'f Guard" and n
  assume "latch_ok (bflatch f)" "guard_holds g f" "gstate g \<noteq> RETRY" "latchState g = EXCLUSIVE \<or> latchState g = EXCLUSIVE \<and> \<not> suffices_P m n f"
  then show "\<exists>g' f'. Protocol_undo g f = Inr (g', f') \<and> released g f g' f'"
    using unlatchX_undo [of f] by (auto simp: Protocol_undo_def access_simps)
qed

interpretation inval: access_functor "\<lambda>gap n g f. Inr (Invalidation_access n g (gap f))" Invalidation_undo EXCLUSIVE "\<lambda>_ _. True"
proof
  fix f :: BufferFrame and gap and g :: "'f Guard" and n
  assume a: "latch_ok (bflatch f)" "undisturbed_fields gap f" "holds_nothing g"
  show "\<exists>g' f'. Inr (Invalidation_access n g (gap f)) = Inr (g', f') \<and> granted EXCLUSIVE (\<lambda>_ _. True) n gap g f g' f'"
    using a tryLatchExclusive_ok [OF bflatch_gap [OF a(2)]]
    by (auto simp: Invalidation_access_def access_simps split: prod.splits if_splits)
next
  fix f :: BufferFrame and g :: "'f Guard" and n
  assume "latch_ok (bflatch f)" "guard_holds g f" "gstate g \<noteq> RETRY" "latchState g = EXCLUSIVE \<or> latchState g = EXCLUSIVE \<and> \<not> True"
  then show "\<exists>g' f'. Invalidation_undo g f = Inr (g', f') \<and> released g f g' f'"
    unfolding Invalidation_undo_def by (intro prot.undo_ok [where m = NOBODY]) simp_all
qed

interpretation copy: access_functor "\<lambda>gap n g f. Inr (Copy_access n g (gap f))" Copy_undo SHARED "\<lambda>_ _. True"
proof
  fix f :: BufferFrame and gap and g :: "'f Guard" and n
  assume a: "latch_ok (bflatch f)" "undisturbed_fields gap f" "holds_nothing g"
  show "\<exists>g' f'. Inr (Copy_access n g (gap f)) = Inr (g', f') \<and> granted SHARED (\<lambda>_ _. True) n gap g f g' f'"
    using a tryLatchShared_ok [OF bflatch_gap [OF a(2)]]
    by (auto simp: Copy_access_def access_simps split: prod.splits if_splits)
next
  fix f :: BufferFrame and g :: "'f Guard" and n
  assume "latch_ok (bflatch f)" "guard_holds g f" "gstate g \<noteq> RETRY" "latchState g = SHARED \<or> latchState g = EXCLUSIVE \<and> \<not> True"
  then show "\<exists>g' f'. Copy_undo g f = Inr (g', f') \<and> released g f g' f'"
    using unlatchS_undo [of f] by (auto simp: Copy_undo_def access_simps)
qed

text \<open>the access functors of the workers.  Whatever other threads do between the optimistic reads and
  the latching, a guard that comes back \<open>INITIALIZED\<close> holds the frame in the mode asked for and the node
  possesses the page in a sufficient mode at that moment; one that asks for a possession change holds it
  exclusively; one that says \<open>RETRY\<close> holds nothing.\<close>

theorem access_functors_grant:
  fixes g :: "'f Guard"
  assumes "latch_ok (bflatch f)" and "undisturbed_fields gap f" and "holds_nothing g"
  shows "(\<exists>g' f'. Exclusive_access gap n g f = Inr (g', f') \<and> granted EXCLUSIVE suffices_X n gap g f g' f')
     \<and> (\<exists>g' f'. Shared_access gap n g f = Inr (g', f') \<and> granted SHARED isPossessor n gap g f g' f')
     \<and> (\<exists>g' f'. Optimistic_access gap n g f = Inr (g', f') \<and> granted OPTIMISTIC isPossessor n gap g f g' f')"
  using ex.access_ok [OF assms, of n] sh.access_ok [OF assms, of n] opt.access_ok [OF assms, of n] by blast

theorem access_functors_grant_witness:
  "\<exists>g' f'. Shared_access (\<lambda>f. f) 3 (new_Guard :: nat Guard) new_BufferFrame = Inr (g', f')
     \<and> granted SHARED isPossessor 3 (\<lambda>f. f) new_Guard new_BufferFrame g' f'"
  using access_functors_grant [of new_BufferFrame "\<lambda>f. f" "new_Guard :: nat Guard" 3] new_HybridLatch_ok(1)
  by (simp add: new_BufferFrame_def new_Guard_def undisturbed_fields_def holds_nothing_def)

section \<open>Downgrading and unlocking\<close>

text \<open>A guard in exclusive mode that is downgraded either still holds the frame in the desired mode with
  no writer in between, or holds nothing and says \<open>RETRY\<close>; the frame's latch stays well-formed.\<close>

theorem guard_downgrade_sound:
  assumes "latch_ok l" and "latchState g = EXCLUSIVE" and "smut l = Writer" and "vAcquired g = version l"
    and "\<And>l. latch_ok l \<Longrightarrow> latch_ok (gap l)"
  shows "(\<exists>b g' l'. downgrade gap SHARED g l = Inr (b, g', l') \<and> latch_ok l'
       \<and> (if b then latchState g' = SHARED \<and> 0 < readers l' \<and> version l' = version l + 2 \<and> vAcquired g' = version l'
          else latchState g' = UNLATCHED \<and> gstate g' = RETRY))
     \<and> (\<exists>g' l'. downgrade gap OPTIMISTIC g l = Inr (True, g', l') \<and> latch_ok l' \<and> smut l' = Unlocked
       \<and> latchState g' = OPTIMISTIC \<and> vAcquired g' = version l')"
proof -
  have w: "isLatched l" using assms(1,3) by (simp add: latch_ok_def)
  let ?l = "l\<lparr>version := version l + 2, smut := Unlocked\<rparr>"
  note u = unlatchExclusive_ok [OF assms(1) w]
  have ok: "latch_ok (gap ?l)" by (rule assms(5) [OF u(2)])
  have t: "tryLatchShared (gap ?l) = (if isLatched (gap ?l) then (False, gap ?l) else (True, (gap ?l)\<lparr>smut := Readers (readers (gap ?l) + 1)\<rparr>))"
    and k: "latch_ok (snd (tryLatchShared (gap ?l)))" using tryLatchShared_ok [OF ok] .
  have "\<exists>b g' l'. downgrade gap SHARED g l = Inr (b, g', l') \<and> latch_ok l'
       \<and> (if b then latchState g' = SHARED \<and> 0 < readers l' \<and> version l' = version l + 2 \<and> vAcquired g' = version l'
          else latchState g' = UNLATCHED \<and> gstate g' = RETRY)"
  proof (cases "isLatched (gap ?l)")
    case True
    then show ?thesis using w u(1) t ok by (auto simp: downgrade_def Let_def)
  next
    case False
    let ?m = "(gap ?l)\<lparr>smut := Readers (readers (gap ?l) + 1)\<rparr>"
    have m: "latch_ok ?m" using k t False by simp
    obtain l' where l': "unlatchShared ?m = Inr l'" "latch_ok l'" using unlatchShared_ok [OF m] by auto
    show ?thesis
      using False w u(1) t m l' by (cases "version l + 2 = version (gap ?l)") (auto simp: downgrade_def Let_def)
  qed
  moreover have "\<exists>g' l'. downgrade gap OPTIMISTIC g l = Inr (True, g', l') \<and> latch_ok l' \<and> smut l' = Unlocked
       \<and> latchState g' = OPTIMISTIC \<and> vAcquired g' = version l'"
    using assms(2,4) u by (auto simp: downgrade_def downgradeExclusiveToOptimistic_def)
  ultimately show ?thesis ..
qed

theorem guard_downgrade_sound_witness:
  "\<exists>g' l'. downgrade (\<lambda>l. l) OPTIMISTIC ((new_Guard :: nat Guard)\<lparr>latchState := EXCLUSIVE, vAcquired := 6\<rparr>) \<lparr>version = 6, smut = Writer\<rparr>
     = Inr (True, g', l') \<and> latch_ok l' \<and> smut l' = Unlocked \<and> latchState g' = OPTIMISTIC \<and> vAcquired g' = version l'"
  by (rule conjunct2 [OF guard_downgrade_sound]) (simp_all add: latch_ok_def isLatched_def isLatchedV_def new_Guard_def)

end
