(* ===== verification/PageTable.thy ===== *)
theory PageTable
  imports Guard
begin

text \<open>
  The page table of the buffer manager (Buffermanager.hpp, Buffermanager.tpp): a hash table whose
  buckets are the first \<open>size\<close> buffer frames of the frame array, each with one frame inline and a chain of
  overflow frames linked by \<open>next\<close>; the free lists of frames, pages and page ids; insertion, removal and the
  lookups that acquire the frame with an access functor.

  The loops of the code that start over (\<open>goto restart\<close>) are runs over a list: each element is one attempt,
  with what other threads changed before it and which of its optimistic validations fail.
\<close>

section \<open>Hashing\<close>

definition Rotr64 :: "u64 \<Rightarrow> nat \<Rightarrow> u64" where
  "Rotr64 x n = drop_bit n x OR push_bit (64 - n) x"

definition FasterHash :: "u64 \<Rightarrow> u64" where
  "FasterHash input =
     (let h = 8;
          h = 40343 * h + (input AND 0xFFFF);
          h = 40343 * h + (drop_bit 16 input AND 0xFFFF);
          h = 40343 * h + (drop_bit 32 input AND 0xFFFF);
          h = 40343 * h + drop_bit 48 input
      in 40343 * h)"

section \<open>The buffer manager's tables\<close>

record bufmgr =
  bfs :: "BufferFrame list"
  ptsize :: u64
  frameFree :: "fref list"
  pageFree :: "addr list"
  pidFree :: "PID list"
  bmNode :: NodeID
  globalEpoch :: u64

text \<open>\<open>operator[]\<close>: the bucket of a page id.\<close>

definition bucket :: "bufmgr \<Rightarrow> PID \<Rightarrow> fref" where
  "bucket m p = unat (FasterHash (PID.id p) AND (ptsize m - 1))"

definition upd_frame :: "fref \<Rightarrow> (BufferFrame \<Rightarrow> BufferFrame) \<Rightarrow> bufmgr \<Rightarrow> bufmgr" where
  "upd_frame i u m = m\<lparr>bfs := (bfs m)[i := u (bfs m ! i)]\<rparr>"

definition set_ht_latch :: "fref \<Rightarrow> OptimisticLatch \<Rightarrow> bufmgr \<Rightarrow> bufmgr" where
  "set_ht_latch b l m = upd_frame b (\<lambda>f. f\<lparr>ht_bucket_latch := l\<rparr>) m"

definition ht_latch :: "bufmgr \<Rightarrow> fref \<Rightarrow> OptimisticLatch" where
  "ht_latch m b = ht_bucket_latch (bfs m ! b)"

text \<open>The constructor of \<open>PageTable\<close> and the part of the constructor of \<open>Buffermanager\<close> that builds the frames
  and the free lists; the shuffled orders are arguments.\<close>

definition new_PageTable :: "u64 \<Rightarrow> nat \<Rightarrow> u64 result" where
  "new_PageTable numberBuckets nframes = ensure (unat numberBuckets < nframes) (Inr (nextPowerTwo numberBuckets))"

section \<open>insertFrame\<close>

text \<open>The loop over the chain: the frame whose \<open>next\<close> is null, \<open>Runtime_error\<close> for a duplicate.  The length of the
  frame array bounds its iterations; \<open>None\<close> is a chain that does not end.\<close>

fun last_slot :: "BufferFrame list \<Rightarrow> PID \<Rightarrow> nat \<Rightarrow> fref \<Rightarrow> fref result option" where
  "last_slot bs p 0 i = None"
| "last_slot bs p (Suc n) i =
     (case nextF (bs ! i) of
        None \<Rightarrow> Some (Inr i)
      | Some j \<Rightarrow> if pid (bs ! j) = p then Some (Inl (Runtime_error ''Duplicate pid'')) else last_slot bs p n j)"

datatype ('s, 'a) step_result = Again 's | Finished 's 'a | Failed cpp_error

definition of_result :: "'a result \<Rightarrow> ('a \<Rightarrow> ('s, 'b) step_result) \<Rightarrow> ('s, 'b) step_result" where
  "of_result r k = (case r of Inl e \<Rightarrow> Failed e | Inr x \<Rightarrow> k x)"

definition unlatch_bucket :: "fref \<Rightarrow> bufmgr \<Rightarrow> bufmgr result" where
  "unlatch_bucket b m = bind_r (ol_unlatchExclusive (ht_latch m b)) (\<lambda>l. Inr (set_ht_latch b l m))"

definition init_frame :: "fref \<Rightarrow> (BufferFrame \<Rightarrow> BufferFrame result) \<Rightarrow> bufmgr \<Rightarrow> bufmgr result" where
  "init_frame i init m = bind_r (init (bfs m ! i)) (\<lambda>f. Inr (upd_frame i (\<lambda>_. f) m))"

definition insertFrame_attempt :: "PID \<Rightarrow> (BufferFrame \<Rightarrow> BufferFrame result) \<Rightarrow> bufmgr \<Rightarrow> (bufmgr, fref) step_result" where
  "insertFrame_attempt p init m =
     (let b = bucket m p; (success, l) = ol_tryLatchExclusive (\<lambda>l. l) (ht_latch m b)
      in if \<not> success then Again m
         else let m = set_ht_latch b l m
              in if state (bfs m ! b) = FREE then
                   of_result (init_frame b init m) (\<lambda>m.
                   of_result (unlatch_bucket b m) (\<lambda>m.
                   of_result (ensure (isLatched (bflatch (bfs m ! b))) (Inr ())) (\<lambda>_. Finished m b)))
                 else (case last_slot (bfs m) p (length (bfs m)) b of
                         None \<Rightarrow> Failed Undefined
                       | Some (Inl e) \<Rightarrow> Failed e
                       | Some (Inr i) \<Rightarrow>
                           (case frameFree m of
                              [] \<Rightarrow> of_result (unlatch_bucket b m) Again
                            | j # js \<Rightarrow>
                                let m = upd_frame i (\<lambda>f. f\<lparr>nextF := Some j\<rparr>) (m\<lparr>frameFree := js\<rparr>)
                                in of_result (init_frame j init m) (\<lambda>m.
                                   of_result (unlatch_bucket b m) (\<lambda>m.
                                   of_result (ensure (isLatched (bflatch (bfs m ! j))) (Inr ())) (\<lambda>_. Finished m j))))))"

text \<open>A loop of attempts, each after what other threads did (\<open>env\<close>).\<close>

fun attempts :: "('e \<Rightarrow> 's \<Rightarrow> ('s, 'a) step_result) \<Rightarrow> 'e list \<Rightarrow> 's \<Rightarrow> ('s \<times> 'a) result option" where
  "attempts f [] s = None"
| "attempts f (e # es) s =
     (case f e s of
        Failed err \<Rightarrow> Some (Inl err)
      | Finished s' x \<Rightarrow> Some (Inr (s', x))
      | Again s' \<Rightarrow> attempts f es s')"

definition insertFrame ::
  "(bufmgr \<Rightarrow> bufmgr) list \<Rightarrow> PID \<Rightarrow> (BufferFrame \<Rightarrow> BufferFrame result) \<Rightarrow> bufmgr \<Rightarrow> (bufmgr \<times> fref) result option" where
  "insertFrame envs p init m = attempts (\<lambda>env m. insertFrame_attempt p init (env m)) envs m"

section \<open>removeFrame\<close>

text \<open>\<open>handle_page_func\<close> moves the page (and page id) of the frame elsewhere: it changes the free lists of the
  manager or a list of its own, given the frame.\<close>

definition release_frame :: "fref \<Rightarrow> fref \<Rightarrow> (BufferFrame \<Rightarrow> bufmgr \<Rightarrow> bufmgr result) \<Rightarrow> bufmgr \<Rightarrow> bufmgr result" where
  "release_frame i b handle_page m =
     ensure (state (bfs m ! i) \<noteq> FREE) (
     bind_r (handle_page (bfs m ! i) m) (\<lambda>m.
     bind_r (unlatch_bucket b (upd_frame i bf_reset m)) (\<lambda>m.
     bind_r (unlatchExclusive (bflatch (bfs m ! i))) (\<lambda>l. Inr (upd_frame i (\<lambda>f. f\<lparr>bflatch := l\<rparr>) m)))))"

text \<open>The slot whose \<open>next\<close> points to a frame of the given page id.\<close>

fun find_slot :: "BufferFrame list \<Rightarrow> PID \<Rightarrow> nat \<Rightarrow> fref \<Rightarrow> fref option option" where
  "find_slot bs p 0 i = None"
| "find_slot bs p (Suc n) i =
     (case nextF (bs ! i) of
        None \<Rightarrow> Some None
      | Some j \<Rightarrow> if pid (bs ! j) = p then Some (Some i) else find_slot bs p n j)"

definition removeFrame_attempt :: "fref \<Rightarrow> (BufferFrame \<Rightarrow> bufmgr \<Rightarrow> bufmgr result) \<Rightarrow> bufmgr \<Rightarrow> (bufmgr, unit) step_result" where
  "removeFrame_attempt i handle_page m =
     of_result (ensure (isLatched (bflatch (bfs m ! i))) (Inr ())) (\<lambda>_.
     let b = (if isHtBucket (bfs m ! i) then i else bucket m (pid (bfs m ! i)));
         (success, l) = ol_tryLatchExclusive (\<lambda>l. l) (ht_latch m b)
     in if \<not> success then Again m
        else let m = set_ht_latch b l m
             in if isHtBucket (bfs m ! i) then of_result (release_frame i i handle_page m) (\<lambda>m. Finished m ())
                else (case find_slot (bfs m) (pid (bfs m ! i)) (length (bfs m)) b of
                        None \<Rightarrow> Failed Undefined
                      | Some None \<Rightarrow> Failed (Runtime_error ''removeFrame failed - page not in buffer'')
                      | Some (Some s) \<Rightarrow>
                          let j = the (nextF (bfs m ! s));
                              m = upd_frame s (\<lambda>f. f\<lparr>nextF := nextF (bfs m ! j)\<rparr>) m
                          in of_result (release_frame i b handle_page m) (\<lambda>m.
                             Finished (m\<lparr>frameFree := i # frameFree m\<rparr>) ())))"

definition removeFrame ::
  "(bufmgr \<Rightarrow> bufmgr) list \<Rightarrow> fref \<Rightarrow> (BufferFrame \<Rightarrow> bufmgr \<Rightarrow> bufmgr result) \<Rightarrow> bufmgr \<Rightarrow> (bufmgr \<times> unit) result option" where
  "removeFrame envs i handle_page m = attempts (\<lambda>env m. removeFrame_attempt i handle_page (env m)) envs m"

section \<open>Lookups\<close>

text \<open>The walk over a bucket and its chain.  \<open>fail j\<close> says which of the validations of the bucket latch fail: three
  per frame visited (before the page ids are compared, after a match, after \<open>next\<close> was read).\<close>

datatype walk = Restarted | Found fref | Missing fref | Lost

fun find_walk :: "(nat \<Rightarrow> bool) \<Rightarrow> BufferFrame list \<Rightarrow> PID \<Rightarrow> nat \<Rightarrow> nat \<Rightarrow> fref \<Rightarrow> walk" where
  "find_walk fail bs p 0 j i = Lost"
| "find_walk fail bs p (Suc n) j i =
     (if fail (3 * j) then Restarted
      else if pid (bs ! i) = p then (if fail (3 * j + 1) then Restarted else Found i)
      else if fail (3 * j + 2) then Restarted
      else (case nextF (bs ! i) of None \<Rightarrow> Missing i | Some i' \<Rightarrow> find_walk fail bs p n (j + 1) i'))"

text \<open>One attempt: what the other threads do before it, to the frame while the functor runs and while a page is
  taken from the free list, the validations of the walk that fail, and those after the walk and after the functor.\<close>

record find_env =
  before :: "bufmgr \<Rightarrow> bufmgr"
  during :: "BufferFrame \<Rightarrow> BufferFrame"
  waiting :: "bufmgr \<Rightarrow> bufmgr"
  fails :: "nat \<Rightarrow> bool"
  fail_end :: bool
  moved :: bool

type_synonym access_fn = "(BufferFrame \<Rightarrow> BufferFrame) \<Rightarrow> NodeID \<Rightarrow> fref Guard \<Rightarrow> BufferFrame \<Rightarrow> (fref Guard \<times> BufferFrame) result"

type_synonym undo_fn = "fref Guard \<Rightarrow> BufferFrame \<Rightarrow> (fref Guard \<times> BufferFrame) result"

text \<open>A frame with the page id was found: run the functor, then check the bucket latch once more.\<close>

definition on_found ::
  "access_fn \<Rightarrow> undo_fn \<Rightarrow> CONTENTION_METHOD \<Rightarrow> NodeID \<Rightarrow> find_env \<Rightarrow> fref \<Rightarrow> fref Guard \<Rightarrow> bufmgr \<Rightarrow> (fref Guard \<times> bufmgr, fref Guard) step_result" where
  "on_found access undo method n e i g m =
     of_result (access (during e) n (g\<lparr>gframe := Some i\<rparr>) (bfs m ! i)) (\<lambda>(g, f).
     let m = upd_frame i (\<lambda>_. f) m
     in if method = NON_BLOCKING then
          (if moved e then of_result (undo g (bfs m ! i)) (\<lambda>(g, f). let m = upd_frame i (\<lambda>_. f) m in Finished (g, m) g)
           else Finished (g, m) g)
        else if gstate g = RETRY then Again (g, m)
        else if moved e then of_result (undo g (bfs m ! i)) (\<lambda>(g, f). let m = upd_frame i (\<lambda>_. f) m in Again (g, m))
        else Finished (g, m) g)"

definition findFrame_attempt ::
  "access_fn \<Rightarrow> undo_fn \<Rightarrow> CONTENTION_METHOD \<Rightarrow> PID \<Rightarrow> NodeID \<Rightarrow> find_env \<Rightarrow> fref Guard \<times> bufmgr \<Rightarrow> (fref Guard \<times> bufmgr, fref Guard) step_result" where
  "findFrame_attempt access undo method p n e gm =
     (let (g, m) = (fst gm, before e (snd gm)); b = bucket m p
      in case ol_optimisticLatchOrRestart (ht_latch m b) of
           None \<Rightarrow> Again (g, m)
         | Some b_version \<Rightarrow>
             (case find_walk (fails e) (bfs m) p (length (bfs m)) 0 b of
                Lost \<Rightarrow> Failed Undefined
              | Restarted \<Rightarrow> Again (g, m)
              | Found i \<Rightarrow> on_found access undo method n e i g m
              | Missing i \<Rightarrow>
                  if fail_end e then Again (g, m)
                  else let g = g\<lparr>gstate := NOT_FOUND\<rparr> in Finished (g, m) g))"

definition findFrame ::
  "access_fn \<Rightarrow> undo_fn \<Rightarrow> CONTENTION_METHOD \<Rightarrow> find_env list \<Rightarrow> PID \<Rightarrow> NodeID \<Rightarrow> bufmgr \<Rightarrow> ((fref Guard \<times> bufmgr) \<times> fref Guard) result option" where
  "findFrame access undo method es p n m = attempts (findFrame_attempt access undo method p n) es (new_Guard, m)"

text \<open>The insertion branch of \<open>findFrameOrInsert\<close>: take a page (waiting for one holds no latch), latch the
  bucket at the version of the walk, use the inline frame or a free one linked to the end of the chain.\<close>

definition init_missing :: "PID \<Rightarrow> addr \<Rightarrow> bufmgr \<Rightarrow> BufferFrame \<Rightarrow> BufferFrame result" where
  "init_missing p page m f =
     bind_r (latchExclusive (bflatch f)) (\<lambda>l.
     ensure (pid f = EMPTY_PID) (
     Inr (setPossession NOBODY (f\<lparr>bflatch := l, state := (if getOwner p = bmNode m then IO_SSD else IO_RDMA),
            pageP := Some page, pid := p, epoch := globalEpoch m\<rparr>))))"

definition insert_missing ::
  "PID \<Rightarrow> Version \<Rightarrow> fref \<Rightarrow> fref \<Rightarrow> fref Guard \<Rightarrow> bufmgr \<Rightarrow> (fref Guard \<times> bufmgr, fref Guard) step_result" where
  "insert_missing p b_version b i g m =
     (case pageFree m of
        [] \<Rightarrow> Failed Blocked
      | page # pages \<Rightarrow>
          (case ol_upgradeToExclusiveLatch b_version (ht_latch m b) of
             (False, _, _) \<Rightarrow> Again (g, m)
           | (True, _, l) \<Rightarrow>
               let m = set_ht_latch b l (m\<lparr>pageFree := pages\<rparr>)
               in (case (if state (bfs m ! b) \<noteq> FREE then
                           (case frameFree m of [] \<Rightarrow> None | j # js \<Rightarrow> Some (j, upd_frame i (\<lambda>f. f\<lparr>nextF := Some j\<rparr>) (m\<lparr>frameFree := js\<rparr>)))
                         else Some (b, m)) of
                     None \<Rightarrow> of_result (unlatch_bucket b m) (\<lambda>m. Again (g, m\<lparr>pageFree := page # pageFree m\<rparr>))
                   | Some (j, m) \<Rightarrow>
                       of_result (init_frame j (init_missing p page m) m) (\<lambda>m.
                       of_result (unlatch_bucket b m) (\<lambda>m.
                       let g = g\<lparr>gframe := Some j, gstate := (if getOwner p = bmNode m then SSD else REMOTE),
                                vAcquired := version (bflatch (bfs m ! j)), latchState := EXCLUSIVE\<rparr>
                       in Finished (g, m) g)))))"

definition findFrameOrInsert_attempt ::
  "access_fn \<Rightarrow> undo_fn \<Rightarrow> CONTENTION_METHOD \<Rightarrow> PID \<Rightarrow> NodeID \<Rightarrow> find_env \<Rightarrow> fref Guard \<times> bufmgr \<Rightarrow> (fref Guard \<times> bufmgr, fref Guard) step_result" where
  "findFrameOrInsert_attempt access undo method p n e gm =
     (let (g, m) = (fst gm, before e (snd gm)); b = bucket m p
      in case ol_optimisticLatchOrRestart (ht_latch m b) of
           None \<Rightarrow> Again (g, m)
         | Some b_version \<Rightarrow>
             (case find_walk (fails e) (bfs m) p (length (bfs m)) 0 b of
                Lost \<Rightarrow> Failed Undefined
              | Restarted \<Rightarrow> Again (g, m)
              | Found i \<Rightarrow> on_found access undo method n e i g m
              | Missing i \<Rightarrow> if fail_end e then Again (g, m) else insert_missing p b_version b i g (waiting e m)))"

definition findFrameOrInsert ::
  "access_fn \<Rightarrow> undo_fn \<Rightarrow> CONTENTION_METHOD \<Rightarrow> find_env list \<Rightarrow> PID \<Rightarrow> NodeID \<Rightarrow> bufmgr \<Rightarrow> ((fref Guard \<times> bufmgr) \<times> fref Guard) result option" where
  "findFrameOrInsert access undo method es p n m = attempts (findFrameOrInsert_attempt access undo method p n) es (new_Guard, m)"

section \<open>Pages coming and going\<close>

text \<open>\<open>newPage\<close>, \<open>newRemotePage\<close> (given the page id the remote owner answered) and the remote half of the
  allocation, and \<open>reclaimPage\<close>.\<close>

definition init_new :: "PID \<Rightarrow> addr \<Rightarrow> NodeID \<Rightarrow> u64 \<Rightarrow> BufferFrame \<Rightarrow> BufferFrame result" where
  "init_new p page nodeId ep f =
     bind_r (latchExclusive (bflatch f)) (\<lambda>l.
     bind_r (setPossessor nodeId (setPossession EXCLUSIVE_P (f\<lparr>bflatch := l, pageP := Some page, pid := p\<rparr>))) (\<lambda>f.
     Inr (f\<lparr>state := HOT, pVersion := 0, epoch := ep\<rparr>)))"

definition newPage :: "(bufmgr \<Rightarrow> bufmgr) list \<Rightarrow> bufmgr \<Rightarrow> (bufmgr \<times> fref) result option" where
  "newPage envs m =
     (case pidFree m of
        [] \<Rightarrow> Some (Inl Blocked)
      | p # ps \<Rightarrow> (case pageFree m of
          [] \<Rightarrow> Some (Inl Blocked)
        | page # pages \<Rightarrow> insertFrame envs p (init_new p page (bmNode m) (globalEpoch m)) (m\<lparr>pidFree := ps, pageFree := pages\<rparr>)))"

definition newRemotePage :: "(bufmgr \<Rightarrow> bufmgr) list \<Rightarrow> PID \<Rightarrow> bufmgr \<Rightarrow> (bufmgr \<times> fref) result option" where
  "newRemotePage envs p m =
     (case pageFree m of
        [] \<Rightarrow> Some (Inl Blocked)
      | page # pages \<Rightarrow> insertFrame envs p (init_new p page (bmNode m) 0) (m\<lparr>pageFree := pages\<rparr>))"

definition init_remote :: "PID \<Rightarrow> NodeID \<Rightarrow> u64 \<Rightarrow> BufferFrame \<Rightarrow> BufferFrame result" where
  "init_remote p client ep f =
     bind_r (latchExclusive (bflatch f)) (\<lambda>l.
     bind_r (setPossessor client (setPossession EXCLUSIVE_P (f\<lparr>bflatch := l\<rparr>))) (\<lambda>f.
     Inr (f\<lparr>state := EVICTED, pid := p, pVersion := 0, dirty := True, epoch := ep\<rparr>)))"

text \<open>\<open>pageFreeList.push\<close> of the page of a frame; a frame without a page would push a null pointer.\<close>

definition push_page :: "BufferFrame \<Rightarrow> bufmgr \<Rightarrow> bufmgr result" where
  "push_page f m = (case pageP f of None \<Rightarrow> Inl Undefined | Some page \<Rightarrow> Inr (m\<lparr>pageFree := page # pageFree m\<rparr>))"

definition reclaimPage :: "(bufmgr \<Rightarrow> bufmgr) list \<Rightarrow> fref \<Rightarrow> bufmgr \<Rightarrow> (bufmgr \<times> unit) result option" where
  "reclaimPage envs i m =
     (if \<not> isLatched (bflatch (bfs m ! i)) then Some (Inl Ensure_failed)
      else if getOwner (pid (bfs m ! i)) = bmNode m then
        removeFrame envs i (\<lambda>f m. push_page f (m\<lparr>pidFree := pid f # pidFree m\<rparr>)) m
      else removeFrame envs i push_page m)"

section \<open>Construction\<close>

text \<open>The constructor of the buffer manager: the frames, the first of them the buckets; the free lists, filled with the
  pages and frames in the order they were shuffled into and with the page ids of this node except for the catalog's;
  the catalog page on its owner.\<close>

definition fresh_frames :: "nat \<Rightarrow> u64 \<Rightarrow> BufferFrame list" where
  "fresh_frames n sz = map (\<lambda>i. new_BufferFrame\<lparr>isHtBucket := i < unat sz\<rparr>) [0..<n]"

definition init_catalog :: "addr \<Rightarrow> NodeID \<Rightarrow> BufferFrame \<Rightarrow> BufferFrame result" where
  "init_catalog page nodeId f =
     bind_r (latchExclusive (bflatch f)) (\<lambda>l.
     bind_r (setPossessor nodeId (setPossession EXCLUSIVE_P (f\<lparr>bflatch := l, pageP := Some page, pid := CATALOG_PID\<rparr>))) (\<lambda>f.
     Inr (f\<lparr>state := HOT, pVersion := 0\<rparr>)))"

definition create_catalog :: "bufmgr \<Rightarrow> bufmgr result" where
  "create_catalog m =
     (case pageFree m of
        [] \<Rightarrow> Inl Blocked
      | page # pgs \<Rightarrow>
          (case insertFrame_attempt CATALOG_PID (init_catalog page (bmNode m)) (m\<lparr>pageFree := pgs\<rparr>) of
             Failed e \<Rightarrow> Inl e
           | Again _ \<Rightarrow> Inl Blocked
           | Finished m j \<Rightarrow> bind_r (unlatchExclusive (bflatch (bfs m ! j))) (\<lambda>l. Inr (upd_frame j (\<lambda>f. f\<lparr>bflatch := l\<rparr>) m))))"

definition new_Buffermanager :: "NodeID \<Rightarrow> u64 \<Rightarrow> nat \<Rightarrow> addr list \<Rightarrow> fref list \<Rightarrow> bufmgr result" where
  "new_Buffermanager nodeId dramPoolNumberPages ssdPages pages frames =
     (let bufferFrames = unat (nextPowerTwo dramPoolNumberPages * 4)
      in bind_r (new_PageTable dramPoolNumberPages bufferFrames) (\<lambda>sz.
         let bs = fresh_frames bufferFrames sz
         in ensure (list_all (\<lambda>i. \<not> isHtBucket (bs ! i)) frames) (
            ensure (unat dramPoolNumberPages < ssdPages) (
            let m = \<lparr>bfs = bs, ptsize = sz, frameFree = frames, pageFree = pages,
                     pidFree = rev (filter (\<lambda>p. p \<noteq> CATALOG_PID) (map (\<lambda>i. mk_PID nodeId (of_nat i)) [0..<ssdPages])),
                     bmNode = nodeId, globalEpoch = 0\<rparr>
            in if nodeId = CATALOG_OWNER then create_catalog m else Inr m))))"

end
