(* ===== verification/PageTable_Map.thy ===== *)
theory PageTable_Map
  imports PageTable
begin

text \<open>
  The page table implements a map from page ids to frames.  \<open>pt_ok\<close> is its well-formedness: the chains, as
  lists of frame indices, and what the frames in them, in the inline buckets and on the free list look like.
\<close>

section \<open>Chains\<close>

fun path :: "BufferFrame list \<Rightarrow> fref option \<Rightarrow> fref list \<Rightarrow> bool" where
  "path bs None xs \<longleftrightarrow> xs = []"
| "path bs (Some i) xs \<longleftrightarrow> (case xs of [] \<Rightarrow> False | x # ys \<Rightarrow> x = i \<and> i < length bs \<and> path bs (nextF (bs ! i)) ys)"

lemma path_Nil [simp]: "path bs s [] \<longleftrightarrow> s = None"
  by (cases s) auto

lemma path_Cons [simp]: "path bs s (x # xs) \<longleftrightarrow> s = Some x \<and> x < length bs \<and> path bs (nextF (bs ! x)) xs"
  by (cases s) auto

lemma path_cong:
  "length bs' = length bs \<Longrightarrow> (\<And>i. i \<in> set xs \<Longrightarrow> nextF (bs' ! i) = nextF (bs ! i)) \<Longrightarrow> path bs' s xs = path bs s xs"
proof (induction xs arbitrary: s)
  case (Cons x xs)
  then show ?case by (cases s) auto
qed simp

lemma path_bounds: "path bs s xs \<Longrightarrow> i \<in> set xs \<Longrightarrow> i < length bs"
  by (induction xs arbitrary: s) auto

lemma path_last: "path bs (nextF (bs ! i)) xs \<Longrightarrow> nextF (bs ! last (i # xs)) = None"
  by (induction xs arbitrary: i) auto

lemma path_extend:
  assumes "path bs (nextF (bs ! i)) xs" and "length bs' = length bs" and "j < length bs"
    and "nextF (bs' ! last (i # xs)) = Some j" and "nextF (bs' ! j) = None"
    and "\<And>k. k \<in> set (i # xs) \<Longrightarrow> k \<noteq> last (i # xs) \<Longrightarrow> nextF (bs' ! k) = nextF (bs ! k)" and "distinct (i # xs)"
  shows "path bs' (nextF (bs' ! i)) (xs @ [j])"
  using assms(1,4,6,7)
proof (induction xs arbitrary: i)
  case (Cons x xs)
  have "i \<noteq> last (x # xs)" using Cons.prems(4) by (metis distinct.simps(2) last_in_set list.distinct(1))
  then have "nextF (bs' ! i) = nextF (bs ! i)" using Cons.prems(3) [of i] by simp
  then show ?case using Cons.IH [of x] Cons.prems assms(2) by auto
qed (use assms in auto)

lemma path_unlink:
  assumes "path bs (nextF (bs ! i)) (xs @ k # ys)" and "length bs' = length bs"
    and "nextF (bs' ! last (i # xs)) = nextF (bs ! k)"
    and "\<And>l. l \<in> set (i # xs @ ys) \<Longrightarrow> l \<noteq> last (i # xs) \<Longrightarrow> nextF (bs' ! l) = nextF (bs ! l)" and "distinct (i # xs @ k # ys)"
  shows "path bs' (nextF (bs' ! i)) (xs @ ys)"
  using assms(1,3,4,5)
proof (induction xs arbitrary: i)
  case Nil
  then have "\<And>l. l \<in> set ys \<Longrightarrow> nextF (bs' ! l) = nextF (bs ! l)" by auto
  then show ?case using Nil path_cong [of bs' bs ys] assms(2) by auto
next
  case (Cons x xs)
  have "i \<noteq> last (x # xs)" using Cons.prems(4) by (metis append_Cons distinct.simps(2) in_set_conv_decomp last_in_set list.distinct(1) set_append Un_iff)
  then have "nextF (bs' ! i) = nextF (bs ! i)" using Cons.prems(3) [of i] by simp
  then show ?case using Cons.IH [of x] Cons.prems assms(2) by auto
qed

text \<open>The loops over a chain, on the list.\<close>

lemma last_slot_path:
  "path bs (nextF (bs ! i)) xs \<Longrightarrow> length xs < n \<Longrightarrow>
     last_slot bs p n i = Some (if p \<in> (\<lambda>j. pid (bs ! j)) ` set xs then Inl (Runtime_error ''Duplicate pid'') else Inr (last (i # xs)))"
proof (induction xs arbitrary: i n)
  case Nil
  then show ?case by (cases n) auto
next
  case (Cons x xs)
  then obtain n' where "n = Suc n'" by (cases n) auto
  with Cons show ?case by auto
qed

lemma find_slot_path:
  "path bs (nextF (bs ! i)) (xs @ k # ys) \<Longrightarrow> length (xs @ k # ys) < n \<Longrightarrow> pid (bs ! k) = p \<Longrightarrow>
     (\<And>l. l \<in> set xs \<Longrightarrow> pid (bs ! l) \<noteq> p) \<Longrightarrow> find_slot bs p n i = Some (Some (last (i # xs)))"
proof (induction xs arbitrary: i n)
  case Nil
  then show ?case by (cases n) auto
next
  case (Cons x xs)
  then obtain n' where "n = Suc n'" by (cases n) auto
  with Cons show ?case by auto
qed

lemma find_walk_path:
  assumes "path bs (nextF (bs ! i)) xs" and "length xs < n"
  shows "find_walk fail bs p n j i = Restarted \<and> (\<exists>k. fail k)
     \<or> find_walk fail bs p n j i = (case find (\<lambda>k. pid (bs ! k) = p) (i # xs) of Some k \<Rightarrow> Found k | None \<Rightarrow> Missing (last (i # xs)))"
  using assms
proof (induction xs arbitrary: i n j)
  case Nil
  then show ?case by (cases n) auto
next
  case (Cons x xs)
  then obtain n' where n: "n = Suc n'" by (cases n) auto
  have "last (i # x # xs) = last (x # xs)" by simp
  moreover have "nextF (bs ! i) = Some x" "path bs (nextF (bs ! x)) xs" "length xs < n'" using Cons.prems n by simp_all
  ultimately show ?case using Cons.IH [of x n' "j + 1"] n by (auto simp del: last.simps split: option.splits)
qed

section \<open>Well-formed tables\<close>

definition bucket_ok :: "bufmgr \<Rightarrow> fref list \<Rightarrow> nat \<Rightarrow> bool" where
  "bucket_ok m xs b \<longleftrightarrow>
     path (bfs m) (nextF (bfs m ! b)) xs
     \<and> (\<forall>i\<in>set xs. unat (ptsize m) \<le> i \<and> state (bfs m ! i) \<noteq> FREE \<and> pid (bfs m ! i) \<noteq> EMPTY_PID \<and> bucket m (pid (bfs m ! i)) = b)
     \<and> distinct (map (\<lambda>i. pid (bfs m ! i)) (b # xs))
     \<and> (if state (bfs m ! b) = FREE then pid (bfs m ! b) = EMPTY_PID
        else pid (bfs m ! b) \<noteq> EMPTY_PID \<and> bucket m (pid (bfs m ! b)) = b)
     \<and> \<not> ol_isLatched (ht_latch m b)"

definition frame_ok :: "bufmgr \<Rightarrow> nat \<Rightarrow> bool" where
  "frame_ok m i \<longleftrightarrow> (isHtBucket (bfs m ! i) \<longleftrightarrow> i < unat (ptsize m)) \<and> latch_ok (bflatch (bfs m ! i))
     \<and> (state (bfs m ! i) = FREE \<longrightarrow> smut (bflatch (bfs m ! i)) = Unlocked)"

definition spare_ok :: "bufmgr \<Rightarrow> nat \<Rightarrow> bool" where
  "spare_ok m i \<longleftrightarrow> unat (ptsize m) \<le> i \<and> i < length (bfs m) \<and> state (bfs m ! i) = FREE
     \<and> nextF (bfs m ! i) = None \<and> pid (bfs m ! i) = EMPTY_PID"

definition pt_ok :: "bufmgr \<Rightarrow> (nat \<Rightarrow> fref list) \<Rightarrow> bool" where
  "pt_ok m ch \<longleftrightarrow>
     (\<exists>k<64. ptsize m = 2 ^ k) \<and> unat (ptsize m) \<le> length (bfs m)
     \<and> (\<forall>b < unat (ptsize m). bucket_ok m (ch b) b)
     \<and> distinct (frameFree m) \<and> (\<forall>i\<in>set (frameFree m). spare_ok m i)
     \<and> (\<forall>i < length (bfs m). frame_ok m i)"

text \<open>The map the table stands for.\<close>

definition tbl :: "bufmgr \<Rightarrow> (nat \<Rightarrow> fref list) \<Rightarrow> PID \<Rightarrow> fref option" where
  "tbl m ch p = (if p = EMPTY_PID then None
     else find (\<lambda>i. pid (bfs m ! i) = p) (bucket m p # ch (bucket m p)))"

lemma unat_pow2: "k < 64 \<Longrightarrow> unat (2 ^ k :: u64) = 2 ^ k"
proof -
  assume "k < 64"
  then have "unat (of_nat (2 ^ k) :: u64) = 2 ^ k" using power_strict_increasing [of k 64 "2::nat"] by (subst unat_of_nat) simp
  then show ?thesis by simp
qed

lemma bucket_lt:
  assumes "pt_ok m ch"
  shows "bucket m p < unat (ptsize m)"
proof -
  obtain k where k: "k < 64" "ptsize m = 2 ^ k" using assms by (auto simp: pt_ok_def)
  have m: "ptsize m - 1 = mask k" using k by (simp add: mask_eq_exp_minus_1)
  have "FasterHash (PID.id p) AND (ptsize m - 1) = take_bit k (FasterHash (PID.id p))"
    by (simp add: m take_bit_eq_mask)
  moreover have "unat (take_bit k (FasterHash (PID.id p))) < 2 ^ k"
    by (simp add: unsigned_take_bit_eq)
  moreover have "unat (ptsize m) = 2 ^ k" using k by (simp add: unat_pow2)
  ultimately show ?thesis by (simp add: bucket_def)
qed

lemma pt_okD:
  assumes "pt_ok m ch" and "b < unat (ptsize m)"
  shows "path (bfs m) (nextF (bfs m ! b)) (ch b)"
    and "\<And>i. i \<in> set (ch b) \<Longrightarrow> unat (ptsize m) \<le> i \<and> i < length (bfs m) \<and> state (bfs m ! i) \<noteq> FREE \<and> pid (bfs m ! i) \<noteq> EMPTY_PID \<and> bucket m (pid (bfs m ! i)) = b"
    and "distinct (map (\<lambda>i. pid (bfs m ! i)) (b # ch b))"
    and "state (bfs m ! b) = FREE \<Longrightarrow> pid (bfs m ! b) = EMPTY_PID"
    and "state (bfs m ! b) \<noteq> FREE \<Longrightarrow> pid (bfs m ! b) \<noteq> EMPTY_PID \<and> bucket m (pid (bfs m ! b)) = b"
    and "\<not> ol_isLatched (ht_latch m b)" and "b < length (bfs m)" and "b \<notin> set (ch b)" and "distinct (ch b)" and "length (ch b) < length (bfs m)"
proof -
  show 1: "path (bfs m) (nextF (bfs m ! b)) (ch b)" "distinct (map (\<lambda>i. pid (bfs m ! i)) (b # ch b))" "\<not> ol_isLatched (ht_latch m b)"
    using assms by (auto simp: pt_ok_def bucket_ok_def)
  show "state (bfs m ! b) = FREE \<Longrightarrow> pid (bfs m ! b) = EMPTY_PID"
    "state (bfs m ! b) \<noteq> FREE \<Longrightarrow> pid (bfs m ! b) \<noteq> EMPTY_PID \<and> bucket m (pid (bfs m ! b)) = b"
    using assms unfolding pt_ok_def bucket_ok_def by presburger+
  show 2: "unat (ptsize m) \<le> i \<and> i < length (bfs m) \<and> state (bfs m ! i) \<noteq> FREE \<and> pid (bfs m ! i) \<noteq> EMPTY_PID \<and> bucket m (pid (bfs m ! i)) = b"
    if "i \<in> set (ch b)" for i
    using assms that path_bounds [OF 1(1)] by (auto simp: pt_ok_def bucket_ok_def)
  show 3: "b < length (bfs m)" using assms by (auto simp: pt_ok_def)
  show 4: "b \<notin> set (ch b)" using 2 assms(2) by force
  show d: "distinct (ch b)" using 1(2) by (auto simp: distinct_map)
  have "insert b (set (ch b)) \<subseteq> {0..<length (bfs m)}" using 2 3 by auto
  from card_mono [OF _ this] show "length (ch b) < length (bfs m)" using 4 d by (simp add: distinct_card)
qed

lemma pt_ok_frame:
  assumes "pt_ok m ch" and "i < length (bfs m)"
  shows "isHtBucket (bfs m ! i) \<longleftrightarrow> i < unat (ptsize m)" and "latch_ok (bflatch (bfs m ! i))"
    and "state (bfs m ! i) = FREE \<Longrightarrow> smut (bflatch (bfs m ! i)) = Unlocked"
  using assms by (auto simp: pt_ok_def frame_ok_def)

lemma pt_ok_free:
  assumes "pt_ok m ch" and "i \<in> set (frameFree m)"
  shows "unat (ptsize m) \<le> i" "i < length (bfs m)" "state (bfs m ! i) = FREE" "nextF (bfs m ! i) = None" "pid (bfs m ! i) = EMPTY_PID"
  using assms by (auto simp: pt_ok_def spare_ok_def)

text \<open>The walk finds exactly what the map says.\<close>

lemma find_walk_tbl:
  assumes "pt_ok m ch" and "p \<noteq> EMPTY_PID"
  shows "find_walk fail (bfs m) p (length (bfs m)) 0 (bucket m p) = Restarted \<and> (\<exists>k. fail k)
     \<or> find_walk fail (bfs m) p (length (bfs m)) 0 (bucket m p) =
         (case tbl m ch p of Some k \<Rightarrow> Found k | None \<Rightarrow> Missing (last (bucket m p # ch (bucket m p))))"
proof -
  note b = pt_okD [OF assms(1) bucket_lt [OF assms(1), of p]]
  show ?thesis using find_walk_path [OF b(1) b(10), of fail p 0] assms(2) by (simp add: tbl_def)
qed

lemma tbl_Some:
  assumes "pt_ok m ch" and "tbl m ch p = Some i"
  shows "pid (bfs m ! i) = p" "p \<noteq> EMPTY_PID" "i \<in> set (bucket m p # ch (bucket m p))" "i < length (bfs m)" "state (bfs m ! i) \<noteq> FREE"
proof -
  note b = pt_okD [OF assms(1) bucket_lt [OF assms(1), of p]]
  have f: "find (\<lambda>i. pid (bfs m ! i) = p) (bucket m p # ch (bucket m p)) = Some i" and p: "p \<noteq> EMPTY_PID"
    using assms(2) by (auto simp: tbl_def split: if_splits)
  show "p \<noteq> EMPTY_PID" by (fact p)
  from f obtain k where k: "k < length (bucket m p # ch (bucket m p))" "pid (bfs m ! ((bucket m p # ch (bucket m p)) ! k)) = p"
      "i = (bucket m p # ch (bucket m p)) ! k"
    unfolding find_Some_iff by auto
  show 1: "pid (bfs m ! i) = p" using k by simp
  show i: "i \<in> set (bucket m p # ch (bucket m p))" using k nth_mem by blast
  show "i < length (bfs m)" using i b(2,7) by auto
  show "state (bfs m ! i) \<noteq> FREE"
  proof (cases "i = bucket m p")
    case True
    then show ?thesis using b(4) 1 p by auto
  next
    case False
    then show ?thesis using i b(2) by auto
  qed
qed

lemma tbl_SomeI:
  assumes "pt_ok m ch" and "b < unat (ptsize m)" and "i \<in> set (b # ch b)" and "state (bfs m ! i) \<noteq> FREE"
  shows "tbl m ch (pid (bfs m ! i)) = Some i"
proof -
  note b = pt_okD [OF assms(1,2)]
  have e: "bucket m (pid (bfs m ! i)) = b" "pid (bfs m ! i) \<noteq> EMPTY_PID"
    using assms(3,4) b(2,5) by auto
  have inj: "inj_on (\<lambda>i. pid (bfs m ! i)) (set (b # ch b))" using b(3) by (simp only: distinct_map)
  have "find (\<lambda>j. pid (bfs m ! j) = pid (bfs m ! i)) (b # ch b) \<noteq> None"
    using assms(3) unfolding find_None_iff by blast
  then obtain j where j: "find (\<lambda>j. pid (bfs m ! j) = pid (bfs m ! i)) (b # ch b) = Some j" by blast
  then have "j \<in> set (b # ch b)" "pid (bfs m ! j) = pid (bfs m ! i)"
    unfolding find_Some_iff using nth_mem by blast+
  then have "j = i" using inj assms(3) unfolding inj_on_def by blast
  then show ?thesis using j e by (simp add: tbl_def)
qed

section \<open>Linking and unlinking frames\<close>

text \<open>What an insertion or removal elsewhere leaves of a frame: everything but the links of the table.\<close>

definition same_payload :: "BufferFrame \<Rightarrow> BufferFrame \<Rightarrow> bool" where
  "same_payload f f' \<longleftrightarrow> f'\<lparr>nextF := nextF f, ht_bucket_latch := ht_bucket_latch f\<rparr> = f"

lemma same_payload_sel:
  assumes "same_payload f f'"
  shows "pid f' = pid f" "state f' = state f" "bflatch f' = bflatch f" "isHtBucket f' = isHtBucket f"
    "possession f' = possession f" "possessors f' = possessors f" "pageP f' = pageP f" "pVersion f' = pVersion f" "dirty f' = dirty f"
  using assms unfolding same_payload_def by (cases f; cases f'; simp)+

lemma same_payload_refl [simp]: "same_payload f f"
  by (simp add: same_payload_def)

lemma bucket_cong: "ptsize m' = ptsize m \<Longrightarrow> bucket m' p = bucket m p"
  by (simp add: bucket_def)

lemma find_append: "find P (xs @ ys) = (case find P xs of None \<Rightarrow> find P ys | Some x \<Rightarrow> Some x)"
  by (induction xs) auto

lemma find_map_cong: "(\<And>x. x \<in> set xs \<Longrightarrow> f x = g x) \<Longrightarrow> find (\<lambda>x. f x = p) xs = find (\<lambda>x. g x = p) xs"
  by (induction xs) auto

lemma tbl_None:
  assumes "tbl m ch p = None" and "p \<noteq> EMPTY_PID" and "i \<in> set (bucket m p # ch (bucket m p))"
  shows "pid (bfs m ! i) \<noteq> p"
proof -
  have "find (\<lambda>i. pid (bfs m ! i) = p) (bucket m p # ch (bucket m p)) = None" using assms(1,2) unfolding tbl_def by (metis (lifting))
  then show ?thesis using assms(3) unfolding find_None_iff by blast
qed

lemma bucket_ok_cong:
  assumes "bucket_ok m xs b" and "ptsize m' = ptsize m" "length (bfs m') = length (bfs m)"
    and "\<And>k. k \<in> set (b # xs) \<Longrightarrow> nextF (bfs m' ! k) = nextF (bfs m ! k) \<and> pid (bfs m' ! k) = pid (bfs m ! k) \<and> (state (bfs m' ! k) = FREE \<longleftrightarrow> state (bfs m ! k) = FREE)"
    and "\<not> ol_isLatched (ht_latch m' b)"
  shows "bucket_ok m' xs b"
proof -
  have "map (\<lambda>i. pid (bfs m' ! i)) (b # xs) = map (\<lambda>i. pid (bfs m ! i)) (b # xs)" using assms(4) by simp
  then have "distinct (map (\<lambda>i. pid (bfs m' ! i)) (b # xs)) = distinct (map (\<lambda>i. pid (bfs m ! i)) (b # xs))" by (rule arg_cong)
  moreover have "path (bfs m') (nextF (bfs m' ! b)) xs = path (bfs m) (nextF (bfs m ! b)) xs"
    using path_cong [of "bfs m'" "bfs m" xs "nextF (bfs m ! b)"] assms(3,4) by simp
  moreover have "bucket m' = bucket m" using bucket_cong [OF assms(2)] by blast
  ultimately show ?thesis using assms(1,2,4,5) unfolding bucket_ok_def by (simp del: list.simps(9))
qed

lemma tbl_cong:
  assumes "ptsize m' = ptsize m" and "ch' (bucket m p) = ch (bucket m p)" and "\<And>k. k \<in> set (bucket m p # ch (bucket m p)) \<Longrightarrow> pid (bfs m' ! k) = pid (bfs m ! k)"
  shows "tbl m' ch' p = tbl m ch p"
proof -
  have "find (\<lambda>i. pid (bfs m' ! i) = p) (bucket m p # ch (bucket m p)) = find (\<lambda>i. pid (bfs m ! i) = p) (bucket m p # ch (bucket m p))"
    by (rule find_map_cong) (simp add: assms(3))
  then show ?thesis using assms(1,2) bucket_cong [OF assms(1)] unfolding tbl_def by simp
qed

text \<open>Only bucket \<open>b\<close> is affected, and the frames outside it keep their links: what has to be shown of a
  changed table.\<close>

lemma pt_ok_change:
  assumes ok: "pt_ok m ch" and b: "b < unat (ptsize m)"
    and same: "ptsize m' = ptsize m" "length (bfs m') = length (bfs m)"
      "\<And>k. k < length (bfs m) \<Longrightarrow> k \<notin> A \<Longrightarrow> bfs m' ! k = bfs m ! k" "A \<subseteq> insert b (set (ch b) \<union> set xs)"
      "\<And>c. c < unat (ptsize m) \<Longrightarrow> c \<noteq> b \<Longrightarrow> set (ch c) \<inter> set xs = {}" "\<And>k. k \<in> set xs \<Longrightarrow> unat (ptsize m) \<le> k"
    and new: "bucket_ok m' xs b" "distinct (frameFree m')" "\<And>i. i \<in> set (frameFree m') \<Longrightarrow> spare_ok m' i" "\<And>i. i \<in> A \<Longrightarrow> frame_ok m' i"
  shows "pt_ok m' (ch(b := xs))" and "\<And>q. bucket m q \<noteq> b \<Longrightarrow> tbl m' (ch(b := xs)) q = tbl m ch q"
proof -
  have other: "bfs m' ! k = bfs m ! k" if k: "k \<in> set (c # ch c)" and c: "c < unat (ptsize m)" "c \<noteq> b" for c k
  proof -
    note d = pt_okD [OF ok c(1)] and e = pt_okD [OF ok b]
    have "k \<noteq> b" using k c(2) d(2) [of k] b by auto
    moreover have "k \<notin> set (ch b)" using k c d(2) [of k] e(2) [of k] by auto
    moreover have "k \<notin> set xs" using k c same(5) [of c] same(6) [of k] by auto
    moreover have "k < length (bfs m)" using k d(2,7) by auto
    ultimately show ?thesis using same(3,4) by blast
  qed
  have bu: "bucket_ok m' ((ch(b := xs)) c) c" if c: "c < unat (ptsize m)" for c
  proof (cases "c = b")
    case False
    have "bucket_ok m (ch c) c" using ok c by (simp add: pt_ok_def)
    moreover have "\<not> ol_isLatched (ht_latch m' c)" using other [of c c] c False pt_okD(6) [OF ok c] by (simp add: ht_latch_def)
    ultimately show ?thesis using False other [OF _ c False] same(1,2) by (auto intro: bucket_ok_cong)
  qed (use new(1) in simp)
  have fr: "frame_ok m' i" if "i < length (bfs m)" for i
    using ok that same(1) same(3) [OF that] new(4) by (cases "i \<in> A") (auto simp: pt_ok_def frame_ok_def)
  show "pt_ok m' (ch(b := xs))"
    using ok bu fr new(2,3) same(1,2) by (auto simp: pt_ok_def)
  show "tbl m' (ch(b := xs)) q = tbl m ch q" if "bucket m q \<noteq> b" for q
    using tbl_cong [of m' m "ch(b := xs)" q ch] that same(1) other [OF _ bucket_lt [OF ok] that] by simp
qed

text \<open>A frame goes into its free inline bucket.\<close>

lemma pt_fill_inline:
  assumes ok: "pt_ok m ch" and p: "p \<noteq> EMPTY_PID" "tbl m ch p = None" and b: "b = bucket m p" "state (bfs m ! b) = FREE"
    and same: "ptsize m' = ptsize m" "frameFree m' = frameFree m" "length (bfs m') = length (bfs m)"
      "\<And>k. k < length (bfs m) \<Longrightarrow> k \<noteq> b \<Longrightarrow> bfs m' ! k = bfs m ! k"
    and new: "pid (bfs m' ! b) = p" "state (bfs m' ! b) \<noteq> FREE" "nextF (bfs m' ! b) = nextF (bfs m ! b)" "isHtBucket (bfs m' ! b)"
      "latch_ok (bflatch (bfs m' ! b))" "\<not> ol_isLatched (ht_latch m' b)"
  shows "pt_ok m' ch" and "tbl m' ch = (tbl m ch)(p \<mapsto> b)"
proof -
  have bs: "b < unat (ptsize m)" using b(1) bucket_lt [OF ok] by simp
  note d = pt_okD [OF ok bs]
  have ch: "bfs m' ! k = bfs m ! k" if "k \<in> set (ch b)" for k using same(4) d(2) [OF that] d(8) that by metis
  have dist: "distinct (map (\<lambda>i. pid (bfs m' ! i)) (b # ch b))"
  proof -
    have "map (\<lambda>i. pid (bfs m' ! i)) (ch b) = map (\<lambda>i. pid (bfs m ! i)) (ch b)" using ch by simp
    moreover have "p \<notin> (\<lambda>i. pid (bfs m ! i)) ` set (ch b)" using tbl_None [OF p(2,1)] b(1) by auto
    ultimately show ?thesis using d(3) new(1) by (simp del: map_eq_conv)
  qed
  have bk: "bucket_ok m' (ch b) b"
    using d dist ch new path_cong [of "bfs m'" "bfs m" "ch b"] same(1,3) b(1) p(1) bucket_cong [OF same(1)]
    unfolding bucket_ok_def by simp
  have sp: "spare_ok m' i" if "i \<in> set (frameFree m')" for i
    using pt_ok_free [OF ok, of i] that same bs by (auto simp: spare_ok_def)
  have ch1: "ch(b := ch b) = ch" by simp
  note c = pt_ok_change [OF ok bs same(1,3), of "{b}" "ch b", unfolded ch1, OF _ _ _ _ bk _ sp]
  have disj: "set (ch c) \<inter> set (ch b) = {}" if "c < unat (ptsize m)" "c \<noteq> b" for c
    using pt_okD(2) [OF ok that(1)] d(2) that(2) by fastforce
  have fb: "frame_ok m' b" using new bs same(1) by (simp add: frame_ok_def)
  show "pt_ok m' ch"
    by (rule c(1)) (use same disj d(2) fb ok in \<open>auto simp: pt_ok_def\<close>)
  have nb: "tbl m' ch q = tbl m ch q" if "bucket m q \<noteq> b" for q
    by (rule c(2)) (use same disj d(2) fb ok that in \<open>auto simp: pt_ok_def\<close>)
  have "tbl m' ch q = ((tbl m ch)(p \<mapsto> b)) q" if "bucket m q = b" for q
  proof -
    have "find (\<lambda>i. pid (bfs m' ! i) = q) (ch b) = find (\<lambda>i. pid (bfs m ! i) = q) (ch b)"
      by (rule find_map_cong) (simp add: ch)
    then show ?thesis using that new(1) p(1) d(4) b(2) bucket_cong [OF same(1), of q]
      by (cases "q = p") (simp_all add: tbl_def)
  qed
  then show "tbl m' ch = (tbl m ch)(p \<mapsto> b)"
    using nb b(1) by (intro ext) (metis fun_upd_other)
qed

lemma chains_disjoint:
  assumes "pt_ok m ch" and "b < unat (ptsize m)" "c < unat (ptsize m)" and "c \<noteq> b"
  shows "set (ch c) \<inter> set (ch b) = {}"
  using pt_okD(2) [OF assms(1,2)] pt_okD(2) [OF assms(1,3)] assms(4) by fastforce

text \<open>A spare frame is linked to the end of a chain.\<close>

lemma pt_link:
  assumes ok: "pt_ok m ch" and p: "p \<noteq> EMPTY_PID" "tbl m ch p = None" and b: "b = bucket m p" and f: "frameFree m = j # js"
    and same: "ptsize m' = ptsize m" "frameFree m' = js" "length (bfs m') = length (bfs m)"
      "\<And>k. k < length (bfs m) \<Longrightarrow> k \<noteq> j \<Longrightarrow> k \<noteq> b \<Longrightarrow> k \<noteq> last (b # ch b) \<Longrightarrow> bfs m' ! k = bfs m ! k"
      "\<And>k. k < length (bfs m) \<Longrightarrow> k \<noteq> j \<Longrightarrow> same_payload (bfs m ! k) (bfs m' ! k)"
      "b \<noteq> last (b # ch b) \<Longrightarrow> nextF (bfs m' ! b) = nextF (bfs m ! b)"
    and new: "nextF (bfs m' ! last (b # ch b)) = Some j" "nextF (bfs m' ! j) = None" "pid (bfs m' ! j) = p" "state (bfs m' ! j) \<noteq> FREE"
      "\<not> isHtBucket (bfs m' ! j)" "latch_ok (bflatch (bfs m' ! j))" "\<not> ol_isLatched (ht_latch m' b)"
  shows "pt_ok m' (ch(b := ch b @ [j]))" and "tbl m' (ch(b := ch b @ [j])) = (tbl m ch)(p \<mapsto> j)"
proof -
  have bs: "b < unat (ptsize m)" using b(1) bucket_lt [OF ok] by simp
  note d = pt_okD [OF ok bs]
  have j: "unat (ptsize m) \<le> j" "j < length (bfs m)" "state (bfs m ! j) = FREE" using pt_ok_free [OF ok, of j] f by simp_all
  have jn: "j \<noteq> b" "j \<notin> set (ch b)" using j bs d(2) [of j] by auto
  let ?l = "last (b # ch b)"
  have l: "?l \<in> set (b # ch b)" by (rule last_in_set) simp
  have len: "k < length (bfs m)" "k \<noteq> j" if "k \<in> set (b # ch b)" for k using that d(2,7) jn by auto
  have pay: "pid (bfs m' ! k) = pid (bfs m ! k)" "state (bfs m' ! k) = state (bfs m ! k)" if "k \<in> set (b # ch b)" for k
    using same_payload_sel(1,2) [OF same(5) [OF len [OF that]]] .
  have path: "path (bfs m') (nextF (bfs m' ! b)) (ch b @ [j])"
  proof (rule path_extend [OF d(1) same(3) j(2) new(1,2)])
    show "nextF (bfs m' ! k) = nextF (bfs m ! k)" if "k \<in> set (b # ch b)" "k \<noteq> ?l" for k
      using same(4) [OF len [OF that(1)]] same(6) that(2) by (cases "k = b") auto
  qed (use d(8,9) in simp)
  have dist: "distinct (map (\<lambda>i. pid (bfs m' ! i)) (b # ch b @ [j]))"
  proof -
    have "map (\<lambda>i. pid (bfs m' ! i)) (b # ch b) = map (\<lambda>i. pid (bfs m ! i)) (b # ch b)" using pay(1) by simp
    moreover have "p \<notin> (\<lambda>i. pid (bfs m ! i)) ` set (b # ch b)" using tbl_None [OF p(2,1)] unfolding b image_iff by metis
    ultimately show ?thesis using d(3) new(3) by (simp del: map_eq_conv) (metis (no_types, lifting) distinct_map inj_on_cong pay(1) image_cong set_subset_Cons subsetD)
  qed
  have bk: "bucket_ok m' (ch b @ [j]) b"
    using d path dist new p(1) b bucket_cong [OF same(1)] same(1) j(1) pay
    unfolding bucket_ok_def by auto
  have sp: "spare_ok m' i" if "i \<in> set (frameFree m')" for i
  proof -
    have i: "i \<in> set (frameFree m)" "i \<noteq> j" using that same(2) f ok by (auto simp: pt_ok_def)
    note q = pt_ok_free [OF ok i(1)]
    have "i \<noteq> b" "i \<noteq> ?l" using q bs d(2) [of i] l by auto
    then show ?thesis using q same(1,3) same(4) [OF q(2) i(2)] by (simp add: spare_ok_def)
  qed
  have disj: "set (ch c) \<inter> set (ch b @ [j]) = {}" if "c < unat (ptsize m)" "c \<noteq> b" for c
    using chains_disjoint [OF ok bs that] pt_okD(2) [OF ok that(1), of j] j(3) by auto
  have fr: "frame_ok m' i" if "i \<in> insert j {b, ?l}" for i
  proof (cases "i = j")
    case True
    then show ?thesis using new j(1) same(1) by (simp add: frame_ok_def)
  next
    case False
    then have i: "i \<in> set (b # ch b)" using that l by auto
    have "frame_ok m i" using ok len [OF i] by (simp add: pt_ok_def)
    then show ?thesis using same_payload_sel [OF same(5) [OF len [OF i]]] same(1) by (simp add: frame_ok_def)
  qed
  note c = pt_ok_change [OF ok bs same(1,3), of "insert j {b, ?l}" "ch b @ [j]", OF _ _ disj _ bk _ sp fr]
  have side: "\<And>k. k < length (bfs m) \<Longrightarrow> k \<notin> insert j {b, ?l} \<Longrightarrow> bfs m' ! k = bfs m ! k" "insert j {b, ?l} \<subseteq> insert b (set (ch b) \<union> set (ch b @ [j]))"
    "\<And>k. k \<in> set (ch b @ [j]) \<Longrightarrow> unat (ptsize m) \<le> k" "distinct (frameFree m')"
    using same(2,4) l d(2) j(1) f ok by (auto simp: pt_ok_def)
  show "pt_ok m' (ch(b := ch b @ [j]))" by (rule c(1)) (use side in auto)
  have nb: "tbl m' (ch(b := ch b @ [j])) q = tbl m ch q" if "bucket m q \<noteq> b" for q by (rule c(2)) (use side that in auto)
  have "tbl m' (ch(b := ch b @ [j])) q = ((tbl m ch)(p \<mapsto> j)) q" if q: "bucket m q = b" for q
  proof -
    have fe: "find (\<lambda>i. pid (bfs m' ! i) = q) (b # ch b) = find (\<lambda>i. pid (bfs m ! i) = q) (b # ch b)"
      by (rule find_map_cong) (rule pay(1))
    have "find (\<lambda>i. pid (bfs m' ! i) = q) ((b # ch b) @ [j]) = (if q = p then Some j else find (\<lambda>i. pid (bfs m ! i) = q) (b # ch b))" if "q \<noteq> EMPTY_PID"
      using find_append [of "\<lambda>i. pid (bfs m' ! i) = q" "b # ch b" "[j]"] fe p(2) that b new(3) unfolding tbl_def
      by (auto split: option.splits)
    then show ?thesis using q p(1) bucket_cong [OF same(1), of q] by (cases "q = p") (simp_all add: tbl_def)
  qed
  then show "tbl m' (ch(b := ch b @ [j])) = (tbl m ch)(p \<mapsto> j)"
    using nb b(1) by (intro ext) (metis fun_upd_other)
qed

text \<open>The inline frame of a bucket is freed.\<close>

lemma pt_free_inline:
  assumes ok: "pt_ok m ch" and p: "tbl m ch p = Some b" and b: "b < unat (ptsize m)"
    and same: "ptsize m' = ptsize m" "frameFree m' = frameFree m" "length (bfs m') = length (bfs m)"
      "\<And>k. k < length (bfs m) \<Longrightarrow> k \<noteq> b \<Longrightarrow> bfs m' ! k = bfs m ! k"
    and new: "pid (bfs m' ! b) = EMPTY_PID" "state (bfs m' ! b) = FREE" "nextF (bfs m' ! b) = nextF (bfs m ! b)" "isHtBucket (bfs m' ! b)"
      "latch_ok (bflatch (bfs m' ! b))" "smut (bflatch (bfs m' ! b)) = Unlocked" "\<not> ol_isLatched (ht_latch m' b)"
  shows "pt_ok m' ch" and "tbl m' ch = (tbl m ch)(p := None)"
proof -
  note d = pt_okD [OF ok b] and t = tbl_Some [OF ok p]
  have pb: "bucket m p = b" "pid (bfs m ! b) = p" using t(1,2,5) d(5) by auto
  have ch: "bfs m' ! k = bfs m ! k" if "k \<in> set (ch b)" for k using same(4) d(2) [OF that] d(8) that by metis
  have dist: "distinct (map (\<lambda>i. pid (bfs m' ! i)) (b # ch b))"
  proof -
    have "map (\<lambda>i. pid (bfs m' ! i)) (ch b) = map (\<lambda>i. pid (bfs m ! i)) (ch b)" using ch by simp
    moreover have "EMPTY_PID \<notin> (\<lambda>i. pid (bfs m ! i)) ` set (ch b)" using d(2) by force
    ultimately show ?thesis using d(3) new(1) by (simp del: map_eq_conv)
  qed
  have bk: "bucket_ok m' (ch b) b"
    using d dist ch new path_cong [of "bfs m'" "bfs m" "ch b"] same(1,3) bucket_cong [OF same(1)]
    unfolding bucket_ok_def by simp
  have sp: "spare_ok m' i" if "i \<in> set (frameFree m')" for i
    using pt_ok_free [OF ok, of i] that same b by (auto simp: spare_ok_def)
  have ch1: "ch(b := ch b) = ch" by simp
  note c = pt_ok_change [OF ok b same(1,3), of "{b}" "ch b", unfolded ch1, OF _ _ chains_disjoint [OF ok b] _ bk _ sp]
  have fb: "frame_ok m' b" using new b same(1) by (simp add: frame_ok_def)
  show "pt_ok m' ch" by (rule c(1)) (use same d(2) fb ok in \<open>auto simp: pt_ok_def\<close>)
  have nb: "tbl m' ch q = tbl m ch q" if "bucket m q \<noteq> b" for q
    by (rule c(2)) (use same d(2) fb ok that in \<open>auto simp: pt_ok_def\<close>)
  have "tbl m' ch q = ((tbl m ch)(p := None)) q" if q: "bucket m q = b" for q
  proof -
    have "find (\<lambda>i. pid (bfs m' ! i) = q) (ch b) = find (\<lambda>i. pid (bfs m ! i) = q) (ch b)"
      by (rule find_map_cong) (simp add: ch)
    moreover have "find (\<lambda>i. pid (bfs m ! i) = p) (ch b) = None" using d(3) pb(2) by (auto simp: find_None_iff image_iff)
    ultimately show ?thesis using q new(1) pb(2) bucket_cong [OF same(1), of q] by (cases "q = p") (auto simp: tbl_def)
  qed
  then show "tbl m' ch = (tbl m ch)(p := None)"
    using nb pb(1) by (intro ext) (metis fun_upd_other)
qed

text \<open>A frame is unlinked from a chain and becomes a spare one.\<close>

lemma pt_unlink:
  assumes ok: "pt_ok m ch" and p: "tbl m ch p = Some i" and b: "b = bucket m p" and xs: "ch b = xs @ i # ys"
    and same: "ptsize m' = ptsize m" "frameFree m' = i # frameFree m" "length (bfs m') = length (bfs m)"
      "\<And>k. k < length (bfs m) \<Longrightarrow> k \<noteq> i \<Longrightarrow> k \<noteq> b \<Longrightarrow> k \<noteq> last (b # xs) \<Longrightarrow> bfs m' ! k = bfs m ! k"
      "\<And>k. k < length (bfs m) \<Longrightarrow> k \<noteq> i \<Longrightarrow> same_payload (bfs m ! k) (bfs m' ! k)"
      "b \<noteq> last (b # xs) \<Longrightarrow> nextF (bfs m' ! b) = nextF (bfs m ! b)"
    and new: "nextF (bfs m' ! last (b # xs)) = nextF (bfs m ! i)" "nextF (bfs m' ! i) = None" "pid (bfs m' ! i) = EMPTY_PID" "state (bfs m' ! i) = FREE"
      "\<not> isHtBucket (bfs m' ! i)" "latch_ok (bflatch (bfs m' ! i))" "smut (bflatch (bfs m' ! i)) = Unlocked" "\<not> ol_isLatched (ht_latch m' b)"
  shows "pt_ok m' (ch(b := xs @ ys))" and "tbl m' (ch(b := xs @ ys)) = (tbl m ch)(p := None)"
proof -
  have bs: "b < unat (ptsize m)" using b(1) bucket_lt [OF ok] by simp
  note d = pt_okD [OF ok bs] and t = tbl_Some [OF ok p]
  have i: "unat (ptsize m) \<le> i" "i < length (bfs m)" "state (bfs m ! i) \<noteq> FREE" using d(2) [of i] xs by simp_all
  have iN: "i \<notin> set (b # xs @ ys)" using d(8,9) xs by auto
  let ?l = "last (b # xs)"
  have l: "?l \<in> set (b # xs)" by (rule last_in_set) simp
  have len: "k < length (bfs m)" "k \<noteq> i" if "k \<in> set (b # xs @ ys)" for k using that d(2) [of k] d(7) iN xs by auto
  have pay: "pid (bfs m' ! k) = pid (bfs m ! k)" "state (bfs m' ! k) = state (bfs m ! k)" if "k \<in> set (b # xs @ ys)" for k
    using same_payload_sel(1,2) [OF same(5) [OF len [OF that]]] .
  have path: "path (bfs m') (nextF (bfs m' ! b)) (xs @ ys)"
  proof (rule path_unlink [OF d(1) [unfolded xs] same(3) new(1)])
    show "nextF (bfs m' ! k) = nextF (bfs m ! k)" if "k \<in> set (b # xs @ ys)" "k \<noteq> ?l" for k
      using same(4) [OF len [OF that(1)]] same(6) that(2) by (cases "k = b") auto
  qed (use d(8,9) xs in simp)
  have old: "distinct (map (\<lambda>i. pid (bfs m ! i)) (b # xs @ ys))" "pid (bfs m ! i) \<notin> (\<lambda>i. pid (bfs m ! i)) ` set (b # xs @ ys)"
    using d(3) unfolding xs by auto
  have dist: "distinct (map (\<lambda>i. pid (bfs m' ! i)) (b # xs @ ys))"
  proof -
    have "map (\<lambda>i. pid (bfs m' ! i)) (b # xs @ ys) = map (\<lambda>i. pid (bfs m ! i)) (b # xs @ ys)" using pay(1) by simp
    then show ?thesis using old(1) by argo
  qed
  have bk: "bucket_ok m' (xs @ ys) b"
    using d path dist new bucket_cong [OF same(1)] same(1) pay xs
    unfolding bucket_ok_def by auto
  have sp: "spare_ok m' k" if "k \<in> set (frameFree m')" for k
  proof (cases "k = i")
    case True
    then show ?thesis using new i same(1,3) by (simp add: spare_ok_def)
  next
    case False
    then have k: "k \<in> set (frameFree m)" using that same(2) by simp
    note q = pt_ok_free [OF ok k]
    have "k \<noteq> b" "k \<noteq> ?l" using q bs d(2) [of k] l xs by auto
    then show ?thesis using q same(1,3) same(4) [OF q(2) False] by (simp add: spare_ok_def)
  qed
  have disj: "set (ch c) \<inter> set (xs @ ys) = {}" if "c < unat (ptsize m)" "c \<noteq> b" for c
    using chains_disjoint [OF ok bs that] xs by auto
  have fr: "frame_ok m' k" if "k \<in> insert i {b, ?l}" for k
  proof (cases "k = i")
    case True
    then show ?thesis using new i(1) same(1) by (simp add: frame_ok_def)
  next
    case False
    then have k: "k \<in> set (b # xs @ ys)" using that l by auto
    have "frame_ok m k" using ok len [OF k] by (simp add: pt_ok_def)
    then show ?thesis using same_payload_sel [OF same(5) [OF len [OF k]]] same(1) by (simp add: frame_ok_def)
  qed
  note c = pt_ok_change [OF ok bs same(1,3), of "insert i {b, ?l}" "xs @ ys", OF _ _ disj _ bk _ sp fr]
  have side: "\<And>k. k < length (bfs m) \<Longrightarrow> k \<notin> insert i {b, ?l} \<Longrightarrow> bfs m' ! k = bfs m ! k" "insert i {b, ?l} \<subseteq> insert b (set (ch b) \<union> set (xs @ ys))"
    "\<And>k. k \<in> set (xs @ ys) \<Longrightarrow> unat (ptsize m) \<le> k" "distinct (frameFree m')"
    using same(2,4) l d(2) ok xs pt_ok_free(3) [OF ok, of i] i(3) by (auto simp: pt_ok_def)
  show "pt_ok m' (ch(b := xs @ ys))" by (rule c(1)) (use side in auto)
  have nb: "tbl m' (ch(b := xs @ ys)) q = tbl m ch q" if "bucket m q \<noteq> b" for q by (rule c(2)) (use side that in auto)
  have "tbl m' (ch(b := xs @ ys)) q = ((tbl m ch)(p := None)) q" if q: "bucket m q = b" for q
  proof -
    have fe: "find (\<lambda>i. pid (bfs m' ! i) = q) (b # xs @ ys) = find (\<lambda>i. pid (bfs m ! i) = q) (b # xs @ ys)"
      by (rule find_map_cong) (rule pay(1))
    have "find (\<lambda>i. pid (bfs m ! i) = p) (b # xs @ ys) = None"
      using old(2) t(1) unfolding find_None_iff image_iff by metis
    moreover have "find (\<lambda>i. pid (bfs m ! i) = q) ((b # xs) @ i # ys) = find (\<lambda>i. pid (bfs m ! i) = q) ((b # xs) @ ys)" if "q \<noteq> p"
      using that t(1) unfolding find_append by (auto split: option.splits)
    ultimately show ?thesis using q fe xs bucket_cong [OF same(1), of q] by (cases "q = p") (simp_all add: tbl_def)
  qed
  then show "tbl m' (ch(b := xs @ ys)) = (tbl m ch)(p := None)"
    using nb b(1) by (intro ext) (metis fun_upd_other)
qed

end
