(* ===== verification/PageTable_Ops.thy ===== *)
theory PageTable_Ops
  imports PageTable_Map
begin

text \<open>
  What the operations of the buffer manager do to the map of the page table: insertion and removal of frames,
  the lookups for any access functor that keeps the contract of Guard, allocation and reclaiming of pages.
\<close>

section \<open>Latching a bucket\<close>

lemma tryLatch_bucket:
  "\<not> ol_isLatched l \<Longrightarrow> ol_tryLatchExclusive (\<lambda>l. l) l = (True, l\<lparr>typeVersionLockObsolete := typeVersionLockObsolete l + 2\<rparr>)"
  by (simp add: ol_tryLatchExclusive_def ol_optimisticLatchOrRestart_def ol_upgradeToExclusiveLatch_def ol_isLatched_def Let_def)

lemma unlatch_bucket_ok:
  "ol_isLatched (ht_latch m b) \<Longrightarrow>
     unlatch_bucket b m = Inr (set_ht_latch b ((ht_latch m b)\<lparr>typeVersionLockObsolete := typeVersionLockObsolete (ht_latch m b) + 2\<rparr>) m)"
  by (simp add: unlatch_bucket_def ol_unlatchExclusive_def)

definition bumped :: "OptimisticLatch \<Rightarrow> nat \<Rightarrow> OptimisticLatch" where
  "bumped l n = l\<lparr>typeVersionLockObsolete := typeVersionLockObsolete l + of_nat (2 * n)\<rparr>"

lemma bumped_simps [simp]:
  "typeVersionLockObsolete (bumped l n) = typeVersionLockObsolete l + of_nat (2 * n)" "bumped (bumped l m) n = bumped l (m + n)"
  by (simp_all add: bumped_def algebra_simps)

lemma bumped_latched [simp]: "ol_isLatched (bumped l 1) \<longleftrightarrow> \<not> ol_isLatched l" "ol_isLatched (bumped l (Suc 0)) \<longleftrightarrow> \<not> ol_isLatched l"
  "ol_isLatched (bumped l 2) \<longleftrightarrow> ol_isLatched l"
  by (simp_all add: ol_isLatched_def)

lemma tryLatch_bumped: "\<not> ol_isLatched l \<Longrightarrow> ol_tryLatchExclusive (\<lambda>l. l) l = (True, bumped l 1)"
  by (simp add: tryLatch_bucket bumped_def)

lemma unlatch_bumped: "ol_isLatched (ht_latch m b) \<Longrightarrow> unlatch_bucket b m = Inr (set_ht_latch b (bumped (ht_latch m b) 1) m)"
  by (simp add: unlatch_bucket_ok bumped_def)

text \<open>Reading a manager after updates of its frames.\<close>

lemma upd_frame_sel [simp]:
  "ptsize (upd_frame i u m) = ptsize m" "frameFree (upd_frame i u m) = frameFree m" "pageFree (upd_frame i u m) = pageFree m"
  "pidFree (upd_frame i u m) = pidFree m" "bmNode (upd_frame i u m) = bmNode m" "globalEpoch (upd_frame i u m) = globalEpoch m"
  "length (bfs (upd_frame i u m)) = length (bfs m)" "bucket (upd_frame i u m) p = bucket m p"
  by (simp_all add: upd_frame_def bucket_def)

lemma upd_frame_nth: "k < length (bfs m) \<Longrightarrow> bfs (upd_frame i u m) ! k = (if k = i then u (bfs m ! i) else bfs m ! k)"
  by (simp add: upd_frame_def nth_list_update)

lemma set_ht_sel [simp]:
  "ptsize (set_ht_latch i l m) = ptsize m" "frameFree (set_ht_latch i l m) = frameFree m" "pageFree (set_ht_latch i l m) = pageFree m"
  "pidFree (set_ht_latch i l m) = pidFree m" "bmNode (set_ht_latch i l m) = bmNode m" "globalEpoch (set_ht_latch i l m) = globalEpoch m"
  "length (bfs (set_ht_latch i l m)) = length (bfs m)" "bucket (set_ht_latch i l m) p = bucket m p"
  by (simp_all add: set_ht_latch_def)

lemma set_ht_nth:
  "k < length (bfs m) \<Longrightarrow> bfs (set_ht_latch i l m) ! k = (if k = i then (bfs m ! i)\<lparr>ht_bucket_latch := l\<rparr> else bfs m ! k)"
  by (simp add: set_ht_latch_def upd_frame_nth)

lemma ht_latch_upd:
  "b < length (bfs m) \<Longrightarrow> ht_latch (upd_frame i u m) b = (if b = i then ht_bucket_latch (u (bfs m ! i)) else ht_latch m b)"
  "b < length (bfs m) \<Longrightarrow> ht_latch (set_ht_latch i l m) b = (if b = i then l else ht_latch m b)"
  by (simp_all add: ht_latch_def upd_frame_nth set_ht_nth)

lemmas frame_nths = upd_frame_nth set_ht_nth ht_latch_upd

section \<open>The table as a map\<close>

text \<open>The chains are what following \<open>next\<close> gives; a table that is well-formed for some chains is so for these.\<close>

fun chain_from :: "BufferFrame list \<Rightarrow> nat \<Rightarrow> fref option \<Rightarrow> fref list" where
  "chain_from bs n None = []"
| "chain_from bs 0 (Some i) = []"
| "chain_from bs (Suc n) (Some i) = i # chain_from bs n (nextF (bs ! i))"

definition chains :: "bufmgr \<Rightarrow> nat \<Rightarrow> fref list" where
  "chains m b = chain_from (bfs m) (length (bfs m)) (nextF (bfs m ! b))"

definition pt_wf :: "bufmgr \<Rightarrow> bool" where
  "pt_wf m \<longleftrightarrow> pt_ok m (chains m)"

definition table :: "bufmgr \<Rightarrow> PID \<Rightarrow> fref option" where
  "table m = tbl m (chains m)"

lemma chain_from_path: "path bs s xs \<Longrightarrow> length xs \<le> n \<Longrightarrow> chain_from bs n s = xs"
proof (induction xs arbitrary: s n)
  case (Cons x xs)
  then show ?case by (cases n; cases s) auto
qed simp

lemma pt_wfI:
  assumes "pt_ok m ch"
  shows "pt_wf m" and "table m = tbl m ch"
proof -
  have c: "chains m b = ch b" if "b < unat (ptsize m)" for b
    using chain_from_path [OF pt_okD(1) [OF assms that]] pt_okD(10) [OF assms that] by (simp add: chains_def)
  then show "pt_wf m" using assms unfolding pt_wf_def pt_ok_def by simp
  show "table m = tbl m ch" using c bucket_lt [OF assms] by (intro ext) (simp add: table_def tbl_def)
qed


section \<open>Insertion\<close>

text \<open>What the initialisers of the code do to a free frame.\<close>

definition init_spec :: "PID \<Rightarrow> (BufferFrame \<Rightarrow> BufferFrame result) \<Rightarrow> bool" where
  "init_spec p init \<longleftrightarrow> (\<forall>f. latch_ok (bflatch f) \<and> smut (bflatch f) = Unlocked \<and> pid f = EMPTY_PID \<longrightarrow>
     (\<exists>f'. init f = Inr f' \<and> pid f' = p \<and> state f' \<noteq> FREE \<and> nextF f' = nextF f \<and> isHtBucket f' = isHtBucket f
        \<and> ht_bucket_latch f' = ht_bucket_latch f \<and> latch_ok (bflatch f') \<and> isLatched (bflatch f')))"

text \<open>What a successful insertion leaves: frame \<open>j\<close> was initialised and maps the page id, all else is as before up
  to the links.\<close>

definition inserted :: "bufmgr \<Rightarrow> PID \<Rightarrow> (BufferFrame \<Rightarrow> BufferFrame result) \<Rightarrow> fref \<Rightarrow> bufmgr \<Rightarrow> bool" where
  "inserted m p init j m' \<longleftrightarrow>
     pt_wf m' \<and> table m' = (table m)(p \<mapsto> j) \<and> length (bfs m') = length (bfs m) \<and> j < length (bfs m)
     \<and> (\<exists>f0 f. same_payload (bfs m ! j) f0 \<and> init f0 = Inr f \<and> same_payload f (bfs m' ! j))
     \<and> (\<forall>k < length (bfs m). k \<noteq> j \<longrightarrow> same_payload (bfs m ! k) (bfs m' ! k))
     \<and> ptsize m' = ptsize m \<and> pageFree m' = pageFree m \<and> pidFree m' = pidFree m \<and> bmNode m' = bmNode m \<and> globalEpoch m' = globalEpoch m"

lemma insertFrame_inline:
  assumes wf: "pt_wf m" and p: "p \<noteq> EMPTY_PID" "table m p = None" and i: "init_spec p init" and F: "state (bfs m ! bucket m p) = FREE"
  shows "\<exists>m'. insertFrame_attempt p init m = Finished m' (bucket m p) \<and> inserted m p init (bucket m p) m'"
proof -
  let ?b = "bucket m p" and ?ch = "chains m"
  note ok = wf [unfolded pt_wf_def] and p2 = p(2) [unfolded table_def]
  note bs = bucket_lt [OF ok, of p]
  note d = pt_okD [OF ok bs]
  let ?m1 = "set_ht_latch ?b (bumped (ht_latch m ?b) 1) m"
  let ?f0 = "(bfs m ! ?b)\<lparr>ht_bucket_latch := bumped (ht_latch m ?b) 1\<rparr>"
  have f0: "bfs ?m1 ! ?b = ?f0" using d(7) by (simp add: set_ht_nth)
  obtain f where f: "init ?f0 = Inr f" "pid f = p" "state f \<noteq> FREE" "nextF f = nextF (bfs m ! ?b)" "isHtBucket f = isHtBucket (bfs m ! ?b)"
      "ht_bucket_latch f = bumped (ht_latch m ?b) 1" "latch_ok (bflatch f)" "isLatched (bflatch f)"
    using i pt_ok_frame [OF ok d(7)] F d(4) unfolding init_spec_def by (auto dest!: spec [of _ ?f0])
  let ?m2 = "upd_frame ?b (\<lambda>_. f) ?m1"
  let ?m3 = "set_ht_latch ?b (bumped (ht_latch ?m2 ?b) 1) ?m2"
  have h2: "ht_latch ?m2 ?b = bumped (ht_latch m ?b) 1" using d(7) f(6) by (simp add: frame_nths)
  have b3: "bfs ?m3 ! ?b = f\<lparr>ht_bucket_latch := bumped (ht_latch m ?b) 2\<rparr>" using d(7) h2 by (simp add: frame_nths numeral_2_eq_2)
  have "insertFrame_attempt p init m = Finished ?m3 ?b"
    using d(6) F f f0 h2 b3 unlatch_bumped [of ?m2 ?b]
    by (simp add: insertFrame_attempt_def tryLatch_bumped init_frame_def of_result_def Let_def)
  moreover have fr: "bfs ?m3 ! k = bfs m ! k" if "k < length (bfs m)" "k \<noteq> ?b" for k using that by (simp add: frame_nths)
  have w: "pt_ok ?m3 ?ch" "tbl ?m3 ?ch = (tbl m ?ch)(p \<mapsto> ?b)"
    by (rule pt_fill_inline [OF ok p(1) p2 refl F]; use fr b3 f d pt_ok_frame(1) [OF ok d(7)] bs in \<open>simp add: ht_latch_def\<close>)+
  have "inserted m p init ?b ?m3"
    unfolding inserted_def
  proof (intro conjI exI)
    show "pt_wf ?m3" "table ?m3 = (table m)(p \<mapsto> ?b)" using pt_wfI [OF w(1)] w(2) by (simp_all add: table_def)
    show "same_payload (bfs m ! ?b) ?f0" "init ?f0 = Inr f" "same_payload f (bfs ?m3 ! ?b)"
      unfolding b3 using f(1) by (simp_all add: same_payload_def)
  qed (use d(7) fr in auto)
  ultimately show ?thesis by blast
qed

lemma last_slot_bucket:
  assumes wf: "pt_wf m" and b: "b < unat (ptsize m)"
    and same: "length (bfs m') = length (bfs m)" "\<And>k. k < length (bfs m) \<Longrightarrow> same_payload (bfs m ! k) (bfs m' ! k) \<and> nextF (bfs m' ! k) = nextF (bfs m ! k)"
  shows "last_slot (bfs m') p (length (bfs m)) b =
     Some (if p \<in> (\<lambda>j. pid (bfs m ! j)) ` set (chains m b) then Inl (Runtime_error ''Duplicate pid'') else Inr (last (b # chains m b)))"
proof -
  note d = pt_okD [OF wf [unfolded pt_wf_def] b]
  have "path (bfs m') (nextF (bfs m' ! b)) (chains m b)"
    using d(1,2,7) path_cong [of "bfs m'" "bfs m" "chains m b"] same by simp
  moreover have "(\<lambda>j. pid (bfs m' ! j)) ` set (chains m b) = (\<lambda>j. pid (bfs m ! j)) ` set (chains m b)"
    using same_payload_sel(1) same(2) d(2) by (intro image_cong) auto
  ultimately show ?thesis using last_slot_path [of "bfs m'" b "chains m b" "length (bfs m)" p] d(10) by simp
qed

lemma insertFrame_chained:
  assumes wf: "pt_wf m" and p: "p \<noteq> EMPTY_PID" "table m p = None" and i: "init_spec p init" and F: "state (bfs m ! bucket m p) \<noteq> FREE"
    and fr: "frameFree m = j # js"
  shows "\<exists>m'. insertFrame_attempt p init m = Finished m' j \<and> inserted m p init j m'"
proof -
  let ?b = "bucket m p" and ?ch = "chains m"
  note ok = wf [unfolded pt_wf_def] and p2 = p(2) [unfolded table_def]
  note bs = bucket_lt [OF ok, of p]
  note d = pt_okD [OF ok bs] and j = pt_ok_free [OF ok, of j, unfolded fr, simplified]
  let ?l = "last (?b # ?ch ?b)"
  have l: "?l \<in> set (?b # ?ch ?b)" by (rule last_in_set) simp
  have jn: "j \<noteq> ?b" "j \<noteq> ?l" using j(1,3) bs l d(2) [of j] F by auto
  have ll: "?l < length (bfs m)" using l d(2,7) by auto
  let ?m1 = "set_ht_latch ?b (bumped (ht_latch m ?b) 1) m"
  have s1: "same_payload (bfs m ! k) (bfs ?m1 ! k) \<and> nextF (bfs ?m1 ! k) = nextF (bfs m ! k)" if "k < length (bfs m)" for k
    using that by (simp add: set_ht_nth same_payload_def)
  have "p \<notin> (\<lambda>j. pid (bfs m ! j)) ` set (?ch ?b)" using tbl_None [OF p2 p(1)] by force
  then have ls: "last_slot (bfs ?m1) p (length (bfs ?m1)) ?b = Some (Inr ?l)"
    using last_slot_bucket [OF wf bs _ s1, of p] by simp
  let ?m2 = "upd_frame ?l (\<lambda>f. f\<lparr>nextF := Some j\<rparr>) (?m1\<lparr>frameFree := js\<rparr>)"
  have f2: "bfs ?m2 ! j = bfs m ! j" using jn j(2) by (simp add: frame_nths)
  obtain f where f: "init (bfs m ! j) = Inr f" "pid f = p" "state f \<noteq> FREE" "nextF f = None" "isHtBucket f = isHtBucket (bfs m ! j)"
      "latch_ok (bflatch f)" "isLatched (bflatch f)"
    using i pt_ok_frame [OF ok j(2)] j unfolding init_spec_def by (auto dest!: spec [of _ "bfs m ! j"])
  let ?m3 = "upd_frame j (\<lambda>_. f) ?m2"
  let ?m4 = "set_ht_latch ?b (bumped (ht_latch ?m3 ?b) 1) ?m3"
  have n1: "bfs (m\<lparr>frameFree := x\<rparr>) = bfs m" for m x by simp
  have h3: "ht_latch ?m3 ?b = bumped (ht_latch m ?b) 1" using d(7) jn ll by (simp add: frame_nths) (simp add: ht_latch_def frame_nths n1)
  have jb: "bfs ?m4 ! j = f" using j(2) jn by (simp add: frame_nths)
  have st: "state (bfs ?m1 ! ?b) \<noteq> FREE" using F d(7) by (simp add: set_ht_nth)
  have att: "insertFrame_attempt p init m = Finished ?m4 j"
    using d(6) st ls f(1,7) f2 fr jb h3 unlatch_bumped [of ?m3 ?b]
    by (simp add: insertFrame_attempt_def tryLatch_bumped init_frame_def of_result_def Let_def del: last.simps)
  have fr4: "bfs ?m4 ! k = (if k = ?l then (bfs m ! k)\<lparr>nextF := Some j\<rparr> else bfs m ! k)\<lparr>ht_bucket_latch := (if k = ?b then bumped (ht_latch m ?b) 2 else ht_bucket_latch (bfs m ! k))\<rparr>"
    if "k < length (bfs m)" "k \<noteq> j" for k
    using that h3 by (auto simp: frame_nths n1 numeral_2_eq_2 simp del: last.simps)
  have w: "pt_ok ?m4 (?ch(?b := ?ch ?b @ [j]))" "tbl ?m4 (?ch(?b := ?ch ?b @ [j])) = (tbl m ?ch)(p \<mapsto> j)"
    by (rule pt_link [OF ok p(1) p2 refl fr];
        use fr4 fr4 [OF d(7)] fr4 [OF ll] jb f jn j pt_ok_frame(1) [OF ok j(2)] d(6) in \<open>simp add: same_payload_def ht_latch_def del: last.simps\<close>)+
  have "inserted m p init j ?m4"
    unfolding inserted_def
  proof (intro conjI exI allI impI)
    show "pt_wf ?m4" "table ?m4 = (table m)(p \<mapsto> j)" using pt_wfI [OF w(1)] w(2) by (simp_all add: table_def)
    show "same_payload (bfs m ! j) (bfs m ! j)" "init (bfs m ! j) = Inr f" "same_payload f (bfs ?m4 ! j)"
      unfolding jb using f(1) by simp_all
    show "same_payload (bfs m ! k) (bfs ?m4 ! k)" if "k < length (bfs m)" "k \<noteq> j" for k
      using fr4 [OF that] by (simp add: same_payload_def)
  qed (use j(2) in auto)
  then show ?thesis using att by blast
qed

text \<open>A page id that is in the chain already is refused; one in the inline frame is not noticed, which is why the
  callers insert only page ids that are not in the table.  Without a free frame the attempt is repeated and leaves
  the table as it was, up to the version of the bucket.\<close>

lemma insertFrame_duplicate:
  assumes wf: "pt_wf m" and i: "i \<in> set (chains m (bucket m (pid (bfs m ! i))))"
    and F: "state (bfs m ! bucket m (pid (bfs m ! i))) \<noteq> FREE"
  shows "insertFrame_attempt (pid (bfs m ! i)) init m = Failed (Runtime_error ''Duplicate pid'')"
proof -
  let ?p = "pid (bfs m ! i)"
  let ?b = "bucket m ?p"
  note ok = wf [unfolded pt_wf_def]
  note bs = bucket_lt [OF ok, of ?p]
  note d = pt_okD [OF ok bs]
  let ?m1 = "set_ht_latch ?b (bumped (ht_latch m ?b) 1) m"
  have "last_slot (bfs ?m1) ?p (length (bfs m)) ?b = Some (Inl (Runtime_error ''Duplicate pid''))"
    by (subst last_slot_bucket [OF wf bs]) (use i in \<open>auto simp: set_ht_nth same_payload_def\<close>)
  moreover have "state (bfs ?m1 ! ?b) \<noteq> FREE" using F d(7) by (simp add: set_ht_nth)
  ultimately show ?thesis using d(6) by (simp add: insertFrame_attempt_def tryLatch_bumped Let_def)
qed

lemma insertFrame_fresh:
  assumes "pt_wf m" and "p \<noteq> EMPTY_PID" "table m p = None" and "init_spec p init" and "frameFree m \<noteq> []"
  shows "\<exists>m' j. insertFrame ((\<lambda>m. m) # envs) p init m = Some (Inr (m', j)) \<and> inserted m p init j m'"
proof (cases "state (bfs m ! bucket m p) = FREE")
  case True
  then show ?thesis using insertFrame_inline [OF assms(1-4)] by (auto simp: insertFrame_def)
next
  case False
  then obtain j js where "frameFree m = j # js" using assms(5) by (cases "frameFree m") auto
  then show ?thesis using insertFrame_chained [OF assms(1-4) False] by (auto simp: insertFrame_def)
qed

section \<open>Removal\<close>

text \<open>What \<open>handle_page_func\<close> may do: it succeeds on the frame and changes the free lists of pages and page ids only.\<close>

definition handle_spec :: "(BufferFrame \<Rightarrow> bufmgr \<Rightarrow> bufmgr result) \<Rightarrow> BufferFrame \<Rightarrow> (addr list \<Rightarrow> addr list) \<Rightarrow> (PID list \<Rightarrow> PID list) \<Rightarrow> bool" where
  "handle_spec h f pages pids \<longleftrightarrow> (\<forall>f' m. same_payload f f' \<longrightarrow> h f' m = Inr (m\<lparr>pageFree := pages (pageFree m), pidFree := pids (pidFree m)\<rparr>))"

definition removed :: "bufmgr \<Rightarrow> PID \<Rightarrow> fref \<Rightarrow> (addr list \<Rightarrow> addr list) \<Rightarrow> (PID list \<Rightarrow> PID list) \<Rightarrow> bufmgr \<Rightarrow> bool" where
  "removed m p i pages pids m' \<longleftrightarrow>
     pt_wf m' \<and> table m' = (table m)(p := None) \<and> length (bfs m') = length (bfs m)
     \<and> state (bfs m' ! i) = FREE \<and> \<not> isLatched (bflatch (bfs m' ! i))
     \<and> (\<forall>k < length (bfs m). k \<noteq> i \<longrightarrow> same_payload (bfs m ! k) (bfs m' ! k))
     \<and> pageFree m' = pages (pageFree m) \<and> pidFree m' = pids (pidFree m) \<and> ptsize m' = ptsize m \<and> bmNode m' = bmNode m \<and> globalEpoch m' = globalEpoch m"

lemma same_payload_trans: "same_payload f g \<Longrightarrow> same_payload g h \<Longrightarrow> same_payload f h"
  unfolding same_payload_def by (cases f; cases g; cases h; simp)

lemma same_payload_upd [simp]: "same_payload f (f\<lparr>ht_bucket_latch := l\<rparr>)" "same_payload f (f\<lparr>nextF := n\<rparr>)"
  by (simp_all add: same_payload_def)

lemma handle_spec_payload: "handle_spec h f pages pids \<Longrightarrow> same_payload f f' \<Longrightarrow> handle_spec h f' pages pids"
  unfolding handle_spec_def using same_payload_trans by blast

lemma unlatch_latched:
  assumes "latch_ok l" and "isLatched l"
  obtains l' where "unlatchExclusive l = Inr l'" "latch_ok l'" "smut l' = Unlocked" "\<not> isLatched l'"
  using assms unlatchExclusive_ok [OF assms] by (auto simp: latch_ok_def)

lemma release_frame_ok:
  assumes i: "i < length (bfs m)" and b: "b < length (bfs m)" and L: "latch_ok (bflatch (bfs m ! i))" "isLatched (bflatch (bfs m ! i))"
    and F: "state (bfs m ! i) \<noteq> FREE" and h: "handle_spec h (bfs m ! i) pages pids" and ht: "ol_isLatched (ht_latch m b)"
  obtains m' l where "release_frame i b h m = Inr m'" "smut l = Unlocked" "latch_ok l" "\<not> isLatched l"
    "bfs m' = (bfs (set_ht_latch b (bumped (ht_latch m b) 1) m))[i := (bf_reset (bfs (set_ht_latch b (bumped (ht_latch m b) 1) m) ! i))\<lparr>bflatch := l\<rparr>]"
    "m' = m\<lparr>bfs := bfs m', pageFree := pages (pageFree m), pidFree := pids (pidFree m)\<rparr>"
proof -
  let ?m1 = "m\<lparr>pageFree := pages (pageFree m), pidFree := pids (pidFree m)\<rparr>"
  let ?m2 = "upd_frame i bf_reset ?m1"
  let ?m3 = "set_ht_latch b (bumped (ht_latch ?m2 b) 1) ?m2"
  have h1: "h (bfs m ! i) m = Inr ?m1" using h by (simp add: handle_spec_def)
  have ht2: "ht_latch ?m2 b = ht_latch m b" using i b by (simp add: ht_latch_def upd_frame_def bf_reset_def nth_list_update)
  have l3: "bflatch (bfs ?m3 ! i) = bflatch (bfs m ! i)" using i b by (simp add: set_ht_latch_def upd_frame_def bf_reset_def nth_list_update)
  obtain l where l: "unlatchExclusive (bflatch (bfs m ! i)) = Inr l" "latch_ok l" "smut l = Unlocked" "\<not> isLatched l"
    using unlatch_latched [OF L] .
  let ?m4 = "upd_frame i (\<lambda>f. f\<lparr>bflatch := l\<rparr>) ?m3"
  have "release_frame i b h m = Inr ?m4"
    using F h1 unlatch_bumped [of ?m2 b] ht2 ht l3 l(1) by (simp add: release_frame_def)
  moreover have "bfs ?m4 = (bfs (set_ht_latch b (bumped (ht_latch m b) 1) m))[i := (bf_reset (bfs (set_ht_latch b (bumped (ht_latch m b) 1) m) ! i))\<lparr>bflatch := l\<rparr>]"
    using i b ht2 by (intro nth_equalityI) (auto simp: set_ht_latch_def upd_frame_def bf_reset_def nth_list_update)
  moreover have "?m4 = m\<lparr>bfs := bfs ?m4, pageFree := pages (pageFree m), pidFree := pids (pidFree m)\<rparr>"
    by (simp add: set_ht_latch_def upd_frame_def)
  ultimately show thesis using that l(2-4) by blast
qed

lemma removeFrame_inline:
  assumes wf: "pt_wf m" and p: "table m p = Some i" and L: "isLatched (bflatch (bfs m ! i))" and b: "i < unat (ptsize m)"
    and h: "handle_spec h (bfs m ! i) pages pids"
  shows "\<exists>m'. removeFrame_attempt i h m = Finished m' () \<and> removed m p i pages pids m'"
proof -
  note ok = wf [unfolded pt_wf_def] and p2 = p [unfolded table_def]
  note d = pt_okD [OF ok b] and t = tbl_Some [OF ok p2]
  note fo = pt_ok_frame [OF ok t(4)]
  let ?m1 = "set_ht_latch i (bumped (ht_latch m i) 1) m"
  have f1: "bfs ?m1 ! i = (bfs m ! i)\<lparr>ht_bucket_latch := bumped (ht_latch m i) 1\<rparr>" using t(4) by (simp add: set_ht_nth)
  have h1: "handle_spec h (bfs ?m1 ! i) pages pids" using handle_spec_payload [OF h] unfolding f1 by simp
  have hl: "ht_latch ?m1 i = bumped (ht_latch m i) 1" using t(4) by (simp add: frame_nths)
  have c: "latch_ok (bflatch (bfs ?m1 ! i))" "isLatched (bflatch (bfs ?m1 ! i))" "state (bfs ?m1 ! i) \<noteq> FREE" "ol_isLatched (ht_latch ?m1 i)"
    "i < length (bfs ?m1)"
    using f1 L t(4,5) fo(2) hl d(6) by simp_all
  obtain m' l where m': "release_frame i i h ?m1 = Inr m'" "smut l = Unlocked" "latch_ok l" "\<not> isLatched l"
      "bfs m' = (bfs (set_ht_latch i (bumped (ht_latch ?m1 i) 1) ?m1))[i := (bf_reset (bfs (set_ht_latch i (bumped (ht_latch ?m1 i) 1) ?m1) ! i))\<lparr>bflatch := l\<rparr>]"
      "m' = ?m1\<lparr>bfs := bfs m', pageFree := pages (pageFree ?m1), pidFree := pids (pidFree ?m1)\<rparr>"
    by (rule release_frame_ok [OF c(5,5,1,2,3) h1 c(4)])
  have nth: "bfs m' ! k = (if k = i then (bf_reset (bfs m ! i))\<lparr>ht_bucket_latch := bumped (ht_latch m i) 2, bflatch := l\<rparr> else bfs m ! k)"
    if "k < length (bfs m)" for k
    using that t(4) hl unfolding m'(5) by (auto simp: nth_list_update set_ht_nth bf_reset_def numeral_2_eq_2)
  have len: "length (bfs m') = length (bfs m)" unfolding m'(5) by simp
  have sel: "ptsize m' = ptsize m" "frameFree m' = frameFree m" "bmNode m' = bmNode m" "globalEpoch m' = globalEpoch m"
    "pageFree m' = pages (pageFree m)" "pidFree m' = pids (pidFree m)"
    by (subst m'(6); simp)+
  have att: "removeFrame_attempt i h m = Finished m' ()"
    using L fo(1) b d(6) f1 m'(1) by (simp add: removeFrame_attempt_def of_result_def tryLatch_bumped Let_def)
  have w: "pt_ok m' (chains m)" "tbl m' (chains m) = (tbl m (chains m))(p := None)"
    by (rule pt_free_inline [OF ok p2 b sel(1,2) len]; use nth nth [OF t(4)] fo(1) b m'(2,3) d(6) in \<open>simp add: bf_reset_def ht_latch_def\<close>)+
  have "removed m p i pages pids m'"
    unfolding removed_def
    using pt_wfI [OF w(1)] w(2) len sel nth nth [OF t(4)] m'(4) by (auto simp: table_def bf_reset_def)
  then show ?thesis using att by blast
qed

lemma path_split_next: "path bs (nextF (bs ! b)) (xs @ i # ys) \<Longrightarrow> nextF (bs ! last (b # xs)) = Some i"
  by (induction xs arbitrary: b) auto

lemma removeFrame_chained:
  assumes wf: "pt_wf m" and p: "table m p = Some i" and L: "isLatched (bflatch (bfs m ! i))" and b: "\<not> i < unat (ptsize m)"
    and h: "handle_spec h (bfs m ! i) pages pids"
  shows "\<exists>m'. removeFrame_attempt i h m = Finished m' () \<and> removed m p i pages pids m'"
proof -
  note ok = wf [unfolded pt_wf_def] and p2 = p [unfolded table_def]
  let ?b = "bucket m p"
  note bs = bucket_lt [OF ok, of p]
  note d = pt_okD [OF ok bs] and t = tbl_Some [OF ok p2]
  note fo = pt_ok_frame [OF ok t(4)]
  have "i \<in> set (chains m ?b)" using t(3) b bs by auto
  then obtain xs ys where xs: "chains m ?b = xs @ i # ys" by (meson split_list)
  let ?l = "last (?b # xs)"
  have l: "?l \<in> set (?b # xs)" by (rule last_in_set) simp
  have ne: "?b \<noteq> i" "?l \<noteq> i" using b bs l d(9) xs by auto
  have ll: "?l < length (bfs m)" using l d(2) [of ?l] d(7) xs by auto
  let ?m1 = "set_ht_latch ?b (bumped (ht_latch m ?b) 1) m"
  have f1: "bfs ?m1 ! i = bfs m ! i" using t(4) ne by (simp add: set_ht_nth)
  have nx: "nextF (bfs ?m1 ! k) = nextF (bfs m ! k)" "pid (bfs ?m1 ! k) = pid (bfs m ! k)" if "k < length (bfs m)" for k
    using that by (simp_all add: set_ht_nth)
  have path: "path (bfs ?m1) (nextF (bfs ?m1 ! ?b)) (xs @ i # ys)"
    using d(1,2,7) path_cong [of "bfs ?m1" "bfs m" "xs @ i # ys"] nx(1) xs by simp
  have fs: "find_slot (bfs ?m1) p (length (bfs m)) ?b = Some (Some ?l)"
  proof (rule find_slot_path [OF path])
    show "length (xs @ i # ys) < length (bfs m)" using d(10) xs by simp
    show "pid (bfs ?m1 ! i) = p" using f1 t(1) by simp
    show "pid (bfs ?m1 ! k) \<noteq> p" if "k \<in> set xs" for k
    proof -
      have "pid (bfs m ! i) \<notin> (\<lambda>i. pid (bfs m ! i)) ` set xs" using d(3) unfolding xs by auto
      then show ?thesis using that d(2) [of k] nx(2) [of k] t(1) xs by (metis (no_types, lifting) image_eqI in_set_conv_decomp append_assoc append_Cons)
    qed
  qed
  have si: "nextF (bfs m ! ?l) = Some i" using path_split_next [OF d(1) [unfolded xs]] .
  let ?m2 = "upd_frame ?l (\<lambda>f. f\<lparr>nextF := nextF (bfs ?m1 ! i)\<rparr>) ?m1"
  have f2: "bfs ?m2 ! i = bfs m ! i" using t(4) ne f1 by (simp add: frame_nths)
  have hl: "ht_latch ?m2 ?b = bumped (ht_latch m ?b) 1" using d(7) ll by (simp add: frame_nths)
  have c: "latch_ok (bflatch (bfs ?m2 ! i))" "isLatched (bflatch (bfs ?m2 ! i))" "state (bfs ?m2 ! i) \<noteq> FREE" "ol_isLatched (ht_latch ?m2 ?b)"
    "i < length (bfs ?m2)" "?b < length (bfs ?m2)" "handle_spec h (bfs ?m2 ! i) pages pids"
    unfolding f2 hl using L t(4,5) fo(2) d(6,7) h by simp_all
  obtain m3 l where m3: "release_frame i ?b h ?m2 = Inr m3" "smut l = Unlocked" "latch_ok l" "\<not> isLatched l"
      "bfs m3 = (bfs (set_ht_latch ?b (bumped (ht_latch ?m2 ?b) 1) ?m2))[i := (bf_reset (bfs (set_ht_latch ?b (bumped (ht_latch ?m2 ?b) 1) ?m2) ! i))\<lparr>bflatch := l\<rparr>]"
      "m3 = ?m2\<lparr>bfs := bfs m3, pageFree := pages (pageFree ?m2), pidFree := pids (pidFree ?m2)\<rparr>"
    by (rule release_frame_ok [OF c(5,6,1,2,3,7,4)])
  let ?m' = "m3\<lparr>frameFree := i # frameFree m3\<rparr>"
  have nth: "bfs m3 ! k = (if k = ?l then (bfs m ! k)\<lparr>nextF := nextF (bfs m ! i)\<rparr> else bfs m ! k)\<lparr>ht_bucket_latch := (if k = ?b then bumped (ht_latch m ?b) 2 else ht_bucket_latch (bfs m ! k))\<rparr>"
    if "k < length (bfs m)" "k \<noteq> i" for k
    using that t(4) hl f1 unfolding m3(5) by (auto simp: frame_nths numeral_2_eq_2 simp del: last.simps)
  have nthi: "bfs m3 ! i = (bf_reset (bfs m ! i))\<lparr>bflatch := l\<rparr>"
    using t(4) ne f2 unfolding m3(5) by (simp add: set_ht_nth del: last.simps)
  have len: "length (bfs m3) = length (bfs m)" unfolding m3(5) by simp
  have sel: "ptsize m3 = ptsize m" "frameFree m3 = frameFree m" "bmNode m3 = bmNode m" "globalEpoch m3 = globalEpoch m"
    "pageFree m3 = pages (pageFree m)" "pidFree m3 = pids (pidFree m)"
    by (subst m3(6); simp)+
  have att: "removeFrame_attempt i h m = Finished ?m' ()"
    using L fo(1) b d(6) f1 fs t(1) si nx(1) [OF ll] m3(1)
    by (simp add: removeFrame_attempt_def of_result_def tryLatch_bumped Let_def del: last.simps)
  have w: "pt_ok ?m' ((chains m)(?b := xs @ ys))" "tbl ?m' ((chains m)(?b := xs @ ys)) = (tbl m (chains m))(p := None)"
    by (rule pt_unlink [OF ok p2 refl xs]; use nth nth [OF d(7)] nth [OF ll] nthi len sel ne fo(1) b m3(2,3) d(6) in
          \<open>simp add: bf_reset_def ht_latch_def same_payload_def del: last.simps\<close>)+
  have "removed m p i pages pids ?m'"
    unfolding removed_def
  proof (intro conjI allI impI)
    show "pt_wf ?m'" "table ?m' = (table m)(p := None)" using pt_wfI [OF w(1)] w(2) by (simp_all add: table_def)
    show "same_payload (bfs m ! k) (bfs ?m' ! k)" if "k < length (bfs m)" "k \<noteq> i" for k
      using nth [OF that] by (simp add: same_payload_def)
  qed (use len sel nthi m3(4) in \<open>simp_all add: bf_reset_def\<close>)
  then show ?thesis using att by blast
qed

lemma removeFrame_ok:
  assumes "pt_wf m" and "table m p = Some i" and "isLatched (bflatch (bfs m ! i))" and "handle_spec h (bfs m ! i) pages pids"
  shows "\<exists>m'. removeFrame ((\<lambda>m. m) # envs) i h m = Some (Inr (m', ())) \<and> removed m p i pages pids m'"
  using removeFrame_inline [OF assms(1-3) _ assms(4)] removeFrame_chained [OF assms(1-3) _ assms(4)]
  by (cases "i < unat (ptsize m)") (auto simp: removeFrame_def)

end
