(* ===== verification/PageTable_Spec.thy ===== *)
theory PageTable_Spec
  imports PageTable_Ops
begin

text \<open>
  The buffer manager's operations against the map of its page table: allocation and reclaiming of pages, and the
  lookups, for every access functor that keeps the contract of Guard.
\<close>

section \<open>Allocation and reclaiming\<close>

lemma latch_fresh:
  assumes "latch_ok l" and "smut l = Unlocked"
  obtains l' where "latchExclusive l = Inr l'" "latch_ok l'" "isLatched l'" "smut l' = Writer"
proof -
  have "\<not> isLatched l" using assms by (simp add: latch_ok_def)
  then show thesis using assms(2) that [of "(bump l)\<lparr>smut := Writer\<rparr>"] by (simp add: latchExclusive_def latch_ok_def bump_def isLatched_def)
qed

lemma init_specI:
  assumes "\<And>f l. latchExclusive (bflatch f) = Inr l \<Longrightarrow> latch_ok l \<Longrightarrow> isLatched l \<Longrightarrow> pid f = EMPTY_PID \<Longrightarrow>
    \<exists>f'. init f = Inr f' \<and> pid f' = p \<and> state f' \<noteq> FREE \<and> nextF f' = nextF f \<and> isHtBucket f' = isHtBucket f
        \<and> ht_bucket_latch f' = ht_bucket_latch f \<and> bflatch f' = l"
  shows "init_spec p init"
  unfolding init_spec_def
proof (intro allI impI)
  fix f :: BufferFrame assume f: "latch_ok (bflatch f) \<and> smut (bflatch f) = Unlocked \<and> pid f = EMPTY_PID"
  then obtain l where "latchExclusive (bflatch f) = Inr l" "latch_ok l" "isLatched l" using latch_fresh by metis
  then show "\<exists>f'. init f = Inr f' \<and> pid f' = p \<and> state f' \<noteq> FREE \<and> nextF f' = nextF f \<and> isHtBucket f' = isHtBucket f
        \<and> ht_bucket_latch f' = ht_bucket_latch f \<and> latch_ok (bflatch f') \<and> isLatched (bflatch f')"
    using f assms by metis
qed

lemma init_new_spec: "init_spec p (init_new p page n ep)"
  by (rule init_specI) (simp add: init_new_def setPossessor_def setPossession_def)

lemma init_remote_spec: "init_spec p (init_remote p n ep)"
  by (rule init_specI) (simp add: init_remote_def setPossessor_def setPossession_def)

lemma init_missing_spec: "init_spec p (init_missing p page m)"
  by (rule init_specI) (simp add: init_missing_def setPossession_def)

lemma init_new_frame:
  assumes "init_new p page n ep f = Inr f'"
  shows "pid f' = p" "pageP f' = Some page" "state f' = HOT" "possession f' = EXCLUSIVE_P" "possessors f' = n" "pVersion f' = 0" "isLatched (bflatch f')"
  using assms by (auto simp: init_new_def bind_r_eq_Inr setPossessor_def setPossession_def latchExclusive_def)

text \<open>The free lists do not matter to the table.\<close>

lemma table_lists [simp]:
  "table (m\<lparr>pidFree := ps\<rparr>) = table m" "table (m\<lparr>pageFree := pgs\<rparr>) = table m" "pt_wf (m\<lparr>pidFree := ps\<rparr>) = pt_wf m" "pt_wf (m\<lparr>pageFree := pgs\<rparr>) = pt_wf m"
  by (simp_all add: table_def tbl_def chains_def bucket_def pt_wf_def pt_ok_def bucket_ok_def frame_ok_def spare_ok_def ht_latch_def fun_eq_iff)

lemma inserted_lists [simp]:
  "inserted (m\<lparr>pidFree := ps, pageFree := pgs\<rparr>) p init j m' \<longleftrightarrow>
     inserted (m\<lparr>pidFree := pidFree m', pageFree := pageFree m'\<rparr>) p init j m' \<and> pidFree m' = ps \<and> pageFree m' = pgs"
  by (auto simp: inserted_def)

lemma push_page_spec:
  assumes "pageP f = Some page" and "pid f = p"
  shows "handle_spec push_page f (\<lambda>xs. page # xs) (\<lambda>xs. xs)"
    and "handle_spec (\<lambda>f m. push_page f (m\<lparr>pidFree := pid f # pidFree m\<rparr>)) f (\<lambda>xs. page # xs) (\<lambda>xs. p # xs)"
proof -
  have s: "pid f' = p" "pageP f' = Some page" if "same_payload f f'" for f'
    using that assms by (simp_all add: same_payload_sel(1,7) [of f f'])
  show "handle_spec push_page f (\<lambda>xs. page # xs) (\<lambda>xs. xs)"
    "handle_spec (\<lambda>f m. push_page f (m\<lparr>pidFree := pid f # pidFree m\<rparr>)) f (\<lambda>xs. page # xs) (\<lambda>xs. p # xs)"
    by (simp_all add: handle_spec_def push_page_def s)
qed

lemma newPage_ok:
  assumes wf: "pt_wf m" and fl: "frameFree m \<noteq> []" and ps: "pidFree m = p # ps" and pgs: "pageFree m = page # pgs"
    and p: "p \<noteq> EMPTY_PID" "table m p = None"
  shows "\<exists>m1 j. newPage ((\<lambda>m. m) # envs) m = Some (Inr (m1, j)) \<and> pt_wf m1 \<and> table m1 = (table m)(p \<mapsto> j) \<and> bmNode m1 = bmNode m
     \<and> pageFree m1 = pgs \<and> pidFree m1 = ps \<and> state (bfs m1 ! j) = HOT \<and> suffices_X (bmNode m) (bfs m1 ! j)
     \<and> isLatched (bflatch (bfs m1 ! j)) \<and> pageP (bfs m1 ! j) = Some page \<and> pid (bfs m1 ! j) = p"
proof -
  let ?m = "m\<lparr>pidFree := ps, pageFree := pgs\<rparr>" and ?init = "init_new p page (bmNode m) (globalEpoch m)"
  have n: "newPage ((\<lambda>m. m) # envs) m = insertFrame ((\<lambda>m. m) # envs) p ?init ?m" using ps pgs by (simp add: newPage_def)
  have "pt_wf ?m" "table ?m p = None" "frameFree ?m \<noteq> []" using wf p(2) fl by simp_all
  from insertFrame_fresh [OF this(1) p(1) this(2) init_new_spec this(3)]
  obtain m1 j where m1: "insertFrame ((\<lambda>m. m) # envs) p ?init ?m = Some (Inr (m1, j))" "inserted ?m p ?init j m1" by blast
  then obtain f0 f where f: "?init f0 = Inr f" "same_payload f (bfs m1 ! j)" unfolding inserted_def by auto
  have "pt_wf m1" "table m1 = (table m)(p \<mapsto> j)" "bmNode m1 = bmNode m" "pageFree m1 = pgs" "pidFree m1 = ps"
    using m1(2) by (auto simp: inserted_def)
  then show ?thesis using n m1(1) same_payload_sel [OF f(2)] init_new_frame [OF f(1)] by (simp add: suffices_X_def)
qed

section \<open>Lookups\<close>

text \<open>What of a frame the table depends on.\<close>

definition same_links :: "BufferFrame \<Rightarrow> BufferFrame \<Rightarrow> bool" where
  "same_links f f' \<longleftrightarrow> pid f' = pid f \<and> nextF f' = nextF f \<and> isHtBucket f' = isHtBucket f \<and> ht_bucket_latch f' = ht_bucket_latch f
     \<and> (state f' = FREE \<longleftrightarrow> state f = FREE)"

lemma same_links_refl [simp]: "same_links f f"
  by (simp add: same_links_def)

lemma same_links_trans: "same_links f g \<Longrightarrow> same_links g h \<Longrightarrow> same_links f h"
  by (simp add: same_links_def)

lemma same_fields_links: "same_fields f f' \<Longrightarrow> same_links f f'"
  using same_fields_sel [of f f'] by (simp add: same_links_def)

lemma pt_wf_upd:
  assumes wf: "pt_wf m" and i: "i < length (bfs m)" and f: "same_links (bfs m ! i) f'" "latch_ok (bflatch f')" "state f' \<noteq> FREE"
  shows "pt_wf (upd_frame i (\<lambda>_. f') m)" and "table (upd_frame i (\<lambda>_. f') m) = table m"
proof -
  let ?m = "upd_frame i (\<lambda>_. f') m"
  note ok = wf [unfolded pt_wf_def]
  have s: "pid (bfs ?m ! k) = pid (bfs m ! k) \<and> nextF (bfs ?m ! k) = nextF (bfs m ! k) \<and> isHtBucket (bfs ?m ! k) = isHtBucket (bfs m ! k)
     \<and> ht_bucket_latch (bfs ?m ! k) = ht_bucket_latch (bfs m ! k) \<and> (state (bfs ?m ! k) = FREE \<longleftrightarrow> state (bfs m ! k) = FREE)" if "k < length (bfs m)" for k
    using that f(1) by (simp add: upd_frame_nth same_links_def)
  have bk: "bucket_ok ?m (chains m b) b" if b: "b < unat (ptsize m)" for b
  proof (rule bucket_ok_cong)
    note d = pt_okD [OF ok b]
    show "bucket_ok m (chains m b) b" using ok b by (simp add: pt_ok_def)
    show "nextF (bfs ?m ! k) = nextF (bfs m ! k) \<and> pid (bfs ?m ! k) = pid (bfs m ! k) \<and> (state (bfs ?m ! k) = FREE \<longleftrightarrow> state (bfs m ! k) = FREE)"
      if "k \<in> set (b # chains m b)" for k using that s d(2,7) by auto
    show "\<not> ol_isLatched (ht_latch ?m b)" using s [OF d(7)] d(6) by (simp add: ht_latch_def)
  qed simp_all
  have fr: "frame_ok ?m k" if k: "k < length (bfs m)" for k
    using pt_ok_frame [OF ok k] s [OF k] f(2,3) k by (cases "k = i") (simp_all add: frame_ok_def upd_frame_nth)
  have sp: "spare_ok ?m k" if k: "k \<in> set (frameFree m)" for k
    using pt_ok_free [OF ok k] s [of k] by (simp add: spare_ok_def)
  have o: "pt_ok ?m (chains m)" using ok bk fr sp unfolding pt_ok_def by simp
  have "tbl ?m (chains m) p = tbl m (chains m) p" for p
  proof (rule tbl_cong)
    note d = pt_okD [OF ok bucket_lt [OF ok, of p]]
    show "pid (bfs ?m ! k) = pid (bfs m ! k)" if "k \<in> set (bucket m p # chains m (bucket m p))" for k
      using that s d(2,7) by auto
  qed simp_all
  then show "pt_wf ?m" "table ?m = table m" using pt_wfI [OF o] by (auto simp: table_def)
qed

lemma pt_wf_bump:
  assumes wf: "pt_wf m" and same: "ptsize m' = ptsize m" "frameFree m' = frameFree m" "length (bfs m') = length (bfs m)"
    and nth: "\<And>k. k < length (bfs m) \<Longrightarrow> bfs m' ! k = (bfs m ! k)\<lparr>ht_bucket_latch := ht_bucket_latch (bfs m' ! k)\<rparr>"
      "\<And>k. k < unat (ptsize m) \<Longrightarrow> \<not> ol_isLatched (ht_bucket_latch (bfs m' ! k))"
  shows "pt_wf m'"
proof -
  note ok = wf [unfolded pt_wf_def]
  have s: "pid (bfs m' ! k) = pid (bfs m ! k)" "nextF (bfs m' ! k) = nextF (bfs m ! k)" "isHtBucket (bfs m' ! k) = isHtBucket (bfs m ! k)"
    "state (bfs m' ! k) = state (bfs m ! k)" "bflatch (bfs m' ! k) = bflatch (bfs m ! k)" if "k < length (bfs m)" for k
    using arg_cong [OF nth(1) [OF that], of pid] arg_cong [OF nth(1) [OF that], of nextF] arg_cong [OF nth(1) [OF that], of isHtBucket]
      arg_cong [OF nth(1) [OF that], of state] arg_cong [OF nth(1) [OF that], of bflatch] by simp_all
  have bk: "bucket_ok m' (chains m b) b" if b: "b < unat (ptsize m)" for b
  proof (rule bucket_ok_cong [OF _ same(1,3)])
    note d = pt_okD [OF ok b]
    show "bucket_ok m (chains m b) b" using ok b by (simp add: pt_ok_def)
    show "nextF (bfs m' ! k) = nextF (bfs m ! k) \<and> pid (bfs m' ! k) = pid (bfs m ! k) \<and> (state (bfs m' ! k) = FREE \<longleftrightarrow> state (bfs m ! k) = FREE)"
      if "k \<in> set (b # chains m b)" for k using that s d(2,7) by auto
    show "\<not> ol_isLatched (ht_latch m' b)" using nth(2) [OF b] by (simp add: ht_latch_def)
  qed
  have "frame_ok m' k" if k: "k < length (bfs m)" for k
    using pt_ok_frame [OF ok k] s [OF k] same(1) by (simp add: frame_ok_def)
  moreover have "spare_ok m' k" if k: "k \<in> set (frameFree m)" for k
    using pt_ok_free [OF ok k] s [of k] same by (simp add: spare_ok_def)
  ultimately have "pt_ok m' (chains m)" using ok bk same unfolding pt_ok_def by simp
  then show ?thesis by (rule pt_wfI(1))
qed

section \<open>Construction\<close>

lemma fresh_nth: "i < n \<Longrightarrow> fresh_frames n sz ! i = new_BufferFrame\<lparr>isHtBucket := i < unat sz\<rparr>" "length (fresh_frames n sz) = n"
  by (simp_all add: fresh_frames_def)

lemma fresh_wf:
  assumes m: "bfs m = fresh_frames n sz" "ptsize m = sz" and k: "sz = 2 ^ k" "k < 64" "unat sz \<le> n"
    and fr: "distinct (frameFree m)" "\<And>i. i \<in> set (frameFree m) \<Longrightarrow> unat sz \<le> i \<and> i < n"
  shows "pt_wf m" and "table m = Map.empty" and "\<And>p. state (bfs m ! bucket m p) = FREE"
proof -
  have nb: "nextF (bfs m ! i) = None" "state (bfs m ! i) = FREE" "pid (bfs m ! i) = EMPTY_PID" "isHtBucket (bfs m ! i) \<longleftrightarrow> i < unat sz"
    "bflatch (bfs m ! i) = new_HybridLatch" "ht_bucket_latch (bfs m ! i) = new_OptimisticLatch" if "i < n" for i
    using that m(1) by (simp_all add: fresh_nth new_BufferFrame_def)
  have nl: "\<not> ol_isLatched new_OptimisticLatch" by (simp add: ol_isLatched_def isLatchedV_def new_OptimisticLatch_def)
  have bk: "bucket_ok m [] b" if "b < unat sz" for b
    using nb [of b] that k(3) nl by (simp add: bucket_ok_def ht_latch_def)
  have fo: "frame_ok m i" if "i < n" for i
    using nb [OF that] new_HybridLatch_ok(1) m(2) by (simp add: frame_ok_def new_HybridLatch_def)
  have sp: "spare_ok m i" if "i \<in> set (frameFree m)" for i
    using nb [of i] fr(2) [OF that] m by (simp add: spare_ok_def fresh_nth)
  have ok: "pt_ok m (\<lambda>_. [])"
    using m k fr(1) bk fo sp by (auto simp: pt_ok_def fresh_nth)
  show "pt_wf m" using pt_wfI(1) [OF ok] .
  have b: "bucket m p < n" for p using bucket_lt [OF ok, of p] k(3) m(2) by simp
  show "state (bfs m ! bucket m p) = FREE" for p using nb(2) [OF b] .
  show "table m = Map.empty" using pt_wfI(2) [OF ok] nb(3) [OF b] by (auto simp: tbl_def fun_eq_iff)
qed

lemma init_catalog_spec: "init_spec CATALOG_PID (init_catalog page n)"
  by (rule init_specI) (simp add: init_catalog_def setPossessor_def setPossession_def)

lemma catalog_ne: "CATALOG_PID \<noteq> EMPTY_PID"
  by (simp add: CATALOG_PID_def EMPTY_PID_def CATALOG_OWNER_def mk_PID_def)

lemma create_catalog_ok:
  assumes wf: "pt_wf m" "table m = Map.empty" "state (bfs m ! bucket m CATALOG_PID) = FREE" and pg: "pageFree m = page # pgs"
  shows "\<exists>m' j. create_catalog m = Inr m' \<and> pt_wf m' \<and> table m' = [CATALOG_PID \<mapsto> j] \<and> state (bfs m' ! j) = HOT \<and> suffices_X (bmNode m) (bfs m' ! j)
     \<and> smut (bflatch (bfs m' ! j)) = Unlocked \<and> pageP (bfs m' ! j) = Some page \<and> pageFree m' = pgs \<and> pidFree m' = pidFree m
     \<and> bmNode m' = bmNode m"
proof -
  let ?m0 = "m\<lparr>pageFree := pgs\<rparr>" and ?init = "init_catalog page (bmNode m)"
  let ?j = "bucket ?m0 CATALOG_PID"
  have "pt_wf ?m0" "table ?m0 CATALOG_PID = None" "state (bfs ?m0 ! ?j) = FREE" using wf by (simp_all add: bucket_def)
  from insertFrame_inline [OF this(1) catalog_ne this(2) init_catalog_spec this(3)]
  obtain m1 where a: "insertFrame_attempt CATALOG_PID ?init ?m0 = Finished m1 ?j" and i: "inserted ?m0 CATALOG_PID ?init ?j m1" by blast
  then obtain f0 f where f: "?init f0 = Inr f" "same_payload f (bfs m1 ! ?j)" unfolding inserted_def by blast
  have w1: "pt_wf m1" "table m1 = [CATALOG_PID \<mapsto> ?j]" "pageFree m1 = pgs" "pidFree m1 = pidFree m" "?j < length (bfs m1)"
    using i wf(2) by (auto simp: inserted_def)
  have fc: "state f = HOT" "possession f = EXCLUSIVE_P" "possessors f = bmNode m" "pageP f = Some page" "isLatched (bflatch f)"
    using f(1) by (auto simp: init_catalog_def bind_r_eq_Inr setPossessor_def setPossession_def latchExclusive_def)
  note s = same_payload_sel [OF f(2)]
  have L: "latch_ok (bflatch (bfs m1 ! ?j))" "isLatched (bflatch (bfs m1 ! ?j))"
    using pt_ok_frame(2) [OF w1(1) [unfolded pt_wf_def] w1(5)] s(3) fc(5) by simp_all
  obtain l where l: "unlatchExclusive (bflatch (bfs m1 ! ?j)) = Inr l" "latch_ok l" "smut l = Unlocked" using unlatch_latched [OF L] by blast
  let ?m' = "upd_frame ?j (\<lambda>_. (bfs m1 ! ?j)\<lparr>bflatch := l\<rparr>) m1"
  have e: "upd_frame ?j (\<lambda>f. f\<lparr>bflatch := l\<rparr>) m1 = ?m'" by (simp add: upd_frame_def)
  have "pt_wf ?m'" "table ?m' = table m1" using pt_wf_upd [OF w1(1,5), of "(bfs m1 ! ?j)\<lparr>bflatch := l\<rparr>"] l(2) s(2) fc(1)
    by (simp_all add: same_links_def)
  moreover have "create_catalog m = Inr ?m'" using pg a l(1) e by (simp add: create_catalog_def)
  moreover have "bfs ?m' ! ?j = (bfs m1 ! ?j)\<lparr>bflatch := l\<rparr>" using w1(5) by (simp add: upd_frame_nth)
  ultimately show ?thesis using w1 s fc l(3) i by (intro exI [of _ ?m'] exI [of _ ?j]) (simp add: suffices_X_def inserted_def)
qed

lemma new_Buffermanager_wf:
  assumes d: "1 \<le> unat d" "unat d \<le> 2 ^ 32" "unat d < ssd" and pg: "pages \<noteq> []"
    and fr: "distinct frames" "set frames = {unat (nextPowerTwo d)..<4 * unat (nextPowerTwo d)}"
  shows "\<exists>m. new_Buffermanager n d ssd pages frames = Inr m \<and> pt_wf m \<and> bmNode m = n
     \<and> dom (table m) = (if n = CATALOG_OWNER then {CATALOG_PID} else {})
     \<and> set (pidFree m) = (\<lambda>i. mk_PID n (of_nat i)) ` {0..<ssd} - {CATALOG_PID}"
proof -
  obtain k where k: "k \<le> 32" "nextPowerTwo d = 2 ^ k" "unat d \<le> 2 ^ k" using nextPowerTwo_pow [OF d(1,2)] by blast
  have k34: "2 ^ k * (4 :: nat) \<le> 2 ^ 34" using k(1) power_increasing [of k 32 "2::nat"] by simp
  have u: "unat (nextPowerTwo d) = 2 ^ k" using k unat_pow2 [of k] by simp
  have u4: "unat (nextPowerTwo d * 4) = 4 * 2 ^ k"
    using k34 u by (simp add: unat_word_ariths(2))
  let ?b = "4 * 2 ^ k :: nat" and ?sz = "nextPowerTwo d"
  define m where "m = \<lparr>bfs = fresh_frames ?b ?sz, ptsize = ?sz, frameFree = frames, pageFree = pages,
                     pidFree = rev (filter (\<lambda>p. p \<noteq> CATALOG_PID) (map (\<lambda>i. mk_PID n (of_nat i)) [0..<ssd])),
                     bmNode = n, globalEpoch = 0\<rparr>"
  have w: "pt_wf m" "table m = Map.empty" "\<And>p. state (bfs m ! bucket m p) = FREE"
    using fresh_wf [of m ?b ?sz k] k u fr unfolding m_def by auto
  have la: "list_all (\<lambda>i. \<not> isHtBucket (fresh_frames ?b ?sz ! i)) frames"
    using fr(2) u by (auto simp: list_all_iff fresh_nth)
  have "unat d < ?b" using k(3) by (simp add: d(1) order_le_less_trans [of "unat d" "2 ^ k"])
  then have nb: "new_Buffermanager n d ssd pages frames = (if n = CATALOG_OWNER then create_catalog m else Inr m)"
    using la d(3) u4 unfolding new_Buffermanager_def new_PageTable_def m_def by (simp add: Let_def)
  show ?thesis
  proof (cases "n = CATALOG_OWNER")
    case False
    then show ?thesis using nb w by (auto simp: m_def)
  next
    case True
    obtain page pgs where "pageFree m = page # pgs" using pg unfolding m_def by (cases pages) auto
    then obtain m' j where c: "create_catalog m = Inr m'" "pt_wf m'" "table m' = [CATALOG_PID \<mapsto> j]" "pidFree m' = pidFree m" "bmNode m' = bmNode m"
      using create_catalog_ok [OF w] by blast
    then show ?thesis using nb True by (auto simp: m_def)
  qed
qed

text \<open>A small manager to apply the theorems to.\<close>

definition small_bm :: bufmgr where
  "small_bm = \<lparr>bfs = fresh_frames 4 2, ptsize = 2, frameFree = [2, 3], pageFree = [512, 1024], pidFree = [mk_PID 1 5, mk_PID 1 6], bmNode = 1, globalEpoch = 0\<rparr>"

lemma example_pid: "mk_PID 1 5 \<noteq> EMPTY_PID"
  by (simp add: mk_PID_def EMPTY_PID_def PAGEID_BITS_NODEID_def)

lemma small_bm_wf: "pt_wf small_bm" "table small_bm = Map.empty" "\<And>p. state (bfs small_bm ! bucket small_bm p) = FREE"
  by (rule fresh_wf [of small_bm 4 2 1]; auto simp: small_bm_def)+

section \<open>Interference\<close>

text \<open>What other threads may do to a frame while a functor runs on it: whoever changes possession or links of a frame
  holds its latch, and the table still has the frame when the bucket is validated afterwards.\<close>

definition env_frame :: "(BufferFrame \<Rightarrow> BufferFrame) \<Rightarrow> BufferFrame \<Rightarrow> bool" where
  "env_frame gap f \<longleftrightarrow> undisturbed_fields gap f \<and> same_links f (gap f)"

definition acquired :: "LATCH_STATE \<Rightarrow> (NodeID \<Rightarrow> BufferFrame \<Rightarrow> bool) \<Rightarrow> NodeID \<Rightarrow> 'f Guard \<Rightarrow> BufferFrame \<Rightarrow> bool" where
  "acquired mode suffices n g f \<longleftrightarrow> guard_holds g f
     \<and> (gstate g = INITIALIZED \<and> latchState g = mode \<and> suffices n f
        \<or> gstate g \<in> {LOCAL_POSSESSION_CHANGE, REMOTE_POSSESSION_CHANGE} \<and> latchState g = EXCLUSIVE \<and> \<not> suffices n f)"

text \<open>The outcome of a blocking lookup, over a table that other threads may have changed before it.\<close>

definition found_ok ::
  "LATCH_STATE \<Rightarrow> (NodeID \<Rightarrow> BufferFrame \<Rightarrow> bool) \<Rightarrow> NodeID \<Rightarrow> fref \<Rightarrow> bufmgr \<Rightarrow> (fref Guard \<times> bufmgr, fref Guard) step_result \<Rightarrow> bool" where
  "found_ok mode suffices n i m r \<longleftrightarrow>
     (case r of Failed e \<Rightarrow> False
      | Again (g', m') \<Rightarrow> holds_nothing g' \<and> pt_wf m' \<and> table m' = table m \<and> bucket m' = bucket m \<and> bmNode m' = bmNode m
      | Finished (g', m') h \<Rightarrow> h = g' \<and> pt_wf m' \<and> table m' = table m \<and> gframe g' = Some i \<and> acquired mode suffices n g' (bfs m' ! i))"

locale frame_lookup = access_functor access undo mode suffices
  for access :: access_fn and undo :: undo_fn and mode :: LATCH_STATE and suffices :: "NodeID \<Rightarrow> BufferFrame \<Rightarrow> bool"
begin

lemma on_found_ok:
  assumes wf: "pt_wf m" and t: "table m p = Some i" and e: "env_frame (during e) (bfs m ! i)" and g: "holds_nothing g"
  shows "found_ok mode suffices n i m (on_found access undo BLOCKING n e i g m)"
proof -
  note tb = tbl_Some [OF wf [unfolded pt_wf_def] t [unfolded table_def]]
  have L: "latch_ok (bflatch (bfs m ! i))" using pt_ok_frame(2) [OF wf [unfolded pt_wf_def] tb(4)] .
  have u: "undisturbed_fields (during e) (bfs m ! i)" and sl: "same_links (bfs m ! i) (during e (bfs m ! i))" using e by (simp_all add: env_frame_def)
  have g2: "holds_nothing (g\<lparr>gframe := Some i\<rparr>)" using g by (simp add: holds_nothing_def)
  obtain g' f' where a: "access (during e) n (g\<lparr>gframe := Some i\<rparr>) (bfs m ! i) = Inr (g', f')"
      and gr: "granted mode suffices n (during e) (g\<lparr>gframe := Some i\<rparr>) (bfs m ! i) g' f'"
    using access_ok [OF L u g2] by blast
  have f': "same_links (bfs m ! i) f'" "latch_ok (bflatch f')" "gframe g' = Some i" "guard_holds g' f'"
    using gr sl same_fields_links same_links_trans unfolding granted_def by (blast, simp_all)
  have nf: "state f' \<noteq> FREE" using f'(1) tb(5) by (simp add: same_links_def)
  let ?m = "upd_frame i (\<lambda>_. f') m"
  note w = pt_wf_upd [OF wf tb(4) f'(1,2) nf]
  have nth: "bfs ?m ! i = f'" using tb(4) by (simp add: upd_frame_nth)
  have bu: "bucket ?m = bucket m" by (simp add: fun_eq_iff)
  show ?thesis
  proof (cases "gstate g' = RETRY")
    case True
    then have "holds_nothing g'" using gr unfolding granted_def by auto
    then show ?thesis using a True w bu by (simp add: on_found_def of_result_def found_ok_def Let_def)
  next
    case False
    then have ac: "acquired mode suffices n g' f'" using gr f'(4) unfolding granted_def acquired_def by auto
    show ?thesis
    proof (cases "moved e")
      case True
      have "latchState g' = mode \<or> latchState g' = EXCLUSIVE \<and> \<not> suffices n f'" using ac unfolding acquired_def by auto
      then obtain g2 f2 where u: "undo g' f' = Inr (g2, f2)" and r: "released g' f' g2 f2" using undo_ok [OF f'(2,4) False] by blast
      have l2: "same_links (bfs ?m ! i) f2" "latch_ok (bflatch f2)" using r same_fields_links nth by (auto simp: released_def)
      have nf2: "state f2 \<noteq> FREE" using l2(1) nth nf by (simp add: same_links_def)
      have i2: "i < length (bfs ?m)" using tb(4) by simp
      note w2 = pt_wf_upd [OF w(1) i2 l2 nf2]
      have bu2: "bucket (upd_frame i (\<lambda>_. f2) ?m) = bucket m" by (simp add: fun_eq_iff)
      show ?thesis using a False True u nth w2 w(2) bu2 r
        by (simp add: on_found_def of_result_def found_ok_def released_def Let_def)
    next
      case False
      then show ?thesis using a \<open>gstate g' \<noteq> RETRY\<close> w nth ac f'(3) by (simp add: on_found_def of_result_def found_ok_def Let_def)
    qed
  qed
qed

end

text \<open>What the other threads do before and during an attempt keeps the table well-formed; a bucket whose version is
  the one of the walk has not changed, and waiting for a page ends with one.\<close>

definition lookup_env :: "find_env \<Rightarrow> PID \<Rightarrow> bufmgr \<Rightarrow> bool" where
  "lookup_env e p m \<longleftrightarrow> pt_wf (before e m) \<and> (\<forall>i. table (before e m) p = Some i \<longrightarrow> env_frame (during e) (bfs (before e m) ! i))"

definition wait_env :: "find_env \<Rightarrow> PID \<Rightarrow> bufmgr \<Rightarrow> bool" where
  "wait_env e p m \<longleftrightarrow> pt_wf (waiting e m) \<and> pageFree (waiting e m) \<noteq> [] \<and> ptsize (waiting e m) = ptsize m
     \<and> (ht_latch (waiting e m) (bucket m p) = ht_latch m (bucket m p) \<longrightarrow>
          table (waiting e m) p = table m p \<and> chains (waiting e m) (bucket m p) = chains m (bucket m p))"

text \<open>The page id was missing: an exclusively latched frame with a page, to be filled.\<close>

definition to_load :: "PID \<Rightarrow> fref Guard \<Rightarrow> bufmgr \<Rightarrow> fref \<Rightarrow> bool" where
  "to_load p g m i \<longleftrightarrow> gstate g = (if getOwner p = bmNode m then SSD else REMOTE) \<and> latchState g = EXCLUSIVE
     \<and> isLatched (bflatch (bfs m ! i)) \<and> vAcquired g = version (bflatch (bfs m ! i)) \<and> possession (bfs m ! i) = NOBODY \<and> pageP (bfs m ! i) \<noteq> None
     \<and> state (bfs m ! i) = (if getOwner p = bmNode m then IO_SSD else IO_RDMA)"

lemma init_missing_cong: "bmNode m' = bmNode m \<Longrightarrow> globalEpoch m' = globalEpoch m \<Longrightarrow> init_missing p page m' = init_missing p page m"
  by (simp add: init_missing_def fun_eq_iff)

lemma init_missing_frame:
  "init_missing p page m f = Inr f' \<Longrightarrow> possession f' = NOBODY \<and> pageP f' = Some page \<and> isLatched (bflatch f')
     \<and> state f' = (if getOwner p = bmNode m then IO_SSD else IO_RDMA)"
  by (auto simp: init_missing_def bind_r_eq_Inr setPossession_def latchExclusive_def)

lemma of_result_Finished:
  assumes "of_result (init_frame k init m) (\<lambda>m. of_result (unlatch_bucket b m) (\<lambda>m.
       of_result (ensure (isLatched (bflatch (bfs m ! k))) (Inr ())) (\<lambda>_. Finished m k))) = Finished m' j"
  shows "\<exists>m2. init_frame k init m = Inr m2 \<and> unlatch_bucket b m2 = Inr m' \<and> j = k"
  using assms by (cases "init_frame k init m") (auto simp: of_result_def ensure_def split: sum.splits if_splits)

text \<open>The insertion of a missing page is \<open>insertFrame\<close>, once the bucket is latched at the version of the walk.\<close>

lemma insert_missing_insertFrame:
  assumes wf: "pt_wf m" and b: "b = bucket m p" and p: "p \<noteq> EMPTY_PID" "table m p = None" and pg: "pageFree m = page # pgs"
    and i: "i = last (b # chains m b)"
    and a: "insertFrame_attempt p (init_missing p page m) (m\<lparr>pageFree := pgs\<rparr>) = Finished m' j"
  shows "insert_missing p (typeVersionLockObsolete (ht_latch m b)) b i g m =
     (let g = g\<lparr>gframe := Some j, gstate := (if getOwner p = bmNode m' then SSD else REMOTE), vAcquired := version (bflatch (bfs m' ! j)), latchState := EXCLUSIVE\<rparr>
      in Finished (g, m') g)"
proof -
  note ok = wf [unfolded pt_wf_def] and bl = bucket_lt [OF wf [unfolded pt_wf_def], of p]
  note d = pt_okD [OF ok bl, folded b]
  have nl: "\<not> isLatchedV (typeVersionLockObsolete (ht_latch m b))" using d(6) by (simp add: ol_isLatched_def)
  have up: "ol_upgradeToExclusiveLatch (typeVersionLockObsolete (ht_latch m b)) (ht_latch m b)
     = (True, typeVersionLockObsolete (ht_latch m b) + 2, bumped (ht_latch m b) 1)"
    using nl by (simp add: ol_upgradeToExclusiveLatch_def bumped_def)
  let ?m0 = "m\<lparr>pageFree := pgs\<rparr>"
  let ?m1 = "set_ht_latch b (bumped (ht_latch m b) 1) ?m0"
  have hb: "ht_latch ?m0 b = ht_latch m b" "bucket ?m0 p = b" using b by (simp_all add: ht_latch_def bucket_def)
  have tl: "ol_tryLatchExclusive (\<lambda>l. l) (ht_latch ?m0 b) = (True, bumped (ht_latch m b) 1)" using hb(1) d(6) by (simp add: tryLatch_bumped)
  have "p \<notin> (\<lambda>j. pid (bfs m ! j)) ` set (chains m b)" using tbl_None [OF p(2) [unfolded table_def] p(1)] b by force
  then have ls: "last_slot (bfs ?m1) p (length (bfs ?m1)) b = Some (Inr i)"
    using last_slot_bucket [OF wf bl [folded b], of ?m1 p] i by (simp add: set_ht_nth same_payload_def)
  show ?thesis
  proof (cases "state (bfs ?m1 ! b) = FREE")
    case True
    have ini: "init_missing p page ?m1 = init_missing p page m" by (rule init_missing_cong) simp_all
    have a1: "of_result (init_frame b (init_missing p page m) ?m1) (\<lambda>m. of_result (unlatch_bucket b m) (\<lambda>m.
       of_result (ensure (isLatched (bflatch (bfs m ! b))) (Inr ())) (\<lambda>_. Finished m b))) = Finished m' j"
      using a True tl hb(2) by (simp add: insertFrame_attempt_def Let_def)
    note of_result_Finished [OF a1]
    then show ?thesis using True up pg ini by (auto simp: insert_missing_def Let_def of_result_def)
  next
    case False
    then obtain k js where fr: "frameFree m = k # js" using a tl hb(2) ls
      by (cases "frameFree m") (auto simp: insertFrame_attempt_def Let_def of_result_def split: sum.splits)
    let ?m2 = "upd_frame i (\<lambda>f. f\<lparr>nextF := Some k\<rparr>) (?m1\<lparr>frameFree := js\<rparr>)"
    have ini: "init_missing p page ?m2 = init_missing p page m" by (rule init_missing_cong) simp_all
    have a1: "of_result (init_frame k (init_missing p page m) ?m2) (\<lambda>m. of_result (unlatch_bucket b m) (\<lambda>m.
       of_result (ensure (isLatched (bflatch (bfs m ! k))) (Inr ())) (\<lambda>_. Finished m k))) = Finished m' j"
      using a False tl hb(2) ls fr by (simp add: insertFrame_attempt_def Let_def)
    note of_result_Finished [OF a1]
    then show ?thesis using False up pg ini fr by (auto simp: insert_missing_def Let_def of_result_def)
  qed
qed

lemma insert_missing_ok:
  assumes wf: "pt_wf m" and p: "p \<noteq> EMPTY_PID" "table m p = None" and pg: "pageFree m \<noteq> []" and g: "holds_nothing g"
    and v: "\<not> isLatchedV v" and i: "v = typeVersionLockObsolete (ht_latch m (bucket m p)) \<longrightarrow> i = last (bucket m p # chains m (bucket m p))"
  shows "(\<exists>m'. insert_missing p v (bucket m p) i g m = Again (g, m') \<and> pt_wf m' \<and> (v \<noteq> typeVersionLockObsolete (ht_latch m (bucket m p)) \<or> frameFree m = []))
     \<or> (\<exists>g' m' j. insert_missing p v (bucket m p) i g m = Finished (g', m') g' \<and> pt_wf m' \<and> table m' = (table m)(p \<mapsto> j)
          \<and> gframe g' = Some j \<and> to_load p g' m' j)"
proof -
  obtain page pgs where pgs: "pageFree m = page # pgs" using pg by (cases "pageFree m") auto
  let ?b = "bucket m p" and ?init = "init_missing p page m" and ?m0 = "m\<lparr>pageFree := pgs\<rparr>"
  note d = pt_okD [OF wf [unfolded pt_wf_def] bucket_lt [OF wf [unfolded pt_wf_def], of p]]
  have ins: ?thesis if a: "insertFrame_attempt p ?init ?m0 = Finished m' j" "inserted ?m0 p ?init j m'" "v = typeVersionLockObsolete (ht_latch m ?b)" for m' j
  proof -
    obtain f0 f where f: "?init f0 = Inr f" "same_payload f (bfs m' ! j)" using a(2) unfolding inserted_def by blast
    have n: "pt_wf m'" "table m' = (table m)(p \<mapsto> j)" "bmNode m' = bmNode m" using a(2) unfolding inserted_def by simp_all
    show ?thesis
      using insert_missing_insertFrame [OF wf refl p pgs i [rule_format, OF a(3)] a(1), of g] a(3) n
        init_missing_frame [OF f(1)] same_payload_sel [OF f(2)]
      by (simp add: Let_def to_load_def)
  qed
  have w0: "pt_wf ?m0" "table ?m0 p = None" "bucket ?m0 p = ?b" "bfs ?m0 = bfs m" "frameFree ?m0 = frameFree m" using wf p(2) by (simp_all add: bucket_def)
  show ?thesis
  proof (cases "v = typeVersionLockObsolete (ht_latch m ?b)")
    case False
    then show ?thesis using v pgs wf by (auto simp: insert_missing_def ol_upgradeToExclusiveLatch_def)
  next
    case v: True
    show ?thesis
    proof (cases "state (bfs m ! ?b) = FREE")
      case True
      then show ?thesis using insertFrame_inline [OF w0(1) p(1) w0(2) init_missing_spec] w0(3,4) ins v by fastforce
    next
      case st: False
      show ?thesis
      proof (cases "frameFree m")
        case (Cons j js)
        then show ?thesis using insertFrame_chained [OF w0(1) p(1) w0(2) init_missing_spec] st w0(3-5) ins v by fastforce
      next
        case Nil
        let ?m1 = "set_ht_latch ?b (bumped (ht_latch m ?b) 1) ?m0"
        let ?m2 = "set_ht_latch ?b (bumped (ht_latch ?m1 ?b) 1) ?m1"
        have up: "ol_upgradeToExclusiveLatch v (ht_latch m ?b) = (True, v + 2, bumped (ht_latch m ?b) 1)"
          using v d(6) by (simp add: ol_upgradeToExclusiveLatch_def bumped_def ol_isLatched_def)
        have h1: "ht_latch ?m1 ?b = bumped (ht_latch m ?b) 1" using d(7) by (simp add: frame_nths)
        have st1: "state (bfs ?m1 ! ?b) \<noteq> FREE" using st d(7) by (simp add: frame_nths)
        have "insert_missing p v ?b i g m = Again (g, ?m2\<lparr>pageFree := page # pageFree ?m2\<rparr>)"
          using pgs up h1 d(6) Nil unlatch_bumped [of ?m1 ?b] st1 by (simp add: insert_missing_def of_result_def Let_def)
        moreover have "pt_wf ?m2"
        proof (rule pt_wf_bump [OF w0(1)])
          show "\<not> ol_isLatched (ht_bucket_latch (bfs ?m2 ! k))" if "k < unat (ptsize ?m0)" for k
            using pt_okD(6,7) [OF wf [unfolded pt_wf_def], of k] that h1 d(6) by (simp add: frame_nths ht_latch_def flip: numeral_2_eq_2)
        qed (use h1 in \<open>auto simp: frame_nths\<close>)
        ultimately show ?thesis using Nil by simp
      qed
    qed
  qed
qed

lemma attempts_invariant:
  assumes "\<And>e s. e \<in> set es \<Longrightarrow> I s \<Longrightarrow> (case f e s of Failed err \<Rightarrow> False | Again s' \<Rightarrow> I s' | Finished s' x \<Rightarrow> Q s' x)" and "I s"
  shows "attempts f es s = None \<or> (\<exists>s' x. attempts f es s = Some (Inr (s', x)) \<and> Q s' x)"
  using assms
proof (induction es arbitrary: s)
  case (Cons e es)
  have "case f e s of Failed err \<Rightarrow> False | Again s' \<Rightarrow> I s' | Finished s' x \<Rightarrow> Q s' x" using Cons.prems by simp
  then show ?case using Cons.IH Cons.prems(1) by (cases "f e s") auto
qed simp

lemma attempts_live:
  assumes "\<And>e s. e \<in> set es \<Longrightarrow> I s \<Longrightarrow> (case f e s of Failed err \<Rightarrow> False | Again s' \<Rightarrow> I s' | Finished s' x \<Rightarrow> Q s' x)" and "I s"
    and "\<And>s. I s \<Longrightarrow> (case f e s of Finished s' x \<Rightarrow> Q s' x | _ \<Rightarrow> False)"
  shows "\<exists>s' x. attempts f (es @ e # es') s = Some (Inr (s', x)) \<and> Q s' x"
  using assms(1,2)
proof (induction es arbitrary: s)
  case Nil
  then show ?case using assms(3) [of s] by (auto split: step_result.splits)
next
  case (Cons d es)
  have "case f d s of Failed err \<Rightarrow> False | Again s' \<Rightarrow> I s' | Finished s' x \<Rightarrow> Q s' x" using Cons.prems by simp
  then show ?case using Cons.IH Cons.prems(1) by (cases "f d s") auto
qed

definition no_latch :: "fref Guard \<times> bufmgr \<Rightarrow> bool" where
  "no_latch gm \<longleftrightarrow> holds_nothing (fst gm) \<and> pt_wf (snd gm)"

definition found_frame ::
  "LATCH_STATE \<Rightarrow> (NodeID \<Rightarrow> BufferFrame \<Rightarrow> bool) \<Rightarrow> NodeID \<Rightarrow> PID \<Rightarrow> fref Guard \<times> bufmgr \<Rightarrow> fref Guard \<Rightarrow> bool" where
  "found_frame mode suffices n p gm h \<longleftrightarrow> (let (g, m) = gm in h = g \<and> pt_wf m
     \<and> (\<exists>i. table m p = Some i \<and> gframe g = Some i \<and> acquired mode suffices n g (bfs m ! i)))"

definition found_nothing :: "PID \<Rightarrow> fref Guard \<times> bufmgr \<Rightarrow> fref Guard \<Rightarrow> bool" where
  "found_nothing p gm h \<longleftrightarrow> (let (g, m) = gm in h = g \<and> pt_wf m \<and> table m p = None \<and> gstate g = NOT_FOUND \<and> holds_nothing g)"

definition frame_to_load :: "PID \<Rightarrow> fref Guard \<times> bufmgr \<Rightarrow> fref Guard \<Rightarrow> bool" where
  "frame_to_load p gm h \<longleftrightarrow> (let (g, m) = gm in h = g \<and> pt_wf m \<and> (\<exists>i. table m p = Some i \<and> gframe g = Some i \<and> to_load p g m i))"

abbreviation step_ok :: "('s \<Rightarrow> bool) \<Rightarrow> ('s \<Rightarrow> 'a \<Rightarrow> bool) \<Rightarrow> ('s, 'a) step_result \<Rightarrow> bool" where
  "step_ok I Q r \<equiv> (case r of Failed err \<Rightarrow> False | Again s' \<Rightarrow> I s' | Finished s' x \<Rightarrow> Q s' x)"

lemma found_ok_step: "found_ok mode suffices n i m r \<Longrightarrow> table m p = Some i \<Longrightarrow> step_ok no_latch (\<lambda>s h. found_frame mode suffices n p s h \<or> X s h) r"
  by (auto simp: found_ok_def no_latch_def found_frame_def split: step_result.splits)

context frame_lookup
begin

lemma findFrame_attempt_ok:
  assumes p: "p \<noteq> EMPTY_PID" and s: "no_latch s" and e: "lookup_env e p (snd s)"
  shows "step_ok no_latch (\<lambda>s h. found_frame mode suffices n p s h \<or> found_nothing p s h) (findFrame_attempt access undo BLOCKING p n e s)"
proof -
  let ?m = "before e (snd s)"
  have wf: "pt_wf ?m" and g: "holds_nothing (fst s)" using e s by (simp_all add: lookup_env_def no_latch_def)
  note ok = wf [unfolded pt_wf_def]
  note d = pt_okD [OF ok bucket_lt [OF ok, of p]]
  have o: "ol_optimisticLatchOrRestart (ht_latch ?m (bucket ?m p)) = Some (typeVersionLockObsolete (ht_latch ?m (bucket ?m p)))"
    using d(6) by (simp add: ol_optimisticLatchOrRestart_def ol_isLatched_def)
  have g2: "holds_nothing (fst s\<lparr>gstate := NOT_FOUND\<rparr>)" using g by (simp add: holds_nothing_def)
  note fw = find_walk_tbl [OF ok p, of "fails e"]
  show ?thesis
  proof (cases "find_walk (fails e) (bfs ?m) p (length (bfs ?m)) 0 (bucket ?m p) = Restarted")
    case True
    then show ?thesis using o wf g by (simp add: findFrame_attempt_def Let_def no_latch_def)
  next
    case nr: False
    show ?thesis
    proof (cases "table ?m p")
      case None
      then show ?thesis using fw nr o wf g g2 by (simp add: findFrame_attempt_def Let_def no_latch_def found_nothing_def table_def del: last.simps)
    next
      case (Some i)
      then have f: "env_frame (during e) (bfs ?m ! i)" using e by (simp add: lookup_env_def)
      have "findFrame_attempt access undo BLOCKING p n e s = on_found access undo BLOCKING n e i (fst s) ?m"
        using fw nr o Some by (simp add: findFrame_attempt_def Let_def table_def)
      then show ?thesis using found_ok_step [OF on_found_ok [OF wf Some f g] Some] by simp
    qed
  qed
qed

lemma findFrameOrInsert_attempt_ok:
  assumes p: "p \<noteq> EMPTY_PID" and s: "no_latch s" and e: "lookup_env e p (snd s)" and w: "wait_env e p (before e (snd s))"
  shows "step_ok no_latch (\<lambda>s h. found_frame mode suffices n p s h \<or> frame_to_load p s h) (findFrameOrInsert_attempt access undo BLOCKING p n e s)"
proof -
  let ?m = "before e (snd s)"
  let ?b = "bucket ?m p" and ?w = "waiting e ?m"
  have wf: "pt_wf ?m" and g: "holds_nothing (fst s)" using e s by (simp_all add: lookup_env_def no_latch_def)
  note ok = wf [unfolded pt_wf_def]
  note d = pt_okD [OF ok bucket_lt [OF ok, of p]]
  let ?v = "typeVersionLockObsolete (ht_latch ?m ?b)"
  have o: "ol_optimisticLatchOrRestart (ht_latch ?m ?b) = Some ?v" and nv: "\<not> isLatchedV ?v"
    using d(6) by (simp_all add: ol_optimisticLatchOrRestart_def ol_isLatched_def)
  note fw = find_walk_tbl [OF ok p, of "fails e"]
  show ?thesis
  proof (cases "find_walk (fails e) (bfs ?m) p (length (bfs ?m)) 0 ?b = Restarted")
    case True
    then show ?thesis using o wf g by (simp add: findFrameOrInsert_attempt_def Let_def no_latch_def)
  next
    case nr: False
    show ?thesis
    proof (cases "table ?m p")
      case None
      let ?i = "last (?b # chains ?m ?b)"
      have att: "findFrameOrInsert_attempt access undo BLOCKING p n e s = (if fail_end e then Again (fst s, ?m) else insert_missing p ?v ?b ?i (fst s) ?w)"
        using fw nr o None by (simp add: findFrameOrInsert_attempt_def Let_def table_def del: last.simps)
      have b: "bucket ?w p = ?b" and pf: "pageFree ?w \<noteq> []" and ww: "pt_wf ?w" using w by (simp_all add: wait_env_def bucket_def)
      show ?thesis
      proof (cases "ht_latch ?w ?b = ht_latch ?m ?b")
        case True
        then have "table ?w p = None" "chains ?w ?b = chains ?m ?b" using w None by (simp_all add: wait_env_def)
        then show ?thesis using insert_missing_ok [OF ww p _ pf g nv, of ?i] att b wf g True
          by (auto simp: no_latch_def frame_to_load_def simp del: last.simps)
      next
        case False
        then have "typeVersionLockObsolete (ht_latch ?w ?b) \<noteq> ?v" by (auto intro: OptimisticLatch.equality)
        then have "insert_missing p ?v ?b ?i (fst s) ?w = Again (fst s, ?w)"
          using pf by (simp add: insert_missing_def ol_upgradeToExclusiveLatch_def del: last.simps split: list.splits)
        then show ?thesis using att ww wf g by (simp add: no_latch_def del: last.simps)
      qed
    next
      case (Some i)
      then have f: "env_frame (during e) (bfs ?m ! i)" using e by (simp add: lookup_env_def)
      have "findFrameOrInsert_attempt access undo BLOCKING p n e s = on_found access undo BLOCKING n e i (fst s) ?m"
        using fw nr o Some by (simp add: findFrameOrInsert_attempt_def Let_def table_def)
      then show ?thesis using found_ok_step [OF on_found_ok [OF wf Some f g] Some] by simp
    qed
  qed
qed

end

text \<open>A run of attempts in which other threads keep the table in order, and one in which nothing of interest happens and
  the frame, if there is one, is unlatched and not waited for.\<close>

definition fair_env :: "PID \<Rightarrow> find_env \<Rightarrow> bool" where
  "fair_env p e \<longleftrightarrow> (\<forall>m. pt_wf m \<longrightarrow> lookup_env e p m \<and> wait_env e p (before e m))"

definition quiet_env :: "PID \<Rightarrow> find_env \<Rightarrow> bool" where
  "quiet_env p e \<longleftrightarrow> fair_env p e \<and> during e = (\<lambda>f. f) \<and> (\<forall>k. \<not> fails e k) \<and> \<not> fail_end e \<and> \<not> moved e
     \<and> (\<forall>m. pt_wf m \<longrightarrow> (\<forall>i. table (before e m) p = Some i \<longrightarrow>
          smut (bflatch (bfs (before e m) ! i)) = Unlocked \<and> \<not> mhWaiting (bfs (before e m) ! i)))"

definition quiet_wait :: "PID \<Rightarrow> find_env \<Rightarrow> bool" where
  "quiet_wait p e \<longleftrightarrow> (\<forall>m. pt_wf m \<and> table (before e m) p = None \<longrightarrow>
     ht_latch (waiting e (before e m)) (bucket (before e m) p) = ht_latch (before e m) (bucket (before e m) p) \<and> frameFree (waiting e (before e m)) \<noteq> [])"

locale live_functor = frame_lookup access undo mode suffices
  for access :: access_fn and undo :: undo_fn and mode :: LATCH_STATE and suffices :: "NodeID \<Rightarrow> BufferFrame \<Rightarrow> bool" +
  assumes access_live: "latch_ok (bflatch f) \<Longrightarrow> smut (bflatch f) = Unlocked \<Longrightarrow> \<not> mhWaiting f \<Longrightarrow> access (\<lambda>f. f) n g f = Inr (g', f') \<Longrightarrow> gstate g' \<noteq> RETRY"
begin

lemma findFrame_quiet:
  assumes p: "p \<noteq> EMPTY_PID" and s: "no_latch s" and q: "quiet_env p e"
  shows "\<exists>s' h. findFrame_attempt access undo BLOCKING p n e s = Finished s' h"
proof -
  let ?m = "before e (snd s)"
  have e: "lookup_env e p (snd s)" using q s by (simp add: quiet_env_def fair_env_def no_latch_def)
  have wf: "pt_wf ?m" and g: "holds_nothing (fst s)" using e s by (simp_all add: lookup_env_def no_latch_def)
  note ok = wf [unfolded pt_wf_def]
  note d = pt_okD [OF ok bucket_lt [OF ok, of p]]
  have o: "ol_optimisticLatchOrRestart (ht_latch ?m (bucket ?m p)) = Some (typeVersionLockObsolete (ht_latch ?m (bucket ?m p)))"
    using d(6) by (simp add: ol_optimisticLatchOrRestart_def ol_isLatched_def)
  note fw = find_walk_tbl [OF ok p, of "fails e"]
  show ?thesis
  proof (cases "table ?m p")
    case None
    then show ?thesis using fw o q by (simp add: findFrame_attempt_def Let_def quiet_env_def table_def del: last.simps)
  next
    case (Some i)
    note tb = tbl_Some [OF ok Some [unfolded table_def]]
    have L: "latch_ok (bflatch (bfs ?m ! i))" using pt_ok_frame(2) [OF ok tb(4)] .
    have un: "smut (bflatch (bfs ?m ! i)) = Unlocked" "\<not> mhWaiting (bfs ?m ! i)" using q Some s by (simp_all add: quiet_env_def no_latch_def)
    have u: "undisturbed_fields (\<lambda>f. f) (bfs ?m ! i)" using L by (simp add: undisturbed_fields_def)
    have g2: "holds_nothing (fst s\<lparr>gframe := Some i\<rparr>)" using g by (simp add: holds_nothing_def)
    obtain g' f' where a: "access (\<lambda>f. f) n (fst s\<lparr>gframe := Some i\<rparr>) (bfs ?m ! i) = Inr (g', f')" using access_ok [OF L u g2] by blast
    have "gstate g' \<noteq> RETRY" using access_live [OF L un a] .
    then show ?thesis using fw o q Some a by (simp add: findFrame_attempt_def Let_def quiet_env_def table_def on_found_def of_result_def)
  qed
qed

lemma findFrame_returns:
  assumes p: "p \<noteq> EMPTY_PID" and wf: "pt_wf m" and fair: "\<And>e. e \<in> set es \<Longrightarrow> fair_env p e" and q: "quiet_env p e"
  shows "\<exists>s h. findFrame access undo BLOCKING (es @ e # es') p n m = Some (Inr (s, h))
     \<and> (found_frame mode suffices n p s h \<or> found_nothing p s h)"
  unfolding findFrame_def
proof (rule attempts_live [where I = no_latch])
  show "no_latch (new_Guard, m)" using wf by (simp add: no_latch_def new_Guard_def holds_nothing_def)
  show "step_ok no_latch (\<lambda>s h. found_frame mode suffices n p s h \<or> found_nothing p s h) (findFrame_attempt access undo BLOCKING p n d s)"
    if "d \<in> set es" "no_latch s" for d s
    by (rule findFrame_attempt_ok [OF p that(2)]) (use fair [OF that(1)] that(2) in \<open>simp add: fair_env_def no_latch_def\<close>)
  show "case findFrame_attempt access undo BLOCKING p n e s of Finished s' h \<Rightarrow> found_frame mode suffices n p s' h \<or> found_nothing p s' h | _ \<Rightarrow> False"
    if "no_latch s" for s
    using findFrame_attempt_ok [OF p that, of e n] findFrame_quiet [OF p that q, of n] q that
    by (auto simp: quiet_env_def fair_env_def no_latch_def)
qed

lemma findFrameOrInsert_quiet:
  assumes p: "p \<noteq> EMPTY_PID" and s: "no_latch s" and q: "quiet_env p e" and w: "quiet_wait p e"
  shows "\<exists>s' h. findFrameOrInsert_attempt access undo BLOCKING p n e s = Finished s' h"
proof -
  let ?m = "before e (snd s)"
  let ?b = "bucket ?m p" and ?w = "waiting e ?m"
  have e: "lookup_env e p (snd s)" "wait_env e p ?m" using q s by (simp_all add: quiet_env_def fair_env_def no_latch_def)
  have wf: "pt_wf ?m" and g: "holds_nothing (fst s)" using e s by (simp_all add: lookup_env_def no_latch_def)
  note ok = wf [unfolded pt_wf_def]
  note d = pt_okD [OF ok bucket_lt [OF ok, of p]]
  let ?v = "typeVersionLockObsolete (ht_latch ?m ?b)" and ?i = "last (?b # chains ?m ?b)"
  have o: "ol_optimisticLatchOrRestart (ht_latch ?m ?b) = Some ?v" and nv: "\<not> isLatchedV ?v"
    using d(6) by (simp_all add: ol_optimisticLatchOrRestart_def ol_isLatched_def)
  note fw = find_walk_tbl [OF ok p, of "fails e"]
  show ?thesis
  proof (cases "table ?m p")
    case None
    then have att: "findFrameOrInsert_attempt access undo BLOCKING p n e s = insert_missing p ?v ?b ?i (fst s) ?w"
      using fw o q by (simp add: findFrameOrInsert_attempt_def Let_def quiet_env_def table_def del: last.simps)
    have t: "ht_latch ?w ?b = ht_latch ?m ?b" "frameFree ?w \<noteq> []" using w None s by (simp_all add: quiet_wait_def no_latch_def)
    have ww: "bucket ?w p = ?b" "pageFree ?w \<noteq> []" "pt_wf ?w" "table ?w p = None" "chains ?w ?b = chains ?m ?b"
      using e(2) t(1) None by (simp_all add: wait_env_def bucket_def)
    show ?thesis using insert_missing_ok [OF ww(3) p ww(4,2) g nv, of ?i] att ww(1,5) t by (auto simp del: last.simps)
  next
    case (Some i)
    then have "findFrameOrInsert_attempt access undo BLOCKING p n e s = findFrame_attempt access undo BLOCKING p n e s"
      using fw o q by (simp add: findFrameOrInsert_attempt_def findFrame_attempt_def Let_def quiet_env_def table_def)
    then show ?thesis using findFrame_quiet [OF p s q] by simp
  qed
qed

lemma findFrameOrInsert_returns:
  assumes p: "p \<noteq> EMPTY_PID" and wf: "pt_wf m" and fair: "\<And>e. e \<in> set es \<Longrightarrow> fair_env p e" and q: "quiet_env p e" "quiet_wait p e"
  shows "\<exists>s h. findFrameOrInsert access undo BLOCKING (es @ e # es') p n m = Some (Inr (s, h))
     \<and> (found_frame mode suffices n p s h \<or> frame_to_load p s h)"
  unfolding findFrameOrInsert_def
proof (rule attempts_live [where I = no_latch])
  show "no_latch (new_Guard, m)" using wf by (simp add: no_latch_def new_Guard_def holds_nothing_def)
  have ok: "step_ok no_latch (\<lambda>s h. found_frame mode suffices n p s h \<or> frame_to_load p s h) (findFrameOrInsert_attempt access undo BLOCKING p n d s)"
    if "fair_env p d" "no_latch s" for d s
    by (rule findFrameOrInsert_attempt_ok [OF p that(2)]) (use that in \<open>simp_all add: fair_env_def no_latch_def\<close>)
  then show "step_ok no_latch (\<lambda>s h. found_frame mode suffices n p s h \<or> frame_to_load p s h) (findFrameOrInsert_attempt access undo BLOCKING p n d s)"
    if "d \<in> set es" "no_latch s" for d s using fair that by blast
  show "case findFrameOrInsert_attempt access undo BLOCKING p n e s of Finished s' h \<Rightarrow> found_frame mode suffices n p s' h \<or> frame_to_load p s' h | _ \<Rightarrow> False"
    if "no_latch s" for s
    using ok [of e s] findFrameOrInsert_quiet [OF p that q, of n] q(1) that by (auto simp: quiet_env_def)
qed

end

lemma quiet_upgrades:
  assumes "latch_ok l" and "smut l = Unlocked"
  shows "optimisticLatchOrRestart l = Some (version l)"
    and "optimisticUpgradeToExclusive (\<lambda>l. l) (version l) l = Inr (True, l\<lparr>version := version l + 2, smut := Writer\<rparr>)"
    and "optimisticUpgradeToShared (\<lambda>l. l) (version l) l = Inr (True, l\<lparr>smut := Readers 1\<rparr>)"
proof -
  have n: "\<not> isLatched l" using assms by (simp add: latch_ok_def)
  show "optimisticLatchOrRestart l = Some (version l)" using n by (simp add: optimisticLatch_Some)
  show "optimisticUpgradeToExclusive (\<lambda>l. l) (version l) l = Inr (True, l\<lparr>version := version l + 2, smut := Writer\<rparr>)"
    using n assms tryLatchExclusive_ok(1) [OF assms(1)] by (simp add: optimisticUpgradeToExclusive_def isLatched_def)
  show "optimisticUpgradeToShared (\<lambda>l. l) (version l) l = Inr (True, l\<lparr>smut := Readers 1\<rparr>)"
    using n assms tryLatchShared_ok(1) [OF assms(1)] by (simp add: optimisticUpgradeToShared_def isLatched_def readers.simps)
qed

interpretation exl: live_functor Exclusive_access Exclusive_undo EXCLUSIVE suffices_X
  by unfold_locales (auto simp: Exclusive_access_def Let_def bf_upgrade_def quiet_upgrades possession_change_def split: if_splits)

interpretation shl: live_functor Shared_access Shared_undo SHARED isPossessor
  by unfold_locales (auto simp: Shared_access_def Let_def bf_upgrade_def quiet_upgrades possession_change_def split: if_splits)

interpretation opl: live_functor Optimistic_access Optimistic_undo OPTIMISTIC isPossessor
  by unfold_locales (auto simp: Optimistic_access_def Let_def bf_upgrade_def quiet_upgrades possession_change_def
      optimisticCheckOrRestart_def optimisticReadUnlatchOrRestart_def split: if_splits)

definition quiet_example :: find_env where
  "quiet_example = \<lparr>before = (\<lambda>_. small_bm), during = (\<lambda>f. f), waiting = (\<lambda>m. m), fails = (\<lambda>_. False), fail_end = False, moved = False\<rparr>"

lemma quiet_example_ok: "fair_env p quiet_example" "quiet_env p quiet_example" "quiet_wait p quiet_example"
proof -
  show f: "fair_env p quiet_example"
    by (simp add: fair_env_def lookup_env_def wait_env_def quiet_example_def small_bm_wf) (simp add: small_bm_def)
  show "quiet_env p quiet_example" using f by (simp add: quiet_env_def quiet_example_def small_bm_wf)
  show "quiet_wait p quiet_example" by (simp add: quiet_wait_def quiet_example_def small_bm_def)
qed

text \<open>a blocking lookup for any of the three access modes.  Whatever the other threads do as long as they keep the
  table in order, and whichever validations fail, the lookup does not fail, and it returns by the first attempt in which
  nothing interferes and the frame is free: with the frame of the page id held as the guard says, or with
  \<open>NOT_FOUND\<close> and no latch when the table has no such page id.\<close>

theorem findFrame_returns_frame:
  assumes "p \<noteq> EMPTY_PID" and "pt_wf m" and "\<And>e. e \<in> set es \<Longrightarrow> fair_env p e" and "quiet_env p e"
  shows "(\<exists>s h. findFrame Exclusive_access Exclusive_undo BLOCKING (es @ e # es') p n m = Some (Inr (s, h))
       \<and> (found_frame EXCLUSIVE suffices_X n p s h \<or> found_nothing p s h))
     \<and> (\<exists>s h. findFrame Shared_access Shared_undo BLOCKING (es @ e # es') p n m = Some (Inr (s, h))
       \<and> (found_frame SHARED isPossessor n p s h \<or> found_nothing p s h))
     \<and> (\<exists>s h. findFrame Optimistic_access Optimistic_undo BLOCKING (es @ e # es') p n m = Some (Inr (s, h))
       \<and> (found_frame OPTIMISTIC isPossessor n p s h \<or> found_nothing p s h))"
  by (intro conjI exl.findFrame_returns shl.findFrame_returns opl.findFrame_returns assms)

theorem findFrame_returns_frame_witness:
  "\<exists>s h. findFrame Shared_access Shared_undo BLOCKING [quiet_example, quiet_example] (mk_PID 1 5) 1 small_bm = Some (Inr (s, h))
     \<and> (found_frame SHARED isPossessor 1 (mk_PID 1 5) s h \<or> found_nothing (mk_PID 1 5) s h)"
proof -
  have "mk_PID 1 5 \<noteq> EMPTY_PID" by (rule example_pid)
  from findFrame_returns_frame [OF this small_bm_wf(1), of "[quiet_example]" quiet_example "[]" 1] quiet_example_ok
  show ?thesis by simp
qed

text \<open>\<open>findFrameOrInsert\<close> returns by the first undisturbed attempt that has a free page and a free frame, with a guard
  on the frame the table then has for the page id: acquired in the wanted mode, held exclusively for a possession
  change, or newly inserted, held exclusively, with a page and to be filled from the disk when this node owns the page
  and from the owner otherwise.\<close>

theorem findFrameOrInsert_returns_frame:
  assumes "p \<noteq> EMPTY_PID" and "pt_wf m" and "\<And>e. e \<in> set es \<Longrightarrow> fair_env p e" and "quiet_env p e" and "quiet_wait p e"
  shows "(\<exists>s h. findFrameOrInsert Exclusive_access Exclusive_undo BLOCKING (es @ e # es') p n m = Some (Inr (s, h))
       \<and> (found_frame EXCLUSIVE suffices_X n p s h \<or> frame_to_load p s h))
     \<and> (\<exists>s h. findFrameOrInsert Shared_access Shared_undo BLOCKING (es @ e # es') p n m = Some (Inr (s, h))
       \<and> (found_frame SHARED isPossessor n p s h \<or> frame_to_load p s h))
     \<and> (\<exists>s h. findFrameOrInsert Optimistic_access Optimistic_undo BLOCKING (es @ e # es') p n m = Some (Inr (s, h))
       \<and> (found_frame OPTIMISTIC isPossessor n p s h \<or> frame_to_load p s h))"
  by (intro conjI exl.findFrameOrInsert_returns shl.findFrameOrInsert_returns opl.findFrameOrInsert_returns assms)

theorem findFrameOrInsert_returns_frame_witness:
  "\<exists>s h. findFrameOrInsert Exclusive_access Exclusive_undo BLOCKING [quiet_example, quiet_example] (mk_PID 1 5) 1 small_bm = Some (Inr (s, h))
     \<and> (found_frame EXCLUSIVE suffices_X 1 (mk_PID 1 5) s h \<or> frame_to_load (mk_PID 1 5) s h)"
proof -
  have "mk_PID 1 5 \<noteq> EMPTY_PID" by (rule example_pid)
  from findFrameOrInsert_returns_frame [OF this small_bm_wf(1), of "[quiet_example]" quiet_example "[]" 1] quiet_example_ok
  show ?thesis by simp
qed

section \<open>Pages and frames\<close>

text \<open>C31: the constructor builds a well-formed page table that is empty but for the catalog page on the catalog's owner,
  and its free page ids are exactly those of this node's disk slots without the catalog's.\<close>

theorem new_Buffermanager_correct:
  assumes "1 \<le> unat d" and "unat d \<le> 2 ^ 32" and "unat d < ssd" and "pages \<noteq> []"
    and "distinct frames" and "set frames = {unat (nextPowerTwo d)..<4 * unat (nextPowerTwo d)}"
  shows "\<exists>m. new_Buffermanager n d ssd pages frames = Inr m \<and> pt_wf m \<and> bmNode m = n
     \<and> dom (table m) = (if n = CATALOG_OWNER then {CATALOG_PID} else {})
     \<and> set (pidFree m) = (\<lambda>i. mk_PID n (of_nat i)) ` {0..<ssd} - {CATALOG_PID}"
  by (rule new_Buffermanager_wf [OF assms])

theorem new_Buffermanager_correct_witness:
  "\<exists>m. new_Buffermanager 0 2 8 [512, 1024] [7, 2, 3, 6, 4, 5] = Inr m \<and> pt_wf m \<and> dom (table m) = {CATALOG_PID}"
  using new_Buffermanager_correct [of 2 8 "[512, 1024]" "[7, 2, 3, 6, 4, 5]" 0]
  by (force simp: nextPowerTwo_def Let_def CATALOG_OWNER_def)

text \<open>C24: \<open>insertFrame\<close> on a page id that is not in the table, with a free frame at hand, returns a frame that was
  initialised by the caller's function; the table maps the page id to it and all other page ids as before, and no
  other frame changed except for the links of the table.\<close>

theorem insertFrame_correct:
  assumes "pt_wf m" and "p \<noteq> EMPTY_PID" "table m p = None" and "init_spec p init" and "frameFree m \<noteq> []"
  shows "\<exists>m' j. insertFrame ((\<lambda>m. m) # envs) p init m = Some (Inr (m', j)) \<and> inserted m p init j m'"
  by (rule insertFrame_fresh [OF assms])

text \<open>C25: \<open>removeFrame\<close> on a latched frame of the table removes exactly its page id, gives the frame back unlatched
  and free, and hands its page (and page id) over as the caller's function says.\<close>

theorem removeFrame_correct:
  assumes "pt_wf m" and "table m p = Some i" and "isLatched (bflatch (bfs m ! i))" and "handle_spec h (bfs m ! i) pages pids"
  shows "\<exists>m'. removeFrame ((\<lambda>m. m) # envs) i h m = Some (Inr (m', ())) \<and> removed m p i pages pids m'"
  by (rule removeFrame_ok [OF assms])

theorem insertFrame_correct_witness:
  "\<exists>m' j. insertFrame [\<lambda>m. m] (mk_PID 1 5) (init_new (mk_PID 1 5) 512 1 0) small_bm = Some (Inr (m', j))
     \<and> inserted small_bm (mk_PID 1 5) (init_new (mk_PID 1 5) 512 1 0) j m'"
  by (rule insertFrame_correct) (simp_all add: small_bm_wf init_new_spec example_pid, simp add: small_bm_def)

theorem removeFrame_correct_witness:
  "\<exists>m1 j m2. newPage [\<lambda>m. m] small_bm = Some (Inr (m1, j)) \<and> removeFrame [\<lambda>m. m] j push_page m1 = Some (Inr (m2, ())) \<and> table m2 = Map.empty"
proof -
  have "mk_PID 1 5 \<noteq> EMPTY_PID" by (rule example_pid)
  then obtain m1 j where m: "newPage [\<lambda>m. m] small_bm = Some (Inr (m1, j))" "pt_wf m1" "table m1 = [mk_PID 1 5 \<mapsto> j]" "isLatched (bflatch (bfs m1 ! j))"
      "pageP (bfs m1 ! j) = Some 512"
    using newPage_ok [OF small_bm_wf(1), of "mk_PID 1 5" "[mk_PID 1 6]" 512 "[1024]" "[]"] small_bm_wf(2) by (auto simp: small_bm_def)
  then show ?thesis using removeFrame_correct [OF m(2) _ m(4) push_page_spec(1) [OF m(5) refl], of "mk_PID 1 5" "[]"]
    by (auto simp: removed_def)
qed

text \<open>a page allocated with \<open>newPage\<close> is latched, hot and possessed exclusively by this node; reclaiming it
  leaves the table and the free lists of pages and page ids as they were.\<close>

theorem newPage_reclaimPage:
  assumes wf: "pt_wf m" and fl: "frameFree m \<noteq> []" and ps: "pidFree m = p # ps" and pgs: "pageFree m = page # pgs"
    and p: "p \<noteq> EMPTY_PID" "table m p = None" "getOwner p = bmNode m"
  shows "\<exists>m1 j m2. newPage ((\<lambda>m. m) # envs) m = Some (Inr (m1, j)) \<and> table m1 = (table m)(p \<mapsto> j)
     \<and> state (bfs m1 ! j) = HOT \<and> suffices_X (bmNode m) (bfs m1 ! j) \<and> isLatched (bflatch (bfs m1 ! j)) \<and> pageP (bfs m1 ! j) = Some page
     \<and> reclaimPage ((\<lambda>m. m) # envs) j m1 = Some (Inr (m2, ()))
     \<and> pt_wf m2 \<and> table m2 = table m \<and> pageFree m2 = pageFree m \<and> pidFree m2 = pidFree m"
proof -
  obtain m1 j where c: "newPage ((\<lambda>m. m) # envs) m = Some (Inr (m1, j))" "pt_wf m1" "table m1 = (table m)(p \<mapsto> j)" "bmNode m1 = bmNode m"
     "pageFree m1 = pgs" "pidFree m1 = ps" "state (bfs m1 ! j) = HOT" "suffices_X (bmNode m) (bfs m1 ! j)"
     "isLatched (bflatch (bfs m1 ! j))" "pageP (bfs m1 ! j) = Some page" "pid (bfs m1 ! j) = p"
    using newPage_ok [OF wf fl ps pgs p(1,2), of envs] by blast
  obtain m2 where m2: "reclaimPage ((\<lambda>m. m) # envs) j m1 = Some (Inr (m2, ()))" "removed m1 p j (\<lambda>xs. page # xs) (\<lambda>xs. p # xs) m2"
    using removeFrame_ok [OF c(2) _ c(9) push_page_spec(2) [OF c(10,11)], of p envs] c(3,4,9,11) p(3) by (auto simp: reclaimPage_def)
  have "(table m)(p := None) = table m" using p(2) by auto
  then have "pt_wf m2" "table m2 = table m" "pageFree m2 = pageFree m" "pidFree m2 = pidFree m"
    using m2(2) c ps pgs by (auto simp: removed_def)
  then show ?thesis using c m2(1) by metis
qed

theorem newPage_reclaimPage_witness:
  "\<exists>m1 j m2. newPage [\<lambda>m. m] small_bm = Some (Inr (m1, j)) \<and> reclaimPage [\<lambda>m. m] j m1 = Some (Inr (m2, ()))
     \<and> table m2 = Map.empty \<and> pageFree m2 = [512, 1024] \<and> pidFree m2 = [mk_PID 1 5, mk_PID 1 6]"
  using newPage_reclaimPage [of small_bm "mk_PID 1 5" "[mk_PID 1 6]" 512 "[1024]" "[]"] small_bm_wf example_pid
  by (force simp: small_bm_def mk_PID_def getOwner_def PAGEID_BITS_NODEID_def)

end
