(* ===== verification/Containers.thy ===== *)
theory Containers
  imports Defs_PID
begin

text \<open>
  The containers under the free lists (utils/BatchQueue.hpp, storage/datastructures/RingBuffer.hpp): ring buffers with
  wrapping 64-bit counters and stacks over a fixed array.  \<open>container\<close> is their contract: a bounded multiset.  The ring
  buffer of the I/O buffers has no bound check and is a queue as long as its callers keep to its capacity.
\<close>

section \<open>SpinLock\<close>

text \<open>The flag; \<open>lock\<close> on a held lock waits.\<close>

definition spin_lock :: "bool \<Rightarrow> bool result" where
  "spin_lock l = (if l then Inl Blocked else Inr True)"

definition spin_try_lock :: "bool \<Rightarrow> bool \<times> bool" where
  "spin_try_lock l = (\<not> l, True)"

definition spin_unlock :: "bool \<Rightarrow> bool" where
  "spin_unlock l = False"

section \<open>The ring buffer and the stack of a batch\<close>

record 'a ring =
  rread :: u64
  rwrite :: u64
  rbuffer :: "'a list"

definition ring_mask :: "'a ring \<Rightarrow> u64 \<Rightarrow> nat" where
  "ring_mask r v = unat (v AND (of_nat (length (rbuffer r)) - 1))"

definition ring_get_size :: "'a ring \<Rightarrow> u64" where
  "ring_get_size r = rwrite r - rread r"

definition ring_empty :: "'a ring \<Rightarrow> bool" where
  "ring_empty r \<longleftrightarrow> rread r = rwrite r"

definition ring_full :: "'a ring \<Rightarrow> bool" where
  "ring_full r \<longleftrightarrow> ring_get_size r = of_nat (length (rbuffer r))"

definition ring_try_push :: "'a \<Rightarrow> 'a ring \<Rightarrow> bool \<times> 'a ring" where
  "ring_try_push e r =
     (if ring_full r then (False, r)
      else (True, r\<lparr>rbuffer := (rbuffer r)[ring_mask r (rwrite r) := e], rwrite := rwrite r + 1\<rparr>))"

definition ring_try_pop :: "'a ring \<Rightarrow> 'a option \<times> 'a ring" where
  "ring_try_pop r =
     (if ring_empty r then (None, r)
      else (Some (rbuffer r ! ring_mask r (rread r)), r\<lparr>rread := rread r + 1\<rparr>))"

definition ring_reset :: "'a ring \<Rightarrow> 'a ring" where
  "ring_reset r = r\<lparr>rread := 0, rwrite := 0\<rparr>"

record 'a stack =
  ssize :: u64
  sbuffer :: "'a list"

definition stack_empty :: "'a stack \<Rightarrow> bool" where
  "stack_empty s \<longleftrightarrow> ssize s = 0"

definition stack_full :: "'a stack \<Rightarrow> bool" where
  "stack_full s \<longleftrightarrow> ssize s = of_nat (length (sbuffer s))"

definition stack_try_push :: "'a \<Rightarrow> 'a stack \<Rightarrow> bool \<times> 'a stack" where
  "stack_try_push e s =
     (if stack_full s then (False, s) else (True, s\<lparr>sbuffer := (sbuffer s)[unat (ssize s) := e], ssize := ssize s + 1\<rparr>))"

definition stack_try_pop :: "'a stack \<Rightarrow> 'a option \<times> 'a stack" where
  "stack_try_pop s =
     (if stack_empty s then (None, s) else let n = ssize s - 1 in (Some (sbuffer s ! unat n), s\<lparr>ssize := n\<rparr>))"

definition stack_reset :: "'a stack \<Rightarrow> 'a stack" where
  "stack_reset s = s\<lparr>ssize := 0\<rparr>"

text \<open>The operations a batch uses of its container, and the two instances.\<close>

record ('a, 'c) cops =
  cpush :: "'a \<Rightarrow> 'c \<Rightarrow> bool \<times> 'c"
  cpop :: "'c \<Rightarrow> 'a option \<times> 'c"
  csize :: "'c \<Rightarrow> u64"
  creset :: "'c \<Rightarrow> 'c"
  cempty :: "'c \<Rightarrow> bool"

definition ring_ops :: "('a, 'a ring) cops" where
  "ring_ops = \<lparr>cpush = ring_try_push, cpop = ring_try_pop, csize = ring_get_size, creset = ring_reset, cempty = ring_empty\<rparr>"

definition stack_ops :: "('a, 'a stack) cops" where
  "stack_ops = \<lparr>cpush = stack_try_push, cpop = stack_try_pop, csize = ssize, creset = stack_reset, cempty = stack_empty\<rparr>"

section \<open>The ring buffer as a queue\<close>

definition ring_ok :: "'a ring \<Rightarrow> bool" where
  "ring_ok r \<longleftrightarrow> (\<exists>k<63. length (rbuffer r) = 2 ^ k) \<and> unat (rwrite r - rread r) \<le> length (rbuffer r)"

definition ring_items :: "'a ring \<Rightarrow> 'a list" where
  "ring_items r = map (\<lambda>i. rbuffer r ! ring_mask r (rread r + of_nat i)) [0..<unat (rwrite r - rread r)]"

lemma mask_pow2:
  assumes "k < 64"
  shows "unat (v AND (of_nat (2 ^ k) - 1 :: u64)) = unat v mod 2 ^ k"
proof -
  have "(of_nat (2 ^ k) - 1 :: u64) = mask k" using assms by (simp add: mask_eq_exp_minus_1)
  then have "unat (v AND (of_nat (2 ^ k) - 1 :: u64)) = take_bit k (unat v)" by (simp add: take_bit_eq_mask [symmetric] unsigned_take_bit_eq)
  then show ?thesis by (simp add: take_bit_eq_mod)
qed

lemma ring_mask_mod:
  assumes "ring_ok r"
  shows "ring_mask r v = unat v mod length (rbuffer r)"
proof -
  obtain k where "k < 63" "length (rbuffer r) = 2 ^ k" using assms by (auto simp: ring_ok_def)
  then show ?thesis using mask_pow2 [of k v] by (simp add: ring_mask_def)
qed

lemma mod_add_inj:
  fixes i j m v :: nat
  assumes "(v + i) mod m = (v + j) mod m" and "i < m" and "j < m"
  shows "i = j"
  using assms
proof (induction i j rule: linorder_wlog)
  case (le i j)
  then have "m dvd (v + j) - (v + i)" using mod_eq_dvd_iff_nat [of "v + i" "v + j" m] by simp
  then have "m dvd j - i" by simp
  then show ?case using le dvd_imp_le [of m "j - i"] by (cases "j - i = 0") auto
qed simp

lemma ring_mask_inj:
  assumes ok: "ring_ok r" and ij: "i < length (rbuffer r)" "j < length (rbuffer r)" and eq: "ring_mask r (v + of_nat i) = ring_mask r (v + of_nat j)"
  shows "i = j"
proof -
  obtain k where k: "k < 63" "length (rbuffer r) = 2 ^ k" using ok by (auto simp: ring_ok_def)
  have m: "unat (v + of_nat n) mod 2 ^ k = (unat v + n) mod 2 ^ k" for n :: nat
  proof -
    have "(2 :: nat) ^ k dvd 2 ^ 64" using k(1) le_imp_power_dvd [of k 64 "2 :: nat"] by simp
    then show ?thesis by (simp add: unat_word_ariths(1) unat_of_nat mod_mod_cancel mod_add_right_eq)
  qed
  have "(unat v + i) mod 2 ^ k = (unat v + j) mod 2 ^ k" using eq ring_mask_mod [OF ok] k(2) m by metis
  then show ?thesis using mod_add_inj ij k(2) by metis
qed

lemma ring_try_push_ok:
  assumes ok: "ring_ok r"
  shows "length (ring_items r) \<le> length (rbuffer r)"
    and "ring_full r \<longleftrightarrow> length (ring_items r) = length (rbuffer r)"
    and "\<not> ring_full r \<Longrightarrow> ring_ok (snd (ring_try_push e r)) \<and> ring_items (snd (ring_try_push e r)) = ring_items r @ [e]
           \<and> length (rbuffer (snd (ring_try_push e r))) = length (rbuffer r)"
proof -
  let ?n = "unat (rwrite r - rread r)" and ?L = "length (rbuffer r)"
  obtain k where k: "k < 63" "?L = 2 ^ k" using ok by (auto simp: ring_ok_def)
  have L: "?L < 2 ^ 63" using k power_strict_increasing [of k 63 "2 :: nat"] by simp
  have n: "?n \<le> ?L" using ok by (simp add: ring_ok_def)
  show "length (ring_items r) \<le> ?L" using n by (simp add: ring_items_def)
  have uL: "unat (of_nat ?L :: u64) = ?L" using L by (simp add: unat_of_nat)
  have fu: "ring_full r \<longleftrightarrow> ?n = ?L" unfolding ring_full_def ring_get_size_def using uL by (simp add: word_unat_eq_iff)
  then show "ring_full r \<longleftrightarrow> length (ring_items r) = ?L" by (simp add: ring_items_def)
  assume "\<not> ring_full r"
  then have lt: "?n < ?L" using fu n by simp
  let ?r = "snd (ring_try_push e r)"
  have r: "rbuffer ?r = (rbuffer r)[ring_mask r (rwrite r) := e]" "rread ?r = rread r" "rwrite ?r = rwrite r + 1"
    using \<open>\<not> ring_full r\<close> by (simp_all add: ring_try_push_def)
  have n1: "unat (rwrite ?r - rread ?r) = ?n + 1"
  proof -
    have "rwrite ?r - rread ?r = (rwrite r - rread r) + 1" by (simp add: r)
    then show ?thesis using lt L by (simp add: unat_word_ariths(1))
  qed
  have ok': "ring_ok ?r" using k n1 lt by (auto simp: ring_ok_def r)
  have mk: "ring_mask ?r v = ring_mask r v" for v by (simp add: ring_mask_def r)
  have w: "rwrite r = rread r + of_nat ?n" by simp
  have ml: "ring_mask r v < ?L" for v using ring_mask_mod [OF ok] k(2) by simp
  have "ring_items ?r = map (\<lambda>i. rbuffer ?r ! ring_mask r (rread r + of_nat i)) [0..<?n] @ [rbuffer ?r ! ring_mask r (rread r + of_nat ?n)]"
    by (simp add: ring_items_def n1 [unfolded r(2)] mk r(2))
  also have "rbuffer ?r ! ring_mask r (rread r + of_nat ?n) = e" using ml by (simp add: r(1))
  also have "map (\<lambda>i. rbuffer ?r ! ring_mask r (rread r + of_nat i)) [0..<?n] = ring_items r"
    unfolding ring_items_def
  proof (rule map_cong [OF refl])
    fix i assume "i \<in> set [0..<?n]"
    then have "i < ?n" by simp
    then have "ring_mask r (rread r + of_nat i) \<noteq> ring_mask r (rwrite r)"
      using ring_mask_inj [OF ok, of i ?n "rread r"] lt by (metis w less_trans nat_neq_iff)
    then show "rbuffer ?r ! ring_mask r (rread r + of_nat i) = rbuffer r ! ring_mask r (rread r + of_nat i)" by (simp add: r(1))
  qed
  finally show "ring_ok ?r \<and> ring_items ?r = ring_items r @ [e] \<and> length (rbuffer ?r) = ?L" using ok' by (simp add: r(1))
qed

lemma ring_try_pop_ok:
  assumes ok: "ring_ok r"
  shows "ring_empty r \<longleftrightarrow> ring_items r = []"
    and "ring_items r = x # xs \<Longrightarrow> fst (ring_try_pop r) = Some x \<and> ring_items (snd (ring_try_pop r)) = xs \<and> ring_ok (snd (ring_try_pop r))
           \<and> rbuffer (snd (ring_try_pop r)) = rbuffer r"
proof -
  let ?n = "unat (rwrite r - rread r)"
  have em: "ring_empty r \<longleftrightarrow> ?n = 0" by (auto simp: ring_empty_def unat_eq_0)
  then show "ring_empty r \<longleftrightarrow> ring_items r = []" by (auto simp: ring_items_def)
  assume it: "ring_items r = x # xs"
  then have n: "0 < ?n" by (auto simp: ring_items_def intro!: gr0I)
  let ?r = "r\<lparr>rread := rread r + 1\<rparr>"
  have p: "ring_try_pop r = (Some (rbuffer r ! ring_mask r (rread r)), ?r)" using em n by (simp add: ring_try_pop_def)
  have n1: "unat (rwrite ?r - rread ?r) = ?n - 1"
  proof -
    have "rwrite ?r - rread ?r = (rwrite r - rread r) - 1" by (simp add: diff_diff_add)
    moreover have "unat ((rwrite r - rread r) - 1) = ?n - 1" using n by (metis One_nat_def Suc_leI unat_1 unat_sub word_le_nat_alt)
    ultimately show ?thesis by presburger
  qed
  have "[0..<?n] = 0 # map Suc [0..<?n - 1]" using n by (metis map_Suc_upt One_nat_def Suc_pred' upt_conv_Cons)
  then have "ring_items r = rbuffer r ! ring_mask r (rread r) # map (\<lambda>i. rbuffer r ! ring_mask r (rread r + of_nat (Suc i))) [0..<?n - 1]"
    by (simp add: ring_items_def)
  also have "map (\<lambda>i. rbuffer r ! ring_mask r (rread r + of_nat (Suc i))) [0..<?n - 1] = ring_items ?r"
    using n1 by (simp add: ring_items_def ring_mask_def algebra_simps)
  finally have "x = rbuffer r ! ring_mask r (rread r)" "xs = ring_items ?r" using it by simp_all
  moreover have "ring_ok ?r" using ok n1 by (auto simp: ring_ok_def)
  ultimately show "fst (ring_try_pop r) = Some x \<and> ring_items (snd (ring_try_pop r)) = xs \<and> ring_ok (snd (ring_try_pop r)) \<and> rbuffer (snd (ring_try_pop r)) = rbuffer r"
    using p by simp
qed

section \<open>The stack\<close>

definition stack_ok :: "'a stack \<Rightarrow> bool" where
  "stack_ok s \<longleftrightarrow> unat (ssize s) \<le> length (sbuffer s) \<and> length (sbuffer s) < 2 ^ 63"

definition stack_items :: "'a stack \<Rightarrow> 'a list" where
  "stack_items s = take (unat (ssize s)) (sbuffer s)"

lemma stack_full_iff: "stack_ok s \<Longrightarrow> stack_full s \<longleftrightarrow> length (stack_items s) = length (sbuffer s)"
  by (auto simp: stack_ok_def stack_full_def stack_items_def word_unat_eq_iff unat_of_nat)

lemma stack_try_push_ok:
  assumes ok: "stack_ok s" and nf: "\<not> stack_full s"
  shows "stack_ok (snd (stack_try_push e s)) \<and> stack_items (snd (stack_try_push e s)) = stack_items s @ [e]
     \<and> length (sbuffer (snd (stack_try_push e s))) = length (sbuffer s)"
proof -
  let ?n = "unat (ssize s)"
  have n: "?n < length (sbuffer s)" "length (sbuffer s) < 2 ^ 63" using ok nf stack_full_iff [OF ok] by (auto simp: stack_ok_def stack_items_def)
  then have u: "unat (ssize s + 1) = ?n + 1" by (simp add: unat_word_ariths(1))
  then show ?thesis using nf n by (simp add: stack_try_push_def stack_ok_def stack_items_def take_Suc_conv_app_nth)
qed

lemma stack_try_pop_ok:
  assumes ok: "stack_ok s" and it: "stack_items s = xs @ [x]"
  shows "fst (stack_try_pop s) = Some x \<and> stack_items (snd (stack_try_pop s)) = xs \<and> stack_ok (snd (stack_try_pop s))
     \<and> sbuffer (snd (stack_try_pop s)) = sbuffer s"
proof -
  let ?n = "unat (ssize s)"
  have n: "0 < ?n" "?n \<le> length (sbuffer s)" using ok it by (auto simp: stack_ok_def stack_items_def intro!: gr0I)
  then have ne: "ssize s \<noteq> 0" by auto
  have u: "unat (ssize s - 1) = ?n - 1" using n(1) by (metis One_nat_def Suc_leI unat_1 unat_sub word_le_nat_alt)
  have "take ?n (sbuffer s) = take (?n - 1) (sbuffer s) @ [sbuffer s ! (?n - 1)]"
    using n by (metis One_nat_def Suc_pred' diff_Suc_less less_le_trans take_Suc_conv_app_nth)
  then have "x = sbuffer s ! (?n - 1)" "xs = take (?n - 1) (sbuffer s)" using it by (simp_all add: stack_items_def)
  then show ?thesis using ne u ok by (auto simp: stack_try_pop_def stack_empty_def stack_items_def stack_ok_def Let_def)
qed

section \<open>The contract\<close>

locale container =
  fixes ops :: "('a, 'c) cops" and ok :: "'c \<Rightarrow> bool" and items :: "'c \<Rightarrow> 'a multiset" and cap :: "'c \<Rightarrow> nat"
  assumes push_full: "ok c \<Longrightarrow> size (items c) = cap c \<Longrightarrow> cpush ops e c = (False, c)"
    and push_room: "ok c \<Longrightarrow> size (items c) \<noteq> cap c \<Longrightarrow> \<exists>c'. cpush ops e c = (True, c') \<and> ok c' \<and> items c' = add_mset e (items c) \<and> cap c' = cap c"
    and pop_empty: "ok c \<Longrightarrow> items c = {#} \<Longrightarrow> cpop ops c = (None, c)"
    and pop_some: "ok c \<Longrightarrow> items c \<noteq> {#} \<Longrightarrow> \<exists>e c'. cpop ops c = (Some e, c') \<and> ok c' \<and> items c = add_mset e (items c') \<and> cap c' = cap c"
    and size_items: "ok c \<Longrightarrow> csize ops c = of_nat (size (items c))"
    and empty_items: "ok c \<Longrightarrow> cempty ops c \<longleftrightarrow> items c = {#}"
    and reset_items: "ok c \<Longrightarrow> ok (creset ops c) \<and> items (creset ops c) = {#} \<and> cap (creset ops c) = cap c"
    and bounded: "ok c \<Longrightarrow> size (items c) \<le> cap c"
    and cap_pos: "ok c \<Longrightarrow> 0 < cap c"

interpretation ringc: container ring_ops ring_ok "\<lambda>r. mset (ring_items r)" "\<lambda>r. length (rbuffer r)"
proof (unfold_locales, goal_cases)
  case (1 c e)
  then show ?case using ring_try_push_ok(2) [OF 1(1)] by (simp add: ring_ops_def ring_try_push_def)
next
  case (2 c e)
  then have "\<not> ring_full c" using ring_try_push_ok(2) [OF 2(1)] by simp
  then show ?case using ring_try_push_ok(3) [OF 2(1), of e] by (simp add: ring_ops_def ring_try_push_def)
next
  case (3 c)
  then show ?case using ring_try_pop_ok(1) [OF 3(1)] by (simp add: ring_ops_def ring_try_pop_def)
next
  case (4 c)
  then obtain x xs where it: "ring_items c = x # xs" by (cases "ring_items c") auto
  then show ?case using ring_try_pop_ok(2) [OF 4(1) it] by (cases "ring_try_pop c") (auto simp: ring_ops_def)
next
  case (5 c)
  then show ?case by (simp add: ring_ops_def ring_get_size_def ring_items_def)
next
  case (6 c)
  then show ?case using ring_try_pop_ok(1) [OF 6] by (simp add: ring_ops_def)
next
  case (7 c)
  then show ?case by (auto simp: ring_ops_def ring_reset_def ring_ok_def ring_items_def)
next
  case (8 c)
  then show ?case using ring_try_push_ok(1) [OF 8] by simp
next
  case (9 c)
  then show ?case by (auto simp: ring_ok_def)
qed

interpretation stackc: container stack_ops "\<lambda>s. stack_ok s \<and> 0 < length (sbuffer s)" "\<lambda>s. mset (stack_items s)" "\<lambda>s. length (sbuffer s)"
proof (unfold_locales, goal_cases)
  case (1 c e)
  then show ?case using stack_full_iff [of c] by (simp add: stack_ops_def stack_try_push_def)
next
  case (2 c e)
  then have "\<not> stack_full c" using stack_full_iff [of c] by simp
  then show ?case using stack_try_push_ok [of c e] 2 by (cases "stack_try_push e c") (simp add: stack_ops_def stack_try_push_def)
next
  case (3 c)
  then show ?case by (auto simp: stack_ops_def stack_try_pop_def stack_empty_def stack_items_def unat_eq_0)
next
  case (4 c)
  then obtain xs x where it: "stack_items c = xs @ [x]" by (cases "stack_items c" rule: rev_cases) auto
  then show ?case using stack_try_pop_ok [of c xs x] 4 by (cases "stack_try_pop c") (auto simp: stack_ops_def)
next
  case (5 c)
  then show ?case by (simp add: stack_ops_def stack_items_def stack_ok_def min_absorb2)
next
  case (6 c)
  then show ?case by (auto simp: stack_ops_def stack_empty_def stack_items_def unat_eq_0)
next
  case (7 c)
  then show ?case by (auto simp: stack_ops_def stack_reset_def stack_ok_def stack_items_def)
next
  case (8 c)
  then show ?case by (auto simp: stack_items_def stack_ok_def)
qed simp_all

end
