(* ===== verification/BatchQueue.thy ===== *)
theory BatchQueue
  imports Containers
begin

text \<open>
  \<open>BatchQueue\<close> (utils/BatchQueue.hpp): two singly linked lists, one of batches with elements and one of empty
  batches, under one spin lock, over an array of batches.  A batch is named by its index in the array; its container is
  whatever keeps the contract of Containers.  \<open>PartitionedQueue\<close> (storage/buffermanager/PartitionedQueue.hpp) spreads
  elements over several such queues; a thread keeps one batch at hand.
\<close>

section \<open>BatchQueue\<close>

record 'c bqueue =
  elements :: u64
  bcont :: "'c list"
  bnext :: "nat option list"
  qlatch :: bool
  fullHead :: "nat option"
  fullSize :: u64
  emptyHead :: "nat option"
  emptySize :: u64

definition increment_elements :: "u64 \<Rightarrow> 'c bqueue \<Rightarrow> 'c bqueue" where
  "increment_elements n q = q\<lparr>elements := elements q + n\<rparr>"

definition decrement_elements :: "u64 \<Rightarrow> 'c bqueue \<Rightarrow> 'c bqueue" where
  "decrement_elements n q = q\<lparr>elements := elements q - n\<rparr>"

text \<open>The bodies of the critical sections.\<close>

definition link_full :: "('a, 'c) cops \<Rightarrow> nat \<Rightarrow> 'c bqueue \<Rightarrow> 'c bqueue" where
  "link_full ops b q =
     (let q = q\<lparr>bnext := (bnext q)[b := fullHead q]\<rparr>; q = increment_elements (csize ops (bcont q ! b)) q
      in q\<lparr>fullHead := Some b, fullSize := fullSize q + 1\<rparr>)"

definition link_empty :: "nat \<Rightarrow> 'c bqueue \<Rightarrow> 'c bqueue" where
  "link_empty b q =
     (let q = q\<lparr>bnext := (bnext q)[b := emptyHead q]\<rparr> in q\<lparr>emptyHead := Some b, emptySize := emptySize q + 1\<rparr>)"

definition unlink_empty :: "'c bqueue \<Rightarrow> (nat \<times> 'c bqueue) option" where
  "unlink_empty q =
     (case emptyHead q of
        None \<Rightarrow> None
      | Some b \<Rightarrow> Some (b, q\<lparr>emptyHead := bnext q ! b, emptySize := emptySize q - 1\<rparr>))"

definition unlink_full :: "('a, 'c) cops \<Rightarrow> 'c bqueue \<Rightarrow> (nat \<times> 'c bqueue) option" where
  "unlink_full ops q =
     (case fullHead q of
        None \<Rightarrow> None
      | Some b \<Rightarrow> let q = q\<lparr>fullHead := bnext q ! b\<rparr>; q = decrement_elements (csize ops (bcont q ! b)) q
                  in Some (b, q\<lparr>fullSize := fullSize q - 1\<rparr>))"

text \<open>The operations.  \<open>lock\<close> on a held lock waits, \<open>try_lock\<close> gives up.\<close>

definition try_push_full :: "('a, 'c) cops \<Rightarrow> nat \<Rightarrow> 'c bqueue \<Rightarrow> 'c bqueue result" where
  "try_push_full ops b q =
     bind_r (spin_lock (qlatch q)) (\<lambda>l. let q = link_full ops b (q\<lparr>qlatch := l\<rparr>) in Inr (q\<lparr>qlatch := spin_unlock (qlatch q)\<rparr>))"

definition try_push_empty :: "nat \<Rightarrow> 'c bqueue \<Rightarrow> 'c bqueue result" where
  "try_push_empty b q =
     bind_r (spin_lock (qlatch q)) (\<lambda>l. let q = link_empty b (q\<lparr>qlatch := l\<rparr>) in Inr (q\<lparr>qlatch := spin_unlock (qlatch q)\<rparr>))"

definition try_pop_empty :: "'c bqueue \<Rightarrow> (nat option \<times> 'c bqueue) result" where
  "try_pop_empty q =
     bind_r (spin_lock (qlatch q)) (\<lambda>l. let q = q\<lparr>qlatch := l\<rparr> in
       case unlink_empty q of
         None \<Rightarrow> Inr (None, q\<lparr>qlatch := spin_unlock (qlatch q)\<rparr>)
       | Some (b, q) \<Rightarrow> Inr (Some b, q\<lparr>qlatch := spin_unlock (qlatch q)\<rparr>))"

definition try_pop_full :: "('a, 'c) cops \<Rightarrow> 'c bqueue \<Rightarrow> nat option \<times> 'c bqueue" where
  "try_pop_full ops q =
     (if elements q = 0 then (None, q)
      else let (success, l) = spin_try_lock (qlatch q); q = q\<lparr>qlatch := l\<rparr>
           in if \<not> success then (None, q)
              else case unlink_full ops q of
                     None \<Rightarrow> (None, q\<lparr>qlatch := spin_unlock (qlatch q)\<rparr>)
                   | Some (b, q) \<Rightarrow> (Some b, q\<lparr>qlatch := spin_unlock (qlatch q)\<rparr>))"

definition push_full_and_try_pop_empty :: "('a, 'c) cops \<Rightarrow> nat \<Rightarrow> 'c bqueue \<Rightarrow> (nat option \<times> 'c bqueue) result" where
  "push_full_and_try_pop_empty ops b q =
     bind_r (spin_lock (qlatch q)) (\<lambda>l. let q = q\<lparr>qlatch := l\<rparr> in
       if emptyHead q = None then Inr (None, q\<lparr>qlatch := spin_unlock (qlatch q)\<rparr>)
       else case unlink_empty (link_full ops b q) of
              None \<Rightarrow> Inr (None, q\<lparr>qlatch := spin_unlock (qlatch q)\<rparr>)
            | Some (c, q) \<Rightarrow> Inr (Some c, q\<lparr>qlatch := spin_unlock (qlatch q)\<rparr>))"

definition push_empty_and_try_pop_full :: "('a, 'c) cops \<Rightarrow> nat \<Rightarrow> 'c bqueue \<Rightarrow> nat option \<times> 'c bqueue" where
  "push_empty_and_try_pop_full ops b q =
     (if elements q = 0 then (None, q)
      else let (success, l) = spin_try_lock (qlatch q); q = q\<lparr>qlatch := l\<rparr>
           in if \<not> success then (None, q)
              else if fullHead q = None then (None, q\<lparr>qlatch := spin_unlock (qlatch q)\<rparr>)
              else case unlink_full ops (link_empty b q) of
                     None \<Rightarrow> (None, q\<lparr>qlatch := spin_unlock (qlatch q)\<rparr>)
                   | Some (c, q) \<Rightarrow> (Some c, q\<lparr>qlatch := spin_unlock (qlatch q)\<rparr>))"

text \<open>The constructor pushes every batch of the fresh array to the empty list.\<close>

fun push_all_empty :: "nat list \<Rightarrow> 'c bqueue \<Rightarrow> 'c bqueue result" where
  "push_all_empty [] q = Inr q"
| "push_all_empty (b # bs) q = bind_r (try_push_empty b q) (push_all_empty bs)"

definition new_BatchQueue :: "'c \<Rightarrow> nat \<Rightarrow> 'c bqueue result" where
  "new_BatchQueue c n = push_all_empty [0..<n] \<lparr>elements = 0, bcont = replicate n c, bnext = replicate n None, qlatch = False,
     fullHead = None, fullSize = 0, emptyHead = None, emptySize = 0\<rparr>"

text \<open>\<open>reset\<close>: the loop takes at most as many batches as there are.\<close>

fun reset_loop :: "('a, 'c) cops \<Rightarrow> nat \<Rightarrow> 'c bqueue \<Rightarrow> 'c bqueue result option" where
  "reset_loop ops 0 q = None"
| "reset_loop ops (Suc n) q =
     (case try_pop_full ops q of
        (None, q) \<Rightarrow> Some (Inr q)
      | (Some b, q) \<Rightarrow>
          (case try_push_empty b (q\<lparr>bcont := (bcont q)[b := creset ops (bcont q ! b)]\<rparr>) of
             Inl e \<Rightarrow> Some (Inl e)
           | Inr q \<Rightarrow> reset_loop ops n q))"

definition bq_reset :: "('a, 'c) cops \<Rightarrow> 'c bqueue \<Rightarrow> 'c bqueue result option" where
  "bq_reset ops q = (if fullSize q = 0 then Some (Inr q) else reset_loop ops (Suc (length (bcont q))) q)"

definition approx_size :: "'c bqueue \<Rightarrow> u64" where
  "approx_size q = elements q"

definition assert_no_leaks :: "'c bqueue \<Rightarrow> unit result" where
  "assert_no_leaks q =
     (if emptySize q + fullSize q \<noteq> of_nat (length (bcont q)) then Inl (Runtime_error ''Leaks detected'') else Inr ())"

section \<open>PartitionedQueue\<close>

text \<open>A handle is null or names a batch of a queue.  The random queue numbers are arguments.\<close>

type_synonym handle = "(nat \<times> nat) option"

record 'c pqueue =
  queues :: "'c bqueue list"

definition upd_queue :: "nat \<Rightarrow> 'c bqueue \<Rightarrow> 'c pqueue \<Rightarrow> 'c pqueue" where
  "upd_queue k q p = p\<lparr>queues := (queues p)[k := q]\<rparr>"

definition pq_pop_empty :: "nat \<Rightarrow> 'c pqueue \<Rightarrow> (nat option \<times> 'c pqueue) result" where
  "pq_pop_empty k p = bind_r (try_pop_empty (queues p ! k)) (\<lambda>(b, q). Inr (b, upd_queue k q p))"

definition pq_pop_full :: "('a, 'c) cops \<Rightarrow> nat \<Rightarrow> 'c pqueue \<Rightarrow> nat option \<times> 'c pqueue" where
  "pq_pop_full ops k p = (let (b, q) = try_pop_full ops (queues p ! k) in (b, upd_queue k q p))"

text \<open>\<open>container.try_push\<close> and \<open>container.try_pop\<close> on the batch of a handle.\<close>

definition batch_push :: "('a, 'c) cops \<Rightarrow> 'a \<Rightarrow> nat \<times> nat \<Rightarrow> 'c pqueue \<Rightarrow> bool \<times> 'c pqueue" where
  "batch_push ops e kb p =
     (let q = queues p ! fst kb; (success, c) = cpush ops e (bcont q ! snd kb)
      in (success, upd_queue (fst kb) (q\<lparr>bcont := (bcont q)[snd kb := c]\<rparr>) p))"

definition batch_pop :: "('a, 'c) cops \<Rightarrow> nat \<times> nat \<Rightarrow> 'c pqueue \<Rightarrow> 'a option \<times> 'c pqueue" where
  "batch_pop ops kb p =
     (let q = queues p ! fst kb; (e, c) = cpop ops (bcont q ! snd kb)
      in (e, upd_queue (fst kb) (q\<lparr>bcont := (bcont q)[snd kb := c]\<rparr>) p))"

text \<open>The loops over all queues.\<close>

fun any_empty :: "nat list \<Rightarrow> 'c pqueue \<Rightarrow> (handle \<times> 'c pqueue) result" where
  "any_empty [] p = Inr (None, p)"
| "any_empty (k # ks) p =
     bind_r (pq_pop_empty k p) (\<lambda>(b, p). case b of None \<Rightarrow> any_empty ks p | Some b \<Rightarrow> Inr (Some (k, b), p))"

fun any_full :: "('a, 'c) cops \<Rightarrow> nat list \<Rightarrow> 'c pqueue \<Rightarrow> handle \<times> 'c pqueue" where
  "any_full ops [] p = (None, p)"
| "any_full ops (k # ks) p =
     (case pq_pop_full ops k p of (None, p) \<Rightarrow> any_full ops ks p | (Some b, p) \<Rightarrow> (Some (k, b), p))"

text \<open>\<open>try_push\<close>; \<open>r1\<close> and \<open>r2\<close> are the random queues of its two draws.\<close>

definition push_with :: "('a, 'c) cops \<Rightarrow> 'a \<Rightarrow> nat \<times> nat \<Rightarrow> 'c pqueue \<Rightarrow> bool \<times> handle \<times> 'c pqueue" where
  "push_with ops e kb p = (let (success, p) = batch_push ops e kb p in (success, Some kb, p))"

definition try_push :: "('a, 'c) cops \<Rightarrow> nat \<Rightarrow> nat \<Rightarrow> 'a \<Rightarrow> handle \<Rightarrow> 'c pqueue \<Rightarrow> (bool \<times> handle \<times> 'c pqueue) result" where
  "try_push ops r1 r2 e h p =
     bind_r (case h of
               Some kb \<Rightarrow> Inr (h, p)
             | None \<Rightarrow> bind_r (pq_pop_empty r1 p) (\<lambda>(b, p). Inr (map_option (\<lambda>b. (r1, b)) b, p))) (\<lambda>(h, p).
     case h of
       None \<Rightarrow> Inr (False, None, p)
     | Some kb \<Rightarrow>
         (case batch_push ops e kb p of
            (True, p) \<Rightarrow> Inr (True, h, p)
          | (False, p) \<Rightarrow>
              bind_r (try_push_full ops (snd kb) (queues p ! fst kb)) (\<lambda>q.
              bind_r (pq_pop_empty r2 (upd_queue (fst kb) q p)) (\<lambda>(b, p).
              case b of
                Some b \<Rightarrow> Inr (push_with ops e (r2, b) p)
              | None \<Rightarrow> bind_r (any_empty [0..<length (queues p)] p) (\<lambda>(h, p).
                  case h of None \<Rightarrow> Inr (False, None, p) | Some kb \<Rightarrow> Inr (push_with ops e kb p))))))"

definition pop_with :: "('a, 'c) cops \<Rightarrow> nat \<times> nat \<Rightarrow> 'c pqueue \<Rightarrow> 'a option \<times> handle \<times> 'c pqueue" where
  "pop_with ops kb p = (let (e, p) = batch_pop ops kb p in (e, Some kb, p))"

definition try_pop :: "('a, 'c) cops \<Rightarrow> nat \<Rightarrow> nat \<Rightarrow> handle \<Rightarrow> 'c pqueue \<Rightarrow> ('a option \<times> handle \<times> 'c pqueue) result" where
  "try_pop ops r1 r2 h p =
     (let (h, p) = (case h of
               Some kb \<Rightarrow> (h, p)
             | None \<Rightarrow> let (b, p) = pq_pop_full ops r1 p in (map_option (\<lambda>b. (r1, b)) b, p))
      in case h of
           None \<Rightarrow> Inr (None, None, p)
         | Some kb \<Rightarrow>
             (case batch_pop ops kb p of
                (Some e, p) \<Rightarrow> Inr (Some e, h, p)
              | (None, p) \<Rightarrow>
                  bind_r (try_push_empty (snd kb) (queues p ! fst kb)) (\<lambda>q.
                  let p = upd_queue (fst kb) q p
                  in case pq_pop_full ops r2 p of
                       (Some b, p) \<Rightarrow> Inr (pop_with ops (r2, b) p)
                     | (None, p) \<Rightarrow>
                         (case any_full ops [0..<length (queues p)] p of
                            (None, p) \<Rightarrow> Inr (None, None, p)
                          | (Some kb, p) \<Rightarrow> Inr (pop_with ops kb p)))))"

text \<open>\<open>push\<close> and \<open>pop\<close> try until they succeed, each time with other random queues and after what other threads did.\<close>

fun pq_push :: "('a, 'c) cops \<Rightarrow> (nat \<times> nat \<times> ('c pqueue \<Rightarrow> 'c pqueue)) list \<Rightarrow> 'a \<Rightarrow> handle \<Rightarrow> 'c pqueue \<Rightarrow> (handle \<times> 'c pqueue) result option" where
  "pq_push ops [] e h p = None"
| "pq_push ops ((r1, r2, env) # rs) e h p =
     (case try_push ops r1 r2 e h (env p) of
        Inl err \<Rightarrow> Some (Inl err)
      | Inr (True, h, p) \<Rightarrow> Some (Inr (h, p))
      | Inr (False, h, p) \<Rightarrow> pq_push ops rs e h p)"

fun pq_pop :: "('a, 'c) cops \<Rightarrow> (nat \<times> nat \<times> ('c pqueue \<Rightarrow> 'c pqueue)) list \<Rightarrow> handle \<Rightarrow> 'c pqueue \<Rightarrow> ('a \<times> handle \<times> 'c pqueue) result option" where
  "pq_pop ops [] h p = None"
| "pq_pop ops ((r1, r2, env) # rs) h p =
     (case try_pop ops r1 r2 h (env p) of
        Inl err \<Rightarrow> Some (Inl err)
      | Inr (Some e, h, p) \<Rightarrow> Some (Inr (e, h, p))
      | Inr (None, h, p) \<Rightarrow> pq_pop ops rs h p)"

text \<open>The destructor of a handle gives its batch back.\<close>

definition release_handle :: "('a, 'c) cops \<Rightarrow> handle \<Rightarrow> 'c pqueue \<Rightarrow> 'c pqueue result" where
  "release_handle ops h p =
     (case h of
        None \<Rightarrow> Inr p
      | Some (k, b) \<Rightarrow>
          bind_r (if cempty ops (bcont (queues p ! k) ! b) then try_push_empty b (queues p ! k) else try_push_full ops b (queues p ! k)) (\<lambda>q.
          Inr (upd_queue k q p)))"

fun new_queues :: "'c \<Rightarrow> nat \<Rightarrow> nat \<Rightarrow> 'c bqueue list result" where
  "new_queues c n 0 = Inr []"
| "new_queues c n (Suc m) = bind_r (new_BatchQueue c n) (\<lambda>q. bind_r (new_queues c n m) (\<lambda>qs. Inr (q # qs)))"

definition new_PartitionedQueue :: "'c \<Rightarrow> nat \<Rightarrow> nat \<Rightarrow> 'c pqueue result" where
  "new_PartitionedQueue c n partitions = bind_r (new_queues c n partitions) (\<lambda>qs. Inr \<lparr>queues = qs\<rparr>)"

definition pq_approx_size :: "'c pqueue \<Rightarrow> u64" where
  "pq_approx_size p = sum_list (map approx_size (queues p))"

end
