(* ===== verification/BatchQueue_Proof.thy ===== *)
theory BatchQueue_Proof
  imports BatchQueue
begin

text \<open>
  No element is lost or duplicated by the partitioned queues, and no batch leaks: the invariant keeps, for every
  queue, its two lists and the batches threads have at hand apart and together complete.
\<close>

section \<open>Lists of batches\<close>

fun bpath :: "nat option list \<Rightarrow> nat option \<Rightarrow> nat list \<Rightarrow> bool" where
  "bpath nx None xs \<longleftrightarrow> xs = []"
| "bpath nx (Some b) xs \<longleftrightarrow> (case xs of [] \<Rightarrow> False | x # ys \<Rightarrow> x = b \<and> b < length nx \<and> bpath nx (nx ! b) ys)"

lemma bpath_Nil [simp]: "bpath nx s [] \<longleftrightarrow> s = None"
  by (cases s) auto

lemma bpath_Cons [simp]: "bpath nx s (x # xs) \<longleftrightarrow> s = Some x \<and> x < length nx \<and> bpath nx (nx ! x) xs"
  by (cases s) auto

lemma bpath_update [simp]: "b \<notin> set xs \<Longrightarrow> bpath (nx[b := v]) s xs = bpath nx s xs"
proof (induction xs arbitrary: s)
  case (Cons x xs)
  then show ?case by (cases s) auto
qed simp

lemma bpath_head: "bpath nx s xs \<Longrightarrow> s = (case xs of [] \<Rightarrow> None | x # _ \<Rightarrow> Some x)"
  by (cases xs) auto

section \<open>One queue\<close>

context container
begin

definition all_items :: "'c bqueue \<Rightarrow> 'a multiset" where
  "all_items q = sum_list (map items (bcont q))"

definition bq :: "'c bqueue \<Rightarrow> nat list \<Rightarrow> nat list \<Rightarrow> nat set \<Rightarrow> bool" where
  "bq q fs es H \<longleftrightarrow>
     length (bnext q) = length (bcont q) \<and> bpath (bnext q) (fullHead q) fs \<and> bpath (bnext q) (emptyHead q) es
     \<and> distinct (fs @ es) \<and> (set fs \<union> set es) \<inter> H = {} \<and> set fs \<union> set es \<union> H = {0..<length (bcont q)}
     \<and> (\<forall>b < length (bcont q). ok (bcont q ! b)) \<and> (\<forall>b\<in>set es. items (bcont q ! b) = {#})
     \<and> elements q = of_nat (\<Sum>b\<leftarrow>fs. size (items (bcont q ! b))) \<and> fullSize q = of_nat (length fs) \<and> emptySize q = of_nat (length es)
     \<and> \<not> qlatch q"

lemma bqD:
  assumes "bq q fs es H"
  shows "b \<in> H \<Longrightarrow> b < length (bcont q) \<and> b \<notin> set fs \<and> b \<notin> set es" "b \<in> set fs \<Longrightarrow> b < length (bcont q) \<and> b \<notin> H" "b \<in> set es \<Longrightarrow> b < length (bcont q) \<and> b \<notin> H"
    "b < length (bcont q) \<Longrightarrow> ok (bcont q ! b)" "\<not> qlatch q" "length (bnext q) = length (bcont q)"
proof -
  have *: "(set fs \<union> set es) \<inter> H = {}" "set fs \<union> set es \<union> H = {0..<length (bcont q)}" "\<forall>b < length (bcont q). ok (bcont q ! b)"
    using assms unfolding bq_def by blast+
  show "b \<in> H \<Longrightarrow> b < length (bcont q) \<and> b \<notin> set fs \<and> b \<notin> set es" using *(1,2) by (metis IntI UnCI atLeastLessThan_iff empty_iff)
  show "b \<in> set fs \<Longrightarrow> b < length (bcont q) \<and> b \<notin> H" "b \<in> set es \<Longrightarrow> b < length (bcont q) \<and> b \<notin> H"
    using *(1,2) by (metis IntI UnCI atLeastLessThan_iff empty_iff)+
  show "b < length (bcont q) \<Longrightarrow> ok (bcont q ! b)" using *(3) by blast
  show "\<not> qlatch q" "length (bnext q) = length (bcont q)" using assms unfolding bq_def by blast+
qed

lemma insert_minus: "b \<in> H \<Longrightarrow> A \<union> B \<union> H = C \<Longrightarrow> insert b A \<union> B \<union> (H - {b}) = C" "b \<in> H \<Longrightarrow> A \<union> B \<union> H = C \<Longrightarrow> A \<union> insert b B \<union> (H - {b}) = C"
  by auto

lemma link_full_ok:
  assumes q: "bq q fs es H" and b: "b \<in> H"
  shows "bq (link_full ops b q) (b # fs) es (H - {b})" and "bcont (link_full ops b q) = bcont q"
proof -
  note d = bqD [OF q]
  have s: "csize ops (bcont q ! b) = of_nat (size (items (bcont q ! b)))" using size_items d(1) [OF b] d(4) by blast
  have U: "set (b # fs) \<union> set es \<union> (H - {b}) = {0..<length (bcont q)}" using insert_minus(1) [OF b] q by (auto simp: bq_def)
  show "bcont (link_full ops b q) = bcont q" by (simp add: link_full_def increment_elements_def Let_def)
  then show "bq (link_full ops b q) (b # fs) es (H - {b})"
    using q d(1) [OF b] s U unfolding bq_def by (auto simp: link_full_def increment_elements_def Let_def)
qed

lemma link_empty_ok:
  assumes q: "bq q fs es H" and b: "b \<in> H" and e: "items (bcont q ! b) = {#}"
  shows "bq (link_empty b q) fs (b # es) (H - {b})" and "bcont (link_empty b q) = bcont q"
proof -
  note d = bqD [OF q]
  have U: "set fs \<union> set (b # es) \<union> (H - {b}) = {0..<length (bcont q)}" using insert_minus(2) [OF b] q by (auto simp: bq_def)
  show "bcont (link_empty b q) = bcont q" by (simp add: link_empty_def Let_def)
  then show "bq (link_empty b q) fs (b # es) (H - {b})"
    using q d(1) [OF b] e U unfolding bq_def by (auto simp: link_empty_def Let_def)
qed

lemma unlink_empty_ok:
  assumes q: "bq q fs es H"
  shows "es = [] \<Longrightarrow> unlink_empty q = None"
    and "es = b # bs \<Longrightarrow> \<exists>q'. unlink_empty q = Some (b, q') \<and> bq q' fs bs (insert b H) \<and> bcont q' = bcont q"
proof -
  show "es = [] \<Longrightarrow> unlink_empty q = None" using q by (simp add: bq_def unlink_empty_def)
  assume e: "es = b # bs"
  have "set fs \<union> set bs \<union> insert b H = {0..<length (bcont q)}" using q e by (auto simp: bq_def)
  then show "\<exists>q'. unlink_empty q = Some (b, q') \<and> bq q' fs bs (insert b H) \<and> bcont q' = bcont q"
    using q e unfolding bq_def by (auto simp: unlink_empty_def)
qed

lemma unlink_full_ok:
  assumes q: "bq q fs es H"
  shows "fs = [] \<Longrightarrow> unlink_full ops q = None"
    and "fs = b # bs \<Longrightarrow> \<exists>q'. unlink_full ops q = Some (b, q') \<and> bq q' bs es (insert b H) \<and> bcont q' = bcont q"
proof -
  show "fs = [] \<Longrightarrow> unlink_full ops q = None" using q by (simp add: bq_def unlink_full_def)
  assume e: "fs = b # bs"
  have "csize ops (bcont q ! b) = of_nat (size (items (bcont q ! b)))" using size_items bqD(2,4) [OF q, of b] e by simp
  moreover have "set bs \<union> set es \<union> insert b H = {0..<length (bcont q)}" using q e by (auto simp: bq_def)
  ultimately show "\<exists>q'. unlink_full ops q = Some (b, q') \<and> bq q' bs es (insert b H) \<and> bcont q' = bcont q"
    using q e unfolding bq_def by (auto simp: unlink_full_def decrement_elements_def Let_def)
qed

lemma under_latch:
  assumes "\<not> qlatch q"
  shows "(link_full ops b (q\<lparr>qlatch := l\<rparr>))\<lparr>qlatch := False\<rparr> = link_full ops b q" "(link_empty b (q\<lparr>qlatch := l\<rparr>))\<lparr>qlatch := False\<rparr> = link_empty b q"
    "q\<lparr>qlatch := False\<rparr> = q"
    "unlink_empty (q\<lparr>qlatch := l\<rparr>) = map_option (\<lambda>(b, q). (b, q\<lparr>qlatch := l\<rparr>)) (unlink_empty q)"
    "unlink_full ops (q\<lparr>qlatch := l\<rparr>) = map_option (\<lambda>(b, q). (b, q\<lparr>qlatch := l\<rparr>)) (unlink_full ops q)"
  using assms by (simp_all add: link_full_def link_empty_def increment_elements_def decrement_elements_def unlink_empty_def unlink_full_def Let_def split: option.splits)

definition bq_inv :: "'c bqueue \<Rightarrow> nat set \<Rightarrow> bool" where
  "bq_inv q H \<longleftrightarrow> (\<exists>fs es. bq q fs es H)"

lemma bq_inv_held: "bq_inv q H \<Longrightarrow> b \<in> H \<Longrightarrow> b < length (bcont q) \<and> ok (bcont q ! b)"
  unfolding bq_inv_def using bqD(1,4) by blast

lemma try_push_full_ok:
  assumes "bq_inv q H" and "b \<in> H"
  shows "\<exists>q'. try_push_full ops b q = Inr q' \<and> bq_inv q' (H - {b}) \<and> bcont q' = bcont q"
proof -
  obtain fs es where q: "bq q fs es H" using assms(1) by (auto simp: bq_inv_def)
  have "try_push_full ops b q = Inr (link_full ops b q)"
    using bqD(5) [OF q] under_latch(1) [of q] by (simp add: try_push_full_def spin_lock_def spin_unlock_def Let_def)
  then show ?thesis using link_full_ok [OF q assms(2)] unfolding bq_inv_def by blast
qed

lemma try_push_empty_ok:
  assumes "bq_inv q H" and "b \<in> H" and "items (bcont q ! b) = {#}"
  shows "\<exists>q'. try_push_empty b q = Inr q' \<and> bq_inv q' (H - {b}) \<and> bcont q' = bcont q"
proof -
  obtain fs es where q: "bq q fs es H" using assms(1) by (auto simp: bq_inv_def)
  have "try_push_empty b q = Inr (link_empty b q)"
    using bqD(5) [OF q] under_latch(2) [of q] by (simp add: try_push_empty_def spin_lock_def spin_unlock_def Let_def)
  then show ?thesis using link_empty_ok [OF q assms(2,3)] unfolding bq_inv_def by blast
qed

lemma try_pop_empty_ok:
  assumes "bq_inv q H"
  shows "try_pop_empty q = Inr (None, q) \<and> emptyHead q = None
     \<or> (\<exists>b q'. try_pop_empty q = Inr (Some b, q') \<and> bq_inv q' (insert b H) \<and> bcont q' = bcont q \<and> b \<notin> H \<and> items (bcont q ! b) = {#})"
proof -
  obtain fs es where q: "bq q fs es H" using assms by (auto simp: bq_inv_def)
  show ?thesis
  proof (cases es)
    case Nil
    then have "emptyHead q = None" using q by (simp add: bq_def)
    then show ?thesis using unlink_empty_ok(1) [OF q Nil] bqD(5) [OF q] under_latch(3,4) [of q]
      by (simp add: try_pop_empty_def spin_lock_def spin_unlock_def Let_def)
  next
    case (Cons b bs)
    obtain q' where q': "unlink_empty q = Some (b, q')" "bq q' fs bs (insert b H)" "bcont q' = bcont q" using unlink_empty_ok(2) [OF q Cons] by blast
    have "b \<notin> H" "items (bcont q ! b) = {#}" using bqD(3) [OF q, of b] q Cons by (auto simp: bq_def)
    then show ?thesis using q' bqD(5) [OF q] bqD(5) [OF q'(2)] under_latch(4) [of q]
      by (auto simp: under_latch(3) try_pop_empty_def spin_lock_def spin_unlock_def Let_def bq_inv_def)
  qed
qed

lemma try_pop_full_ok:
  assumes "bq_inv q H"
  shows "try_pop_full ops q = (None, q) \<and> (elements q = 0 \<or> fullHead q = None)
     \<or> (\<exists>b q'. try_pop_full ops q = (Some b, q') \<and> bq_inv q' (insert b H) \<and> bcont q' = bcont q \<and> b \<notin> H)"
proof -
  obtain fs es where q: "bq q fs es H" using assms by (auto simp: bq_inv_def)
  show ?thesis
  proof (cases "elements q = 0")
    case True
    then show ?thesis by (simp add: try_pop_full_def)
  next
    case el: False
    show ?thesis
    proof (cases fs)
      case Nil
      then show ?thesis using el q by (simp add: bq_def)
    next
      case (Cons b bs)
      obtain q' where q': "unlink_full ops q = Some (b, q')" "bq q' bs es (insert b H)" "bcont q' = bcont q" using unlink_full_ok(2) [OF q Cons] by blast
      have "b \<notin> H" using bqD(2) [OF q, of b] Cons by auto
      then show ?thesis using el q' bqD(5) [OF q] bqD(5) [OF q'(2)] under_latch(5) [of q]
        by (auto simp: under_latch(3) try_pop_full_def spin_try_lock_def spin_unlock_def Let_def bq_inv_def)
    qed
  qed
qed

lemma bq_inv_cont:
  assumes "bq_inv q H" and "b \<in> H" and "ok c"
  shows "bq_inv (q\<lparr>bcont := (bcont q)[b := c]\<rparr>) H"
proof -
  obtain fs es where q: "bq q fs es H" using assms(1) by (auto simp: bq_inv_def)
  have n: "b \<notin> set fs" "b \<notin> set es" "b < length (bcont q)" using bqD(1) [OF q assms(2)] by auto
  have "map (\<lambda>x. size (items ((bcont q)[b := c] ! x))) fs = map (\<lambda>x. size (items (bcont q ! x))) fs" using n by (auto simp: nth_list_update)
  then have s: "(\<Sum>x\<leftarrow>fs. size (items ((bcont q)[b := c] ! x))) = (\<Sum>x\<leftarrow>fs. size (items (bcont q ! x)))" by (rule arg_cong)
  have e: "\<forall>x\<in>set es. items ((bcont q)[b := c] ! x) = {#}"
  proof
    fix x assume x: "x \<in> set es"
    then have "x \<noteq> b" using n(2) by blast
    then show "items ((bcont q)[b := c] ! x) = {#}" using q x by (simp add: bq_def)
  qed
  have o: "\<forall>x < length (bcont q). ok ((bcont q)[b := c] ! x)"
  proof (intro allI impI)
    fix x assume "x < length (bcont q)"
    then show "ok ((bcont q)[b := c] ! x)" using bqD(4) [OF q, of x] assms(3) by (cases "x = b") simp_all
  qed
  have "bq (q\<lparr>bcont := (bcont q)[b := c]\<rparr>) fs es H" using q s e o unfolding bq_def by simp
  then show ?thesis unfolding bq_inv_def by blast
qed

section \<open>All queues\<close>

definition pq_inv :: "'c pqueue \<Rightarrow> (nat \<times> nat) set \<Rightarrow> bool" where
  "pq_inv p H \<longleftrightarrow> (\<forall>k < length (queues p). bq_inv (queues p ! k) {b. (k, b) \<in> H}) \<and> fst ` H \<subseteq> {0..<length (queues p)}"

definition contents :: "'c pqueue \<Rightarrow> 'a multiset" where
  "contents p = sum_list (map all_items (queues p))"

lemma upd_queue_sel [simp]: "queues (upd_queue k q p) = (queues p)[k := q]"
  by (simp add: upd_queue_def)

lemma pq_inv_upd:
  assumes "pq_inv p H" and k: "k < length (queues p)" and "bq_inv q {b. (k, b) \<in> H'}" and "\<And>l b. l \<noteq> k \<Longrightarrow> (l, b) \<in> H' \<longleftrightarrow> (l, b) \<in> H"
  shows "pq_inv (upd_queue k q p) H'"
proof -
  have "fst ` H' \<subseteq> {0..<length (queues p)}" using assms(1,4) k unfolding pq_inv_def by force
  moreover have "bq_inv ((queues p)[k := q] ! l) {b. (l, b) \<in> H'}" if "l < length (queues p)" for l
    using assms that by (cases "l = k") (simp_all add: pq_inv_def)
  ultimately show ?thesis by (simp add: pq_inv_def)
qed

lemma contents_same: "k < length (queues p) \<Longrightarrow> bcont q = bcont (queues p ! k) \<Longrightarrow> contents (upd_queue k q p) = contents p"
proof -
  assume k: "k < length (queues p)" and "bcont q = bcont (queues p ! k)"
  then have "all_items q = all_items (queues p ! k)" by (simp add: all_items_def)
  then have "map all_items ((queues p)[k := q]) = map all_items (queues p)" using k by (simp add: map_update list_update_same_conv)
  then show ?thesis by (simp add: contents_def del: map_eq_conv)
qed

lemma sum_list_upd: "i < length xs \<Longrightarrow> sum_list (xs[i := x]) + xs ! i = sum_list xs + (x :: 'm :: comm_monoid_add)"
proof (induction xs arbitrary: i)
  case (Cons y ys)
  show ?case
  proof (cases i)
    case 0
    then show ?thesis by (simp add: ac_simps)
  next
    case (Suc j)
    then have "sum_list (ys[j := x]) + ys ! j = sum_list ys + x" using Cons by simp
    then show ?thesis using Suc by (simp add: add.assoc)
  qed
qed simp

lemma contents_upd:
  assumes "k < length (queues p)" and "b < length (bcont (queues p ! k))"
  shows "contents (upd_queue k ((queues p ! k)\<lparr>bcont := (bcont (queues p ! k))[b := c]\<rparr>) p) + items (bcont (queues p ! k) ! b) = contents p + items c"
proof -
  let ?q = "queues p ! k"
  let ?q' = "?q\<lparr>bcont := (bcont ?q)[b := c]\<rparr>"
  have 1: "all_items ?q' + items (bcont ?q ! b) = all_items ?q + items c"
    using sum_list_upd [of b "map items (bcont ?q)" "items c"] assms(2) by (simp add: all_items_def map_update)
  have 2: "contents (upd_queue k ?q' p) + all_items ?q = contents p + all_items ?q'"
    using sum_list_upd [of k "map all_items (queues p)" "all_items ?q'"] assms(1) by (simp add: contents_def map_update)
  have "contents (upd_queue k ?q' p) + items (bcont ?q ! b) + all_items ?q = contents p + items c + all_items ?q"
    using 1 2 by (metis add.assoc add.commute)
  then show ?thesis by simp
qed

lemma pq_held:
  assumes "pq_inv p H" and "(k, b) \<in> H"
  shows "k < length (queues p)" "bq_inv (queues p ! k) {b. (k, b) \<in> H}" "b < length (bcont (queues p ! k))" "ok (bcont (queues p ! k) ! b)"
proof -
  show k: "k < length (queues p)" using assms unfolding pq_inv_def by force
  show q: "bq_inv (queues p ! k) {b. (k, b) \<in> H}" using assms(1) k unfolding pq_inv_def by blast
  show "b < length (bcont (queues p ! k))" "ok (bcont (queues p ! k) ! b)" using bq_inv_held [OF q, of b] assms(2) by auto
qed

lemma pq_pop_empty_ok:
  assumes p: "pq_inv p H" and k: "k < length (queues p)"
  shows "pq_pop_empty k p = Inr (None, p) \<and> emptyHead (queues p ! k) = None
     \<or> (\<exists>b p'. pq_pop_empty k p = Inr (Some b, p') \<and> pq_inv p' (insert (k, b) H) \<and> contents p' = contents p \<and> (k, b) \<notin> H
          \<and> items (bcont (queues p' ! k) ! b) = {#} \<and> length (queues p') = length (queues p))"
proof -
  have "bq_inv (queues p ! k) {b. (k, b) \<in> H}" using p k by (simp add: pq_inv_def)
  from try_pop_empty_ok [OF this] show ?thesis
  proof
    assume "try_pop_empty (queues p ! k) = Inr (None, queues p ! k) \<and> emptyHead (queues p ! k) = None"
    then show ?thesis by (simp add: pq_pop_empty_def upd_queue_def)
  next
    assume "\<exists>b q'. try_pop_empty (queues p ! k) = Inr (Some b, q') \<and> bq_inv q' (insert b {b. (k, b) \<in> H}) \<and> bcont q' = bcont (queues p ! k)
       \<and> b \<notin> {b. (k, b) \<in> H} \<and> items (bcont (queues p ! k) ! b) = {#}"
    then obtain b q' where q': "try_pop_empty (queues p ! k) = Inr (Some b, q')" "bq_inv q' (insert b {b. (k, b) \<in> H})" "bcont q' = bcont (queues p ! k)"
        "(k, b) \<notin> H" "items (bcont (queues p ! k) ! b) = {#}" by blast
    have "insert b {b. (k, b) \<in> H} = {c. (k, c) \<in> insert (k, b) H}" by auto
    then have "pq_inv (upd_queue k q' p) (insert (k, b) H)" using pq_inv_upd [OF p k, of q' "insert (k, b) H"] q'(2) by simp
    then show ?thesis using q' contents_same [OF k q'(3)] k by (intro disjI2 exI [of _ b] exI [of _ "upd_queue k q' p"]) (simp add: pq_pop_empty_def)
  qed
qed

lemma pq_pop_full_ok:
  assumes p: "pq_inv p H" and k: "k < length (queues p)"
  shows "pq_pop_full ops k p = (None, p) \<and> (elements (queues p ! k) = 0 \<or> fullHead (queues p ! k) = None)
     \<or> (\<exists>b p'. pq_pop_full ops k p = (Some b, p') \<and> pq_inv p' (insert (k, b) H) \<and> contents p' = contents p \<and> (k, b) \<notin> H
          \<and> length (queues p') = length (queues p))"
proof -
  have "bq_inv (queues p ! k) {b. (k, b) \<in> H}" using p k by (simp add: pq_inv_def)
  from try_pop_full_ok [OF this] show ?thesis
  proof
    assume "try_pop_full ops (queues p ! k) = (None, queues p ! k) \<and> (elements (queues p ! k) = 0 \<or> fullHead (queues p ! k) = None)"
    then show ?thesis by (simp add: pq_pop_full_def upd_queue_def)
  next
    assume "\<exists>b q'. try_pop_full ops (queues p ! k) = (Some b, q') \<and> bq_inv q' (insert b {b. (k, b) \<in> H}) \<and> bcont q' = bcont (queues p ! k)
       \<and> b \<notin> {b. (k, b) \<in> H}"
    then obtain b q' where q': "try_pop_full ops (queues p ! k) = (Some b, q')" "bq_inv q' (insert b {b. (k, b) \<in> H})" "bcont q' = bcont (queues p ! k)"
        "(k, b) \<notin> H" by blast
    have "insert b {b. (k, b) \<in> H} = {c. (k, c) \<in> insert (k, b) H}" by auto
    then have "pq_inv (upd_queue k q' p) (insert (k, b) H)" using pq_inv_upd [OF p k, of q' "insert (k, b) H"] q'(2) by simp
    then show ?thesis using q' contents_same [OF k q'(3)] by (intro disjI2 exI [of _ b] exI [of _ "upd_queue k q' p"]) (simp add: pq_pop_full_def)
  qed
qed

lemma pq_give_back:
  assumes p: "pq_inv p H" and h: "(k, b) \<in> H"
  shows "\<exists>q'. try_push_full ops b (queues p ! k) = Inr q' \<and> pq_inv (upd_queue k q' p) (H - {(k, b)}) \<and> contents (upd_queue k q' p) = contents p"
    and "items (bcont (queues p ! k) ! b) = {#} \<Longrightarrow>
      \<exists>q'. try_push_empty b (queues p ! k) = Inr q' \<and> pq_inv (upd_queue k q' p) (H - {(k, b)}) \<and> contents (upd_queue k q' p) = contents p"
proof -
  note d = pq_held [OF p h]
  have e: "{b. (k, b) \<in> H} - {b} = {c. (k, c) \<in> H - {(k, b)}}" by auto
  show "\<exists>q'. try_push_full ops b (queues p ! k) = Inr q' \<and> pq_inv (upd_queue k q' p) (H - {(k, b)}) \<and> contents (upd_queue k q' p) = contents p"
    using try_push_full_ok [OF d(2), of b] h pq_inv_upd [OF p d(1), of _ "H - {(k, b)}"] contents_same [OF d(1)] by (auto simp: e)
  show "\<exists>q'. try_push_empty b (queues p ! k) = Inr q' \<and> pq_inv (upd_queue k q' p) (H - {(k, b)}) \<and> contents (upd_queue k q' p) = contents p"
    if "items (bcont (queues p ! k) ! b) = {#}"
    using try_push_empty_ok [OF d(2), of b] that h pq_inv_upd [OF p d(1), of _ "H - {(k, b)}"] contents_same [OF d(1)] by (auto simp: e)
qed

lemma pq_inv_cont:
  assumes p: "pq_inv p H" and h: "(k, b) \<in> H" and c: "ok c"
  shows "pq_inv (upd_queue k ((queues p ! k)\<lparr>bcont := (bcont (queues p ! k))[b := c]\<rparr>) p) H"
  using pq_inv_upd [OF p pq_held(1) [OF p h], of _ H] bq_inv_cont [OF pq_held(2) [OF p h] _ c, of b] h by simp

lemma batch_push_ok:
  assumes p: "pq_inv p H" and h: "kb \<in> H"
  shows "\<exists>s p'. batch_push ops e kb p = (s, p') \<and> pq_inv p' H \<and> contents p' = (if s then add_mset e (contents p) else contents p)
     \<and> length (queues p') = length (queues p) \<and> (items (bcont (queues p ! fst kb) ! snd kb) = {#} \<longrightarrow> s)"
proof -
  obtain k b where kb: "kb = (k, b)" by (cases kb)
  note d = pq_held [OF p h [unfolded kb]]
  let ?c = "bcont (queues p ! k) ! b"
  obtain s c' where c': "cpush ops e ?c = (s, c')" by (cases "cpush ops e ?c")
  have i: "ok c'" "items c' = (if s then add_mset e (items ?c) else items ?c)" "items ?c = {#} \<longrightarrow> s"
    using push_full [OF d(4), of e] push_room [OF d(4), of e] cap_pos [OF d(4)] c' d(4) by (cases "size (items ?c) = cap ?c"; auto)+
  let ?p = "upd_queue k ((queues p ! k)\<lparr>bcont := (bcont (queues p ! k))[b := c']\<rparr>) p"
  have "contents ?p + items ?c = contents p + items c'" using contents_upd [OF d(1,3)] .
  then have "contents ?p + items ?c = (if s then add_mset e (contents p) else contents p) + items ?c" using i(2) by simp
  then have "contents ?p = (if s then add_mset e (contents p) else contents p)" using add_right_imp_eq by blast
  then show ?thesis using c' i(3) pq_inv_cont [OF p h [unfolded kb] i(1)] kb by (simp add: batch_push_def Let_def)
qed

lemma batch_pop_ok:
  assumes p: "pq_inv p H" and h: "kb \<in> H"
  shows "\<exists>r p'. batch_pop ops kb p = (r, p') \<and> pq_inv p' H \<and> contents p = (case r of Some e \<Rightarrow> add_mset e (contents p') | None \<Rightarrow> contents p')
     \<and> length (queues p') = length (queues p) \<and> (r = None \<longrightarrow> items (bcont (queues p' ! fst kb) ! snd kb) = {#})"
proof -
  obtain k b where kb: "kb = (k, b)" by (cases kb)
  note d = pq_held [OF p h [unfolded kb]]
  let ?c = "bcont (queues p ! k) ! b"
  obtain r c' where c': "cpop ops ?c = (r, c')" by (cases "cpop ops ?c")
  have i: "ok c'" "items ?c = (case r of Some e \<Rightarrow> add_mset e (items c') | None \<Rightarrow> items c')" "r = None \<longrightarrow> items c' = {#}"
    using pop_empty [OF d(4)] pop_some [OF d(4)] c' d(4) by (cases "items ?c = {#}"; auto)+
  let ?p = "upd_queue k ((queues p ! k)\<lparr>bcont := (bcont (queues p ! k))[b := c']\<rparr>) p"
  have "contents ?p + items ?c = contents p + items c'" using contents_upd [OF d(1,3)] .
  then have "contents p + items c' = (case r of Some e \<Rightarrow> add_mset e (contents ?p) | None \<Rightarrow> contents ?p) + items c'"
    using i(2) by (cases r) simp_all
  then have "contents p = (case r of Some e \<Rightarrow> add_mset e (contents ?p) | None \<Rightarrow> contents ?p)" using add_right_imp_eq by blast
  then show ?thesis using c' i(3) pq_inv_cont [OF p h [unfolded kb] i(1)] kb d(1,3) by (simp add: batch_pop_def Let_def)
qed

lemma any_empty_ok:
  assumes p: "pq_inv p H" and "set ks \<subseteq> {0..<length (queues p)}"
  shows "\<exists>h p'. any_empty ks p = Inr (h, p') \<and> pq_inv p' (set_option h \<union> H) \<and> contents p' = contents p \<and> set_option h \<inter> H = {}
     \<and> length (queues p') = length (queues p) \<and> (\<forall>kb. h = Some kb \<longrightarrow> items (bcont (queues p' ! fst kb) ! snd kb) = {#})"
  using assms(2)
proof (induction ks)
  case Nil
  then show ?case using p by simp
next
  case (Cons k ks)
  then have k: "k < length (queues p)" and ks: "set ks \<subseteq> {0..<length (queues p)}" by simp_all
  from pq_pop_empty_ok [OF p k] show ?case
  proof (elim disjE exE conjE)
    fix b p' assume "pq_pop_empty k p = Inr (Some b, p')" "pq_inv p' (insert (k, b) H)" "contents p' = contents p" "(k, b) \<notin> H" "length (queues p') = length (queues p)" "items (bcont (queues p' ! k) ! b) = {#}"
    then show ?case by simp
  qed (use Cons.IH [OF ks] in simp_all)
qed

lemma any_full_ok:
  assumes p: "pq_inv p H" and "set ks \<subseteq> {0..<length (queues p)}"
  shows "\<exists>h p'. any_full ops ks p = (h, p') \<and> pq_inv p' (set_option h \<union> H) \<and> contents p' = contents p \<and> set_option h \<inter> H = {}
     \<and> length (queues p') = length (queues p)"
  using assms(2)
proof (induction ks)
  case Nil
  then show ?case using p by simp
next
  case (Cons k ks)
  then have k: "k < length (queues p)" and ks: "set ks \<subseteq> {0..<length (queues p)}" by simp_all
  from pq_pop_full_ok [OF p k] show ?case
  proof (elim disjE exE conjE)
    fix b p' assume "pq_pop_full ops k p = (Some b, p')" "pq_inv p' (insert (k, b) H)" "contents p' = contents p" "(k, b) \<notin> H" "length (queues p') = length (queues p)"
    then show ?case by simp
  qed (use Cons.IH [OF ks] in simp_all)
qed

text \<open>What an operation of a thread with handle \<open>h\<close> leaves when the others hold \<open>H\<close>.\<close>

definition pq_step :: "(nat \<times> nat) set \<Rightarrow> 'c pqueue \<Rightarrow> handle \<Rightarrow> 'c pqueue \<Rightarrow> bool" where
  "pq_step H p h' p' \<longleftrightarrow> pq_inv p' (set_option h' \<union> H) \<and> set_option h' \<inter> H = {} \<and> length (queues p') = length (queues p)"

lemma push_with_ok:
  assumes "pq_inv p (insert kb H)" and "kb \<notin> H" and "items (bcont (queues p ! fst kb) ! snd kb) = {#}"
  shows "\<exists>p'. push_with ops e kb p = (True, Some kb, p') \<and> pq_step H p (Some kb) p' \<and> contents p' = add_mset e (contents p)"
  using batch_push_ok [OF assms(1), of kb e] assms(2,3) by (auto simp: push_with_def pq_step_def)

lemma pop_with_ok:
  assumes "pq_inv p (insert kb H)" and "kb \<notin> H"
  shows "\<exists>r p'. pop_with ops kb p = (r, Some kb, p') \<and> pq_step H p (Some kb) p' \<and> contents p = (case r of Some e \<Rightarrow> add_mset e (contents p') | None \<Rightarrow> contents p')"
  using batch_pop_ok [OF assms(1), of kb] assms(2) by (auto simp: pop_with_def pq_step_def)

lemma try_push_held:
  assumes p: "pq_inv p (insert kb H)" "kb \<notin> H" and r: "r2 < length (queues p)"
  shows "\<exists>s h' p'. try_push ops r1 r2 e (Some kb) p = Inr (s, h', p') \<and> pq_step H p h' p'
     \<and> contents p' = (if s then add_mset e (contents p) else contents p)"
proof -
  obtain k b where kb: "kb = (k, b)" by (cases kb)
  obtain s p1 where p1: "batch_push ops e kb p = (s, p1)" "pq_inv p1 (insert kb H)" "contents p1 = (if s then add_mset e (contents p) else contents p)"
      "length (queues p1) = length (queues p)"
    using batch_push_ok [OF p(1), of kb e] by auto
  show ?thesis
  proof (cases s)
    case True
    then show ?thesis using p1 p(2) by (auto simp: try_push_def pq_step_def)
  next
    case s: False
    obtain q where q: "try_push_full ops b (queues p1 ! k) = Inr q" "pq_inv (upd_queue k q p1) H" "contents (upd_queue k q p1) = contents p"
      using pq_give_back(1) [OF p1(2), of k b] kb p(2) p1(3) s by auto
    let ?p2 = "upd_queue k q p1"
    have l2: "length (queues ?p2) = length (queues p)" using p1(4) by simp
    have t: "try_push ops r1 r2 e (Some kb) p = bind_r (pq_pop_empty r2 ?p2) (\<lambda>(b, p). case b of Some b \<Rightarrow> Inr (push_with ops e (r2, b) p)
        | None \<Rightarrow> bind_r (any_empty [0..<length (queues p)] p) (\<lambda>(h, p). case h of None \<Rightarrow> Inr (False, None, p) | Some kb \<Rightarrow> Inr (push_with ops e kb p)))"
      using p1(1) s q(1) kb by (simp add: try_push_def)
    have r': "r2 < length (queues ?p2)" using r l2 by simp
    from pq_pop_empty_ok [OF q(2) r'] show ?thesis
    proof (elim disjE exE conjE)
      assume n: "pq_pop_empty r2 ?p2 = Inr (None, ?p2)"
      obtain h p3 where h: "any_empty [0..<length (queues ?p2)] ?p2 = Inr (h, p3)" "pq_inv p3 (set_option h \<union> H)" "contents p3 = contents p" "set_option h \<inter> H = {}"
          "length (queues p3) = length (queues p)" "\<forall>kb. h = Some kb \<longrightarrow> items (bcont (queues p3 ! fst kb) ! snd kb) = {#}"
        using any_empty_ok [OF q(2), of "[0..<length (queues ?p2)]"] q(3) l2 by (auto simp del: upd_queue_sel)
      show ?thesis
      proof (cases h)
        case None
        then show ?thesis using t n h(1-5) by (auto simp: pq_step_def)
      next
        case (Some kb')
        then show ?thesis using t n h push_with_ok [of p3 kb' H e] by (auto simp: pq_step_def)
      qed
    next
      fix c p3 assume c: "pq_pop_empty r2 ?p2 = Inr (Some c, p3)" "pq_inv p3 (insert (r2, c) H)" "contents p3 = contents ?p2" "(r2, c) \<notin> H"
        "items (bcont (queues p3 ! r2) ! c) = {#}" "length (queues p3) = length (queues ?p2)"
      then show ?thesis using t q(3) l2 push_with_ok [of p3 "(r2, c)" H e] by (auto simp: pq_step_def)
    qed
  qed
qed

lemma try_push_null: "try_push ops r1 r2 e None p = bind_r (pq_pop_empty r1 p) (\<lambda>(b, p). case b of None \<Rightarrow> Inr (False, None, p) | Some b \<Rightarrow> try_push ops r1 r2 e (Some (r1, b)) p)"
  by (cases "pq_pop_empty r1 p") (auto simp: try_push_def split: option.splits prod.splits bool.splits)

lemma try_push_ok:
  assumes p: "pq_inv p (set_option h \<union> H)" "set_option h \<inter> H = {}" and r: "r1 < length (queues p)" "r2 < length (queues p)"
  shows "\<exists>s h' p'. try_push ops r1 r2 e h p = Inr (s, h', p') \<and> pq_step H p h' p' \<and> contents p' = (if s then add_mset e (contents p) else contents p)"
proof (cases h)
  case (Some kb)
  then show ?thesis using try_push_held [of p kb H r2 r1 e] p r by simp
next
  case None
  then have p0: "pq_inv p H" using p by simp
  from pq_pop_empty_ok [OF p0 r(1)] show ?thesis
  proof (elim disjE exE conjE)
    assume "pq_pop_empty r1 p = Inr (None, p)"
    then show ?thesis using None p0 by (auto simp: try_push_null pq_step_def)
  next
    fix b p' assume b: "pq_pop_empty r1 p = Inr (Some b, p')" "pq_inv p' (insert (r1, b) H)" "contents p' = contents p" "(r1, b) \<notin> H" "length (queues p') = length (queues p)"
    then show ?thesis using try_push_held [of p' "(r1, b)" H r2 r1 e] r None by (auto simp: try_push_null pq_step_def)
  qed
qed

lemma try_pop_null: "try_pop ops r1 r2 None p = (case pq_pop_full ops r1 p of (None, p) \<Rightarrow> Inr (None, None, p) | (Some b, p) \<Rightarrow> try_pop ops r1 r2 (Some (r1, b)) p)"
  by (auto simp: try_pop_def Let_def split: option.splits prod.splits)

lemma try_pop_held:
  assumes p: "pq_inv p (insert kb H)" "kb \<notin> H" and r: "r2 < length (queues p)"
  shows "\<exists>x h' p'. try_pop ops r1 r2 (Some kb) p = Inr (x, h', p') \<and> pq_step H p h' p'
     \<and> contents p = (case x of Some e \<Rightarrow> add_mset e (contents p') | None \<Rightarrow> contents p')"
proof -
  obtain k b where kb: "kb = (k, b)" by (cases kb)
  obtain x p1 where p1: "batch_pop ops kb p = (x, p1)" "pq_inv p1 (insert kb H)" "contents p = (case x of Some e \<Rightarrow> add_mset e (contents p1) | None \<Rightarrow> contents p1)"
      "length (queues p1) = length (queues p)" "x = None \<longrightarrow> items (bcont (queues p1 ! fst kb) ! snd kb) = {#}"
    using batch_pop_ok [OF p(1), of kb] by auto
  show ?thesis
  proof (cases x)
    case (Some e)
    then show ?thesis using p1 p(2) by (simp add: try_pop_def pq_step_def)
  next
    case None
    obtain q where q: "try_push_empty b (queues p1 ! k) = Inr q" "pq_inv (upd_queue k q p1) H" "contents (upd_queue k q p1) = contents p"
      using pq_give_back(2) [OF p1(2), of k b] kb p(2) p1(3,5) None by auto
    let ?p2 = "upd_queue k q p1"
    have l2: "length (queues ?p2) = length (queues p)" using p1(4) by simp
    have t: "try_pop ops r1 r2 (Some kb) p = (case pq_pop_full ops r2 ?p2 of (Some b, p) \<Rightarrow> Inr (pop_with ops (r2, b) p)
        | (None, p) \<Rightarrow> (case any_full ops [0..<length (queues p)] p of (None, p) \<Rightarrow> Inr (None, None, p) | (Some kb, p) \<Rightarrow> Inr (pop_with ops kb p)))"
      using p1(1) None q(1) kb by (simp add: try_pop_def Let_def)
    have r': "r2 < length (queues ?p2)" using r l2 by simp
    consider (none) "pq_pop_full ops r2 ?p2 = (None, ?p2)"
      | (some) c p3 where "pq_pop_full ops r2 ?p2 = (Some c, p3)" "pq_inv p3 (insert (r2, c) H)" "contents p3 = contents ?p2" "(r2, c) \<notin> H" "length (queues p3) = length (queues ?p2)"
      using pq_pop_full_ok [OF q(2) r'] by blast
    then show ?thesis
    proof cases
      case none
      obtain h p3 where h: "any_full ops [0..<length (queues ?p2)] ?p2 = (h, p3)" "pq_inv p3 (set_option h \<union> H)" "contents p3 = contents p" "set_option h \<inter> H = {}"
          "length (queues p3) = length (queues p)"
        using any_full_ok [OF q(2), of "[0..<length (queues ?p2)]"] q(3) l2 by (auto simp del: upd_queue_sel)
      show ?thesis
      proof (cases h)
        case None
        then show ?thesis using t none h by (auto simp: pq_step_def)
      next
        case (Some kb')
        then show ?thesis using t none h pop_with_ok [of p3 kb' H] by (auto simp: pq_step_def)
      qed
    next
      case some
      then show ?thesis using t q(3) l2 pop_with_ok [of p3 "(r2, c)" H] by (auto simp: pq_step_def)
    qed
  qed
qed

lemma try_pop_ok:
  assumes p: "pq_inv p (set_option h \<union> H)" "set_option h \<inter> H = {}" and r: "r1 < length (queues p)" "r2 < length (queues p)"
  shows "\<exists>x h' p'. try_pop ops r1 r2 h p = Inr (x, h', p') \<and> pq_step H p h' p' \<and> contents p = (case x of Some e \<Rightarrow> add_mset e (contents p') | None \<Rightarrow> contents p')"
proof (cases h)
  case (Some kb)
  then show ?thesis using try_pop_held [of p kb H r2 r1] p r by simp
next
  case None
  then have p0: "pq_inv p H" using p by simp
  from pq_pop_full_ok [OF p0 r(1)] show ?thesis
  proof (elim disjE exE conjE)
    fix b p' assume b: "pq_pop_full ops r1 p = (Some b, p')" "pq_inv p' (insert (r1, b) H)" "contents p' = contents p" "(r1, b) \<notin> H" "length (queues p') = length (queues p)"
    then show ?thesis using try_pop_held [of p' "(r1, b)" H r2 r1] r None by (auto simp: try_pop_null pq_step_def)
  qed (use None p0 in \<open>auto simp: try_pop_null pq_step_def\<close>)
qed

lemma release_handle_ok:
  assumes p: "pq_inv p (set_option h \<union> H)" "set_option h \<inter> H = {}"
  shows "\<exists>p'. release_handle ops h p = Inr p' \<and> pq_inv p' H \<and> contents p' = contents p"
proof (cases h)
  case None
  then show ?thesis using p by (simp add: release_handle_def)
next
  case (Some kb)
  obtain k b where kb: "kb = (k, b)" by (cases kb)
  have i: "pq_inv p (insert (k, b) H)" and e: "insert (k, b) H - {(k, b)} = H" using p Some kb by auto
  note g = pq_give_back [OF i, of k b, unfolded e] and d = pq_held [OF i, of k b]
  show ?thesis
    using g empty_items [OF d(4)] Some kb by (cases "cempty ops (bcont (queues p ! k) ! b)") (auto simp: release_handle_def)
qed

section \<open>Construction\<close>

lemma push_all_empty_ok:
  assumes "bq_inv q (set bs \<union> H)" and "distinct bs" and "set bs \<inter> H = {}" and "\<And>b. b \<in> set bs \<Longrightarrow> items (bcont q ! b) = {#}"
  shows "\<exists>q'. push_all_empty bs q = Inr q' \<and> bq_inv q' H \<and> bcont q' = bcont q"
  using assms
proof (induction bs arbitrary: q)
  case (Cons b bs)
  obtain q1 where q1: "try_push_empty b q = Inr q1" "bq_inv q1 ((set (b # bs) \<union> H) - {b})" "bcont q1 = bcont q"
    using try_push_empty_ok [OF Cons.prems(1), of b] Cons.prems(4) by auto
  have "(set (b # bs) \<union> H) - {b} = set bs \<union> H" using Cons.prems(2,3) by auto
  then show ?case using Cons.IH [of q1] Cons.prems q1 by auto
qed simp

lemma new_BatchQueue_ok:
  assumes "ok c" and "items c = {#}"
  shows "\<exists>q. new_BatchQueue c n = Inr q \<and> bq_inv q {} \<and> all_items q = {#} \<and> length (bcont q) = n"
proof -
  let ?q = "\<lparr>elements = 0, bcont = replicate n c, bnext = replicate n None, qlatch = False, fullHead = None, fullSize = 0, emptyHead = None, emptySize = 0\<rparr> :: 'c bqueue"
  have "bq ?q [] [] {0..<n}" using assms by (simp add: bq_def)
  then have "bq_inv ?q (set [0..<n] \<union> {})" unfolding bq_inv_def by auto
  from push_all_empty_ok [OF this] obtain q where q: "new_BatchQueue c n = Inr q" "bq_inv q {}" "bcont q = replicate n c"
    using assms(2) by (auto simp: new_BatchQueue_def)
  have "sum_list (replicate n ({#} :: 'a multiset)) = {#}" by (induction n) auto
  then show ?thesis using q assms(2) by (simp add: all_items_def)
qed

lemma new_PartitionedQueue_ok:
  assumes "ok c" and "items c = {#}"
  shows "\<exists>p. new_PartitionedQueue c n m = Inr p \<and> pq_inv p {} \<and> contents p = {#} \<and> length (queues p) = m"
proof -
  have "\<exists>qs. new_queues c n m = Inr qs \<and> length qs = m \<and> (\<forall>q\<in>set qs. bq_inv q {} \<and> all_items q = {#}) \<and> sum_list (map all_items qs) = {#}"
  proof (induction m)
    case (Suc m)
    then show ?case using new_BatchQueue_ok [OF assms, of n] by auto
  qed simp
  then show ?thesis by (auto simp: new_PartitionedQueue_def pq_inv_def contents_def)
qed

end

section \<open>Threads\<close>

text \<open>A run of \<open>try_push\<close> and \<open>try_pop\<close> calls of several threads, in any order; each thread has its handle.\<close>

datatype 'a pq_op = Push 'a | Pop

fun pq_run :: "('a, 'c) cops \<Rightarrow> (nat \<times> 'a pq_op \<times> nat \<times> nat) list \<Rightarrow> handle list \<Rightarrow> 'c pqueue \<Rightarrow> ('a list \<times> 'a list \<times> handle list \<times> 'c pqueue) result" where
  "pq_run ops [] hs p = Inr ([], [], hs, p)"
| "pq_run ops ((t, Push e, r1, r2) # xs) hs p =
     bind_r (try_push ops r1 r2 e (hs ! t) p) (\<lambda>(s, h, p).
     bind_r (pq_run ops xs (hs[t := h]) p) (\<lambda>(ins, outs, hs, p). Inr (if s then e # ins else ins, outs, hs, p)))"
| "pq_run ops ((t, Pop, r1, r2) # xs) hs p =
     bind_r (try_pop ops r1 r2 (hs ! t) p) (\<lambda>(x, h, p).
     bind_r (pq_run ops xs (hs[t := h]) p) (\<lambda>(ins, outs, hs, p). Inr (ins, (case x of Some e \<Rightarrow> e # outs | None \<Rightarrow> outs), hs, p)))"

text \<open>The batches the threads have at hand, each held by one thread.\<close>

definition held :: "handle list \<Rightarrow> (nat \<times> nat) set" where
  "held hs = {kb. Some kb \<in> set hs}"

definition one_holder :: "handle list \<Rightarrow> bool" where
  "one_holder hs \<longleftrightarrow> (\<forall>i j. i < length hs \<longrightarrow> j < length hs \<longrightarrow> hs ! i = hs ! j \<longrightarrow> hs ! i \<noteq> None \<longrightarrow> i = j)"

definition held_others :: "nat \<Rightarrow> handle list \<Rightarrow> (nat \<times> nat) set" where
  "held_others t hs = {kb. \<exists>i < length hs. i \<noteq> t \<and> hs ! i = Some kb}"

lemma held_split:
  assumes "t < length hs" and "one_holder hs"
  shows "held hs = set_option (hs ! t) \<union> held_others t hs" and "set_option (hs ! t) \<inter> held_others t hs = {}"
proof -
  show "held hs = set_option (hs ! t) \<union> held_others t hs"
    using assms(1) by (auto simp: held_def held_others_def in_set_conv_nth elem_set)
  show "set_option (hs ! t) \<inter> held_others t hs = {}"
    using assms by (auto simp: held_others_def one_holder_def elem_set)
qed

lemma held_update:
  assumes t: "t < length hs" and o: "one_holder hs" and h: "set_option h \<inter> held_others t hs = {}"
  shows "held (hs[t := h]) = set_option h \<union> held_others t hs" and "one_holder (hs[t := h])"
proof -
  have ho: "held_others t (hs[t := h]) = held_others t hs" by (auto simp: held_others_def)
  have x: "hs ! i \<noteq> h" if "i < length hs" "i \<noteq> t" "h \<noteq> None" for i
    using h that unfolding held_others_def by (cases h) auto
  show o': "one_holder (hs[t := h])"
    unfolding one_holder_def
  proof (intro allI impI)
    fix i j assume a: "i < length (hs[t := h])" "j < length (hs[t := h])" "hs[t := h] ! i = hs[t := h] ! j" "hs[t := h] ! i \<noteq> None"
    show "i = j"
      using a x [of i] x [of j] o t unfolding one_holder_def by (cases "i = t"; cases "j = t") auto
  qed
  show "held (hs[t := h]) = set_option h \<union> held_others t hs"
    using held_split(1) [OF _ o', of t] t ho by simp
qed

context container
begin

lemma pq_run_ok:
  assumes "pq_inv p (held hs)" and "one_holder hs" and "\<And>t op r1 r2. (t, op, r1, r2) \<in> set xs \<Longrightarrow> t < length hs \<and> r1 < length (queues p) \<and> r2 < length (queues p)"
  shows "\<exists>ins outs hs' p'. pq_run ops xs hs p = Inr (ins, outs, hs', p') \<and> pq_inv p' (held hs') \<and> one_holder hs'
     \<and> contents p' + mset outs = contents p + mset ins"
  using assms
proof (induction xs arbitrary: hs p)
  case (Cons x xs)
  obtain t op r1 r2 where x: "x = (t, op, r1, r2)" by (cases x)
  have b: "t < length hs" "r1 < length (queues p)" "r2 < length (queues p)" using Cons.prems(3) x by auto
  note hl = held_split [OF b(1) Cons.prems(2)]
  have p: "pq_inv p (set_option (hs ! t) \<union> held_others t hs)" using Cons.prems(1) hl(1) by simp
  have next_: "\<exists>ins outs hs' p''. pq_run ops xs (hs[t := h]) p' = Inr (ins, outs, hs', p'') \<and> pq_inv p'' (held hs') \<and> one_holder hs'
     \<and> contents p'' + mset outs = contents p' + mset ins" if s: "pq_step (held_others t hs) p h p'" for h p'
  proof (rule Cons.IH)
    have "set_option h \<inter> held_others t hs = {}" using s by (simp add: pq_step_def)
    note u = held_update [OF b(1) Cons.prems(2) this]
    show "pq_inv p' (held (hs[t := h]))" using s u(1) by (simp add: pq_step_def)
    show "one_holder (hs[t := h])" by (rule u(2))
    show "\<And>t' op r1 r2. (t', op, r1, r2) \<in> set xs \<Longrightarrow> t' < length (hs[t := h]) \<and> r1 < length (queues p') \<and> r2 < length (queues p')"
      using Cons.prems(3) s by (auto simp: pq_step_def)
  qed
  show ?case
  proof (cases op)
    case (Push e)
    obtain s h p' where s: "try_push ops r1 r2 e (hs ! t) p = Inr (s, h, p')" "pq_step (held_others t hs) p h p'"
        "contents p' = (if s then add_mset e (contents p) else contents p)"
      using try_push_ok [OF p hl(2) b(2,3), of e] by blast
    obtain ins outs hs' p'' where "pq_run ops xs (hs[t := h]) p' = Inr (ins, outs, hs', p'')" "pq_inv p'' (held hs')" "one_holder hs'"
        "contents p'' + mset outs = contents p' + mset ins" using next_ [OF s(2)] by blast
    then show ?thesis using x Push s by (cases s) simp_all
  next
    case Pop
    obtain y h p' where s: "try_pop ops r1 r2 (hs ! t) p = Inr (y, h, p')" "pq_step (held_others t hs) p h p'"
        "contents p = (case y of Some e \<Rightarrow> add_mset e (contents p') | None \<Rightarrow> contents p')"
      using try_pop_ok [OF p hl(2) b(2,3)] by blast
    obtain ins outs hs' p'' where "pq_run ops xs (hs[t := h]) p' = Inr (ins, outs, hs', p'')" "pq_inv p'' (held hs')" "one_holder hs'"
        "contents p'' + mset outs = contents p' + mset ins" using next_ [OF s(2)] by blast
    then show ?thesis using x Pop s by (cases y) simp_all
  qed
qed simp

end

section \<open>The free lists\<close>

text \<open>The free lists of the buffer manager use stacks as containers.\<close>

definition free_list_contents :: "'a stack pqueue \<Rightarrow> 'a multiset" where
  "free_list_contents p = sum_list (map (\<lambda>q. sum_list (map (\<lambda>c. mset (stack_items c)) (bcont q))) (queues p))"

lemma free_list_contents_stack: "stackc.contents = free_list_contents"
  by (rule ext) (simp add: stackc.contents_def stackc.all_items_def [abs_def] free_list_contents_def)



text \<open>Giving back a handle (when its thread ends) loses nothing either, and leaves no batch behind.\<close>

lemma release_handle_conserves:
  assumes "stackc.pq_inv p (insert kb H)" and "kb \<notin> H"
  shows "\<exists>p'. release_handle stack_ops (Some kb) p = Inr p' \<and> stackc.pq_inv p' H \<and> free_list_contents p' = free_list_contents p"
  using stackc.release_handle_ok [of p "Some kb" H] assms by (simp add: free_list_contents_stack)

end
