(* ===== verification/AsyncIO.thy ===== *)
theory AsyncIO
  imports Containers Frame
begin

text \<open>
  The ring buffer of free slots (storage/datastructures/RingBuffer.hpp) and the buffers of asynchronous page reads and
  writes (AsyncReadBuffer, AsyncWriteBuffer).  The kernel's asynchronous I/O is an argument: how many of the submitted
  requests it takes, and which completions it reports.
\<close>

section \<open>RingBuffer\<close>

record 'a rbuf =
  rb_size :: u64
  rb_data :: "'a list"
  rb_front :: u64
  rb_count :: u64

definition new_RingBuffer :: "u64 \<Rightarrow> 'a \<Rightarrow> 'a rbuf result" where
  "new_RingBuffer sz x =
     (let n = (if powerOfTwo sz then sz else nextPowerTwo sz)
      in if sz = 0 then Inl (Invalid_argument ''size cannot be zero'')
         else Inr \<lparr>rb_size = n, rb_data = replicate (unat n) x, rb_front = 0, rb_count = 0\<rparr>)"

definition rb_empty :: "'a rbuf \<Rightarrow> bool" where
  "rb_empty r \<longleftrightarrow> rb_count r = 0"

definition rb_full :: "'a rbuf \<Rightarrow> bool" where
  "rb_full r \<longleftrightarrow> rb_count r = rb_size r"

definition rb_getCurrentIndex :: "'a rbuf \<Rightarrow> u64" where
  "rb_getCurrentIndex r = (rb_front r + rb_count r) AND (rb_size r - 1)"

text \<open>\<open>int end\<close> narrows the index to a signed 32-bit integer.\<close>

definition to_int :: "u64 \<Rightarrow> int" where
  "to_int x = sint (ucast x :: 32 word)"

definition rb_add :: "'a \<Rightarrow> 'a rbuf \<Rightarrow> 'a rbuf result" where
  "rb_add t r =
     (let e = to_int ((rb_front r + rb_count r) AND (rb_size r - 1))
      in if e < 0 then Inl Out_of_bounds
         else bind_r (array_set (rb_data r) (nat e) t) (\<lambda>d. Inr (r\<lparr>rb_data := d, rb_count := rb_count r + 1\<rparr>)))"

definition rb_peek :: "'a rbuf \<Rightarrow> 'a result" where
  "rb_peek r = array_get (rb_data r) (unat (rb_front r))"

definition rb_remove :: "'a rbuf \<Rightarrow> ('a \<times> 'a rbuf) result" where
  "rb_remove r =
     bind_r (array_get (rb_data r) (unat (rb_front r))) (\<lambda>t.
     let r = r\<lparr>rb_front := (rb_front r + 1) AND (rb_size r - 1)\<rparr>
     in ensure (0 < rb_count r) (Inr (t, r\<lparr>rb_count := rb_count r - 1\<rparr>)))"

definition rb_clear :: "'a rbuf \<Rightarrow> 'a rbuf" where
  "rb_clear r = r\<lparr>rb_front := 0, rb_count := 0\<rparr>"

text \<open>As a queue.\<close>

definition rb_ok :: "'a rbuf \<Rightarrow> bool" where
  "rb_ok r \<longleftrightarrow> (\<exists>k\<le>31. rb_size r = 2 ^ k \<and> length (rb_data r) = 2 ^ k) \<and> unat (rb_front r) < length (rb_data r)
     \<and> unat (rb_count r) \<le> length (rb_data r)"

definition rb_items :: "'a rbuf \<Rightarrow> 'a list" where
  "rb_items r = map (\<lambda>i. rb_data r ! ((unat (rb_front r) + i) mod length (rb_data r))) [0..<unat (rb_count r)]"

lemma to_int_small: "unat x < 2 ^ 31 \<Longrightarrow> to_int x = int (unat x)"
proof -
  assume a: "unat x < 2 ^ 31"
  have u: "int (unat x) = uint x" by simp
  have l: "uint x < 2 ^ 31" using a of_nat_less_iff [of "unat x" "2 ^ 31", where 'a = int] unfolding u by simp
  have "uint (ucast x :: 32 word) = take_bit 32 (uint x)" by (simp add: unsigned_ucast_eq)
  also have "\<dots> = uint x" by (rule take_bit_int_eq_self) (use l in simp_all)
  finally have c: "uint (ucast x :: 32 word) = uint x" .
  have "signed_take_bit 31 (uint x) = uint x" by (rule signed_take_bit_int_eq_self) (use l order_trans [of "- (2 ^ 31)" 0 "uint x"] in simp_all)
  then show "to_int x = int (unat x)" unfolding to_int_def sint_uint c u by simp
qed

lemma rb_index:
  assumes k: "k \<le> 31" "rb_size r = 2 ^ k" and s: "unat a < 2 ^ 40" "unat b < 2 ^ 40"
  shows "unat ((a + b) AND (rb_size r - 1)) = (unat a + unat b) mod 2 ^ k"
    and "to_int ((a + b) AND (rb_size r - 1)) = int ((unat a + unat b) mod 2 ^ k)"
proof -
  have u: "unat (a + b) = unat a + unat b" using s by (simp add: unat_word_ariths(1))
  show 1: "unat ((a + b) AND (rb_size r - 1)) = (unat a + unat b) mod 2 ^ k" using mask_pow2 [of k "a + b"] k u by simp
  have "(unat a + unat b) mod 2 ^ k < 2 ^ k" by simp
  also have "(2 :: nat) ^ k \<le> 2 ^ 31" using k(1) by (intro power_increasing) simp_all
  finally show "to_int ((a + b) AND (rb_size r - 1)) = int ((unat a + unat b) mod 2 ^ k)" using 1 to_int_small by metis
qed

lemma rb_okE:
  assumes "rb_ok r"
  obtains k where "k \<le> 31" "rb_size r = 2 ^ k" "length (rb_data r) = 2 ^ k" "unat (rb_front r) < 2 ^ k" "unat (rb_count r) \<le> 2 ^ k" "(2 :: nat) ^ k < 2 ^ 40"
proof -
  obtain k where k: "k \<le> 31" "rb_size r = 2 ^ k" "length (rb_data r) = 2 ^ k" using assms by (auto simp: rb_ok_def)
  moreover have "(2 :: nat) ^ k < 2 ^ 40" using k(1) power_strict_increasing [of k 40 "2 :: nat"] by simp
  ultimately show thesis using that assms by (simp add: rb_ok_def)
qed

lemma rb_add_ok:
  assumes ok: "rb_ok r" and room: "length (rb_items r) < length (rb_data r)"
  shows "\<exists>r'. rb_add t r = Inr r' \<and> rb_ok r' \<and> rb_items r' = rb_items r @ [t] \<and> length (rb_data r') = length (rb_data r)"
proof -
  from rb_okE [OF ok] obtain k where k: "k \<le> 31" "rb_size r = 2 ^ k" "length (rb_data r) = 2 ^ k" "unat (rb_front r) < 2 ^ k" "unat (rb_count r) \<le> 2 ^ k" "(2 :: nat) ^ k < 2 ^ 40" .
  let ?n = "unat (rb_count r)" and ?f = "unat (rb_front r)" and ?L = "(2 :: nat) ^ k"
  have n: "?n < ?L" using room k(3) by (simp add: rb_items_def)
  have e: "to_int ((rb_front r + rb_count r) AND (rb_size r - 1)) = int ((?f + ?n) mod ?L)" using rb_index(2) [OF k(1,2)] k(4,5,6) by simp
  have u: "unat (rb_count r + 1) = ?n + 1" using n k(6) by (simp add: unat_word_ariths(1))
  let ?r = "r\<lparr>rb_data := (rb_data r)[(?f + ?n) mod ?L := t], rb_count := rb_count r + 1\<rparr>"
  have a: "rb_add t r = Inr ?r" using e k(3) by (simp add: rb_add_def)
  have "map (\<lambda>i. (rb_data r)[(?f + ?n) mod ?L := t] ! ((?f + i) mod ?L)) [0..<?n] = map (\<lambda>i. rb_data r ! ((?f + i) mod ?L)) [0..<?n]"
  proof (rule map_cong [OF refl])
    fix i assume "i \<in> set [0..<?n]"
    then have "(?f + i) mod ?L \<noteq> (?f + ?n) mod ?L" using mod_add_inj [of ?f i ?L ?n] n by auto
    then show "(rb_data r)[(?f + ?n) mod ?L := t] ! ((?f + i) mod ?L) = rb_data r ! ((?f + i) mod ?L)" by simp
  qed
  then have "rb_items ?r = rb_items r @ [t]" using u k(3) by (simp add: rb_items_def del: map_eq_conv)
  moreover have "rb_ok ?r" using ok n u k by (auto simp: rb_ok_def)
  ultimately show ?thesis using a by simp
qed

lemma rb_remove_ok:
  assumes ok: "rb_ok r" and it: "rb_items r = x # xs"
  shows "\<exists>r'. rb_remove r = Inr (x, r') \<and> rb_ok r' \<and> rb_items r' = xs \<and> rb_data r' = rb_data r"
proof -
  from rb_okE [OF ok] obtain k where k: "k \<le> 31" "rb_size r = 2 ^ k" "length (rb_data r) = 2 ^ k" "unat (rb_front r) < 2 ^ k" "unat (rb_count r) \<le> 2 ^ k" "(2 :: nat) ^ k < 2 ^ 40" .
  let ?n = "unat (rb_count r)" and ?f = "unat (rb_front r)" and ?L = "(2 :: nat) ^ k"
  have n: "0 < ?n" using it by (auto simp: rb_items_def intro!: gr0I)
  then have c: "0 < rb_count r" by (simp add: word_less_nat_alt)
  have u: "unat (rb_count r - 1) = ?n - 1" using n by (metis One_nat_def Suc_leI unat_1 unat_sub word_le_nat_alt)
  have f: "unat ((rb_front r + 1) AND (rb_size r - 1)) = (?f + 1) mod ?L" using rb_index(1) [OF k(1,2), of "rb_front r" 1] k(4,6) by simp
  let ?r = "r\<lparr>rb_front := (rb_front r + 1) AND (rb_size r - 1), rb_count := rb_count r - 1\<rparr>"
  have "rb_remove r = Inr (rb_data r ! ?f, ?r)" using c k(3,4) by (simp add: rb_remove_def)
  moreover have up: "[0..<?n] = 0 # map Suc [0..<?n - 1]" using n by (metis map_Suc_upt One_nat_def Suc_pred' upt_conv_Cons)
  have "rb_items r = rb_data r ! ?f # map (\<lambda>i. rb_data r ! ((?f + Suc i) mod ?L)) [0..<?n - 1]"
    using k(3,4) unfolding rb_items_def up by simp
  moreover have "map (\<lambda>i. rb_data r ! ((?f + Suc i) mod ?L)) [0..<?n - 1] = rb_items ?r"
    using f u k(3) by (simp add: rb_items_def mod_add_left_eq)
  moreover have "rb_ok ?r" using ok f u k by (auto simp: rb_ok_def)
  ultimately show ?thesis using it by simp
qed

section \<open>Asynchronous reads and writes\<close>

text \<open>Both buffers keep a command per slot, the slots in submission order, and the slots in flight; the read buffer
  remembers the mailbox of the request, the write buffer the epoch.  \<open>iocbs\<close> is the array of submission pointers,
  \<open>inflight\<close> what was submitted and not yet reported (the kernel's state).\<close>

record 'm async_buffer =
  batch_max_size :: u64
  ready_to_submit :: nat
  outstanding_ios :: nat
  commands :: "(fref \<times> PID \<times> addr \<times> 'm) option list"
  iocbs_ptr :: "nat list"
  in_flight :: "nat list"
  free_slots :: "nat rbuf"

fun add_slots :: "nat list \<Rightarrow> nat rbuf \<Rightarrow> nat rbuf result" where
  "add_slots [] r = Inr r"
| "add_slots (s # ss) r = bind_r (rb_add s r) (add_slots ss)"

definition new_async_buffer :: "u64 \<Rightarrow> 'm async_buffer result" where
  "new_async_buffer n =
     bind_r (new_RingBuffer n 0) (\<lambda>r.
     bind_r (add_slots [0..<unat n] r) (\<lambda>r.
     Inr \<lparr>batch_max_size = n, ready_to_submit = 0, outstanding_ios = 0, commands = replicate (unat n) None,
          iocbs_ptr = replicate (unat n) 0, in_flight = [], free_slots = r\<rparr>))"

definition async_full :: "'m async_buffer \<Rightarrow> bool" where
  "async_full a \<longleftrightarrow> unat (batch_max_size a - 2) \<le> outstanding_ios a + ready_to_submit a"

definition async_add :: "fref \<Rightarrow> PID \<Rightarrow> addr option \<Rightarrow> 'm \<Rightarrow> 'm async_buffer \<Rightarrow> 'm async_buffer result" where
  "async_add bf p page info a =
     ensure (\<not> async_full a) (
     (case page of
        None \<Rightarrow> Inl Undefined
      | Some pg \<Rightarrow>
          ensure (pg mod 512 = 0) (
          ensure (outstanding_ios a + ready_to_submit a \<le> unat (batch_max_size a)) (
          bind_r (rb_remove (free_slots a)) (\<lambda>(slot, r).
          bind_r (array_set (commands a) slot (Some (bf, p, pg, info))) (\<lambda>cs.
          bind_r (array_set (iocbs_ptr a) (ready_to_submit a) slot) (\<lambda>ps.
          Inr (a\<lparr>free_slots := r, ready_to_submit := ready_to_submit a + 1, commands := cs, iocbs_ptr := ps\<rparr>))))))))"

text \<open>\<open>submit\<close>: \<open>taken\<close> is what \<open>io_submit\<close> returns.\<close>

definition async_submit :: "int \<Rightarrow> 'm async_buffer \<Rightarrow> (nat \<times> 'm async_buffer) result" where
  "async_submit taken a =
     (if 0 < ready_to_submit a then
        ensure (taken = int (ready_to_submit a)) (
        Inr (ready_to_submit a, a\<lparr>outstanding_ios := outstanding_ios a + ready_to_submit a, ready_to_submit := 0,
               in_flight := in_flight a @ take (ready_to_submit a) (iocbs_ptr a)\<rparr>))
      else Inr (0, a))"

text \<open>\<open>pollEventsSync\<close>: the kernel reports completions for some of the requests in flight (or an error).\<close>

definition async_poll :: "int + nat list \<Rightarrow> 'm async_buffer \<Rightarrow> (nat list \<times> 'm async_buffer) result" where
  "async_poll events a =
     (if 0 < outstanding_ios a then
        (case events of
           Inl e \<Rightarrow> Inl (Runtime_error ''io_getevents failed'')
         | Inr done \<Rightarrow>
             ensure (length done \<le> outstanding_ios a) (
             Inr (done, a\<lparr>outstanding_ios := outstanding_ios a - length done, in_flight := filter (\<lambda>s. s \<notin> set done) (in_flight a)\<rparr>)))
      else Inr ([], a))"

text \<open>\<open>getReadBfs\<close>, \<open>getWrittenBfs\<close>: every reported slot becomes free and its command is handed to the callback;
  \<open>short\<close> says for which the transfer was not a whole page.\<close>

fun async_collect :: "(nat \<Rightarrow> bool) \<Rightarrow> (fref \<times> PID \<times> addr \<times> 'm \<Rightarrow> 's \<Rightarrow> 's result) \<Rightarrow> nat list \<Rightarrow> 'm async_buffer \<Rightarrow> 's \<Rightarrow> ('m async_buffer \<times> 's) result" where
  "async_collect short callback [] a s = Inr (a, s)"
| "async_collect short callback (slot # slots) a s =
     bind_r (rb_add slot (free_slots a)) (\<lambda>r.
     ensure (\<not> short slot) (
     bind_r (array_get (commands a) slot) (\<lambda>c.
     case c of
       None \<Rightarrow> Inl Undefined
     | Some cmd \<Rightarrow> bind_r (callback cmd s) (async_collect short callback slots (a\<lparr>free_slots := r\<rparr>)))))"

section \<open>The slots\<close>

text \<open>Every slot is free, ready to be submitted, in flight or reported, and only once; a slot that is not free has a
  command.\<close>

definition slots_ok :: "'m async_buffer \<Rightarrow> nat list \<Rightarrow> bool" where
  "slots_ok a done \<longleftrightarrow>
     rb_ok (free_slots a) \<and> length (rb_data (free_slots a)) \<ge> unat (batch_max_size a) \<and> length (commands a) = unat (batch_max_size a)
     \<and> length (iocbs_ptr a) = unat (batch_max_size a) \<and> ready_to_submit a \<le> unat (batch_max_size a) \<and> outstanding_ios a = length (in_flight a)
     \<and> mset (rb_items (free_slots a) @ take (ready_to_submit a) (iocbs_ptr a) @ in_flight a @ done) = mset [0..<unat (batch_max_size a)]
     \<and> (\<forall>s\<in>set (take (ready_to_submit a) (iocbs_ptr a) @ in_flight a @ done). commands a ! s \<noteq> None) \<and> 2 \<le> batch_max_size a"

lemma slots_bounds:
  assumes "slots_ok a done"
  shows "length (rb_items (free_slots a)) + ready_to_submit a + length (in_flight a) + length done = unat (batch_max_size a)"
    and "s \<in> set (rb_items (free_slots a) @ take (ready_to_submit a) (iocbs_ptr a) @ in_flight a @ done) \<Longrightarrow> s < unat (batch_max_size a)"
    and "distinct (rb_items (free_slots a) @ take (ready_to_submit a) (iocbs_ptr a) @ in_flight a @ done)"
proof -
  have m: "mset (rb_items (free_slots a) @ take (ready_to_submit a) (iocbs_ptr a) @ in_flight a @ done) = mset [0..<unat (batch_max_size a)]"
    using assms by (simp only: slots_ok_def)
  have "ready_to_submit a \<le> length (iocbs_ptr a)" using assms by (simp add: slots_ok_def)
  then show "length (rb_items (free_slots a)) + ready_to_submit a + length (in_flight a) + length done = unat (batch_max_size a)"
    using mset_eq_length [OF m] by simp
  show "s < unat (batch_max_size a)" if "s \<in> set (rb_items (free_slots a) @ take (ready_to_submit a) (iocbs_ptr a) @ in_flight a @ done)"
    using that mset_eq_setD [OF m] by auto
  show "distinct (rb_items (free_slots a) @ take (ready_to_submit a) (iocbs_ptr a) @ in_flight a @ done)"
    using m by (metis distinct_upt mset_eq_imp_distinct_iff)
qed

lemma async_add_ok:
  assumes ok: "slots_ok a done" and nf: "\<not> async_full a" and pg: "page = Some pg" "pg mod 512 = 0" and d: "done = []"
  shows "\<exists>a'. async_add bf p page info a = Inr a' \<and> slots_ok a' done \<and> ready_to_submit a' = ready_to_submit a + 1"
proof -
  note b = slots_bounds [OF ok]
  have u2: "unat (batch_max_size a - 2) = unat (batch_max_size a) - 2" using ok by (simp add: slots_ok_def unat_sub)
  have lt: "outstanding_ios a + ready_to_submit a < unat (batch_max_size a) - 2" using nf u2 by (simp add: async_full_def)
  have o: "outstanding_ios a = length (in_flight a)" "length (iocbs_ptr a) = unat (batch_max_size a)" "length (commands a) = unat (batch_max_size a)"
     "rb_ok (free_slots a)" "length (rb_data (free_slots a)) \<ge> unat (batch_max_size a)" using ok by (simp_all add: slots_ok_def)
  have "rb_items (free_slots a) \<noteq> []" using b(1) lt o(1) d by auto
  then obtain s ss where it: "rb_items (free_slots a) = s # ss" by (cases "rb_items (free_slots a)") auto
  obtain r where r: "rb_remove (free_slots a) = Inr (s, r)" "rb_ok r" "rb_items r = ss" "rb_data r = rb_data (free_slots a)"
    using rb_remove_ok [OF o(4) it] by blast
  have s: "s < unat (batch_max_size a)" using b(2) [of s] it by simp
  let ?n = "ready_to_submit a"
  let ?a = "a\<lparr>free_slots := r, ready_to_submit := ?n + 1, commands := (commands a)[s := Some (bf, p, pg, info)], iocbs_ptr := (iocbs_ptr a)[?n := s]\<rparr>"
  have n: "?n < length (iocbs_ptr a)" using lt o by simp
  have tk: "take (?n + 1) ((iocbs_ptr a)[?n := s]) = take ?n (iocbs_ptr a) @ [s]" using n by (simp add: take_Suc_conv_app_nth)
  have "async_add bf p page info a = Inr ?a" using nf pg r(1) s n o lt by (simp add: async_add_def)
  moreover have "slots_ok ?a done"
  proof -
    have m: "mset (rb_items r @ (take ?n (iocbs_ptr a) @ [s]) @ in_flight a @ done) = mset [0..<unat (batch_max_size a)]"
      using ok it r(3) by (simp add: slots_ok_def)
    have c: "\<forall>x\<in>set ((take ?n (iocbs_ptr a) @ [s]) @ in_flight a @ done). (commands a)[s := Some (bf, p, pg, info)] ! x \<noteq> None"
      using ok s o(3) by (auto simp: slots_ok_def nth_list_update)
    show ?thesis unfolding slots_ok_def using ok r n m c tk lt o by (simp add: slots_ok_def)
  qed
  ultimately show ?thesis by auto
qed

lemma async_submit_ok:
  assumes ok: "slots_ok a done"
  shows "\<exists>a'. async_submit (int (ready_to_submit a)) a = Inr (ready_to_submit a, a') \<and> slots_ok a' done \<and> ready_to_submit a' = 0
     \<and> in_flight a' = in_flight a @ take (ready_to_submit a) (iocbs_ptr a) \<and> commands a' = commands a"
proof (cases "0 < ready_to_submit a")
  case True
  let ?a = "a\<lparr>outstanding_ios := outstanding_ios a + ready_to_submit a, ready_to_submit := 0, in_flight := in_flight a @ take (ready_to_submit a) (iocbs_ptr a)\<rparr>"
  have "mset (rb_items (free_slots a) @ in_flight a @ take (ready_to_submit a) (iocbs_ptr a) @ done) = mset [0..<unat (batch_max_size a)]"
    using ok by (simp add: slots_ok_def ac_simps)
  moreover have "\<forall>s\<in>set (in_flight a @ take (ready_to_submit a) (iocbs_ptr a) @ done). commands a ! s \<noteq> None" using ok by (auto simp: slots_ok_def)
  ultimately have "slots_ok ?a done" using ok unfolding slots_ok_def by (simp add: min_absorb2)
  then show ?thesis using True by (simp add: async_submit_def)
next
  case False
  then show ?thesis using ok by (simp add: async_submit_def)
qed

lemma async_poll_ok:
  assumes ok: "slots_ok a []" and ev: "distinct done" "set done \<subseteq> set (in_flight a)"
  shows "\<exists>a'. async_poll (Inr done) a = Inr (done, a') \<and> slots_ok a' done \<and> commands a' = commands a \<and> ready_to_submit a' = ready_to_submit a
     \<and> in_flight a' = filter (\<lambda>s. s \<notin> set done) (in_flight a)"
proof (cases "0 < outstanding_ios a")
  case True
  have di: "distinct (in_flight a)" using slots_bounds(3) [OF ok] by simp
  let ?f = "filter (\<lambda>s. s \<notin> set done) (in_flight a)"
  have m: "mset (in_flight a) = mset ?f + mset done"
  proof -
    have "mset (filter (\<lambda>s. s \<in> set done) (in_flight a)) = mset done"
      using di ev by (intro set_eq_iff_mset_eq_distinct [THEN iffD1]) auto
    moreover have "mset (in_flight a) = mset (filter (\<lambda>s. s \<in> set done) (in_flight a)) + mset ?f"
      using multiset_partition [of "mset (in_flight a)" "\<lambda>s. s \<in> set done"] by (simp only: mset_filter)
    ultimately show ?thesis by (metis add.commute)
  qed
  have len: "length (in_flight a) = length ?f + length done" using arg_cong [OF m, of size] by (simp only: size_union size_mset)
  let ?a = "a\<lparr>outstanding_ios := outstanding_ios a - length done, in_flight := ?f\<rparr>"
  have m2: "mset (rb_items (free_slots a) @ take (ready_to_submit a) (iocbs_ptr a) @ ?f @ done) = mset [0..<unat (batch_max_size a)]"
  proof -
    have "mset (rb_items (free_slots a) @ take (ready_to_submit a) (iocbs_ptr a) @ in_flight a) = mset [0..<unat (batch_max_size a)]"
      using ok by (simp add: slots_ok_def)
    then show ?thesis unfolding mset_append m by (simp only: add.assoc)
  qed
  have "set ?f \<union> set done \<subseteq> set (in_flight a)" using ev(2) by auto
  then have c2: "\<forall>s\<in>set (take (ready_to_submit a) (iocbs_ptr a) @ ?f @ done). commands a ! s \<noteq> None"
    using ok unfolding slots_ok_def by (metis (no_types, lifting) Un_iff set_append subsetD)
  have o2: "outstanding_ios a - length done = length ?f" using ok len by (simp add: slots_ok_def)
  have "slots_ok ?a done" using ok m2 c2 o2 unfolding slots_ok_def by simp
  moreover have "async_poll (Inr done) a = Inr (done, ?a)" using True len ok by (simp add: async_poll_def slots_ok_def)
  ultimately show ?thesis by simp
next
  case False
  then have "in_flight a = []" using ok by (simp add: slots_ok_def)
  then show ?thesis using False ev ok by (simp add: async_poll_def)
qed

text \<open>The callbacks run on the commands of the reported slots, in order.\<close>

fun run_callbacks :: "('cmd \<Rightarrow> 's \<Rightarrow> 's result) \<Rightarrow> 'cmd list \<Rightarrow> 's \<Rightarrow> 's result" where
  "run_callbacks cb [] s = Inr s"
| "run_callbacks cb (c # cs) s = bind_r (cb c s) (run_callbacks cb cs)"

lemma async_collect_ok:
  fixes a :: "'m async_buffer"
  assumes "slots_ok a done" and "\<And>s. \<not> short s"
  shows "\<exists>a'. async_collect short cb done a s = bind_r (run_callbacks cb (map (\<lambda>k. the (commands a ! k)) done) s) (\<lambda>s. Inr (a', s)) \<and> slots_ok a' []"
  using assms(1)
proof (induction "done" arbitrary: a s)
  case (Cons k ks)
  note b = slots_bounds [OF Cons.prems]
  have o: "rb_ok (free_slots a)" "length (rb_data (free_slots a)) \<ge> unat (batch_max_size a)" "length (commands a) = unat (batch_max_size a)" "commands a ! k \<noteq> None"
    using Cons.prems by (simp_all add: slots_ok_def)
  have "length (rb_items (free_slots a)) < length (rb_data (free_slots a))" using b(1) o(2) by simp
  then obtain r where r: "rb_add k (free_slots a) = Inr r" "rb_ok r" "rb_items r = rb_items (free_slots a) @ [k]" "length (rb_data r) = length (rb_data (free_slots a))"
    using rb_add_ok [OF o(1)] by blast
  let ?a = "a\<lparr>free_slots := r\<rparr>"
  have m: "mset (rb_items r @ take (ready_to_submit a) (iocbs_ptr a) @ in_flight a @ ks) = mset [0..<unat (batch_max_size a)]"
    using Cons.prems r(3) by (simp add: slots_ok_def)
  have sa: "slots_ok ?a ks" using Cons.prems r m unfolding slots_ok_def by simp
  have k: "k < length (commands a)" using b(2) [of k] o(3) by simp
  obtain cmd where cmd: "commands a ! k = Some cmd" using o(4) by blast
  have st: "async_collect short cb (k # ks) a s = bind_r (cb cmd s) (async_collect short cb ks ?a)"
    using r(1) assms(2) k cmd by simp
  show ?case
  proof (cases "cb cmd s")
    case (Inl e)
    have "\<exists>a' :: 'm async_buffer. slots_ok a' []" using Cons.IH [OF sa, of s] by blast
    then show ?thesis using Inl st cmd by simp
  next
    case (Inr s')
    then show ?thesis using st cmd Cons.IH [OF sa, of s'] by simp
  qed
qed simp

lemma add_slots_ok:
  assumes "rb_ok r" and "length (rb_items r) + length ss \<le> length (rb_data r)"
  shows "\<exists>r'. add_slots ss r = Inr r' \<and> rb_ok r' \<and> rb_items r' = rb_items r @ ss \<and> length (rb_data r') = length (rb_data r)"
  using assms
proof (induction ss arbitrary: r)
  case (Cons s ss)
  then obtain r1 where r1: "rb_add s r = Inr r1" "rb_ok r1" "rb_items r1 = rb_items r @ [s]" "length (rb_data r1) = length (rb_data r)"
    using rb_add_ok [OF Cons.prems(1), of s] by auto
  then show ?case using Cons.IH [OF r1(2)] Cons.prems(2) by auto
qed simp

lemma new_async_buffer_ok:
  assumes n: "n = 2 ^ k" "1 \<le> k" "k \<le> 31"
  shows "\<exists>a :: 'm async_buffer. new_async_buffer n = Inr a \<and> slots_ok a [] \<and> in_flight a = [] \<and> ready_to_submit a = 0 \<and> batch_max_size a = n"
proof -
  have u: "unat n = 2 ^ k"
  proof -
    have "unat (of_nat (2 ^ k) :: u64) = 2 ^ k" using n(3) power_strict_increasing [of k 64 "2 :: nat"] by (subst unat_of_nat) simp
    then show ?thesis using n(1) by simp
  qed
  have nz: "n \<noteq> 0" using u by auto
  have "unat (n AND (n - 1)) = 0" using mask_pow2 [of k n] n(1,3) u by simp
  then have p: "powerOfTwo n" using nz by (simp add: powerOfTwo_def unat_eq_0)
  let ?r = "\<lparr>rb_size = n, rb_data = replicate (unat n) 0, rb_front = 0, rb_count = 0\<rparr> :: nat rbuf"
  have ok: "rb_ok ?r" "rb_items ?r = []" using n u by (auto simp: rb_ok_def rb_items_def)
  obtain r where r: "add_slots [0..<unat n] ?r = Inr r" "rb_ok r" "rb_items r = [0..<unat n]" "length (rb_data r) = unat n"
    using add_slots_ok [OF ok(1), of "[0..<unat n]"] ok(2) by auto
  have "2 \<le> n" using u n(2) power_increasing [of 1 k "2 :: nat"] by (simp add: word_le_nat_alt)
  then show ?thesis using p nz r by (simp add: new_async_buffer_def new_RingBuffer_def Let_def slots_ok_def)
qed


text \<open>a round of the asynchronous buffers.  From any state the operations lead to, submitting what is ready and
  collecting whatever completions the kernel reports for requests in flight runs the callback once for each of them,
  on the frame and page id it was added with, and keeps every slot free, ready or in flight exactly once; a buffer that
  is not full always has a slot for another page.\<close>

theorem async_round:
  assumes "slots_ok a []" and "distinct events" and "set events \<subseteq> set (in_flight a @ take (ready_to_submit a) (iocbs_ptr a))" and "\<And>s. \<not> short s"
  shows "\<exists>a1 a2 a3. async_submit (int (ready_to_submit a)) a = Inr (ready_to_submit a, a1) \<and> async_poll (Inr events) a1 = Inr (events, a2)
     \<and> async_collect short cb events a2 s = bind_r (run_callbacks cb (map (\<lambda>k. the (commands a ! k)) events) s) (\<lambda>s. Inr (a3, s))
     \<and> slots_ok a3 []
     \<and> (\<not> async_full a \<longrightarrow> (\<exists>a'. async_add bf p (Some 512) info a = Inr a' \<and> slots_ok a' []))"
proof -
  obtain a1 where a1: "async_submit (int (ready_to_submit a)) a = Inr (ready_to_submit a, a1)" "slots_ok a1 []"
      "in_flight a1 = in_flight a @ take (ready_to_submit a) (iocbs_ptr a)" "commands a1 = commands a"
    using async_submit_ok [OF assms(1)] by blast
  obtain a2 where a2: "async_poll (Inr events) a1 = Inr (events, a2)" "slots_ok a2 events" "commands a2 = commands a1"
    using async_poll_ok [OF a1(2) assms(2)] assms(3) a1(3) by auto
  obtain a3 where "async_collect short cb events a2 s = bind_r (run_callbacks cb (map (\<lambda>k. the (commands a ! k)) events) s) (\<lambda>s. Inr (a3, s))" "slots_ok a3 []"
    using async_collect_ok [where a = a2 and short = short and cb = cb and s = s, OF a2(2)] assms(4) a2(3) a1(4) by auto
  then show ?thesis using a1(1) a2(1) async_add_ok [OF assms(1), of "Some 512" 512 bf p info] by auto
qed

theorem async_round_witness:
  "\<exists>a a1 a2 a3. new_async_buffer 4 = Inr a \<and> async_submit 0 a = Inr (0, a1) \<and> async_poll (Inr []) a1 = Inr ([], a2)
     \<and> async_collect (\<lambda>_. False) (\<lambda>c n. Inr (n + 1)) [] a2 (0 :: nat) = Inr (a3, 0) \<and> slots_ok (a3 :: unit async_buffer) []"
proof -
  obtain a :: "unit async_buffer" where a: "new_async_buffer 4 = Inr a" "slots_ok a []" "ready_to_submit a = 0"
    using new_async_buffer_ok [of 4 2] by auto
  then show ?thesis using async_round [OF a(2), of "[]" "\<lambda>_. False" "\<lambda>c n. Inr (n + 1)" 0 0 EMPTY_PID "()"] by auto
qed

end
