(* ===== verification/Messages.thy ===== *)
theory Messages
  imports Frame
begin

text \<open>
  The messages between nodes (rdma/messages/Messages.hpp).  A member the constructor leaves uninitialised is an
  option, \<open>None\<close> until it is assigned: the message is built in a buffer that still holds an older one.
\<close>

datatype MESSAGE_TYPE = Empty | Finish | PRX | PRS | PRRX | PRRS | PMR | PMRR | PCR | PCRR | PUR | PURR | RAR | RARR
  | PRFR | PRFRR | DPMR | DR | DRR | Init | Test

fun message_code :: "MESSAGE_TYPE \<Rightarrow> u8" where
  "message_code Empty = 0"
| "message_code Finish = 1"
| "message_code PRX = 2"
| "message_code PRS = 3"
| "message_code PRRX = 4"
| "message_code PRRS = 5"
| "message_code PMR = 6"
| "message_code PMRR = 7"
| "message_code PCR = 8"
| "message_code PCRR = 9"
| "message_code PUR = 10"
| "message_code PURR = 11"
| "message_code RAR = 12"
| "message_code RARR = 13"
| "message_code PRFR = 14"
| "message_code PRFRR = 15"
| "message_code DPMR = 96"
| "message_code DR = 97"
| "message_code DRR = 98"
| "message_code Init = 99"
| "message_code Test = 100"

datatype RESULT = WithPage | NoPage | NoPageSharedConflict | NoPageExclusiveConflict | WithPageSharedConflict | NoPageEvicted
  | UpdateFailed | UpdateSucceed | UpdateSucceedWithSharedConflict | CopyFailedWithRestart | CopyFailedWithInvalidation

fun result_code :: "RESULT \<Rightarrow> u8" where
  "result_code WithPage = 1"
| "result_code NoPage = 2"
| "result_code NoPageSharedConflict = 3"
| "result_code NoPageExclusiveConflict = 4"
| "result_code WithPageSharedConflict = 5"
| "result_code NoPageEvicted = 6"
| "result_code UpdateFailed = 7"
| "result_code UpdateSucceed = 8"
| "result_code UpdateSucceedWithSharedConflict = 9"
| "result_code CopyFailedWithRestart = 10"
| "result_code CopyFailedWithInvalidation = 11"

section \<open>Requests and responses\<close>

record PossessionRequest =
  pr_type :: MESSAGE_TYPE
  pr_pid :: PID
  pr_pageOffset :: addr

record PossessionResponse =
  prr_type :: MESSAGE_TYPE
  prr_resultType :: RESULT
  prr_conflictingNodeId :: "u64 option"
  prr_pVersion :: "u64 option"
  prr_delegated :: bool

definition mk_PossessionResponse :: "RESULT \<Rightarrow> PossessionResponse" where
  "mk_PossessionResponse r = \<lparr>prr_type = PRRS, prr_resultType = r, prr_conflictingNodeId = None, prr_pVersion = None, prr_delegated = False\<rparr>"

record PossessionMoveRequest =
  pm_needPage :: bool
  pm_pid :: PID
  pm_pageOffset :: addr
  pm_pVersion :: u64

record PossessionCopyRequest =
  pc_pid :: PID
  pc_pageOffset :: addr
  pc_pVersion :: u64

record PossessionUpdateRequest =
  pu_pid :: PID
  pu_pVersion :: u64

record PossessionUpdateResponse =
  pur_resultType :: RESULT
  pur_conflictingNodeId :: "u64 option"
  pur_pVersion :: "u64 option"

definition mk_PossessionUpdateResponse :: "RESULT \<Rightarrow> PossessionUpdateResponse" where
  "mk_PossessionUpdateResponse r = \<lparr>pur_resultType = r, pur_conflictingNodeId = None, pur_pVersion = None\<rparr>"

record DelegationRequest =
  dr_mbOffset :: addr
  dr_mbPayload :: addr
  dr_bmId :: u64

datatype Message =
    EmptyMessage
  | FinishRequest
  | PossessionReq PossessionRequest
  | PossessionResp PossessionResponse
  | PossessionMoveReq PossessionMoveRequest
  | PossessionMoveResponse RESULT
  | PossessionCopyReq PossessionCopyRequest
  | PossessionCopyResponse RESULT
  | PossessionUpdateReq PossessionUpdateRequest
  | PossessionUpdateResp PossessionUpdateResponse
  | RemoteAllocationRequest
  | RemoteAllocationResponse PID
  | DelegationReq DelegationRequest
  | DelegationResponse

text \<open>The type the constructors store.\<close>

fun message_type :: "Message \<Rightarrow> MESSAGE_TYPE" where
  "message_type EmptyMessage = Empty"
| "message_type FinishRequest = Finish"
| "message_type (PossessionReq r) = pr_type r"
| "message_type (PossessionResp r) = prr_type r"
| "message_type (PossessionMoveReq r) = PMR"
| "message_type (PossessionMoveResponse r) = PMRR"
| "message_type (PossessionCopyReq r) = PCR"
| "message_type (PossessionCopyResponse r) = PCRR"
| "message_type (PossessionUpdateReq r) = PUR"
| "message_type (PossessionUpdateResp r) = PURR"
| "message_type RemoteAllocationRequest = RAR"
| "message_type (RemoteAllocationResponse p) = RARR"
| "message_type (DelegationReq r) = DR"
| "message_type DelegationResponse = DRR"

text \<open>Sizes in bytes: the packed structs are the sums of their members, the others are padded to the alignment of
  their widest member.\<close>

definition pad :: "nat \<Rightarrow> nat \<Rightarrow> nat" where
  "pad al n = (n + al - 1) div al * al"

fun message_size :: "Message \<Rightarrow> nat" where
  "message_size EmptyMessage = 1"
| "message_size FinishRequest = 1"
| "message_size (PossessionReq r) = pad 8 (8 + 8 + 8)"
| "message_size (PossessionResp r) = 1 + 1 + 8 + 8 + 1 + 1"
| "message_size (PossessionMoveReq r) = 1 + 1 + 8 + 8 + 8"
| "message_size (PossessionMoveResponse r) = 1 + 1 + 1"
| "message_size (PossessionCopyReq r) = 1 + 8 + 8 + 8"
| "message_size (PossessionCopyResponse r) = 1 + 1 + 1"
| "message_size (PossessionUpdateReq r) = pad 8 (8 + 8 + 8)"
| "message_size (PossessionUpdateResp r) = 1 + 1 + 8 + 8 + 1"
| "message_size RemoteAllocationRequest = 1"
| "message_size (RemoteAllocationResponse p) = pad 8 (8 + 8 + 1)"
| "message_size (DelegationReq r) = pad 8 (8 + 8 + 8 + 8)"
| "message_size DelegationResponse = 1 + 1"

definition LARGEST_MESSAGE :: nat where
  "LARGEST_MESSAGE = 32"

lemma message_fits: "message_size m \<le> LARGEST_MESSAGE"
  by (cases m) (simp_all add: LARGEST_MESSAGE_def pad_def)

end
