(* ===== verification/MessageHandler.thy ===== *)
theory MessageHandler
  imports PageTable_Spec AsyncIO Messages
begin

text \<open>
  The message handler (rdma/MessageHandler.hpp, rdma/MessageHandler.cpp): the requests of remote workers, answered by
  changing possession in the local buffer manager and by writing pages and responses to the requester; the batches of
  pages that may only be reused once the writes that read them have completed; the loop over the mailboxes.
\<close>

section \<open>State\<close>

text \<open>The command line flags the handler reads, and whether a polled completion reports success.\<close>

record mh_flags =
  pollingInterval :: u64
  messageHandlerMaxRetries :: u64
  wc_success :: bool

record InvalidationBatch =
  ib_batch :: "addr option list"
  ib_elements :: nat

definition new_InvalidationBatch :: "mh_flags \<Rightarrow> InvalidationBatch" where
  "new_InvalidationBatch fl = \<lparr>ib_batch = replicate (unat (pollingInterval fl + 1)) None, ib_elements = 0\<rparr>"

definition ib_empty :: "InvalidationBatch \<Rightarrow> bool" where
  "ib_empty b \<longleftrightarrow> ib_elements b = 0"

definition ib_add :: "mh_flags \<Rightarrow> addr option \<Rightarrow> InvalidationBatch \<Rightarrow> InvalidationBatch result" where
  "ib_add fl page b =
     ensure (ib_elements b \<le> unat (pollingInterval fl)) (
     bind_r (array_set (ib_batch b) (ib_elements b) page) (\<lambda>a. Inr (b\<lparr>ib_batch := a, ib_elements := ib_elements b + 1\<rparr>)))"

definition ib_reset :: "InvalidationBatch \<Rightarrow> InvalidationBatch" where
  "ib_reset b = b\<lparr>ib_elements := 0\<rparr>"

record InflightCopyRequest =
  icr_inflight :: bool
  icr_pid :: PID
  icr_pVersion :: u64

record ConnectionContext =
  request :: Message
  wqe :: u64
  bmId :: NodeID
  activeB :: InvalidationBatch
  passiveB :: InvalidationBatch
  retries :: u64
  remoteMbOffsets :: "addr list"
  remotePlOffsets :: "addr list"

text \<open>What the handler posts to the network: a message, or a page and then a message.\<close>

datatype rdma_op = PostMsg nat Message | PostPage nat "addr option" addr Message

record mhandler =
  mbm :: bufmgr
  mailboxes :: "u8 list"
  cctxs :: "ConnectionContext list"
  inflightCRs :: "InflightCopyRequest list"
  asyncReads :: "(nat \<times> bool) async_buffer"
  posted :: "rdma_op list"
  connectedClients :: u64

definition upd_ctx :: "nat \<Rightarrow> (ConnectionContext \<Rightarrow> ConnectionContext) \<Rightarrow> mhandler \<Rightarrow> mhandler" where
  "upd_ctx c u s = s\<lparr>cctxs := (cctxs s)[c := u (cctxs s ! c)]\<rparr>"

definition upd_bf :: "fref \<Rightarrow> (BufferFrame \<Rightarrow> BufferFrame) \<Rightarrow> mhandler \<Rightarrow> mhandler" where
  "upd_bf i u s = s\<lparr>mbm := upd_frame i u (mbm s)\<rparr>"

definition mbf :: "mhandler \<Rightarrow> fref \<Rightarrow> BufferFrame" where
  "mbf s i = bfs (mbm s) ! i"

definition set_mailbox :: "nat \<Rightarrow> mhandler \<Rightarrow> mhandler" where
  "set_mailbox k s = s\<lparr>mailboxes := (mailboxes s)[k := 1]\<rparr>"

section \<open>Reclaiming pages and posting messages\<close>

fun push_pages :: "addr option list \<Rightarrow> bufmgr \<Rightarrow> bufmgr result" where
  "push_pages [] m = Inr m"
| "push_pages (None # ps) m = Inl Undefined"
| "push_pages (Some p # ps) m = push_pages ps (m\<lparr>pageFree := p # pageFree m\<rparr>)"

definition reclaimInvalidations :: "nat \<Rightarrow> mhandler \<Rightarrow> mhandler result" where
  "reclaimInvalidations c s =
     (let b = passiveB (cctxs s ! c)
      in if ib_empty b then Inr s
         else bind_r (push_pages (take (ib_elements b) (ib_batch b)) (mbm s)) (\<lambda>m.
              Inr (upd_ctx c (\<lambda>x. x\<lparr>passiveB := ib_reset (passiveB x)\<rparr>) (s\<lparr>mbm := m\<rparr>))))"

text \<open>The common end of the functions that post: every \<open>pollingInterval\<close>-th post waits for its completion; then the
  pages of the passive batch are free, and the batches change places.\<close>

definition after_post :: "mh_flags \<Rightarrow> nat \<Rightarrow> mhandler \<Rightarrow> mhandler result" where
  "after_post fl c s =
     (let SIGNAL = pollingInterval fl - 1
      in bind_r (if wqe (cctxs s ! c) AND SIGNAL = SIGNAL then
                   (if \<not> wc_success fl then Inl (Runtime_error ''terminate'')
                    else bind_r (reclaimInvalidations c s) (\<lambda>s.
                         Inr (upd_ctx c (\<lambda>x. x\<lparr>activeB := passiveB x, passiveB := activeB x\<rparr>) s)))
                 else Inr s) (\<lambda>s.
         Inr (upd_ctx c (\<lambda>x. x\<lparr>wqe := wqe x + 1\<rparr>) s)))"

definition writeMsg :: "mh_flags \<Rightarrow> nat \<Rightarrow> Message \<Rightarrow> mhandler \<Rightarrow> mhandler result" where
  "writeMsg fl c msg s = after_post fl c (s\<lparr>posted := posted s @ [PostMsg c msg]\<rparr>)"

definition writePageAndMsg :: "mh_flags \<Rightarrow> nat \<Rightarrow> addr option \<Rightarrow> addr \<Rightarrow> Message \<Rightarrow> mhandler \<Rightarrow> mhandler result" where
  "writePageAndMsg fl c page pageOffset msg s = after_post fl c (s\<lparr>posted := posted s @ [PostPage c page pageOffset msg]\<rparr>)"

definition park_page :: "mh_flags \<Rightarrow> nat \<Rightarrow> addr option \<Rightarrow> mhandler \<Rightarrow> mhandler result" where
  "park_page fl c page s =
     bind_r (ib_add fl page (activeB (cctxs s ! c))) (\<lambda>b. Inr (upd_ctx c (\<lambda>x. x\<lparr>activeB := b\<rparr>) s))"

definition unlatch_bf :: "fref \<Rightarrow> mhandler \<Rightarrow> mhandler result" where
  "unlatch_bf i s = bind_r (unlatchExclusive (bflatch (mbf s i))) (\<lambda>l. Inr (upd_bf i (\<lambda>f. f\<lparr>bflatch := l\<rparr>) s))"

section \<open>Possession requests\<close>

text \<open>
  What the owner decides for a frame it holds exclusively: the response, whether the page goes with it, and the frame
  as it is to be left (before its page is taken away and its latch released).  \<open>node\<close> is the owner, \<open>client\<close> the
  requesting node.
\<close>

definition grant_shared :: "NodeID \<Rightarrow> NodeID \<Rightarrow> PossessionResponse \<Rightarrow> BufferFrame \<Rightarrow> (PossessionResponse \<times> bool \<times> BufferFrame) result" where
  "grant_shared node client r f =
     (if possession f = EXCLUSIVE_P then
        let f = f\<lparr>pVersion := pVersion f + 1\<rparr>
        in if possessors f = node then
             ensure (state f = HOT) (
             bind_r (setPossessor node (f\<lparr>possessors := 0, possession := SHARED_P\<rparr>)) (\<lambda>f.
             ensure (state f = HOT) (
             bind_r (setPossessor client f) (\<lambda>f'.
             Inr (r\<lparr>prr_resultType := WithPage, prr_pVersion := Some (pVersion f)\<rparr>, True, f')))))
           else
             ensure (state f = EVICTED) (ensure (\<not> isPossessor node f) (
             let r = r\<lparr>prr_resultType := NoPageExclusiveConflict, prr_conflictingNodeId := Some (possessors f), prr_pVersion := Some (pVersion f)\<rparr>
             in bind_r (setPossessor client (f\<lparr>possessors := 0, possession := SHARED_P\<rparr>)) (\<lambda>f. Inr (r, False, f))))
      else if state f = EVICTED then
        ensure (\<not> isPossessor node f) (
        let r = r\<lparr>prr_resultType := NoPageEvicted, prr_conflictingNodeId := Some (possessors f), prr_pVersion := Some (pVersion f)\<rparr>
        in bind_r (setPossessor client f) (\<lambda>f. Inr (r, False, f)))
      else bind_r (setPossessor client f) (\<lambda>f'. Inr (r\<lparr>prr_pVersion := Some (pVersion f)\<rparr>, True, f')))"

definition grant_exclusive :: "NodeID \<Rightarrow> NodeID \<Rightarrow> PossessionResponse \<Rightarrow> BufferFrame \<Rightarrow> (PossessionResponse \<times> bool \<times> BufferFrame) result" where
  "grant_exclusive node client r f =
     (let f = f\<lparr>pVersion := pVersion f + 1, dirty := True\<rparr>
      in if possession f = SHARED_P then
           let f = f\<lparr>possessors := bm64_reset (possessors f) node\<rparr>
           in if bm64_any (possessors f) \<and> state f = EVICTED then
                let r = r\<lparr>prr_resultType := NoPageSharedConflict, prr_conflictingNodeId := Some (possessors f), prr_pVersion := Some (pVersion f)\<rparr>
                in bind_r (setPossessor client (f\<lparr>possession := EXCLUSIVE_P\<rparr>)) (\<lambda>f. Inr (r, False, f))
              else
                let r = (if bm64_any (possessors f) then r\<lparr>prr_resultType := WithPageSharedConflict, prr_conflictingNodeId := Some (possessors f)\<rparr> else r)
                in ensure (state f = HOT) (
                   bind_r (setPossessor client (f\<lparr>possession := EXCLUSIVE_P, state := EVICTED\<rparr>)) (\<lambda>f'.
                   Inr (r\<lparr>prr_pVersion := Some (pVersion f)\<rparr>, True, f')))
         else if possessors f \<noteq> node then
           ensure (state f = EVICTED) (ensure (\<not> isPossessor node f) (
           let r = r\<lparr>prr_resultType := NoPageExclusiveConflict, prr_conflictingNodeId := Some (possessors f), prr_pVersion := Some (pVersion f)\<rparr>
           in bind_r (setPossessor client f) (\<lambda>f. Inr (r, False, f))))
         else
           ensure (state f = HOT) (
           bind_r (setPossessor client (f\<lparr>state := EVICTED\<rparr>)) (\<lambda>f'. Inr (r\<lparr>prr_pVersion := Some (pVersion f)\<rparr>, True, f'))))"

definition grant :: "POSSESSION \<Rightarrow> NodeID \<Rightarrow> NodeID \<Rightarrow> BufferFrame \<Rightarrow> (PossessionResponse \<times> bool \<times> BufferFrame) result" where
  "grant desired node client f =
     (let r = (mk_PossessionResponse WithPage)\<lparr>prr_type := (if desired = SHARED_P then PRRS else PRRX)\<rparr>
      in if desired = SHARED_P then grant_shared node client r f
         else grant_exclusive node client r f)"

text \<open>Answering with a message only; a shared request for a page that is not here registers a possible copy request.\<close>

definition answer_without_page :: "mh_flags \<Rightarrow> nat \<Rightarrow> nat \<Rightarrow> fref \<Rightarrow> PossessionResponse \<Rightarrow> BufferFrame \<Rightarrow> mhandler \<Rightarrow> mhandler result" where
  "answer_without_page fl c m_i i r f' s =
     bind_r (writeMsg fl c (PossessionResp r) s) (\<lambda>s.
     let s = (if prr_resultType r = NoPageEvicted
              then s\<lparr>inflightCRs := (inflightCRs s)[m_i := \<lparr>icr_inflight = True, icr_pid = pid (mbf s i), icr_pVersion = pVersion (mbf s i)\<rparr>]\<rparr> else s)
     in unlatch_bf i (upd_bf i (\<lambda>_. f') s))"

text \<open>Answering with the page; the frame of an evicted page gives its page to the active batch.\<close>

definition answer_with_page :: "mh_flags \<Rightarrow> NodeID \<Rightarrow> nat \<Rightarrow> fref \<Rightarrow> addr \<Rightarrow> PossessionResponse \<Rightarrow> BufferFrame \<Rightarrow> mhandler \<Rightarrow> mhandler result" where
  "answer_with_page fl client c i pageOffset r f' s =
     (let s = upd_bf i (\<lambda>_. f') s
      in ensure (isPossessor client f') (ensure (pageP f' \<noteq> None) (
         ensure (prr_resultType r = WithPageSharedConflict \<or> prr_resultType r = WithPage) (
         bind_r (writePageAndMsg fl c (pageP f') pageOffset (PossessionResp r) s) (\<lambda>s.
         bind_r (if state f' = EVICTED then
                   bind_r (park_page fl c (pageP f') s) (\<lambda>s. Inr (upd_bf i (\<lambda>f. f\<lparr>pageP := None\<rparr>) s))
                 else Inr s) (\<lambda>s.
         unlatch_bf i s))))))"

definition possession_body :: "mh_flags \<Rightarrow> POSSESSION \<Rightarrow> PossessionRequest \<Rightarrow> nat \<Rightarrow> nat \<Rightarrow> fref Guard \<Rightarrow> mhandler \<Rightarrow> mhandler result" where
  "possession_body fl desired rq c m_i g s =
     (let i = the (gframe g); f = mbf s i; node = bmNode (mbm s); client = bmId (cctxs s ! c)
      in if gstate g = RETRY then ensure (latchState g \<noteq> EXCLUSIVE) (Inr (set_mailbox m_i s))
         else if gstate g = SSD then
           ensure (isLatched (bflatch f)) (ensure (pageP f \<noteq> None) (
           if async_full (asyncReads s) then Inl (Runtime_error ''read buffer is full '')
           else bind_r (setPossessor node (f\<lparr>state := HOT, epoch := globalEpoch (mbm s), possession := SHARED_P\<rparr>)) (\<lambda>f.
                let f = f\<lparr>dirty := False\<rparr>
                in bind_r (async_add i (pid f) (pageP f) (m_i, True) (asyncReads s)) (\<lambda>a.
                   Inr (upd_bf i (\<lambda>_. f) (s\<lparr>asyncReads := a\<rparr>))))))
         else if state f = INVALIDATION_EXPECTED then bind_r (unlatch_bf i s) (\<lambda>s. Inr (set_mailbox m_i s))
         else ensure (state f = HOT \<or> state f = EVICTED) (ensure (isLatched (bflatch f)) (ensure (latchState g = EXCLUSIVE) (
              ensure (gstate g = LOCAL_POSSESSION_CHANGE) (
              bind_r (grant desired node client f) (\<lambda>(r, with_page, f').
              if with_page then answer_with_page fl client c i (pr_pageOffset rq) r f' s
              else answer_without_page fl c m_i i r f' s))))))"

definition handlePossessionRequest ::
  "mh_flags \<Rightarrow> find_env list \<Rightarrow> POSSESSION \<Rightarrow> PossessionRequest \<Rightarrow> nat \<Rightarrow> nat \<Rightarrow> mhandler \<Rightarrow> mhandler result option" where
  "handlePossessionRequest fl es desired rq c m_i s =
     (case findFrameOrInsert (Protocol_access desired) Protocol_undo NON_BLOCKING es (pr_pid rq) (bmId (cctxs s ! c)) (mbm s) of
        None \<Rightarrow> None
      | Some (Inl e) \<Rightarrow> Some (Inl e)
      | Some (Inr ((_, m), g)) \<Rightarrow> Some (possession_body fl desired rq c m_i g (s\<lparr>mbm := m\<rparr>)))"

section \<open>Moving, copying and updating possession\<close>

text \<open>\<open>PMR\<close>: another node takes possession; the page is sent if it is needed, and the frame is removed.\<close>

definition move_body :: "mh_flags \<Rightarrow> (bufmgr \<Rightarrow> bufmgr) list \<Rightarrow> PossessionMoveRequest \<Rightarrow> nat \<Rightarrow> nat \<Rightarrow> fref Guard \<Rightarrow> mhandler \<Rightarrow> mhandler result option" where
  "move_body fl renv rq c mailboxIdx g s =
     (let i = the (gframe g); f = mbf s i
      in if gstate g = RETRY then
           Some (ensure (latchState g \<noteq> EXCLUSIVE) (
           Inr (set_mailbox mailboxIdx (if \<not> pm_needPage rq then upd_bf i (\<lambda>f. f\<lparr>mhWaiting := True\<rparr>) s else s))))
         else (case ensure (gstate g \<noteq> NOT_FOUND) (ensure (gstate g \<noteq> UNINITIALIZED) (ensure (gframe g \<noteq> None) (
                    ensure (pm_pid rq = pid f) (ensure (pageP f \<noteq> None) (ensure (isLatched (bflatch f)) (ensure (latchState g = EXCLUSIVE) (
                    if pm_needPage rq then writePageAndMsg fl c (pageP f) (pm_pageOffset rq) (PossessionMoveResponse WithPage) s
                    else writeMsg fl c (PossessionMoveResponse NoPage) s))))))) of
                 Inl e \<Rightarrow> Some (Inl e)
               | Inr s \<Rightarrow>
                   (case removeFrame renv i (\<lambda>_ m. Inr m) (mbm s) of
                      None \<Rightarrow> None
                    | Some (Inl e) \<Rightarrow> Some (Inl e)
                    | Some (Inr (m, _)) \<Rightarrow> Some (park_page fl c (pageP f) (s\<lparr>mbm := m\<rparr>)))))"

definition handle_PMR :: "mh_flags \<Rightarrow> find_env list \<Rightarrow> (bufmgr \<Rightarrow> bufmgr) list \<Rightarrow> PossessionMoveRequest \<Rightarrow> nat \<Rightarrow> nat \<Rightarrow> mhandler \<Rightarrow> mhandler result option" where
  "handle_PMR fl es renv rq c mailboxIdx s =
     (case findFrame (\<lambda>gap n g f. Inr (Invalidation_access n g (gap f))) Invalidation_undo NON_BLOCKING es (pm_pid rq) (bmId (cctxs s ! c)) (mbm s) of
        None \<Rightarrow> None
      | Some (Inl e) \<Rightarrow> Some (Inl e)
      | Some (Inr ((_, m), g)) \<Rightarrow> move_body fl renv rq c mailboxIdx g (s\<lparr>mbm := m\<rparr>))"

text \<open>\<open>PCR\<close>: another node wants a copy of a page this node possesses in shared mode.\<close>

definition unlatchS_bf :: "fref \<Rightarrow> mhandler \<Rightarrow> mhandler result" where
  "unlatchS_bf i s = bind_r (unlatchShared (bflatch (mbf s i))) (\<lambda>l. Inr (upd_bf i (\<lambda>f. f\<lparr>bflatch := l\<rparr>) s))"

definition reset_retries :: "nat \<Rightarrow> mhandler \<Rightarrow> mhandler" where
  "reset_retries c s = upd_ctx c (\<lambda>x. x\<lparr>retries := 0\<rparr>) s"

definition copy_body :: "mh_flags \<Rightarrow> PossessionCopyRequest \<Rightarrow> nat \<Rightarrow> nat \<Rightarrow> fref Guard \<Rightarrow> mhandler \<Rightarrow> mhandler result" where
  "copy_body fl rq c mailboxIdx g s =
     (let i = the (gframe g); f = mbf s i
      in if gstate g = UNINITIALIZED \<or> gstate g = NOT_FOUND then
           bind_r (writeMsg fl c (PossessionCopyResponse CopyFailedWithInvalidation) s) (\<lambda>s. Inr (reset_retries c s))
         else if gstate g = RETRY then
           (if pVersion f = pc_pVersion rq \<and> retries (cctxs s ! c) < messageHandlerMaxRetries fl
            then Inr (set_mailbox mailboxIdx (upd_ctx c (\<lambda>x. x\<lparr>retries := retries x + 1\<rparr>) s))
            else bind_r (writeMsg fl c (PossessionCopyResponse CopyFailedWithRestart) s) (\<lambda>s. Inr (reset_retries c s)))
         else if mhWaiting f \<and> state f \<noteq> HOT then
           ensure (state f = IO_RDMA \<or> state f = FREE) (
           bind_r (writeMsg fl c (PossessionCopyResponse CopyFailedWithRestart) s) (\<lambda>s.
           bind_r (unlatchS_bf i s) (\<lambda>s. Inr (reset_retries c s))))
         else ensure (possession f = SHARED_P) (ensure (pc_pid rq = pid f) (ensure (pVersion f = pc_pVersion rq) (
              ensure (gframe g \<noteq> None) (ensure (pageP f \<noteq> None) (
              bind_r (writePageAndMsg fl c (pageP f) (pc_pageOffset rq) (PossessionCopyResponse WithPage) s) (\<lambda>s.
              bind_r (unlatchS_bf i s) (\<lambda>s. Inr (reset_retries c s)))))))))"

definition handle_PCR :: "mh_flags \<Rightarrow> find_env list \<Rightarrow> PossessionCopyRequest \<Rightarrow> nat \<Rightarrow> nat \<Rightarrow> mhandler \<Rightarrow> mhandler result option" where
  "handle_PCR fl es rq c mailboxIdx s =
     (case findFrame (\<lambda>gap n g f. Inr (Copy_access n g (gap f))) Copy_undo NON_BLOCKING es (pc_pid rq) (bmId (cctxs s ! c)) (mbm s) of
        None \<Rightarrow> None
      | Some (Inl e) \<Rightarrow> Some (Inl e)
      | Some (Inr ((_, m), g)) \<Rightarrow> Some (copy_body fl rq c mailboxIdx g (s\<lparr>mbm := m\<rparr>)))"

text \<open>\<open>PUR\<close>: a shared possessor wants the page exclusively.  The frame is used before the guard is known to have one.\<close>

definition update_frame :: "NodeID \<Rightarrow> NodeID \<Rightarrow> BufferFrame \<Rightarrow> (PossessionUpdateResponse \<times> addr option \<times> BufferFrame) result" where
  "update_frame node client f =
     (let f = f\<lparr>pVersion := pVersion f + 1\<rparr>;
          r = (mk_PossessionUpdateResponse UpdateSucceed)\<lparr>pur_pVersion := Some (pVersion f)\<rparr>;
          f = f\<lparr>possessors := bm64_reset (possessors f) node\<rparr>;
          r = (if bm64_any (possessors f) then r\<lparr>pur_resultType := UpdateSucceedWithSharedConflict, pur_conflictingNodeId := Some (possessors f)\<rparr> else r)
      in bind_r (if state f \<noteq> EVICTED then ensure (pageP f \<noteq> None) (Inr (pageP f, f\<lparr>pageP := None, state := EVICTED\<rparr>)) else Inr (None, f)) (\<lambda>(parked, f).
         bind_r (setPossessor client (f\<lparr>possession := EXCLUSIVE_P\<rparr>)) (\<lambda>f.
         let f = f\<lparr>dirty := True\<rparr> in ensure (isPossessor client f) (Inr (r, parked, f)))))"

definition update_body :: "mh_flags \<Rightarrow> PossessionUpdateRequest \<Rightarrow> nat \<Rightarrow> nat \<Rightarrow> fref Guard \<Rightarrow> mhandler \<Rightarrow> mhandler result" where
  "update_body fl rq c mailboxIdx g s =
     (case gframe g of
        None \<Rightarrow> Inl Undefined
      | Some i \<Rightarrow>
          let f = mbf s i; node = bmNode (mbm s); client = bmId (cctxs s ! c)
          in if gstate g = RETRY \<and> pVersion f = pu_pVersion rq then
               ensure (latchState g = UNLATCHED) (Inr (set_mailbox mailboxIdx (upd_bf i (\<lambda>f. f\<lparr>mhWaiting := True\<rparr>) s)))
             else if pu_pVersion rq < pVersion f then
               bind_r (writeMsg fl c (PossessionUpdateResp (mk_PossessionUpdateResponse UpdateFailed)) s) (\<lambda>s.
               let s = upd_bf i (\<lambda>f. f\<lparr>mhWaiting := False\<rparr>) s
               in if latchState g = EXCLUSIVE then unlatch_bf i s else Inr s)
             else ensure (gstate g \<noteq> UNINITIALIZED) (ensure (gstate g \<noteq> NOT_FOUND) (ensure (gstate g \<noteq> RETRY) (
                  ensure (pu_pid rq = pid f) (ensure (pVersion f = pu_pVersion rq) (
                  ensure (isLatched (bflatch f)) (ensure (latchState g = EXCLUSIVE) (ensure (bm64_test (possessors f) client) (
                  bind_r (update_frame node client f) (\<lambda>(r, parked, f').
                  bind_r (case parked of None \<Rightarrow> Inr s | Some page \<Rightarrow> park_page fl c (Some page) s) (\<lambda>s.
                  bind_r (writeMsg fl c (PossessionUpdateResp r) (upd_bf i (\<lambda>_. f') s)) (\<lambda>s.
                  unlatch_bf i (upd_bf i (\<lambda>f. f\<lparr>mhWaiting := False\<rparr>) s)))))))))))))"

definition handle_PUR :: "mh_flags \<Rightarrow> find_env list \<Rightarrow> PossessionUpdateRequest \<Rightarrow> nat \<Rightarrow> nat \<Rightarrow> mhandler \<Rightarrow> mhandler result option" where
  "handle_PUR fl es rq c mailboxIdx s =
     (case findFrame (\<lambda>gap n g f. Inr (Invalidation_access n g (gap f))) Invalidation_undo NON_BLOCKING es (pu_pid rq) (bmId (cctxs s ! c)) (mbm s) of
        None \<Rightarrow> None
      | Some (Inl e) \<Rightarrow> Some (Inl e)
      | Some (Inr ((_, m), g)) \<Rightarrow> Some (update_body fl rq c mailboxIdx g (s\<lparr>mbm := m\<rparr>)))"

text \<open>\<open>RAR\<close>: a page id of this node for a remote worker.\<close>

definition handle_RAR :: "mh_flags \<Rightarrow> (bufmgr \<Rightarrow> bufmgr) list \<Rightarrow> nat \<Rightarrow> mhandler \<Rightarrow> mhandler result option" where
  "handle_RAR fl ienv c s =
     (case pidFree (mbm s) of
        [] \<Rightarrow> Some (Inl Blocked)
      | p # ps \<Rightarrow>
          (case insertFrame ienv p (init_remote p (bmId (cctxs s ! c)) (globalEpoch (mbm s))) ((mbm s)\<lparr>pidFree := ps\<rparr>) of
             None \<Rightarrow> None
           | Some (Inl e) \<Rightarrow> Some (Inl e)
           | Some (Inr (m, i)) \<Rightarrow>
               Some (bind_r (unlatch_bf i (s\<lparr>mbm := m\<rparr>)) (writeMsg fl c (RemoteAllocationResponse p)))))"

text \<open>\<open>DR\<close>: where the requesting worker's node has its mailbox of another node.\<close>

definition handle_DR :: "mh_flags \<Rightarrow> DelegationRequest \<Rightarrow> nat \<Rightarrow> mhandler \<Rightarrow> mhandler result" where
  "handle_DR fl rq c s =
     (let x = cctxs s ! c
      in bind_r (array_set (remoteMbOffsets x) (unat (dr_bmId rq)) (dr_mbOffset rq)) (\<lambda>mb.
         bind_r (array_set (remotePlOffsets x) (unat (dr_bmId rq)) (dr_mbPayload rq)) (\<lambda>pl.
         writeMsg fl c DelegationResponse (upd_ctx c (\<lambda>x. x\<lparr>remoteMbOffsets := mb, remotePlOffsets := pl\<rparr>) s))))"

section \<open>The loop over the mailboxes\<close>

text \<open>One mailbox: the flag is cleared, a possible copy request of the position is forgotten, and the request is
  handled.  \<open>m_i\<close> counts the iterations of the loop, \<open>mailboxIdx\<close> is the mailbox looked at.\<close>

record mh_env =
  me_find :: "find_env list"
  me_tries :: "(bufmgr \<Rightarrow> bufmgr) list"

definition handle_request :: "mh_flags \<Rightarrow> mh_env \<Rightarrow> nat \<Rightarrow> nat \<Rightarrow> mhandler \<Rightarrow> mhandler result option" where
  "handle_request fl e c mailboxIdx s =
     (case request (cctxs s ! c) of
        FinishRequest \<Rightarrow> Some (Inr (s\<lparr>connectedClients := connectedClients s - 1\<rparr>))
      | DelegationReq rq \<Rightarrow> Some (handle_DR fl rq c s)
      | PossessionReq rq \<Rightarrow>
          (if pr_type rq = PRX then handlePossessionRequest fl (me_find e) EXCLUSIVE_P rq c mailboxIdx s
           else if pr_type rq = PRS then handlePossessionRequest fl (me_find e) SHARED_P rq c mailboxIdx s
           else Some (Inl (Runtime_error ''Unexpected Message'')))
      | PossessionMoveReq rq \<Rightarrow> handle_PMR fl (me_find e) (me_tries e) rq c mailboxIdx s
      | PossessionCopyReq rq \<Rightarrow> handle_PCR fl (me_find e) rq c mailboxIdx s
      | PossessionUpdateReq rq \<Rightarrow> handle_PUR fl (me_find e) rq c mailboxIdx s
      | RemoteAllocationRequest \<Rightarrow> handle_RAR fl (me_tries e) c s
      | _ \<Rightarrow> Some (Inl (Runtime_error ''Unexpected Message'')))"

definition handle_mailbox :: "mh_flags \<Rightarrow> nat \<Rightarrow> mh_env \<Rightarrow> nat \<Rightarrow> nat \<Rightarrow> mhandler \<Rightarrow> mhandler result option" where
  "handle_mailbox fl beginId e m_i mailboxIdx s =
     (if mailboxes s ! mailboxIdx = 0 then Some (Inr s)
      else let s = s\<lparr>mailboxes := (mailboxes s)[mailboxIdx := 0]\<rparr>;
               c = mailboxIdx + beginId;
               s = (if icr_inflight (inflightCRs s ! m_i)
                    then s\<lparr>inflightCRs := (inflightCRs s)[m_i := \<lparr>icr_inflight = False, icr_pid = EMPTY_PID, icr_pVersion = 0\<rparr>]\<rparr> else s)
           in handle_request fl e c mailboxIdx s)"

fun mailbox_round :: "mh_flags \<Rightarrow> nat \<Rightarrow> (nat \<Rightarrow> mh_env) \<Rightarrow> nat list \<Rightarrow> nat \<Rightarrow> mhandler \<Rightarrow> mhandler result option" where
  "mailbox_round fl beginId e [] mailboxIdx s = Some (Inr s)"
| "mailbox_round fl beginId e (m_i # ms) mailboxIdx s =
     (let k = (if length (mailboxes s) \<le> mailboxIdx then 0 else mailboxIdx)
      in case handle_mailbox fl beginId (e m_i) m_i k s of
           None \<Rightarrow> None
         | Some (Inl err) \<Rightarrow> Some (Inl err)
         | Some (Inr s) \<Rightarrow> mailbox_round fl beginId e ms (k + 1) s)"

text \<open>After a round: submit the reads, wait for them, unlatch the frames and look at their requests again.\<close>

definition read_done :: "fref \<times> PID \<times> addr \<times> nat \<times> bool \<Rightarrow> mhandler \<Rightarrow> mhandler result" where
  "read_done cmd s = (case cmd of (i, _, _, k, recheck) \<Rightarrow> bind_r (unlatch_bf i s) (\<lambda>s. Inr (if recheck then set_mailbox k s else s)))"

definition finish_reads :: "int \<Rightarrow> int + nat list \<Rightarrow> (nat \<Rightarrow> bool) \<Rightarrow> mhandler \<Rightarrow> mhandler result" where
  "finish_reads taken events short s =
     bind_r (async_submit taken (asyncReads s)) (\<lambda>(_, a).
     bind_r (async_poll events a) (\<lambda>(done, a).
     bind_r (async_collect short read_done done a s) (\<lambda>(a, s). Inr (s\<lparr>asyncReads := a\<rparr>))))"

definition handler_round :: "mh_flags \<Rightarrow> nat \<Rightarrow> (nat \<Rightarrow> mh_env) \<Rightarrow> int \<Rightarrow> int + nat list \<Rightarrow> (nat \<Rightarrow> bool) \<Rightarrow> nat \<Rightarrow> mhandler \<Rightarrow> (nat \<times> mhandler) result option" where
  "handler_round fl beginId e taken events short startPosition s =
     (case mailbox_round fl beginId e [0..<length (mailboxes s)] startPosition s of
        None \<Rightarrow> None
      | Some (Inl err) \<Rightarrow> Some (Inl err)
      | Some (Inr s) \<Rightarrow> Some (bind_r (finish_reads taken events short s) (\<lambda>s. Inr (startPosition + 1, s))))"

section \<open>Construction\<close>

text \<open>The mailboxes of the workers are split evenly over the handler threads, the rest going to the last.\<close>

definition mailbox_partitions :: "nat \<Rightarrow> nat \<Rightarrow> (nat \<times> nat) list result" where
  "mailbox_partitions n threads =
     (if n = 0 then Inr (replicate threads (0, 0))
      else ensure (threads \<le> n) (
           let blockSize = n div threads
           in ensure (0 < blockSize) (
              Inr (map (\<lambda>t. let begin = t * blockSize; end' = (if t = threads - 1 then n else begin + blockSize) in (begin, end' - begin)) [0..<threads]))))"

text \<open>\<open>init\<close> gives the connections their mailboxes one after the other.\<close>

fun assign_mailboxes :: "(nat \<times> nat) list \<Rightarrow> nat \<Rightarrow> nat \<Rightarrow> nat \<Rightarrow> nat \<Rightarrow> (nat \<times> nat) list result" where
  "assign_mailboxes ps 0 counter partitionId partitionOffset = Inr []"
| "assign_mailboxes ps (Suc k) counter partitionId partitionOffset =
     bind_r (array_get ps partitionId) (\<lambda>(begin, number).
     let (partitionId, partitionOffset) = (if begin + number \<le> counter then (partitionId + 1, 0) else (partitionId, partitionOffset))
     in bind_r (array_get ps partitionId) (\<lambda>(begin, number).
        ensure (begin + partitionOffset = counter) (
        bind_r (assign_mailboxes ps k (counter + 1) partitionId (partitionOffset + 1)) (\<lambda>rest. Inr ((partitionId, partitionOffset) # rest)))))"

definition new_ConnectionContext :: "mh_flags \<Rightarrow> NodeID \<Rightarrow> nat \<Rightarrow> ConnectionContext" where
  "new_ConnectionContext fl node nodes =
     \<lparr>request = EmptyMessage, wqe = 0, bmId = node, activeB = new_InvalidationBatch fl, passiveB = new_InvalidationBatch fl, retries = 0,
      remoteMbOffsets = replicate nodes 0, remotePlOffsets = replicate nodes 0\<rparr>"

end
