(* ===== verification/Directory.thy ===== *)
theory Directory
  imports MessageHandler
begin

text \<open>
  The directory a page's owner keeps in the buffer frame of the page: who possesses the page, in which mode and at
  which version.  The decisions of the message handler (\<open>grant\<close> of a possession request, \<open>update_frame\<close> of an
  update request) implement the transitions of this directory.
\<close>

section \<open>The abstract directory\<close>

record directory =
  d_mode :: POSSESSION
  d_holders :: "NodeID set"
  d_version :: u64

definition dir_of :: "BufferFrame \<Rightarrow> directory" where
  "dir_of f = \<lparr>d_mode = possession f, d_holders = holders f, d_version = pVersion f\<rparr>"

text \<open>
  An exclusive request moves the page to the requester alone.  A shared request adds the requester; if the
  page was possessed exclusively, only the owner itself stays a possessor beside it.
\<close>

definition dir_request :: "NodeID \<Rightarrow> POSSESSION \<Rightarrow> NodeID \<Rightarrow> directory \<Rightarrow> directory" where
  "dir_request node desired client d =
     (if desired = EXCLUSIVE_P then \<lparr>d_mode = EXCLUSIVE_P, d_holders = {client}, d_version = d_version d + 1\<rparr>
      else if d_mode d = EXCLUSIVE_P then \<lparr>d_mode = SHARED_P, d_holders = insert client (d_holders d \<inter> {node}), d_version = d_version d + 1\<rparr>
      else d\<lparr>d_holders := insert client (d_holders d)\<rparr>)"

text \<open>What the frame of an owned page is between two requests: possessed by somebody, and here exactly if the owner
  possesses it.\<close>

definition dir_frame :: "NodeID \<Rightarrow> BufferFrame \<Rightarrow> bool" where
  "dir_frame node f \<longleftrightarrow> possession f \<noteq> NOBODY \<and> holders f \<noteq> {} \<and> (possession f = EXCLUSIVE_P \<longrightarrow> unat (possessors f) < MAX_NODES)
     \<and> (state f = HOT \<or> state f = EVICTED) \<and> (state f = HOT \<longleftrightarrow> node \<in> holders f)"

text \<open>The nodes a response tells the requester to contact.\<close>

definition named_nodes :: "RESULT \<Rightarrow> u64 option \<Rightarrow> nat set" where
  "named_nodes res w =
     (case w of None \<Rightarrow> {}
      | Some v \<Rightarrow> if res = NoPageExclusiveConflict then {unat v}
                   else if res \<in> {NoPageSharedConflict, WithPageSharedConflict, NoPageEvicted, UpdateSucceedWithSharedConflict} then bm64_nodes v
                   else {})"

section \<open>Possessors as sets\<close>

lemma unat_less_mod [simp]: "unat (n :: u64) < MAX_NODES \<Longrightarrow> unat n mod 64 = unat n"
  by (simp add: MAX_NODES_def)

lemma holders_exclusive:
  "possession f = EXCLUSIVE_P \<Longrightarrow> holders f = {n. n = possessors f \<and> unat n < MAX_NODES}"
  by (auto simp: holders_def isPossessor_def)

lemma holders_shared:
  "possession f = SHARED_P \<Longrightarrow> holders f = {n. unat n < MAX_NODES \<and> unat n \<in> bm64_nodes (possessors f)}"
  by (auto simp: holders_def isPossessor_def bm64_test_iff bm64_nodes_bit)

lemma unat_holders_shared:
  assumes "possession f = SHARED_P"
  shows "unat ` holders f = bm64_nodes (possessors f)"
proof -
  have "n \<in> unat ` {n :: u64. unat n < MAX_NODES \<and> unat n \<in> bm64_nodes (possessors f)}" if "n \<in> bm64_nodes (possessors f)" for n
    using that bm64_nodes_lt [OF that]
    by (intro image_eqI [where x = "of_nat n :: u64"]) (simp_all add: MAX_NODES_def unat_of_nat)
  then show ?thesis using assms by (auto simp: holders_shared)
qed

lemma bm64_nodes_set: "unat n < MAX_NODES \<Longrightarrow> bm64_nodes (bm64_set w n) = insert (unat n) (bm64_nodes w)"
  by (auto simp: bm64_nodes_bit bit_bm64_set)

lemma bm64_nodes_reset: "unat n < MAX_NODES \<Longrightarrow> bm64_nodes (bm64_reset w n) = bm64_nodes w - {unat n}"
  by (auto simp: bm64_nodes_bit bit_bm64_reset)

lemma bm64_any_nodes: "bm64_any w \<longleftrightarrow> bm64_nodes w \<noteq> {}"
  by (simp add: bm64_any_def bm64_none_def bm64_nodes_empty_iff)


lemma dir_frame_exclusive:
  "possession f = EXCLUSIVE_P \<Longrightarrow> dir_frame node f \<longleftrightarrow> unat (possessors f) < MAX_NODES \<and> (state f = HOT \<or> state f = EVICTED) \<and> (state f = HOT \<longleftrightarrow> possessors f = node)"
  by (auto simp: dir_frame_def holders_exclusive)

lemma dir_frame_shared:
  assumes "possession f = SHARED_P" and "unat node < MAX_NODES"
  shows "dir_frame node f \<longleftrightarrow> bm64_nodes (possessors f) \<noteq> {} \<and> (state f = HOT \<or> state f = EVICTED) \<and> (state f = HOT \<longleftrightarrow> unat node \<in> bm64_nodes (possessors f))"
proof -
  have "holders f = {} \<longleftrightarrow> bm64_nodes (possessors f) = {}"
    using unat_holders_shared [OF assms(1)] by auto
  then show ?thesis using assms by (simp add: dir_frame_def holders_shared)
qed

lemma isPossessor_shared: "possession f = SHARED_P \<Longrightarrow> unat n < MAX_NODES \<Longrightarrow> isPossessor n f \<longleftrightarrow> unat n \<in> bm64_nodes (possessors f)"
  by (simp add: isPossessor_def bm64_test_iff bm64_nodes_bit)

lemma isPossessor_exclusive: "possession f = EXCLUSIVE_P \<Longrightarrow> isPossessor n f \<longleftrightarrow> possessors f = n"
  by (simp add: isPossessor_def)

section \<open>Possession requests\<close>

definition granted_possession :: "NodeID \<Rightarrow> POSSESSION \<Rightarrow> NodeID \<Rightarrow> BufferFrame \<Rightarrow> PossessionResponse \<Rightarrow> BufferFrame \<Rightarrow> bool" where
  "granted_possession node desired client f r f' \<longleftrightarrow>
     dir_of f' = dir_request node desired client (dir_of f) \<and> dir_frame node f' \<and> isPossessor client f'
   \<and> pid f' = pid f \<and> pageP f' = pageP f \<and> bflatch f' = bflatch f
   \<and> prr_pVersion r = Some (pVersion f')
   \<and> prr_resultType r =
      (if state f = HOT then (if desired = EXCLUSIVE_P \<and> holders f - {node} \<noteq> {} then WithPageSharedConflict else WithPage)
       else if possession f = EXCLUSIVE_P then NoPageExclusiveConflict
       else if desired = EXCLUSIVE_P then NoPageSharedConflict else NoPageEvicted)
   \<and> named_nodes (prr_resultType r) (prr_conflictingNodeId r)
      = unat ` (if desired = EXCLUSIVE_P then holders f - {node} else if state f = HOT then {} else holders f)"

lemmas grant_defs = grant_def grant_shared_def grant_exclusive_def granted_possession_def mk_PossessionResponse_def
  setPossessor_def named_nodes_def dir_of_def dir_request_def Let_def

lemma grant_ok:
  assumes "dir_frame node f" and "client \<noteq> node" and "unat client < MAX_NODES" and "unat node < MAX_NODES"
    and "desired = SHARED_P \<or> desired = EXCLUSIVE_P"
  shows "\<exists>r f'. grant desired node client f = Inr (r, state f = HOT, f') \<and> granted_possession node desired client f r f'"
proof (cases "possession f")
  case NOBODY
  with assms(1) show ?thesis by (simp add: dir_frame_def)
next
  case EXCLUSIVE_P
  with assms show ?thesis
    by (auto simp: grant_defs dir_frame_exclusive dir_frame_shared holders_exclusive holders_shared bm64_nodes_set
        isPossessor_shared isPossessor_exclusive word_unat_eq_iff [symmetric])
next
  case SHARED_P
  then have un: "unat ` (holders f - {node}) = bm64_nodes (possessors f) - {unat node}"
    using unat_holders_shared [OF SHARED_P] by (auto simp: word_unat_eq_iff)
  show ?thesis
    using assms SHARED_P un unat_holders_shared [OF SHARED_P]
    by (auto simp: grant_defs dir_frame_exclusive dir_frame_shared holders_exclusive holders_shared bm64_nodes_set bm64_nodes_reset bm64_any_nodes
        isPossessor_shared isPossessor_exclusive word_unat_eq_iff [symmetric])
qed

section \<open>Update requests\<close>

text \<open>A shared possessor becomes the exclusive one.  The owner's own page, if it is here, is given up.  The requester
  itself is among the nodes the response names.\<close>

definition updated :: "NodeID \<Rightarrow> NodeID \<Rightarrow> BufferFrame \<Rightarrow> PossessionUpdateResponse \<Rightarrow> addr option \<Rightarrow> BufferFrame \<Rightarrow> bool" where
  "updated node client f r parked f' \<longleftrightarrow>
     dir_of f' = dir_request node EXCLUSIVE_P client (dir_of f) \<and> dir_frame node f' \<and> isPossessor client f'
   \<and> pid f' = pid f \<and> bflatch f' = bflatch f \<and> parked = (if state f = HOT then pageP f else None)
   \<and> pageP f' = (if state f = HOT then None else pageP f)
   \<and> pur_pVersion r = Some (pVersion f') \<and> pur_resultType r = UpdateSucceedWithSharedConflict
   \<and> named_nodes (pur_resultType r) (pur_conflictingNodeId r) = unat ` (holders f - {node})"

lemma update_frame_ok:
  assumes "dir_frame node f" and "possession f = SHARED_P" and "client \<in> holders f" and "client \<noteq> node" and "unat node < MAX_NODES"
    and "state f = HOT \<Longrightarrow> pageP f \<noteq> None"
  shows "\<exists>r parked f'. update_frame node client f = Inr (r, parked, f') \<and> updated node client f r parked f'"
proof -
  have un: "unat ` (holders f - {node}) = bm64_nodes (possessors f) - {unat node}"
    using unat_holders_shared [OF assms(2)] by (auto simp: word_unat_eq_iff)
  moreover have cl: "unat client < MAX_NODES" "unat client \<in> bm64_nodes (possessors f)" "unat client \<noteq> unat node"
    using assms(2-4) by (auto simp: holders_shared word_unat_eq_iff)
  ultimately have any: "bm64_nodes (bm64_reset (possessors f) node) \<noteq> {}"
    using assms(5) by (auto simp: bm64_nodes_reset)
  from assms(1,2,5) have st: "state f = HOT \<or> state f = EVICTED" by (auto simp: dir_frame_shared)
  show ?thesis
    using assms un any cl st
    by (auto simp: update_frame_def updated_def mk_PossessionUpdateResponse_def setPossessor_def named_nodes_def dir_of_def dir_request_def Let_def
        bm64_any_nodes dir_frame_exclusive holders_exclusive bm64_nodes_reset isPossessor_exclusive)
qed

section \<open>Sequences of requests\<close>

fun serve_all :: "('rq \<Rightarrow> 'f \<Rightarrow> 'f result) \<Rightarrow> 'rq list \<Rightarrow> 'f \<Rightarrow> 'f result" where
  "serve_all serve [] f = Inr f"
| "serve_all serve (rq # rqs) f = bind_r (serve rq f) (serve_all serve rqs)"

fun accepts_all :: "('rq \<Rightarrow> 'd \<Rightarrow> bool) \<Rightarrow> ('rq \<Rightarrow> 'd \<Rightarrow> 'd) \<Rightarrow> 'rq list \<Rightarrow> 'd \<Rightarrow> bool" where
  "accepts_all accepts target [] d \<longleftrightarrow> True"
| "accepts_all accepts target (rq # rqs) d \<longleftrightarrow> accepts rq d \<and> accepts_all accepts target rqs (target rq d)"

text \<open>What an owner needs of the decisions it serves: each keeps the frame a directory and moves the directory as
  specified.  Then any sequence of them does.\<close>

locale directory_service =
  fixes serve :: "'rq \<Rightarrow> BufferFrame \<Rightarrow> BufferFrame result"
    and accepts :: "'rq \<Rightarrow> directory \<Rightarrow> bool"
    and target :: "'rq \<Rightarrow> directory \<Rightarrow> directory"
    and ok :: "BufferFrame \<Rightarrow> bool"
  assumes served: "ok f \<Longrightarrow> accepts rq (dir_of f) \<Longrightarrow> \<exists>f'. serve rq f = Inr f' \<and> ok f' \<and> dir_of f' = target rq (dir_of f)"
    and single: "ok f \<Longrightarrow> possession f = EXCLUSIVE_P \<Longrightarrow> \<exists>n. holders f = {n}"
begin

lemma serve_all_ok:
  "ok f \<Longrightarrow> accepts_all accepts target rqs (dir_of f) \<Longrightarrow>
     \<exists>f'. serve_all serve rqs f = Inr f' \<and> ok f' \<and> dir_of f' = fold target rqs (dir_of f)"
proof (induction rqs arbitrary: f)
  case (Cons rq rqs)
  then obtain f1 where f1: "serve rq f = Inr f1" "ok f1" "dir_of f1 = target rq (dir_of f)"
    using served [of f rq] by auto
  with Cons.prems(2) have "accepts_all accepts target rqs (dir_of f1)" by simp
  from Cons.IH [OF f1(2) this] f1 show ?case by simp
qed simp

lemma serve_all_exclusive:
  "ok f \<Longrightarrow> accepts_all accepts target rqs (dir_of f) \<Longrightarrow> d_mode (fold target rqs (dir_of f)) = EXCLUSIVE_P \<Longrightarrow>
     \<exists>n. d_holders (fold target rqs (dir_of f)) = {n}"
  using serve_all_ok [of f rqs] single by (metis dir_of_def directory.select_convs(1,2))

end

text \<open>The decisions of the message handler.  After a possession request the frame of an evicted page has no page.\<close>

definition give_up :: "BufferFrame \<Rightarrow> BufferFrame" where
  "give_up f = (if state f = EVICTED then f\<lparr>pageP := None\<rparr> else f)"

datatype owner_rq = Possess POSSESSION NodeID | Update NodeID

fun serve_rq :: "NodeID \<Rightarrow> owner_rq \<Rightarrow> BufferFrame \<Rightarrow> BufferFrame result" where
  "serve_rq node (Possess desired client) f =
     bind_r (grant desired node client f) (\<lambda>(_, _, f'). Inr (give_up f'))"
| "serve_rq node (Update client) f = bind_r (update_frame node client f) (\<lambda>(_, _, f'). Inr f')"

fun accepts_rq :: "NodeID \<Rightarrow> owner_rq \<Rightarrow> directory \<Rightarrow> bool" where
  "accepts_rq node (Possess desired client) d \<longleftrightarrow> client \<noteq> node \<and> unat client < MAX_NODES \<and> desired \<noteq> NOBODY"
| "accepts_rq node (Update client) d \<longleftrightarrow> client \<noteq> node \<and> client \<in> d_holders d \<and> d_mode d = SHARED_P"

fun target_rq :: "NodeID \<Rightarrow> owner_rq \<Rightarrow> directory \<Rightarrow> directory" where
  "target_rq node (Possess desired client) d = dir_request node desired client d"
| "target_rq node (Update client) d = dir_request node EXCLUSIVE_P client d"

definition owner_frame :: "NodeID \<Rightarrow> BufferFrame \<Rightarrow> bool" where
  "owner_frame node f \<longleftrightarrow> unat node < MAX_NODES \<and> dir_frame node f \<and> (state f = HOT \<longleftrightarrow> pageP f \<noteq> None)"

lemma isPossessor_pageP [simp]: "isPossessor n (f\<lparr>pageP := p\<rparr>) \<longleftrightarrow> isPossessor n f"
  by (cases "possession f") (simp_all add: isPossessor_def)

lemma dir_frame_pageP [simp]: "dir_frame node (f\<lparr>pageP := p\<rparr>) \<longleftrightarrow> dir_frame node f"
  by (simp add: dir_frame_def holders_def)

lemma dir_of_pageP [simp]: "dir_of (f\<lparr>pageP := p\<rparr>) = dir_of f"
  by (simp add: dir_of_def holders_def)

lemma dir_of_sel [simp]: "d_mode (dir_of f) = possession f" "d_holders (dir_of f) = holders f" "d_version (dir_of f) = pVersion f"
  by (simp_all add: dir_of_def)

lemma state_HOT_iff: "dir_frame node f \<Longrightarrow> state f = HOT \<longleftrightarrow> node \<in> d_holders (dir_of f)"
  by (simp add: dir_frame_def)

lemma granted_owner:
  assumes "owner_frame node f" and "granted_possession node desired client f r f'" and "client \<noteq> node"
  shows "owner_frame node (give_up f')" and "dir_of (give_up f') = dir_request node desired client (dir_of f)"
proof -
  have pre: "dir_frame node f" using assms(1) by (simp add: owner_frame_def)
  from assms(2) have d: "dir_of f' = dir_request node desired client (dir_of f)" "dir_frame node f'" "pageP f' = pageP f"
    by (auto simp: granted_possession_def)
  have hot: "state f' = HOT \<Longrightarrow> state f = HOT"
    using state_HOT_iff [OF d(2)] state_HOT_iff [OF pre] assms(3) by (auto simp: d(1) dir_request_def split: if_splits)
  have st: "state f' = HOT \<or> state f' = EVICTED" using d(2) by (auto simp: dir_frame_def)
  show "owner_frame node (give_up f')" using d st hot assms(1) by (auto simp: owner_frame_def give_up_def)
  show "dir_of (give_up f') = dir_request node desired client (dir_of f)" using d(1) by (simp add: give_up_def)
qed

lemma updated_owner:
  assumes "owner_frame node f" and "updated node client f r parked f'" and "client \<noteq> node"
  shows "owner_frame node f'" and "dir_of f' = dir_request node EXCLUSIVE_P client (dir_of f)"
proof -
  from assms(2) have d: "dir_of f' = dir_request node EXCLUSIVE_P client (dir_of f)" "dir_frame node f'" "pageP f' = (if state f = HOT then None else pageP f)"
    by (auto simp: updated_def)
  have "state f' \<noteq> HOT" using state_HOT_iff [OF d(2)] assms(3) by (simp add: d(1) dir_request_def)
  then show "owner_frame node f'" using d assms(1) by (auto simp: owner_frame_def)
  show "dir_of f' = dir_request node EXCLUSIVE_P client (dir_of f)" by (rule d(1))
qed

lemma serve_rq_ok:
  assumes "owner_frame node f" and "accepts_rq node rq (dir_of f)"
  shows "\<exists>f'. serve_rq node rq f = Inr f' \<and> owner_frame node f' \<and> dir_of f' = target_rq node rq (dir_of f)"
proof (cases rq)
  case (Possess desired client)
  with assms have pre: "dir_frame node f" "unat node < MAX_NODES" "client \<noteq> node" "unat client < MAX_NODES" "desired = SHARED_P \<or> desired = EXCLUSIVE_P"
    by (cases desired; auto simp: owner_frame_def)+
  from grant_ok [OF pre(1,3,4,2,5)] Possess granted_owner [OF assms(1) _ pre(3)] show ?thesis by auto
next
  case (Update client)
  with assms have pre: "dir_frame node f" "possession f = SHARED_P" "client \<in> holders f" "client \<noteq> node" "unat node < MAX_NODES" "state f = HOT \<Longrightarrow> pageP f \<noteq> None"
    by (auto simp: owner_frame_def)
  from update_frame_ok [OF pre] Update updated_owner [OF assms(1) _ pre(4)] show ?thesis by auto
qed

interpretation owner: directory_service "serve_rq node" "accepts_rq node" "target_rq node" "owner_frame node" for node
proof unfold_locales
  show "\<exists>n. holders f = {n}" if "owner_frame node f" "possession f = EXCLUSIVE_P" for node f
    using that by (auto simp: owner_frame_def dir_frame_def holders_exclusive)
qed (fact serve_rq_ok)

text \<open>C10: For the frame of a page at its owner, whose possessors include the owner exactly if the page is here: any
  sequence of exclusive and shared possession requests by other nodes and of update requests by shared possessors is
  served without an error, keeps the frame such a directory, and ends with the mode, possessors and version that the
  directory's transitions give; in exclusive mode there is exactly one possessor.\<close>

theorem owner_serves_requests:
  assumes "owner_frame node f" and "accepts_all (accepts_rq node) (target_rq node) rqs (dir_of f)"
  shows "\<exists>f'. serve_all (serve_rq node) rqs f = Inr f' \<and> owner_frame node f' \<and> dir_of f' = fold (target_rq node) rqs (dir_of f)
    \<and> (possession f' = EXCLUSIVE_P \<longrightarrow> (\<exists>n. holders f' = {n}))"
  using owner.serve_all_ok [OF assms] owner.serve_all_exclusive [OF assms] by (metis dir_of_sel(1,2))

text \<open>Node 0 owns a page and possesses it exclusively; node 1 shares it, node 2 shares it, node 1 updates to exclusive, node 2 asks for it shared again.\<close>

definition owned_example :: BufferFrame where
  "owned_example = new_BufferFrame\<lparr>possession := EXCLUSIVE_P, possessors := 0, state := HOT, pageP := Some 4096\<rparr>"

lemma owned_example_dir: "dir_of owned_example = \<lparr>d_mode = EXCLUSIVE_P, d_holders = {0}, d_version = 0\<rparr>"
  by (auto simp: owned_example_def dir_of_def holders_exclusive new_BufferFrame_def MAX_NODES_def)

lemma owned_example_owner: "owner_frame 0 owned_example"
  by (simp add: owner_frame_def dir_frame_exclusive owned_example_def MAX_NODES_def new_BufferFrame_def)

theorem owner_serves_requests_witness:
  "\<exists>f'. serve_all (serve_rq 0) [Possess SHARED_P 1, Possess SHARED_P 2, Update 1, Possess SHARED_P 2] owned_example = Inr f'
    \<and> dir_of f' = \<lparr>d_mode = SHARED_P, d_holders = {2}, d_version = 3\<rparr>"
  using owner_serves_requests [OF owned_example_owner, of "[Possess SHARED_P 1, Possess SHARED_P 2, Update 1, Possess SHARED_P 2]"]
  by (auto simp: owned_example_dir dir_request_def MAX_NODES_def insert_commute)

end
