(* ===== verification/MessageHandler_Proof.thy ===== *)
theory MessageHandler_Proof
  imports Directory
begin

text \<open>
  The message handler serves its requests: the invalidation batches never overflow and no page is lost or used twice
  while a posted write may still read it; a possession or update request changes the frame as the directory
  says, posts the answer and releases the latch.
\<close>

section \<open>Sums of multisets over updated lists\<close>

lemma sum_list_update_mset: "k < length xs \<Longrightarrow> sum_list (xs[k := y]) + xs ! k = sum_list xs + (y :: 'a multiset)"
proof (induction xs arbitrary: k)
  case (Cons x xs)
  show ?case
  proof (cases k)
    case (Suc j)
    with Cons.prems Cons.IH [of j] show ?thesis by (simp add: add.assoc)
  qed (simp add: ac_simps)
qed simp

lemma mset_shift:
  fixes A :: "'a multiset"
  assumes "A' + a = A + b" and "B' + c = B + d"
  shows "P + A' + B' + (a + c) = P + b + d + A + B"
proof -
  have "P + A' + B' + (a + c) = P + (A' + a) + (B' + c)" by (simp add: ac_simps)
  then show ?thesis unfolding assms by (simp add: ac_simps)
qed

section \<open>Invalidation batches\<close>

definition polling :: "mh_flags \<Rightarrow> nat" where
  "polling fl = unat (pollingInterval fl)"

definition flags_ok :: "mh_flags \<Rightarrow> bool" where
  "flags_ok fl \<longleftrightarrow> (\<exists>k<64. polling fl = 2 ^ k) \<and> wc_success fl"

definition batch_ok :: "mh_flags \<Rightarrow> InvalidationBatch \<Rightarrow> bool" where
  "batch_ok fl b \<longleftrightarrow> length (ib_batch b) = polling fl + 1 \<and> ib_elements b \<le> polling fl + 1 \<and> None \<notin> set (take (ib_elements b) (ib_batch b))"

text \<open>\<open>k\<close> is how many pages may be in the active batch beyond the messages posted since the batches last changed places.\<close>

definition ctx_ok :: "mh_flags \<Rightarrow> nat \<Rightarrow> ConnectionContext \<Rightarrow> bool" where
  "ctx_ok fl k x \<longleftrightarrow> batch_ok fl (activeB x) \<and> batch_ok fl (passiveB x) \<and> ib_elements (activeB x) \<le> unat (wqe x) mod polling fl + k"

definition batch_pages :: "InvalidationBatch \<Rightarrow> addr multiset" where
  "batch_pages b = mset (map the (take (ib_elements b) (ib_batch b)))"

definition parked :: "ConnectionContext \<Rightarrow> addr multiset" where
  "parked x = batch_pages (activeB x) + batch_pages (passiveB x)"

definition frame_pages :: "BufferFrame \<Rightarrow> addr multiset" where
  "frame_pages f = (case pageP f of None \<Rightarrow> {#} | Some p \<Rightarrow> {#p#})"

text \<open>Every page the node has: free, waiting for a write to complete, or in a frame.\<close>

definition all_pages :: "mhandler \<Rightarrow> addr multiset" where
  "all_pages s = mset (pageFree (mbm s)) + sum_list (map parked (cctxs s)) + sum_list (map frame_pages (bfs (mbm s)))"

lemma polling_pos: "flags_ok fl \<Longrightarrow> 0 < polling fl"
  by (auto simp: flags_ok_def)

lemma unat_mask64: "k < 64 \<Longrightarrow> unat (mask k :: u64) = 2 ^ k - 1"
proof -
  assume "k < 64"
  then have "unat (take_bit k (- 1 :: u64)) = mask k"
    unfolding unsigned_take_bit_eq unsigned_minus_1_eq_mask by (simp add: take_bit_of_mask min_def)
  then show ?thesis by (simp add: mask_eq_exp_minus_1)
qed

lemma signal_iff:
  assumes "flags_ok fl"
  shows "w AND (pollingInterval fl - 1) = pollingInterval fl - 1 \<longleftrightarrow> unat w mod polling fl = polling fl - 1"
proof -
  obtain k where k: "k < 64" "polling fl = 2 ^ k" using assms by (auto simp: flags_ok_def)
  then have "of_nat (polling fl) = (2 ^ k :: u64)" by simp
  then have p: "pollingInterval fl = 2 ^ k" by (simp add: polling_def)
  then have m: "pollingInterval fl - 1 = mask k" by (simp add: mask_eq_exp_minus_1)
  have "w AND mask k = mask k \<longleftrightarrow> unat (take_bit k w) = unat (mask k :: u64)"
    by (simp add: take_bit_eq_mask word_unat_eq_iff)
  also have "\<dots> \<longleftrightarrow> unat w mod 2 ^ k = 2 ^ k - 1"
    using k(1) unfolding unsigned_take_bit_eq by (simp add: take_bit_eq_mod unat_mask64)
  finally show ?thesis using k m by simp
qed

lemma wqe_next:
  assumes "flags_ok fl"
  shows "unat (w + 1 :: u64) mod polling fl = (if unat w mod polling fl = polling fl - 1 then 0 else unat w mod polling fl + 1)"
proof -
  obtain k where k: "k < 64" "polling fl = 2 ^ k" using assms by (auto simp: flags_ok_def)
  have "unat (w + 1) = (unat w + 1) mod 2 ^ 64"
    by (simp add: unat_word_ariths)
  moreover have "(2 :: nat) ^ k dvd 2 ^ 64" using k(1) by (intro le_imp_power_dvd) simp
  ultimately have "unat (w + 1) mod polling fl = (unat w + 1) mod polling fl"
    using k(2) by (simp add: mod_mod_cancel)
  then show ?thesis using mod_Suc [of "unat w" "polling fl"] polling_pos [OF assms] by auto
qed


section \<open>Posting\<close>

lemma push_pages_ok: "None \<notin> set ps \<Longrightarrow> push_pages ps m = Inr (m\<lparr>pageFree := rev (map the ps) @ pageFree m\<rparr>)"
  by (induction ps m rule: push_pages.induct) auto

lemma ib_reset_id: "ib_elements b = 0 \<Longrightarrow> ib_reset b = b"
  by (simp add: ib_reset_def)

lemma reclaimInvalidations_ok:
  assumes "batch_ok fl (passiveB (cctxs s ! c))" and "c < length (cctxs s)"
  shows "reclaimInvalidations c s =
    Inr (upd_ctx c (\<lambda>x. x\<lparr>passiveB := ib_reset (passiveB x)\<rparr>)
      (s\<lparr>mbm := (mbm s)\<lparr>pageFree := rev (map the (take (ib_elements (passiveB (cctxs s ! c))) (ib_batch (passiveB (cctxs s ! c))))) @ pageFree (mbm s)\<rparr>\<rparr>))"
  using assms by (auto simp: reclaimInvalidations_def ib_empty_def Let_def push_pages_ok batch_ok_def upd_ctx_def ib_reset_id)

text \<open>A post advances the counter of posts; every \<open>pollingInterval\<close>-th one frees the pages of the passive batch.  All it
  changes is the context and the free pages.\<close>

definition posts :: "nat \<Rightarrow> mhandler \<Rightarrow> ConnectionContext \<Rightarrow> addr list \<Rightarrow> mhandler" where
  "posts c s x ps = s\<lparr>mbm := (mbm s)\<lparr>pageFree := ps\<rparr>, cctxs := (cctxs s)[c := x]\<rparr>"

lemma after_post_ok:
  assumes "flags_ok fl" and "c < length (cctxs s)" and "ctx_ok fl (Suc k) (cctxs s ! c)" and "k \<le> 1"
  shows "\<exists>x ps. after_post fl c s = Inr (posts c s x ps) \<and> ctx_ok fl k x \<and> bmId x = bmId (cctxs s ! c) \<and> retries x = retries (cctxs s ! c)
    \<and> mset ps + parked x = mset (pageFree (mbm s)) + parked (cctxs s ! c)"
proof (cases "unat (wqe (cctxs s ! c)) mod polling fl = polling fl - 1")
  case False
  let ?x = "(cctxs s ! c)\<lparr>wqe := wqe (cctxs s ! c) + 1\<rparr>"
  have "after_post fl c s = Inr (posts c s ?x (pageFree (mbm s)))"
    using False assms by (simp add: after_post_def Let_def signal_iff posts_def upd_ctx_def)
  moreover have "ctx_ok fl k ?x"
    using False assms(1,3) by (auto simp: ctx_ok_def wqe_next)
  ultimately show ?thesis by (intro exI [of _ ?x] exI [of _ "pageFree (mbm s)"]) (simp add: parked_def)
next
  case True
  let ?y = "cctxs s ! c"
  let ?pas = "take (ib_elements (passiveB ?y)) (ib_batch (passiveB ?y))"
  let ?x = "?y\<lparr>activeB := ib_reset (passiveB ?y), passiveB := activeB ?y, wqe := wqe ?y + 1\<rparr>"
  let ?ps = "rev (map the ?pas) @ pageFree (mbm s)"
  have ok: "batch_ok fl (passiveB ?y)" using assms(3) by (simp add: ctx_ok_def)
  have "after_post fl c s = Inr (posts c s ?x ?ps)"
    using True assms(1,2) ok by (simp add: after_post_def Let_def signal_iff reclaimInvalidations_ok [OF ok] flags_ok_def posts_def upd_ctx_def)
  moreover have "ctx_ok fl k ?x"
    using True assms(1,3,4) by (auto simp: ctx_ok_def wqe_next batch_ok_def ib_reset_def)
  moreover have "mset ?ps + parked ?x = mset (pageFree (mbm s)) + parked ?y"
    by (simp add: parked_def batch_pages_def ib_reset_def)
  ultimately show ?thesis by (intro exI [of _ ?x] exI [of _ ?ps]) simp
qed

lemma park_page_ok:
  assumes "flags_ok fl" and "c < length (cctxs s)" and "ctx_ok fl k (cctxs s ! c)" and "k \<le> 1"
  shows "\<exists>x. park_page fl c (Some p) s = Inr (s\<lparr>cctxs := (cctxs s)[c := x]\<rparr>) \<and> ctx_ok fl (Suc k) x \<and> bmId x = bmId (cctxs s ! c)
    \<and> retries x = retries (cctxs s ! c) \<and> parked x = add_mset p (parked (cctxs s ! c))"
proof -
  let ?b = "activeB (cctxs s ! c)"
  let ?x = "(cctxs s ! c)\<lparr>activeB := ?b\<lparr>ib_batch := (ib_batch ?b)[ib_elements ?b := Some p], ib_elements := ib_elements ?b + 1\<rparr>\<rparr>"
  have "ib_elements ?b \<le> unat (wqe (cctxs s ! c)) mod polling fl + 1" using assms(3,4) by (simp add: ctx_ok_def)
  also have "\<dots> \<le> polling fl" using polling_pos [OF assms(1)] by (simp add: Suc_le_eq)
  finally have room: "ib_elements ?b \<le> polling fl" .
  have len: "ib_elements ?b < length (ib_batch ?b)" using assms(3) room by (simp add: ctx_ok_def batch_ok_def)
  have "park_page fl c (Some p) s = Inr (s\<lparr>cctxs := (cctxs s)[c := ?x]\<rparr>)"
    using room len by (simp add: park_page_def ib_add_def polling_def upd_ctx_def)
  moreover have "ctx_ok fl (Suc k) ?x"
    using assms(3) room len by (auto simp: ctx_ok_def batch_ok_def take_Suc_conv_app_nth)
  moreover have "parked ?x = add_mset p (parked (cctxs s ! c))"
    using len by (simp add: parked_def batch_pages_def take_Suc_conv_app_nth)
  ultimately show ?thesis by (intro exI [of _ ?x]) simp
qed

section \<open>Serving a request\<close>

text \<open>The state after a request on frame \<open>i\<close> of connection \<open>c\<close> was answered.\<close>

definition answered :: "nat \<Rightarrow> fref \<Rightarrow> mhandler \<Rightarrow> BufferFrame \<Rightarrow> ConnectionContext \<Rightarrow> addr list \<Rightarrow> rdma_op \<Rightarrow> mhandler" where
  "answered c i s f x ps op =
     s\<lparr>mbm := (mbm s)\<lparr>bfs := (bfs (mbm s))[i := f], pageFree := ps\<rparr>, cctxs := (cctxs s)[c := x], posted := posted s @ [op]\<rparr>"

definition unlatched :: "BufferFrame \<Rightarrow> BufferFrame" where
  "unlatched f = f\<lparr>bflatch := (bflatch f)\<lparr>version := version (bflatch f) + 2, smut := Unlocked\<rparr>\<rparr>"

definition mh_ok :: "mh_flags \<Rightarrow> mhandler \<Rightarrow> bool" where
  "mh_ok fl s \<longleftrightarrow> flags_ok fl \<and> (\<forall>x \<in> set (cctxs s). ctx_ok fl 1 x)"

text \<open>Connection \<open>c\<close> went from context \<open>x\<close> to \<open>y\<close> and frame \<open>f\<close> became \<open>g\<close> without losing a page.\<close>

definition moved_pages :: "mhandler \<Rightarrow> BufferFrame \<Rightarrow> BufferFrame \<Rightarrow> ConnectionContext \<Rightarrow> ConnectionContext \<Rightarrow> addr list \<Rightarrow> bool" where
  "moved_pages s f g x y ps \<longleftrightarrow> bmId y = bmId x
     \<and> mset ps + parked y + frame_pages g = mset (pageFree (mbm s)) + parked x + frame_pages f"

lemma mh_ok_answered:
  assumes "mh_ok fl s" and "ctx_ok fl 1 x"
  shows "mh_ok fl (answered c i s f x ps op)"
  using assms by (auto simp: mh_ok_def answered_def dest!: set_update_subset_insert [THEN subsetD])

lemma all_pages_answered:
  assumes "c < length (cctxs s)" and "i < length (bfs (mbm s))" and "moved_pages s (mbf s i) f (cctxs s ! c) x ps"
  shows "all_pages (answered c i s f x ps op) = all_pages s"
proof -
  have "sum_list ((map parked (cctxs s))[c := parked x]) + parked (cctxs s ! c) = sum_list (map parked (cctxs s)) + parked x"
    using assms(1) sum_list_update_mset [of c "map parked (cctxs s)"] by simp
  moreover have "sum_list ((map frame_pages (bfs (mbm s)))[i := frame_pages f]) + frame_pages (mbf s i) = sum_list (map frame_pages (bfs (mbm s))) + frame_pages f"
    using assms(2) sum_list_update_mset [of i "map frame_pages (bfs (mbm s))"] by (simp add: mbf_def)
  ultimately have "all_pages (answered c i s f x ps op) + (parked (cctxs s ! c) + frame_pages (mbf s i))
      = (mset ps + parked x + frame_pages f) + sum_list (map parked (cctxs s)) + sum_list (map frame_pages (bfs (mbm s)))"
    unfolding all_pages_def answered_def by (simp add: map_update mset_shift)
  also have "\<dots> = all_pages s + (parked (cctxs s ! c) + frame_pages (mbf s i))"
    using assms(3) by (simp add: moved_pages_def all_pages_def ac_simps)
  finally show ?thesis by simp
qed

lemma unlatch_bf_ok:
  assumes "i < length (bfs (mbm s))" and "latch_ok (bflatch (mbf s i))" and "isLatched (bflatch (mbf s i))"
  shows "unlatch_bf i s = Inr (upd_bf i unlatched s)"
  using assms by (simp add: unlatch_bf_def unlatchExclusive_ok unlatched_def upd_bf_def upd_frame_def mbf_def)

lemma upd_bf_simps [simp]:
  "upd_bf i u (s\<lparr>inflightCRs := cr\<rparr>) = (upd_bf i u s)\<lparr>inflightCRs := cr\<rparr>"
  "i < length (bfs (mbm s)) \<Longrightarrow> upd_bf i u (upd_bf i (\<lambda>_. f) s) = upd_bf i (\<lambda>_. u f) s"
  "i < length (bfs (mbm s)) \<Longrightarrow> mbf (upd_bf i u s) i = u (mbf s i)"
  "length (bfs (mbm (upd_bf i u s))) = length (bfs (mbm s))"
  "cctxs (upd_bf i u s) = cctxs s"
  by (cases s; simp add: upd_bf_def upd_frame_def mbf_def)+

lemma mbf_posts [simp]: "mbf (posts c s x ps) i = mbf s i" "bfs (mbm (posts c s x ps)) = bfs (mbm s)" "inflightCRs (posts c s x ps) = inflightCRs s"
  by (simp_all add: mbf_def posts_def)

lemma mbf_fields [simp]: "mbf (s\<lparr>posted := q\<rparr>) i = mbf s i" "mbf (s\<lparr>cctxs := xs\<rparr>) i = mbf s i" "mbf (s\<lparr>inflightCRs := cr\<rparr>) i = mbf s i"
  by (simp_all add: mbf_def)

lemma answered_eq:
  assumes "i < length (bfs (mbm s))"
  shows "upd_bf i (\<lambda>_. f) (posts c (s\<lparr>posted := posted s @ [op]\<rparr>) x ps) = answered c i s f x ps op"
  by (cases s; cases "mbm s") (simp add: upd_bf_def upd_frame_def posts_def answered_def)

lemma answered_inflight [simp]: "(answered c i s f x ps op)\<lparr>inflightCRs := inflightCRs s\<rparr> = answered c i s f x ps op"
  by (cases s) (simp add: answered_def)

lemma answer_without_page_ok:
  assumes "flags_ok fl" and "c < length (cctxs s)" and "i < length (bfs (mbm s))" and "ctx_ok fl 1 (cctxs s ! c)"
    and "latch_ok (bflatch f)" and "isLatched (bflatch f)" and "pageP f = pageP (mbf s i)"
  shows "\<exists>x ps. answer_without_page fl c m_i i r f s = Inr ((answered c i s (unlatched f) x ps (PostMsg c (PossessionResp r)))\<lparr>inflightCRs :=
      (if prr_resultType r = NoPageEvicted then (inflightCRs s)[m_i := \<lparr>icr_inflight = True, icr_pid = pid (mbf s i), icr_pVersion = pVersion (mbf s i)\<rparr>] else inflightCRs s)\<rparr>)
    \<and> ctx_ok fl 1 x \<and> moved_pages s (mbf s i) (unlatched f) (cctxs s ! c) x ps"
proof -
  let ?s = "s\<lparr>posted := posted s @ [PostMsg c (PossessionResp r)]\<rparr>"
  obtain x ps where x: "after_post fl c ?s = Inr (posts c ?s x ps)" "ctx_ok fl 0 x" "bmId x = bmId (cctxs s ! c)"
    "mset ps + parked x = mset (pageFree (mbm s)) + parked (cctxs s ! c)"
    using after_post_ok [of fl c ?s 0] assms(1,2,4) by auto
  from x(2) have "ctx_ok fl 1 x" by (auto simp: ctx_ok_def)
  moreover from x(3,4) assms(7) have "moved_pages s (mbf s i) (unlatched f) (cctxs s ! c) x ps"
    by (simp add: moved_pages_def frame_pages_def unlatched_def)
  moreover have "answer_without_page fl c m_i i r f s = Inr ((answered c i s (unlatched f) x ps (PostMsg c (PossessionResp r)))\<lparr>inflightCRs :=
      (if prr_resultType r = NoPageEvicted then (inflightCRs s)[m_i := \<lparr>icr_inflight = True, icr_pid = pid (mbf s i), icr_pVersion = pVersion (mbf s i)\<rparr>] else inflightCRs s)\<rparr>)"
    using x(1) assms(3,5,6)
    by (simp add: answer_without_page_def writeMsg_def Let_def unlatch_bf_ok answered_eq)
  ultimately show ?thesis by blast
qed

lemma upd_posts_cctxs [simp]:
  "(answered c i s f x ps op)\<lparr>cctxs := (cctxs s)[c := y]\<rparr> = answered c i s f y ps op"
  "cctxs (answered c i s f x ps op) = (cctxs s)[c := x]"
  by (cases s; simp add: answered_def)+

lemma mbf_answered [simp]:
  "i < length (bfs (mbm s)) \<Longrightarrow> mbf (answered c i s f x ps op) i = f"
  "i < length (bfs (mbm s)) \<Longrightarrow> upd_bf i u (answered c i s f x ps op) = answered c i s (u f) x ps op"
  "length (bfs (mbm (answered c i s f x ps op))) = length (bfs (mbm s))"
  by (cases s; cases "mbm s"; simp add: answered_def mbf_def upd_bf_def upd_frame_def)+

lemma answered_posts:
  assumes "i < length (bfs (mbm s))"
  shows "posts c ((upd_bf i (\<lambda>_. f) s)\<lparr>posted := posted s @ [op]\<rparr>) x ps = answered c i s f x ps op"
  using assms by (cases s; cases "mbm s") (simp add: upd_bf_def upd_frame_def posts_def answered_def)

lemma mbm_upd_bf [simp]: "pageFree (mbm (upd_bf i u s)) = pageFree (mbm s)" "posted (upd_bf i u s) = posted s"
  by (simp_all add: upd_bf_def upd_frame_def)

lemma answer_with_page_ok:
  assumes "flags_ok fl" and "c < length (cctxs s)" and "i < length (bfs (mbm s))" and "ctx_ok fl 1 (cctxs s ! c)"
    and "latch_ok (bflatch f)" and "isLatched (bflatch f)" and "pageP f = Some p" and "pageP (mbf s i) = Some p"
    and "isPossessor client f" and "prr_resultType r \<in> {WithPage, WithPageSharedConflict}"
  shows "\<exists>x ps. answer_with_page fl client c i off r f s
      = Inr (answered c i s (unlatched (give_up f)) x ps (PostPage c (Some p) off (PossessionResp r)))
    \<and> ctx_ok fl 1 x \<and> moved_pages s (mbf s i) (unlatched (give_up f)) (cctxs s ! c) x ps"
proof -
  let ?op = "PostPage c (Some p) off (PossessionResp r)"
  let ?s = "(upd_bf i (\<lambda>_. f) s)\<lparr>posted := posted s @ [?op]\<rparr>"
  obtain x ps where x: "after_post fl c ?s = Inr (posts c ?s x ps)" "ctx_ok fl 0 x" "bmId x = bmId (cctxs s ! c)"
    "mset ps + parked x = mset (pageFree (mbm s)) + parked (cctxs s ! c)"
    using after_post_ok [of fl c ?s 0] assms(1,2,4) by auto
  have wr: "writePageAndMsg fl c (Some p) off (PossessionResp r) (upd_bf i (\<lambda>_. f) s) = Inr (answered c i s f x ps ?op)"
    using x(1) assms(3) by (simp add: writePageAndMsg_def answered_posts)
  show ?thesis
  proof (cases "state f = EVICTED")
    case False
    from x(2) have "ctx_ok fl 1 x" by (auto simp: ctx_ok_def)
    moreover from x(3,4) assms(7,8) False have "moved_pages s (mbf s i) (unlatched (give_up f)) (cctxs s ! c) x ps"
      by (simp add: moved_pages_def frame_pages_def unlatched_def give_up_def)
    moreover have "answer_with_page fl client c i off r f s = Inr (answered c i s (unlatched (give_up f)) x ps ?op)"
      using wr assms(3,5-10) False by (auto simp: answer_with_page_def Let_def unlatch_bf_ok give_up_def)
    ultimately show ?thesis by blast
  next
    case True
    have len: "c < length (cctxs (answered c i s f x ps ?op))" using assms(2) by simp
    obtain y where y: "park_page fl c (Some p) (answered c i s f x ps ?op) = Inr (answered c i s f y ps ?op)"
      "ctx_ok fl 1 y" "bmId y = bmId x" "parked y = add_mset p (parked x)"
      using park_page_ok [OF assms(1) len, of 0 p] x(2) assms(2) by auto
    from y(3,4) x(3,4) assms(8) True have "moved_pages s (mbf s i) (unlatched (give_up f)) (cctxs s ! c) y ps"
      by (simp add: moved_pages_def frame_pages_def unlatched_def give_up_def)
    moreover have "answer_with_page fl client c i off r f s = Inr (answered c i s (unlatched (give_up f)) y ps ?op)"
      using wr y(1) assms(3,5-10) True by (auto simp: answer_with_page_def Let_def unlatch_bf_ok give_up_def)
    ultimately show ?thesis using y(2) by blast
  qed
qed


lemma granted_latch: "granted_possession node desired client f r f' \<Longrightarrow> bflatch f' = bflatch f \<and> pageP f' = pageP f \<and> isPossessor client f'"
  by (simp add: granted_possession_def)

lemma granted_result:
  "granted_possession node desired client f r f' \<Longrightarrow> state f = HOT \<Longrightarrow> prr_resultType r \<in> {WithPage, WithPageSharedConflict}"
  by (simp add: granted_possession_def)


text \<open>A node with one page, possessed by itself and latched for a request of node 1.\<close>

definition sample_flags :: mh_flags where
  "sample_flags = \<lparr>pollingInterval = 2, messageHandlerMaxRetries = 10, wc_success = True\<rparr>"

definition sample_handler :: "BufferFrame \<Rightarrow> mhandler" where
  "sample_handler f = \<lparr>mbm = \<lparr>bfs = [f\<lparr>bflatch := \<lparr>version = 6, smut = Writer\<rparr>\<rparr>], ptsize = 1, frameFree = [], pageFree = [512], pidFree = [], bmNode = 0, globalEpoch = 0\<rparr>,
     mailboxes = [1], cctxs = [new_ConnectionContext sample_flags 1 2], inflightCRs = [\<lparr>icr_inflight = False, icr_pid = EMPTY_PID, icr_pVersion = 0\<rparr>],
     asyncReads = \<lparr>batch_max_size = 0, ready_to_submit = 0, outstanding_ios = 0, commands = [], iocbs_ptr = [], in_flight = [], free_slots = \<lparr>rb_size = 0, rb_data = [], rb_front = 0, rb_count = 0\<rparr>\<rparr>,
     posted = [], connectedClients = 1\<rparr>"

definition sample_guard :: "fref Guard" where
  "sample_guard = new_Guard\<lparr>gframe := Some 0, gstate := LOCAL_POSSESSION_CHANGE, latchState := EXCLUSIVE\<rparr>"

lemma sample_flags_ok: "flags_ok sample_flags" "polling sample_flags = 2"
  by (auto simp: flags_ok_def sample_flags_def polling_def intro: exI [of _ 1])

lemma sample_handler_ok: "mh_ok sample_flags (sample_handler f)" "mbf (sample_handler f) 0 = f\<lparr>bflatch := \<lparr>version = 6, smut = Writer\<rparr>\<rparr>"
  "latch_ok \<lparr>version = 6, smut = Writer\<rparr>" "isLatched \<lparr>version = 6, smut = Writer\<rparr>"
  using sample_flags_ok
  by (auto simp: mh_ok_def sample_handler_def ctx_ok_def batch_ok_def new_ConnectionContext_def new_InvalidationBatch_def mbf_def latch_ok_def isLatched_def
      isLatchedV_def sample_flags_def)

lemma owner_frame_bflatch [simp]: "owner_frame node (f\<lparr>bflatch := l\<rparr>) = owner_frame node f" "holders (f\<lparr>bflatch := l\<rparr>) = holders f"
proof -
  have "isPossessor n (f\<lparr>bflatch := l\<rparr>) = isPossessor n f" for n by (cases "possession f") (simp_all add: isPossessor_def)
  then show "owner_frame node (f\<lparr>bflatch := l\<rparr>) = owner_frame node f" "holders (f\<lparr>bflatch := l\<rparr>) = holders f"
    by (simp_all add: owner_frame_def dir_frame_def holders_def)
qed


section \<open>Update requests\<close>

lemma holders_test: "possession f = SHARED_P \<Longrightarrow> n \<in> holders f \<Longrightarrow> bm64_test (possessors f) n"
  by (simp add: holders_def isPossessor_def)

lemma cctxs_upd_posts:
  assumes "i < length (bfs (mbm s))"
  shows "posts c ((upd_bf i (\<lambda>_. f) (s\<lparr>cctxs := (cctxs s)[c := y]\<rparr>))\<lparr>posted := posted s @ [op]\<rparr>) x ps = answered c i s f x ps op"
  using assms by (cases s; cases "mbm s") (simp add: upd_bf_def upd_frame_def posts_def answered_def)

lemma upd_bf_cctxs [simp]: "upd_bf i u (s\<lparr>cctxs := xs\<rparr>) = (upd_bf i u s)\<lparr>cctxs := xs\<rparr>"
  by (cases s) (simp add: upd_bf_def)

text \<open>The page of the frame, if there is one, is parked before the answer is posted.\<close>

lemma update_answer_ok:
  assumes "flags_ok fl" and "c < length (cctxs s)" and "i < length (bfs (mbm s))" and "ctx_ok fl 1 (cctxs s ! c)"
    and "(case pk of None \<Rightarrow> frame_pages f = frame_pages (mbf s i) | Some p \<Rightarrow> pageP (mbf s i) = Some p \<and> pageP f = None)"
  shows "\<exists>x ps. bind_r (case pk of None \<Rightarrow> Inr s | Some page \<Rightarrow> park_page fl c (Some page) s) (\<lambda>s. writeMsg fl c msg (upd_bf i (\<lambda>_. f) s))
      = Inr (answered c i s f x ps (PostMsg c msg)) \<and> ctx_ok fl 1 x \<and> moved_pages s (mbf s i) f (cctxs s ! c) x ps"
proof -
  obtain y where y: "(case pk of None \<Rightarrow> Inr s | Some page \<Rightarrow> park_page fl c (Some page) s) = Inr (s\<lparr>cctxs := (cctxs s)[c := y]\<rparr>)"
    "ctx_ok fl 2 y" "bmId y = bmId (cctxs s ! c)" "parked y + frame_pages f = parked (cctxs s ! c) + frame_pages (mbf s i)"
  proof (cases pk)
    case None
    with assms(4,5) that [of "cctxs s ! c"] show ?thesis by (auto simp: ctx_ok_def)
  next
    case (Some p)
    then have "frame_pages f = {#}" "frame_pages (mbf s i) = {#p#}" using assms(5) by (simp_all add: frame_pages_def)
    with Some park_page_ok [OF assms(1,2,4), of p] that show ?thesis by (auto simp: numeral_2_eq_2)
  qed
  let ?s = "(upd_bf i (\<lambda>_. f) (s\<lparr>cctxs := (cctxs s)[c := y]\<rparr>))\<lparr>posted := posted s @ [PostMsg c msg]\<rparr>"
  have y': "c < length (cctxs ?s)" "cctxs ?s ! c = y" "pageFree (mbm ?s) = pageFree (mbm s)" using assms(2) by simp_all
  obtain x ps where x: "after_post fl c ?s = Inr (posts c ?s x ps)" "ctx_ok fl 1 x" "bmId x = bmId y"
    "mset ps + parked x = mset (pageFree (mbm s)) + parked y"
    using after_post_ok [OF assms(1) y'(1), of 1] y(2) y'(2,3) by (auto simp: numeral_2_eq_2)
  have "mset ps + parked x + frame_pages f = mset (pageFree (mbm s)) + (parked y + frame_pages f)"
    using x(4) by (simp add: ac_simps)
  with y(3,4) x(3) have "moved_pages s (mbf s i) f (cctxs s ! c) x ps" by (simp add: moved_pages_def ac_simps)
  moreover have "bind_r (case pk of None \<Rightarrow> Inr s | Some page \<Rightarrow> park_page fl c (Some page) s) (\<lambda>s. writeMsg fl c msg (upd_bf i (\<lambda>_. f) s))
      = Inr (answered c i s f x ps (PostMsg c msg))"
    unfolding y(1) using x(1) cctxs_upd_posts [OF assms(3)] by (simp add: writeMsg_def)
  ultimately show ?thesis using x(2) by blast
qed

text \<open>C26: An update request of a shared possessor whose version is the page's current one is served: the requester
  becomes the exclusive possessor at the next version, the answer names the other shared possessors, the owner's own
  page is given up, the frame is unlatched, the batches stay within their bounds and no page is lost.\<close>

theorem update_request_served:
  assumes "mh_ok fl s" and "c < length (cctxs s)" and "gframe g = Some i" and "i < length (bfs (mbm s))"
    and "gstate g \<notin> {RETRY, UNINITIALIZED, NOT_FOUND}" and "latchState g = EXCLUSIVE"
    and "latch_ok (bflatch (mbf s i))" and "isLatched (bflatch (mbf s i))"
    and "owner_frame (bmNode (mbm s)) (mbf s i)" and "possession (mbf s i) = SHARED_P" and "bmId (cctxs s ! c) \<in> holders (mbf s i)"
    and "bmId (cctxs s ! c) \<noteq> bmNode (mbm s)" and "pid (mbf s i) = pu_pid rq" and "pVersion (mbf s i) = pu_pVersion rq"
  shows "\<exists>r pk f' s'. update_body fl rq c m_i g s = Inr s' \<and> updated (bmNode (mbm s)) (bmId (cctxs s ! c)) (mbf s i) r pk f'
    \<and> bfs (mbm s') = (bfs (mbm s))[i := unlatched (f'\<lparr>mhWaiting := False\<rparr>)]
    \<and> posted s' = posted s @ [PostMsg c (PossessionUpdateResp r)] \<and> mh_ok fl s' \<and> all_pages s' = all_pages s"
proof -
  let ?f = "mbf s i"
  have fl: "flags_ok fl" "ctx_ok fl 1 (cctxs s ! c)" using assms(1,2) by (auto simp: mh_ok_def)
  have pre: "dir_frame (bmNode (mbm s)) ?f" "unat (bmNode (mbm s)) < MAX_NODES" "state ?f = HOT \<Longrightarrow> pageP ?f \<noteq> None"
    using assms(9) by (auto simp: owner_frame_def)
  obtain r pk f' where g: "update_frame (bmNode (mbm s)) (bmId (cctxs s ! c)) ?f = Inr (r, pk, f')"
    "updated (bmNode (mbm s)) (bmId (cctxs s ! c)) ?f r pk f'"
    using update_frame_ok [OF pre(1) assms(10,11,12) pre(2,3)] by blast
  have pk: "case pk of None \<Rightarrow> frame_pages f' = frame_pages ?f | Some p \<Rightarrow> pageP ?f = Some p \<and> pageP f' = None"
    using g(2) pre(3) by (auto simp: updated_def frame_pages_def split: option.splits if_splits)
  have l: "bflatch f' = bflatch ?f" using g(2) by (simp add: updated_def)
  obtain x ps where x: "bind_r (case pk of None \<Rightarrow> Inr s | Some page \<Rightarrow> park_page fl c (Some page) s) (\<lambda>s. writeMsg fl c (PossessionUpdateResp r) (upd_bf i (\<lambda>_. f') s))
      = Inr (answered c i s f' x ps (PostMsg c (PossessionUpdateResp r)))" "ctx_ok fl 1 x" "moved_pages s ?f f' (cctxs s ! c) x ps"
    using update_answer_ok [OF fl(1) assms(2,4) fl(2) pk] by blast
  from x(1) obtain s1 where s1: "(case pk of None \<Rightarrow> Inr s | Some page \<Rightarrow> park_page fl c (Some page) s) = Inr s1"
    "writeMsg fl c (PossessionUpdateResp r) (upd_bf i (\<lambda>_. f') s1) = Inr (answered c i s f' x ps (PostMsg c (PossessionUpdateResp r)))"
    by (auto simp: bind_r_eq_Inr)
  let ?g = "unlatched (f'\<lparr>mhWaiting := False\<rparr>)"
  have body: "update_body fl rq c m_i g s = Inr (answered c i s ?g x ps (PostMsg c (PossessionUpdateResp r)))"
    using assms(3-8,13,14) g(1) s1 holders_test [OF assms(10,11)] l
    by (auto simp: update_body_def Let_def unlatch_bf_ok)
  have "moved_pages s ?f ?g (cctxs s ! c) x ps" using x(3) by (simp add: moved_pages_def frame_pages_def unlatched_def)
  then show ?thesis
    using body g(2) mh_ok_answered [OF assms(1) x(2)] all_pages_answered [OF assms(2,4)]
    by (intro exI [of _ r] exI [of _ pk] exI [of _ f']) (auto simp: answered_def)
qed

definition shared_example :: BufferFrame where
  "shared_example = owned_example\<lparr>possession := SHARED_P, possessors := 3\<rparr>"

lemma shared_example_owner: "owner_frame 0 shared_example" "1 \<in> holders shared_example"
  by (simp_all add: owner_frame_def dir_frame_shared holders_shared shared_example_def owned_example_def MAX_NODES_def new_BufferFrame_def bm64_nodes_empty_iff
      bm64_nodes_bit bit_numeral_rec)

lemma shared_example_sel: "possession shared_example = SHARED_P" "pid shared_example = EMPTY_PID" "pVersion shared_example = 0"
  by (simp_all add: shared_example_def owned_example_def new_BufferFrame_def)

theorem update_request_served_witness:
  "\<exists>s'. update_body sample_flags \<lparr>pu_pid = EMPTY_PID, pu_pVersion = 0\<rparr> 0 0 sample_guard (sample_handler shared_example) = Inr s'
    \<and> mh_ok sample_flags s' \<and> all_pages s' = {#512, 4096#}"
proof -
  have "all_pages (sample_handler shared_example) = {#512, 4096#}"
    by (simp add: all_pages_def sample_handler_def frame_pages_def shared_example_def owned_example_def parked_def batch_pages_def new_ConnectionContext_def new_InvalidationBatch_def)
  then show ?thesis
    using update_request_served [where fl = sample_flags and s = "sample_handler shared_example" and c = 0 and g = sample_guard and i = 0
        and rq = "\<lparr>pu_pid = EMPTY_PID, pu_pVersion = 0\<rparr>"]
      shared_example_owner sample_handler_ok(1,2) [of shared_example] sample_handler_ok(3,4)
    by (auto simp: sample_guard_def sample_handler_def new_ConnectionContext_def shared_example_sel)
qed

end
