(* ===== verification/Mailboxes.thy ===== *)
theory Mailboxes
  imports MessageHandler_Proof
begin

text \<open>
  The mailboxes of the message handler: how the constructor splits them over the threads and \<open>init\<close> assigns them to
  connections, which mailbox an iteration of a round looks at, and what a handled request leaves alone.
\<close>

section \<open>Partitions\<close>

text \<open>Consecutive non-empty intervals that cover \<open>0..<n\<close>.\<close>

definition contiguous :: "nat \<Rightarrow> (nat \<times> nat) list \<Rightarrow> bool" where
  "contiguous n ps \<longleftrightarrow> ps \<noteq> [] \<and> fst (ps ! 0) = 0
     \<and> (\<forall>t<length ps. 0 < snd (ps ! t) \<and> fst (ps ! t) + snd (ps ! t) = (if Suc t < length ps then fst (ps ! Suc t) else n))"

lemma mailbox_partitions_ok:
  assumes "0 < threads" and "threads \<le> n"
  shows "\<exists>ps. mailbox_partitions n threads = Inr ps \<and> length ps = threads \<and> contiguous n ps"
proof -
  let ?b = "n div threads"
  have b: "0 < ?b" "threads * ?b \<le> n" using assms by (simp_all add: div_greater_zero_iff)
  have last: "(threads - 1) * ?b < n"
    using assms b by (metis Suc_diff_1 lessI mult_less_cancel2 order_less_le_trans)
  then show ?thesis
    using assms b by (auto simp: mailbox_partitions_def contiguous_def Let_def less_diff_conv nth_append)
qed

text \<open>Mailbox \<open>snd a\<close> of partition \<open>fst a\<close> is the mailbox of connection \<open>k\<close>.\<close>

definition mailbox_of :: "(nat \<times> nat) list \<Rightarrow> nat \<times> nat \<Rightarrow> nat \<Rightarrow> bool" where
  "mailbox_of ps a k \<longleftrightarrow> fst a < length ps \<and> snd a < snd (ps ! fst a) \<and> fst (ps ! fst a) + snd a = k"

lemma assign_mailboxes_ok:
  assumes "contiguous n ps" and "t < length ps" and "fst (ps ! t) + off = counter" and "off \<le> snd (ps ! t)" and "counter + k = n"
  shows "\<exists>as. assign_mailboxes ps k counter t off = Inr as \<and> length as = k \<and> (\<forall>j<k. mailbox_of ps (as ! j) (counter + j))"
  using assms(2-5)
proof (induction k arbitrary: counter t off)
  case (Suc k)
  let ?t = "if fst (ps ! t) + snd (ps ! t) \<le> counter then t + 1 else t"
  let ?off = "if fst (ps ! t) + snd (ps ! t) \<le> counter then 0 else off"
  have more: "?t < length ps" "fst (ps ! ?t) + ?off = counter" "?off < snd (ps ! ?t)"
    using assms(1) Suc.prems by (auto simp: contiguous_def split: if_splits)
  obtain as where as: "assign_mailboxes ps k (counter + 1) ?t (?off + 1) = Inr as" "length as = k" "\<forall>j<k. mailbox_of ps (as ! j) (counter + 1 + j)"
    using Suc.IH [of ?t "?off + 1" "counter + 1"] more Suc.prems(4) by auto
  have "assign_mailboxes ps (Suc k) counter t off = Inr ((?t, ?off) # as)"
    using Suc.prems(1) more as(1) by (auto simp: Let_def case_prod_unfold split: if_splits)
  moreover have "mailbox_of ps (((?t, ?off) # as) ! j) (counter + j)" if "j < Suc k" for j
    using that more as(3) by (cases j) (auto simp: mailbox_of_def)
  ultimately show ?case using as(2) by (metis length_Cons)
qed simp

text \<open>With at most as many handler threads as mailboxes the constructor succeeds and gives every thread a non-empty
  interval of the mailboxes, without gap or overlap; \<open>init\<close> then gives every connection a mailbox of its own, and the
  connection's number is what a handler thread computes as the first mailbox of its partition plus the mailbox's offset.\<close>

theorem mailboxes_assigned:
  assumes "0 < threads" and "threads \<le> n"
  shows "\<exists>ps as. mailbox_partitions n threads = Inr ps \<and> length ps = threads \<and> contiguous n ps
    \<and> assign_mailboxes ps n 0 0 0 = Inr as \<and> length as = n \<and> (\<forall>k<n. mailbox_of ps (as ! k) k) \<and> distinct as"
proof -
  obtain ps where ps: "mailbox_partitions n threads = Inr ps" "length ps = threads" "contiguous n ps"
    using mailbox_partitions_ok [OF assms] by blast
  then obtain as where as: "assign_mailboxes ps n 0 0 0 = Inr as" "length as = n" "\<forall>k<n. mailbox_of ps (as ! k) k"
    using assign_mailboxes_ok [of n ps 0 0 0 n] assms(1) by (auto simp: contiguous_def)
  then have "distinct as" unfolding distinct_conv_nth mailbox_of_def by metis
  with ps as show ?thesis by blast
qed

theorem mailboxes_assigned_witness:
  "\<exists>ps as. mailbox_partitions 7 3 = Inr ps \<and> ps = [(0, 2), (2, 2), (4, 3)] \<and> assign_mailboxes ps 7 0 0 0 = Inr as \<and> distinct as"
  using mailboxes_assigned [of 3 7] by (auto simp: mailbox_partitions_def Let_def upt_rec)

section \<open>What a handled request leaves alone\<close>

text \<open>The numbers of mailboxes and connections, and the entries for copy requests other than \<open>k\<close>.\<close>

definition noCR :: InflightCopyRequest where
  "noCR = \<lparr>icr_inflight = False, icr_pid = EMPTY_PID, icr_pVersion = 0\<rparr>"

definition kept :: "nat \<Rightarrow> mhandler \<Rightarrow> nat \<times> nat \<times> InflightCopyRequest list" where
  "kept k s = (length (mailboxes s), length (cctxs s), (inflightCRs s)[k := noCR])"

lemma kept_upd [simp]:
  "kept k (upd_ctx c u s) = kept k s" "kept k (upd_bf i v s) = kept k s" "kept k (set_mailbox j s) = kept k s"
  "kept k (s\<lparr>mbm := m\<rparr>) = kept k s" "kept k (s\<lparr>posted := q\<rparr>) = kept k s" "kept k (s\<lparr>asyncReads := a\<rparr>) = kept k s"
  "kept k (s\<lparr>connectedClients := n\<rparr>) = kept k s" "kept k (s\<lparr>mailboxes := (mailboxes s)[j := b]\<rparr>) = kept k s"
  "kept k (reset_retries c s) = kept k s" "kept k (s\<lparr>inflightCRs := (inflightCRs s)[k := r]\<rparr>) = kept k s"
  by (auto simp: kept_def upd_ctx_def upd_bf_def set_mailbox_def reset_retries_def)

lemma kept_upd_bf_CR [simp]:
  "kept k ((upd_bf i v s)\<lparr>inflightCRs := (inflightCRs s)[k := r]\<rparr>) = kept k s"
  by (simp add: kept_def upd_bf_def)

lemma kept_reclaim: "reclaimInvalidations c s = Inr s' \<Longrightarrow> kept k s' = kept k s"
  by (auto simp: reclaimInvalidations_def Let_def bind_r_eq_Inr split: if_splits)

lemma kept_after_post: "after_post fl c s = Inr s' \<Longrightarrow> kept k s' = kept k s"
  by (auto simp: after_post_def Let_def bind_r_eq_Inr split: if_splits dest: kept_reclaim)

lemma kept_post:
  "writeMsg fl c msg s = Inr s' \<Longrightarrow> kept k s' = kept k s" "writePageAndMsg fl c pg off msg s = Inr s' \<Longrightarrow> kept k s' = kept k s"
  "park_page fl c pg s = Inr s' \<Longrightarrow> kept k s' = kept k s" "unlatch_bf i s = Inr s' \<Longrightarrow> kept k s' = kept k s"
  "unlatchS_bf i s = Inr s' \<Longrightarrow> kept k s' = kept k s"
  by (auto simp: writeMsg_def writePageAndMsg_def park_page_def unlatch_bf_def unlatchS_bf_def bind_r_eq_Inr
      dest!: kept_after_post [where k = k])

lemma kept_answer:
  "answer_without_page fl c k i r f s = Inr s' \<Longrightarrow> kept k s' = kept k s" "answer_with_page fl client c i off r f s = Inr s' \<Longrightarrow> kept k s' = kept k s"
  subgoal by (auto simp: answer_without_page_def Let_def bind_r_eq_Inr split: if_splits dest!: kept_post [where k = k])
  subgoal by (auto simp: answer_with_page_def Let_def bind_r_eq_Inr split: if_splits dest!: kept_post [where k = k])
  done

lemma kept_possession_body: "possession_body fl desired rq c k g s = Inr s' \<Longrightarrow> kept k s' = kept k s"
  by (auto simp: possession_body_def Let_def bind_r_eq_Inr split: if_splits prod.splits dest!: kept_post [where k = k] kept_answer)

lemma kept_move_body: "move_body fl renv rq c m g s = Some (Inr s') \<Longrightarrow> kept k s' = kept k s"
  by (auto simp: move_body_def Let_def bind_r_eq_Inr split: if_splits sum.splits option.splits prod.splits dest!: kept_post [where k = k])

lemma kept_copy_body: "copy_body fl rq c m g s = Inr s' \<Longrightarrow> kept k s' = kept k s"
  by (auto simp: copy_body_def Let_def bind_r_eq_Inr split: if_splits dest!: kept_post [where k = k])

lemma kept_update_body: "update_body fl rq c m g s = Inr s' \<Longrightarrow> kept k s' = kept k s"
  by (auto simp: update_body_def Let_def bind_r_eq_Inr split: option.splits if_splits prod.splits dest!: kept_post [where k = k])

lemmas handle_request_defs = handle_request_def handle_DR_def handlePossessionRequest_def handle_PMR_def handle_PCR_def handle_PUR_def handle_RAR_def

lemma kept_handle_request: "handle_request fl e c k s = Some (Inr s') \<Longrightarrow> kept k s' = kept k s"
  by (auto simp: handle_request_defs Let_def bind_r_eq_Inr
      split: Message.splits if_splits option.splits sum.splits prod.splits list.splits
      dest!: kept_post [where k = k] kept_possession_body kept_move_body [where k = k] kept_copy_body [where k = k] kept_update_body [where k = k])

lemma kept_other_request:
  "handle_request fl e c m s = Some (Inr s') \<Longrightarrow> (\<And>rq. request (cctxs s ! c) \<noteq> PossessionReq rq) \<Longrightarrow> kept k s' = kept k s"
  by (auto simp: handle_request_defs Let_def bind_r_eq_Inr
      split: Message.splits if_splits option.splits sum.splits prod.splits list.splits
      dest!: kept_post [where k = k] kept_move_body [where k = k] kept_copy_body [where k = k] kept_update_body [where k = k])

lemma length_mailboxes_handled: "handle_mailbox fl b e m k s = Some (Inr s') \<Longrightarrow> length (mailboxes s') = length (mailboxes s)"
  by (auto simp: handle_mailbox_def Let_def kept_def split: if_splits dest!: kept_handle_request)

section \<open>The order of a round\<close>

text \<open>Iteration \<open>m\<close> of a round that starts at \<open>sp\<close> looks at mailbox \<open>(sp + m) mod n\<close>; a start past the last mailbox is
  a start at the first.\<close>

definition visits :: "nat \<Rightarrow> nat \<Rightarrow> (nat \<times> nat) list" where
  "visits n sp = map (\<lambda>m. (m, ((if sp < n then sp else 0) + m) mod n)) [0..<n]"

fun run_visits :: "mh_flags \<Rightarrow> nat \<Rightarrow> (nat \<Rightarrow> mh_env) \<Rightarrow> (nat \<times> nat) list \<Rightarrow> mhandler \<Rightarrow> mhandler result option" where
  "run_visits fl b e [] s = Some (Inr s)"
| "run_visits fl b e ((m, k) # vs) s =
     (case handle_mailbox fl b (e m) m k s of None \<Rightarrow> None | Some (Inl err) \<Rightarrow> Some (Inl err) | Some (Inr s) \<Rightarrow> run_visits fl b e vs s)"

lemma mailbox_round_run:
  assumes "length (mailboxes s) = n" and "0 < n" and "idx \<le> n"
  shows "mailbox_round fl b e ms idx s = run_visits fl b e (zip ms (map (\<lambda>j. (idx + j) mod n) [0..<length ms])) s"
  using assms
proof (induction ms arbitrary: idx s)
  case (Cons m ms)
  define k where "k = (if n \<le> idx then 0 else idx)"
  have k: "k = idx mod n" "k + 1 \<le> n" using Cons.prems by (auto simp: k_def)
  have "(k + 1 + j) mod n = (idx + Suc j) mod n" for j
    unfolding k(1) by (metis add_Suc_shift mod_add_left_eq plus_1_eq_Suc add.assoc)
  then have shift: "map (\<lambda>j. (idx + j) mod n) [0..<length (m # ms)] = k # map (\<lambda>j. (k + 1 + j) mod n) [0..<length ms]"
    using k(1) by (simp add: upt_conv_Cons map_Suc_upt [symmetric] del: upt_Suc)
  show ?case
    unfolding shift using Cons.prems(1) Cons.IH [OF _ Cons.prems(2) k(2)]
    by (auto simp: Let_def k_def [symmetric] length_mailboxes_handled split: option.splits sum.splits)
qed simp

lemma mod_wrap: "x < n \<Longrightarrow> b < n \<Longrightarrow> (b + x) mod n = (if b + x < n then b + x else b + x - n)" for n :: nat
  by (simp add: le_mod_geq)

lemma zip_map_same: "zip xs (map f xs) = map (\<lambda>x. (x, f x)) xs"
  by (induction xs) auto

lemma visits_cover:
  assumes "0 < n"
  shows "distinct (map snd (visits n sp))" and "set (map snd (visits n sp)) = {..<n}"
proof -
  let ?b = "if sp < n then sp else 0"
  have b: "?b < n" using assms by simp
  have inj: "inj_on (\<lambda>m. (?b + m) mod n) {..<n}"
    using mod_wrap [OF _ b] by (intro inj_onI) (simp split: if_splits)
  then show d: "distinct (map snd (visits n sp))"
    by (simp add: visits_def comp_def distinct_map atLeast0LessThan)
  have "(\<lambda>m. (?b + m) mod n) ` {..<n} = {..<n}"
    using inj assms by (intro endo_inj_surj) auto
  then show "set (map snd (visits n sp)) = {..<n}"
    by (simp add: visits_def image_image comp_def atLeast0LessThan)
qed

text \<open>A round of the handler loop looks at every mailbox of its partition exactly once, starting at the start
  position; from start position \<open>n\<close> on, which counts the rounds and is never reduced, every round starts at mailbox 0.\<close>

theorem mailbox_round_order:
  assumes "length (mailboxes s) = n" and "0 < n"
  shows "mailbox_round fl b e [0..<n] sp s = run_visits fl b e (visits n sp) s
    \<and> distinct (map snd (visits n sp)) \<and> set (map snd (visits n sp)) = {..<n} \<and> (n \<le> sp \<longrightarrow> visits n sp = map (\<lambda>m. (m, m)) [0..<n])"
proof -
  have "mailbox_round fl b e [0..<n] sp s = mailbox_round fl b e [0..<n] (if sp < n then sp else 0) s"
    using assms by (auto simp: upt_conv_Cons Let_def)
  also have "\<dots> = run_visits fl b e (zip [0..<n] (map (\<lambda>j. ((if sp < n then sp else 0) + j) mod n) [0..<n])) s"
    using mailbox_round_run [OF assms, of "if sp < n then sp else 0" fl b e "[0..<n]"] by simp
  finally show ?thesis
    using visits_cover [OF assms(2)] by (auto simp: visits_def zip_map_same)
qed

text \<open>C38: An iteration that does not look at the mailbox of its own number forgets the copy request of another client:
  it clears the entry of the iteration, while the entry of the mailbox it handles, which is where copy requests are
  registered, stays.\<close>

theorem copy_request_entries_mixed_up:
  assumes "length (inflightCRs s) = n" and "0 < sp" and "sp < n" and "m < n" and "k = (sp + m) mod n"
    and "mailboxes s ! k \<noteq> 0" and "\<And>rq. request (cctxs s ! (k + b)) \<noteq> PossessionReq rq"
    and "handle_mailbox fl b e m k s = Some (Inr s')"
  shows "(m, k) \<in> set (visits n sp) \<and> k \<noteq> m \<and> inflightCRs s' ! k = inflightCRs s ! k \<and> \<not> icr_inflight (inflightCRs s' ! m)"
proof -
  have km: "k \<noteq> m" using assms(2-5) by (simp add: mod_wrap split: if_splits)
  define s1 where "s1 = s\<lparr>mailboxes := (mailboxes s)[k := 0],
    inflightCRs := (if icr_inflight (inflightCRs s ! m) then (inflightCRs s)[m := noCR] else inflightCRs s)\<rparr>"
  have "handle_request fl e (k + b) k s1 = Some (Inr s')"
    using assms(6,8) by (cases s) (auto simp: handle_mailbox_def s1_def noCR_def Let_def)
  then have "kept (length (inflightCRs s1) + length (inflightCRs s')) s' = kept (length (inflightCRs s1) + length (inflightCRs s')) s1"
    using assms(7) by (intro kept_other_request) (auto simp: s1_def)
  then have "inflightCRs s' = inflightCRs s1" by (simp add: kept_def list_update_beyond)
  then show ?thesis
    using km assms(1,3-5) by (auto simp: s1_def noCR_def visits_def)
qed

text \<open>Two mailboxes; the second one holds a \<open>Finish\<close> request, and both clients have a copy request registered.\<close>

definition two_mailboxes :: mhandler where
  "two_mailboxes = (sample_handler owned_example)\<lparr>mailboxes := [0, 1],
     cctxs := [new_ConnectionContext sample_flags 1 2, (new_ConnectionContext sample_flags 1 2)\<lparr>request := FinishRequest\<rparr>],
     inflightCRs := [\<lparr>icr_inflight = True, icr_pid = mk_PID 0 7, icr_pVersion = 3\<rparr>, \<lparr>icr_inflight = True, icr_pid = mk_PID 0 8, icr_pVersion = 5\<rparr>]\<rparr>"

theorem mailbox_round_order_witness:
  "mailbox_round sample_flags 0 (\<lambda>_. \<lparr>me_find = [], me_tries = []\<rparr>) [0..<2] 1 two_mailboxes
    = run_visits sample_flags 0 (\<lambda>_. \<lparr>me_find = [], me_tries = []\<rparr>) [(0, 1), (1, 0)] two_mailboxes"
  using mailbox_round_order [of two_mailboxes 2 sample_flags 0 "\<lambda>_. \<lparr>me_find = [], me_tries = []\<rparr>" 1] by (simp add: two_mailboxes_def visits_def upt_rec numeral_2_eq_2)

theorem copy_request_entries_mixed_up_witness:
  "\<exists>s'. handle_mailbox sample_flags 0 \<lparr>me_find = [], me_tries = []\<rparr> 0 1 two_mailboxes = Some (Inr s')
    \<and> inflightCRs s' ! 1 = inflightCRs two_mailboxes ! 1 \<and> \<not> icr_inflight (inflightCRs s' ! 0) \<and> icr_inflight (inflightCRs two_mailboxes ! 0)"
proof -
  obtain s' where h: "handle_mailbox sample_flags 0 \<lparr>me_find = [], me_tries = []\<rparr> 0 1 two_mailboxes = Some (Inr s')"
    by (simp add: handle_mailbox_def handle_request_def two_mailboxes_def Let_def)
  show ?thesis
    using copy_request_entries_mixed_up [of two_mailboxes 2 1 0 1 0, OF _ _ _ _ _ _ _ h] h
    by (auto simp: two_mailboxes_def)
qed

end
