(* ===== verification/MessageHandler_Moves.thy ===== *)
theory MessageHandler_Moves
  imports MessageHandler_Proof
begin

text \<open>
  The requests a node that possesses a page gets from others than its owner: to move the page to the requester, which
  removes it here, and to send a copy.
\<close>

text \<open>The pages that are free or wait for a write to complete.\<close>

definition idle_pages :: "mhandler \<Rightarrow> addr multiset" where
  "idle_pages s = mset (pageFree (mbm s)) + sum_list (map parked (cctxs s))"

lemma idle_pages_upd:
  assumes "c < length (cctxs s)" and "mset ps + parked x = mset (pageFree (mbm s)) + parked (cctxs s ! c) + P"
  shows "mset ps + sum_list (map parked ((cctxs s)[c := x])) = idle_pages s + P"
proof -
  have "sum_list ((map parked (cctxs s))[c := parked x]) + parked (cctxs s ! c) = sum_list (map parked (cctxs s)) + parked x"
    using assms(1) sum_list_update_mset [of c "map parked (cctxs s)"] by simp
  then have "mset ps + sum_list (map parked ((cctxs s)[c := x])) + parked (cctxs s ! c) = mset ps + parked x + sum_list (map parked (cctxs s))"
    by (simp add: map_update ac_simps)
  also have "\<dots> = idle_pages s + P + parked (cctxs s ! c)" unfolding assms(2) by (simp add: idle_pages_def ac_simps)
  finally show ?thesis by simp
qed

lemma mh_ok_ctx:
  assumes "mh_ok fl s" and "ctx_ok fl 1 x" and "cctxs s' = (cctxs s)[c := x]"
  shows "mh_ok fl s'"
  using assms by (auto simp: mh_ok_def dest!: set_update_subset_insert [THEN subsetD])


text \<open>a request for a copy at the version of the frame, which is possessed in shared mode, is served: the page and the
  answer are posted to the requester; the frame stays as it is, with one reader less, and the requester's retries are
  forgotten.\<close>

theorem copy_request_served:
  assumes "mh_ok fl s" and "c < length (cctxs s)" and "gframe g = Some i" and "gstate g \<notin> {RETRY, NOT_FOUND, UNINITIALIZED}" and "i < length (bfs (mbm s))"
    and "latch_ok (bflatch (mbf s i))" and "0 < readers (bflatch (mbf s i))"
    and "state (mbf s i) = HOT" and "possession (mbf s i) = SHARED_P" and "pid (mbf s i) = pc_pid rq" and "pVersion (mbf s i) = pc_pVersion rq" and "pageP (mbf s i) = Some p"
  shows "\<exists>s' l. copy_body fl rq c k g s = Inr s' \<and> bfs (mbm s') = (bfs (mbm s))[i := (mbf s i)\<lparr>bflatch := l\<rparr>] \<and> latch_ok l \<and> readers l = readers (bflatch (mbf s i)) - 1
    \<and> posted s' = posted s @ [PostPage c (Some p) (pc_pageOffset rq) (PossessionCopyResponse WithPage)] \<and> retries (cctxs s' ! c) = 0
    \<and> mh_ok fl s' \<and> idle_pages s' = idle_pages s"
proof -
  have fl: "flags_ok fl" "ctx_ok fl 1 (cctxs s ! c)" using assms(1,2) by (auto simp: mh_ok_def)
  let ?s = "s\<lparr>posted := posted s @ [PostPage c (Some p) (pc_pageOffset rq) (PossessionCopyResponse WithPage)]\<rparr>"
  obtain x ps where x: "after_post fl c ?s = Inr (posts c ?s x ps)" "ctx_ok fl 0 x" "mset ps + parked x = mset (pageFree (mbm s)) + parked (cctxs s ! c)"
    using after_post_ok [of fl c ?s 0] fl assms(2) by auto
  let ?s1 = "posts c ?s x ps"
  obtain l where l: "unlatchShared (bflatch (mbf s i)) = Inr l" "latch_ok l" "readers l = readers (bflatch (mbf s i)) - 1"
    using unlatchShared_ok [OF assms(6,7)] by blast
  let ?s2 = "reset_retries c (upd_bf i (\<lambda>f. f\<lparr>bflatch := l\<rparr>) ?s1)"
  let ?y = "x\<lparr>retries := 0\<rparr>"
  have "copy_body fl rq c k g s = Inr ?s2"
    using assms(3,4,8-12) x(1) l(1) by (simp add: copy_body_def Let_def writePageAndMsg_def unlatchS_bf_def)
  moreover have c2: "cctxs ?s2 = (cctxs s)[c := ?y]" "pageFree (mbm ?s2) = ps" "bfs (mbm ?s2) = (bfs (mbm s))[i := (mbf s i)\<lparr>bflatch := l\<rparr>]"
    "posted ?s2 = posted s @ [PostPage c (Some p) (pc_pageOffset rq) (PossessionCopyResponse WithPage)]"
    using assms(2) by (simp_all add: reset_retries_def upd_ctx_def upd_bf_def upd_frame_def posts_def mbf_def)
  moreover have "ctx_ok fl 1 ?y" using x(2) by (auto simp: ctx_ok_def)
  then have "mh_ok fl ?s2" using mh_ok_ctx [OF assms(1) _ c2(1)] by blast
  moreover have "mset ps + parked ?y = mset (pageFree (mbm s)) + parked (cctxs s ! c) + {#}" using x(3) by (simp add: parked_def)
  then have "idle_pages ?s2 = idle_pages s" using idle_pages_upd [OF assms(2)] c2(1,2) by (simp add: idle_pages_def)
  ultimately show ?thesis using l(2,3) assms(2) by (intro exI [of _ ?s2] exI [of _ l]) simp
qed


theorem copy_request_served_witness:
  "\<exists>s'. copy_body sample_flags \<lparr>pc_pid = EMPTY_PID, pc_pageOffset = 64, pc_pVersion = 0\<rparr> 0 0 (new_Guard\<lparr>gframe := Some 0, gstate := INITIALIZED, latchState := SHARED\<rparr>)
       (upd_bf 0 (\<lambda>_. shared_example\<lparr>bflatch := \<lparr>version = 4, smut = Readers 1\<rparr>\<rparr>) (sample_handler shared_example)) = Inr s'
     \<and> posted s' = [PostPage 0 (Some 4096) 64 (PossessionCopyResponse WithPage)]"
proof -
  let ?f = "shared_example\<lparr>bflatch := \<lparr>version = 4, smut = Readers 1\<rparr>\<rparr>"
  let ?s = "upd_bf 0 (\<lambda>_. ?f) (sample_handler shared_example)"
  have s: "mh_ok sample_flags ?s" "0 < length (cctxs ?s)" "0 < length (bfs (mbm ?s))" "mbf ?s 0 = ?f" "posted ?s = []"
    using sample_handler_ok(1) [of shared_example] by (simp_all add: mh_ok_def sample_handler_def upd_bf_def upd_frame_def mbf_def)
  have f: "latch_ok \<lparr>version = 4, smut = Readers 1\<rparr>" "readers \<lparr>version = 4, smut = Readers 1\<rparr> = 1" "state shared_example = HOT" "pageP shared_example = Some 4096"
    by (simp_all add: readers.simps latch_ok_def isLatched_def isLatchedV_def shared_example_def owned_example_def)
  from copy_request_served [OF s(1,2), of "new_Guard\<lparr>gframe := Some 0, gstate := INITIALIZED, latchState := SHARED\<rparr>" 0 "\<lparr>pc_pid = EMPTY_PID, pc_pageOffset = 64, pc_pVersion = 0\<rparr>" 4096 0]
    s(3-5) f shared_example_sel show ?thesis by auto
qed

end
