(* ===== verification/Fix.thy ===== *)
theory Fix
  imports Directory
begin

text \<open>
  \<open>Buffermanager::fix\<close> (Buffermanager.tpp): a worker acquires a page in the mode of its access functor.  On a miss, or
  when the possession does not suffice, it asks the owner of the page, invalidates, moves or copies the page from the
  nodes the answer names, and takes possession.

  The other nodes are a parameter: \<open>send\<close> is what posting a message to a node does to the world, \<open>collect\<close> the answer
  that appears in the worker's incoming buffer (threads/Worker.hpp); pages that are sent with an answer are
  part of the world.
\<close>

section \<open>Messages of a worker\<close>

record 'w net =
  send :: "nat \<Rightarrow> Message \<Rightarrow> 'w \<Rightarrow> 'w"
  collect :: "nat \<Rightarrow> 'w \<Rightarrow> Message \<times> 'w"

definition writeMsgASync :: "'w net \<Rightarrow> nat \<Rightarrow> Message \<Rightarrow> 'w \<Rightarrow> 'w" where
  "writeMsgASync net n msg w = send net n msg w"

definition collectResponseMsgASync :: "'w net \<Rightarrow> nat \<Rightarrow> 'w \<Rightarrow> Message \<times> 'w" where
  "collectResponseMsgASync net n w = collect net n w"

definition writeMsgSync :: "'w net \<Rightarrow> nat \<Rightarrow> Message \<Rightarrow> 'w \<Rightarrow> Message \<times> 'w" where
  "writeMsgSync net n msg w = collect net n (send net n msg w)"

section \<open>Conflicts\<close>

definition move_request :: "PID \<Rightarrow> bool \<Rightarrow> addr \<Rightarrow> u64 \<Rightarrow> Message" where
  "move_request p needPage off v = PossessionMoveReq \<lparr>pm_needPage = needPage, pm_pid = p, pm_pageOffset = off, pm_pVersion = v\<rparr>"

text \<open>The answer to a move request has to be of the given kind.\<close>

definition expect_move :: "RESULT \<Rightarrow> Message \<times> 'w \<Rightarrow> 'w result" where
  "expect_move res a = (case fst a of PossessionMoveResponse r \<Rightarrow> ensure (r = res) (Inr (snd a)) | _ \<Rightarrow> Inl Undefined)"

definition invalidateSharedConflicts :: "'w net \<Rightarrow> PID \<Rightarrow> u64 \<Rightarrow> u64 \<Rightarrow> 'w \<Rightarrow> (u64 \<times> 'w) result" where
  "invalidateSharedConflicts net p shared v w =
     (let w = snd (bm64_applyForAll (\<lambda>n. writeMsgASync net n (move_request p False 0 v)) shared w)
      in snd (bm64_applyForAll (\<lambda>n r. bind_r r (\<lambda>(sh, w).
             bind_r (expect_move NoPage (collectResponseMsgASync net n w)) (\<lambda>w. Inr (bm64_reset sh (of_nat n), w)))) shared (Inr (shared, w))))"

definition movePageRnd :: "'w net \<Rightarrow> (nat \<Rightarrow> nat) \<Rightarrow> PID \<Rightarrow> u64 \<Rightarrow> addr \<Rightarrow> u64 \<Rightarrow> 'w \<Rightarrow> (u64 \<times> 'w) result" where
  "movePageRnd net rnd p shared off v w =
     bm64_applyToOneRnd rnd (\<lambda>n r. bind_r r (\<lambda>(sh, w).
       bind_r (expect_move WithPage (writeMsgSync net n (move_request p True off v) w)) (\<lambda>w. Inr (bm64_reset sh (of_nat n), w)))) shared (Inr (shared, w))"

text \<open>The result of a copy is not set when there is no node to ask.\<close>

definition copyPageRnd :: "'w net \<Rightarrow> (nat \<Rightarrow> nat) \<Rightarrow> PID \<Rightarrow> u64 \<Rightarrow> addr \<Rightarrow> u64 \<Rightarrow> 'w \<Rightarrow> (RESULT option \<times> 'w) result" where
  "copyPageRnd net rnd p shared off v w =
     bm64_applyToOneRnd rnd (\<lambda>n r. bind_r r (\<lambda>(_, w).
       case writeMsgSync net n (PossessionCopyReq \<lparr>pc_pid = p, pc_pageOffset = off, pc_pVersion = v\<rparr>) w of
         (PossessionCopyResponse res, w) \<Rightarrow> Inr (Some res, w)
       | _ \<Rightarrow> Inl Undefined)) shared (Inr (None, w))"

section \<open>Acquiring possession\<close>

text \<open>Possession acquired, or the latch was released and the worker starts over.\<close>

datatype 'w acquire_outcome = Acquired BufferFrame 'w | Backed_off BufferFrame 'w

definition page_offset :: "BufferFrame \<Rightarrow> addr" where
  "page_offset f = (case pageP f of None \<Rightarrow> 0 | Some a \<Rightarrow> a)"

definition wanted :: "LATCH_STATE \<Rightarrow> POSSESSION" where
  "wanted ft = (if ft = EXCLUSIVE then EXCLUSIVE_P else SHARED_P)"

definition take_possession :: "LATCH_STATE \<Rightarrow> NodeID \<Rightarrow> BufferFrame \<Rightarrow> BufferFrame result" where
  "take_possession ft node f = bind_r (setPossessor node (f\<lparr>possession := wanted ft\<rparr>)) (\<lambda>f. Inr (f\<lparr>state := HOT\<rparr>))"

definition back_off :: "BufferFrame \<Rightarrow> 'w \<Rightarrow> 'w acquire_outcome result" where
  "back_off f w = ensure (isLatched (bflatch f)) (bind_r (unlatchExclusive (bflatch f)) (\<lambda>l. Inr (Backed_off (f\<lparr>bflatch := l\<rparr>) w)))"

text \<open>Copying from a random shared possessor until it succeeds or a message waits for the frame; per try the random
  choice and whether \<open>mhWaiting\<close> is set when the try failed.\<close>

fun copy_loop :: "'w net \<Rightarrow> PID \<Rightarrow> u64 \<Rightarrow> ((nat \<Rightarrow> nat) \<times> bool) list \<Rightarrow> BufferFrame \<Rightarrow> 'w \<Rightarrow> 'w acquire_outcome result option" where
  "copy_loop net p shared [] f w = None"
| "copy_loop net p shared ((rnd, mhw) # tries) f w =
     (if \<not> bm64_any shared then Some (Inl Ensure_failed)
      else case copyPageRnd net rnd p shared (page_offset f) (pVersion f) w of
             Inl e \<Rightarrow> Some (Inl e)
           | Inr (None, _) \<Rightarrow> Some (Inl Undefined)
           | Inr (Some res, w) \<Rightarrow>
               if res = WithPage then Some (Inr (Acquired f w))
               else if mhw then Some (back_off (f\<lparr>mhWaiting := True\<rparr>) w)
               else copy_loop net p shared tries f w)"

definition resolve_conflict ::
  "'w net \<Rightarrow> (nat \<Rightarrow> nat) \<Rightarrow> ((nat \<Rightarrow> nat) \<times> bool) list \<Rightarrow> PID \<Rightarrow> PossessionResponse \<Rightarrow> BufferFrame \<Rightarrow> 'w \<Rightarrow> 'w acquire_outcome result option" where
  "resolve_conflict net rnd tries p r f w =
     (if prr_resultType r = NoPageExclusiveConflict then
        (case prr_conflictingNodeId r of
           None \<Rightarrow> Some (Inl Undefined)
         | Some n \<Rightarrow> Some (bind_r (expect_move WithPage (writeMsgSync net (unat n) (move_request p True (page_offset f) (pVersion f)) w)) (\<lambda>w. Inr (Acquired f w))))
      else if prr_resultType r = NoPageSharedConflict \<or> prr_resultType r = WithPageSharedConflict then
        (case prr_conflictingNodeId r of
           None \<Rightarrow> Some (Inl Undefined)
         | Some shared \<Rightarrow> Some (
             ensure (bm64_any shared) (
             bind_r (if prr_resultType r = NoPageSharedConflict then movePageRnd net rnd p shared (page_offset f) (pVersion f) w else Inr (shared, w)) (\<lambda>(shared, w).
             bind_r (invalidateSharedConflicts net p shared (pVersion f) w) (\<lambda>(_, w). Inr (Acquired f w))))))
      else if prr_resultType r = NoPageEvicted then
        (case prr_conflictingNodeId r of
           None \<Rightarrow> Some (Inl Undefined)
         | Some shared \<Rightarrow> copy_loop net p shared tries f w)
      else Some (Inr (Acquired f w)))"

text \<open>A frame without the page, of a page another node owns.\<close>

definition fix_remote ::
  "'w net \<Rightarrow> (nat \<Rightarrow> nat) \<Rightarrow> ((nat \<Rightarrow> nat) \<times> bool) list \<Rightarrow> nat \<Rightarrow> LATCH_STATE \<Rightarrow> NodeID \<Rightarrow> PID \<Rightarrow> BufferFrame \<Rightarrow> 'w \<Rightarrow> 'w acquire_outcome result option" where
  "fix_remote net rnd tries nodes ft node p f w =
     (case ensure (state f = IO_RDMA) (ensure (1 < nodes) (ensure (isLatched (bflatch f)) (
           let owner = unat (getOwner p);
               w = writeMsgASync net owner (PossessionReq \<lparr>pr_type = (if ft = EXCLUSIVE then PRX else PRS), pr_pid = p, pr_pageOffset = page_offset f\<rparr>) w
           in case collectResponseMsgASync net owner w of
                (PossessionResp r, w) \<Rightarrow> (case prr_pVersion r of None \<Rightarrow> Inl Undefined | Some v \<Rightarrow> Inr (r, f\<lparr>pVersion := v\<rparr>, w))
              | _ \<Rightarrow> Inl Undefined))) of
        Inl e \<Rightarrow> Some (Inl e)
      | Inr (r, f, w) \<Rightarrow>
          (case resolve_conflict net rnd tries p r f w of
             Some (Inr (Acquired f w)) \<Rightarrow> Some (bind_r (take_possession ft node f) (\<lambda>f. Inr (Acquired f w)))
           | other \<Rightarrow> other))"

text \<open>A frame of a page this node owns, whose possession does not suffice.  \<open>f\<close> has a page: its own or, if it was
  evicted, one taken from the free list.\<close>

definition fix_local ::
  "'w net \<Rightarrow> (nat \<Rightarrow> nat) \<Rightarrow> LATCH_STATE \<Rightarrow> NodeID \<Rightarrow> PID \<Rightarrow> BufferFrame \<Rightarrow> 'w \<Rightarrow> 'w acquire_outcome result" where
  "fix_local net rnd ft node p f w =
     bind_r (case possession f of
        EXCLUSIVE_P \<Rightarrow>
          let f = f\<lparr>pVersion := pVersion f + 1\<rparr>;
              a = writeMsgSync net (unat (possessors f)) (move_request p True (page_offset f) (pVersion f)) w
          in bind_r (expect_move WithPage a) (\<lambda>w. Inr (Acquired (f\<lparr>possessors := 0\<rparr>) w))
      | SHARED_P \<Rightarrow>
          if ft = EXCLUSIVE then
            let f = f\<lparr>pVersion := pVersion f + 1, possessors := bm64_reset (possessors f) node\<rparr>
            in bind_r (if state f = EVICTED then movePageRnd net rnd p (possessors f) (page_offset f) (pVersion f) w else Inr (possessors f, w)) (\<lambda>(shared, w).
               bind_r (invalidateSharedConflicts net p shared (pVersion f) w) (\<lambda>(shared, w). Inr (Acquired (f\<lparr>possessors := shared\<rparr>) w)))
          else
            ensure (state f = EVICTED) (ensure (bm64_any (possessors f)) (
            bind_r (copyPageRnd net rnd p (possessors f) (page_offset f) (pVersion f) w) (\<lambda>(res, w).
            case res of
              None \<Rightarrow> Inl Undefined
            | Some res \<Rightarrow> if res \<noteq> WithPage then back_off f w else Inr (Acquired f w))))
      | NOBODY \<Rightarrow> Inl (Runtime_error ''Invalid state in fix'')) (\<lambda>a.
     case a of
       Backed_off f w \<Rightarrow> Inr (Backed_off f w)
     | Acquired f w \<Rightarrow>
         bind_r (take_possession ft node f) (\<lambda>f. ensure (isPossessor node f) (Inr (Acquired f w))))"

text \<open>A frame with the page, possessed in shared mode, of a page another node owns: the owner is asked for exclusive
  possession at the version the frame has.\<close>

definition fix_update ::
  "'w net \<Rightarrow> nat \<Rightarrow> NodeID \<Rightarrow> PID \<Rightarrow> BufferFrame \<Rightarrow> 'w \<Rightarrow> 'w acquire_outcome result" where
  "fix_update net nodes node p f w =
     ensure (1 < nodes) (ensure (isLatched (bflatch f)) (ensure (possession f = SHARED_P) (ensure (state f = HOT) (
     let pVersionOld = pVersion f; f = f\<lparr>pVersion := pVersion f + 1\<rparr>
     in case writeMsgSync net (unat (getOwner p)) (PossessionUpdateReq \<lparr>pu_pid = p, pu_pVersion = pVersionOld\<rparr>) w of
          (PossessionUpdateResp r, w) \<Rightarrow>
            if pur_resultType r = UpdateFailed then back_off (f\<lparr>pVersion := pVersionOld\<rparr>) w
            else (case pur_pVersion r of
                    None \<Rightarrow> Inl Undefined
                  | Some v \<Rightarrow>
                      ensure (pVersion f = v) (
                      bind_r (if pur_resultType r = UpdateSucceedWithSharedConflict then
                                (case pur_conflictingNodeId r of
                                   None \<Rightarrow> Inl Undefined
                                 | Some shared \<Rightarrow> bind_r (invalidateSharedConflicts net p (bm64_reset shared node) (pVersion f) w) (\<lambda>(_, w). Inr w))
                              else Inr w) (\<lambda>w.
                      bind_r (setPossessor node (f\<lparr>possession := EXCLUSIVE_P\<rparr>)) (\<lambda>f. Inr (Acquired (f\<lparr>state := HOT\<rparr>) w)))))
        | _ \<Rightarrow> Inl Undefined))))"

section \<open>fix\<close>

text \<open>\<open>readPageSync\<close>: what the calls of \<open>pread\<close> return, one after the other.\<close>

definition PAGE_SIZE :: int where
  "PAGE_SIZE = 512"

fun read_loop :: "int list \<Rightarrow> int \<Rightarrow> unit result option" where
  "read_loop [] bytes_left = None"
| "read_loop (bytes_read # rest) bytes_left = (if 0 < bytes_left - bytes_read then read_loop rest (bytes_left - bytes_read) else Some (Inr ()))"

definition readPageSync :: "int list \<Rightarrow> addr option \<Rightarrow> unit result option" where
  "readPageSync reads destination =
     (case destination of
        None \<Rightarrow> Some (Inl Undefined)
      | Some a \<Rightarrow> if a mod 512 = 0 then read_loop reads PAGE_SIZE else Some (Inl Ensure_failed))"

text \<open>One attempt of the worker: what happens around its lookup, the random choices, the tries to copy, what others do
  to the latch while it is downgraded and to the buffer manager while the worker waits for a page, and what \<open>pread\<close>
  returns; \<open>load\<close> is the effect of the reads on the world.\<close>

record 'w fix_env =
  fe_find :: "find_env list"
  fe_rnd :: "nat \<Rightarrow> nat"
  fe_tries :: "((nat \<Rightarrow> nat) \<times> bool) list"
  fe_gap :: "HybridLatch \<Rightarrow> HybridLatch"
  fe_wait :: "bufmgr \<Rightarrow> bufmgr"
  fe_reads :: "int list"
  fe_load :: "PID \<Rightarrow> 'w \<Rightarrow> 'w"

definition access_of :: "LATCH_STATE \<Rightarrow> access_fn" where
  "access_of ft = (case ft of EXCLUSIVE \<Rightarrow> Exclusive_access | SHARED \<Rightarrow> Shared_access | _ \<Rightarrow> Optimistic_access)"

definition undo_of :: "LATCH_STATE \<Rightarrow> undo_fn" where
  "undo_of ft = (case ft of EXCLUSIVE \<Rightarrow> Exclusive_undo | SHARED \<Rightarrow> Shared_undo | _ \<Rightarrow> Optimistic_undo)"

definition touch :: "fref \<Rightarrow> bufmgr \<Rightarrow> bufmgr" where
  "touch i m = upd_frame i (\<lambda>f. if epoch f < globalEpoch m then f\<lparr>epoch := globalEpoch m\<rparr> else f) m"

text \<open>The end of a cold path: the latch is downgraded to the mode of the functor, which may fail.\<close>

definition fix_finish :: "(HybridLatch \<Rightarrow> HybridLatch) \<Rightarrow> LATCH_STATE \<Rightarrow> fref \<Rightarrow> fref Guard \<Rightarrow> bufmgr \<Rightarrow> 'w \<Rightarrow> (bufmgr \<times> 'w, fref Guard) step_result" where
  "fix_finish gap ft i g m w =
     of_result (needDowngrade ft g) (\<lambda>need.
     of_result (if need then downgrade gap ft g (bflatch (bfs m ! i)) else Inr (True, g, bflatch (bfs m ! i))) (\<lambda>(_, g, l).
     let m = upd_frame i (\<lambda>f. f\<lparr>bflatch := l\<rparr>) m
     in if gstate g = RETRY then Again (m, w) else Finished (touch i m, w) (g\<lparr>gstate := INITIALIZED\<rparr>)))"

definition after_acquire :: "'w fix_env \<Rightarrow> LATCH_STATE \<Rightarrow> fref \<Rightarrow> fref Guard \<Rightarrow> bufmgr \<Rightarrow> 'w acquire_outcome result \<Rightarrow> (bufmgr \<times> 'w, fref Guard) step_result" where
  "after_acquire e ft i g m r =
     of_result r (\<lambda>a. case a of
       Backed_off f w \<Rightarrow> Again (upd_frame i (\<lambda>_. f) m, w)
     | Acquired f w \<Rightarrow> fix_finish (fe_gap e) ft i g (upd_frame i (\<lambda>_. f) m) w)"

definition fix_body ::
  "'w net \<Rightarrow> nat \<Rightarrow> 'w fix_env \<Rightarrow> LATCH_STATE \<Rightarrow> PID \<Rightarrow> fref Guard \<Rightarrow> bufmgr \<Rightarrow> 'w \<Rightarrow> (bufmgr \<times> 'w, fref Guard) step_result option" where
  "fix_body net nodes e ft p g m w =
     (case gframe g of
        None \<Rightarrow> Some (Failed Undefined)
      | Some i \<Rightarrow>
          let f = bfs m ! i; node = bmNode m
          in if gstate g = UNINITIALIZED \<or> gstate g = RETRY then Some (Failed Ensure_failed)
             else if gstate g = INITIALIZED then Some (Finished (touch i m, w) g)
             else if gstate g = SSD then
               (if \<not> isLatched (bflatch f) then Some (Failed Ensure_failed)
                else case readPageSync (fe_reads e) (pageP f) of
                       None \<Rightarrow> None
                     | Some (Inl err) \<Rightarrow> Some (Failed err)
                     | Some (Inr _) \<Rightarrow>
                         Some (of_result (take_possession ft node f) (\<lambda>f.
                               of_result (ensure (pid f \<noteq> EMPTY_PID) (Inr ())) (\<lambda>_.
                               fix_finish (fe_gap e) ft i g (upd_frame i (\<lambda>_. f) m) (fe_load e p w)))))
             else if gstate g = REMOTE then
               (if latchState g \<noteq> EXCLUSIVE then Some (Failed Ensure_failed)
                else case fix_remote net (fe_rnd e) (fe_tries e) nodes ft node p f w of
                       None \<Rightarrow> None
                     | Some r \<Rightarrow> Some (after_acquire e ft i g m r))
             else if gstate g = LOCAL_POSSESSION_CHANGE then
               Some (of_result (ensure (getOwner p = node) (ensure (isLatched (bflatch f)) (ensure (possession f \<noteq> NOBODY) (Inr ())))) (\<lambda>_.
                     of_result (if state f = EVICTED then
                                  (case pageFree (fe_wait e m) of [] \<Rightarrow> Inl Blocked | a # as \<Rightarrow> Inr (f\<lparr>pageP := Some a\<rparr>, (fe_wait e m)\<lparr>pageFree := as\<rparr>))
                                else Inr (f, m)) (\<lambda>(f, m).
                     of_result (fix_local net (fe_rnd e) ft node p f w) (\<lambda>a. case a of
                       Acquired f w \<Rightarrow>
                         of_result (ensure (pid f \<noteq> EMPTY_PID) (Inr ())) (\<lambda>_. fix_finish (fe_gap e) ft i g (upd_frame i (\<lambda>_. f) m) w)
                     | Backed_off f w \<Rightarrow>
                         of_result (push_page f m) (\<lambda>m. Again (upd_frame i (\<lambda>_. f\<lparr>pageP := None\<rparr>) m, w))))))
             else if gstate g = REMOTE_POSSESSION_CHANGE then
               Some (of_result (fix_update net nodes node p f w) (\<lambda>a. case a of
                       Acquired f w \<Rightarrow> Finished (touch i (upd_frame i (\<lambda>_. f) m), w) (g\<lparr>gstate := INITIALIZED\<rparr>)
                     | Backed_off f w \<Rightarrow> Again (upd_frame i (\<lambda>_. f) m, w)))
             else Some (Failed Ensure_failed))"

fun bm_fix :: "'w net \<Rightarrow> nat \<Rightarrow> 'w fix_env list \<Rightarrow> LATCH_STATE \<Rightarrow> PID \<Rightarrow> bufmgr \<Rightarrow> 'w \<Rightarrow> ((bufmgr \<times> 'w) \<times> fref Guard) result option" where
  "bm_fix net nodes [] ft p m w = None"
| "bm_fix net nodes (e # es) ft p m w =
     (case findFrameOrInsert (access_of ft) (undo_of ft) BLOCKING (fe_find e) p (bmNode m) m of
        None \<Rightarrow> None
      | Some (Inl err) \<Rightarrow> Some (Inl err)
      | Some (Inr ((_, m), g)) \<Rightarrow>
          (case fix_body net nodes e ft p g m w of
             None \<Rightarrow> None
           | Some (Failed err) \<Rightarrow> Some (Inl err)
           | Some (Finished s g) \<Rightarrow> Some (Inr (s, g))
           | Some (Again (m, w)) \<Rightarrow> bm_fix net nodes es ft p m w))"

end
