(* ===== verification/Coherence.thy ===== *)
theory Coherence
  imports MessageHandler_Proof Fix
begin

text \<open>
  The coherence of the nodes' copies of a page.  A cluster is the owner's frame (the directory), the frames and page
  contents of the other nodes that possess the page, and the incoming buffers of the worker that is fixing the page.
  Its network answers a worker's messages by the decisions of the message handlers: \<open>grant\<close> and \<open>update_frame\<close> at the
  owner, and at the other possessors the removal of the frame and the copy of its page.
\<close>

section \<open>A cluster as the network of a worker\<close>

record 'd cluster =
  cl_owner :: NodeID
  cl_dir :: BufferFrame
  cl_data :: 'd
  cl_copies :: "nat \<Rightarrow> (BufferFrame \<times> 'd) option"
  cl_buf :: "'d option"
  cl_inbox :: "nat \<Rightarrow> Message option"

definition post :: "nat \<Rightarrow> Message \<Rightarrow> 'd cluster \<Rightarrow> 'd cluster" where
  "post n m w = w\<lparr>cl_inbox := (cl_inbox w)(n := Some m)\<rparr>"

definition serve_possession :: "NodeID \<Rightarrow> PossessionRequest \<Rightarrow> 'd cluster \<Rightarrow> 'd cluster" where
  "serve_possession client rq w =
     (case grant (if pr_type rq = PRX then EXCLUSIVE_P else SHARED_P) (cl_owner w) client (cl_dir w) of
        Inl _ \<Rightarrow> w
      | Inr (r, with_page, f) \<Rightarrow>
          post (unat (cl_owner w)) (PossessionResp r) (w\<lparr>cl_dir := give_up f, cl_buf := (if with_page then Some (cl_data w) else cl_buf w)\<rparr>))"

definition serve_update :: "NodeID \<Rightarrow> PossessionUpdateRequest \<Rightarrow> 'd cluster \<Rightarrow> 'd cluster" where
  "serve_update client rq w =
     (if pu_pVersion rq < pVersion (cl_dir w) then post (unat (cl_owner w)) (PossessionUpdateResp (mk_PossessionUpdateResponse UpdateFailed)) w
      else if pVersion (cl_dir w) = pu_pVersion rq \<and> bm64_test (possessors (cl_dir w)) client then
        (case update_frame (cl_owner w) client (cl_dir w) of
           Inl _ \<Rightarrow> w
         | Inr (r, _, f) \<Rightarrow> post (unat (cl_owner w)) (PossessionUpdateResp r) (w\<lparr>cl_dir := f\<rparr>))
      else w)"

definition serve_move :: "nat \<Rightarrow> PossessionMoveRequest \<Rightarrow> 'd cluster \<Rightarrow> 'd cluster" where
  "serve_move n rq w =
     (case cl_copies w n of
        None \<Rightarrow> w
      | Some (f, d) \<Rightarrow>
          post n (PossessionMoveResponse (if pm_needPage rq then WithPage else NoPage))
            (w\<lparr>cl_copies := (cl_copies w)(n := None), cl_buf := (if pm_needPage rq then Some d else cl_buf w)\<rparr>))"

definition serve_copy :: "nat \<Rightarrow> PossessionCopyRequest \<Rightarrow> 'd cluster \<Rightarrow> 'd cluster" where
  "serve_copy n rq w =
     (case cl_copies w n of
        None \<Rightarrow> post n (PossessionCopyResponse CopyFailedWithInvalidation) w
      | Some (f, d) \<Rightarrow>
          if possession f = SHARED_P \<and> pVersion f = pc_pVersion rq then post n (PossessionCopyResponse WithPage) (w\<lparr>cl_buf := Some d\<rparr>) else w)"

definition cl_send :: "NodeID \<Rightarrow> nat \<Rightarrow> Message \<Rightarrow> 'd cluster \<Rightarrow> 'd cluster" where
  "cl_send client n msg w =
     (case msg of
        PossessionReq rq \<Rightarrow> if n = unat (cl_owner w) then serve_possession client rq w else w
      | PossessionUpdateReq rq \<Rightarrow> if n = unat (cl_owner w) then serve_update client rq w else w
      | PossessionMoveReq rq \<Rightarrow> serve_move n rq w
      | PossessionCopyReq rq \<Rightarrow> serve_copy n rq w
      | _ \<Rightarrow> w)"

definition cl_collect :: "nat \<Rightarrow> 'd cluster \<Rightarrow> Message \<times> 'd cluster" where
  "cl_collect n w = (case cl_inbox w n of None \<Rightarrow> (EmptyMessage, w) | Some m \<Rightarrow> (m, w\<lparr>cl_inbox := (cl_inbox w)(n := None)\<rparr>))"

definition cl_net :: "NodeID \<Rightarrow> 'd cluster net" where
  "cl_net client = \<lparr>send = cl_send client, collect = cl_collect\<rparr>"

section \<open>Moving pages between the nodes\<close>

definition drop_copies :: "nat set \<Rightarrow> 'd cluster \<Rightarrow> 'd cluster" where
  "drop_copies N w = w\<lparr>cl_copies := (\<lambda>n. if n \<in> N then None else cl_copies w n)\<rparr>"

lemma fold_sends:
  assumes "distinct ns" and "\<And>n. n \<in> set ns \<Longrightarrow> cl_copies w n \<noteq> None"
  shows "fold (\<lambda>n. cl_send client n (move_request p False off v)) ns w
    = (drop_copies (set ns) w)\<lparr>cl_inbox := (\<lambda>n. if n \<in> set ns then Some (PossessionMoveResponse NoPage) else cl_inbox w n)\<rparr>"
  using assms
proof (induction ns arbitrary: w)
  case (Cons n ns)
  let ?w = "cl_send client n (move_request p False off v) w"
  from Cons.prems(2) [of n] obtain f d where fd: "cl_copies w n = Some (f, d)" by auto
  then have w: "?w = w\<lparr>cl_copies := (cl_copies w)(n := None), cl_inbox := (cl_inbox w)(n := Some (PossessionMoveResponse NoPage))\<rparr>"
    by (cases w) (simp add: cl_send_def move_request_def serve_move_def post_def)
  have "cl_copies ?w m \<noteq> None" if "m \<in> set ns" for m
    using Cons.prems that w by auto
  with Cons.IH [of ?w] Cons.prems(1)
  have "fold (\<lambda>n. cl_send client n (move_request p False off v)) (n # ns) w
      = (drop_copies (set ns) ?w)\<lparr>cl_inbox := (\<lambda>n. if n \<in> set ns then Some (PossessionMoveResponse NoPage) else cl_inbox ?w n)\<rparr>"
    by simp
  also have "\<dots> = (drop_copies (set (n # ns)) w)\<lparr>cl_inbox := (\<lambda>m. if m \<in> set (n # ns) then Some (PossessionMoveResponse NoPage) else cl_inbox w m)\<rparr>"
    unfolding w by (cases w) (auto simp: drop_copies_def fun_eq_iff)
  finally show ?case .
qed (simp add: drop_copies_def)

lemma fold_collects:
  assumes "distinct ns" and "\<And>n. n \<in> set ns \<Longrightarrow> n < 64 \<and> cl_inbox w n = Some (PossessionMoveResponse NoPage)"
  shows "fold (\<lambda>n r. bind_r r (\<lambda>(sh, w). bind_r (expect_move NoPage (cl_collect n w)) (\<lambda>w. Inr (bm64_reset sh (of_nat n), w)))) ns (Inr (sh, w))
    = Inr (fold (\<lambda>n sh. bm64_reset sh (of_nat n)) ns sh, w\<lparr>cl_inbox := (\<lambda>n. if n \<in> set ns then None else cl_inbox w n)\<rparr>)"
  using assms
proof (induction ns arbitrary: w sh)
  case (Cons n ns)
  then have "cl_collect n w = (PossessionMoveResponse NoPage, w\<lparr>cl_inbox := (cl_inbox w)(n := None)\<rparr>)"
    by (simp add: cl_collect_def)
  moreover have "m \<in> set ns \<Longrightarrow> m < 64 \<and> cl_inbox (w\<lparr>cl_inbox := (cl_inbox w)(n := None)\<rparr>) m = Some (PossessionMoveResponse NoPage)" for m
    using Cons.prems by auto
  ultimately show ?case
    using Cons by (cases w) (auto simp: expect_move_def fun_eq_iff)
qed simp

lemma bm64_nodes_resets:
  "(\<And>n. n \<in> set ns \<Longrightarrow> n < 64) \<Longrightarrow> bm64_nodes (fold (\<lambda>n sh. bm64_reset sh (of_nat n)) ns sh) = bm64_nodes sh - set ns"
proof (induction ns arbitrary: sh)
  case (Cons n ns)
  then have "n < 64" by simp
  then have "bm64_nodes (bm64_reset sh (of_nat n)) = bm64_nodes sh - {n}"
    by (simp add: bm64_nodes_reset MAX_NODES_def unat_of_nat)
  with Cons show ?case by auto
qed simp

lemma writeMsgASync_eta: "writeMsgASync net n msg = send net n msg"
  by (simp add: fun_eq_iff writeMsgASync_def)

lemma invalidate_ok:
  assumes "\<And>n. n \<in> bm64_nodes shared \<Longrightarrow> cl_copies w n \<noteq> None" and "\<And>n. n \<in> bm64_nodes shared \<Longrightarrow> cl_inbox w n = None"
  shows "invalidateSharedConflicts (cl_net client) p shared v w = Inr (0, drop_copies (bm64_nodes shared) w)"
proof -
  have ns: "set (bits_of shared) = bm64_nodes shared" "distinct (bits_of shared)" "\<And>n. n \<in> set (bits_of shared) \<Longrightarrow> n < 64"
    using bm64_nodes_lt [of _ shared] sorted_bits_of [of shared] by (auto simp: bm64_nodes_def strict_sorted_iff)
  let ?w = "(drop_copies (bm64_nodes shared) w)\<lparr>cl_inbox := (\<lambda>n. if n \<in> bm64_nodes shared then Some (PossessionMoveResponse NoPage) else cl_inbox w n)\<rparr>"
  have send: "fold (\<lambda>n. cl_send client n (move_request p False 0 v)) (bits_of shared) w = ?w"
    using fold_sends [OF ns(2), of w client p 0 v] assms(1) ns(1) by simp
  have "bm64_nodes (fold (\<lambda>n sh. bm64_reset sh (of_nat n)) (bits_of shared) shared) = {}"
    using bm64_nodes_resets [of "bits_of shared" shared] ns(1,3) by simp
  then have zero: "fold (\<lambda>n sh. bm64_reset sh (of_nat n)) (bits_of shared) shared = 0"
    by (simp only: bm64_nodes_empty_iff)
  have restored: "?w\<lparr>cl_inbox := (\<lambda>n. if n \<in> bm64_nodes shared then None else cl_inbox ?w n)\<rparr> = drop_copies (bm64_nodes shared) w"
    using assms(2) by (cases w) (auto simp: drop_copies_def fun_eq_iff)
  show ?thesis
    using fold_collects [OF ns(2), of ?w shared] ns zero restored
    by (simp add: invalidateSharedConflicts_def bm64_applyForAll_def bits_loop_fold cl_net_def writeMsgASync_eta collectResponseMsgASync_def send)
qed

text \<open>Any random choice of the code picks below the count.\<close>

definition picks :: "(nat \<Rightarrow> nat) \<Rightarrow> bool" where
  "picks rnd \<longleftrightarrow> (\<forall>c>0. rnd c < c)"

definition took_page :: "nat \<Rightarrow> 'd \<Rightarrow> 'd cluster \<Rightarrow> 'd cluster" where
  "took_page n d w = w\<lparr>cl_copies := (cl_copies w)(n := None), cl_buf := Some d\<rparr>"

lemma move_ok:
  assumes "cl_copies w n = Some (f, d)" and "cl_inbox w n = None"
  shows "expect_move WithPage (writeMsgSync (cl_net client) n (move_request p True off v) w) = Inr (took_page n d w)"
proof -
  have "(cl_inbox w)(n := None) = cl_inbox w" using assms(2) by auto
  then show ?thesis
    using assms by (cases w) (simp add: writeMsgSync_def cl_net_def cl_send_def move_request_def serve_move_def post_def cl_collect_def expect_move_def took_page_def)
qed

lemma applyToOneRnd_cases:
  assumes "picks rnd" and "bm64_nodes bm \<noteq> {}" and "\<And>n. n \<in> bm64_nodes bm \<Longrightarrow> Q (func n s)"
  shows "Q (bm64_applyToOneRnd rnd func bm s)"
proof -
  have "bm64_any bm" "\<And>c. 0 < c \<Longrightarrow> rnd c < c" using assms(1,2) by (simp_all add: bm64_any_nodes picks_def)
  from bm64_applyToOneRnd_member [OF this, of func s] assms(3) show ?thesis by force
qed

lemma movePageRnd_ok:
  assumes "picks rnd" and "bm64_nodes shared \<noteq> {}" and "\<And>n. n \<in> bm64_nodes shared \<Longrightarrow> cl_inbox w n = None"
    and "\<And>n. n \<in> bm64_nodes shared \<Longrightarrow> \<exists>f. cl_copies w n = Some (f, d)"
  shows "\<exists>n\<in>bm64_nodes shared. movePageRnd (cl_net client) rnd p shared off v w = Inr (bm64_reset shared (of_nat n), took_page n d w)"
  unfolding movePageRnd_def
proof (rule applyToOneRnd_cases [OF assms(1,2)])
  fix n assume n: "n \<in> bm64_nodes shared"
  then obtain f where "cl_copies w n = Some (f, d)" using assms(4) by blast
  from move_ok [OF this assms(3) [OF n]] n
  show "\<exists>m\<in>bm64_nodes shared. bind_r (Inr (shared, w)) (\<lambda>(sh, w).
      bind_r (expect_move WithPage (writeMsgSync (cl_net client) n (move_request p True off v) w)) (\<lambda>w. Inr (bm64_reset sh (of_nat n), w)))
    = Inr (bm64_reset shared (of_nat m), took_page m d w)"
    by (intro bexI [of _ n]) auto
qed

lemma copyPageRnd_ok:
  assumes "picks rnd" and "bm64_nodes shared \<noteq> {}" and "\<And>n. n \<in> bm64_nodes shared \<Longrightarrow> cl_inbox w n = None"
    and "\<And>n. n \<in> bm64_nodes shared \<Longrightarrow> \<exists>f. cl_copies w n = Some (f, d) \<and> possession f = SHARED_P \<and> pVersion f = v"
  shows "copyPageRnd (cl_net client) rnd p shared off v w = Inr (Some WithPage, w\<lparr>cl_buf := Some d\<rparr>)"
  unfolding copyPageRnd_def
proof (rule applyToOneRnd_cases [OF assms(1,2)])
  fix n assume n: "n \<in> bm64_nodes shared"
  then obtain f where f: "cl_copies w n = Some (f, d)" "possession f = SHARED_P" "pVersion f = v" using assms(4) by blast
  have "(cl_inbox w)(n := None) = cl_inbox w" using assms(3) [OF n] by auto
  with f show "bind_r (Inr (None, w)) (\<lambda>(_, w).
      case writeMsgSync (cl_net client) n (PossessionCopyReq \<lparr>pc_pid = p, pc_pageOffset = off, pc_pVersion = v\<rparr>) w of
        (PossessionCopyResponse res, w) \<Rightarrow> Inr (Some res, w)
      | _ \<Rightarrow> Inl Undefined) = Inr (Some WithPage, w\<lparr>cl_buf := Some d\<rparr>)"
    by (cases w) (simp add: writeMsgSync_def cl_net_def cl_send_def serve_copy_def post_def cl_collect_def)
qed

section \<open>Coherence\<close>

text \<open>\<open>cur\<close> is what was last written to the page.  The directory names exactly the nodes that have a copy, every copy has
  the current contents, and the copies are possessed in the mode and at the version of the directory.\<close>

definition copy_ok :: "BufferFrame \<Rightarrow> 'd \<Rightarrow> nat \<Rightarrow> BufferFrame \<Rightarrow> 'd \<Rightarrow> bool" where
  "copy_ok dir cur n f d \<longleftrightarrow> d = cur \<and> state f = HOT \<and> possession f = possession dir \<and> pVersion f = pVersion dir \<and> isPossessor (of_nat n) f"

definition coherent :: "'d \<Rightarrow> 'd cluster \<Rightarrow> bool" where
  "coherent cur w \<longleftrightarrow> owner_frame (cl_owner w) (cl_dir w) \<and> cl_inbox w = (\<lambda>_. None) \<and> (state (cl_dir w) = HOT \<longrightarrow> cl_data w = cur)
     \<and> (\<forall>n. cl_copies w n \<noteq> None \<longleftrightarrow> n \<in> unat ` (holders (cl_dir w) - {cl_owner w}))
     \<and> (\<forall>n f d. cl_copies w n = Some (f, d) \<longrightarrow> copy_ok (cl_dir w) cur n f d)"

lemma coherent_none: "coherent cur w \<Longrightarrow> n \<notin> unat ` (holders (cl_dir w) - {cl_owner w}) \<Longrightarrow> cl_copies w n = None"
  unfolding coherent_def by blast

lemma coherent_copy:
  assumes "coherent cur w" and "n \<in> unat ` (holders (cl_dir w) - {cl_owner w})"
  shows "\<exists>f. cl_copies w n = Some (f, cur) \<and> possession f = possession (cl_dir w) \<and> pVersion f = pVersion (cl_dir w)"
proof -
  from assms obtain f d where "cl_copies w n = Some (f, d)" unfolding coherent_def by fastforce
  moreover from this assms(1) have "copy_ok (cl_dir w) cur n f d" unfolding coherent_def by blast
  ultimately show ?thesis by (auto simp: copy_ok_def)
qed

text \<open>The nodes the owner's answer names are the ones whose copies have to go or to be read.\<close>

lemma granted_named:
  assumes "granted_possession node desired client f r f'" and "dir_frame node f" and "prr_resultType r \<noteq> WithPage"
  shows "\<exists>v. prr_conflictingNodeId r = Some v \<and> unat ` (holders f - {node}) \<noteq> {}
    \<and> (if prr_resultType r = NoPageExclusiveConflict then {unat v} else bm64_nodes v) = unat ` (holders f - {node})"
proof -
  let ?N = "named_nodes (prr_resultType r) (prr_conflictingNodeId r)"
  have gr: "?N = unat ` (if desired = EXCLUSIVE_P then holders f - {node} else if state f = HOT then {} else holders f)"
    "prr_resultType r =
      (if state f = HOT then (if desired = EXCLUSIVE_P \<and> holders f - {node} \<noteq> {} then WithPageSharedConflict else WithPage)
       else if possession f = EXCLUSIVE_P then NoPageExclusiveConflict
       else if desired = EXCLUSIVE_P then NoPageSharedConflict else NoPageEvicted)"
    using assms(1) unfolding granted_possession_def by blast+
  have h: "holders f - {node} = holders f" "holders f \<noteq> {}" if "state f \<noteq> HOT" using assms(2) that by (auto simp: dir_frame_def)
  have hot: "desired = EXCLUSIVE_P" "holders f - {node} \<noteq> {}" if "state f = HOT" using gr(2) assms(3) that by (simp_all split: if_splits)
  have ne: "holders f - {node} \<noteq> {}" and N: "?N = unat ` (holders f - {node})"
    using gr(1) h hot by (cases "state f = HOT"; simp)+
  then obtain v where v: "prr_conflictingNodeId r = Some v" by (cases "prr_conflictingNodeId r") (auto simp: named_nodes_def)
  have "prr_resultType r \<in> {NoPageExclusiveConflict, NoPageSharedConflict, WithPageSharedConflict, NoPageEvicted}"
    using gr(2) assms(3) by (simp split: if_splits)
  then have "?N = (if prr_resultType r = NoPageExclusiveConflict then {unat v} else bm64_nodes v)"
    by (auto simp: named_nodes_def v)
  with v ne N show ?thesis by (metis image_is_empty)
qed

text \<open>What the owner's answer and its resolution leave of the other copies.\<close>

lemma resolve_ok:
  fixes w :: "'d cluster"
  assumes coh: "coherent cur w" and gr: "granted_possession (cl_owner w) desired client (cl_dir w) r f'"
    and rnd: "picks rnd" "tries \<noteq> []" "picks (fst (hd tries))" and ver: "pVersion f = pVersion f'"
    and w1: "w1 = w\<lparr>cl_dir := give_up f', cl_buf := (if state (cl_dir w) = HOT then Some (cl_data w) else cl_buf w)\<rparr>"
  shows "resolve_conflict (cl_net client) rnd tries p r f w1 = Some (Inr (Acquired f (w1\<lparr>cl_buf := Some cur,
      cl_copies := (if desired = EXCLUSIVE_P \<or> possession (cl_dir w) = EXCLUSIVE_P then (\<lambda>_. None) else cl_copies w)\<rparr>)))"
    (is "?lhs = Some (Inr (Acquired f ?w))")
proof -
  let ?D = "cl_dir w"
  define H where "H = unat ` (holders ?D - {cl_owner w})"
  have own: "dir_frame (cl_owner w) ?D" using coh by (simp add: coherent_def owner_frame_def)
  have none: "cl_copies w n = None" if "n \<notin> H" for n using coherent_none [OF coh] that by (simp add: H_def)
  have copy: "\<exists>g. cl_copies w1 n = Some (g, cur) \<and> possession g = possession ?D \<and> pVersion g = pVersion ?D" if "n \<in> H" for n
    using coherent_copy [OF coh that [unfolded H_def]] w1 by simp
  have inbox: "cl_inbox w1 n = None" for n using coh w1 by (simp add: coherent_def)
  have res: "prr_resultType r = (if state ?D = HOT then (if desired = EXCLUSIVE_P \<and> holders ?D - {cl_owner w} \<noteq> {} then WithPageSharedConflict else WithPage)
       else if possession ?D = EXCLUSIVE_P then NoPageExclusiveConflict else if desired = EXCLUSIVE_P then NoPageSharedConflict else NoPageEvicted)"
    using gr by (simp add: granted_possession_def)
  have solo: "H = {}" if "state ?D = HOT" "possession ?D = EXCLUSIVE_P"
    using own that by (auto simp: dir_frame_def holders_exclusive H_def)
  have buf: "state ?D = HOT \<Longrightarrow> cl_buf w1 = Some cur" using coh w1 by (simp add: coherent_def)
  have copies: "cl_copies w1 = cl_copies w" using w1 by simp
  have empty: "cl_copies w = (\<lambda>_. None)" if "H = {}" using none that by auto
  show ?thesis
  proof (cases "prr_resultType r = WithPage")
    case True
    then have hot: "state ?D = HOT" and ex: "desired = EXCLUSIVE_P \<Longrightarrow> H = {}" using res by (auto simp: H_def split: if_splits)
    have "?w = w1"
      by (rule cluster.equality) (use empty hot buf solo ex copies in auto)
    with True show ?thesis by (simp add: resolve_conflict_def)
  next
    case False
    from granted_named [OF gr own False] obtain v where v: "prr_conflictingNodeId r = Some v" "H \<noteq> {}"
      "(if prr_resultType r = NoPageExclusiveConflict then {unat v} else bm64_nodes v) = H" unfolding H_def by blast
    consider (wp) "prr_resultType r = WithPageSharedConflict" "state ?D = HOT" "desired = EXCLUSIVE_P"
      | (ex) "prr_resultType r = NoPageExclusiveConflict" "possession ?D = EXCLUSIVE_P"
      | (sh) "prr_resultType r = NoPageSharedConflict" "desired = EXCLUSIVE_P"
      | (ev) "prr_resultType r = NoPageEvicted" "desired \<noteq> EXCLUSIVE_P" "possession ?D \<noteq> EXCLUSIVE_P"
      using res False by (auto split: if_splits)
    then show ?thesis
    proof cases
      case wp
      then have v': "bm64_nodes v = H" using v by simp
      have "invalidateSharedConflicts (cl_net client) p v (pVersion f) w1 = Inr (0, drop_copies H w1)"
        using invalidate_ok [of v w1 client p] copy inbox v' by force
      moreover have "drop_copies H w1 = ?w"
        by (rule cluster.equality) (use none buf wp copies in \<open>auto simp: drop_copies_def\<close>)
      ultimately show ?thesis using wp v v' by (simp add: resolve_conflict_def bm64_any_nodes)
    next
      case ex
      then have v': "H = {unat v}" using v by simp
      then obtain g where "cl_copies w1 (unat v) = Some (g, cur)" using copy by blast
      from move_ok [OF this inbox]
      have "expect_move WithPage (writeMsgSync (cl_net client) (unat v) (move_request p True (page_offset f) (pVersion f)) w1) = Inr (took_page (unat v) cur w1)" .
      moreover have "took_page (unat v) cur w1 = ?w"
        by (rule cluster.equality) (use none ex v' copies in \<open>auto simp: took_page_def\<close>)
      ultimately show ?thesis using ex v by (simp add: resolve_conflict_def)
    next
      case sh
      then have v': "bm64_nodes v = H" using v by simp
      obtain n where n: "n \<in> H" "movePageRnd (cl_net client) rnd p v (page_offset f) (pVersion f) w1 = Inr (bm64_reset v (of_nat n), took_page n cur w1)"
        using movePageRnd_ok [OF rnd(1), of v w1 cur client p "page_offset f" "pVersion f"] copy inbox v' v(2) by blast
      have "n < 64" using n(1) v' bm64_nodes_lt by blast
      then have rest: "bm64_nodes (bm64_reset v (of_nat n)) = H - {n}"
        using v' by (simp add: bm64_nodes_reset MAX_NODES_def unat_of_nat)
      have c: "cl_copies (took_page n cur w1) m \<noteq> None" "cl_inbox (took_page n cur w1) m = None" if "m \<in> H - {n}" for m
        using copy [of m] that inbox by (auto simp: took_page_def)
      have "invalidateSharedConflicts (cl_net client) p (bm64_reset v (of_nat n)) (pVersion f) (took_page n cur w1) = Inr (0, drop_copies (H - {n}) (took_page n cur w1))"
        using invalidate_ok [of "bm64_reset v (of_nat n)" "took_page n cur w1" client p "pVersion f"] c rest by simp
      moreover have "drop_copies (H - {n}) (took_page n cur w1) = ?w"
        by (rule cluster.equality) (use none sh copies in \<open>auto simp: took_page_def drop_copies_def\<close>)
      ultimately show ?thesis using sh v n(2) v' by (simp add: resolve_conflict_def bm64_any_nodes)
    next
      case ev
      then have v': "bm64_nodes v = H" and shared: "possession ?D = SHARED_P"
        using v own by (auto simp: dir_frame_def intro: POSSESSION.exhaust)
      have "pVersion f' = pVersion ?D"
        using gr ev shared by (auto simp: granted_possession_def dir_request_def dir_of_def)
      then have "copyPageRnd (cl_net client) (fst (hd tries)) p v (page_offset f) (pVersion f) w1 = Inr (Some WithPage, w1\<lparr>cl_buf := Some cur\<rparr>)"
        using copyPageRnd_ok [OF rnd(3), of v w1 cur "pVersion f" client p "page_offset f"] copy inbox v' shared ver v(2) by metis
      moreover have "?w = w1\<lparr>cl_buf := Some cur\<rparr>"
        by (rule cluster.equality) (use ev copies in auto)
      moreover obtain r0 b ts where "tries = (r0, b) # ts" using rnd(2) by (cases tries) auto
      ultimately show ?thesis using ev v(1,2) v' by (simp add: resolve_conflict_def bm64_any_nodes)
    qed
  qed
qed

section \<open>fix keeps the copies coherent\<close>

lemma take_possession_ok:
  assumes "unat node < MAX_NODES"
  shows "\<exists>f'. take_possession ft node f = Inr f' \<and> possession f' = wanted ft \<and> state f' = HOT \<and> isPossessor node f' \<and> pVersion f' = pVersion f
    \<and> bflatch f' = bflatch f \<and> pageP f' = pageP f \<and> pid f' = pid f
    \<and> holders f' = (if ft = EXCLUSIVE then {node} else {n. unat n < MAX_NODES \<and> (n = node \<or> unat n \<in> bm64_nodes (possessors f))})"
proof (cases "ft = EXCLUSIVE")
  case True
  with assms show ?thesis
    by (auto simp: take_possession_def wanted_def setPossessor_def isPossessor_def holders_exclusive)
next
  case False
  with assms show ?thesis
    by (auto simp: take_possession_def wanted_def setPossessor_def isPossessor_shared holders_shared bm64_nodes_set word_unat_eq_iff [symmetric])
qed

lemma of_nat_unat_id [simp]: "of_nat (unat (n :: u64)) = n"
  by simp

lemma serve_possession_ok:
  assumes "grant (wanted ft) (cl_owner w) client (cl_dir w) = Inr (r, hot, f')" and "cl_inbox w = (\<lambda>_. None)"
    and "w1 = w\<lparr>cl_dir := give_up f', cl_buf := (if hot then Some (cl_data w) else cl_buf w)\<rparr>"
  shows "collectResponseMsgASync (cl_net client) (unat (cl_owner w)) (writeMsgASync (cl_net client) (unat (cl_owner w))
    (PossessionReq \<lparr>pr_type = (if ft = EXCLUSIVE then PRX else PRS), pr_pid = p, pr_pageOffset = off\<rparr>) w) = (PossessionResp r, w1)"
proof -
  have "(\<lambda>_. None)(n := None) = (\<lambda>_. None :: Message option)" for n :: nat by auto
  then show ?thesis
    using assms by (cases w) (auto simp: collectResponseMsgASync_def writeMsgASync_def cl_net_def cl_send_def serve_possession_def cl_collect_def post_def wanted_def)
qed

lemma dir_after_request:
  assumes "granted_possession node desired client f r f'" and "desired = EXCLUSIVE_P \<or> desired = SHARED_P" and "dir_frame node f"
  shows "possession f' = desired" and "pVersion f' = pVersion (give_up f')"
    and "holders f' = (if desired = EXCLUSIVE_P then {client} else if possession f = EXCLUSIVE_P then insert client (holders f \<inter> {node}) else insert client (holders f))"
    and "desired = SHARED_P \<Longrightarrow> possession f = SHARED_P \<Longrightarrow> pVersion f' = pVersion f"
proof -
  have e: "dir_of f' = dir_request node desired client (dir_of f)" using assms(1) by (simp add: granted_possession_def)
  have d: "possession f' = d_mode (dir_request node desired client (dir_of f))" "holders f' = d_holders (dir_request node desired client (dir_of f))"
    "pVersion f' = d_version (dir_request node desired client (dir_of f))"
    unfolding e [symmetric] by (simp_all only: dir_of_sel)
  have "possession f = EXCLUSIVE_P \<or> possession f = SHARED_P" using assms(3) by (auto simp: dir_frame_def intro: POSSESSION.exhaust)
  with d assms(2) show "possession f' = desired"
    "holders f' = (if desired = EXCLUSIVE_P then {client} else if possession f = EXCLUSIVE_P then insert client (holders f \<inter> {node}) else insert client (holders f))"
    "desired = SHARED_P \<Longrightarrow> possession f = SHARED_P \<Longrightarrow> pVersion f' = pVersion f"
    by (auto simp: dir_request_def)
  show "pVersion f' = pVersion (give_up f')" by (simp add: give_up_def)
qed

lemma give_up_sel [simp]: "possession (give_up f) = possession f" "pVersion (give_up f) = pVersion f" "holders (give_up f) = holders f" "state (give_up f) = state f"
  by (simp_all add: give_up_def holders_def)

lemma copy_ok_give_up: "copy_ok (give_up f) cur n g d = copy_ok f cur n g d"
  by (simp add: copy_ok_def)

lemma fix_remote_ok:
  assumes coh: "coherent cur w" and own: "getOwner p = cl_owner w" and cl: "client \<noteq> cl_owner w" "unat client < MAX_NODES"
    and f: "state f = IO_RDMA" "isLatched (bflatch f)" and "1 < nodes"
    and rnd: "picks rnd" "tries \<noteq> []" "picks (fst (hd tries))" and new: "cl_copies w (unat client) = None"
  shows "\<exists>f' w'. fix_remote (cl_net client) rnd tries nodes ft client p f w = Some (Inr (Acquired f' w'))
    \<and> possession f' = wanted ft \<and> isPossessor client f' \<and> cl_buf w' = Some cur \<and> cl_owner w' = cl_owner w
    \<and> coherent cur (w'\<lparr>cl_copies := (cl_copies w')(unat client := Some (f', cur))\<rparr>)"
proof -
  let ?D = "cl_dir w" let ?m = "wanted ft"
  have ow: "owner_frame (cl_owner w) ?D" "cl_inbox w = (\<lambda>_. None)" "state ?D = HOT \<Longrightarrow> cl_data w = cur" using coh by (simp_all add: coherent_def)
  then have fr: "dir_frame (cl_owner w) ?D" "unat (cl_owner w) < MAX_NODES" by (simp_all add: owner_frame_def)
  have m: "?m = SHARED_P \<or> ?m = EXCLUSIVE_P" "?m = EXCLUSIVE_P \<or> ?m = SHARED_P" by (auto simp: wanted_def)
  obtain r g where g: "grant ?m (cl_owner w) client ?D = Inr (r, state ?D = HOT, g)" "granted_possession (cl_owner w) ?m client ?D r g"
    using grant_ok [OF fr(1) cl fr(2) m(1)] by blast
  define w1 where "w1 = w\<lparr>cl_dir := give_up g, cl_buf := (if state ?D = HOT then Some (cl_data w) else cl_buf w)\<rparr>"
  have v: "prr_pVersion r = Some (pVersion g)" using g(2) by (simp add: granted_possession_def)
  let ?f = "f\<lparr>pVersion := pVersion g\<rparr>"
  define w2 where "w2 = w1\<lparr>cl_buf := Some cur, cl_copies := (if ?m = EXCLUSIVE_P \<or> possession ?D = EXCLUSIVE_P then (\<lambda>_. None) else cl_copies w)\<rparr>"
  have res: "resolve_conflict (cl_net client) rnd tries p r ?f w1 = Some (Inr (Acquired ?f w2))"
    unfolding w2_def by (rule resolve_ok [OF coh g(2) rnd]) (simp_all add: w1_def)
  obtain f' where f': "take_possession ft client ?f = Inr f'" "possession f' = ?m" "state f' = HOT" "isPossessor client f'" "pVersion f' = pVersion g"
    using take_possession_ok [OF cl(2), of ft ?f] by auto
  have eval: "fix_remote (cl_net client) rnd tries nodes ft client p f w = Some (Inr (Acquired f' w2))"
    using serve_possession_ok [OF g(1) ow(2) w1_def] own f \<open>1 < nodes\<close> v res f'(1) by (simp add: fix_remote_def Let_def)
  note d = dir_after_request [OF g(2) m(2) fr(1)] and go = granted_owner [OF ow(1) g(2) cl(1)]
  let ?w = "w2\<lparr>cl_copies := (cl_copies w2)(unat client := Some (f', cur))\<rparr>"
  have dom: "cl_copies ?w n \<noteq> None \<longleftrightarrow> n \<in> unat ` (holders g - {cl_owner w})" for n
  proof (cases "?m = EXCLUSIVE_P \<or> possession ?D = EXCLUSIVE_P")
    case True
    then have "holders g - {cl_owner w} = {client}" using d(3) cl(1) by auto
    with True show ?thesis by (auto simp: w2_def)
  next
    case False
    then have "holders g - {cl_owner w} = insert client (holders ?D - {cl_owner w})" using d(3) cl(1) m by auto
    moreover have "cl_copies w n \<noteq> None \<longleftrightarrow> n \<in> unat ` (holders ?D - {cl_owner w})" using coh unfolding coherent_def by blast
    ultimately show ?thesis using False by (auto simp: w2_def)
  qed
  have ok: "copy_ok g cur n h x" if "cl_copies ?w n = Some (h, x)" for n h x
  proof (cases "n = unat client")
    case True
    with that f' d(1) show ?thesis by (auto simp: copy_ok_def)
  next
    case False
    with that have c: "?m = SHARED_P" "possession ?D \<noteq> EXCLUSIVE_P" "cl_copies w n = Some (h, x)" using m by (auto simp: w2_def split: if_splits)
    then have "possession ?D = SHARED_P" using fr(1) by (auto simp: dir_frame_def intro: POSSESSION.exhaust)
    moreover have "copy_ok ?D cur n h x" using coh c(3) unfolding coherent_def by blast
    ultimately show ?thesis using d(1,4) c(1) by (simp add: copy_ok_def)
  qed
  have hot: "state g = HOT \<Longrightarrow> cl_data w = cur"
    using state_HOT_iff [OF fr(1)] go(1) d(3) cl(1) ow(3) by (auto simp: owner_frame_def dir_frame_def split: if_splits)
  have sel: "cl_owner ?w = cl_owner w" "cl_dir ?w = give_up g" "cl_inbox ?w = (\<lambda>_. None)" "cl_data ?w = cl_data w"
    using ow(2) by (simp_all add: w2_def w1_def)
  have "coherent cur ?w"
    unfolding coherent_def sel give_up_sel copy_ok_give_up using go(1) hot dom ok by blast
  with eval f' show ?thesis by (intro exI [of _ f'] exI [of _ w2]) (simp add: w2_def w1_def)
qed

lemma coherent_shared_nodes:
  assumes "coherent cur w" and "possession (cl_dir w) = SHARED_P"
  shows "unat ` (holders (cl_dir w) - {cl_owner w}) = bm64_nodes (possessors (cl_dir w)) - {unat (cl_owner w)}"
  using unat_holders_shared [OF assms(2)] by (auto simp: word_unat_eq_iff)

text \<open>The owner's new frame is the only possessor of the page.\<close>

lemma coherent_alone:
  assumes "coherent cur w" and "owner_frame (cl_owner w) f" and "holders f = {cl_owner w}"
  shows "coherent cur (w\<lparr>cl_dir := f, cl_data := cur, cl_copies := (\<lambda>_. None), cl_buf := b\<rparr>)"
  using assms by (simp add: coherent_def)

lemma page_offset_upd [simp]: "page_offset (f\<lparr>pVersion := v\<rparr>) = page_offset f" "page_offset (f\<lparr>possessors := q\<rparr>) = page_offset f"
  by (simp_all add: page_offset_def)

lemma fix_local_ok:
  assumes coh: "coherent cur w" and own: "getOwner p = cl_owner w"
    and f: "f = (cl_dir w)\<lparr>pageP := Some a\<rparr>" and need: "ft = EXCLUSIVE \<and> holders (cl_dir w) \<noteq> {cl_owner w} \<or> ft = EXCLUSIVE \<and> possession (cl_dir w) = SHARED_P \<or> cl_owner w \<notin> holders (cl_dir w)"
    and rnd: "picks rnd"
  shows "\<exists>f' w'. fix_local (cl_net (cl_owner w)) rnd ft (cl_owner w) p f w = Inr (Acquired f' w') \<and> possession f' = wanted ft \<and> isPossessor (cl_owner w) f'
    \<and> (state (cl_dir w) \<noteq> HOT \<longrightarrow> cl_buf w' = Some cur) \<and> cl_owner w' = cl_owner w \<and> coherent cur (w'\<lparr>cl_dir := f', cl_data := cur\<rparr>)"
proof -
  let ?D = "cl_dir w" let ?o = "cl_owner w"
  define H where "H = unat ` (holders ?D - {?o})"
  have ow: "owner_frame ?o ?D" "cl_inbox w = (\<lambda>_. None)" "state ?D = HOT \<Longrightarrow> cl_data w = cur" using coh by (simp_all add: coherent_def)
  then have fr: "dir_frame ?o ?D" "unat ?o < MAX_NODES" by (simp_all add: owner_frame_def)
  have inbox: "cl_inbox w n = None" for n using ow(2) by simp
  have none: "cl_copies w n = None" if "n \<notin> H" for n using coherent_none [OF coh] that by (simp add: H_def)
  have copy: "\<exists>g. cl_copies w n = Some (g, cur) \<and> possession g = possession ?D \<and> pVersion g = pVersion ?D" if "n \<in> H" for n
    using coherent_copy [OF coh that [unfolded H_def]] .
  have sel: "possession f = possession ?D" "possessors f = possessors ?D" "pVersion f = pVersion ?D" "state f = state ?D" "pageP f = Some a"
    using f by simp_all
  have fin: "\<exists>f'. take_possession ft ?o g = Inr f' \<and> possession f' = wanted ft \<and> isPossessor ?o f'
      \<and> coherent cur (w\<lparr>cl_dir := f', cl_data := cur, cl_copies := (\<lambda>_. None), cl_buf := b\<rparr>)"
    if g: "possessors g = 0" "pageP g = Some a" for g b
  proof -
    obtain f' where f': "take_possession ft ?o g = Inr f'" "possession f' = wanted ft" "state f' = HOT" "isPossessor ?o f'" "pageP f' = pageP g"
      "holders f' = {?o}"
      using take_possession_ok [OF fr(2), of ft g] g fr(2) by (auto simp: Collect_conv_if split: if_splits)
    then have "owner_frame ?o f'"
      using g fr(2) by (auto simp: owner_frame_def dir_frame_def wanted_def isPossessor_def split: if_splits)
    with f' coherent_alone [OF coh] show ?thesis by blast
  qed
  consider (ex) "possession ?D = EXCLUSIVE_P" "?o \<notin> holders ?D" | (up) "possession ?D = SHARED_P" "ft = EXCLUSIVE"
    | (cp) "possession ?D = SHARED_P" "ft \<noteq> EXCLUSIVE" "?o \<notin> holders ?D"
    using need fr(1) by (cases "possession ?D") (auto simp: dir_frame_def holders_exclusive split: if_splits)
  then show ?thesis
  proof cases
    case ex
    then have h: "H = {unat (possessors ?D)}" "state ?D \<noteq> HOT"
      using fr(1) by (auto simp: H_def dir_frame_def holders_exclusive)
    then obtain g where "cl_copies w (unat (possessors ?D)) = Some (g, cur)" using copy by blast
    from move_ok [OF this inbox]
    have mv: "expect_move WithPage (writeMsgSync (cl_net ?o) (unat (possessors ?D)) (move_request p True (page_offset f) (pVersion ?D + 1)) w)
        = Inr (took_page (unat (possessors ?D)) cur w)" .
    have w': "took_page (unat (possessors ?D)) cur w = w\<lparr>cl_copies := (\<lambda>_. None), cl_buf := Some cur\<rparr>"
      by (rule cluster.equality) (use none h in \<open>auto simp: took_page_def\<close>)
    obtain f' where f': "take_possession ft ?o (f\<lparr>pVersion := pVersion f + 1, possessors := 0\<rparr>) = Inr f'" "possession f' = wanted ft" "isPossessor ?o f'"
      "coherent cur (w\<lparr>cl_dir := f', cl_data := cur, cl_copies := (\<lambda>_. None), cl_buf := Some cur\<rparr>)"
      using fin [of "f\<lparr>pVersion := pVersion f + 1, possessors := 0\<rparr>" "Some cur"] sel(5) by auto
    have "fix_local (cl_net ?o) rnd ft ?o p f w = Inr (Acquired f' (w\<lparr>cl_copies := (\<lambda>_. None), cl_buf := Some cur\<rparr>))"
      using mv w' f'(1,3) ex(1) sel by (simp add: fix_local_def Let_def page_offset_def)
    with f' h show ?thesis
      by (intro exI [of _ f'] exI [of _ "w\<lparr>cl_copies := (\<lambda>_. None), cl_buf := Some cur\<rparr>"]) (cases w; simp)
  next
    case up
    let ?sh = "bm64_reset (possessors ?D) ?o"
    have nodes: "bm64_nodes ?sh = H"
      using coherent_shared_nodes [OF coh up(1)] fr(2) by (simp add: H_def bm64_nodes_reset)
    let ?b = "if state ?D = HOT then cl_buf w else Some cur"
    have "\<exists>sh w1. (if state ?D = EVICTED then movePageRnd (cl_net ?o) rnd p ?sh (page_offset f) (pVersion ?D + 1) w else Inr (?sh, w)) = Inr (sh, w1)
        \<and> invalidateSharedConflicts (cl_net ?o) p sh (pVersion ?D + 1) w1 = Inr (0, w\<lparr>cl_copies := (\<lambda>_. None), cl_buf := ?b\<rparr>)"
    proof (cases "state ?D = EVICTED")
      case False
      then have "state ?D = HOT" using fr(1) by (auto simp: dir_frame_def)
      moreover have "drop_copies H w = w\<lparr>cl_copies := (\<lambda>_. None)\<rparr>"
        by (rule cluster.equality) (use none in \<open>auto simp: drop_copies_def\<close>)
      ultimately show ?thesis
        using False invalidate_ok [of ?sh w ?o p] copy inbox nodes by (cases w) force
    next
      case True
      then have "H \<noteq> {}" using fr(1) by (auto simp: dir_frame_def H_def)
      then obtain n where n: "n \<in> H" "movePageRnd (cl_net ?o) rnd p ?sh (page_offset f) (pVersion ?D + 1) w = Inr (bm64_reset ?sh (of_nat n), took_page n cur w)"
        using movePageRnd_ok [OF rnd, of ?sh w cur ?o p "page_offset f" "pVersion ?D + 1"] copy inbox nodes by blast
      have "n < 64" using n(1) nodes bm64_nodes_lt by blast
      then have rest: "bm64_nodes (bm64_reset ?sh (of_nat n)) = H - {n}"
        using nodes bm64_nodes_reset [of "of_nat n" ?sh] by (simp add: MAX_NODES_def unat_of_nat)
      have c: "cl_copies (took_page n cur w) m \<noteq> None" "cl_inbox (took_page n cur w) m = None" if "m \<in> H - {n}" for m
        using copy [of m] that inbox by (auto simp: took_page_def)
      have "drop_copies (H - {n}) (took_page n cur w) = w\<lparr>cl_copies := (\<lambda>_. None), cl_buf := ?b\<rparr>"
        by (rule cluster.equality) (use none True in \<open>auto simp: took_page_def drop_copies_def\<close>)
      then show ?thesis
        using True n(2) invalidate_ok [of "bm64_reset ?sh (of_nat n)" "took_page n cur w" ?o p "pVersion ?D + 1"] c rest by simp
    qed
    then obtain sh w1 where sh: "(if state ?D = EVICTED then movePageRnd (cl_net ?o) rnd p ?sh (page_offset f) (pVersion ?D + 1) w else Inr (?sh, w)) = Inr (sh, w1)"
      "invalidateSharedConflicts (cl_net ?o) p sh (pVersion ?D + 1) w1 = Inr (0, w\<lparr>cl_copies := (\<lambda>_. None), cl_buf := ?b\<rparr>)" by blast
    obtain f' where f': "take_possession ft ?o (f\<lparr>pVersion := pVersion f + 1, possessors := 0\<rparr>) = Inr f'" "possession f' = wanted ft" "isPossessor ?o f'"
      "coherent cur (w\<lparr>cl_dir := f', cl_data := cur, cl_copies := (\<lambda>_. None), cl_buf := ?b\<rparr>)"
      using fin [of "f\<lparr>pVersion := pVersion f + 1, possessors := 0\<rparr>" ?b] sel(5) by auto
    have "fix_local (cl_net ?o) rnd ft ?o p f w = Inr (Acquired f' (w\<lparr>cl_copies := (\<lambda>_. None), cl_buf := ?b\<rparr>))"
      using sh f'(1,3) up sel by (simp add: fix_local_def Let_def cong: if_cong split del: if_split)
    with f' show ?thesis
      by (intro exI [of _ f'] exI [of _ "w\<lparr>cl_copies := (\<lambda>_. None), cl_buf := ?b\<rparr>"]) (cases w; simp)
  next
    case cp
    then have ev: "state ?D = EVICTED" "state ?D \<noteq> HOT" using fr(1) by (auto simp: dir_frame_def)
    have nodes: "bm64_nodes (possessors ?D) = H"
      using coherent_shared_nodes [OF coh cp(1)] cp(3) fr(2) by (auto simp: H_def holders_shared [OF cp(1)])
    have ne: "H \<noteq> {}" using fr(1) cp(3) by (auto simp: dir_frame_def H_def)
    have c: "copyPageRnd (cl_net ?o) rnd p (possessors ?D) (page_offset f) (pVersion ?D) w = Inr (Some WithPage, w\<lparr>cl_buf := Some cur\<rparr>)"
      using copyPageRnd_ok [OF rnd, of "possessors ?D" w cur "pVersion ?D" ?o p "page_offset f"] copy inbox nodes cp(1) ne by metis
    obtain f' where f': "take_possession ft ?o f = Inr f'" "possession f' = wanted ft" "state f' = HOT" "isPossessor ?o f'" "pageP f' = Some a"
      "pVersion f' = pVersion ?D" "holders f' = insert ?o (holders ?D)"
      using take_possession_ok [OF fr(2), of ft f] sel fr(2) cp by (auto simp: holders_shared [OF cp(1)])
    have "owner_frame ?o f'"
      using f' fr cp by (auto simp: owner_frame_def dir_frame_def wanted_def)
    moreover have "possession f' = possession ?D" "holders f' - {?o} = holders ?D - {?o}" using f' cp by (auto simp: wanted_def)
    ultimately have "coherent cur (w\<lparr>cl_dir := f', cl_data := cur, cl_buf := Some cur\<rparr>)"
      using coh f'(6) by (simp add: coherent_def copy_ok_def)
    moreover have "fix_local (cl_net ?o) rnd ft ?o p f w = Inr (Acquired f' (w\<lparr>cl_buf := Some cur\<rparr>))"
      using c f'(1,4) cp ev sel nodes ne by (simp add: fix_local_def Let_def page_offset_def bm64_any_nodes)
    ultimately show ?thesis using f'
      by (intro exI [of _ f'] exI [of _ "w\<lparr>cl_buf := Some cur\<rparr>"]) (cases w; simp)
  qed
qed

lemma serve_update_ok:
  assumes "update_frame (cl_owner w) client (cl_dir w) = Inr (r, pk, g)" and "cl_inbox w = (\<lambda>_. None)" and "bm64_test (possessors (cl_dir w)) client"
  shows "writeMsgSync (cl_net client) (unat (cl_owner w)) (PossessionUpdateReq \<lparr>pu_pid = p, pu_pVersion = pVersion (cl_dir w)\<rparr>) w
    = (PossessionUpdateResp r, w\<lparr>cl_dir := g\<rparr>)"
proof -
  have "(\<lambda>_. None)(n := None) = (\<lambda>_. None :: Message option)" for n :: nat by auto
  then show ?thesis
    using assms by (cases w) (auto simp: writeMsgSync_def cl_net_def cl_send_def serve_update_def cl_collect_def post_def)
qed

lemma updated_dir:
  assumes "updated node client f r pk g"
  shows "possession g = EXCLUSIVE_P" and "holders g = {client}" and "pVersion g = pVersion f + 1"
    and "\<exists>v. pur_conflictingNodeId r = Some v \<and> bm64_nodes v = unat ` (holders f - {node}) \<or> holders f - {node} = {}"
proof -
  have e: "dir_of g = dir_request node EXCLUSIVE_P client (dir_of f)" using assms by (simp add: updated_def)
  have d: "possession g = d_mode (dir_request node EXCLUSIVE_P client (dir_of f))" "holders g = d_holders (dir_request node EXCLUSIVE_P client (dir_of f))"
    "pVersion g = d_version (dir_request node EXCLUSIVE_P client (dir_of f))"
    unfolding e [symmetric] by (simp_all only: dir_of_sel)
  then show "possession g = EXCLUSIVE_P" "holders g = {client}" "pVersion g = pVersion f + 1" by (simp_all add: dir_request_def)
  have "named_nodes UpdateSucceedWithSharedConflict (pur_conflictingNodeId r) = unat ` (holders f - {node})"
    using assms unfolding updated_def by metis
  then show "\<exists>v. pur_conflictingNodeId r = Some v \<and> bm64_nodes v = unat ` (holders f - {node}) \<or> holders f - {node} = {}"
    by (cases "pur_conflictingNodeId r") (auto simp: named_nodes_def)
qed

lemma fix_update_ok:
  assumes coh: "coherent cur w" and own: "getOwner p = cl_owner w" and cl: "client \<noteq> cl_owner w" "unat client < MAX_NODES"
    and f: "cl_copies w (unat client) = Some (f, d)" "possession f = SHARED_P" "isLatched (bflatch f)" and "1 < nodes"
  shows "\<exists>f' w'. fix_update (cl_net client) nodes client p f w = Inr (Acquired f' w') \<and> possession f' = EXCLUSIVE_P \<and> isPossessor client f'
    \<and> d = cur \<and> cl_owner w' = cl_owner w \<and> coherent cur (w'\<lparr>cl_copies := (cl_copies w')(unat client := Some (f', d))\<rparr>)"
proof -
  let ?D = "cl_dir w" let ?o = "cl_owner w"
  define H where "H = unat ` (holders ?D - {?o})"
  have ow: "owner_frame ?o ?D" "cl_inbox w = (\<lambda>_. None)" using coh by (simp_all add: coherent_def)
  then have fr: "dir_frame ?o ?D" "unat ?o < MAX_NODES" "state ?D = HOT \<Longrightarrow> pageP ?D \<noteq> None" by (simp_all add: owner_frame_def)
  have dom: "cl_copies w n \<noteq> None \<longleftrightarrow> n \<in> H" for n using coh unfolding coherent_def H_def by blast
  have ok: "copy_ok ?D cur (unat client) f d" using coh f(1) unfolding coherent_def by blast
  then have c: "d = cur" "possession ?D = SHARED_P" "pVersion f = pVersion ?D" "state f = HOT" using f(2) by (auto simp: copy_ok_def)
  have mem: "unat client \<in> H" using dom [of "unat client"] f(1) by simp
  then have hol: "client \<in> holders ?D" by (auto simp: H_def word_unat_eq_iff [symmetric])
  obtain r pk g where g: "update_frame ?o client ?D = Inr (r, pk, g)" "updated ?o client ?D r pk g"
    using update_frame_ok [OF fr(1) c(2) hol cl(1) fr(2,3)] by blast
  obtain v where v: "pur_conflictingNodeId r = Some v" "bm64_nodes v = H" using updated_dir(4) [OF g(2)] mem by (auto simp: H_def)
  have r: "pur_resultType r = UpdateSucceedWithSharedConflict" "pur_pVersion r = Some (pVersion ?D + 1)"
    using g(2) updated_dir(3) [OF g(2)] by (simp_all add: updated_def)
  define w1 where "w1 = w\<lparr>cl_dir := g\<rparr>"
  have rest: "bm64_nodes (bm64_reset v client) = H - {unat client}" using v(2) cl(2) by (simp add: bm64_nodes_reset)
  have inv: "invalidateSharedConflicts (cl_net client) p (bm64_reset v client) (pVersion ?D + 1) w1 = Inr (0, drop_copies (H - {unat client}) w1)"
    using invalidate_ok [of "bm64_reset v client" w1 client p "pVersion ?D + 1"] rest dom ow(2) by (simp add: w1_def)
  let ?f = "f\<lparr>pVersion := pVersion ?D + 1, possession := EXCLUSIVE_P, possessors := client, state := HOT\<rparr>"
  have eval: "fix_update (cl_net client) nodes client p f w = Inr (Acquired ?f (drop_copies (H - {unat client}) w1))"
    using serve_update_ok [OF g(1) ow(2) holders_test [OF c(2) hol], of p] own f(2,3) c(3,4) \<open>1 < nodes\<close> r v inv
    by (simp add: fix_update_def Let_def w1_def setPossessor_def)
  let ?w = "(drop_copies (H - {unat client}) w1)\<lparr>cl_copies := (cl_copies (drop_copies (H - {unat client}) w1))(unat client := Some (?f, d))\<rparr>"
  have none: "cl_copies w n = None" if "n \<notin> H" for n using dom that by blast
  have cp: "cl_copies ?w = (\<lambda>n. if n = unat client then Some (?f, d) else None)" using none by (auto simp: drop_copies_def w1_def fun_eq_iff)
  have sel: "cl_owner ?w = ?o" "cl_dir ?w = g" "cl_inbox ?w = (\<lambda>_. None)" using ow(2) by (simp_all add: drop_copies_def w1_def)
  note go = updated_owner(1) [OF ow(1) g(2) cl(1)] and gd = updated_dir [OF g(2)]
  have "state g \<noteq> HOT" using go gd(2) cl(1) by (auto simp: owner_frame_def dir_frame_def)
  moreover have "unat ` (holders g - {?o}) = {unat client}" using gd(2) cl(1) by auto
  ultimately have "coherent cur ?w"
    unfolding coherent_def sel cp using go gd(1,3) c(1) by (auto simp: copy_ok_def isPossessor_def)
  with eval c(1) show ?thesis by (intro exI [of _ ?f] exI [of _ "drop_copies (H - {unat client}) w1"]) (simp add: isPossessor_def drop_copies_def w1_def)
qed

end
