(* ===== verification/PageProvider.thy ===== *)
theory PageProvider
  imports Fix
begin

text \<open>
  The page provider (storage/buffermanager/PageProvider.hpp, PageProvider.cpp): a thread per partition of the page table
  that keeps the free list of pages filled.  A round serves the eviction requests of other nodes (phase 1), selects and
  evicts pages of its partition (phase 3), sends the eviction requests it collected for pages of other nodes (phase 4),
  drops the pages the owners agreed to take (phase 5) and answers the requests it served (phase 6).

  Other threads and the devices are arguments: what happens to the buffer manager before a frame is latched, the
  random numbers, the completions the kernel and the network report.
\<close>

section \<open>Eviction messages\<close>

definition batchSize :: nat where
  "batchSize = 32"

definition pp_batch_size :: nat where
  "pp_batch_size = 128"

definition required_samples :: nat where
  "required_samples = 600"

definition minOutgoingElements :: nat where
  "minOutgoingElements = 16"

definition maxOutstandingWrites :: u64 where
  "maxOutstandingWrites = 32"

record EvictionEntry =
  ee_pid :: PID
  ee_offset :: addr
  ee_pVersion :: u64

record EvictionRequest =
  er_bmId :: u64
  er_pId :: u64
  failedSend :: u64
  er_elements :: nat
  entries :: "EvictionEntry list"

record EvictionResponse =
  es_pids :: "PID list"
  es_elements :: nat
  es_bmId :: u64
  es_pId :: u64

definition er_reset :: "EvictionRequest \<Rightarrow> EvictionRequest" where
  "er_reset r = r\<lparr>er_elements := 0, failedSend := 0\<rparr>"

definition er_empty :: "EvictionRequest \<Rightarrow> bool" where
  "er_empty r \<longleftrightarrow> er_elements r = 0"

definition er_full :: "EvictionRequest \<Rightarrow> bool" where
  "er_full r \<longleftrightarrow> er_elements r = batchSize"

definition er_add :: "EvictionEntry \<Rightarrow> EvictionRequest \<Rightarrow> EvictionRequest result" where
  "er_add e r = ensure (er_elements r < batchSize) (
     bind_r (array_set (entries r) (er_elements r) e) (\<lambda>es. Inr (r\<lparr>entries := es, er_elements := er_elements r + 1\<rparr>)))"

definition es_reset :: "EvictionResponse \<Rightarrow> EvictionResponse" where
  "es_reset r = r\<lparr>es_elements := 0\<rparr>"

definition es_empty :: "EvictionResponse \<Rightarrow> bool" where
  "es_empty r \<longleftrightarrow> es_elements r = 0"

definition es_full :: "EvictionResponse \<Rightarrow> bool" where
  "es_full r \<longleftrightarrow> es_elements r = batchSize"

definition es_add :: "PID \<Rightarrow> EvictionResponse \<Rightarrow> EvictionResponse result" where
  "es_add p r = ensure (es_elements r < batchSize) (
     bind_r (array_set (es_pids r) (es_elements r) p) (\<lambda>ps. Inr (r\<lparr>es_pids := ps, es_elements := es_elements r + 1\<rparr>)))"

section \<open>State\<close>

text \<open>\<open>MsgSlots\<close>: two message buffers, one being filled, the other being sent.\<close>

record 'a MsgSlots =
  current :: 'a
  prev :: 'a

definition swap_slots :: "'a MsgSlots \<Rightarrow> 'a MsgSlots" where
  "swap_slots s = \<lparr>current = prev s, prev = current s\<rparr>"

text \<open>The connection to the page provider of another node; \<open>reads\<close> are the elements of its \<open>RdmaReadBuffer\<close> (local
  page, remote address).\<close>

record pp_ctx =
  responseExpected :: bool
  readScheduled :: bool
  responseOutstanding :: bool
  readCompleted :: bool
  pollCompleted :: bool
  outgoingResp :: "EvictionResponse MsgSlots"
  outgoing :: "EvictionRequest MsgSlots"
  latchedFrames :: "fref list"
  inflightFrames :: "fref list MsgSlots"
  pp_wqe :: u64
  reads :: "(addr option \<times> addr) list"

text \<open>What is posted to the network: reads of remote pages, a request or a response to a node.\<close>

datatype pp_op = PostReads nat "(addr option \<times> addr) list" | PostRequest nat EvictionRequest bool | PostResponse nat EvictionResponse bool

record provider =
  pbm :: bufmgr
  privatePageBuffer :: "addr option rbuf"
  async_writes :: "u64 async_buffer"
  pp_cctxs :: "pp_ctx list"
  req_mailboxes :: "u8 list"
  incoming :: "EvictionRequest list"
  respMailboxes :: "u8 list"
  respIncoming :: "EvictionResponse list"
  pp_posted :: "pp_op list"
  part_begin :: nat
  part_end :: nat
  totalEvictions :: nat
  evictedCounter :: nat
  tmpPages :: nat
  current_batch_offset :: nat
  sampling_needed :: bool
  eviction_window :: u64

text \<open>The flags; \<open>epoch_due\<close> and \<open>coolest\<close> are the two computations in floating point: whether the free pages plus a
  tenth of \<open>freeBFLimit\<close> are fewer than a number, and the product of a count with \<open>evictCoolestEpochs\<close>.\<close>

record pp_flags =
  pp_nodes :: nat
  evict_to_ssd :: bool
  prob_SSD :: u64
  freeBFLimit :: nat
  coolingBFLimit :: nat
  epoch_due :: "nat \<Rightarrow> nat \<Rightarrow> bool"
  coolest :: "nat \<Rightarrow> nat"

definition pbf :: "provider \<Rightarrow> fref \<Rightarrow> BufferFrame" where
  "pbf s i = bfs (pbm s) ! i"

definition upd_pbf :: "fref \<Rightarrow> (BufferFrame \<Rightarrow> BufferFrame) \<Rightarrow> provider \<Rightarrow> provider" where
  "upd_pbf i u s = s\<lparr>pbm := upd_frame i u (pbm s)\<rparr>"

definition upd_pctx :: "nat \<Rightarrow> (pp_ctx \<Rightarrow> pp_ctx) \<Rightarrow> provider \<Rightarrow> provider" where
  "upd_pctx c u s = s\<lparr>pp_cctxs := (pp_cctxs s)[c := u (pp_cctxs s ! c)]\<rparr>"

definition count_eviction :: "provider \<Rightarrow> provider" where
  "count_eviction s = s\<lparr>totalEvictions := totalEvictions s + 1, evictedCounter := evictedCounter s + 1\<rparr>"

text \<open>Sequencing of steps that may raise an error or, a result of \<open>None\<close>, may not return.\<close>

definition bind_ro :: "'a result option \<Rightarrow> ('a \<Rightarrow> 'b result option) \<Rightarrow> 'b result option" where
  "bind_ro r k = (case r of None \<Rightarrow> None | Some (Inl e) \<Rightarrow> Some (Inl e) | Some (Inr x) \<Rightarrow> k x)"

lemma bind_ro_simps [simp]:
  "bind_ro None k = None" "bind_ro (Some (Inl e)) k = Some (Inl e)" "bind_ro (Some (Inr x)) k = k x"
  by (simp_all add: bind_ro_def)

section \<open>Partitions of the page table\<close>

definition pp_partitions :: "nat \<Rightarrow> nat \<Rightarrow> (nat \<times> nat) list result" where
  "pp_partitions n threads =
     (if 0 < n then
        (if threads = 0 then Inl Undefined
         else let blockSize = n div threads
              in ensure (0 < blockSize) (
                 let ps = map (\<lambda>t. (t * blockSize, if t = threads - 1 then n else t * blockSize + blockSize)) [0..<threads]
                 in ensure (length ps = threads) (Inr ps)))
      else Inr [])"

section \<open>Traversal of the page table\<close>

text \<open>One level of \<open>batch_traverse_hashtable\<close>: the condition on every frame of the batch until it is false, and the
  successors in the chains, which are written over entries of the batch that were read before.\<close>

fun traverse_level :: "(fref \<Rightarrow> 's \<Rightarrow> bool \<times> 's) \<Rightarrow> (fref \<Rightarrow> 's \<Rightarrow> fref option) \<Rightarrow> fref option list \<Rightarrow> 's \<Rightarrow> fref option list \<times> 's" where
  "traverse_level condition nxt [] s = ([], s)"
| "traverse_level condition nxt (None # batch) s = traverse_level condition nxt batch s"
| "traverse_level condition nxt (Some i # batch) s =
     (let (continue, s) = condition i s
      in if \<not> continue then ([], s)
         else if nxt i s = None then traverse_level condition nxt batch s
         else let n = nxt i s; (ws, s) = traverse_level condition nxt batch s in (n # ws, s))"

fun traverse_levels ::
  "(fref \<Rightarrow> 's \<Rightarrow> bool \<times> 's) \<Rightarrow> (fref \<Rightarrow> 's \<Rightarrow> fref option) \<Rightarrow> ('s \<Rightarrow> 's result option) \<Rightarrow> nat \<Rightarrow> fref option list \<Rightarrow> 's \<Rightarrow> 's result option" where
  "traverse_levels condition nxt post 0 batch s = None"
| "traverse_levels condition nxt post (Suc n) batch s =
     (if batch = [] then Some (Inr s)
      else let (batch, s) = traverse_level condition nxt batch s
           in bind_ro (post s) (traverse_levels condition nxt post n batch))"

text \<open>\<open>fuel\<close> bounds the levels.\<close>

definition batch_traverse_hashtable ::
  "nat \<Rightarrow> (fref \<Rightarrow> 's \<Rightarrow> bool \<times> 's) \<Rightarrow> (fref \<Rightarrow> 's \<Rightarrow> fref option) \<Rightarrow> ('s \<Rightarrow> 's result option) \<Rightarrow> nat \<Rightarrow> nat \<Rightarrow> 's \<Rightarrow> 's result option" where
  "batch_traverse_hashtable fuel condition nxt post begin_bfs end_bfs s =
     (if end_bfs - begin_bfs \<le> pp_batch_size then traverse_levels condition nxt post fuel (map Some [begin_bfs..<end_bfs]) s
      else Some (Inl Ensure_failed))"

text \<open>The range of the next batch of buckets, and where the one after it begins.\<close>

definition next_batch :: "provider \<Rightarrow> (nat \<times> nat) \<times> provider" where
  "next_batch s =
     (let partition_size = part_end s - part_begin s;
          begin_offset = current_batch_offset s mod partition_size;
          end_offset = current_batch_offset s + pp_batch_size;
          end_offset = (if partition_size < end_offset then partition_size else end_offset)
      in ((begin_offset + part_begin s, end_offset + part_begin s), s\<lparr>current_batch_offset := end_offset mod partition_size\<rparr>))"

section \<open>Evicting pages of this node\<close>

text \<open>Which pages are selected when pages are not evicted to disk: pages of this node that are shared, pages of other
  nodes.\<close>

definition remote_condition :: "NodeID \<Rightarrow> BufferFrame \<Rightarrow> bool" where
  "remote_condition node f \<longleftrightarrow>
     (getOwner (pid f) = node \<and> state f = HOT \<and> possession f = SHARED_P \<and> \<not> isLatched (bflatch f)
        \<and> (isPossessor node f \<and> 1 < bm64_count (possessors f) \<or> \<not> isPossessor node f \<and> 1 \<le> bm64_count (possessors f)))
   \<or> (getOwner (pid f) \<noteq> node \<and> state f = HOT \<and> \<not> isLatched (bflatch f))"

text \<open>The page of an evicted frame goes to the private buffer of the thread or, when that is full, to the free list.\<close>

definition keep_page :: "addr option \<Rightarrow> provider \<Rightarrow> provider result" where
  "keep_page page s =
     (if \<not> rb_full (privatePageBuffer s) then bind_r (rb_add page (privatePageBuffer s)) (\<lambda>r. Inr (s\<lparr>privatePageBuffer := r\<rparr>))
      else (case page of None \<Rightarrow> Inl Undefined | Some a \<Rightarrow> Inr (s\<lparr>pbm := (pbm s)\<lparr>pageFree := a # pageFree (pbm s)\<rparr>\<rparr>)))"

definition drop_frame :: "(bufmgr \<Rightarrow> bufmgr) list \<Rightarrow> fref \<Rightarrow> provider \<Rightarrow> provider result option" where
  "drop_frame envs i s =
     (let room = (\<not> rb_full (privatePageBuffer s)); page = pageP (pbf s i)
      in bind_ro (removeFrame envs i (\<lambda>f m. if room then Inr m else push_page f m) (pbm s)) (\<lambda>(m, _).
         let s = s\<lparr>pbm := m\<rparr>
         in Some (bind_r (if room then keep_page page s else Inr s) (\<lambda>s. Inr (count_eviction s)))))"

definition unlatch_pbf :: "fref \<Rightarrow> provider \<Rightarrow> provider result" where
  "unlatch_pbf i s = bind_r (unlatchExclusive (bflatch (pbf s i))) (\<lambda>l. Inr (upd_pbf i (\<lambda>f. f\<lparr>bflatch := l\<rparr>) s))"

text \<open>What happens around one frame: what other threads do before it is looked at, to its latch while it is upgraded and
  while it is downgraded, around the attempts to remove the frame; the random number.\<close>

record evict_env =
  ev_before :: "bufmgr \<Rightarrow> bufmgr"
  ev_upgrade :: "HybridLatch \<Rightarrow> HybridLatch"
  ev_downgrade :: "HybridLatch \<Rightarrow> HybridLatch"
  ev_remove :: "(bufmgr \<Rightarrow> bufmgr) list"
  ev_rand :: u64

text \<open>The frame is latched.  A dirty page is added to the write buffer, which a shared latch protects from then on;
  \<open>False\<close> if the buffer is full.\<close>

definition write_dirty :: "evict_env \<Rightarrow> fref \<Rightarrow> u64 \<Rightarrow> provider \<Rightarrow> (bool \<times> provider) result" where
  "write_dirty e i ep s =
     (if async_full (async_writes s) then ensure (isLatched (bflatch (pbf s i))) (bind_r (unlatch_pbf i s) (\<lambda>s. Inr (False, s)))
      else bind_r (tryDowngradeExclusiveToShared (ev_downgrade e) (bflatch (pbf s i))) (\<lambda>(success, l).
           let s = upd_pbf i (\<lambda>f. f\<lparr>bflatch := l\<rparr>) s
           in if \<not> success then Inr (True, s)
              else ensure (\<not> isLatched (bflatch (pbf s i))) (
                   bind_r (async_add i (pid (pbf s i)) (pageP (pbf s i)) ep (async_writes s)) (\<lambda>a. Inr (True, s\<lparr>async_writes := a\<rparr>)))))"

text \<open>The page is shared with other nodes: the frame stays, as the directory of the page, without the page.\<close>

definition evict_shared :: "NodeID \<Rightarrow> fref \<Rightarrow> provider \<Rightarrow> provider result" where
  "evict_shared node i s =
     (let f = pbf s i
      in ensure (0 < bm64_count (possessors f)) (
         if isPossessor node f \<and> bm64_count (possessors f) = 1 then Inl (Runtime_error ''should not be reached remove'')
         else ensure (isLatched (bflatch f)) (
              bind_r (keep_page (pageP f) s) (\<lambda>s.
              let p = bm64_reset (possessors f) node
              in ensure (1 \<le> bm64_count p) (
                 Inr (count_eviction (upd_pbf i (\<lambda>f. f\<lparr>possessors := p, pageP := None, state := EVICTED\<rparr>) s)))))))"

definition evict_owner_page :: "pp_flags \<Rightarrow> evict_env \<Rightarrow> fref \<Rightarrow> u64 \<Rightarrow> provider \<Rightarrow> (bool \<times> provider) result option" where
  "evict_owner_page fl e i ep s =
     (let f = pbf s i; node = bmNode (pbm s)
      in if evict_to_ssd fl \<and> dirty f then Some (write_dirty e i ep s)
         else if evict_to_ssd fl \<and> state f = HOT \<and> possession f = EXCLUSIVE_P \<and> isPossessor node f then
           bind_ro (drop_frame (ev_remove e) i s) (\<lambda>s. Some (Inr (True, s)))
         else if state f = HOT \<and> possession f = SHARED_P \<and> isPossessor node f \<and> bm64_count (possessors f) = 1 then
           (if evict_to_ssd fl \<and> ev_rand e \<le> prob_SSD fl then bind_ro (drop_frame (ev_remove e) i s) (\<lambda>s. Some (Inr (True, s)))
            else Some (bind_r (unlatch_pbf i s) (\<lambda>s. Inr (True, s))))
         else Some (bind_r (if state f = HOT \<and> possession f = SHARED_P then evict_shared node i s else Inr s) (\<lambda>s.
                    ensure (isLatched (bflatch (pbf s i))) (bind_r (unlatch_pbf i s) (\<lambda>s. Inr (True, s))))))"

section \<open>Written pages\<close>

text \<open>A page was written: it is clean and, unless the frame was used in the meantime, evicted.\<close>

definition page_written :: "pp_flags \<Rightarrow> evict_env \<Rightarrow> fref \<Rightarrow> u64 \<Rightarrow> provider \<Rightarrow> provider result option" where
  "page_written fl e i epoch_added s =
     (if \<not> dirty (pbf s i) then Some (Inl Ensure_failed)
      else let s = upd_pbf i (\<lambda>f. f\<lparr>dirty := False\<rparr>) s; v = version (bflatch (pbf s i))
           in bind_ro (Some (unlatchShared (bflatch (pbf s i)))) (\<lambda>l.
              let s = upd_pbf i (\<lambda>f. f\<lparr>bflatch := l\<rparr>) s; s = s\<lparr>pbm := ev_before e (pbm s)\<rparr>; f = pbf s i
              in if epoch_added \<noteq> epoch f then Some (Inr s)
                 else if pid f = EMPTY_PID \<or> state f = FREE \<or> state f = EVICTED then Some (Inr s)
                 else bind_ro (Some (optimisticUpgradeToExclusive (ev_upgrade e) v (bflatch f))) (\<lambda>(success, l).
                      let s = upd_pbf i (\<lambda>f. f\<lparr>bflatch := l\<rparr>) s; f = pbf s i
                      in if \<not> success then Some (Inr s)
                         else if state f = FREE \<or> state f = EVICTED \<or> getOwner (pid f) \<noteq> bmNode (pbm s) then Some (Inl Ensure_failed)
                         else bind_ro (evict_owner_page fl e i epoch_added s) (\<lambda>(rc, s). Some (ensure rc (Inr s))))))"

fun written_pages :: "pp_flags \<Rightarrow> (nat \<Rightarrow> bool) \<Rightarrow> (nat \<Rightarrow> evict_env) \<Rightarrow> nat list \<Rightarrow> provider \<Rightarrow> provider result option" where
  "written_pages fl short e [] s = Some (Inr s)"
| "written_pages fl short e (slot # slots) s =
     bind_ro (Some (rb_add slot (free_slots (async_writes s)))) (\<lambda>r.
     let s = s\<lparr>async_writes := (async_writes s)\<lparr>free_slots := r\<rparr>\<rparr>
     in if short slot then Some (Inl Ensure_failed)
        else bind_ro (Some (array_get (commands (async_writes s)) slot)) (\<lambda>c.
             case c of
               None \<Rightarrow> Some (Inl Undefined)
             | Some (i, _, _, epoch_added) \<Rightarrow> bind_ro (page_written fl (e slot) i epoch_added s) (written_pages fl short e slots)))"

text \<open>The completions the kernel reports, which of them wrote less than a page, and what happens around each.\<close>

record poll_env =
  pl_events :: "int + nat list"
  pl_short :: "nat \<Rightarrow> bool"
  pl_frame :: "nat \<Rightarrow> evict_env"

definition poll_write_buffer :: "pp_flags \<Rightarrow> poll_env \<Rightarrow> provider \<Rightarrow> provider result option" where
  "poll_write_buffer fl e s =
     bind_ro (Some (async_poll (pl_events e) (async_writes s))) (\<lambda>(done, a).
     written_pages fl (pl_short e) (pl_frame e) done (s\<lparr>async_writes := a\<rparr>))"

section \<open>Phase 1: eviction requests of other nodes\<close>

text \<open>The frames of the requested pages that can be latched and have the version of the request, with the position of
  their entry.  \<open>fe k\<close> are the attempts to find the frame of entry \<open>k\<close>.\<close>

fun collect_guards :: "(nat \<Rightarrow> find_env list) \<Rightarrow> EvictionRequest \<Rightarrow> nat list \<Rightarrow> provider \<Rightarrow> ((fref \<times> EvictionEntry) list \<times> provider) result option" where
  "collect_guards fe rq [] s = Some (Inr ([], s))"
| "collect_guards fe rq (k # ks) s =
     bind_ro (Some (array_get (entries rq) k)) (\<lambda>ee.
     bind_ro (findFrame Exclusive_access Exclusive_undo NON_BLOCKING (fe k) (ee_pid ee) (er_bmId rq) (pbm s)) (\<lambda>((_, m), g).
     let s = s\<lparr>pbm := m\<rparr>
     in if gstate g = RETRY \<or> gstate g = UNINITIALIZED then collect_guards fe rq ks s
        else if gstate g = NOT_FOUND \<or> latchState g \<noteq> EXCLUSIVE then Some (Inl Ensure_failed)
        else (case gframe g of
                None \<Rightarrow> Some (Inl Undefined)
              | Some i \<Rightarrow>
                  if pVersion (pbf s i) \<noteq> ee_pVersion ee then
                    bind_ro (Some (ensure (isLatched (bflatch (pbf s i))) (unlatch_pbf i s))) (collect_guards fe rq ks)
                  else bind_ro (collect_guards fe rq ks s) (\<lambda>(gs, s). Some (Inr ((i, ee) # gs, s))))))"

text \<open>The page ids of the copy requests in flight, sorted; the empty ones are not valid.\<close>

definition valid_CRs :: "PID list \<Rightarrow> PID list" where
  "valid_CRs crs = takeWhile (\<lambda>p. p \<noteq> EMPTY_PID) (sort_key PID.id crs)"

definition copy_in_flight :: "PID list \<Rightarrow> PID \<Rightarrow> bool" where
  "copy_in_flight crs p \<longleftrightarrow> valid_CRs crs \<noteq> [] \<and> p \<in> set (valid_CRs crs)"

text \<open>The possession of the node that wants to evict is taken back; whether its page has to be read.\<close>

definition take_back :: "bool \<Rightarrow> NodeID \<Rightarrow> NodeID \<Rightarrow> BufferFrame \<Rightarrow> (bool \<times> BufferFrame) result" where
  "take_back to_ssd node client f =
     (if to_ssd then
        (if dirty f then
           (case possession f of
              EXCLUSIVE_P \<Rightarrow> Inr (True, f\<lparr>possessors := node\<rparr>)
            | SHARED_P \<Rightarrow> Inr (True, f\<lparr>possessors := bm64_set (bm64_reset (possessors f) client) node\<rparr>)
            | NOBODY \<Rightarrow> Inl (Runtime_error ''Invalid possession state''))
         else Inr (False, f))
      else
        (case possession f of
           SHARED_P \<Rightarrow>
             ensure (bm64_test (possessors f) client) (
             let p = bm64_reset (possessors f) client
             in Inr (if bm64_none p then (True, f\<lparr>possessors := bm64_set p node\<rparr>) else (False, f\<lparr>possessors := p\<rparr>)))
         | EXCLUSIVE_P \<Rightarrow> ensure (possessors f = client) (Inr (True, f\<lparr>possessors := node\<rparr>))
         | NOBODY \<Rightarrow> Inr (False, f)))"

definition add_response :: "nat \<Rightarrow> PID \<Rightarrow> provider \<Rightarrow> provider result" where
  "add_response c p s =
     bind_r (es_add p (current (outgoingResp (pp_cctxs s ! c)))) (\<lambda>r.
     Inr (upd_pctx c (\<lambda>x. x\<lparr>outgoingResp := (outgoingResp x)\<lparr>current := r\<rparr>\<rparr>) s))"

text \<open>No page is needed: the node only gave up its copy.\<close>

definition evict_without_read :: "(bufmgr \<Rightarrow> bufmgr) list \<Rightarrow> nat \<Rightarrow> NodeID \<Rightarrow> fref \<Rightarrow> provider \<Rightarrow> provider result option" where
  "evict_without_read envs c client i s =
     bind_ro (Some (ensure (possession (pbf s i) = SHARED_P) (
              bind_r (add_response c (pid (pbf s i)) s) (\<lambda>s.
              ensure (isLatched (bflatch (pbf s i))) (
              Inr (upd_pbf i (\<lambda>f. f\<lparr>possessors := bm64_reset (possessors f) client\<rparr>) s)))))) (\<lambda>s.
     let f = pbf s i
     in if bm64_none (possessors f) then
          (if state f \<noteq> EVICTED \<or> pageP f \<noteq> None then Some (Inl Ensure_failed)
           else bind_ro (removeFrame envs i (\<lambda>_ m. Inr m) (pbm s)) (\<lambda>(m, _). Some (Inr (count_eviction (s\<lparr>pbm := m\<rparr>)))))
        else Some (ensure (0 < bm64_count (possessors f)) (unlatch_pbf i s)))"

text \<open>The page is read from the node; the frame stays latched until the read completed.\<close>

definition evict_with_read :: "nat \<Rightarrow> addr \<Rightarrow> fref \<Rightarrow> provider \<Rightarrow> provider result" where
  "evict_with_read c offset i s =
     ensure (isLatched (bflatch (pbf s i))) (
     bind_r (if state (pbf s i) = EVICTED then
               ensure (pageP (pbf s i) = None) (
               if rb_empty (privatePageBuffer s) then Inl (Runtime_error ''Private page buffer empty'')
               else bind_r (rb_remove (privatePageBuffer s)) (\<lambda>(page, r).
                    Inr (upd_pbf i (\<lambda>f. f\<lparr>pageP := page\<rparr>) (s\<lparr>privatePageBuffer := r\<rparr>))))
             else Inr s) (\<lambda>s.
     let s = upd_pbf i (\<lambda>f. f\<lparr>state := HOT, dirty := True\<rparr>) s
     in bind_r (add_response c (pid (pbf s i)) s) (\<lambda>s.
        if batchSize \<le> length (reads (pp_cctxs s ! c)) then Inl Out_of_bounds
        else Inr (upd_pctx c (\<lambda>x. x\<lparr>latchedFrames := latchedFrames x @ [i], reads := reads x @ [(pageP (pbf s i), offset)]\<rparr>) s))))"

definition serve_entry :: "pp_flags \<Rightarrow> PID list \<Rightarrow> (bufmgr \<Rightarrow> bufmgr) list \<Rightarrow> nat \<Rightarrow> NodeID \<Rightarrow> fref \<Rightarrow> EvictionEntry \<Rightarrow> provider \<Rightarrow> provider result option" where
  "serve_entry fl crs envs c client i ee s =
     (if \<not> isLatched (bflatch (pbf s i)) then Some (Inl Ensure_failed)
      else if copy_in_flight crs (pid (pbf s i)) then Some (unlatch_pbf i s)
      else bind_ro (Some (take_back (evict_to_ssd fl) (bmNode (pbm s)) client (pbf s i))) (\<lambda>(needRead, f).
           let s = upd_pbf i (\<lambda>_. f) s
           in if needRead then Some (evict_with_read c (ee_offset ee) i s) else evict_without_read envs c client i s))"

fun serve_entries :: "pp_flags \<Rightarrow> PID list \<Rightarrow> (fref \<Rightarrow> (bufmgr \<Rightarrow> bufmgr) list) \<Rightarrow> nat \<Rightarrow> NodeID \<Rightarrow> (fref \<times> EvictionEntry) list \<Rightarrow> provider \<Rightarrow> provider result option" where
  "serve_entries fl crs envs c client [] s = Some (Inr s)"
| "serve_entries fl crs envs c client ((i, ee) # gs) s =
     bind_ro (serve_entry fl crs (envs i) c client i ee s) (serve_entries fl crs envs c client gs)"

definition postRead :: "nat \<Rightarrow> provider \<Rightarrow> provider" where
  "postRead c s =
     (if reads (pp_cctxs s ! c) \<noteq> [] then
        upd_pctx c (\<lambda>x. x\<lparr>readScheduled := True\<rparr>) (s\<lparr>pp_posted := pp_posted s @ [PostReads c (reads (pp_cctxs s ! c))]\<rparr>)
      else s)"

record p1_env =
  p1_find :: "nat \<Rightarrow> find_env list"
  p1_CRs :: "PID list"
  p1_remove :: "fref \<Rightarrow> (bufmgr \<Rightarrow> bufmgr) list"

definition serve_request :: "pp_flags \<Rightarrow> p1_env \<Rightarrow> nat \<Rightarrow> nat \<Rightarrow> provider \<Rightarrow> provider result option" where
  "serve_request fl e t c s =
     (let rq = incoming s ! c;
          s = upd_pctx c (\<lambda>x. x\<lparr>responseOutstanding := True\<rparr>) (s\<lparr>req_mailboxes := (req_mailboxes s)[c := 0]\<rparr>)
      in if er_bmId rq \<noteq> of_nat c \<or> er_pId rq \<noteq> of_nat t then Some (Inl Ensure_failed)
         else bind_ro (collect_guards (p1_find e) rq [0..<er_elements rq] s) (\<lambda>(gs, s).
              bind_ro (serve_entries fl (p1_CRs e) (p1_remove e) c (er_bmId rq) gs s) (\<lambda>s.
              Some (Inr (postRead c s)))))"

text \<open>The mailboxes in order, until a request needs more pages than the private buffer has.\<close>

fun phase1 :: "pp_flags \<Rightarrow> (nat \<Rightarrow> p1_env) \<Rightarrow> nat \<Rightarrow> nat list \<Rightarrow> provider \<Rightarrow> provider result option" where
  "phase1 fl e t [] s = Some (Inr s)"
| "phase1 fl e t (c # cs) s =
     (if req_mailboxes s ! c = 0 then phase1 fl e t cs s
      else if unat (rb_count (privatePageBuffer s)) < er_elements (incoming s ! c) then Some (Inr s)
      else bind_ro (serve_request fl (e c) t c s) (phase1 fl e t cs))"

section \<open>Phase 3: selecting and evicting pages\<close>

text \<open>The epochs of frames in use are sampled, batch by batch, until there are enough of them; \<open>n\<close> bounds the number of
  batches.\<close>

definition sample_frame :: "fref \<Rightarrow> provider \<times> u64 list \<Rightarrow> bool \<times> provider \<times> u64 list" where
  "sample_frame i st =
     (let (s, samples) = st
      in if length samples = required_samples then (False, st)
         else if state (pbf s i) = FREE \<or> state (pbf s i) = EVICTED then (True, st)
         else (True, s, samples @ [epoch (pbf s i)]))"

fun sample_epochs :: "nat \<Rightarrow> provider \<times> u64 list \<Rightarrow> (provider \<times> u64 list) result option" where
  "sample_epochs 0 st = None"
| "sample_epochs (Suc n) st =
     (if required_samples \<le> length (snd st) then Some (Inr st)
      else let ((b, e), s) = next_batch (fst st)
           in bind_ro (batch_traverse_hashtable (Suc (length (bfs (pbm s)))) sample_frame (\<lambda>i st. nextF (pbf (fst st) i)) (\<lambda>st. Some (Inr st)) b e (s, snd st))
                (sample_epochs n))"

definition sample_window :: "pp_flags \<Rightarrow> nat \<Rightarrow> provider \<Rightarrow> provider result option" where
  "sample_window fl n s =
     bind_ro (sample_epochs n (s, [])) (\<lambda>(s, samples).
     bind_ro (Some (array_get (sort samples) (coolest fl (length samples)))) (\<lambda>w.
     Some (Inr (s\<lparr>eviction_window := w, sampling_needed := False\<rparr>))))"

type_synonym candidates = "(u64 \<times> fref) list"

definition is_candidate :: "pp_flags \<Rightarrow> u64 \<Rightarrow> NodeID \<Rightarrow> BufferFrame \<Rightarrow> bool" where
  "is_candidate fl window node f \<longleftrightarrow>
     \<not> (state f = FREE \<or> state f = EVICTED) \<and> pid f \<noteq> EMPTY_PID \<and> \<not> isLatched (bflatch f)
   \<and> (if evict_to_ssd fl then epoch f \<le> window else remote_condition node f)"

definition select_frame :: "pp_flags \<Rightarrow> fref \<Rightarrow> provider \<times> candidates \<times> nat \<Rightarrow> bool \<times> provider \<times> candidates \<times> nat" where
  "select_frame fl i st =
     (let (s, cands, k) = st; f = pbf s i
      in (True, s, if is_candidate fl (eviction_window s) (bmNode (pbm s)) f then cands @ [(epoch f, i)] else cands, k))"

text \<open>A page of another node: its owner is asked, the frame stays latched until the answer.\<close>

definition request_eviction :: "fref \<Rightarrow> provider \<Rightarrow> (bool \<times> provider) result" where
  "request_eviction i s =
     (let f = pbf s i; target = unat (getOwner (pid f))
      in bind_r (array_get (pp_cctxs s) target) (\<lambda>x.
         if er_full (current (outgoing x)) then ensure (isLatched (bflatch f)) (bind_r (unlatch_pbf i s) (\<lambda>s. Inr (False, s)))
         else ensure (state f = HOT) (
              bind_r (er_add \<lparr>ee_pid = pid f, ee_offset = page_offset f, ee_pVersion = pVersion f\<rparr> (current (outgoing x))) (\<lambda>r.
              Inr (True, upd_pctx target (\<lambda>x. x\<lparr>outgoing := (outgoing x)\<lparr>current := r\<rparr>,
                                                inflightFrames := (inflightFrames x)\<lparr>current := current (inflightFrames x) @ [i]\<rparr>\<rparr>) s)))))"

text \<open>One candidate: latch it if it was not used since it was selected; \<open>False\<close> ends the loop over the candidates.\<close>

definition evict_candidate :: "pp_flags \<Rightarrow> evict_env \<Rightarrow> u64 \<Rightarrow> fref \<Rightarrow> provider \<Rightarrow> (bool \<times> provider) result option" where
  "evict_candidate fl e ep i s =
     (let s = s\<lparr>pbm := ev_before e (pbm s)\<rparr>; f = pbf s i
      in case optimisticLatchOrRestart (bflatch f) of
           None \<Rightarrow> Some (Inr (True, s))
         | Some v \<Rightarrow>
             if ep \<noteq> epoch f then Some (Inr (True, s))
             else if pid f = EMPTY_PID \<or> state f = FREE \<or> state f = EVICTED then Some (Inr (True, s))
             else bind_ro (Some (optimisticUpgradeToExclusive (ev_upgrade e) v (bflatch f))) (\<lambda>(success, l).
                  let s = upd_pbf i (\<lambda>f. f\<lparr>bflatch := l\<rparr>) s; f = pbf s i
                  in if \<not> success then Some (Inr (True, s))
                     else if state f = FREE \<or> state f = EVICTED then Some (Inl Ensure_failed)
                     else if getOwner (pid f) = bmNode (pbm s) then evict_owner_page fl e i ep s
                     else Some (request_eviction i s)))"

fun evict_candidates :: "pp_flags \<Rightarrow> (nat \<Rightarrow> evict_env) \<Rightarrow> candidates \<Rightarrow> provider \<Rightarrow> provider result option" where
  "evict_candidates fl e [] s = Some (Inr s)"
| "evict_candidates fl e ((ep, i) # cs) s =
     bind_ro (evict_candidate fl (e i) ep i s) (\<lambda>(continue, s). if continue then evict_candidates fl e cs s else Some (Inr s))"

text \<open>Around one level of the traversal: the candidates, what \<open>io_submit\<close> returns, the completed writes.\<close>

record level_env =
  le_cand :: "nat \<Rightarrow> evict_env"
  le_taken :: int
  le_poll :: poll_env

definition evict_level :: "pp_flags \<Rightarrow> (nat \<Rightarrow> level_env) \<Rightarrow> provider \<times> candidates \<times> nat \<Rightarrow> (provider \<times> candidates \<times> nat) result option" where
  "evict_level fl e st =
     (let (s, cands, k) = st
      in bind_ro (evict_candidates fl (le_cand (e k)) cands s) (\<lambda>s.
         bind_ro (Some (async_submit (le_taken (e k)) (async_writes s))) (\<lambda>(_, a).
         bind_ro (poll_write_buffer fl (le_poll (e k)) (s\<lparr>async_writes := a\<rparr>)) (\<lambda>s. Some (Inr (s, [], k + 1))))))"

text \<open>The numbers of free pages read one after the other, the bound on the batches sampled, the levels.\<close>

record p3_env =
  p3_free :: "nat \<Rightarrow> nat"
  p3_samples :: nat
  p3_level :: "nat \<Rightarrow> level_env"

definition phase3 :: "pp_flags \<Rightarrow> p3_env \<Rightarrow> provider \<Rightarrow> provider result option" where
  "phase3 fl e s =
     (if p3_free e 0 < coolingBFLimit fl then
        let s = (if epoch_due fl (p3_free e 1) (tmpPages s + evictedCounter s) then
                   s\<lparr>evictedCounter := 0, pbm := (pbm s)\<lparr>globalEpoch := globalEpoch (pbm s) + 1\<rparr>, tmpPages := p3_free e 2, sampling_needed := True\<rparr>
                 else s)
        in if p3_free e 3 < freeBFLimit fl then
             let ((b, n), s) = next_batch s
             in bind_ro (if evict_to_ssd fl \<and> sampling_needed s then sample_window fl (p3_samples e) s else Some (Inr s)) (\<lambda>s.
                bind_ro (batch_traverse_hashtable (Suc (length (bfs (pbm s)))) (select_frame fl) (\<lambda>i (s, _). nextF (pbf s i)) (evict_level fl (p3_level e)) b n (s, [], 0))
                  (\<lambda>(s, _). Some (Inr s)))
           else Some (Inr s)
      else Some (Inr s))"

text \<open>The private buffer is filled from the free list, as far as it has pages.\<close>

fun refill :: "addr list \<Rightarrow> addr option rbuf \<Rightarrow> (addr list \<times> addr option rbuf) result" where
  "refill [] r = Inr ([], r)"
| "refill (a # as) r = (if rb_full r then Inr (a # as, r) else bind_r (rb_add (Some a) r) (refill as))"

definition refill_private :: "provider \<Rightarrow> provider result" where
  "refill_private s = bind_r (refill (pageFree (pbm s)) (privatePageBuffer s)) (\<lambda>(as, r). Inr (s\<lparr>privatePageBuffer := r, pbm := (pbm s)\<lparr>pageFree := as\<rparr>\<rparr>))"

section \<open>Starting the thread\<close>

text \<open>The buffers of a connection lie in the memory registered for the network, which starts out zeroed.\<close>

definition new_EvictionRequest :: EvictionRequest where
  "new_EvictionRequest = \<lparr>er_bmId = 0, er_pId = 0, failedSend = 0, er_elements = 0,
     entries = replicate batchSize \<lparr>ee_pid = \<lparr>PID.id = 0\<rparr>, ee_offset = 0, ee_pVersion = 0\<rparr>\<rparr>"

definition new_EvictionResponse :: EvictionResponse where
  "new_EvictionResponse = \<lparr>es_pids = replicate batchSize \<lparr>PID.id = 0\<rparr>, es_elements = 0, es_bmId = 0, es_pId = 0\<rparr>"

definition new_pp_ctx :: pp_ctx where
  "new_pp_ctx = \<lparr>responseExpected = False, readScheduled = False, responseOutstanding = False, readCompleted = False, pollCompleted = False,
     outgoingResp = \<lparr>current = new_EvictionResponse, prev = new_EvictionResponse\<rparr>,
     outgoing = \<lparr>current = new_EvictionRequest, prev = new_EvictionRequest\<rparr>,
     latchedFrames = [], inflightFrames = \<lparr>current = [], prev = []\<rparr>, pp_wqe = 0, reads = []\<rparr>"

text \<open>The thread of the partition \<open>(b, e)\<close>: its private buffer is filled from the free list, waiting for pages if it has
  too few; \<open>free\<close> is the number of free pages read before.\<close>

definition new_provider :: "pp_flags \<Rightarrow> nat \<Rightarrow> nat \<Rightarrow> nat \<Rightarrow> bufmgr \<Rightarrow> provider result" where
  "new_provider fl free b e m =
     bind_r (new_RingBuffer (of_nat (batchSize * pp_nodes fl * 4)) None) (\<lambda>r.
     bind_r (refill (pageFree m) r) (\<lambda>(as, r).
     if \<not> rb_full r then Inl Blocked
     else bind_r (new_async_buffer (of_nat pp_batch_size)) (\<lambda>a.
          Inr \<lparr>pbm = m\<lparr>pageFree := as\<rparr>, privatePageBuffer = r, async_writes = a, pp_cctxs = replicate (pp_nodes fl) new_pp_ctx,
               req_mailboxes = replicate (pp_nodes fl) 0, incoming = replicate (pp_nodes fl) new_EvictionRequest,
               respMailboxes = replicate (pp_nodes fl) 0, respIncoming = replicate (pp_nodes fl) new_EvictionResponse, pp_posted = [],
               part_begin = b, part_end = e, totalEvictions = 0, evictedCounter = 0, tmpPages = free, current_batch_offset = 0,
               sampling_needed = True, eviction_window = 0\<rparr>)))"

section \<open>Phases 4 to 6: requests and responses\<close>

text \<open>After a write was posted: every \<open>maxOutstandingWrites\<close> one is signaled and its completion waited for; the
  completion of the reads may come first.  \<open>polled\<close> says of the completions, one after the other, whether they are of
  reads.\<close>

fun await_write :: "bool list \<Rightarrow> pp_ctx \<Rightarrow> pp_ctx option" where
  "await_write [] x = None"
| "await_write (is_read # polled) x = (if is_read then await_write polled (x\<lparr>readCompleted := True\<rparr>) else Some (x\<lparr>pp_wqe := 0, pollCompleted := False\<rparr>))"

definition posted_write :: "bool list \<Rightarrow> nat \<Rightarrow> (bool \<Rightarrow> pp_op) \<Rightarrow> provider \<Rightarrow> provider option" where
  "posted_write polled c op s =
     (let x = pp_cctxs s ! c; s = s\<lparr>pp_posted := pp_posted s @ [op (pp_wqe x = maxOutstandingWrites)]\<rparr>
      in case (if pp_wqe x = maxOutstandingWrites \<and> \<not> pollCompleted x then await_write polled x else Some x) of
           None \<Rightarrow> None
         | Some x \<Rightarrow> Some (upd_pctx c (\<lambda>_. x\<lparr>pp_wqe := pp_wqe x + 1\<rparr>) s))"

definition writeRequest :: "bool list \<Rightarrow> nat \<Rightarrow> EvictionRequest \<Rightarrow> provider \<Rightarrow> provider option" where
  "writeRequest polled c rq = posted_write polled c (PostRequest c rq)"

definition writeResponse :: "bool list \<Rightarrow> nat \<Rightarrow> EvictionResponse \<Rightarrow> provider \<Rightarrow> provider option" where
  "writeResponse polled c r = posted_write polled c (PostResponse c r)"

definition send_request :: "bool list \<Rightarrow> nat \<Rightarrow> nat \<Rightarrow> provider \<Rightarrow> provider option" where
  "send_request polled t c s =
     (let x = pp_cctxs s ! c; rq = current (outgoing x)
      in if responseExpected x then Some s
         else if minOutgoingElements < er_elements rq \<or> (100 < failedSend rq \<and> 0 < er_elements rq) then
           let rq = rq\<lparr>er_bmId := bmNode (pbm s), er_pId := of_nat t\<rparr>
           in case writeRequest polled c rq (upd_pctx c (\<lambda>x. x\<lparr>outgoing := (outgoing x)\<lparr>current := rq\<rparr>\<rparr>) s) of
                None \<Rightarrow> None
              | Some s \<Rightarrow>
                  Some (upd_pctx c (\<lambda>x. let o1 = swap_slots ((outgoing x)\<lparr>current := (current (outgoing x))\<lparr>failedSend := 0\<rparr>\<rparr>)
                                       in x\<lparr>responseExpected := True, outgoing := o1\<lparr>current := er_reset (current o1)\<rparr>,
                                            inflightFrames := swap_slots (inflightFrames x)\<rparr>) s)
         else Some (upd_pctx c (\<lambda>x. x\<lparr>outgoing := (outgoing x)\<lparr>current := rq\<lparr>failedSend := failedSend rq + 1\<rparr>\<rparr>\<rparr>) s))"

fun phase4 :: "(nat \<Rightarrow> bool list) \<Rightarrow> nat \<Rightarrow> nat list \<Rightarrow> provider \<Rightarrow> provider option" where
  "phase4 polled t [] s = Some s"
| "phase4 polled t (c # cs) s =
     (if of_nat c = bmNode (pbm s) then phase4 polled t cs s
      else case send_request (polled c) t c s of None \<Rightarrow> None | Some s \<Rightarrow> phase4 polled t cs s)"

text \<open>The frames of an answered request, in its order: those whose page id comes next in the response are removed.\<close>

fun drop_evicted :: "(fref \<Rightarrow> (bufmgr \<Rightarrow> bufmgr) list) \<Rightarrow> EvictionResponse \<Rightarrow> fref list \<Rightarrow> nat \<Rightarrow> provider \<Rightarrow> (nat \<times> provider) result option" where
  "drop_evicted envs response [] r_i s = Some (Inr (r_i, s))"
| "drop_evicted envs response (i # is) r_i s =
     bind_ro (Some (array_get (es_pids response) r_i)) (\<lambda>p.
     if pid (pbf s i) = p then
       bind_ro (drop_frame (envs i) i s) (\<lambda>s.
       if es_elements response < r_i then Some (Inl Ensure_failed) else drop_evicted envs response is (r_i + 1) s)
     else bind_ro (Some (ensure (isLatched (bflatch (pbf s i))) (unlatch_pbf i s))) (drop_evicted envs response is r_i))"

fun unlatch_frames :: "fref list \<Rightarrow> provider \<Rightarrow> provider result" where
  "unlatch_frames [] s = Inr s"
| "unlatch_frames (i # is) s = ensure (isLatched (bflatch (pbf s i))) (bind_r (unlatch_pbf i s) (unlatch_frames is))"

definition receive_response :: "(fref \<Rightarrow> (bufmgr \<Rightarrow> bufmgr) list) \<Rightarrow> nat \<Rightarrow> provider \<Rightarrow> provider result option" where
  "receive_response envs c s =
     (let s = s\<lparr>respMailboxes := (respMailboxes s)[c := 0]\<rparr>
      in if \<not> responseExpected (pp_cctxs s ! c) then Some (Inl Ensure_failed)
         else let s = upd_pctx c (\<lambda>x. x\<lparr>responseExpected := False\<rparr>) s; response = respIncoming s ! c; frames = prev (inflightFrames (pp_cctxs s ! c))
              in bind_ro (if 0 < es_elements response then bind_ro (drop_evicted envs response frames 0 s) (\<lambda>(_, s). Some (Inr s))
                          else Some (unlatch_frames frames s)) (\<lambda>s.
                 Some (Inr (upd_pctx c (\<lambda>x. x\<lparr>inflightFrames := (inflightFrames x)\<lparr>prev := []\<rparr>\<rparr>) s))))"

fun phase5 :: "(nat \<Rightarrow> fref \<Rightarrow> (bufmgr \<Rightarrow> bufmgr) list) \<Rightarrow> nat list \<Rightarrow> provider \<Rightarrow> provider result option" where
  "phase5 envs [] s = Some (Inr s)"
| "phase5 envs (c # cs) s =
     (if respMailboxes s ! c = 0 then phase5 envs cs s else bind_ro (receive_response (envs c) c s) (phase5 envs cs))"

text \<open>\<open>RdmaReadBuffer::pollCompletion\<close>: two polls, each of which reports nothing, the reads or a write.\<close>

fun poll_reads :: "bool option list \<Rightarrow> pp_ctx \<Rightarrow> bool \<times> pp_ctx" where
  "poll_reads [] x = (False, x)"
| "poll_reads (None # ps) x = poll_reads ps x"
| "poll_reads (Some is_read # ps) x = (if is_read then (True, x\<lparr>reads := [], pp_wqe := 0\<rparr>) else poll_reads ps (x\<lparr>pollCompleted := True\<rparr>))"

definition pollCompletion :: "bool option \<times> bool option \<Rightarrow> pp_ctx \<Rightarrow> bool \<times> pp_ctx" where
  "pollCompletion ps x = (if readCompleted x then (True, x\<lparr>reads := []\<rparr>) else poll_reads [fst ps, snd ps] x)"

definition send_response :: "bool option \<times> bool option \<Rightarrow> bool list \<Rightarrow> nat \<Rightarrow> nat \<Rightarrow> provider \<Rightarrow> provider result option" where
  "send_response ps polled t c s =
     (let (completed, x) = (if readScheduled (pp_cctxs s ! c) then pollCompletion ps (pp_cctxs s ! c) else (True, pp_cctxs s ! c)); s = upd_pctx c (\<lambda>_. x) s
      in if \<not> completed \<or> \<not> responseOutstanding x then Some (Inr s)
         else let r = (current (outgoingResp x))\<lparr>es_pId := of_nat t, es_bmId := bmNode (pbm s)\<rparr>;
                  s = upd_pctx c (\<lambda>x. x\<lparr>responseOutstanding := False, readScheduled := False, readCompleted := False, outgoingResp := (outgoingResp x)\<lparr>current := r\<rparr>\<rparr>) s
              in case writeResponse polled c r s of
                   None \<Rightarrow> None
                 | Some s \<Rightarrow>
                     bind_ro (Some (unlatch_frames (latchedFrames (pp_cctxs s ! c)) s)) (\<lambda>s.
                     Some (Inr (upd_pctx c (\<lambda>x. let o1 = swap_slots (outgoingResp x) in x\<lparr>latchedFrames := [], outgoingResp := o1\<lparr>current := es_reset (current o1)\<rparr>\<rparr>) s))))"

fun phase6 :: "(nat \<Rightarrow> bool option \<times> bool option) \<Rightarrow> (nat \<Rightarrow> bool list) \<Rightarrow> nat \<Rightarrow> nat list \<Rightarrow> provider \<Rightarrow> provider result option" where
  "phase6 ps polled t [] s = Some (Inr s)"
| "phase6 ps polled t (c # cs) s =
     (if of_nat c = bmNode (pbm s) then phase6 ps polled t cs s
      else bind_ro (send_response (ps c) (polled c) t c s) (phase6 ps polled t cs))"

section \<open>A round\<close>

record pp_env =
  e_p1 :: "nat \<Rightarrow> p1_env"
  e_poll :: poll_env
  e_p3 :: p3_env
  e_taken :: int
  e_requests :: "nat \<Rightarrow> bool list"
  e_dropped :: "nat \<Rightarrow> fref \<Rightarrow> (bufmgr \<Rightarrow> bufmgr) list"
  e_reads :: "nat \<Rightarrow> bool option \<times> bool option"
  e_responses :: "nat \<Rightarrow> bool list"

definition of_option :: "'a option \<Rightarrow> 'a result option" where
  "of_option x = (case x of None \<Rightarrow> None | Some y \<Rightarrow> Some (Inr y))"

definition pp_round :: "pp_flags \<Rightarrow> pp_env \<Rightarrow> nat \<Rightarrow> provider \<Rightarrow> provider result option" where
  "pp_round fl e t s =
     (let nodes = [0..<pp_nodes fl]
      in bind_ro (phase1 fl (e_p1 e) t nodes s) (\<lambda>s.
         bind_ro (poll_write_buffer fl (e_poll e) s) (\<lambda>s.
         bind_ro (phase3 fl (e_p3 e) s) (\<lambda>s.
         bind_ro (Some (refill_private s)) (\<lambda>s.
         bind_ro (Some (async_submit (e_taken e) (async_writes s))) (\<lambda>(_, a).
         bind_ro (of_option (phase4 (e_requests e) t nodes (s\<lparr>async_writes := a\<rparr>))) (\<lambda>s.
         bind_ro (phase5 (e_dropped e) nodes s) (\<lambda>s.
         phase6 (e_reads e) (e_responses e) t nodes s))))))))"

end
