(* ===== verification/PageProvider_Traverse.thy ===== *)
theory PageProvider_Traverse
  imports PageProvider
begin

text \<open>
  What the page provider looks at: its traversal of a range of buckets visits every frame of their chains once, the
  batches pass over the whole partition, and the partitions make up the page table.  Sampling returns exactly if a page
  of the partition is in use.
\<close>

section \<open>The order of the traversal\<close>

text \<open>The frames level by level, and what is left after some levels.\<close>

definition next_level :: "(fref \<Rightarrow> fref option) \<Rightarrow> fref list \<Rightarrow> fref list" where
  "next_level nx is = map the (filter (\<lambda>x. x \<noteq> None) (map nx is))"

fun level_order :: "(fref \<Rightarrow> fref option) \<Rightarrow> nat \<Rightarrow> fref list \<Rightarrow> fref list" where
  "level_order nx 0 is = []"
| "level_order nx (Suc n) is = is @ level_order nx n (next_level nx is)"

fun levels :: "(fref \<Rightarrow> fref option) \<Rightarrow> nat \<Rightarrow> fref list \<Rightarrow> fref list" where
  "levels nx 0 is = is"
| "levels nx (Suc n) is = levels nx n (next_level nx is)"

lemma next_level_simps [simp]:
  "next_level nx [] = []"
  "next_level nx (i # is) = (case nx i of None \<Rightarrow> next_level nx is | Some j \<Rightarrow> j # next_level nx is)"
  by (simp_all add: next_level_def split: option.split)

lemma set_next_level: "j \<in> set (next_level nx is) \<longleftrightarrow> (\<exists>i\<in>set is. nx i = Some j)"
  by (induction "is") (auto split: option.split)

lemma levels_Nil [simp]: "levels nx n [] = []"
  by (induction n) auto

lemma level_order_Nil [simp]: "level_order nx n [] = []"
  by (induction n) auto

lemma levels_mono: "set is' \<subseteq> set is \<Longrightarrow> levels nx n is = [] \<Longrightarrow> levels nx n is' = []"
proof (induction n arbitrary: "is" is')
  case (Suc n)
  have "set (next_level nx is') \<subseteq> set (next_level nx is)" using Suc.prems(1) unfolding subset_iff set_next_level by blast
  with Suc show ?case by simp
qed simp

lemma traverse_level_all:
  assumes "\<And>i s. cond i s = (True, v i s)" and "\<And>i s. nxt i s = nx i"
  shows "traverse_level cond nxt (map Some is) s = (map Some (next_level nx is), fold v is s)"
  using assms by (induction "is" arbitrary: s) (auto split: option.split)

lemma traverse_levels_all:
  assumes "\<And>i s. cond i s = (True, v i s)" and "\<And>i s. nxt i s = nx i" and "levels nx n is = []"
  shows "traverse_levels cond nxt (\<lambda>s. Some (Inr s)) (Suc n) (map Some is) s = Some (Inr (fold v (level_order nx n is) s))"
  using assms(3)
proof (induction n arbitrary: "is" s)
  case (Suc n)
  then show ?case
    using traverse_level_all [of cond v nxt nx, OF assms(1,2)] by (cases "is = []") auto
qed (simp add: assms)

text \<open>As a multiset, the levels are the chains.\<close>

lemma mset_level_order:
  "mset (level_order (\<lambda>i. nextF (bs ! i)) n is) = mset (concat (map (\<lambda>i. chain_from bs n (Some i)) is))"
proof (induction n arbitrary: "is")
  case (Suc n)
  have "mset (concat (map (\<lambda>i. chain_from bs n (Some i)) (next_level (\<lambda>i. nextF (bs ! i)) is))) + mset is
      = mset (concat (map (\<lambda>i. chain_from bs (Suc n) (Some i)) is))" for "is"
    by (induction "is") (auto split: option.split)
  with Suc show ?case by (simp add: add.commute)
qed (induct_tac "is"; simp)

lemma levels_path:
  assumes "\<And>i. i \<in> set is \<Longrightarrow> \<exists>xs. path bs (nextF (bs ! i)) xs \<and> length xs < n"
  shows "levels (\<lambda>i. nextF (bs ! i)) n is = []"
  using assms
proof (induction n arbitrary: "is")
  case 0
  then show ?case by (cases "is") auto
next
  case (Suc n)
  have "\<exists>xs. path bs (nextF (bs ! j)) xs \<and> length xs < n" if "j \<in> set (next_level (\<lambda>i. nextF (bs ! i)) is)" for j
  proof -
    obtain i where i: "i \<in> set is" "nextF (bs ! i) = Some j" using \<open>j \<in> _\<close> by (auto simp: set_next_level)
    from Suc.prems [OF i(1)] obtain xs where "path bs (nextF (bs ! i)) xs" "length xs < Suc n" by blast
    with i(2) show ?thesis by (cases xs) auto
  qed
  with Suc.IH show ?case by simp
qed

section \<open>Buckets and their chains\<close>

text \<open>The frames of the buckets of a range, in the order of the traversal.\<close>

definition frames_of :: "bufmgr \<Rightarrow> nat \<Rightarrow> nat \<Rightarrow> fref list" where
  "frames_of m b e = level_order (\<lambda>i. nextF (bfs m ! i)) (length (bfs m)) [b..<e]"

lemma bucket_levels:
  assumes "pt_wf m" and "e \<le> unat (ptsize m)"
  shows "levels (\<lambda>i. nextF (bfs m ! i)) (length (bfs m)) [b..<e] = []"
proof (rule levels_path)
  fix i assume "i \<in> set [b..<e]"
  then have "i < unat (ptsize m)" using assms(2) by simp
  with pt_okD(1,10) [OF assms(1) [unfolded pt_wf_def]] show "\<exists>xs. path (bfs m) (nextF (bfs m ! i)) xs \<and> length xs < length (bfs m)" by blast
qed

lemma chain_from_bucket:
  assumes "pt_wf m" and "b < unat (ptsize m)"
  shows "chain_from (bfs m) (length (bfs m)) (Some b) = b # chains m b"
proof -
  note d = pt_okD [OF assms(1) [unfolded pt_wf_def] assms(2)]
  obtain n where n: "length (bfs m) = Suc n" using d(7) by (cases "length (bfs m)") auto
  then have "chain_from (bfs m) n (nextF (bfs m ! b)) = chains m b"
    using chain_from_path [OF d(1)] d(10) by simp
  with n show ?thesis by simp
qed

lemma mset_frames_of:
  assumes "pt_wf m" and "e \<le> unat (ptsize m)"
  shows "mset (frames_of m b e) = mset (concat (map (\<lambda>k. k # chains m k) [b..<e]))"
proof -
  have "map (\<lambda>i. chain_from (bfs m) (length (bfs m)) (Some i)) [b..<e] = map (\<lambda>k. k # chains m k) [b..<e]"
    using chain_from_bucket [OF assms(1)] assms(2) by (intro map_cong) auto
  then show ?thesis unfolding frames_of_def mset_level_order by (simp only:)
qed

lemma frames_of_set:
  assumes "pt_wf m" and "e \<le> unat (ptsize m)"
  shows "set (frames_of m b e) = (\<Union>k\<in>{b..<e}. insert k (set (chains m k)))"
proof -
  have "set_mset (mset (frames_of m b e)) = (\<Union>k\<in>{b..<e}. insert k (set (chains m k)))"
    unfolding mset_frames_of [OF assms] by auto
  then show ?thesis by simp
qed

lemma distinct_chains:
  assumes "pt_wf m" and "e \<le> unat (ptsize m)"
  shows "distinct (concat (map (\<lambda>k. k # chains m k) [b..<e]))"
  using assms(2)
proof (induction e)
  case (Suc e)
  note ok = assms(1) [unfolded pt_wf_def]
  show ?case
  proof (cases "b \<le> e")
    case True
    have e: "e < unat (ptsize m)" using Suc.prems by simp
    note d = pt_okD [OF ok e]
    have "(set (k # chains m k)) \<inter> set (e # chains m e) = {}" if "k < e" for k
      using chains_disjoint [OF ok e, of k] pt_okD(2) [OF ok, of k] d(2) that e by fastforce
    moreover have "distinct (concat (map (\<lambda>k. k # chains m k) [b..<e]))" using Suc by simp
    ultimately show ?thesis using True d(8,9) by (fastforce simp: disjoint_iff)
  qed simp
qed simp

lemma distinct_frames_of:
  assumes "pt_wf m" and "e \<le> unat (ptsize m)"
  shows "distinct (frames_of m b e)"
  using distinct_chains [OF assms] mset_eq_imp_distinct_iff [OF mset_frames_of [OF assms]] by blast

lemma table_in_frames:
  assumes "pt_wf m" and "e \<le> unat (ptsize m)" and "table m p = Some i" and "bucket m p \<in> {b..<e}"
  shows "i \<in> set (frames_of m b e)"
proof -
  have "i \<in> set (bucket m p # chains m (bucket m p))"
    using tbl_Some(3) [of m "chains m" p i] assms(1,3) by (simp add: pt_wf_def table_def)
  then show ?thesis using assms(4) unfolding frames_of_set [OF assms(1,2)] by auto
qed

section \<open>Batches and partitions\<close>

definition partition_ok :: "provider \<Rightarrow> bool" where
  "partition_ok s \<longleftrightarrow> part_begin s < part_end s \<and> part_end s \<le> unat (ptsize (pbm s)) \<and> current_batch_offset s < part_end s - part_begin s"

lemma next_batch_ok:
  assumes "partition_ok s"
  defines "n \<equiv> part_end s - part_begin s" and "off \<equiv> current_batch_offset s"
  shows "next_batch s = ((off + part_begin s, min (off + pp_batch_size) n + part_begin s), s\<lparr>current_batch_offset := min (off + pp_batch_size) n mod n\<rparr>)"
  using assms by (auto simp: next_batch_def partition_ok_def Let_def min_def)

text \<open>The ranges of consecutive batches.\<close>

fun batches :: "nat \<Rightarrow> provider \<Rightarrow> (nat \<times> nat) list \<times> provider" where
  "batches 0 s = ([], s)"
| "batches (Suc k) s = (let (r, s) = next_batch s; (rs, s) = batches k s in (r # rs, s))"

lemma upt_join: "a \<le> b \<Longrightarrow> b \<le> c \<Longrightarrow> [a..<b] @ [b..<c] = [a..<c]"
  using upt_add_eq_append [of a b "c - b"] by simp

lemma next_batch_step:
  assumes "partition_ok s"
  shows "next_batch s = ((part_begin s + current_batch_offset s, min (part_begin s + current_batch_offset s + pp_batch_size) (part_end s)),
      s\<lparr>current_batch_offset := (if part_begin s + current_batch_offset s + pp_batch_size < part_end s then current_batch_offset s + pp_batch_size else 0)\<rparr>)"
proof -
  define n where "n = part_end s - part_begin s"
  have n: "part_end s = part_begin s + n" using assms by (simp add: partition_ok_def n_def)
  note nb = next_batch_ok [OF assms, folded n_def]
  show ?thesis
  proof (cases "current_batch_offset s + pp_batch_size < n")
    case True
    then show ?thesis unfolding nb n by simp
  next
    case False
    then have "min (current_batch_offset s + pp_batch_size) n = n" "min (part_begin s + current_batch_offset s + pp_batch_size) (part_begin s + n) = n + part_begin s"
      by simp_all
    then show ?thesis using False unfolding nb n by simp
  qed
qed

lemma partition_ok_step:
  assumes "partition_ok s"
  shows "partition_ok (snd (next_batch s))"
  unfolding next_batch_step [OF assms] using assms by (auto simp: partition_ok_def)

lemma batches_cover:
  assumes "partition_ok s"
  shows "\<exists>k. k * pp_batch_size < part_end s - part_begin s - current_batch_offset s + pp_batch_size
    \<and> concat (map (\<lambda>(b, e). [b..<e]) (fst (batches k s))) = [part_begin s + current_batch_offset s..<part_end s]
    \<and> snd (batches k s) = s\<lparr>current_batch_offset := 0\<rparr>"
  using assms
proof (induction "part_end s - part_begin s - current_batch_offset s" arbitrary: s rule: less_induct)
  case less
  let ?o = "current_batch_offset s" and ?b = "part_begin s" and ?e = "part_end s"
  have ok: "?b < ?e" "?o < ?e - ?b" "0 < pp_batch_size" using less.prems by (simp_all add: partition_ok_def pp_batch_size_def)
  note st = next_batch_step [OF less.prems]
  show ?case
  proof (cases "?b + ?o + pp_batch_size < ?e")
    case True
    let ?s = "s\<lparr>current_batch_offset := ?o + pp_batch_size\<rparr>"
    have s: "partition_ok ?s" using partition_ok_step [OF less.prems] True unfolding st by simp
    have "part_end ?s - part_begin ?s - current_batch_offset ?s < ?e - ?b - ?o" using ok True by simp
    from less.hyps [OF this s] obtain k where k: "k * pp_batch_size < ?e - ?b - (?o + pp_batch_size) + pp_batch_size"
      "concat (map (\<lambda>(b, e). [b..<e]) (fst (batches k ?s))) = [?b + (?o + pp_batch_size)..<?e]" "snd (batches k ?s) = s\<lparr>current_batch_offset := 0\<rparr>" by auto
    have nb: "next_batch s = ((?b + ?o, ?b + ?o + pp_batch_size), ?s)" using True unfolding st by simp
    have "Suc k * pp_batch_size < ?e - ?b - ?o + pp_batch_size" using k(1) True by simp
    moreover have "[?b + ?o..<?b + ?o + pp_batch_size] @ [?b + (?o + pp_batch_size)..<?e] = [?b + ?o..<?e]"
      using True upt_join [of "?b + ?o" "?b + ?o + pp_batch_size" ?e] by (simp add: add.assoc)
    ultimately show ?thesis using k(2,3) nb by (intro exI [of _ "Suc k"]) (simp add: case_prod_unfold)
  next
    case False
    have "next_batch s = ((?b + ?o, ?e), s\<lparr>current_batch_offset := 0\<rparr>)" using False unfolding st by simp
    with ok show ?thesis by (intro exI [of _ 1]) (simp add: case_prod_unfold)
  qed
qed

lemma partitions_ok:
  assumes "0 < t" and "t \<le> n"
  shows "\<exists>ps. pp_partitions n t = Inr ps \<and> length ps = t \<and> concat (map (\<lambda>(b, e). [b..<e]) ps) = [0..<n] \<and> (\<forall>(b, e)\<in>set ps. b < e \<and> e \<le> n)
    \<and> (\<forall>j<t. \<forall>i<j. snd (ps ! i) \<le> fst (ps ! j))"
proof -
  let ?k = "n div t"
  have k: "0 < ?k" "t * ?k \<le> n" using assms by (simp_all add: div_greater_zero_iff)
  define r where "r = (\<lambda>i. (i * ?k, if i = t - 1 then n else i * ?k + ?k))"
  have p: "pp_partitions n t = Inr (map r [0..<t])" using assms k by (simp add: pp_partitions_def r_def Let_def)
  have part: "concat (map (\<lambda>(b, e). [b..<e]) (map r [0..<i])) = [0..<i * ?k]" if "i < t" for i
    using that
  proof (induction i)
    case (Suc i)
    have "[0..<i * ?k] @ [i * ?k..<i * ?k + ?k] = [0..<i * ?k + ?k]" by (rule upt_join) simp_all
    with Suc show ?case by (simp add: r_def add.commute)
  qed simp
  have le: "(t - 1) * ?k \<le> n" by (rule order_trans [OF _ k(2)]) (simp add: mult_le_mono1)
  obtain u where u: "t = Suc u" using assms(1) by (cases t) auto
  have "concat (map (\<lambda>(b, e). [b..<e]) (map r [0..<t])) = [0..<u * ?k] @ [u * ?k..<n]"
    using part [of u] u by (simp add: r_def)
  also have "\<dots> = [0..<n]" using le u upt_join [of 0 "u * ?k" n] by simp
  finally have cover: "concat (map (\<lambda>(b, e). [b..<e]) (map r [0..<t])) = [0..<n]" .
  have b: "fst (r i) < snd (r i) \<and> snd (r i) \<le> n" if "i < t" for i
  proof -
    have "i * ?k + ?k = (i + 1) * ?k" by simp
    also have "\<dots> \<le> t * ?k" using that by (intro mult_le_mono1) simp
    finally have "i * ?k + ?k \<le> n" using k(2) by (rule order_trans)
    with k(1) show ?thesis unfolding r_def fst_conv snd_conv by (split if_split) linarith
  qed
  have bs: "\<forall>(b, e)\<in>set (map r [0..<t]). b < e \<and> e \<le> n"
    using b by (simp add: case_prod_unfold)
  have "i * ?k + ?k \<le> j * ?k" if "i < j" for i j
    using mult_le_mono1 [of "Suc i" j ?k] that by simp
  then have "\<forall>j<t. \<forall>i<j. snd (map r [0..<t] ! i) \<le> fst (map r [0..<t] ! j)" by (auto simp: r_def)
  moreover have "length (map r [0..<t]) = t" by simp
  ultimately show ?thesis using p cover bs by blast
qed

section \<open>Sampling\<close>

definition in_use :: "bufmgr \<Rightarrow> fref \<Rightarrow> bool" where
  "in_use m i \<longleftrightarrow> state (bfs m ! i) \<noteq> FREE \<and> state (bfs m ! i) \<noteq> EVICTED"

definition epochs :: "bufmgr \<Rightarrow> fref list \<Rightarrow> u64 list" where
  "epochs m is = map (\<lambda>i. epoch (bfs m ! i)) (filter (in_use m) is)"

lemma epochs_append [simp]: "epochs m (xs @ ys) = epochs m xs @ epochs m ys" "epochs m [] = []"
  by (simp_all add: epochs_def)

lemma sample_level:
  assumes "length xs \<le> required_samples"
  shows "\<exists>ws. traverse_level sample_frame (\<lambda>i st. nextF (pbf (fst st) i)) (map Some is) (s, xs)
      = (map Some ws, s, take required_samples (xs @ epochs (pbm s) is))
    \<and> set ws \<subseteq> set (next_level (\<lambda>i. nextF (pbf s i)) is)
    \<and> (length (xs @ epochs (pbm s) is) < required_samples \<longrightarrow> ws = next_level (\<lambda>i. nextF (pbf s i)) is)"
  using assms
proof (induction "is" arbitrary: xs)
  case (Cons i "is")
  show ?case
  proof (cases "length xs = required_samples")
    case True
    then show ?thesis by (intro exI [of _ "[]"]) (simp add: sample_frame_def)
  next
    case False
    define ys where "ys = xs @ epochs (pbm s) [i]"
    have ys: "length ys \<le> required_samples" using False Cons.prems by (simp add: ys_def epochs_def)
    have f: "sample_frame i (s, xs) = (True, s, ys)"
      using False by (simp add: sample_frame_def ys_def epochs_def in_use_def pbf_def)
    have app: "xs @ epochs (pbm s) (i # is) = ys @ epochs (pbm s) is" by (simp add: ys_def epochs_def)
    obtain ws where "traverse_level sample_frame (\<lambda>i st. nextF (pbf (fst st) i)) (map Some is) (s, ys)
        = (map Some ws, s, take required_samples (ys @ epochs (pbm s) is))"
      "set ws \<subseteq> set (next_level (\<lambda>i. nextF (pbf s i)) is)"
      "length (ys @ epochs (pbm s) is) < required_samples \<longrightarrow> ws = next_level (\<lambda>i. nextF (pbf s i)) is"
      using Cons.IH [OF ys] by blast
    then show ?thesis
      unfolding app by (cases "nextF (pbf s i)"; intro exI [of _ "case nextF (pbf s i) of None \<Rightarrow> ws | Some j \<Rightarrow> j # ws"]) (auto simp: f)
  qed
qed simp

lemma sample_levels:
  assumes "length xs \<le> required_samples" and "levels (\<lambda>i. nextF (pbf s i)) n is = []"
  shows "traverse_levels sample_frame (\<lambda>i st. nextF (pbf (fst st) i)) (\<lambda>st. Some (Inr st)) (Suc n) (map Some is) (s, xs)
    = Some (Inr (s, take required_samples (xs @ epochs (pbm s) (level_order (\<lambda>i. nextF (pbf s i)) n is))))"
  using assms
proof (induction n arbitrary: "is" xs)
  case (Suc n)
  let ?nx = "\<lambda>i. nextF (pbf s i)"
  obtain ws where ws: "traverse_level sample_frame (\<lambda>i st. nextF (pbf (fst st) i)) (map Some is) (s, xs)
      = (map Some ws, s, take required_samples (xs @ epochs (pbm s) is))" "set ws \<subseteq> set (next_level ?nx is)"
    "length (xs @ epochs (pbm s) is) < required_samples \<longrightarrow> ws = next_level ?nx is"
    using sample_level [OF Suc.prems(1)] by blast
  have "levels ?nx n ws = []" using levels_mono [OF ws(2)] Suc.prems(2) by simp
  from Suc.IH [OF _ this, of "take required_samples (xs @ epochs (pbm s) is)"]
  have rest: "traverse_levels sample_frame (\<lambda>i st. nextF (pbf (fst st) i)) (\<lambda>st. Some (Inr st)) (Suc n) (map Some ws) (s, take required_samples (xs @ epochs (pbm s) is))
    = Some (Inr (s, take required_samples (take required_samples (xs @ epochs (pbm s) is) @ epochs (pbm s) (level_order ?nx n ws))))" by simp
  have "take required_samples (take required_samples (xs @ epochs (pbm s) is) @ epochs (pbm s) (level_order ?nx n ws))
      = take required_samples (xs @ epochs (pbm s) (level_order ?nx (Suc n) is))"
    using ws(3) Suc.prems(1) by (cases "length (xs @ epochs (pbm s) is) < required_samples") (auto simp: min_absorb1)
  with rest ws(1) Suc.prems(1) show ?case by (cases "is = []") (auto simp del: traverse_levels.simps(2) simp: traverse_levels.simps(2) [of _ _ _ "Suc n"])
qed simp

lemma sample_batch:
  assumes "pt_wf (pbm s)" and "partition_ok s" and "length xs \<le> required_samples"
  shows "(case next_batch s of ((b, e), s) \<Rightarrow>
      batch_traverse_hashtable (Suc (length (bfs (pbm s)))) sample_frame (\<lambda>i st. nextF (pbf (fst st) i)) (\<lambda>st. Some (Inr st)) b e (s, xs))
    = Some (Inr (snd (next_batch s), take required_samples (xs @ epochs (pbm s) (frames_of (pbm s) (fst (fst (next_batch s))) (snd (fst (next_batch s)))))))"
proof -
  obtain b e s' where nb: "next_batch s = ((b, e), s')" by (metis prod.exhaust)
  note st = next_batch_step [OF assms(2), unfolded nb]
  then have s': "pbm s' = pbm s" and r: "e \<le> unat (ptsize (pbm s))" "e - b \<le> pp_batch_size" using assms(2) by (auto simp: partition_ok_def min_def)
  have "levels (\<lambda>i. nextF (pbf s' i)) (length (bfs (pbm s'))) [b..<e] = []"
    using bucket_levels [OF assms(1) r(1)] s' by (simp add: pbf_def)
  from sample_levels [OF assms(3) this] show ?thesis
    using nb r(2) s' by (simp add: batch_traverse_hashtable_def frames_of_def pbf_def del: traverse_levels.simps)
qed

text \<open>The distance from the next batch to a bucket, in buckets, going around the partition.\<close>

definition distance :: "nat \<Rightarrow> provider \<Rightarrow> nat" where
  "distance k s =
     (let here = part_begin s + current_batch_offset s
      in if here \<le> k then k - here else 2 * (part_end s - part_begin s) - current_batch_offset s)"

lemma next_batch_distance:
  assumes "partition_ok s" and "part_begin s \<le> k" and "k < part_end s"
  shows "distance k s \<le> 2 * (part_end s - part_begin s)"
    and "k \<in> {fst (fst (next_batch s))..<snd (fst (next_batch s))} \<or> distance k (snd (next_batch s)) < distance k s"
  using assms unfolding next_batch_step [OF assms(1)] by (auto simp: partition_ok_def distance_def Let_def pp_batch_size_def)

lemma range_in_partition:
  assumes "partition_ok s"
  shows "fst (fst (next_batch s)) \<ge> part_begin s" "snd (fst (next_batch s)) \<le> part_end s"
  unfolding next_batch_step [OF assms] by simp_all

text \<open>One more batch of samples.\<close>

lemma sample_step:
  assumes "pt_wf (pbm s)" and "partition_ok s" and "length xs < required_samples"
  shows "\<exists>ys. sample_epochs (Suc n) (s, xs) = sample_epochs n (snd (next_batch s), xs @ ys) \<and> length (xs @ ys) \<le> required_samples
    \<and> set ys \<subseteq> set (epochs (pbm s) (frames_of (pbm s) (part_begin s) (part_end s)))
    \<and> (\<forall>k i. k \<in> {fst (fst (next_batch s))..<snd (fst (next_batch s))} \<and> i \<in> set (k # chains (pbm s) k) \<and> in_use (pbm s) i \<longrightarrow> ys \<noteq> [])"
proof -
  obtain b e s' where nb: "next_batch s = ((b, e), s')" by (metis prod.exhaust)
  note st = next_batch_step [OF assms(2), unfolded nb] and pr = range_in_partition [OF assms(2), unfolded nb]
  have sz: "part_end s \<le> unat (ptsize (pbm s))" using assms(2) by (simp add: partition_ok_def)
  then have e: "e \<le> unat (ptsize (pbm s))" using pr by simp
  let ?E = "epochs (pbm s) (frames_of (pbm s) b e)"
  define ys where "ys = take (required_samples - length xs) ?E"
  have tk: "take required_samples (xs @ ?E) = xs @ ys" using assms(3) by (simp add: ys_def)
  have "sample_epochs (Suc n) (s, xs) = sample_epochs n (s', xs @ ys)"
    using sample_batch [OF assms(1,2), of xs] assms(3) nb tk by simp
  moreover have "length (xs @ ys) \<le> required_samples" using assms(3) by (simp add: ys_def)
  moreover have "set (frames_of (pbm s) b e) \<subseteq> set (frames_of (pbm s) (part_begin s) (part_end s))"
    using pr unfolding frames_of_set [OF assms(1) e] frames_of_set [OF assms(1) sz] by fastforce
  then have "set ys \<subseteq> set (epochs (pbm s) (frames_of (pbm s) (part_begin s) (part_end s)))"
    unfolding ys_def epochs_def using set_take_subset by fastforce
  moreover have "ys \<noteq> []" if "k \<in> {b..<e}" "i \<in> set (k # chains (pbm s) k)" "in_use (pbm s) i" for k i
  proof -
    have "i \<in> set (frames_of (pbm s) b e)" using that(1,2) unfolding frames_of_set [OF assms(1) e] by auto
    then have "?E \<noteq> []" using that(3) by (auto simp: epochs_def filter_empty_conv)
    then show ?thesis using assms(3) by (simp add: ys_def)
  qed
  ultimately show ?thesis using nb by auto
qed

lemma sample_epochs_full: "length xs = required_samples \<Longrightarrow> sample_epochs (Suc n) (s, xs) = Some (Inr (s, xs))"
  by simp

lemma next_batch_sel:
  assumes "partition_ok s"
  shows "pbm (snd (next_batch s)) = pbm s" "part_begin (snd (next_batch s)) = part_begin s" "part_end (snd (next_batch s)) = part_end s"
    "\<exists>off. snd (next_batch s) = s\<lparr>current_batch_offset := off\<rparr>"
  unfolding next_batch_step [OF assms] by auto

lemma sample_epochs_returns:
  assumes "pt_wf (pbm s)" and "partition_ok s" and "part_begin s \<le> k" "k < part_end s" and "i \<in> set (k # chains (pbm s) k)" and "in_use (pbm s) i"
    and "length xs \<le> required_samples"
    and "(required_samples - length xs) * (2 * (part_end s - part_begin s) + 1) + distance k s < n"
  shows "\<exists>off ys. sample_epochs n (s, xs) = Some (Inr (s\<lparr>current_batch_offset := off\<rparr>, xs @ ys)) \<and> length (xs @ ys) = required_samples
    \<and> set ys \<subseteq> set (epochs (pbm s) (frames_of (pbm s) (part_begin s) (part_end s)))"
  using assms
proof (induction n arbitrary: s xs)
  case (Suc n)
  show ?case
  proof (cases "length xs = required_samples")
    case True
    then show ?thesis by (intro exI [of _ "current_batch_offset s"] exI [of _ "[]"]) (simp add: sample_epochs_full del: sample_epochs.simps)
  next
    case False
    let ?s = "snd (next_batch s)"
    define M where "M = 2 * (part_end s - part_begin s) + 1"
    note sel = next_batch_sel [OF Suc.prems(2)]
    obtain ys where ys: "sample_epochs (Suc n) (s, xs) = sample_epochs n (?s, xs @ ys)" "length (xs @ ys) \<le> required_samples"
      "set ys \<subseteq> set (epochs (pbm s) (frames_of (pbm s) (part_begin s) (part_end s)))"
      "k \<in> {fst (fst (next_batch s))..<snd (fst (next_batch s))} \<Longrightarrow> ys \<noteq> []"
      using sample_step [OF Suc.prems(1,2), of xs n] False Suc.prems(5,6,7) by auto
    have d: "distance k ?s < M" using next_batch_distance(1) [OF partition_ok_step [OF Suc.prems(2)], of k] Suc.prems(3,4) sel by (simp add: M_def)
    have lt: "(required_samples - length xs) * M + distance k s < Suc n" using Suc.prems(8) unfolding M_def .
    have "(required_samples - length (xs @ ys)) * M + distance k ?s < n"
    proof (cases "ys = []")
      case True
      with ys(4) next_batch_distance(2) [OF Suc.prems(2,3,4)] have "distance k ?s < distance k s" by blast
      with True lt show ?thesis by simp
    next
      case False
      then have "required_samples - length (xs @ ys) + 1 \<le> required_samples - length xs" using ys(2) by (cases ys) auto
      then have "(required_samples - length (xs @ ys) + 1) * M \<le> (required_samples - length xs) * M" by (rule mult_le_mono1)
      with d lt show ?thesis unfolding add_mult_distrib mult_1 by linarith
    qed
    then have "(required_samples - length (xs @ ys)) * (2 * (part_end s - part_begin s) + 1) + distance k ?s < n" unfolding M_def .
    with Suc.IH [of ?s "xs @ ys"] Suc.prems(1,3-6) partition_ok_step [OF Suc.prems(2)] sel(1-3) ys(2)
    obtain off zs where "sample_epochs n (?s, xs @ ys) = Some (Inr (?s\<lparr>current_batch_offset := off\<rparr>, (xs @ ys) @ zs))" "length ((xs @ ys) @ zs) = required_samples"
      "set zs \<subseteq> set (epochs (pbm s) (frames_of (pbm s) (part_begin s) (part_end s)))" by auto
    with ys(1,3) sel(4) show ?thesis by (intro exI [of _ off] exI [of _ "ys @ zs"]) (auto simp del: sample_epochs.simps)
  qed
qed simp

lemma sample_epochs_stuck:
  assumes "pt_wf (pbm s)" and "partition_ok s" and "length xs < required_samples"
    and "\<And>i. i \<in> set (frames_of (pbm s) (part_begin s) (part_end s)) \<Longrightarrow> \<not> in_use (pbm s) i"
  shows "sample_epochs n (s, xs) = None"
  using assms
proof (induction n arbitrary: s)
  case (Suc n)
  have "epochs (pbm s) (frames_of (pbm s) (part_begin s) (part_end s)) = []" using Suc.prems(4) by (simp add: epochs_def)
  then have "sample_epochs (Suc n) (s, xs) = sample_epochs n (snd (next_batch s), xs)"
    using sample_step [OF Suc.prems(1-3), of n] by auto
  also have "\<dots> = None"
    using Suc.IH [of "snd (next_batch s)"] Suc.prems partition_ok_step next_batch_sel [OF Suc.prems(2)] by simp
  finally show ?case .
qed simp

section \<open>The page provider sees every page\<close>

definition idle_provider :: "bufmgr \<Rightarrow> nat \<Rightarrow> nat \<Rightarrow> nat \<Rightarrow> provider" where
  "idle_provider m b e n = \<lparr>pbm = m, privatePageBuffer = \<lparr>rb_size = 4, rb_data = replicate 4 None, rb_front = 0, rb_count = 0\<rparr>,
     async_writes = \<lparr>batch_max_size = 128, ready_to_submit = 0, outstanding_ios = 0, commands = [], iocbs_ptr = [], in_flight = [],
       free_slots = \<lparr>rb_size = 4, rb_data = replicate 4 0, rb_front = 0, rb_count = 0\<rparr>\<rparr>,
     pp_cctxs = replicate n new_pp_ctx, req_mailboxes = replicate n 0, incoming = replicate n new_EvictionRequest,
     respMailboxes = replicate n 0, respIncoming = replicate n new_EvictionResponse, pp_posted = [],
     part_begin = b, part_end = e, totalEvictions = 0, evictedCounter = 0, tmpPages = 0, current_batch_offset = 0,
     sampling_needed = True, eviction_window = 0\<rparr>"

text \<open>C23: the traversal of a range of at most 128 buckets of a well-formed table ends.  It visits exactly the frames of
  these buckets and of their overflow chains, each of them once, whatever is done at a frame that leaves the links
  alone.\<close>

theorem traversal_visits_once:
  fixes visit :: "fref \<Rightarrow> 's \<Rightarrow> 's"
  assumes "pt_wf m" and "e \<le> unat (ptsize m)" and "e - b \<le> pp_batch_size"
  shows "\<exists>order. distinct order \<and> set order = (\<Union>k\<in>{b..<e}. insert k (set (chains m k)))
    \<and> batch_traverse_hashtable (Suc (length (bfs m))) (\<lambda>i s. (True, visit i s)) (\<lambda>i _. nextF (bfs m ! i)) (\<lambda>s. Some (Inr s)) b e s
      = Some (Inr (fold visit order s))"
proof -
  have "batch_traverse_hashtable (Suc (length (bfs m))) (\<lambda>i s. (True, visit i s)) (\<lambda>i _. nextF (bfs m ! i)) (\<lambda>s. Some (Inr s)) b e s
      = Some (Inr (fold visit (frames_of m b e) s))"
    using traverse_levels_all [of "\<lambda>i s. (True, visit i s)" visit "\<lambda>i _. nextF (bfs m ! i)" "\<lambda>i. nextF (bfs m ! i)", OF refl refl bucket_levels [OF assms(1,2)]] assms(3)
    by (simp add: batch_traverse_hashtable_def frames_of_def del: traverse_levels.simps)
  with distinct_frames_of [OF assms(1,2)] frames_of_set [OF assms(1,2)] show ?thesis by blast
qed

theorem traversal_visits_once_witness:
  "\<exists>order. distinct order \<and> {0, 1} \<subseteq> set order
    \<and> batch_traverse_hashtable 5 (\<lambda>i log. (True, i # log)) (\<lambda>i _. nextF (bfs small_bm ! i)) (\<lambda>s. Some (Inr s)) 0 2 [] = Some (Inr (fold (\<lambda>i log. i # log) order []))"
proof -
  have l: "length (bfs small_bm) = 4" "unat (ptsize small_bm) = 2" by (simp_all add: small_bm_def fresh_frames_def)
  have "Suc (length (bfs small_bm)) = 5" using l(1) by simp
  with traversal_visits_once [OF small_bm_wf(1), of 2 0 "\<lambda>i log. i # log" "[]"] l(2)
  obtain order where "distinct order" "set order = (\<Union>k\<in>{0..<2}. insert k (set (chains small_bm k)))"
    "batch_traverse_hashtable 5 (\<lambda>i log. (True, i # log)) (\<lambda>i _. nextF (bfs small_bm ! i)) (\<lambda>s. Some (Inr s)) 0 2 [] = Some (Inr (fold (\<lambda>i log. i # log) order []))"
    by (auto simp: pp_batch_size_def)
  then show ?thesis by (intro exI [of _ order]) auto
qed

text \<open>C28: sampling the epochs ends exactly if some frame of the partition is in use.  Then the eviction window is the
  epoch of such a frame; without one the thread samples forever.\<close>

theorem sampling_returns:
  assumes "pt_wf (pbm s)" and "partition_ok s" and "coolest fl required_samples < required_samples"
  shows "if \<exists>k\<in>{part_begin s..<part_end s}. \<exists>i\<in>set (k # chains (pbm s) k). in_use (pbm s) i
    then \<exists>n s'. sample_window fl n s = Some (Inr s') \<and> \<not> sampling_needed s' \<and> pbm s' = pbm s
           \<and> (\<exists>k\<in>{part_begin s..<part_end s}. \<exists>i\<in>set (k # chains (pbm s) k). in_use (pbm s) i \<and> eviction_window s' = epoch (bfs (pbm s) ! i))
    else \<forall>n. sample_window fl n s = None"
proof -
  have sz: "part_end s \<le> unat (ptsize (pbm s))" using assms(2) by (simp add: partition_ok_def)
  note fr = frames_of_set [OF assms(1) sz, of "part_begin s"]
  show ?thesis
  proof (cases "\<exists>k\<in>{part_begin s..<part_end s}. \<exists>i\<in>set (k # chains (pbm s) k). in_use (pbm s) i")
    case True
    then obtain k i where k: "part_begin s \<le> k" "k < part_end s" "i \<in> set (k # chains (pbm s) k)" "in_use (pbm s) i" by (meson atLeastLessThan_iff)
    obtain n where n: "(required_samples - length ([] :: u64 list)) * (2 * (part_end s - part_begin s) + 1) + distance k s < n" by blast
    obtain off ys where ys: "sample_epochs n (s, []) = Some (Inr (s\<lparr>current_batch_offset := off\<rparr>, ys))" "length ys = required_samples"
      "set ys \<subseteq> set (epochs (pbm s) (frames_of (pbm s) (part_begin s) (part_end s)))"
      using sample_epochs_returns [OF assms(1,2) k _ n] by auto
    let ?w = "sort ys ! coolest fl required_samples"
    have "?w \<in> set (sort ys)" using assms(3) ys(2) by (intro nth_mem) simp
    then have "?w \<in> set (epochs (pbm s) (frames_of (pbm s) (part_begin s) (part_end s)))" using ys(3) by auto
    then obtain x where x: "x \<in> set (frames_of (pbm s) (part_begin s) (part_end s))" "in_use (pbm s) x" "?w = epoch (bfs (pbm s) ! x)"
      unfolding epochs_def by auto
    then obtain k' where "k' \<in> {part_begin s..<part_end s}" "x \<in> set (k' # chains (pbm s) k')" unfolding fr by auto
    with x(2,3) have "\<exists>k\<in>{part_begin s..<part_end s}. \<exists>i\<in>set (k # chains (pbm s) k). in_use (pbm s) i \<and> ?w = epoch (bfs (pbm s) ! i)" by blast
    moreover have "sample_window fl n s = Some (Inr (s\<lparr>current_batch_offset := off, eviction_window := ?w, sampling_needed := False\<rparr>))"
      using ys assms(3) by (simp add: sample_window_def)
    ultimately have "\<exists>n s'. sample_window fl n s = Some (Inr s') \<and> \<not> sampling_needed s' \<and> pbm s' = pbm s
        \<and> (\<exists>k\<in>{part_begin s..<part_end s}. \<exists>i\<in>set (k # chains (pbm s) k). in_use (pbm s) i \<and> eviction_window s' = epoch (bfs (pbm s) ! i))"
      by (intro exI conjI) (assumption | simp)+
    then show ?thesis unfolding if_P [OF True] .
  next
    case False
    then have "\<not> in_use (pbm s) i" if "i \<in> set (frames_of (pbm s) (part_begin s) (part_end s))" for i
      using that unfolding fr by auto
    then have "sample_epochs n (s, []) = None" for n
      using sample_epochs_stuck [OF assms(1,2), of "[]"] by (simp add: required_samples_def)
    then show ?thesis unfolding if_not_P [OF False] by (simp add: sample_window_def)
  qed
qed

theorem sampling_returns_witness:
  "sample_window \<lparr>pp_nodes = 2, evict_to_ssd = True, prob_SSD = 1000, freeBFLimit = 1, coolingBFLimit = 1, epoch_due = (\<lambda>_ _. False), coolest = (\<lambda>n. n div 10)\<rparr>
     17 (idle_provider small_bm 0 2 2) = None"
proof -
  let ?fl = "\<lparr>pp_nodes = 2, evict_to_ssd = True, prob_SSD = 1000, freeBFLimit = 1, coolingBFLimit = 1, epoch_due = (\<lambda>_ _. False), coolest = (\<lambda>n. n div 10)\<rparr>"
  let ?s = "idle_provider small_bm 0 2 2"
  have s: "pbm ?s = small_bm" "part_begin ?s = 0" "part_end ?s = 2" by (simp_all add: idle_provider_def)
  have free: "bfs small_bm ! 0 = new_BufferFrame\<lparr>isHtBucket := True\<rparr>" "bfs small_bm ! 1 = new_BufferFrame\<lparr>isHtBucket := True\<rparr>"
    by (simp_all add: small_bm_def fresh_nth)
  have "partition_ok ?s" by (simp add: partition_ok_def idle_provider_def small_bm_def)
  moreover have "\<not> (\<exists>k\<in>{part_begin ?s..<part_end ?s}. \<exists>i\<in>set (k # chains (pbm ?s) k). in_use (pbm ?s) i)"
    unfolding s using free by (auto simp: chains_def new_BufferFrame_def in_use_def numeral_2_eq_2 less_Suc_eq)
  ultimately show ?thesis
    using sampling_returns [of ?s ?fl] small_bm_wf(1) s(1) by (simp add: required_samples_def)
qed

text \<open>C29: every page of the table belongs to exactly one of the page provider's threads, the one of the partition of its
  bucket, and every pass of that thread over its partition considers the page; a pass takes one batch per 128 buckets
  and the next one starts where it started.\<close>

theorem every_page_considered:
  assumes "pt_wf m" and "0 < t" and "t \<le> unat (ptsize m)" and "table m p = Some i"
  shows "\<exists>ps j. pp_partitions (unat (ptsize m)) t = Inr ps \<and> j < t \<and> (\<forall>j'<t. bucket m p \<in> {fst (ps ! j')..<snd (ps ! j')} \<longleftrightarrow> j' = j)
    \<and> (\<forall>s. pbm s = m \<and> (part_begin s, part_end s) = ps ! j \<and> current_batch_offset s = 0 \<longrightarrow>
         (\<exists>k. k * pp_batch_size < part_end s - part_begin s + pp_batch_size \<and> snd (batches k s) = s
            \<and> (\<exists>(b, e)\<in>set (fst (batches k s)). i \<in> set (frames_of m b e))))"
proof -
  let ?n = "unat (ptsize m)"
  obtain ps where ps: "pp_partitions ?n t = Inr ps" "length ps = t" "concat (map (\<lambda>(b, e). [b..<e]) ps) = [0..<?n]" "\<forall>(b, e)\<in>set ps. b < e \<and> e \<le> ?n"
    "\<forall>j<t. \<forall>i<j. snd (ps ! i) \<le> fst (ps ! j)"
    using partitions_ok [OF assms(2,3)] by blast
  have "bucket m p < ?n" using bucket_lt [OF assms(1) [unfolded pt_wf_def]] .
  then have "bucket m p \<in> set (concat (map (\<lambda>(b, e). [b..<e]) ps))" unfolding ps(3) by simp
  then obtain r where "r \<in> set ps" "bucket m p \<in> {fst r..<snd r}" by auto
  then obtain j where j: "j < t" "bucket m p \<in> {fst (ps ! j)..<snd (ps ! j)}" using ps(2) by (metis in_set_conv_nth)
  have uniq: "j' = j" if "j' < t" "bucket m p \<in> {fst (ps ! j')..<snd (ps ! j')}" for j'
    using ps(5) j that by (metis atLeastLessThan_iff leD le_trans less_or_eq_imp_le linorder_neqE_nat not_less)
  have "\<exists>k. k * pp_batch_size < part_end s - part_begin s + pp_batch_size \<and> snd (batches k s) = s \<and> (\<exists>(b, e)\<in>set (fst (batches k s)). i \<in> set (frames_of m b e))"
    if s: "pbm s = m" "(part_begin s, part_end s) = ps ! j" "current_batch_offset s = 0" for s
  proof -
    have r: "part_begin s < part_end s" "part_end s \<le> ?n" using ps(2,4) j(1) s(2) by (metis (mono_tags, lifting) case_prodD nth_mem)+
    then have ok: "partition_ok s" using s by (simp add: partition_ok_def)
    obtain k where k: "k * pp_batch_size < part_end s - part_begin s + pp_batch_size" "concat (map (\<lambda>(b, e). [b..<e]) (fst (batches k s))) = [part_begin s..<part_end s]"
      "snd (batches k s) = s\<lparr>current_batch_offset := 0\<rparr>"
      using batches_cover [OF ok] s(3) by auto
    have "s\<lparr>current_batch_offset := 0\<rparr> = s" using s(3) by (cases s) simp
    moreover have "bucket m p \<in> set (concat (map (\<lambda>(b, e). [b..<e]) (fst (batches k s))))" using j(2) s(2) unfolding k(2) by (metis atLeastLessThan_upt fst_conv snd_conv)
    then obtain b e where be: "(b, e) \<in> set (fst (batches k s))" "bucket m p \<in> {b..<e}" by auto
    moreover have "set [b..<e] \<subseteq> set (concat (map (\<lambda>(b, e). [b..<e]) (fst (batches k s))))" using be(1) by force
    then have "e \<le> ?n" using be(2) r(2) unfolding k(2) by (metis atLeastLessThan_upt atLeastLessThan_iff ivl_subset le_trans not_less order_less_le_trans)
    then have "i \<in> set (frames_of m b e)" using table_in_frames [OF assms(1) _ assms(4) be(2)] by blast
    ultimately show ?thesis using k by (intro exI [of _ k]) auto
  qed
  with ps(1) j uniq show ?thesis by (intro exI [of _ ps] exI [of _ j]) blast
qed

theorem every_page_considered_witness:
  "\<exists>m i ps. newPage [\<lambda>m. m] small_bm = Some (Inr (m, i)) \<and> pp_partitions (unat (ptsize m)) 1 = Inr ps
     \<and> bucket m (mk_PID 1 5) \<in> {fst (ps ! 0)..<snd (ps ! 0)}"
proof -
  obtain m i where m: "newPage [\<lambda>m. m] small_bm = Some (Inr (m, i))" "pt_wf m" "table m = [mk_PID 1 5 \<mapsto> i]"
    using newPage_ok [OF small_bm_wf(1), of "mk_PID 1 5" "[mk_PID 1 6]" 512 "[1024]" "[]"] small_bm_wf(2) example_pid by (auto simp: small_bm_def)
  have "1 \<le> unat (ptsize m)" using bucket_lt [OF m(2) [unfolded pt_wf_def], of "mk_PID 1 5"] by simp
  with every_page_considered [OF m(2), of 1 "mk_PID 1 5" i] m(3)
  obtain ps where "pp_partitions (unat (ptsize m)) 1 = Inr ps" "bucket m (mk_PID 1 5) \<in> {fst (ps ! 0)..<snd (ps ! 0)}" by auto
  with m(1) show ?thesis by blast
qed

end
