(* ===== verification/PageProvider_Proof.thy ===== *)
theory PageProvider_Proof
  imports PageProvider_Traverse "HOL-Library.Sublist"
begin

text \<open>
  What evictions do to the directory of a page, without a disk to evict to (\<open>evict_to_ssd\<close> is off, its default): the
  evicting node leaves the possessors, and the owner takes the page over instead of losing its last copy.  What the
  answer to an eviction request does to the frames it was for.
\<close>

section \<open>The directory under evictions\<close>

definition dir_evict :: "NodeID \<Rightarrow> NodeID \<Rightarrow> directory \<Rightarrow> directory" where
  "dir_evict node client d = d\<lparr>d_holders := (if d_holders d - {client} = {} then {node} else d_holders d - {client})\<rparr>"

lemma bm64_count_nodes: "bm64_count w = card (bm64_nodes w)"
  using sorted_bits_of [of w] by (simp add: bm64_count_def popcountll_def bm64_nodes_def distinct_card strict_sorted_iff)

lemma finite_nodes [simp]: "finite (bm64_nodes w)"
  by (rule finite_subset [of _ "{..<64}"]) (use bm64_nodes_lt in auto)

lemma bm64_none_nodes: "bm64_none w \<longleftrightarrow> bm64_nodes w = {}"
  by (simp add: bm64_none_def bm64_nodes_empty_iff)

lemma holders_upd_shared:
  assumes "possession f = SHARED_P" and "unat n < MAX_NODES"
  shows "holders (f\<lparr>possessors := bm64_reset (possessors f) n\<rparr>) = holders f - {n}"
  using assms by (auto simp: holders_shared bm64_nodes_reset word_unat_eq_iff)

lemma shared_singleton:
  assumes "possession f = SHARED_P" and "unat n < MAX_NODES"
  shows "holders f - {n} = {} \<longleftrightarrow> bm64_nodes (possessors f) - {unat n} = {}"
  unfolding unat_holders_shared [OF assms(1), symmetric] by (auto simp: word_unat_eq_iff)

text \<open>The decision about the request of another node to evict its copy.\<close>

lemma take_back_ok:
  assumes "dir_frame node f" and "unat node < MAX_NODES" and "client \<in> holders f" and "client \<noteq> node"
  shows "\<exists>f'. take_back False node client f = Inr (holders f - {client} = {}, f') \<and> dir_of f' = dir_evict node client (dir_of f)
    \<and> f' = f\<lparr>possessors := possessors f'\<rparr>"
proof (cases "possession f")
  case NOBODY
  with assms(1) show ?thesis by (simp add: dir_frame_def)
next
  case EXCLUSIVE_P
  then have "possessors f = client" "holders f = {client}" using assms(3) by (auto simp: holders_exclusive)
  with EXCLUSIVE_P assms(2) show ?thesis
    by (auto simp: take_back_def dir_of_def dir_evict_def holders_exclusive)
next
  case SHARED_P
  have cl: "unat client < MAX_NODES" "bm64_test (possessors f) client" using assms(3) SHARED_P by (auto simp: holders_def isPossessor_def)
  let ?p = "bm64_reset (possessors f) client"
  have none: "bm64_none ?p \<longleftrightarrow> holders f - {client} = {}"
    using shared_singleton [OF SHARED_P cl(1)] bm64_nodes_reset [OF cl(1), of "possessors f"] by (simp add: bm64_none_nodes)
  have "holders (f\<lparr>possessors := bm64_set ?p node\<rparr>) = {node}" if "bm64_none ?p"
    using that SHARED_P assms(2) by (auto simp: holders_shared bm64_nodes_set bm64_none_nodes word_unat_eq_iff)
  with none holders_upd_shared [OF SHARED_P cl(1)] show ?thesis
    using SHARED_P cl(2) by (cases "bm64_none ?p") (simp_all add: take_back_def dir_of_def dir_evict_def)
qed

section \<open>Pages of the provider\<close>

definition buffer_ok :: "provider \<Rightarrow> bool" where
  "buffer_ok s \<longleftrightarrow> rb_ok (privatePageBuffer s)"

definition free_pages :: "provider \<Rightarrow> addr option multiset" where
  "free_pages s = mset (rb_items (privatePageBuffer s)) + image_mset Some (mset (pageFree (pbm s)))"

lemma rb_room:
  assumes "rb_ok r"
  shows "\<not> rb_full r \<longleftrightarrow> length (rb_items r) < length (rb_data r)"
proof -
  obtain k where k: "k \<le> 31" "rb_size r = 2 ^ k" "length (rb_data r) = 2 ^ k" "unat (rb_count r) \<le> 2 ^ k" by (rule rb_okE [OF assms])
  have "unat (2 ^ k :: u64) = 2 ^ k" using k(1) by (intro unat_pow2) simp
  with k show ?thesis by (auto simp: rb_full_def rb_items_def word_unat_eq_iff)
qed

lemma rb_empty_items: "rb_empty r \<Longrightarrow> rb_items r = []"
  by (simp add: rb_empty_def rb_items_def)

lemma keep_page_ok:
  assumes "buffer_ok s" and "page = Some a"
  shows "\<exists>s'. keep_page page s = Inr s' \<and> buffer_ok s' \<and> free_pages s' = add_mset page (free_pages s) \<and> bfs (pbm s') = bfs (pbm s)
    \<and> (\<exists>r as. s' = s\<lparr>privatePageBuffer := r, pbm := (pbm s)\<lparr>pageFree := as\<rparr>\<rparr>)"
proof (cases "rb_full (privatePageBuffer s)")
  case True
  with assms show ?thesis
    by (intro exI [of _ "s\<lparr>pbm := (pbm s)\<lparr>pageFree := a # pageFree (pbm s)\<rparr>\<rparr>"]) (auto simp: keep_page_def buffer_ok_def free_pages_def intro!: exI [of _ "privatePageBuffer s"])
next
  case False
  then obtain r where "rb_add page (privatePageBuffer s) = Inr r" "rb_ok r" "rb_items r = rb_items (privatePageBuffer s) @ [page]"
    using rb_add_ok [of "privatePageBuffer s" page] rb_room [of "privatePageBuffer s"] assms(1) by (auto simp: buffer_ok_def)
  with False show ?thesis
    by (intro exI [of _ "s\<lparr>privatePageBuffer := r\<rparr>"]) (auto simp: keep_page_def buffer_ok_def free_pages_def intro!: exI [of _ r] exI [of _ "pageFree (pbm s)"])
qed

section \<open>Evicting a page of this node\<close>

lemma pbf_upd:
  assumes "i < length (bfs (pbm s))"
  shows "pbf (upd_pbf i u s) i = u (pbf s i)"
  using assms by (simp add: pbf_def upd_pbf_def upd_frame_def)

lemma upd_pbf_sel [simp]:
  "length (bfs (pbm (upd_pbf i u s))) = length (bfs (pbm s))" "privatePageBuffer (upd_pbf i u s) = privatePageBuffer s" "pageFree (pbm (upd_pbf i u s)) = pageFree (pbm s)"
  "bmNode (pbm (upd_pbf i u s)) = bmNode (pbm s)" "pp_cctxs (upd_pbf i u s) = pp_cctxs s"
  by (simp_all add: upd_pbf_def upd_frame_def)

lemma buffer_ok_upd [simp]: "buffer_ok (upd_pbf i u s) \<longleftrightarrow> buffer_ok s" "free_pages (upd_pbf i u s) = free_pages s"
  "buffer_ok (count_eviction s) \<longleftrightarrow> buffer_ok s" "free_pages (count_eviction s) = free_pages s" "pbf (count_eviction s) i = pbf s i" "pbm (count_eviction s) = pbm s"
  by (simp_all add: buffer_ok_def free_pages_def count_eviction_def pbf_def)

lemma unlatch_pbf_ok:
  assumes "i < length (bfs (pbm s))" and "latch_ok (bflatch (pbf s i))" and "isLatched (bflatch (pbf s i))"
  shows "\<exists>l. unlatch_pbf i s = Inr (upd_pbf i (\<lambda>f. f\<lparr>bflatch := l\<rparr>) s) \<and> latch_ok l \<and> \<not> isLatched l"
proof -
  obtain l where "unlatchExclusive (bflatch (pbf s i)) = Inr l" "latch_ok l" "\<not> isLatched l" by (rule unlatch_latched [OF assms(2,3)])
  then show ?thesis by (auto simp: unlatch_pbf_def)
qed

text \<open>The frame after the owner evicted its page: out of the possessors, unless it is the last of them.\<close>

definition owner_evicted :: "NodeID \<Rightarrow> BufferFrame \<Rightarrow> BufferFrame" where
  "owner_evicted node f =
     (if possession f = SHARED_P \<and> holders f \<noteq> {node} then f\<lparr>possessors := bm64_reset (possessors f) node, pageP := None, state := EVICTED\<rparr> else f)"

lemma owner_evicted_ok:
  assumes "owner_frame node f" and "state f = HOT"
  shows "owner_frame node (owner_evicted node f)" and "dir_of (owner_evicted node f) = dir_evict node node (dir_of f)"
proof -
  have n: "unat node < MAX_NODES" "node \<in> holders f" "dir_frame node f" using assms by (auto simp: owner_frame_def dir_frame_def)
  have h: "holders (owner_evicted node f) = (if holders f - {node} = {} then {node} else holders f - {node})"
  proof (cases "possession f = SHARED_P \<and> holders f \<noteq> {node}")
    case True
    have "holders (f\<lparr>possessors := bm64_reset (possessors f) node, pageP := None, state := EVICTED\<rparr>) = holders (f\<lparr>possessors := bm64_reset (possessors f) node\<rparr>)"
      using True by (simp add: holders_shared)
    with True n holders_upd_shared [of f node] show ?thesis by (auto simp: owner_evicted_def)
  next
    case False
    then have "holders f = {node}" using n(2,3) by (cases "possession f") (auto simp: dir_frame_def holders_exclusive)
    with False show ?thesis by (auto simp: owner_evicted_def)
  qed
  then show "dir_of (owner_evicted node f) = dir_evict node node (dir_of f)"
    by (simp add: dir_of_def dir_evict_def owner_evicted_def)
  show "owner_frame node (owner_evicted node f)"
  proof (cases "possession f = SHARED_P \<and> holders f \<noteq> {node}")
    case True
    then have "state (owner_evicted node f) = EVICTED" "pageP (owner_evicted node f) = None" "possession (owner_evicted node f) = SHARED_P"
      by (simp_all add: owner_evicted_def)
    moreover have "holders (owner_evicted node f) \<noteq> {}" "node \<notin> holders (owner_evicted node f)" using True n(2) h by auto
    ultimately show ?thesis using n(1) by (simp add: owner_frame_def dir_frame_def)
  next
    case False
    with assms(1) show ?thesis by (auto simp: owner_evicted_def)
  qed
qed

text \<open>The pages of the provider and of a frame.\<close>

definition pages_with :: "provider \<Rightarrow> fref \<Rightarrow> addr option multiset" where
  "pages_with s i = free_pages s + (case pageP (pbf s i) of None \<Rightarrow> {#} | Some a \<Rightarrow> {#Some a#})"

lemma evict_owner_page_ok:
  assumes fl: "\<not> evict_to_ssd fl" and i: "i < length (bfs (pbm s))" and b: "buffer_ok s"
    and f: "owner_frame (bmNode (pbm s)) (pbf s i)" "state (pbf s i) = HOT" "latch_ok (bflatch (pbf s i))" "isLatched (bflatch (pbf s i))"
  shows "\<exists>s' l. evict_owner_page fl e i ep s = Some (Inr (True, s')) \<and> pbf s' i = (owner_evicted (bmNode (pbm s)) (pbf s i))\<lparr>bflatch := l\<rparr>
    \<and> latch_ok l \<and> \<not> isLatched l \<and> buffer_ok s' \<and> pages_with s' i = pages_with s i"
proof -
  let ?node = "bmNode (pbm s)" and ?f = "pbf s i"
  have n: "unat ?node < MAX_NODES" "?node \<in> holders ?f" "isPossessor ?node ?f" using f(1,2) by (auto simp: owner_frame_def dir_frame_def holders_def)
  obtain a where a: "pageP ?f = Some a" using f(1,2) by (auto simp: owner_frame_def)
  show ?thesis
  proof (cases "possession ?f = SHARED_P \<and> holders ?f \<noteq> {?node}")
    case False
    obtain l where l: "unlatch_pbf i s = Inr (upd_pbf i (\<lambda>f. f\<lparr>bflatch := l\<rparr>) s)" "latch_ok l" "\<not> isLatched l"
      using unlatch_pbf_ok [OF i f(3,4)] by blast
    have "bm64_count (possessors ?f) = 1" if sh: "possession ?f = SHARED_P"
    proof -
      have "holders ?f = {?node}" using False sh by blast
      then have "bm64_nodes (possessors ?f) = {unat ?node}" using unat_holders_shared [OF sh] by simp
      then show ?thesis by (simp add: bm64_count_nodes)
    qed
    then have "evict_owner_page fl e i ep s = Some (Inr (True, upd_pbf i (\<lambda>f. f\<lparr>bflatch := l\<rparr>) s))"
      using fl f(2,4) n(3) l(1) by (auto simp: evict_owner_page_def Let_def)
    moreover have "owner_evicted ?node ?f = ?f" using False by (simp only: owner_evicted_def if_False)
    ultimately show ?thesis using l(2,3) b
      by (intro exI [of _ "upd_pbf i (\<lambda>f. f\<lparr>bflatch := l\<rparr>) s"] exI [of _ l]) (simp add: pbf_upd [OF i] pages_with_def)
  next
    case True
    let ?p = "bm64_reset (possessors ?f) ?node"
    have p: "bm64_nodes ?p = bm64_nodes (possessors ?f) - {unat ?node}" using n(1) by (simp add: bm64_nodes_reset)
    have "holders ?f - {?node} \<noteq> {}" using True n(2) by auto
    then have "bm64_nodes ?p \<noteq> {}" using shared_singleton [of ?f ?node] True n(1) unfolding p by blast
    then have pos: "0 < card (bm64_nodes ?p)" by (simp add: card_gt_0_iff)
    have "unat ?node \<in> bm64_nodes (possessors ?f)" using n(2) True by (auto simp: holders_shared)
    then have "card (bm64_nodes (possessors ?f)) = Suc (card (bm64_nodes ?p))" unfolding p by (intro card.remove) simp_all
    with pos have c: "1 \<le> bm64_count ?p" "bm64_count (possessors ?f) \<noteq> 1" "0 < bm64_count (possessors ?f)"
      unfolding bm64_count_nodes by presburger+
    obtain s1 where s1: "keep_page (Some a) s = Inr s1" "buffer_ok s1" "free_pages s1 = add_mset (Some a) (free_pages s)" "bfs (pbm s1) = bfs (pbm s)"
      using keep_page_ok [OF b refl] by blast
    let ?s2 = "count_eviction (upd_pbf i (\<lambda>f. f\<lparr>possessors := ?p, pageP := None, state := EVICTED\<rparr>) s1)"
    have i1: "i < length (bfs (pbm s1))" "pbf s1 i = ?f" using i s1(4) by (simp_all add: pbf_def)
    have f2: "pbf ?s2 i = ?f\<lparr>possessors := ?p, pageP := None, state := EVICTED\<rparr>" using pbf_upd [OF i1(1)] i1(2) by simp
    obtain l where l: "unlatch_pbf i ?s2 = Inr (upd_pbf i (\<lambda>f. f\<lparr>bflatch := l\<rparr>) ?s2)" "latch_ok l" "\<not> isLatched l"
      using unlatch_pbf_ok [of i ?s2] i1(1) f2 f(3,4) by auto
    have "evict_shared ?node i s = Inr ?s2"
      using c f(4) n(3) a s1(1) by (simp add: evict_shared_def Let_def)
    then have "evict_owner_page fl e i ep s = Some (Inr (True, upd_pbf i (\<lambda>f. f\<lparr>bflatch := l\<rparr>) ?s2))"
      using fl f(2,4) n(3) l(1) True c(2) f2 by (simp add: evict_owner_page_def Let_def)
    moreover have "pbf (upd_pbf i (\<lambda>f. f\<lparr>bflatch := l\<rparr>) ?s2) i = (owner_evicted ?node ?f)\<lparr>bflatch := l\<rparr>"
      using pbf_upd [of i ?s2] i1(1) f2 True by (simp add: owner_evicted_def)
    ultimately show ?thesis using l(2,3) s1(2,3) True a
      by (intro exI [of _ "upd_pbf i (\<lambda>f. f\<lparr>bflatch := l\<rparr>) ?s2"] exI [of _ l]) (simp add: pages_with_def owner_evicted_def)
  qed
qed

section \<open>Evicting a page of another node\<close>

text \<open>The response of connection \<open>c\<close> got one more page id.\<close>

definition response_got :: "nat \<Rightarrow> PID \<Rightarrow> provider \<Rightarrow> provider \<Rightarrow> bool" where
  "response_got c p s s' \<longleftrightarrow>
     (let r = current (outgoingResp (pp_cctxs s ! c)); r' = current (outgoingResp (pp_cctxs s' ! c))
      in es_elements r' = es_elements r + 1 \<and> es_pids r' = (es_pids r)[es_elements r := p])"

definition room_for :: "nat \<Rightarrow> provider \<Rightarrow> bool" where
  "room_for c s \<longleftrightarrow> c < length (pp_cctxs s) \<and> es_elements (current (outgoingResp (pp_cctxs s ! c))) < batchSize
     \<and> length (es_pids (current (outgoingResp (pp_cctxs s ! c)))) = batchSize \<and> length (reads (pp_cctxs s ! c)) < batchSize"

lemma upd_pctx_sel [simp]:
  "pbm (upd_pctx c u s) = pbm s" "privatePageBuffer (upd_pctx c u s) = privatePageBuffer s" "pbf (upd_pctx c u s) i = pbf s i"
  "buffer_ok (upd_pctx c u s) \<longleftrightarrow> buffer_ok s" "free_pages (upd_pctx c u s) = free_pages s" "length (pp_cctxs (upd_pctx c u s)) = length (pp_cctxs s)"
  by (simp_all add: upd_pctx_def pbf_def buffer_ok_def free_pages_def)

lemma upd_pctx_nth: "c < length (pp_cctxs s) \<Longrightarrow> pp_cctxs (upd_pctx c u s) ! c = u (pp_cctxs s ! c)"
  by (simp add: upd_pctx_def)

lemma add_response_ok:
  assumes "room_for c s"
  shows "\<exists>r. add_response c p s = Inr (upd_pctx c (\<lambda>x. x\<lparr>outgoingResp := (outgoingResp x)\<lparr>current := r\<rparr>\<rparr>) s)
    \<and> es_elements r = es_elements (current (outgoingResp (pp_cctxs s ! c))) + 1
    \<and> es_pids r = (es_pids (current (outgoingResp (pp_cctxs s ! c))))[es_elements (current (outgoingResp (pp_cctxs s ! c))) := p]"
proof -
  let ?r = "current (outgoingResp (pp_cctxs s ! c))"
  have "add_response c p s = Inr (upd_pctx c (\<lambda>x. x\<lparr>outgoingResp := (outgoingResp x)\<lparr>current := ?r\<lparr>es_pids := (es_pids ?r)[es_elements ?r := p], es_elements := es_elements ?r + 1\<rparr>\<rparr>\<rparr>) s)"
    using assms by (simp add: add_response_def es_add_def array_set_def room_for_def)
  then show ?thesis by (intro exI [of _ "?r\<lparr>es_pids := (es_pids ?r)[es_elements ?r := p], es_elements := es_elements ?r + 1\<rparr>"] conjI) simp_all
qed

text \<open>The request is granted without a read: other copies remain.\<close>

lemma serve_without_read:
  assumes i: "i < length (bfs (pbm s))" and room: "room_for c s" and cl: "unat client < MAX_NODES"
    and f: "possession (pbf s i) = SHARED_P" "holders (pbf s i) - {client} \<noteq> {}" "latch_ok (bflatch (pbf s i))" "isLatched (bflatch (pbf s i))"
  shows "\<exists>s' l. evict_without_read envs c client i s = Some (Inr s') \<and> \<not> isLatched l \<and> latch_ok l \<and> response_got c (pid (pbf s i)) s s'
    \<and> pbf s' i = (pbf s i)\<lparr>possessors := bm64_reset (possessors (pbf s i)) client, bflatch := l\<rparr> \<and> reads (pp_cctxs s' ! c) = reads (pp_cctxs s ! c)"
proof -
  let ?f = "pbf s i" let ?p = "bm64_reset (possessors ?f) client"
  obtain r where r: "add_response c (pid ?f) s = Inr (upd_pctx c (\<lambda>x. x\<lparr>outgoingResp := (outgoingResp x)\<lparr>current := r\<rparr>\<rparr>) s)"
    "es_elements r = es_elements (current (outgoingResp (pp_cctxs s ! c))) + 1"
    "es_pids r = (es_pids (current (outgoingResp (pp_cctxs s ! c))))[es_elements (current (outgoingResp (pp_cctxs s ! c))) := pid ?f]"
    using add_response_ok [OF room] by blast
  let ?s1 = "upd_pctx c (\<lambda>x. x\<lparr>outgoingResp := (outgoingResp x)\<lparr>current := r\<rparr>\<rparr>) s"
  let ?s2 = "upd_pbf i (\<lambda>f. f\<lparr>possessors := bm64_reset (possessors f) client\<rparr>) ?s1"
  have f2: "pbf ?s2 i = ?f\<lparr>possessors := ?p\<rparr>" using pbf_upd [of i ?s1] i by simp
  have "bm64_nodes ?p \<noteq> {}" using f(2) shared_singleton [OF f(1) cl] bm64_nodes_reset [OF cl, of "possessors ?f"] by simp
  then have ne: "\<not> bm64_none ?p" "0 < bm64_count ?p" by (simp_all add: bm64_none_nodes bm64_count_nodes card_gt_0_iff)
  obtain l where l: "unlatch_pbf i ?s2 = Inr (upd_pbf i (\<lambda>f. f\<lparr>bflatch := l\<rparr>) ?s2)" "latch_ok l" "\<not> isLatched l"
    using unlatch_pbf_ok [of i ?s2] i f2 f(3,4) by auto
  let ?s3 = "upd_pbf i (\<lambda>f. f\<lparr>bflatch := l\<rparr>) ?s2"
  have "evict_without_read envs c client i s = Some (Inr ?s3)"
    using f(1,4) r(1) f2 ne l(1) by (simp add: evict_without_read_def Let_def)
  moreover have "pbf ?s3 i = ?f\<lparr>possessors := ?p, bflatch := l\<rparr>" using pbf_upd [of i ?s2] i f2 by simp
  moreover have "response_got c (pid ?f) s ?s3" "reads (pp_cctxs ?s3 ! c) = reads (pp_cctxs s ! c)"
    using room r(2,3) by (simp_all add: response_got_def upd_pctx_nth room_for_def Let_def)
  ultimately show ?thesis using l(2,3) by (intro exI [of _ ?s3] exI [of _ l]) simp
qed

text \<open>It is granted and the page is read: the owner takes the page over.\<close>

lemma serve_with_read:
  assumes i: "i < length (bfs (pbm s))" and room: "room_for c s" and b: "buffer_ok s" "rb_items (privatePageBuffer s) = Some a # pgs"
    and f: "state (pbf s i) = EVICTED" "pageP (pbf s i) = None" "isLatched (bflatch (pbf s i))"
  shows "\<exists>s'. evict_with_read c off i s = Inr s' \<and> response_got c (pid (pbf s i)) s s' \<and> pbf s' i = (pbf s i)\<lparr>pageP := Some a, state := HOT, dirty := True\<rparr>
    \<and> reads (pp_cctxs s' ! c) = reads (pp_cctxs s ! c) @ [(Some a, off)] \<and> latchedFrames (pp_cctxs s' ! c) = latchedFrames (pp_cctxs s ! c) @ [i]"
proof -
  obtain r where r: "rb_remove (privatePageBuffer s) = Inr (Some a, r)" "\<not> rb_empty (privatePageBuffer s)"
    using rb_remove_ok [OF b(1) [unfolded buffer_ok_def] b(2)] b(2) rb_empty_items [of "privatePageBuffer s"] by auto
  let ?s1 = "upd_pbf i (\<lambda>f. f\<lparr>pageP := Some a\<rparr>) (s\<lparr>privatePageBuffer := r\<rparr>)"
  let ?s2 = "upd_pbf i (\<lambda>f. f\<lparr>state := HOT, dirty := True\<rparr>) ?s1"
  have f1: "pbf ?s1 i = (pbf s i)\<lparr>pageP := Some a\<rparr>" using pbf_upd [of i "s\<lparr>privatePageBuffer := r\<rparr>"] i by (simp add: pbf_def)
  have f2: "pbf ?s2 i = (pbf s i)\<lparr>pageP := Some a, state := HOT, dirty := True\<rparr>" using pbf_upd [of i ?s1] i f1 by simp
  have room2: "room_for c ?s2" using room by (simp add: room_for_def)
  obtain q where q: "add_response c (pid (pbf s i)) ?s2 = Inr (upd_pctx c (\<lambda>x. x\<lparr>outgoingResp := (outgoingResp x)\<lparr>current := q\<rparr>\<rparr>) ?s2)"
    "es_elements q = es_elements (current (outgoingResp (pp_cctxs s ! c))) + 1"
    "es_pids q = (es_pids (current (outgoingResp (pp_cctxs s ! c))))[es_elements (current (outgoingResp (pp_cctxs s ! c))) := pid (pbf s i)]"
    using add_response_ok [OF room2] by auto
  let ?s3 = "upd_pctx c (\<lambda>x. x\<lparr>outgoingResp := (outgoingResp x)\<lparr>current := q\<rparr>\<rparr>) ?s2"
  let ?s4 = "upd_pctx c (\<lambda>x. x\<lparr>latchedFrames := latchedFrames x @ [i], reads := reads x @ [(pageP (pbf ?s3 i), off)]\<rparr>) ?s3"
  have c: "c < length (pp_cctxs s)" "length (reads (pp_cctxs s ! c)) < batchSize" using room by (simp_all add: room_for_def)
  have "evict_with_read c off i s = Inr ?s4"
    using f r q(1) f2 c by (simp add: evict_with_read_def Let_def upd_pctx_nth)
  moreover have "response_got c (pid (pbf s i)) s ?s4" using c q(2,3) by (simp add: response_got_def upd_pctx_nth Let_def)
  moreover have "reads (pp_cctxs ?s4 ! c) = reads (pp_cctxs s ! c) @ [(Some a, off)]" "latchedFrames (pp_cctxs ?s4 ! c) = latchedFrames (pp_cctxs s ! c) @ [i]"
    using c f2 by (simp_all add: upd_pctx_nth)
  ultimately show ?thesis using f2 by (intro exI [of _ ?s4]) simp
qed

text \<open>An entry of an eviction request: the directory loses the requester, and the owner has the page afterwards if nobody
  else has it; then the page is read from the requester before the answer.\<close>

lemma serve_entry_ok:
  assumes fl: "\<not> evict_to_ssd fl" and i: "i < length (bfs (pbm s))" and room: "room_for c s" and b: "buffer_ok s" "rb_items (privatePageBuffer s) = Some a # pgs"
    and f: "owner_frame (bmNode (pbm s)) (pbf s i)" "latch_ok (bflatch (pbf s i))" "isLatched (bflatch (pbf s i))"
    and cl: "client \<in> holders (pbf s i)" "client \<noteq> bmNode (pbm s)" and cr: "\<not> copy_in_flight crs (pid (pbf s i))"
  shows "\<exists>s'. serve_entry fl crs envs c client i ee s = Some (Inr s') \<and> response_got c (pid (pbf s i)) s s'
    \<and> owner_frame (bmNode (pbm s)) (pbf s' i) \<and> dir_of (pbf s' i) = dir_evict (bmNode (pbm s)) client (dir_of (pbf s i))
    \<and> (if holders (pbf s i) = {client} then reads (pp_cctxs s' ! c) = reads (pp_cctxs s ! c) @ [(pageP (pbf s' i), ee_offset ee)]
          \<and> latchedFrames (pp_cctxs s' ! c) = latchedFrames (pp_cctxs s ! c) @ [i] \<and> state (pbf s' i) = HOT \<and> isLatched (bflatch (pbf s' i))
       else reads (pp_cctxs s' ! c) = reads (pp_cctxs s ! c) \<and> state (pbf s' i) = state (pbf s i) \<and> \<not> isLatched (bflatch (pbf s' i)))"
proof -
  let ?node = "bmNode (pbm s)" and ?f = "pbf s i"
  have n: "unat ?node < MAX_NODES" "dir_frame ?node ?f" "unat client < MAX_NODES" using f(1) cl(1) by (auto simp: owner_frame_def holders_def)
  obtain g where g: "take_back False ?node client ?f = Inr (holders ?f - {client} = {}, g)" "dir_of g = dir_evict ?node client (dir_of ?f)" "g = ?f\<lparr>possessors := possessors g\<rparr>"
    using take_back_ok [OF n(2,1) cl] by blast
  let ?s1 = "upd_pbf i (\<lambda>_. g) s"
  have s1: "pbf ?s1 i = g" "i < length (bfs (pbm ?s1))" "room_for c ?s1" "buffer_ok ?s1" "rb_items (privatePageBuffer ?s1) = Some a # pgs"
    using pbf_upd [OF i] i room b by (simp_all add: room_for_def)
  have gs: "state g = state ?f" "pageP g = pageP ?f" "bflatch g = bflatch ?f" "pid g = pid ?f" "possession g = possession ?f"
    by (subst g(3), simp)+
  have gh: "holders g = (if holders ?f - {client} = {} then {?node} else holders ?f - {client})" using g(2) by (simp add: dir_of_def dir_evict_def)
  have en: "serve_entry fl crs envs c client i ee s = (if holders ?f - {client} = {} then Some (evict_with_read c (ee_offset ee) i ?s1) else evict_without_read envs c client i ?s1)"
    using fl f(3) cr g(1) by (simp add: serve_entry_def Let_def)
  have sng: "holders ?f - {client} = {} \<longleftrightarrow> holders ?f = {client}" using cl(1) by auto
  show ?thesis
  proof (cases "holders ?f = {client}")
    case True
    then have ev: "state g = EVICTED" "pageP g = None" using f(1) cl(2) gs by (auto simp: owner_frame_def dir_frame_def)
    obtain s' where s': "evict_with_read c (ee_offset ee) i ?s1 = Inr s'" "response_got c (pid g) ?s1 s'" "pbf s' i = g\<lparr>pageP := Some a, state := HOT, dirty := True\<rparr>"
      "reads (pp_cctxs s' ! c) = reads (pp_cctxs s ! c) @ [(Some a, ee_offset ee)]" "latchedFrames (pp_cctxs s' ! c) = latchedFrames (pp_cctxs s ! c) @ [i]"
      using serve_with_read [OF s1(2-5), of "ee_offset ee"] s1(1) ev gs(3) f(3) by auto
    have h: "dir_of (pbf s' i) = dir_of g" unfolding s'(3) by (cases "possession g") (simp_all add: dir_of_def holders_def isPossessor_def)
    have "?node \<in> holders g" using gh True by simp
    then have "possession g = EXCLUSIVE_P \<Longrightarrow> possessors g = ?node" by (simp add: holders_exclusive)
    then have "owner_frame ?node (pbf s' i)"
      using n h gh True gs(5) unfolding s'(3) by (auto simp: owner_frame_def dir_frame_def dir_of_def)
    with s' h g(2) en True gs f(3) show ?thesis
      by (intro exI [of _ s']) (simp add: response_got_def)
  next
    case False
    then have sh: "possession g = SHARED_P" "possession ?f = SHARED_P" using cl(1) n(2) gs(5) by (cases "possession ?f"; auto simp: dir_frame_def holders_exclusive)+
    have ne: "holders g - {client} \<noteq> {}" "holders g - {client} = holders g" using gh False sng by auto
    obtain s' l where s': "evict_without_read envs c client i ?s1 = Some (Inr s')" "\<not> isLatched l" "latch_ok l" "response_got c (pid g) ?s1 s'"
      "pbf s' i = g\<lparr>possessors := bm64_reset (possessors g) client, bflatch := l\<rparr>" "reads (pp_cctxs s' ! c) = reads (pp_cctxs s ! c)"
      using serve_without_read [OF s1(2,3) n(3), of envs] s1(1) sh(1) ne(1) gs(3) f(2,3) by auto
    have "holders (pbf s' i) = holders g"
      using holders_upd_shared [OF sh(1) n(3)] ne(2) sh(1) unfolding s'(5) by (simp add: holders_shared)
    then have h: "dir_of (pbf s' i) = dir_of g" "holders (pbf s' i) = holders ?f - {client}" using gh False sng unfolding s'(5) by (simp_all add: dir_of_def)
    have "owner_frame ?node (pbf s' i)"
      using n f(1) h(2) False sng cl gs sh unfolding owner_frame_def dir_frame_def by (simp add: s'(5)) metis
    with s' h(1) g(2) en False sng gs show ?thesis
      by (intro exI [of _ s']) (simp add: response_got_def)
  qed
qed

section \<open>Dropping pages\<close>

text \<open>Frames that were latched for an eviction, in the table.\<close>

definition latched_pages :: "provider \<Rightarrow> fref list \<Rightarrow> bool" where
  "latched_pages s is \<longleftrightarrow> distinct is \<and> (\<forall>i\<in>set is. table (pbm s) (pid (pbf s i)) = Some i \<and> isLatched (bflatch (pbf s i)) \<and> pageP (pbf s i) \<noteq> None)"

definition provider_ok :: "provider \<Rightarrow> bool" where
  "provider_ok s \<longleftrightarrow> pt_wf (pbm s) \<and> buffer_ok s"

text \<open>What dropping or unlatching a frame leaves of the others.\<close>

definition same_but :: "fref \<Rightarrow> provider \<Rightarrow> provider \<Rightarrow> bool" where
  "same_but i s s' \<longleftrightarrow> length (bfs (pbm s')) = length (bfs (pbm s)) \<and> (\<forall>k<length (bfs (pbm s)). k \<noteq> i \<longrightarrow> same_payload (pbf s k) (pbf s' k))
     \<and> pp_cctxs s' = pp_cctxs s \<and> bmNode (pbm s') = bmNode (pbm s)"

lemma latched_pages_distinct:
  assumes "latched_pages s is"
  shows "distinct (map (\<lambda>i. pid (pbf s i)) is)"
proof -
  have "i = j" if "i \<in> set is" "j \<in> set is" "pid (pbf s i) = pid (pbf s j)" for i j
    using assms that unfolding latched_pages_def by (metis option.inject)
  then show ?thesis using assms by (auto simp: latched_pages_def distinct_map inj_on_def)
qed

lemma drop_frame_ok:
  assumes ok: "provider_ok s" and i: "table (pbm s) (pid (pbf s i)) = Some i" "isLatched (bflatch (pbf s i))" "pageP (pbf s i) = Some a"
  shows "\<exists>s'. drop_frame ((\<lambda>m. m) # envs) i s = Some (Inr s') \<and> provider_ok s' \<and> table (pbm s') = (table (pbm s))(pid (pbf s i) := None)
    \<and> same_but i s s' \<and> free_pages s' = add_mset (Some a) (free_pages s)"
proof -
  let ?room = "\<not> rb_full (privatePageBuffer s)"
  define h where "h = (\<lambda>f m. if ?room then Inr m else push_page f m :: bufmgr result)"
  define pages where "pages = (\<lambda>xs. if ?room then xs else a # xs :: addr list)"
  have "handle_spec h (bfs (pbm s) ! i) pages (\<lambda>xs. xs)"
    using push_page_spec(1) [of "bfs (pbm s) ! i" a] i(3) by (cases ?room) (simp_all add: h_def pages_def handle_spec_def pbf_def)
  from removeFrame_ok [OF _ _ _ this, of "pid (pbf s i)" envs] ok i
  obtain m where m: "removeFrame ((\<lambda>m. m) # envs) i h (pbm s) = Some (Inr (m, ()))" "removed (pbm s) (pid (pbf s i)) i pages (\<lambda>xs. xs) m"
    by (auto simp: provider_ok_def pbf_def)
  let ?s = "s\<lparr>pbm := m\<rparr>"
  have r: "pt_wf m" "table m = (table (pbm s))(pid (pbf s i) := None)" "length (bfs m) = length (bfs (pbm s))" "pageFree m = pages (pageFree (pbm s))" "bmNode m = bmNode (pbm s)"
    "\<And>k. k < length (bfs (pbm s)) \<Longrightarrow> k \<noteq> i \<Longrightarrow> same_payload (bfs (pbm s) ! k) (bfs m ! k)"
    using m(2) by (auto simp: removed_def)
  show ?thesis
  proof (cases ?room)
    case True
    have "buffer_ok ?s" using ok by (simp add: provider_ok_def buffer_ok_def)
    then obtain s' q as where s': "keep_page (Some a) ?s = Inr s'" "buffer_ok s'" "free_pages s' = add_mset (Some a) (free_pages ?s)"
      "s' = ?s\<lparr>privatePageBuffer := q, pbm := m\<lparr>pageFree := as\<rparr>\<rparr>" using keep_page_ok [of ?s "Some a" a] by auto
    have "drop_frame ((\<lambda>m. m) # envs) i s = Some (Inr (count_eviction s'))"
      using m(1) True s'(1) i(3) by (simp add: drop_frame_def Let_def h_def)
    moreover have "free_pages ?s = free_pages s" using r(4) True by (simp add: free_pages_def pages_def)
    ultimately show ?thesis using s'(2,3) r
      by (intro exI [of _ "count_eviction s'"]) (simp add: s'(4) provider_ok_def same_but_def pbf_def count_eviction_def buffer_ok_def free_pages_def)
  next
    case False
    have "drop_frame ((\<lambda>m. m) # envs) i s = Some (Inr (count_eviction ?s))"
      using m(1) False i(3) by (simp add: drop_frame_def Let_def h_def)
    then show ?thesis using r False ok
      by (intro exI [of _ "count_eviction ?s"]) (simp add: provider_ok_def same_but_def pbf_def count_eviction_def buffer_ok_def free_pages_def pages_def)
  qed
qed

lemma unlatch_frame_ok:
  assumes ok: "provider_ok s" and i: "table (pbm s) (pid (pbf s i)) = Some i" "isLatched (bflatch (pbf s i))"
  shows "\<exists>s'. unlatch_pbf i s = Inr s' \<and> provider_ok s' \<and> table (pbm s') = table (pbm s) \<and> same_but i s s' \<and> free_pages s' = free_pages s
    \<and> \<not> isLatched (bflatch (pbf s' i)) \<and> pid (pbf s' i) = pid (pbf s i)"
proof -
  have wf: "pt_wf (pbm s)" using ok by (simp add: provider_ok_def)
  note t = tbl_Some [OF wf [unfolded pt_wf_def], of "pid (pbf s i)" i, folded table_def, OF i(1)]
  have "latch_ok (bflatch (pbf s i))" using pt_ok_frame(2) [OF wf [unfolded pt_wf_def] t(4)] by (simp add: pbf_def)
  from unlatch_pbf_ok [OF t(4) this i(2)] obtain l where l: "unlatch_pbf i s = Inr (upd_pbf i (\<lambda>f. f\<lparr>bflatch := l\<rparr>) s)" "latch_ok l" "\<not> isLatched l" by blast
  let ?s = "upd_pbf i (\<lambda>f. f\<lparr>bflatch := l\<rparr>) s"
  have u: "pbm ?s = upd_frame i (\<lambda>_. (bfs (pbm s) ! i)\<lparr>bflatch := l\<rparr>) (pbm s)" by (simp add: upd_pbf_def upd_frame_def)
  have "pt_wf (pbm ?s)" "table (pbm ?s) = table (pbm s)"
    unfolding u by (rule pt_wf_upd [OF wf t(4)]; use l(2) t(5) in \<open>simp add: same_links_def\<close>)+
  with ok l pbf_upd [OF t(4)] show ?thesis
    by (intro exI [of _ ?s]) (auto simp: provider_ok_def same_but_def pbf_def upd_pbf_def upd_frame_def buffer_ok_def free_pages_def)
qed

section \<open>Responses to eviction requests\<close>

text \<open>The frames whose page ids match the response, in order from position \<open>r\<close>.\<close>

fun matched :: "PID list \<Rightarrow> (fref \<Rightarrow> PID) \<Rightarrow> fref list \<Rightarrow> nat \<Rightarrow> fref list" where
  "matched ps pd [] r = []"
| "matched ps pd (i # is) r = (if pd i = ps ! r then i # matched ps pd is (r + 1) else matched ps pd is r)"

lemma matched_cong: "(\<And>i. i \<in> set is \<Longrightarrow> pd i = pd' i) \<Longrightarrow> matched ps pd is r = matched ps pd' is r"
  by (induction "is" arbitrary: r) auto

lemma set_matched: "set (matched ps pd is r) \<subseteq> set is"
  by (induction "is" arbitrary: r) auto

lemma same_butD:
  assumes "same_but i s s'" and "table (pbm s) p = Some k" and "k \<noteq> i" and "pt_wf (pbm s)"
  shows "pid (pbf s' k) = pid (pbf s k)" "bflatch (pbf s' k) = bflatch (pbf s k)" "pageP (pbf s' k) = pageP (pbf s k)"
proof -
  have "k < length (bfs (pbm s))" using tbl_Some(4) [of "pbm s" "chains (pbm s)" p k] assms(2,4) by (simp add: pt_wf_def table_def)
  then have "same_payload (pbf s k) (pbf s' k)" using assms(1,3) by (simp add: same_but_def)
  from same_payload_sel [OF this] show "pid (pbf s' k) = pid (pbf s k)" "bflatch (pbf s' k) = bflatch (pbf s k)" "pageP (pbf s' k) = pageP (pbf s k)" by simp_all
qed

lemma latched_pages_rest:
  assumes "latched_pages s (i # is)" and "same_but i s s'" and "pt_wf (pbm s)" and "\<And>p. p \<noteq> pid (pbf s i) \<Longrightarrow> table (pbm s') p = table (pbm s) p"
  shows "latched_pages s' is" and "\<And>k. k \<in> set is \<Longrightarrow> pid (pbf s' k) = pid (pbf s k)" and "\<And>k. k \<in> set is \<Longrightarrow> pageP (pbf s' k) = pageP (pbf s k)"
    and "\<And>k. k \<in> set is \<Longrightarrow> pid (pbf s k) \<noteq> pid (pbf s i)"
proof -
  have d: "distinct is" "i \<notin> set is" and t: "\<And>k. k \<in> set (i # is) \<Longrightarrow> table (pbm s) (pid (pbf s k)) = Some k"
    and lp: "\<And>k. k \<in> set (i # is) \<Longrightarrow> isLatched (bflatch (pbf s k)) \<and> pageP (pbf s k) \<noteq> None"
    using assms(1) by (auto simp: latched_pages_def)
  have ne: "k \<noteq> i \<and> pid (pbf s k) \<noteq> pid (pbf s i)" if "k \<in> set is" for k
    using t [OF list.set_intros(2) [OF that]] t [OF list.set_intros(1)] that d(2) by (metis option.inject)
  then show "pid (pbf s k) \<noteq> pid (pbf s i)" if "k \<in> set is" for k using that by blast
  have k: "pid (pbf s' k) = pid (pbf s k)" "bflatch (pbf s' k) = bflatch (pbf s k)" "pageP (pbf s' k) = pageP (pbf s k)" if "k \<in> set is" for k
    using same_butD [OF assms(2) t [OF list.set_intros(2) [OF that]] _ assms(3)] ne [OF that] by blast+
  show "pid (pbf s' k) = pid (pbf s k)" "pageP (pbf s' k) = pageP (pbf s k)" if "k \<in> set is" for k using k [OF that] by blast+
  show "latched_pages s' is" unfolding latched_pages_def
  proof (intro conjI ballI d(1))
    fix k assume "k \<in> set is"
    with k [of k] ne [of k] assms(4) [of "pid (pbf s k)"] t [of k] lp [of k]
    show "table (pbm s') (pid (pbf s' k)) = Some k" "isLatched (bflatch (pbf s' k))" "pageP (pbf s' k) \<noteq> None" by (metis list.set_intros(2))+
  qed
qed

text \<open>Of the frames \<open>is\<close>, those in \<open>ds\<close> were dropped and the others unlatched.\<close>

definition dropped :: "provider \<Rightarrow> fref list \<Rightarrow> fref list \<Rightarrow> provider \<Rightarrow> bool" where
  "dropped s is ds s' \<longleftrightarrow> provider_ok s'
     \<and> table (pbm s') = (\<lambda>p. if p \<in> (\<lambda>i. pid (pbf s i)) ` set ds then None else table (pbm s) p)
     \<and> free_pages s' = free_pages s + mset (map (\<lambda>i. pageP (pbf s i)) ds)
     \<and> pp_cctxs s' = pp_cctxs s \<and> length (bfs (pbm s')) = length (bfs (pbm s))
     \<and> (\<forall>k<length (bfs (pbm s)). k \<notin> set is \<longrightarrow> same_payload (pbf s k) (pbf s' k))
     \<and> (\<forall>i\<in>set is - set ds. \<not> isLatched (bflatch (pbf s' i)))"

lemma dropped_Cons:
  assumes rest: "dropped s1 is ds s'" and s: "latched_pages s (i # is)" "provider_ok s" and one: "same_but i s s1" "set ds \<subseteq> set is"
    and t: "table (pbm s1) = (if here then (table (pbm s))(pid (pbf s i) := None) else table (pbm s))"
    and fp: "free_pages s1 = free_pages s + (if here then {#pageP (pbf s i)#} else {#})"
    and unl: "\<not> here \<Longrightarrow> \<not> isLatched (bflatch (pbf s1 i))"
  shows "dropped s (i # is) (if here then i # ds else ds) s'"
proof -
  have wf: "pt_wf (pbm s)" using s(2) by (simp add: provider_ok_def)
  note lp = latched_pages_rest [OF s(1) one(1) wf]
  have l: "\<And>p. p \<noteq> pid (pbf s i) \<Longrightarrow> table (pbm s1) p = table (pbm s) p" using t by auto
  have pd: "pid (pbf s1 k) = pid (pbf s k)" "pageP (pbf s1 k) = pageP (pbf s k)" if "k \<in> set ds" for k
    using lp(2,3) [OF l] that one(2) by auto
  have i: "i \<notin> set is" "i < length (bfs (pbm s))"
    using s(1) tbl_Some(4) [of "pbm s" "chains (pbm s)" "pid (pbf s i)" i] wf by (auto simp: latched_pages_def pt_wf_def table_def)
  have len: "length (bfs (pbm s1)) = length (bfs (pbm s))" using one(1) by (simp add: same_but_def)
  have img: "(\<lambda>k. pid (pbf s1 k)) ` set ds = (\<lambda>k. pid (pbf s k)) ` set ds" "map (\<lambda>k. pageP (pbf s1 k)) ds = map (\<lambda>k. pageP (pbf s k)) ds"
    using pd by auto
  have tab: "table (pbm s') = (\<lambda>p. if p \<in> (\<lambda>k. pid (pbf s k)) ` set (if here then i # ds else ds) then None else table (pbm s) p)"
    using rest t unfolding dropped_def img(1) by auto
  have pages: "free_pages s' = free_pages s + mset (map (\<lambda>k. pageP (pbf s k)) (if here then i # ds else ds))"
    using rest fp unfolding dropped_def img(2) by auto
  have others: "same_payload (pbf s k) (pbf s' k)" if "k < length (bfs (pbm s))" "k \<notin> set (i # is)" for k
    using rest one(1) len that same_payload_trans unfolding dropped_def same_but_def by (metis list.set_intros(1,2))
  have "same_payload (pbf s1 i) (pbf s' i)" using rest i len by (simp add: dropped_def)
  then have "bflatch (pbf s' i) = bflatch (pbf s1 i)" by (rule same_payload_sel(3))
  then have "\<not> isLatched (bflatch (pbf s' k))" if "k \<in> set (i # is) - set (if here then i # ds else ds)" for k
    using that rest unl unfolding dropped_def by (cases "k = i") (auto split: if_splits)
  with tab pages others rest one(1) len show ?thesis by (simp add: dropped_def same_but_def)
qed

lemma drop_evicted_ok:
  assumes "provider_ok s" and "latched_pages s is" and "r + length is \<le> length (es_pids response)"
    and "r + length (matched (es_pids response) (\<lambda>i. pid (pbf s i)) is r) \<le> es_elements response + 1"
  shows "\<exists>s'. drop_evicted (\<lambda>i. (\<lambda>m. m) # envs i) response is r s = Some (Inr (r + length (matched (es_pids response) (\<lambda>i. pid (pbf s i)) is r), s'))
    \<and> dropped s is (matched (es_pids response) (\<lambda>i. pid (pbf s i)) is r) s'"
  using assms
proof (induction "is" arbitrary: r s)
  case Nil
  then show ?case by (simp add: dropped_def)
next
  case (Cons i "is")
  let ?pd = "\<lambda>s i. pid (pbf s i)" and ?ps = "es_pids response"
  have wf: "pt_wf (pbm s)" using Cons.prems(1) by (simp add: provider_ok_def)
  have fi: "table (pbm s) (?pd s i) = Some i" "isLatched (bflatch (pbf s i))" "pageP (pbf s i) \<noteq> None"
    using Cons.prems(2) by (auto simp: latched_pages_def)
  let ?here = "?pd s i = ?ps ! r"
  obtain s1 where s1: "provider_ok s1" "same_but i s s1" "table (pbm s1) = (if ?here then (table (pbm s))(?pd s i := None) else table (pbm s))"
    "free_pages s1 = free_pages s + (if ?here then {#pageP (pbf s i)#} else {#})" "\<not> ?here \<Longrightarrow> \<not> isLatched (bflatch (pbf s1 i))"
    "drop_evicted (\<lambda>i. (\<lambda>m. m) # envs i) response (i # is) r s = drop_evicted (\<lambda>i. (\<lambda>m. m) # envs i) response is (if ?here then r + 1 else r) s1"
  proof (cases ?here)
    case True
    obtain s1 where d: "drop_frame ((\<lambda>m. m) # envs i) i s = Some (Inr s1)" "provider_ok s1" "table (pbm s1) = (table (pbm s))(?pd s i := None)"
        "same_but i s s1" "free_pages s1 = add_mset (pageP (pbf s i)) (free_pages s)"
      using drop_frame_ok [OF Cons.prems(1) fi(1,2)] fi(3) by force
    have "r \<le> es_elements response" using Cons.prems(4) True by simp
    with d True Cons.prems(3) show thesis by (intro that [of s1]) simp_all
  next
    case False
    obtain s1 where d: "unlatch_pbf i s = Inr s1" "provider_ok s1" "table (pbm s1) = table (pbm s)" "same_but i s s1" "free_pages s1 = free_pages s"
        "\<not> isLatched (bflatch (pbf s1 i))"
      using unlatch_frame_ok [OF Cons.prems(1) fi(1,2)] by blast
    with False Cons.prems(3) fi(2) show thesis by (intro that [of s1]) simp_all
  qed
  have l: "\<And>p. p \<noteq> ?pd s i \<Longrightarrow> table (pbm s1) p = table (pbm s) p" using s1(3) by auto
  note lp = latched_pages_rest [OF Cons.prems(2) s1(2) wf l]
  let ?r = "if ?here then r + 1 else r"
  have m: "matched ?ps (?pd s1) is ?r = matched ?ps (?pd s) is ?r" by (rule matched_cong) (use lp(2) in simp)
  have ms: "matched ?ps (?pd s) (i # is) r = (if ?here then i # matched ?ps (?pd s) is ?r else matched ?ps (?pd s) is ?r)" by simp
  have le: "?r + length is \<le> length ?ps" "?r + length (matched ?ps (?pd s1) is ?r) \<le> es_elements response + 1"
    using Cons.prems(3,4) unfolding m by (cases ?here; simp)+
  obtain s' where s': "drop_evicted (\<lambda>i. (\<lambda>m. m) # envs i) response is ?r s1 = Some (Inr (?r + length (matched ?ps (?pd s) is ?r), s'))" "dropped s1 is (matched ?ps (?pd s) is ?r) s'"
    using Cons.IH [OF s1(1) lp(1) le] unfolding m by blast
  have "dropped s (i # is) (matched ?ps (?pd s) (i # is) r) s'"
    unfolding ms by (rule dropped_Cons [OF s'(2) Cons.prems(2,1) s1(2) set_matched s1(3,4,5)])
  moreover have "r + length (matched ?ps (?pd s) (i # is) r) = ?r + length (matched ?ps (?pd s) is ?r)" by simp
  ultimately show ?case using s'(1) s1(6) by metis
qed

text \<open>If the page ids of the response are some of those asked for, in their order, and what follows them is no page id
  asked for, the frames that match are those of the response.\<close>

lemma matched_granted:
  assumes "distinct (map pd is)" and "subseq rs (map pd is)" and "take (length rs) (drop r ps) = rs" and "length rs \<le> length ps - r"
    and "\<And>i. i \<in> set is \<Longrightarrow> pd i \<notin> set rs \<Longrightarrow> pd i \<noteq> ps ! (r + length rs)"
  shows "matched ps pd is r = filter (\<lambda>i. pd i \<in> set rs) is"
  using assms
proof (induction "is" arbitrary: rs r)
  case (Cons i "is")
  show ?case
  proof (cases rs)
    case Nil
    then have "matched ps pd is r = filter (\<lambda>i. pd i \<in> set rs) is" using Cons.IH [of "[]" r] Cons.prems by simp
    then show ?thesis using Nil Cons.prems(5) [of i] by simp
  next
    case (Cons q qs)
    have q: "ps ! r = q" "take (length qs) (drop (Suc r) ps) = qs" using Cons.prems(3,4) Cons
      by (auto simp: take_Suc_conv_app_nth drop_Suc Cons_nth_drop_Suc [symmetric] less_diff_conv)
    show ?thesis
    proof (cases "pd i = q")
      case True
      then have sub: "subseq qs (map pd is)" using Cons.prems(2) Cons by simp
      have "pd i \<notin> set (map pd is)" using Cons.prems(1) by simp
      then have ne: "pd k \<noteq> q" if "k \<in> set is" for k using that True by (metis image_eqI set_map)
      have "pd k \<noteq> ps ! (Suc r + length qs)" if "k \<in> set is" "pd k \<notin> set qs" for k
        using Cons.prems(5) [of k] that Cons ne [OF that(1)] by simp
      then have "matched ps pd is (Suc r) = filter (\<lambda>i. pd i \<in> set qs) is"
        using Cons.IH [OF _ sub q(2)] Cons.prems(1,4) Cons by simp
      moreover have "filter (\<lambda>i. pd i \<in> set qs) is = filter (\<lambda>i. pd i \<in> set rs) is"
        using ne Cons by (intro filter_cong) auto
      ultimately show ?thesis using True q(1) Cons by simp
    next
      case False
      then have sub: "subseq rs (map pd is)" using Cons.prems(2) Cons by (simp add: subseq_Cons2_neq)
      have "pd i \<notin> set (map pd is)" using Cons.prems(1) by simp
      then have "pd i \<notin> set rs" using list_emb_set [OF sub] by metis
      with Cons.IH [OF _ sub Cons.prems(3,4)] Cons.prems(1,5) False q(1) show ?thesis by simp
    qed
  qed
qed simp

lemma receive_response_ok:
  assumes ok: "provider_ok s" and c: "c < length (pp_cctxs s)" "responseExpected (pp_cctxs s ! c)"
    and fr: "latched_pages s is" "is = prev (inflightFrames (pp_cctxs s ! c))"
    and rsp: "response = respIncoming s ! c" "0 < es_elements response" "length is \<le> length (es_pids response)"
      "length (matched (es_pids response) (\<lambda>i. pid (pbf s i)) is 0) \<le> es_elements response + 1"
  shows "\<exists>s'. receive_response (\<lambda>i. (\<lambda>m. m) # envs i) c s = Some (Inr s') \<and> \<not> responseExpected (pp_cctxs s' ! c) \<and> prev (inflightFrames (pp_cctxs s' ! c)) = []
    \<and> table (pbm s') = (\<lambda>p. if p \<in> (\<lambda>i. pid (pbf s i)) ` set (matched (es_pids response) (\<lambda>i. pid (pbf s i)) is 0) then None else table (pbm s) p)
    \<and> (\<forall>i\<in>set is - set (matched (es_pids response) (\<lambda>i. pid (pbf s i)) is 0). \<not> isLatched (bflatch (pbf s' i)))"
proof -
  let ?s1 = "upd_pctx c (\<lambda>x. x\<lparr>responseExpected := False\<rparr>) (s\<lparr>respMailboxes := (respMailboxes s)[c := 0]\<rparr>)"
  have eq: "pbm ?s1 = pbm s" "pbf ?s1 i = pbf s i" "buffer_ok ?s1 = buffer_ok s" "respIncoming ?s1 = respIncoming s" for i
    by (simp_all add: upd_pctx_def pbf_def buffer_ok_def)
  have ctx: "pp_cctxs ?s1 ! c = (pp_cctxs s ! c)\<lparr>responseExpected := False\<rparr>" using c(1) by (simp add: upd_pctx_def)
  have ok1: "provider_ok ?s1" "latched_pages ?s1 is" using ok fr(1) unfolding provider_ok_def latched_pages_def eq by simp_all
  have le: "0 + length is \<le> length (es_pids response)" using rsp(3) by simp
  from drop_evicted_ok [OF ok1 le, of envs] rsp(4)
  obtain r s2 where d: "drop_evicted (\<lambda>i. (\<lambda>m. m) # envs i) response is 0 ?s1 = Some (Inr (r, s2))" "dropped ?s1 is (matched (es_pids response) (\<lambda>i. pid (pbf s i)) is 0) s2"
    unfolding eq by auto
  let ?s3 = "upd_pctx c (\<lambda>x. x\<lparr>inflightFrames := (inflightFrames x)\<lparr>prev := []\<rparr>\<rparr>) s2"
  have "receive_response (\<lambda>i. (\<lambda>m. m) # envs i) c s = Some (Inr ?s3)"
    using c(2) rsp(1,2) d(1) fr(2) ctx eq(4) by (simp add: receive_response_def Let_def)
  moreover have "pp_cctxs s2 = pp_cctxs ?s1" using d(2) by (simp add: dropped_def)
  then have "pp_cctxs ?s3 ! c = (pp_cctxs s ! c)\<lparr>responseExpected := False, inflightFrames := (inflightFrames (pp_cctxs s ! c))\<lparr>prev := []\<rparr>\<rparr>"
    using c(1) ctx by (simp add: upd_pctx_def)
  ultimately show ?thesis
    using d(2) unfolding dropped_def eq by (intro exI [of _ ?s3]) simp
qed

lemma matched_prefix:
  assumes "\<And>k. k < length is \<Longrightarrow> ps ! (r + k) = pd (is ! k)"
  shows "matched ps pd is r = is"
  using assms
proof (induction "is" arbitrary: r)
  case (Cons i "is")
  have "ps ! (Suc r + k) = pd (is ! k)" if "k < length is" for k using Cons.prems [of "Suc k"] that by simp
  with Cons.IH [of "Suc r"] Cons.prems [of 0] show ?case by simp
qed simp

section \<open>Properties of evictions\<close>

lemma owner_frame_latch [simp]: "owner_frame node (f\<lparr>bflatch := l\<rparr>) \<longleftrightarrow> owner_frame node f" "dir_of (f\<lparr>bflatch := l\<rparr>) = dir_of f"
proof -
  have "isPossessor n (f\<lparr>bflatch := l\<rparr>) \<longleftrightarrow> isPossessor n f" for n by (cases "possession f") (simp_all add: isPossessor_def)
  then have "holders (f\<lparr>bflatch := l\<rparr>) = holders f" by (simp add: holders_def)
  then show "owner_frame node (f\<lparr>bflatch := l\<rparr>) \<longleftrightarrow> owner_frame node f" "dir_of (f\<lparr>bflatch := l\<rparr>) = dir_of f"
    by (simp_all add: owner_frame_def dir_frame_def dir_of_def)
qed

text \<open>C16: the owner of a page evicts it from its memory: it leaves the possessors in the directory, except if it is the
  only one, so that the last copy of a page is never dropped; the page itself goes to the free pages and none is lost,
  and the frame, which stays as the directory, is unlatched.\<close>

theorem owner_eviction_keeps_directory:
  assumes "\<not> evict_to_ssd fl" and "i < length (bfs (pbm s))" and "buffer_ok s"
    and "owner_frame (bmNode (pbm s)) (pbf s i)" and "state (pbf s i) = HOT" and "latch_ok (bflatch (pbf s i))" and "isLatched (bflatch (pbf s i))"
  shows "\<exists>s'. evict_owner_page fl e i ep s = Some (Inr (True, s')) \<and> owner_frame (bmNode (pbm s)) (pbf s' i)
    \<and> dir_of (pbf s' i) = dir_evict (bmNode (pbm s)) (bmNode (pbm s)) (dir_of (pbf s i))
    \<and> pages_with s' i = pages_with s i \<and> \<not> isLatched (bflatch (pbf s' i))"
proof -
  obtain s' l where "evict_owner_page fl e i ep s = Some (Inr (True, s'))" "pbf s' i = (owner_evicted (bmNode (pbm s)) (pbf s i))\<lparr>bflatch := l\<rparr>"
    "\<not> isLatched l" "pages_with s' i = pages_with s i"
    using evict_owner_page_ok [OF assms] by blast
  then show ?thesis using owner_evicted_ok [OF assms(4,5)] by (intro exI [of _ s']) simp
qed

definition shared_latched :: BufferFrame where
  "shared_latched = owned_example\<lparr>possession := SHARED_P, possessors := 3, bflatch := \<lparr>version = 6, smut = Writer\<rparr>\<rparr>"

definition frame_provider :: "BufferFrame \<Rightarrow> provider" where
  "frame_provider f = (idle_provider (small_bm\<lparr>bfs := [f], bmNode := 0\<rparr>) 0 1 2)\<lparr>privatePageBuffer := \<lparr>rb_size = 4, rb_data = [Some 8192, None, None, None], rb_front = 0, rb_count = 1\<rparr>\<rparr>"

definition no_ssd :: pp_flags where
  "no_ssd = \<lparr>pp_nodes = 2, evict_to_ssd = False, prob_SSD = 1000, freeBFLimit = 1, coolingBFLimit = 1, epoch_due = (\<lambda>_ _. False), coolest = (\<lambda>n. n div 10)\<rparr>"

lemma frame_provider_sel:
  "pbf (frame_provider f) 0 = f" "length (bfs (pbm (frame_provider f))) = 1" "bmNode (pbm (frame_provider f)) = 0" "buffer_ok (frame_provider f)"
  "rb_items (privatePageBuffer (frame_provider f)) = [Some 8192]" "room_for 1 (frame_provider f)"
  by (simp_all add: frame_provider_def idle_provider_def pbf_def buffer_ok_def rb_ok_def rb_items_def room_for_def new_pp_ctx_def new_EvictionResponse_def batchSize_def)
     (intro exI [of _ 2], simp)

lemma nodes_3: "bm64_nodes 3 = {0, 1}"
proof -
  have "(3 :: u64) = bm64_set (bm64_set 0 0) 1" by (simp add: bm64_set_def bm64_bit_def)
  moreover have "bm64_nodes (bm64_set (bm64_set 0 0) 1) = {1, 0}"
    using bm64_nodes_empty_iff [of 0] by (simp add: bm64_nodes_set MAX_NODES_def)
  ultimately show ?thesis by (simp add: insert_commute)
qed

lemma shared_latched_owner: "holders shared_latched = {0, 1}" "owner_frame 0 shared_latched" "latch_ok (bflatch shared_latched)" "isLatched (bflatch shared_latched)" "state shared_latched = HOT"
proof -
  have "possession shared_latched = SHARED_P" "possessors shared_latched = 3" "state shared_latched = HOT" "pageP shared_latched = Some 4096"
    by (simp_all add: shared_latched_def owned_example_def)
  note f = this
  from f(1) show "holders shared_latched = {0, 1}"
    unfolding holders_shared [OF f(1)] f(2) nodes_3 by (auto simp: MAX_NODES_def word_unat_eq_iff)
  with f show "owner_frame 0 shared_latched" "state shared_latched = HOT" by (simp_all add: owner_frame_def dir_frame_def MAX_NODES_def)
  show "latch_ok (bflatch shared_latched)" "isLatched (bflatch shared_latched)"
    by (simp_all add: shared_latched_def latch_ok_def isLatched_def isLatchedV_def)
qed

theorem owner_eviction_keeps_directory_witness:
  "\<exists>s'. evict_owner_page no_ssd \<lparr>ev_before = (\<lambda>m. m), ev_upgrade = (\<lambda>l. l), ev_downgrade = (\<lambda>l. l), ev_remove = [], ev_rand = 0\<rparr> 0 7 (frame_provider shared_latched) = Some (Inr (True, s'))
     \<and> d_holders (dir_of (pbf s' 0)) = {1}"
proof -
  let ?e = "\<lparr>ev_before = (\<lambda>m. m), ev_upgrade = (\<lambda>l. l), ev_downgrade = (\<lambda>l. l), ev_remove = [], ev_rand = 0\<rparr>"
  obtain s' where "evict_owner_page no_ssd ?e 0 7 (frame_provider shared_latched) = Some (Inr (True, s'))" "dir_of (pbf s' 0) = dir_evict 0 0 (dir_of shared_latched)"
    using owner_eviction_keeps_directory [of no_ssd 0 "frame_provider shared_latched" ?e 7] shared_latched_owner frame_provider_sel [of shared_latched]
    by (auto simp: no_ssd_def)
  moreover have "d_holders (dir_evict 0 0 (dir_of shared_latched)) = {1}" using shared_latched_owner(1) by (simp add: dir_evict_def dir_of_def)
  ultimately show ?thesis by (intro exI [of _ s']) (simp only: simp_thms)
qed

text \<open>C15: the owner serves a request to evict a page from another node's memory: the node leaves the possessors and its
  page id is in the answer.  If the node had the only copy, the owner becomes the possessor, with a page of its own into
  which the copy is read, and keeps the frame latched until that is done; otherwise the frame is unlatched.\<close>

theorem eviction_request_keeps_directory:
  assumes "\<not> evict_to_ssd fl" and "i < length (bfs (pbm s))" and "room_for c s" and "buffer_ok s" and "rb_items (privatePageBuffer s) = Some a # pgs"
    and "owner_frame (bmNode (pbm s)) (pbf s i)" and "latch_ok (bflatch (pbf s i))" and "isLatched (bflatch (pbf s i))"
    and "client \<in> holders (pbf s i)" and "client \<noteq> bmNode (pbm s)" and "\<not> copy_in_flight crs (pid (pbf s i))"
  shows "\<exists>s'. serve_entry fl crs envs c client i ee s = Some (Inr s') \<and> response_got c (pid (pbf s i)) s s'
    \<and> owner_frame (bmNode (pbm s)) (pbf s' i) \<and> dir_of (pbf s' i) = dir_evict (bmNode (pbm s)) client (dir_of (pbf s i))
    \<and> (if holders (pbf s i) = {client} then reads (pp_cctxs s' ! c) = reads (pp_cctxs s ! c) @ [(pageP (pbf s' i), ee_offset ee)]
          \<and> latchedFrames (pp_cctxs s' ! c) = latchedFrames (pp_cctxs s ! c) @ [i] \<and> state (pbf s' i) = HOT \<and> isLatched (bflatch (pbf s' i))
       else reads (pp_cctxs s' ! c) = reads (pp_cctxs s ! c) \<and> state (pbf s' i) = state (pbf s i) \<and> \<not> isLatched (bflatch (pbf s' i)))"
  by (rule serve_entry_ok [OF assms])

theorem eviction_request_keeps_directory_witness:
  "\<exists>s'. serve_entry no_ssd [] [] 1 1 0 \<lparr>ee_pid = EMPTY_PID, ee_offset = 64, ee_pVersion = 0\<rparr> (frame_provider shared_latched) = Some (Inr s')
     \<and> d_holders (dir_of (pbf s' 0)) = {0}"
proof -
  have "\<not> copy_in_flight [] p" for p by (simp add: copy_in_flight_def valid_CRs_def)
  then obtain s' where "serve_entry no_ssd [] [] 1 1 0 \<lparr>ee_pid = EMPTY_PID, ee_offset = 64, ee_pVersion = 0\<rparr> (frame_provider shared_latched) = Some (Inr s')"
    "dir_of (pbf s' 0) = dir_evict 0 1 (dir_of shared_latched)"
    using eviction_request_keeps_directory [of no_ssd 0 "frame_provider shared_latched" 1 "8192" "[]" 1 "[]" "[]" "\<lparr>ee_pid = EMPTY_PID, ee_offset = 64, ee_pVersion = 0\<rparr>"]
      shared_latched_owner frame_provider_sel [of shared_latched] by (auto simp: no_ssd_def)
  moreover have "d_holders (dir_evict 0 1 (dir_of shared_latched)) = {0}" using shared_latched_owner(1) by (auto simp: dir_evict_def dir_of_def)
  ultimately show ?thesis by (intro exI [of _ s']) (simp only: simp_thms)
qed


text \<open>C37: the code also compares with the entry of the array behind the elements of the answer, which is left over from an
  earlier answer.  If it happens to be the next requested page, that page is dropped although its owner did not agree to
  take it.\<close>

theorem stale_response_drops_refused:
  assumes "provider_ok s" and "c < length (pp_cctxs s)" and "responseExpected (pp_cctxs s ! c)" and "latched_pages s (gs @ [x])"
    and "prev (inflightFrames (pp_cctxs s ! c)) = gs @ [x]" and "gs \<noteq> []" and "length gs < length (es_pids (respIncoming s ! c))"
    and "es_elements (respIncoming s ! c) = length gs" and "take (length gs) (es_pids (respIncoming s ! c)) = map (\<lambda>i. pid (pbf s i)) gs"
    and "es_pids (respIncoming s ! c) ! length gs = pid (pbf s x)"
  shows "pid (pbf s x) \<notin> set (take (es_elements (respIncoming s ! c)) (es_pids (respIncoming s ! c)))
    \<and> (\<exists>s'. receive_response (\<lambda>i. (\<lambda>m. m) # envs i) c s = Some (Inr s') \<and> table (pbm s) (pid (pbf s x)) = Some x \<and> table (pbm s') (pid (pbf s x)) = None)"
proof -
  let ?r = "respIncoming s ! c" and ?pd = "\<lambda>i. pid (pbf s i)"
  have "?pd x \<notin> ?pd ` set gs" using latched_pages_distinct [OF assms(4)] by auto
  then have refused: "?pd x \<notin> set (take (es_elements ?r) (es_pids ?r))" unfolding assms(8,9) by simp
  have "es_pids ?r ! (0 + k) = ?pd ((gs @ [x]) ! k)" if k: "k < length (gs @ [x])" for k
  proof (cases "k < length gs")
    case True
    then have "es_pids ?r ! k = take (length gs) (es_pids ?r) ! k" by simp
    then show ?thesis using True unfolding assms(9) by (simp add: nth_append)
  next
    case False
    with k have "k = length gs" by simp
    then show ?thesis using assms(10) by simp
  qed
  then have m: "matched (es_pids ?r) ?pd (gs @ [x]) 0 = gs @ [x]" by (rule matched_prefix)
  have "0 < es_elements ?r" "length (gs @ [x]) \<le> length (es_pids ?r)" "length (matched (es_pids ?r) ?pd (gs @ [x]) 0) \<le> es_elements ?r + 1"
    unfolding m using assms(6-8) by simp_all
  from receive_response_ok [OF assms(1-4) assms(5) [symmetric] refl this, of envs] assms(4) refused show ?thesis
    unfolding m by (auto simp: latched_pages_def)
qed

text \<open>A page table with two latched pages, and the answer to the request to evict both.\<close>

definition page_frame :: "u64 \<Rightarrow> BufferFrame" where
  "page_frame i = new_BufferFrame\<lparr>pid := \<lparr>PID.id = i\<rparr>, isHtBucket := True, state := HOT, possession := SHARED_P, possessors := 2, pageP := Some (512 * i), bflatch := \<lparr>version = 6, smut = Writer\<rparr>\<rparr>"

definition two_pages :: bufmgr where
  "two_pages = \<lparr>bfs = [page_frame 2, page_frame 3], ptsize = 2, frameFree = [], pageFree = [], pidFree = [], bmNode = 1, globalEpoch = 0\<rparr>"

lemma two_pages_wf: "pt_wf two_pages" "table two_pages \<lparr>PID.id = 2\<rparr> = Some 0" "table two_pages \<lparr>PID.id = 3\<rparr> = Some 1"
proof -
  have b: "bucket two_pages \<lparr>PID.id = 2\<rparr> = 0" "bucket two_pages \<lparr>PID.id = 3\<rparr> = 1"
    by (simp_all add: bucket_def two_pages_def FasterHash_def)
  have e: "\<lparr>PID.id = 2\<rparr> \<noteq> EMPTY_PID" "\<lparr>PID.id = 3\<rparr> \<noteq> EMPTY_PID" by (simp_all add: EMPTY_PID_def mk_PID_def PAGEID_BITS_NODEID_def)
  have f: "bfs two_pages ! 0 = page_frame 2" "bfs two_pages ! 1 = page_frame 3" "length (bfs two_pages) = 2" "unat (ptsize two_pages) = 2" by (simp_all add: two_pages_def)
  have "bucket_ok two_pages [] k \<and> frame_ok two_pages k" if "k < 2" for k
    using that b e f by (auto simp: less_2_cases_iff bucket_ok_def frame_ok_def page_frame_def new_BufferFrame_def ht_latch_def latch_ok_def isLatched_def isLatchedV_def
        ol_isLatched_def new_OptimisticLatch_def)
  then have ok: "pt_ok two_pages (\<lambda>_. [])"
    using f(3,4) by (auto simp: pt_ok_def two_pages_def intro!: exI [of _ 1])
  from pt_wfI [OF ok] b e f show "pt_wf two_pages" "table two_pages \<lparr>PID.id = 2\<rparr> = Some 0" "table two_pages \<lparr>PID.id = 3\<rparr> = Some 1"
    by (simp_all add: tbl_def page_frame_def)
qed

definition two_evictions :: "PID list \<Rightarrow> provider" where
  "two_evictions ps = (idle_provider two_pages 0 2 2)\<lparr>
     pp_cctxs := [new_pp_ctx\<lparr>responseExpected := True, inflightFrames := \<lparr>current = [], prev = [0, 1]\<rparr>\<rparr>, new_pp_ctx],
     respIncoming := [new_EvictionResponse\<lparr>es_pids := ps @ replicate 30 EMPTY_PID, es_elements := 1\<rparr>, new_EvictionResponse]\<rparr>"

lemma two_evictions_ok:
  "provider_ok (two_evictions ps)" "latched_pages (two_evictions ps) [0, 1]" "pid (pbf (two_evictions ps) 0) = \<lparr>PID.id = 2\<rparr>" "pid (pbf (two_evictions ps) 1) = \<lparr>PID.id = 3\<rparr>"
  "pbm (two_evictions ps) = two_pages"
proof -
  have "rb_ok (privatePageBuffer (two_evictions ps))"
    by (simp add: two_evictions_def idle_provider_def rb_ok_def) (intro exI [of _ 2], simp)
  then show "provider_ok (two_evictions ps)" using two_pages_wf(1) by (simp add: provider_ok_def buffer_ok_def two_evictions_def idle_provider_def)
  have f: "pbf (two_evictions ps) 0 = page_frame 2" "pbf (two_evictions ps) 1 = page_frame 3" by (simp_all add: pbf_def two_evictions_def idle_provider_def two_pages_def)
  show b: "pbm (two_evictions ps) = two_pages" by (simp add: two_evictions_def idle_provider_def)
  from f show "pid (pbf (two_evictions ps) 0) = \<lparr>PID.id = 2\<rparr>" "pid (pbf (two_evictions ps) 1) = \<lparr>PID.id = 3\<rparr>" by (simp_all add: page_frame_def)
  with f b two_pages_wf show "latched_pages (two_evictions ps) [0, 1]" by (simp add: latched_pages_def page_frame_def isLatched_def isLatchedV_def)
qed

lemma two_evictions_sel:
  "length (pp_cctxs (two_evictions ps)) = 2" "responseExpected (pp_cctxs (two_evictions ps) ! 0)" "prev (inflightFrames (pp_cctxs (two_evictions ps) ! 0)) = [0, 1]"
  "es_elements (respIncoming (two_evictions ps) ! 0) = 1" "es_pids (respIncoming (two_evictions ps) ! 0) = ps @ replicate 30 EMPTY_PID"
  by (simp_all add: two_evictions_def)


theorem stale_response_drops_refused_witness:
  "\<exists>s'. receive_response (\<lambda>i. [\<lambda>m. m]) 0 (two_evictions [\<lparr>PID.id = 2\<rparr>, \<lparr>PID.id = 3\<rparr>]) = Some (Inr s') \<and> table two_pages \<lparr>PID.id = 3\<rparr> = Some 1 \<and> table (pbm s') \<lparr>PID.id = 3\<rparr> = None"
proof -
  let ?ps = "[\<lparr>PID.id = 2\<rparr>, \<lparr>PID.id = 3\<rparr>]" let ?s = "two_evictions ?ps"
  note ok = two_evictions_ok [of ?ps] and sel = two_evictions_sel [of ?ps]
  from stale_response_drops_refused [of ?s 0 "[0]" 1 "\<lambda>_. []"] ok sel show ?thesis by auto
qed

end
