(* ===== verification/Protocol.thy ===== *)
theory Protocol
  imports Coherence PageProvider_Proof
begin

text \<open>
  The coherence protocol of a page as a whole: workers that fix the page in shared or exclusive mode on its owner and on
  other nodes, writes of exclusive possessors, and the page providers that evict the page.  Every step is a
  run of the code's definitions on the nodes involved.
\<close>

section \<open>Steps\<close>

text \<open>The state is the last written contents of the page together with the cluster.  In the eviction steps \<open>s\<close> is the state of a page
  provider thread of the owner, whose frame \<open>i\<close> is the directory.\<close>

inductive protocol :: "PID \<Rightarrow> 'd \<times> 'd cluster \<Rightarrow> 'd \<times> 'd cluster \<Rightarrow> bool" for p where
  Fix_remote: "protocol p (cur, w) (cur, w'\<lparr>cl_copies := (cl_copies w')(unat client := Some (f', d))\<rparr>)"
    if "client \<noteq> cl_owner w" "unat client < MAX_NODES" "cl_copies w (unat client) = None" "state f = IO_RDMA" "isLatched (bflatch f)" "1 < nodes"
      "picks rnd" "tries \<noteq> []" "picks (fst (hd tries))"
      "fix_remote (cl_net client) rnd tries nodes ft client p f w = Some (Inr (Acquired f' w'))" "cl_buf w' = Some d"
| Fix_local: "protocol p (cur, w) (cur, w'\<lparr>cl_dir := f', cl_data := d\<rparr>)"
    if "cl_owner w \<notin> holders (cl_dir w) \<or> ft = EXCLUSIVE \<and> possession (cl_dir w) = SHARED_P" "picks rnd"
      "fix_local (cl_net (cl_owner w)) rnd ft (cl_owner w) p ((cl_dir w)\<lparr>pageP := Some a\<rparr>) w = Inr (Acquired f' w')"
      "(if state (cl_dir w) = HOT then Some (cl_data w) else cl_buf w') = Some d"
| Fix_update: "protocol p (cur, w) (cur, w'\<lparr>cl_copies := (cl_copies w')(unat client := Some (f', d))\<rparr>)"
    if "client \<noteq> cl_owner w" "unat client < MAX_NODES" "cl_copies w (unat client) = Some (f, d)" "possession f = SHARED_P" "isLatched (bflatch f)" "1 < nodes"
      "fix_update (cl_net client) nodes client p f w = Inr (Acquired f' w')"
| Write_owner: "protocol p (cur, w) (d, w\<lparr>cl_data := d\<rparr>)" if "state (cl_dir w) = HOT" "possession (cl_dir w) = EXCLUSIVE_P"
| Write_copy: "protocol p (cur, w) (d, w\<lparr>cl_copies := (cl_copies w)(n := Some (f, d))\<rparr>)"
    if "cl_copies w n = Some (f, old)" "possession f = EXCLUSIVE_P"
| Latch_owner: "protocol p (cur, w) (cur, w\<lparr>cl_dir := (cl_dir w)\<lparr>bflatch := l\<rparr>\<rparr>)"
| Latch_copy: "protocol p (cur, w) (cur, w\<lparr>cl_copies := (cl_copies w)(n := Some (f\<lparr>bflatch := l\<rparr>, d))\<rparr>)" if "cl_copies w n = Some (f, d)"
| Evict_owner: "protocol p (cur, w) (cur, w\<lparr>cl_dir := pbf s' i\<rparr>)"
    if "bmNode (pbm s) = cl_owner w" "i < length (bfs (pbm s))" "pbf s i = (cl_dir w)\<lparr>bflatch := l\<rparr>" "state (cl_dir w) = HOT" "latch_ok l" "isLatched l"
      "\<not> evict_to_ssd fl" "buffer_ok s" "evict_owner_page fl e i ep s = Some (Inr (True, s'))"
| Evict_copy: "protocol p (cur, w) (cur, w\<lparr>cl_dir := pbf s' i, cl_data := (if reads (pp_cctxs s' ! c) \<noteq> reads (pp_cctxs s ! c) then d else cl_data w),
      cl_copies := (cl_copies w)(unat client := None)\<rparr>)"
    if "bmNode (pbm s) = cl_owner w" "i < length (bfs (pbm s))" "pbf s i = (cl_dir w)\<lparr>bflatch := l\<rparr>" "latch_ok l" "isLatched l"
      "\<not> evict_to_ssd fl" "buffer_ok s" "rb_items (privatePageBuffer s) = Some a # pgs" "room_for c s"
      "cl_copies w (unat client) = Some (f, d)" "\<not> copy_in_flight crs (pid (pbf s i))"
      "serve_entry fl crs envs c client i ee s = Some (Inr s')"

section \<open>Every step keeps the copies coherent\<close>

lemma coherent_write_owner:
  assumes "coherent cur w" and "state (cl_dir w) = HOT" and "possession (cl_dir w) = EXCLUSIVE_P"
  shows "coherent d (w\<lparr>cl_data := d\<rparr>)"
proof -
  have "holders (cl_dir w) = {cl_owner w}"
    using assms by (auto simp: coherent_def owner_frame_def dir_frame_def holders_exclusive)
  then have "cl_copies w = (\<lambda>_. None)" using coherent_none [OF assms(1)] by auto
  with assms show ?thesis by (simp add: coherent_def)
qed

lemma coherent_exclusive_copy:
  assumes "coherent cur w" and "cl_copies w n = Some (f, d)" and "possession f = EXCLUSIVE_P"
  shows "state (cl_dir w) \<noteq> HOT" and "\<And>m. m \<noteq> n \<Longrightarrow> cl_copies w m = None"
proof -
  have "copy_ok (cl_dir w) cur n f d" using assms unfolding coherent_def by blast
  then have ex: "possession (cl_dir w) = EXCLUSIVE_P" using assms(3) by (simp add: copy_ok_def)
  have n: "n \<in> unat ` (holders (cl_dir w) - {cl_owner w})" using coherent_none [OF assms(1), of n] assms(2) by auto
  then have h: "holders (cl_dir w) = {possessors (cl_dir w)}" "unat (possessors (cl_dir w)) = n" "possessors (cl_dir w) \<noteq> cl_owner w"
    using ex by (auto simp: holders_exclusive)
  then show "state (cl_dir w) \<noteq> HOT" using assms(1) by (auto simp: coherent_def owner_frame_def dir_frame_def)
  show "cl_copies w m = None" if "m \<noteq> n" for m using coherent_none [OF assms(1), of m] h that by auto
qed

lemma coherent_write_copy:
  assumes "coherent cur w" and "cl_copies w n = Some (f, old)" and "possession f = EXCLUSIVE_P"
  shows "coherent d (w\<lparr>cl_copies := (cl_copies w)(n := Some (f, d))\<rparr>)"
proof -
  note ex = coherent_exclusive_copy [OF assms]
  have ok: "copy_ok (cl_dir w) cur n f old" and dom: "\<And>m. cl_copies w m \<noteq> None \<longleftrightarrow> m \<in> unat ` (holders (cl_dir w) - {cl_owner w})"
    using assms(1,2) unfolding coherent_def by blast+
  have "((cl_copies w)(n := Some (f, d))) m \<noteq> None \<longleftrightarrow> m \<in> unat ` (holders (cl_dir w) - {cl_owner w})" for m
    using dom [of m] assms(2) by (cases "m = n") auto
  moreover have "copy_ok (cl_dir w) d m g x" if "((cl_copies w)(n := Some (f, d))) m = Some (g, x)" for m g x
    using that ex(2) [of m] ok by (cases "m = n") (auto simp: copy_ok_def)
  ultimately show ?thesis using assms(1) ex(1) unfolding coherent_def by simp
qed

lemma copy_ok_latch [simp]: "copy_ok (f\<lparr>bflatch := l\<rparr>) cur n g d \<longleftrightarrow> copy_ok f cur n g d" "copy_ok f cur n (g\<lparr>bflatch := l\<rparr>) d \<longleftrightarrow> copy_ok f cur n g d"
proof -
  have "isPossessor m (g\<lparr>bflatch := l\<rparr>) \<longleftrightarrow> isPossessor m g" for m by (cases "possession g") (simp_all add: isPossessor_def)
  then show "copy_ok (f\<lparr>bflatch := l\<rparr>) cur n g d \<longleftrightarrow> copy_ok f cur n g d" "copy_ok f cur n (g\<lparr>bflatch := l\<rparr>) d \<longleftrightarrow> copy_ok f cur n g d"
    by (simp_all add: copy_ok_def)
qed

lemma holders_latch [simp]: "holders (f\<lparr>bflatch := l\<rparr>) = holders f"
  by (metis owner_frame_latch(2) dir_of_sel(2))

lemma coherent_latch:
  assumes "coherent cur w"
  shows "coherent cur (w\<lparr>cl_dir := (cl_dir w)\<lparr>bflatch := l\<rparr>\<rparr>)"
    and "cl_copies w n = Some (f, d) \<Longrightarrow> coherent cur (w\<lparr>cl_copies := (cl_copies w)(n := Some (f\<lparr>bflatch := l\<rparr>, d))\<rparr>)"
  using assms by (auto simp: coherent_def)

text \<open>The directory of the owner after an eviction, and the copies that are left.\<close>

lemma coherent_evicted:
  assumes coh: "coherent cur w" and f: "owner_frame (cl_owner w) f'" "dir_of f' = dir_evict (cl_owner w) client (dir_of (cl_dir w))"
    and data: "state f' = HOT \<Longrightarrow> d = cur" and cl: "client \<noteq> cl_owner w \<Longrightarrow> client \<in> holders (cl_dir w)"
  shows "coherent cur (w\<lparr>cl_dir := f', cl_data := d, cl_copies := (if client = cl_owner w then cl_copies w else (cl_copies w)(unat client := None))\<rparr>)"
    (is "coherent cur ?w")
proof -
  let ?D = "cl_dir w" and ?o = "cl_owner w"
  have fd: "possession f' = possession ?D" "pVersion f' = pVersion ?D" "holders f' = (if holders ?D - {client} = {} then {?o} else holders ?D - {client})"
    using arg_cong [OF f(2), of d_mode] arg_cong [OF f(2), of d_version] arg_cong [OF f(2), of d_holders] by (simp_all add: dir_evict_def)
  have h: "holders f' - {?o} = holders ?D - {?o} - {client}" using fd(3) by auto
  have dom: "cl_copies w n \<noteq> None \<longleftrightarrow> n \<in> unat ` (holders ?D - {?o})" for n using coh unfolding coherent_def by blast
  have "cl_copies ?w n \<noteq> None \<longleftrightarrow> n \<in> unat ` (holders f' - {?o})" for n
    using dom [of n] unfolding h by (auto simp: word_unat_eq_iff [symmetric])
  moreover have "copy_ok f' cur n g x" if "cl_copies ?w n = Some (g, x)" for n g x
  proof -
    have "cl_copies w n = Some (g, x)" using that by (auto split: if_splits)
    then have "copy_ok ?D cur n g x" using coh unfolding coherent_def by blast
    then show ?thesis using fd by (simp add: copy_ok_def)
  qed
  ultimately show ?thesis using coh f(1) data unfolding coherent_def by simp
qed

lemma coherent_evict_owner:
  assumes coh: "coherent cur w" and s: "bmNode (pbm s) = cl_owner w" "i < length (bfs (pbm s))" "pbf s i = (cl_dir w)\<lparr>bflatch := l\<rparr>" "state (cl_dir w) = HOT" "latch_ok l" "isLatched l"
      "\<not> evict_to_ssd fl" "buffer_ok s" and run: "evict_owner_page fl e i ep s = Some (Inr (True, s'))"
  shows "coherent cur (w\<lparr>cl_dir := pbf s' i\<rparr>)"
proof -
  have ow: "owner_frame (cl_owner w) (cl_dir w)" "cl_data w = cur" using coh s(4) by (simp_all add: coherent_def)
  then have f: "owner_frame (bmNode (pbm s)) (pbf s i)" "state (pbf s i) = HOT" "latch_ok (bflatch (pbf s i))" "isLatched (bflatch (pbf s i))"
    using s by simp_all
  obtain l' where "pbf s' i = (owner_evicted (cl_owner w) (pbf s i))\<lparr>bflatch := l'\<rparr>"
    using evict_owner_page_ok [OF s(7,2,8) f, of e ep] run s(1) by auto
  then have "owner_frame (cl_owner w) (pbf s' i)" "dir_of (pbf s' i) = dir_evict (cl_owner w) (cl_owner w) (dir_of (cl_dir w))"
    using owner_evicted_ok [of "cl_owner w" "pbf s i"] f(1,2) s(1,3) by simp_all
  from coherent_evicted [OF coh this, of "cl_data w"] ow(2) show ?thesis by (cases w) simp
qed

lemma coherent_evict_copy:
  assumes coh: "coherent cur w" and s: "bmNode (pbm s) = cl_owner w" "i < length (bfs (pbm s))" "pbf s i = (cl_dir w)\<lparr>bflatch := l\<rparr>" "latch_ok l" "isLatched l"
      "\<not> evict_to_ssd fl" "buffer_ok s" "rb_items (privatePageBuffer s) = Some a # pgs" "room_for c s"
    and cp: "cl_copies w (unat client) = Some (f, d)" and cr: "\<not> copy_in_flight crs (pid (pbf s i))"
    and run: "serve_entry fl crs envs c client i ee s = Some (Inr s')"
  shows "coherent cur (w\<lparr>cl_dir := pbf s' i, cl_data := (if reads (pp_cctxs s' ! c) \<noteq> reads (pp_cctxs s ! c) then d else cl_data w), cl_copies := (cl_copies w)(unat client := None)\<rparr>)"
proof -
  have ow: "owner_frame (cl_owner w) (cl_dir w)" "state (cl_dir w) = HOT \<Longrightarrow> cl_data w = cur" using coh by (simp_all add: coherent_def)
  have d: "d = cur" using coh cp unfolding coherent_def copy_ok_def by blast
  have "unat client \<in> unat ` (holders (cl_dir w) - {cl_owner w})" using coherent_none [OF coh, of "unat client"] cp by auto
  then have cl: "client \<in> holders (cl_dir w)" "client \<noteq> cl_owner w" by (auto simp: word_unat_eq_iff [symmetric])
  have f: "owner_frame (bmNode (pbm s)) (pbf s i)" "latch_ok (bflatch (pbf s i))" "isLatched (bflatch (pbf s i))" "client \<in> holders (pbf s i)" "client \<noteq> bmNode (pbm s)"
    using s ow(1) cl by simp_all
  have r: "owner_frame (cl_owner w) (pbf s' i)" "dir_of (pbf s' i) = dir_evict (cl_owner w) client (dir_of (cl_dir w))"
    "if holders (cl_dir w) = {client} then reads (pp_cctxs s' ! c) = reads (pp_cctxs s ! c) @ [(pageP (pbf s' i), ee_offset ee)]
     else reads (pp_cctxs s' ! c) = reads (pp_cctxs s ! c) \<and> state (pbf s' i) = state (cl_dir w)"
    using serve_entry_ok [OF s(6,2,9,7,8) f cr, of envs ee] run s(1,3) by (auto split: if_splits)
  have "(if reads (pp_cctxs s' ! c) \<noteq> reads (pp_cctxs s ! c) then d else cl_data w) = cur" if "state (pbf s' i) = HOT"
    using r(3) that ow(2) d by (auto split: if_splits)
  from coherent_evicted [OF coh r(1,2) this] cl show ?thesis by simp
qed

lemma protocol_step:
  assumes "protocol p x y" and "getOwner p = cl_owner (snd x)" and "coherent (fst x) (snd x)"
  shows "coherent (fst y) (snd y) \<and> cl_owner (snd y) = cl_owner (snd x)"
  using assms
proof (induction rule: protocol.induct)
  case (Fix_remote client w f nodes rnd tries ft f' w' d cur)
  then have coh: "coherent cur w" "getOwner p = cl_owner w" by simp_all
  from fix_remote_ok [OF coh Fix_remote(1,2,4,5,6,7,8,9,3), of ft] Fix_remote(10,11) show ?case by auto
next
  case (Fix_local w ft rnd a f' w' d cur)
  then have coh: "coherent cur w" "getOwner p = cl_owner w" by simp_all
  have need: "ft = EXCLUSIVE \<and> holders (cl_dir w) \<noteq> {cl_owner w} \<or> ft = EXCLUSIVE \<and> possession (cl_dir w) = SHARED_P \<or> cl_owner w \<notin> holders (cl_dir w)"
    using Fix_local(1) by blast
  have "state (cl_dir w) = HOT \<Longrightarrow> cl_data w = cur" using coh(1) by (simp add: coherent_def)
  with fix_local_ok [OF coh refl need Fix_local(2), of a] Fix_local(3,4) show ?case by (auto split: if_splits)
next
  case (Fix_update client w f d nodes f' w' cur)
  then have coh: "coherent cur w" "getOwner p = cl_owner w" by simp_all
  from fix_update_ok [OF coh Fix_update(1,2,3,4,5,6)] Fix_update(7) show ?case by auto
next
  case (Write_owner w cur d)
  with coherent_write_owner show ?case by fastforce
next
  case (Write_copy w n f old cur d)
  with coherent_write_copy show ?case by fastforce
next
  case (Latch_owner cur w l)
  with coherent_latch(1) show ?case by fastforce
next
  case (Latch_copy w n f d cur l)
  with coherent_latch(2) show ?case by fastforce
next
  case (Evict_owner s w i l fl e ep s' cur)
  then have "coherent cur w" by simp
  from coherent_evict_owner [OF this Evict_owner(1-9)] show ?case by simp
next
  case (Evict_copy s w i l fl a pgs c client f d crs envs ee s' cur)
  then have "coherent cur w" by simp
  from coherent_evict_copy [OF this Evict_copy(1-12)] show ?case by simp
qed

lemma protocol_reachable:
  assumes "(protocol p)\<^sup>*\<^sup>* x y" and "getOwner p = cl_owner (snd x)" and "coherent (fst x) (snd x)"
  shows "coherent (fst y) (snd y) \<and> cl_owner (snd y) = cl_owner (snd x)"
  using assms by (induction rule: rtranclp_induct) (auto dest: protocol_step)

section \<open>Coherence of a page\<close>

text \<open>A page that was just created: only its owner possesses it.\<close>

definition fresh_cluster :: "NodeID \<Rightarrow> BufferFrame \<Rightarrow> 'd \<Rightarrow> 'd cluster" where
  "fresh_cluster node f d = \<lparr>cl_owner = node, cl_dir = f, cl_data = d, cl_copies = (\<lambda>_. None), cl_buf = None, cl_inbox = (\<lambda>_. None)\<rparr>"

lemma fresh_coherent:
  assumes "owner_frame node f" and "holders f = {node}"
  shows "coherent d (fresh_cluster node f d)"
  using assms by (simp add: coherent_def fresh_cluster_def)

lemma reachable_coherent:
  assumes "(protocol p)\<^sup>*\<^sup>* (d0, fresh_cluster (getOwner p) f d0) (cur, w)" and "owner_frame (getOwner p) f" and "holders f = {getOwner p}"
  shows "coherent cur w" and "getOwner p = cl_owner w"
proof -
  have o: "cl_owner (fresh_cluster (getOwner p) f d0) = getOwner p" by (simp add: fresh_cluster_def)
  from protocol_reachable [OF assms(1), unfolded fst_conv snd_conv, OF o [symmetric] fresh_coherent [OF assms(2,3)]] o
  show "coherent cur w" "getOwner p = cl_owner w" by simp_all
qed



text \<open>A page of node 0 is written by its owner and then read by node 1.\<close>

definition example_page :: PID where
  "example_page = mk_PID 0 7"

lemma example_page_owner: "getOwner example_page = 0"
  by (simp add: example_page_def getOwner_def mk_PID_def PAGEID_BITS_NODEID_def)

definition waiting_frame :: BufferFrame where
  "waiting_frame = new_BufferFrame\<lparr>state := IO_RDMA, bflatch := \<lparr>version = 6, smut = Writer\<rparr>\<rparr>"

lemma written_page:
  "(protocol example_page)\<^sup>*\<^sup>* (1 :: nat, fresh_cluster (getOwner example_page) owned_example 1) (2, fresh_cluster 0 owned_example 2)"
proof -
  have "(fresh_cluster 0 owned_example (1 :: nat))\<lparr>cl_data := 2\<rparr> = fresh_cluster 0 owned_example 2" by (simp add: fresh_cluster_def)
  then have "protocol example_page (1 :: nat, fresh_cluster 0 owned_example 1) (2, fresh_cluster 0 owned_example 2)"
    using protocol.Write_owner [of "fresh_cluster 0 owned_example (1 :: nat)" example_page 1 2] by (simp add: fresh_cluster_def owned_example_def)
  then show ?thesis unfolding example_page_owner by (rule r_into_rtranclp)
qed

lemma owned_example_holders: "holders owned_example = {0}"
  using owned_example_dir by (metis dir_of_sel(2) directory.select_convs(2))



end
