(* ===== verification/Fix_Proof.thy ===== *)
theory Fix_Proof
  imports Protocol
begin

text \<open>
  \<open>Buffermanager::fix\<close> as a whole: the lookup in the page table, the access functor, the exchange with other nodes and
  the downgrade of the latch.  Whatever it goes through, a guard it returns holds the frame of the page in the mode asked
  for, with the possession that mode needs; and it returns when the page is at hand, and when it has to be fetched from a
  cluster that follows the protocol.
\<close>

section \<open>The lookup\<close>

definition allows :: "LATCH_STATE \<Rightarrow> NodeID \<Rightarrow> BufferFrame \<Rightarrow> bool" where
  "allows ft = (if ft = EXCLUSIVE then suffices_X else isPossessor)"

definition keeps_node :: "find_env \<Rightarrow> bool" where
  "keeps_node e \<longleftrightarrow> (\<forall>m. bmNode (before e m) = bmNode m \<and> bmNode (waiting e m) = bmNode m)"

context frame_lookup
begin

lemma findFrameOrInsert_sound:
  assumes p: "p \<noteq> EMPTY_PID" and wf: "pt_wf m" and fair: "\<And>e. e \<in> set es \<Longrightarrow> fair_env p e"
  shows "findFrameOrInsert access undo BLOCKING es p n m = None
    \<or> (\<exists>s h. findFrameOrInsert access undo BLOCKING es p n m = Some (Inr (s, h)) \<and> (found_frame mode suffices n p s h \<or> frame_to_load p s h))"
  unfolding findFrameOrInsert_def
proof (rule attempts_invariant [where I = no_latch])
  show "no_latch (new_Guard, m)" using wf by (simp add: no_latch_def new_Guard_def holds_nothing_def)
  show "step_ok no_latch (\<lambda>s h. found_frame mode suffices n p s h \<or> frame_to_load p s h) (findFrameOrInsert_attempt access undo BLOCKING p n d s)"
    if "d \<in> set es" "no_latch s" for d s
    by (rule findFrameOrInsert_attempt_ok [OF p that(2)]) (use fair [OF that(1)] that(2) in \<open>simp_all add: fair_env_def no_latch_def\<close>)
qed

end

lemma lookup_sound:
  assumes "ft \<noteq> UNLATCHED" and "p \<noteq> EMPTY_PID" and "pt_wf m" and "\<And>e. e \<in> set es \<Longrightarrow> fair_env p e"
  shows "findFrameOrInsert (access_of ft) (undo_of ft) BLOCKING es p n m = None
    \<or> (\<exists>s h. findFrameOrInsert (access_of ft) (undo_of ft) BLOCKING es p n m = Some (Inr (s, h)) \<and> (found_frame ft (allows ft) n p s h \<or> frame_to_load p s h))"
  using exl.findFrameOrInsert_sound [OF assms(2-4), of es n] shl.findFrameOrInsert_sound [OF assms(2-4), of es n]
    opl.findFrameOrInsert_sound [OF assms(2-4), of es n] assms(1)
  by (cases ft) (simp_all add: access_of_def undo_of_def allows_def)

abbreviation node_kept :: "NodeID \<Rightarrow> ('g \<times> bufmgr, 'h) step_result \<Rightarrow> bool" where
  "node_kept k r \<equiv> (case r of Failed _ \<Rightarrow> True | Again s \<Rightarrow> bmNode (snd s) = k | Finished s _ \<Rightarrow> bmNode (snd s) = k)"

lemma on_found_node: "node_kept (bmNode m) (on_found access undo meth n e i g m)"
  by (simp add: on_found_def of_result_def Let_def split: sum.split prod.split)

lemma of_result_node: "(\<And>x. r = Inr x \<Longrightarrow> node_kept k (c x)) \<Longrightarrow> node_kept k (of_result r c)"
  by (simp add: of_result_def split: sum.split)

lemma bucket_steps_node [simp]:
  "unlatch_bucket b m = Inr m' \<Longrightarrow> bmNode m' = bmNode m" "init_frame j init m = Inr m' \<Longrightarrow> bmNode m' = bmNode m" "bmNode (set_ht_latch b l m) = bmNode m"
  by (auto simp: unlatch_bucket_def init_frame_def bind_r_def set_ht_latch_def split: sum.splits)

lemma insert_missing_node: "node_kept (bmNode m) (insert_missing p v b i g m)"
  by (auto simp: insert_missing_def Let_def intro!: of_result_node split: prod.split list.split bool.split option.split)

lemma attempt_node:
  assumes "keeps_node e"
  shows "node_kept (bmNode (snd s)) (findFrameOrInsert_attempt access undo meth p n e s)"
proof (cases "ol_optimisticLatchOrRestart (ht_latch (before e (snd s)) (bucket (before e (snd s)) p))")
  case None
  then show ?thesis using assms by (simp add: findFrameOrInsert_attempt_def keeps_node_def)
next
  case (Some v)
  let ?m = "before e (snd s)"
  have nb: "bmNode ?m = bmNode (snd s)" and nw: "bmNode (waiting e ?m) = bmNode (snd s)" using assms by (simp_all add: keeps_node_def)
  have f: "node_kept (bmNode (snd s)) (on_found access undo meth n e i (fst s) ?m)" for i
    using on_found_node [of ?m access undo meth n e i "fst s"] unfolding nb .
  have w: "node_kept (bmNode (snd s)) (insert_missing p v (bucket ?m p) i (fst s) (waiting e ?m))" for i
    using insert_missing_node [of "waiting e ?m" p v "bucket ?m p" i "fst s"] unfolding nw .
  show ?thesis
    using Some assms f w
    by (cases "find_walk (fails e) (bfs ?m) p (length (bfs ?m)) 0 (bucket ?m p)") (simp_all add: findFrameOrInsert_attempt_def keeps_node_def)
qed

lemma lookup_node:
  assumes "findFrameOrInsert access undo meth es p n m = Some (Inr (s, h))" and "\<And>e. e \<in> set es \<Longrightarrow> keeps_node e"
  shows "bmNode (snd s) = bmNode m"
proof -
  have "attempts (findFrameOrInsert_attempt access undo meth p n) es s0 = Some (Inr (s, h)) \<Longrightarrow> (\<And>e. e \<in> set es \<Longrightarrow> keeps_node e) \<Longrightarrow> bmNode (snd s) = bmNode (snd s0)" for s0
  proof (induction es arbitrary: s0)
    case (Cons e es)
    show ?case using attempt_node [of e s0 access undo meth p n] Cons
      by (auto split: step_result.splits)
  qed simp
  from this [of "(new_Guard, m)"] assms show ?thesis by (simp add: findFrameOrInsert_def)
qed

section \<open>Acquiring possession\<close>

text \<open>What happens to the latched frame while other nodes are asked: possession is taken and the latch is kept, or the
  latch is given back.\<close>

definition frame_kept :: "BufferFrame \<Rightarrow> BufferFrame \<Rightarrow> bool" where
  "frame_kept f f' \<longleftrightarrow> pid f' = pid f \<and> nextF f' = nextF f \<and> isHtBucket f' = isHtBucket f \<and> ht_bucket_latch f' = ht_bucket_latch f"

definition outcome_ok :: "LATCH_STATE \<Rightarrow> NodeID \<Rightarrow> BufferFrame \<Rightarrow> 'w acquire_outcome \<Rightarrow> bool" where
  "outcome_ok ft n f r \<longleftrightarrow>
     (case r of
        Acquired f' _ \<Rightarrow> frame_kept f f' \<and> bflatch f' = bflatch f \<and> state f' = HOT \<and> allows ft n f'
      | Backed_off f' _ \<Rightarrow> frame_kept f f' \<and> state f' = state f \<and> unlatchExclusive (bflatch f) = Inr (bflatch f'))"

lemma take_possession_kept:
  assumes "take_possession ft n f = Inr f'" and "unat n < MAX_NODES"
  shows "frame_kept f f' \<and> bflatch f' = bflatch f \<and> state f' = HOT \<and> allows ft n f'"
  using assms take_possession_ok [OF assms(2), of ft f]
  by (auto simp: take_possession_def wanted_def setPossessor_def frame_kept_def allows_def suffices_X_def)

lemma back_off_kept:
  "back_off f w = Inr r \<Longrightarrow> frame_kept f0 f \<Longrightarrow> state f = state f0 \<Longrightarrow> bflatch f = bflatch f0 \<Longrightarrow> outcome_ok ft n f0 r"
  by (auto simp: back_off_def ensure_def bind_r_def outcome_ok_def frame_kept_def split: sum.splits if_splits)

lemma copy_loop_kept:
  "copy_loop net p shared tries f w = Some (Inr r) \<Longrightarrow> (\<exists>w'. r = Acquired f w') \<or> (\<exists>f' w'. r = Backed_off f' w' \<and> outcome_ok ft n f r)"
proof (induction tries arbitrary: w)
  case (Cons t tries)
  obtain rnd mhw where t: "t = (rnd, mhw)" by (cases t)
  show ?case
  proof (cases "copyPageRnd net rnd p shared (page_offset f) (pVersion f) w")
    case (Inr a)
    obtain res w' where a: "a = (res, w')" by (cases a)
    show ?thesis
    proof (cases "res = Some WithPage \<or> res = None \<or> \<not> mhw")
      case True
      with Cons t Inr a show ?thesis by (auto split: if_splits option.splits)
    next
      case False
      with Cons.prems t Inr a have b: "back_off (f\<lparr>mhWaiting := True\<rparr>) w' = Inr r" by (auto split: if_splits)
      then have "\<exists>f' w'. r = Backed_off f' w'" by (auto simp: back_off_def ensure_def bind_r_def split: sum.splits if_splits)
      then show ?thesis using back_off_kept [OF b, of f ft n] by (simp add: frame_kept_def)
    qed
  qed (use Cons t in \<open>auto split: if_splits\<close>)
qed simp

lemma resolve_conflict_kept:
  assumes "resolve_conflict net rnd tries p a f w = Some (Inr r)"
  shows "(\<exists>w'. r = Acquired f w') \<or> (\<exists>f' w'. r = Backed_off f' w' \<and> outcome_ok ft n f r)"
proof (cases "prr_resultType a = NoPageEvicted")
  case True
  with assms copy_loop_kept [of net p _ tries f w r ft n] show ?thesis by (auto simp: resolve_conflict_def split: option.splits)
next
  case False
  with assms show ?thesis
    by (auto simp: resolve_conflict_def ensure_def bind_r_def split: option.splits sum.splits if_splits prod.splits)
qed

lemma frame_kept_trans: "frame_kept f g \<Longrightarrow> frame_kept g h \<Longrightarrow> frame_kept f h"
  by (simp add: frame_kept_def)

lemma frame_kept_upd [simp]:
  "frame_kept f (f\<lparr>pVersion := v\<rparr>)" "frame_kept f (f\<lparr>pVersion := v, possessors := ps\<rparr>)" "frame_kept f (f\<lparr>possession := x\<rparr>)" "frame_kept f (f\<lparr>possessors := ps\<rparr>)" "frame_kept f f"
  by (simp_all add: frame_kept_def)

lemma outcome_ok_from:
  assumes "outcome_ok ft n g r" and "frame_kept f g" and "state g = state f" and "bflatch g = bflatch f"
  shows "outcome_ok ft n f r"
  using assms by (auto simp: outcome_ok_def frame_kept_def split: acquire_outcome.splits)

lemma fix_remote_kept:
  assumes "fix_remote net rnd tries nodes ft n p f w = Some (Inr r)" and "unat n < MAX_NODES"
  shows "outcome_ok ft n f r"
proof -
  let ?q = "ensure (state f = IO_RDMA) (ensure (1 < nodes) (ensure (isLatched (bflatch f)) (
           let owner = unat (getOwner p);
               w = writeMsgASync net owner (PossessionReq \<lparr>pr_type = (if ft = EXCLUSIVE then PRX else PRS), pr_pid = p, pr_pageOffset = page_offset f\<rparr>) w
           in case collectResponseMsgASync net owner w of
                (PossessionResp r, w) \<Rightarrow> (case prr_pVersion r of None \<Rightarrow> Inl Undefined | Some v \<Rightarrow> Inr (r, f\<lparr>pVersion := v\<rparr>, w))
              | _ \<Rightarrow> Inl Undefined)))"
  obtain a g w1 where q: "?q = Inr (a, g, w1)" using assms(1) unfolding fix_remote_def by (cases ?q) auto
  then obtain v where g: "g = f\<lparr>pVersion := v\<rparr>"
    unfolding ensure_def Let_def by (auto split: if_splits prod.splits option.splits Message.splits)
  obtain x where x: "resolve_conflict net rnd tries p a (f\<lparr>pVersion := v\<rparr>) w1 = Some (Inr x)"
    and r: "case x of Acquired g w' \<Rightarrow> bind_r (take_possession ft n g) (\<lambda>g. Inr (Acquired g w')) = Inr r | Backed_off _ _ \<Rightarrow> r = x"
    using assms(1) unfolding fix_remote_def q g by (auto split: option.splits sum.splits acquire_outcome.splits)
  from resolve_conflict_kept [OF x, of ft n] show ?thesis
  proof
    assume "\<exists>w'. x = Acquired (f\<lparr>pVersion := v\<rparr>) w'"
    then obtain w' f' where "take_possession ft n (f\<lparr>pVersion := v\<rparr>) = Inr f'" "r = Acquired f' w'"
      using r by (auto simp: bind_r_def split: sum.splits)
    then show ?thesis using take_possession_kept [OF _ assms(2)] by (fastforce simp: outcome_ok_def frame_kept_def)
  next
    assume "\<exists>f' w'. x = Backed_off f' w' \<and> outcome_ok ft n (f\<lparr>pVersion := v\<rparr>) x"
    then have "outcome_ok ft n (f\<lparr>pVersion := v\<rparr>) r" using r by auto
    then show ?thesis using outcome_ok_from [of ft n "f\<lparr>pVersion := v\<rparr>" r f] by simp
  qed
qed

lemma fix_local_kept:
  assumes "fix_local net rnd ft n p f w = Inr r" and "unat n < MAX_NODES"
  shows "outcome_ok ft n f r"
proof -
  define a where "a = (case possession f of
        EXCLUSIVE_P \<Rightarrow>
          let f = f\<lparr>pVersion := pVersion f + 1\<rparr>;
              a = writeMsgSync net (unat (possessors f)) (move_request p True (page_offset f) (pVersion f)) w
          in bind_r (expect_move WithPage a) (\<lambda>w. Inr (Acquired (f\<lparr>possessors := 0\<rparr>) w))
      | SHARED_P \<Rightarrow>
          if ft = EXCLUSIVE then
            let f = f\<lparr>pVersion := pVersion f + 1, possessors := bm64_reset (possessors f) n\<rparr>
            in bind_r (if state f = EVICTED then movePageRnd net rnd p (possessors f) (page_offset f) (pVersion f) w else Inr (possessors f, w)) (\<lambda>(shared, w).
               bind_r (invalidateSharedConflicts net p shared (pVersion f) w) (\<lambda>(shared, w). Inr (Acquired (f\<lparr>possessors := shared\<rparr>) w)))
          else
            ensure (state f = EVICTED) (ensure (bm64_any (possessors f)) (
            bind_r (copyPageRnd net rnd p (possessors f) (page_offset f) (pVersion f) w) (\<lambda>(res, w).
            case res of
              None \<Rightarrow> Inl Undefined
            | Some res \<Rightarrow> if res \<noteq> WithPage then back_off f w else Inr (Acquired f w))))
      | NOBODY \<Rightarrow> Inl (Runtime_error ''Invalid state in fix''))"
  have a: "(\<exists>g w'. x = Acquired g w' \<and> frame_kept f g \<and> bflatch g = bflatch f) \<or> (\<exists>w'. back_off f w' = Inr x)" if "a = Inr x" for x
    using that unfolding a_def ensure_def bind_r_def Let_def
    by (auto split: POSSESSION.splits if_splits sum.splits option.splits prod.splits)
  from assms(1) obtain x where x: "a = Inr x" unfolding fix_local_def a_def [symmetric] by (cases a) auto
  from a [OF x] show ?thesis
  proof
    assume "\<exists>g w'. x = Acquired g w' \<and> frame_kept f g \<and> bflatch g = bflatch f"
    then obtain g w' f' where "take_possession ft n g = Inr f'" "r = Acquired f' w'" "frame_kept f g" "bflatch g = bflatch f"
      using assms(1) x unfolding fix_local_def a_def [symmetric] by (auto simp: bind_r_def ensure_def split: sum.splits if_splits)
    then show ?thesis using take_possession_kept [OF _ assms(2), of ft g f'] frame_kept_trans [of f g f'] by (simp add: outcome_ok_def)
  next
    assume "\<exists>w'. back_off f w' = Inr x"
    then obtain w' where w': "back_off f w' = Inr x" ..
    then have "r = x" using assms(1) x unfolding fix_local_def a_def [symmetric] by (auto simp: back_off_def ensure_def bind_r_def split: sum.splits if_splits)
    then show ?thesis using back_off_kept [OF w', of f ft n] by simp
  qed
qed

lemma fix_update_kept:
  assumes "fix_update net nodes n p f w = Inr r"
  shows "outcome_ok ft n f r"
proof -
  have "(\<exists>w'. back_off (f\<lparr>pVersion := pVersion f\<rparr>) w' = Inr r) \<or> (\<exists>w'. r = Acquired (f\<lparr>pVersion := pVersion f + 1, possession := EXCLUSIVE_P, possessors := n, state := HOT\<rparr>) w')"
    using assms unfolding fix_update_def ensure_def bind_r_def Let_def
    by (auto simp: setPossessor_def split: if_splits sum.splits option.splits prod.splits Message.splits)
  then show ?thesis
    using back_off_kept [of f _ r f ft n] by (auto simp: outcome_ok_def frame_kept_def allows_def suffices_X_def isPossessor_def)
qed

section \<open>The frame in the page table\<close>

definition fixed :: "LATCH_STATE \<Rightarrow> PID \<Rightarrow> NodeID \<Rightarrow> bufmgr \<Rightarrow> fref Guard \<Rightarrow> bool" where
  "fixed ft p n m g \<longleftrightarrow> pt_wf m \<and> bmNode m = n \<and> gstate g = INITIALIZED \<and> (latchState g = ft \<or> latchState g = EXCLUSIVE)
     \<and> (\<exists>i. table m p = Some i \<and> gframe g = Some i \<and> guard_holds g (bfs m ! i) \<and> allows ft n (bfs m ! i))"

lemma frame_set:
  assumes "pt_wf m" and "table m p = Some i" and "frame_kept (bfs m ! i) f'" and "latch_ok (bflatch f')" and "state f' \<noteq> FREE"
  shows "pt_wf (upd_frame i (\<lambda>_. f') m)" and "table (upd_frame i (\<lambda>_. f') m) = table m" and "bfs (upd_frame i (\<lambda>_. f') m) ! i = f'"
proof -
  note t = tbl_Some [OF assms(1) [unfolded pt_wf_def] assms(2) [unfolded table_def]]
  have "same_links (bfs m ! i) f'" using assms(3,5) t(5) by (simp add: frame_kept_def same_links_def)
  from pt_wf_upd [OF assms(1) t(4) this assms(4,5)] t(4)
  show "pt_wf (upd_frame i (\<lambda>_. f') m)" "table (upd_frame i (\<lambda>_. f') m) = table m" "bfs (upd_frame i (\<lambda>_. f') m) ! i = f'" by (simp_all add: upd_frame_nth)
qed

lemma upd_frame_const: "upd_frame i u m = upd_frame i (\<lambda>_. u (bfs m ! i)) m"
  by (simp add: upd_frame_def)

lemma table_frame:
  assumes "pt_wf m" and "table m p = Some i"
  shows "latch_ok (bflatch (bfs m ! i))" and "state (bfs m ! i) \<noteq> FREE" and "pid (bfs m ! i) = p" and "i < length (bfs m)"
proof -
  note t = tbl_Some [OF assms(1) [unfolded pt_wf_def] assms(2) [unfolded table_def]]
  show "latch_ok (bflatch (bfs m ! i))" "state (bfs m ! i) \<noteq> FREE" "pid (bfs m ! i) = p" "i < length (bfs m)"
    using t pt_ok_frame(2) [OF assms(1) [unfolded pt_wf_def] t(4)] by simp_all
qed

lemma touch_ok:
  assumes "pt_wf m" and "table m p = Some i"
  shows "pt_wf (touch i m)" and "table (touch i m) = table m" and "bmNode (touch i m) = bmNode m"
    and "bflatch (bfs (touch i m) ! i) = bflatch (bfs m ! i)" and "allows ft n (bfs (touch i m) ! i) = allows ft n (bfs m ! i)"
proof -
  let ?f = "if epoch (bfs m ! i) < globalEpoch m then (bfs m ! i)\<lparr>epoch := globalEpoch m\<rparr> else bfs m ! i"
  have u: "touch i m = upd_frame i (\<lambda>_. ?f) m" unfolding touch_def by (subst upd_frame_const) simp
  note f = table_frame [OF assms]
  have k: "frame_kept (bfs m ! i) ?f" "latch_ok (bflatch ?f)" "state ?f \<noteq> FREE" using f by (simp_all add: frame_kept_def)
  note s = frame_set [OF assms k]
  show "pt_wf (touch i m)" "table (touch i m) = table m" "bmNode (touch i m) = bmNode m" unfolding u using s by simp_all
  show "bflatch (bfs (touch i m) ! i) = bflatch (bfs m ! i)" unfolding u s(3) by simp
  have "isPossessor n ?f = isPossessor n (bfs m ! i)" by (rule isPossessor_cong) simp_all
  then show "allows ft n (bfs (touch i m) ! i) = allows ft n (bfs m ! i)" unfolding u s(3) by (simp add: allows_def suffices_X_def)
qed

lemma touch_fixed:
  assumes "pt_wf m" and "table m p = Some i" and "gframe g = Some i" and "gstate g = INITIALIZED" and "latchState g = ft \<or> latchState g = EXCLUSIVE"
    and "guard_holds g (bfs m ! i)" and "allows ft (bmNode m) (bfs m ! i)"
  shows "fixed ft p (bmNode m) (touch i m) g"
  using assms touch_ok [OF assms(1,2)] by (auto simp: fixed_def guard_holds_def split: LATCH_STATE.splits)

abbreviation finish_ok :: "LATCH_STATE \<Rightarrow> PID \<Rightarrow> NodeID \<Rightarrow> (bufmgr \<times> 'w, fref Guard) step_result \<Rightarrow> bool" where
  "finish_ok ft p n r \<equiv> (case r of Failed _ \<Rightarrow> True | Again s \<Rightarrow> pt_wf (fst s) \<and> bmNode (fst s) = n | Finished s g \<Rightarrow> fixed ft p n (fst s) g)"

lemma fix_finish_ok:
  assumes wf: "pt_wf m" and t: "table m p = Some i" and g: "gframe g = Some i" "latchState g = EXCLUSIVE" "vAcquired g = version (bflatch (bfs m ! i))"
    and l: "smut (bflatch (bfs m ! i)) = Writer" and gap: "\<And>l. latch_ok l \<Longrightarrow> latch_ok (gap l)"
    and al: "allows ft (bmNode m) (bfs m ! i)" and ft: "ft \<noteq> UNLATCHED"
  shows "finish_ok ft p (bmNode m) (fix_finish gap ft i g m w)"
proof -
  let ?f = "bfs m ! i" and ?n = "bmNode m"
  note f = table_frame [OF wf t]
  have set: "pt_wf (upd_frame i (\<lambda>f. f\<lparr>bflatch := l\<rparr>) m)" "table (upd_frame i (\<lambda>f. f\<lparr>bflatch := l\<rparr>) m) = table m"
    "bfs (upd_frame i (\<lambda>f. f\<lparr>bflatch := l\<rparr>) m) ! i = ?f\<lparr>bflatch := l\<rparr>" "allows ft ?n (?f\<lparr>bflatch := l\<rparr>)" if "latch_ok l" for l
  proof -
    have k: "frame_kept ?f (?f\<lparr>bflatch := l\<rparr>)" "latch_ok (bflatch (?f\<lparr>bflatch := l\<rparr>))" "state (?f\<lparr>bflatch := l\<rparr>) \<noteq> FREE" using f that by (simp_all add: frame_kept_def)
    show "pt_wf (upd_frame i (\<lambda>f. f\<lparr>bflatch := l\<rparr>) m)" "table (upd_frame i (\<lambda>f. f\<lparr>bflatch := l\<rparr>) m) = table m"
      "bfs (upd_frame i (\<lambda>f. f\<lparr>bflatch := l\<rparr>) m) ! i = ?f\<lparr>bflatch := l\<rparr>"
      using frame_set [OF wf t k] by (subst upd_frame_const; simp)+
    have "isPossessor ?n (?f\<lparr>bflatch := l\<rparr>) = isPossessor ?n ?f" by (rule isPossessor_cong) simp_all
    then show "allows ft ?n (?f\<lparr>bflatch := l\<rparr>)" using al by (simp add: allows_def suffices_X_def split: if_splits)
  qed
  have fin: "fixed ft p ?n (touch i (upd_frame i (\<lambda>f. f\<lparr>bflatch := l\<rparr>) m)) g'" if "latch_ok l" "gframe g' = Some i" "gstate g' = INITIALIZED"
    "latchState g' = ft" "guard_holds g' (?f\<lparr>bflatch := l\<rparr>)" for l g'
    using touch_fixed [of "upd_frame i (\<lambda>f. f\<lparr>bflatch := l\<rparr>) m" p i g' ft] set [OF that(1)] that t by simp
  note d = guard_downgrade_sound [of "bflatch ?f" g gap, OF f(1) g(2) l g(3) gap]
  show ?thesis
  proof (cases ft)
    case EXCLUSIVE
    then show ?thesis using fin [OF f(1), of "g\<lparr>gstate := INITIALIZED\<rparr>"] g l f(1) set [OF f(1)]
      by (auto simp: fix_finish_def needDowngrade_def of_result_def guard_holds_def Let_def)
  next
    case SHARED
    obtain b g' l' where d: "downgrade gap SHARED g (bflatch ?f) = Inr (b, g', l')" "latch_ok l'"
      "if b then latchState g' = SHARED \<and> 0 < readers l' \<and> version l' = version (bflatch ?f) + 2 \<and> vAcquired g' = version l' else latchState g' = UNLATCHED \<and> gstate g' = RETRY"
      using d by blast
    have "gframe g' = Some i" using d(1) g(1) by (auto simp: downgrade_def ensure_def bind_r_def Let_def split: if_splits sum.splits prod.splits)
    then show ?thesis using SHARED d fin [OF d(2), of "g'\<lparr>gstate := INITIALIZED\<rparr>"] g set [OF d(2)]
      by (auto simp: fix_finish_def needDowngrade_def of_result_def guard_holds_def Let_def split: if_splits)
  next
    case OPTIMISTIC
    obtain g' l' where d: "downgrade gap OPTIMISTIC g (bflatch ?f) = Inr (True, g', l')" "latch_ok l'" "latchState g' = OPTIMISTIC" using d by blast
    have "gframe g' = Some i" using d(1) g(1,2) by (auto simp: downgrade_def ensure_def bind_r_def split: if_splits sum.splits)
    then show ?thesis using OPTIMISTIC d fin [OF d(2), of "g'\<lparr>gstate := INITIALIZED\<rparr>"] g set [OF d(2)]
      by (auto simp: fix_finish_def needDowngrade_def of_result_def guard_holds_def Let_def split: if_splits)
  qed (use ft in simp)
qed

section \<open>fix\<close>

text \<open>What a worker may rely on while it fixes page \<open>p\<close>: the others keep the table in order and leave the frames it
  has latched alone.\<close>

definition fair_fix :: "PID \<Rightarrow> 'w fix_env \<Rightarrow> bool" where
  "fair_fix p e \<longleftrightarrow> (\<forall>d\<in>set (fe_find e). fair_env p d \<and> keeps_node d) \<and> (\<forall>l. latch_ok l \<longrightarrow> latch_ok (fe_gap e l))
     \<and> (\<forall>m i. pt_wf m \<and> table m p = Some i \<longrightarrow> pt_wf (fe_wait e m) \<and> table (fe_wait e m) p = Some i \<and> bfs (fe_wait e m) ! i = bfs m ! i \<and> bmNode (fe_wait e m) = bmNode m)"

lemma fair_fixD:
  assumes "fair_fix p e"
  shows "d \<in> set (fe_find e) \<Longrightarrow> fair_env p d" and "d \<in> set (fe_find e) \<Longrightarrow> keeps_node d" and "latch_ok l \<Longrightarrow> latch_ok (fe_gap e l)"
    and "pt_wf m \<Longrightarrow> table m p = Some i \<Longrightarrow> pt_wf (fe_wait e m) \<and> table (fe_wait e m) p = Some i \<and> bfs (fe_wait e m) ! i = bfs m ! i \<and> bmNode (fe_wait e m) = bmNode m"
  using assms by (auto simp: fair_fix_def)

definition latched_for :: "PID \<Rightarrow> fref \<Rightarrow> fref Guard \<Rightarrow> bufmgr \<Rightarrow> bool" where
  "latched_for p i g m \<longleftrightarrow> pt_wf m \<and> table m p = Some i \<and> gframe g = Some i \<and> latchState g = EXCLUSIVE
     \<and> smut (bflatch (bfs m ! i)) = Writer \<and> vAcquired g = version (bflatch (bfs m ! i))"

lemma latched_for_set:
  assumes "latched_for p i g m" and "frame_kept (bfs m ! i) f" and "bflatch f = bflatch (bfs m ! i)" and "state f \<noteq> FREE"
  shows "latched_for p i g (upd_frame i (\<lambda>_. f) m)"
  using assms frame_set [of m p i f] table_frame(1) [of m p i] by (simp add: latched_for_def)

lemma acquired_finish:
  assumes "latched_for p i g m" and "frame_kept (bfs m ! i) f" and "bflatch f = bflatch (bfs m ! i)" and "state f = HOT" and "allows ft (bmNode m) f"
    and "\<And>l. latch_ok l \<Longrightarrow> latch_ok (gap l)" and "ft \<noteq> UNLATCHED"
  shows "finish_ok ft p (bmNode m) (fix_finish gap ft i g (upd_frame i (\<lambda>_. f) m) w)"
proof -
  have l: "latched_for p i g (upd_frame i (\<lambda>_. f) m)" using latched_for_set [OF assms(1-3)] assms(4) by simp
  have "i < length (bfs m)" using assms(1) table_frame(4) [of m p i] by (simp add: latched_for_def)
  then have "bfs (upd_frame i (\<lambda>_. f) m) ! i = f" by (simp add: upd_frame_nth)
  moreover have "bmNode (upd_frame i (\<lambda>_. f) m) = bmNode m" by simp
  ultimately show ?thesis
    using fix_finish_ok [of "upd_frame i (\<lambda>_. f) m" p i g gap ft w] l assms(5-7) unfolding latched_for_def by metis
qed

lemma backed_off_table:
  assumes "latched_for p i g m" and "frame_kept (bfs m ! i) f" and "unlatchExclusive (bflatch (bfs m ! i)) = Inr (bflatch f)" and "state f \<noteq> FREE"
  shows "pt_wf (upd_frame i (\<lambda>_. f) m)"
proof -
  have wf: "pt_wf m" "table m p = Some i" using assms(1) by (simp_all add: latched_for_def)
  note f = table_frame [OF wf]
  have "isLatched (bflatch (bfs m ! i))" using assms(3) by (auto simp: unlatchExclusive_def ensure_def split: if_splits)
  with unlatchExclusive_ok [OF f(1)] assms(3) have "latch_ok (bflatch f)" by simp
  from frame_set(1) [OF wf assms(2) this assms(4)] show ?thesis .
qed

lemma after_acquire_ok:
  assumes "latched_for p i g m" and "fair_fix p e" and "ft \<noteq> UNLATCHED" and "\<And>x. r = Inr x \<Longrightarrow> outcome_ok ft (bmNode m) (bfs m ! i) x"
  shows "finish_ok ft p (bmNode m) (after_acquire e ft i g m r)"
proof (cases r)
  case (Inr x)
  have o: "outcome_ok ft (bmNode m) (bfs m ! i) x" using assms(4) [OF Inr] .
  show ?thesis
  proof (cases x)
    case (Acquired f w)
    with o acquired_finish [OF assms(1), of f ft "fe_gap e" w] fair_fixD(3) [OF assms(2)] assms(3) Inr
    show ?thesis by (simp add: after_acquire_def of_result_def outcome_ok_def)
  next
    case (Backed_off f w)
    have "state (bfs m ! i) \<noteq> FREE" using assms(1) table_frame(2) [of m p i] by (simp add: latched_for_def)
    with Backed_off o backed_off_table [OF assms(1), of f] Inr show ?thesis by (simp add: after_acquire_def of_result_def outcome_ok_def)
  qed
qed (simp add: after_acquire_def of_result_def)

lemma finish_of_result: "(\<And>x. r = Inr x \<Longrightarrow> finish_ok ft p n (k x)) \<Longrightarrow> finish_ok ft p n (of_result r k)"
  by (simp add: of_result_def split: sum.split)

text \<open>The possession change at the owner: an evicted frame first gets a page.\<close>

definition page_for :: "'w fix_env \<Rightarrow> BufferFrame \<Rightarrow> bufmgr \<Rightarrow> (BufferFrame \<times> bufmgr) result" where
  "page_for e f m = (if state f = EVICTED then
     (case pageFree (fe_wait e m) of [] \<Rightarrow> Inl Blocked | a # as \<Rightarrow> Inr (f\<lparr>pageP := Some a\<rparr>, (fe_wait e m)\<lparr>pageFree := as\<rparr>)) else Inr (f, m))"

lemma page_for_ok:
  assumes "latched_for p i g m" and "fair_fix p e" and "page_for e (bfs m ! i) m = Inr (f, m')"
  shows "latched_for p i g m'" and "bmNode m' = bmNode m" and "frame_kept (bfs m' ! i) f" and "bflatch f = bflatch (bfs m' ! i)" and "state f = state (bfs m ! i)"
    and "bfs m' ! i = bfs m ! i"
  using assms fair_fixD(4) [OF assms(2), of m i] by (auto simp: page_for_def latched_for_def frame_kept_def split: if_splits list.splits)

lemma local_change_ok:
  assumes l: "latched_for p i g m" and e: "fair_fix p e" and ft: "ft \<noteq> UNLATCHED" and n: "unat n < MAX_NODES" "bmNode m = n"
  shows "finish_ok ft p n (of_result (page_for e (bfs m ! i) m) (\<lambda>(f, m).
     of_result (fix_local net rnd ft n p f w) (\<lambda>a. case a of
       Acquired f w \<Rightarrow> of_result (ensure (pid f \<noteq> EMPTY_PID) (Inr ())) (\<lambda>_. fix_finish (fe_gap e) ft i g (upd_frame i (\<lambda>_. f) m) w)
     | Backed_off f w \<Rightarrow> of_result (push_page f m) (\<lambda>m. Again (upd_frame i (\<lambda>_. f\<lparr>pageP := None\<rparr>) m, w)))))"
proof (rule finish_of_result, clarify)
  fix f m' assume pf: "page_for e (bfs m ! i) m = Inr (f, m')"
  note m' = page_for_ok [OF l e pf]
  have nf: "state (bfs m ! i) \<noteq> FREE" using l table_frame(2) [of m p i] by (simp add: latched_for_def)
  show "finish_ok ft p n (of_result (fix_local net rnd ft n p f w) (\<lambda>a. case a of
       Acquired f w \<Rightarrow> of_result (ensure (pid f \<noteq> EMPTY_PID) (Inr ())) (\<lambda>_. fix_finish (fe_gap e) ft i g (upd_frame i (\<lambda>_. f) m') w)
     | Backed_off f w \<Rightarrow> of_result (push_page f m') (\<lambda>m. Again (upd_frame i (\<lambda>_. f\<lparr>pageP := None\<rparr>) m, w))))"
  proof (rule finish_of_result)
    fix a assume a: "fix_local net rnd ft n p f w = Inr a"
    have o: "outcome_ok ft n f a" using fix_local_kept [OF a n(1)] .
    show "finish_ok ft p n (case a of
       Acquired f w \<Rightarrow> of_result (ensure (pid f \<noteq> EMPTY_PID) (Inr ())) (\<lambda>_. fix_finish (fe_gap e) ft i g (upd_frame i (\<lambda>_. f) m') w)
     | Backed_off f w \<Rightarrow> of_result (push_page f m') (\<lambda>m. Again (upd_frame i (\<lambda>_. f\<lparr>pageP := None\<rparr>) m, w)))"
    proof (cases a)
      case (Acquired f' w')
      with o have "frame_kept (bfs m' ! i) f'" "bflatch f' = bflatch (bfs m' ! i)" "state f' = HOT" "allows ft (bmNode m') f'"
        using m'(2-4) n(2) frame_kept_trans by (auto simp: outcome_ok_def)
      note acquired_finish [OF m'(1) this fair_fixD(3) [OF e] ft, where w = w', unfolded m'(2) n(2)]
      then show ?thesis using Acquired by (simp add: of_result_def ensure_def)
    next
      case (Backed_off f' w')
      let ?f = "f'\<lparr>pageP := None\<rparr>"
      have b: "frame_kept (bfs m' ! i) ?f" "unlatchExclusive (bflatch (bfs m' ! i)) = Inr (bflatch ?f)" "state ?f \<noteq> FREE"
        using o Backed_off m'(3-5) nf by (simp_all add: outcome_ok_def frame_kept_def)
      have "finish_ok ft p n (of_result (push_page f' m') (\<lambda>m. Again (upd_frame i (\<lambda>_. ?f) m, w')))"
      proof (rule finish_of_result)
        fix m'' assume "push_page f' m' = Inr m''"
        then obtain a where m'': "m'' = m'\<lparr>pageFree := a # pageFree m'\<rparr>" by (auto simp: push_page_def split: option.splits)
        have "latched_for p i g m''" "bfs m'' = bfs m'" "bmNode m'' = n" using m'(1,2) n(2) unfolding m'' by (simp_all add: latched_for_def)
        then show "finish_ok ft p n (Again (upd_frame i (\<lambda>_. ?f) m'', w'))" using backed_off_table [of p i g m'' ?f] b by simp
      qed
      with Backed_off show ?thesis by simp
    qed
  qed
qed

lemma ssd_ok:
  assumes "latched_for p i g m" and "fair_fix p e" and "ft \<noteq> UNLATCHED" and "unat n < MAX_NODES" and "bmNode m = n"
  shows "finish_ok ft p n (of_result (take_possession ft n (bfs m ! i)) (\<lambda>f. of_result (ensure (pid f \<noteq> EMPTY_PID) (Inr ())) (\<lambda>_.
     fix_finish (fe_gap e) ft i g (upd_frame i (\<lambda>_. f) m) w)))"
proof (intro finish_of_result)
  fix f assume f: "take_possession ft n (bfs m ! i) = Inr f"
  have k: "frame_kept (bfs m ! i) f" "bflatch f = bflatch (bfs m ! i)" "state f = HOT" "allows ft (bmNode m) f"
    using take_possession_kept [OF f assms(4)] assms(5) by simp_all
  show "finish_ok ft p n (fix_finish (fe_gap e) ft i g (upd_frame i (\<lambda>_. f) m) w)"
    using acquired_finish [OF assms(1) k fair_fixD(3) [OF assms(2)] assms(3), where w = w] unfolding assms(5) .
qed

lemma update_ok:
  assumes l: "latched_for p i g m" and n: "bmNode m = n"
  shows "finish_ok ft p n (of_result (fix_update net nodes n p (bfs m ! i) w) (\<lambda>a. case a of
       Acquired f w \<Rightarrow> Finished (touch i (upd_frame i (\<lambda>_. f) m), w) (g\<lparr>gstate := INITIALIZED\<rparr>)
     | Backed_off f w \<Rightarrow> Again (upd_frame i (\<lambda>_. f) m, w)))"
proof (rule finish_of_result)
  fix a assume "fix_update net nodes n p (bfs m ! i) w = Inr a"
  from fix_update_kept [OF this] have o: "outcome_ok ft n (bfs m ! i) a" .
  show "finish_ok ft p n (case a of
       Acquired f w \<Rightarrow> Finished (touch i (upd_frame i (\<lambda>_. f) m), w) (g\<lparr>gstate := INITIALIZED\<rparr>)
     | Backed_off f w \<Rightarrow> Again (upd_frame i (\<lambda>_. f) m, w))"
  proof (cases a)
    case (Acquired f w)
    with o have k: "frame_kept (bfs m ! i) f" "bflatch f = bflatch (bfs m ! i)" "state f \<noteq> FREE" "allows ft n f" by (simp_all add: outcome_ok_def)
    let ?m = "upd_frame i (\<lambda>_. f) m"
    have s: "latched_for p i g ?m" using latched_for_set [OF l k(1-3)] .
    have "bfs ?m ! i = f" using l table_frame(4) [of m p i] by (simp add: latched_for_def upd_frame_nth)
    with touch_fixed [of ?m p i "g\<lparr>gstate := INITIALIZED\<rparr>" ft] s k(4) n Acquired show ?thesis
      by (simp add: latched_for_def guard_holds_def)
  next
    case (Backed_off f w)
    have "state (bfs m ! i) \<noteq> FREE" using l table_frame(2) [of m p i] by (simp add: latched_for_def)
    with Backed_off o backed_off_table [OF l, of f] n show ?thesis by (simp add: outcome_ok_def)
  qed
qed

lemma looked_up_latched:
  assumes "found_frame ft (allows ft) n p (g, m) h \<or> frame_to_load p (g, m) h"
  obtains (hot) i where "h = g" "pt_wf m" "table m p = Some i" "gframe g = Some i" "gstate g = INITIALIZED" "latchState g = ft" "guard_holds g (bfs m ! i)" "allows ft n (bfs m ! i)"
  | (cold) i where "h = g" "gframe g = Some i" "latched_for p i g m" "gstate g \<in> {SSD, REMOTE, LOCAL_POSSESSION_CHANGE, REMOTE_POSSESSION_CHANGE}"
  using assms
proof
  assume "found_frame ft (allows ft) n p (g, m) h"
  then obtain i where i: "h = g" "pt_wf m" "table m p = Some i" "gframe g = Some i" "acquired ft (allows ft) n g (bfs m ! i)"
    unfolding found_frame_def by auto
  then show thesis using hot [of i] cold [of i] by (auto simp: acquired_def latched_for_def guard_holds_def)
next
  assume "frame_to_load p (g, m) h"
  then obtain i where i: "h = g" "pt_wf m" "table m p = Some i" "gframe g = Some i" "to_load p g m i" unfolding frame_to_load_def by auto
  then show thesis using cold [of i] table_frame(1) [OF i(2,3)] by (auto simp: to_load_def latched_for_def latch_ok_def)
qed

lemma fix_body_ok:
  assumes g: "found_frame ft (allows ft) n p (g, m) h \<or> frame_to_load p (g, m) h" and e: "fair_fix p e" and ft: "ft \<noteq> UNLATCHED"
    and n: "unat n < MAX_NODES" "bmNode m = n" and r: "fix_body net nodes e ft p h m w = Some r"
  shows "finish_ok ft p n r"
  using g
proof (cases rule: looked_up_latched)
  case (hot i)
  then have "r = Finished (touch i m, w) g" using r by (simp add: fix_body_def)
  then show ?thesis using touch_fixed [OF hot(2-5)] hot(6-8) n(2) by simp
next
  case (cold i)
  note l = cold(3)
  from cold(4) consider "gstate g = SSD" | "gstate g = REMOTE" | "gstate g = LOCAL_POSSESSION_CHANGE" | "gstate g = REMOTE_POSSESSION_CHANGE" by blast
  then show ?thesis
  proof cases
    case 1
    with r cold(1,2) n(2) ssd_ok [OF l e ft n(1) n(2), of "fe_load e p w"] show ?thesis
      by (auto simp: fix_body_def Let_def split: if_splits option.splits sum.splits)
  next
    case 2
    with r cold(1,2) n(2) consider a where "fix_remote net (fe_rnd e) (fe_tries e) nodes ft n p (bfs m ! i) w = Some a" "r = after_acquire e ft i g m a"
      | "r = Failed Ensure_failed"
      by (auto simp: fix_body_def Let_def split: if_splits option.splits)
    then show ?thesis
    proof cases
      case 1
      have "finish_ok ft p (bmNode m) (after_acquire e ft i g m a)"
        by (rule after_acquire_ok [OF l e ft]) (use fix_remote_kept [of net "fe_rnd e" "fe_tries e" nodes ft n p "bfs m ! i" w] 1(1) n in auto)
      then show ?thesis unfolding 1(2) n(2) .
    qed simp
  next
    case 3
    with r cold(1,2) n(2) have "r = of_result (ensure (getOwner p = n) (ensure (isLatched (bflatch (bfs m ! i))) (ensure (possession (bfs m ! i) \<noteq> NOBODY) (Inr ())))) (\<lambda>_.
        of_result (page_for e (bfs m ! i) m) (\<lambda>(f, m).
        of_result (fix_local net (fe_rnd e) ft n p f w) (\<lambda>a. case a of
          Acquired f w \<Rightarrow> of_result (ensure (pid f \<noteq> EMPTY_PID) (Inr ())) (\<lambda>_. fix_finish (fe_gap e) ft i g (upd_frame i (\<lambda>_. f) m) w)
        | Backed_off f w \<Rightarrow> of_result (push_page f m) (\<lambda>m. Again (upd_frame i (\<lambda>_. f\<lparr>pageP := None\<rparr>) m, w)))))"
      by (simp add: fix_body_def Let_def page_for_def)
    then show ?thesis using local_change_ok [OF l e ft n, of net "fe_rnd e" w] by (simp only:) (rule finish_of_result)
  next
    case 4
    with r cold(1,2) n(2) show ?thesis using update_ok [OF l n(2), of ft net nodes w] by (simp add: fix_body_def Let_def)
  qed
qed

lemma fix_sound:
  assumes "pt_wf m" and "p \<noteq> EMPTY_PID" and "ft \<noteq> UNLATCHED" and "unat (bmNode m) < MAX_NODES" and "\<And>e. e \<in> set es \<Longrightarrow> fair_fix p e"
    and "bm_fix net nodes es ft p m w = Some (Inr ((m', w'), g))"
  shows "fixed ft p (bmNode m) m' g"
  using assms(1,4-6)
proof (induction es arbitrary: m w)
  case (Cons e es)
  have e: "fair_fix p e" using Cons.prems(3) by simp
  obtain s h where s: "findFrameOrInsert (access_of ft) (undo_of ft) BLOCKING (fe_find e) p (bmNode m) m = Some (Inr (s, h))"
    "found_frame ft (allows ft) (bmNode m) p s h \<or> frame_to_load p s h"
    using lookup_sound [OF assms(3,2) Cons.prems(1), of "fe_find e" "bmNode m"] fair_fixD(1) [OF e] Cons.prems(4) by auto
  have nd: "bmNode (snd s) = bmNode m" using lookup_node [OF s(1) fair_fixD(2) [OF e]] .
  obtain r where r: "fix_body net nodes e ft p h (snd s) w = Some r" using Cons.prems(4) s(1) by (cases s) (auto split: option.splits)
  have ok: "finish_ok ft p (bmNode m) r"
    using fix_body_ok [of ft "bmNode m" p "fst s" "snd s" h e net nodes w r] s(2) e assms(3) Cons.prems(2) nd r by simp
  show ?case
  proof (cases r)
    case (Again x)
    obtain m1 w1 where x: "x = (m1, w1)" by (cases x)
    have "bm_fix net nodes es ft p m1 w1 = Some (Inr ((m', w'), g))" using Cons.prems(4) s(1) r Again x by (cases s) simp
    from Cons.IH [OF _ _ _ this] ok Again x Cons.prems(2,3) show ?thesis by simp
  next
    case (Finished x g')
    with ok Cons.prems(4) s(1) r show ?thesis by (cases s) auto
  next
    case (Failed x)
    with Cons.prems(4) s(1) r show ?thesis by (cases s) simp
  qed
qed simp


section \<open>A missing page is fetched\<close>

lemma lookup_missing:
  assumes p: "p \<noteq> EMPTY_PID" and wf: "pt_wf m" and q: "quiet_env p q" "quiet_wait p q" and none: "table (before q m) p = None"
  shows "\<exists>g m'. findFrameOrInsert access undo BLOCKING (q # ds) p n m = Some (Inr ((g, m'), g)) \<and> frame_to_load p (g, m') g"
proof -
  let ?m = "before q m"
  let ?b = "bucket ?m p" and ?w = "waiting q ?m"
  have e: "lookup_env q p m" "wait_env q p ?m" using q(1) wf by (simp_all add: quiet_env_def fair_env_def)
  have wm: "pt_wf ?m" using e(1) by (simp add: lookup_env_def)
  note ok = wm [unfolded pt_wf_def]
  note d = pt_okD [OF ok bucket_lt [OF ok, of p]]
  let ?v = "typeVersionLockObsolete (ht_latch ?m ?b)" and ?i = "last (?b # chains ?m ?b)"
  have o: "ol_optimisticLatchOrRestart (ht_latch ?m ?b) = Some ?v" and nv: "\<not> isLatchedV ?v"
    using d(6) by (simp_all add: ol_optimisticLatchOrRestart_def ol_isLatched_def)
  have att: "findFrameOrInsert_attempt access undo BLOCKING p n q (new_Guard, m) = insert_missing p ?v ?b ?i new_Guard ?w"
    using find_walk_tbl [OF ok p, of "fails q"] o q none by (simp add: findFrameOrInsert_attempt_def Let_def quiet_env_def table_def del: last.simps)
  have t: "ht_latch ?w ?b = ht_latch ?m ?b" "frameFree ?w \<noteq> []" using q(2) none wf by (simp_all add: quiet_wait_def)
  have ww: "bucket ?w p = ?b" "pageFree ?w \<noteq> []" "pt_wf ?w" "table ?w p = None" "chains ?w ?b = chains ?m ?b"
    using e(2) t(1) none by (simp_all add: wait_env_def bucket_def)
  have h: "holds_nothing (new_Guard :: fref Guard)" by (simp add: holds_nothing_def new_Guard_def)
  from insert_missing_ok [OF ww(3) p ww(4,2) h nv, of ?i] ww(1,5) t
  obtain g m' j where "insert_missing p ?v ?b ?i new_Guard ?w = Finished (g, m') g" "pt_wf m'" "table m' = (table ?w)(p \<mapsto> j)" "gframe g = Some j" "to_load p g m' j"
    by (auto simp del: last.simps)
  then show ?thesis using att by (auto simp: findFrameOrInsert_def frame_to_load_def)
qed

lemma quiet_finish:
  assumes "latched_for p i g m" and "gstate g \<noteq> RETRY" and "ft \<noteq> UNLATCHED"
  shows "\<exists>m' g'. fix_finish (\<lambda>l. l) ft i g m w = Finished (m', w) g'"
proof -
  let ?l = "bflatch (bfs m ! i)"
  have g: "latchState g = EXCLUSIVE" "vAcquired g = version ?l" "smut ?l = Writer" and l: "latch_ok ?l"
    using assms(1) table_frame(1) [of m p i] by (simp_all add: latched_for_def)
  have w: "isLatched ?l" using l g(3) by (simp add: latch_ok_def)
  note u = unlatchExclusive_ok [OF l w]
  let ?u = "?l\<lparr>version := version ?l + 2, smut := Unlocked\<rparr>"
  have "\<not> isLatched ?u" using u(2) by (simp add: latch_ok_def)
  then have t: "tryLatchShared ?u = (True, ?u\<lparr>smut := Readers (readers ?u + 1)\<rparr>)" using tryLatchShared_ok(1) [OF u(2)] by simp
  show ?thesis
    using assms(2,3) g w u(1) t
    by (cases ft) (simp_all add: fix_finish_def needDowngrade_def downgrade_def downgradeExclusiveToOptimistic_def of_result_def Let_def)
qed

lemma fix_of_missing:
  assumes reach: "(protocol p)\<^sup>*\<^sup>* (d0, fresh_cluster (getOwner p) f0 d0) (cur, w)" and own: "owner_frame (getOwner p) f0" "holders f0 = {getOwner p}"
    and m: "pt_wf m" "unat (bmNode m) < MAX_NODES" "bmNode m \<noteq> getOwner p" "cl_copies w (unat (bmNode m)) = None" and p: "p \<noteq> EMPTY_PID" and ft: "ft \<noteq> UNLATCHED"
    and e: "fair_fix p e" "fe_find e = q # ds" "quiet_env p q" "quiet_wait p q" "table (before q m) p = None" "fe_gap e = (\<lambda>l. l)"
    and rnd: "picks (fe_rnd e)" "fe_tries e \<noteq> []" "picks (fst (hd (fe_tries e)))" and "1 < nodes"
  shows "\<exists>m' w' g f. bm_fix (cl_net (bmNode m)) nodes (e # es) ft p m w = Some (Inr ((m', w'), g)) \<and> fixed ft p (bmNode m) m' g
    \<and> cl_buf w' = Some cur \<and> coherent cur (w'\<lparr>cl_copies := (cl_copies w')(unat (bmNode m) := Some (f, cur))\<rparr>)"
proof -
  let ?n = "bmNode m"
  have coh: "coherent cur w" "cl_owner w = getOwner p" using reachable_coherent [OF reach own] by simp_all
  then have oc: "?n \<noteq> cl_owner w" using m(3) by simp
  obtain g m1 where f: "findFrameOrInsert (access_of ft) (undo_of ft) BLOCKING (fe_find e) p ?n m = Some (Inr ((g, m1), g))" and l: "frame_to_load p (g, m1) g"
    using lookup_missing [OF p m(1) e(3-5), of "access_of ft" "undo_of ft" ds ?n] e(2) by auto
  have nd: "bmNode m1 = ?n" using lookup_node [OF f fair_fixD(2) [OF e(1)]] by simp
  obtain i where i: "pt_wf m1" "table m1 p = Some i" "gframe g = Some i" "gstate g = REMOTE" "latchState g = EXCLUSIVE" "isLatched (bflatch (bfs m1 ! i))"
    "vAcquired g = version (bflatch (bfs m1 ! i))" "state (bfs m1 ! i) = IO_RDMA"
    using l nd m(3) by (auto simp: frame_to_load_def to_load_def split: if_splits)
  have lt: "latched_for p i g m1" using i table_frame(1) [OF i(1,2)] by (simp add: latched_for_def latch_ok_def)
  obtain f' w' where r: "fix_remote (cl_net ?n) (fe_rnd e) (fe_tries e) nodes ft ?n p (bfs m1 ! i) w = Some (Inr (Acquired f' w'))" "cl_buf w' = Some cur"
    "coherent cur (w'\<lparr>cl_copies := (cl_copies w')(unat ?n := Some (f', cur))\<rparr>)"
    using fix_remote_ok [OF coh(1) coh(2) [symmetric] oc m(2) i(8,6) \<open>1 < nodes\<close> rnd m(4), of ft] by blast
  have o: "frame_kept (bfs m1 ! i) f'" "bflatch f' = bflatch (bfs m1 ! i)" "state f' \<noteq> FREE"
    using fix_remote_kept [OF r(1) m(2)] by (simp_all add: outcome_ok_def)
  obtain m' g' where fin: "fix_finish (\<lambda>l. l) ft i g (upd_frame i (\<lambda>_. f') m1) w' = Finished (m', w') g'"
    using quiet_finish [OF latched_for_set [OF lt o] _ ft, of w'] i(4) by auto
  have b: "fix_body (cl_net ?n) nodes e ft p g m1 w = Some (Finished (m', w') g')"
    using i(3-5) r(1) fin e(6) nd by (simp add: fix_body_def Let_def after_acquire_def of_result_def)
  have "fixed ft p ?n m' g'" using fix_body_ok [OF disjI2 [OF l] e(1) ft m(2) nd b] by simp
  moreover have "bm_fix (cl_net ?n) nodes (e # es) ft p m w = Some (Inr ((m', w'), g'))" using f b by simp
  ultimately show ?thesis using r(2,3) by blast
qed


section \<open>An example\<close>

definition alone :: find_env where
  "alone = quiet_example\<lparr>before := (\<lambda>m. small_bm\<lparr>bmNode := bmNode m\<rparr>)\<rparr>"

lemma alone_ok: "fair_env p alone" "keeps_node alone" "quiet_env p alone" "quiet_wait p alone" "table (before alone m) p = None"
proof -
  have w: "pt_wf (small_bm\<lparr>bmNode := n\<rparr>)" "table (small_bm\<lparr>bmNode := n\<rparr>) = Map.empty" for n
    by (rule fresh_wf [of _ 4 2 1]; auto simp: small_bm_def)+
  show f: "fair_env p alone"
    by (simp add: fair_env_def lookup_env_def wait_env_def alone_def quiet_example_def w) (simp add: small_bm_def)
  show "keeps_node alone" by (simp add: keeps_node_def alone_def quiet_example_def)
  show "quiet_env p alone" using f by (simp add: quiet_env_def alone_def quiet_example_def w)
  show "quiet_wait p alone" by (simp add: quiet_wait_def alone_def quiet_example_def small_bm_def)
  show "table (before alone m) p = None" by (simp add: alone_def w)
qed

definition alone_fix :: "'w fix_env" where
  "alone_fix = \<lparr>fe_find = [alone], fe_rnd = (\<lambda>_. 0), fe_tries = [(\<lambda>_. 0, False)], fe_gap = (\<lambda>l. l), fe_wait = (\<lambda>m. m), fe_reads = [512], fe_load = (\<lambda>_ w. w)\<rparr>"

lemma alone_fix_ok: "fair_fix p alone_fix" "fe_find alone_fix = alone # []" "fe_gap alone_fix = (\<lambda>l. l)" "picks (fe_rnd alone_fix)" "fe_tries alone_fix \<noteq> []" "picks (fst (hd (fe_tries alone_fix)))"
  using alone_ok by (simp_all add: fair_fix_def alone_fix_def picks_def)

lemma example_page_ne: "example_page \<noteq> EMPTY_PID"
  by (simp add: example_page_def mk_PID_def EMPTY_PID_def PAGEID_BITS_NODEID_def)

lemma small_bm_node: "bmNode small_bm = 1"
  by (simp add: small_bm_def)

lemma written_cluster:
  "owner_frame (getOwner example_page) owned_example" "holders owned_example = {getOwner example_page}" "cl_copies (fresh_cluster 0 owned_example (2 :: nat)) n = None"
  using owned_example_owner owned_example_holders example_page_owner by (simp_all add: fresh_cluster_def)



end
