(* ===== verification/BFGuards.thy ===== *)
theory BFGuards
  imports Fix_Proof
begin

text \<open>
  The guards that operations on pages use (storage/buffermanager/BufferFrameGuards.hpp, BufferFrameGuards.cpp): exclusive,
  shared and optimistic guards, their construction by \<open>fix\<close> or on a new page, the conversions between the modes and the
  destructors.  A conversion that cannot be done without missing a writer leaves a guard in state \<open>RETRY\<close>.

  The conversions of a latch alone are functions on the guard and the latch of its frame; \<open>gap\<close> is what others do to
  the latch after it was released.
\<close>

section \<open>Construction and destruction\<close>

definition on_frame :: "fref Guard \<Rightarrow> (fref \<Rightarrow> 'a result) \<Rightarrow> 'a result" where
  "on_frame g k = (case gframe g of None \<Rightarrow> Inl Undefined | Some i \<Rightarrow> k i)"

definition set_latch :: "fref \<Rightarrow> HybridLatch \<Rightarrow> bufmgr \<Rightarrow> bufmgr" where
  "set_latch i l m = upd_frame i (\<lambda>f. f\<lparr>bflatch := l\<rparr>) m"

text \<open>The node a new page is allocated on: the nodes of the upper half in turn.\<close>

definition target_id :: "u64 \<Rightarrow> nat \<Rightarrow> nat" where
  "target_id counter nodes = unat counter mod (nodes div 2) + nodes div 2"

definition X_on_new :: "(bufmgr \<Rightarrow> bufmgr) list \<Rightarrow> PID \<Rightarrow> bufmgr \<Rightarrow> (fref Guard \<times> bufmgr) result option" where
  "X_on_new envs p m =
     bind_ro (newRemotePage envs p m) (\<lambda>(m, i).
     let m = upd_frame i (\<lambda>f. f\<lparr>dirty := True\<rparr>) m
     in Some (Inr (new_Guard\<lparr>gframe := Some i, latchState := EXCLUSIVE, gstate := INITIALIZED, vAcquired := version (bflatch (bfs m ! i))\<rparr>, m)))"

text \<open>\<open>answer\<close> is the page id the target answers the allocation request with.\<close>

definition new_ExclusiveBFGuard :: "(bufmgr \<Rightarrow> bufmgr) list \<Rightarrow> (nat \<Rightarrow> PID) \<Rightarrow> u64 \<Rightarrow> nat \<Rightarrow> bufmgr \<Rightarrow> (u64 \<times> fref Guard \<times> bufmgr) result option" where
  "new_ExclusiveBFGuard envs answer counter nodes m =
     (if nodes div 2 = 0 then Some (Inl Undefined)
      else let t = target_id counter nodes
           in if \<not> (of_nat t \<noteq> bmNode m \<and> t < nodes \<and> nodes div 2 \<le> t) then Some (Inl Ensure_failed)
              else bind_ro (X_on_new envs (answer t) m) (\<lambda>(g, m). Some (Inr (counter + 1, g, m))))"

definition X_fix :: "'w net \<Rightarrow> nat \<Rightarrow> 'w fix_env list \<Rightarrow> PID \<Rightarrow> bufmgr \<Rightarrow> 'w \<Rightarrow> (fref Guard \<times> bufmgr \<times> 'w) result option" where
  "X_fix net nodes es p m w =
     bind_ro (bm_fix net nodes es EXCLUSIVE p m w) (\<lambda>((m, w), g).
     Some (on_frame g (\<lambda>i. Inr (g, upd_frame i (\<lambda>f. f\<lparr>dirty := True\<rparr>) m, w))))"

definition S_fix :: "'w net \<Rightarrow> nat \<Rightarrow> 'w fix_env list \<Rightarrow> PID \<Rightarrow> bufmgr \<Rightarrow> 'w \<Rightarrow> (fref Guard \<times> bufmgr \<times> 'w) result option" where
  "S_fix net nodes es p m w = bind_ro (bm_fix net nodes es SHARED p m w) (\<lambda>((m, w), g). Some (Inr (g, m, w)))"

definition O_fix :: "'w net \<Rightarrow> nat \<Rightarrow> 'w fix_env list \<Rightarrow> PID \<Rightarrow> bufmgr \<Rightarrow> 'w \<Rightarrow> (fref Guard \<times> bufmgr \<times> 'w) result option" where
  "O_fix net nodes es p m w = bind_ro (bm_fix net nodes es OPTIMISTIC p m w) (\<lambda>((m, w), g). Some (Inr (g, m, w)))"

definition X_dtor :: "fref Guard \<Rightarrow> bufmgr \<Rightarrow> (fref Guard \<times> bufmgr) result" where
  "X_dtor g m =
     (if gstate g = INITIALIZED \<and> latchState g = EXCLUSIVE then
        on_frame g (\<lambda>i. bind_r (unlatchExclusive (bflatch (bfs m ! i))) (\<lambda>l. Inr (g\<lparr>gstate := UNINITIALIZED, latchState := UNLATCHED\<rparr>, set_latch i l m)))
      else Inr (g, m))"

definition S_dtor :: "fref Guard \<Rightarrow> bufmgr \<Rightarrow> (fref Guard \<times> bufmgr) result" where
  "S_dtor g m =
     (if gstate g = INITIALIZED \<and> latchState g = SHARED then
        on_frame g (\<lambda>i. bind_r (unlatchShared (bflatch (bfs m ! i))) (\<lambda>l. Inr (g\<lparr>gstate := INITIALIZED, latchState := UNLATCHED\<rparr>, set_latch i l m)))
      else Inr (g, m))"

definition X_reclaim :: "(bufmgr \<Rightarrow> bufmgr) list \<Rightarrow> fref Guard \<Rightarrow> bufmgr \<Rightarrow> (fref Guard \<times> bufmgr) result option" where
  "X_reclaim envs g m =
     (case gframe g of
        None \<Rightarrow> Some (Inl Undefined)
      | Some i \<Rightarrow> bind_ro (reclaimPage envs i m) (\<lambda>(m, _). Some (Inr (g\<lparr>gstate := UNINITIALIZED, latchState := UNLATCHED\<rparr>, m))))"

definition guard_retry :: "'f Guard \<Rightarrow> bool" where
  "guard_retry g \<longleftrightarrow> gstate g = RETRY"

definition O_retry :: "'f Guard \<Rightarrow> HybridLatch \<Rightarrow> bool \<times> 'f Guard" where
  "O_retry g l =
     (if gstate g = RETRY then (True, g)
      else if \<not> optimisticCheckOrRestart (vAcquired g) l then (True, g\<lparr>gstate := RETRY\<rparr>)
      else (False, g))"

section \<open>Conversions\<close>

definition S_of_X :: "(HybridLatch \<Rightarrow> HybridLatch) \<Rightarrow> 'f Guard \<Rightarrow> HybridLatch \<Rightarrow> ('f Guard \<times> HybridLatch) result" where
  "S_of_X gap x l =
     ensure (latchState x = EXCLUSIVE) (ensure (isLatched l) (
     bind_r (unlatchExclusive l) (\<lambda>l.
     let g = x\<lparr>gstate := RETRY\<rparr>; (success, l) = tryLatchShared (gap l)
     in if success then
          (if version l = vAcquired g + 2 then Inr (g\<lparr>gstate := INITIALIZED, latchState := SHARED, vAcquired := vAcquired g + 2\<rparr>, l)
           else bind_r (unlatchShared l) (\<lambda>l. Inr (g, l)))
        else Inr (g, l))))"

definition S_of_O :: "'f Guard \<Rightarrow> HybridLatch \<Rightarrow> ('f Guard \<times> HybridLatch) result" where
  "S_of_O x l =
     ensure (latchState x = OPTIMISTIC) (
     let g = x\<lparr>gstate := RETRY\<rparr>; (success, l) = tryLatchShared l
     in if success then
          (if version l = vAcquired g then Inr (g\<lparr>gstate := INITIALIZED, latchState := SHARED\<rparr>, l)
           else bind_r (unlatchShared l) (\<lambda>l. Inr (g, l)))
        else Inr (g, l))"

definition O_of_X :: "(HybridLatch \<Rightarrow> HybridLatch) \<Rightarrow> 'f Guard \<Rightarrow> HybridLatch \<Rightarrow> ('f Guard \<times> HybridLatch) result" where
  "O_of_X gap x l =
     ensure (latchState x = EXCLUSIVE) (ensure (isLatched l) (
     bind_r (unlatchExclusive l) (\<lambda>l.
     let g = x\<lparr>gstate := RETRY\<rparr>; l = gap l
     in Inr (if optimisticCheckOrRestart (vAcquired g + 2) l then g\<lparr>gstate := INITIALIZED, latchState := OPTIMISTIC, vAcquired := vAcquired g + 2\<rparr> else g, l))))"

definition O_of_S :: "(HybridLatch \<Rightarrow> HybridLatch) \<Rightarrow> 'f Guard \<Rightarrow> HybridLatch \<Rightarrow> ('f Guard \<times> HybridLatch) result" where
  "O_of_S gap x l =
     ensure (latchState x = SHARED) (
     bind_r (unlatchShared l) (\<lambda>l.
     let g = x\<lparr>gstate := RETRY\<rparr>; l = gap l
     in Inr (if optimisticCheckOrRestart (vAcquired g) l then g\<lparr>gstate := INITIALIZED, latchState := OPTIMISTIC\<rparr> else g, l)))"

text \<open>The upgrades to exclusive mode fix the page again and compare frame and version with what the guard had.\<close>

definition same_version :: "fref \<Rightarrow> Version \<Rightarrow> fref Guard \<Rightarrow> fref Guard" where
  "same_version i v g = (if gframe g \<noteq> Some i \<or> vAcquired g \<noteq> v + 2 then g\<lparr>gstate := RETRY\<rparr> else g)"

definition mark_dirty :: "fref Guard \<Rightarrow> bufmgr \<Rightarrow> bufmgr result" where
  "mark_dirty g m = (if gstate g \<noteq> RETRY then on_frame g (\<lambda>i. Inr (upd_frame i (\<lambda>f. f\<lparr>dirty := True\<rparr>) m)) else Inr m)"

definition X_of_S :: "'w net \<Rightarrow> nat \<Rightarrow> 'w fix_env list \<Rightarrow> fref Guard \<Rightarrow> bufmgr \<Rightarrow> 'w \<Rightarrow> (fref Guard \<times> bufmgr \<times> 'w) result option" where
  "X_of_S net nodes es s m w =
     (case gframe s of
        None \<Rightarrow> Some (Inl Undefined)
      | Some i \<Rightarrow>
          bind_ro (Some (ensure (latchState s = SHARED) (unlatchShared (bflatch (bfs m ! i))))) (\<lambda>l.
          bind_ro (bm_fix net nodes es EXCLUSIVE (pid (bfs m ! i)) (set_latch i l m) w) (\<lambda>((m, w), g). Some (
            ensure (gstate g = INITIALIZED) (
            let g = same_version i (vAcquired s) g
            in bind_r (mark_dirty g m) (\<lambda>m. Inr (g, m, w)))))))"

definition X_of_O :: "'w net \<Rightarrow> nat \<Rightarrow> 'w fix_env list \<Rightarrow> fref Guard \<Rightarrow> bufmgr \<Rightarrow> 'w \<Rightarrow> (fref Guard \<times> bufmgr \<times> 'w) result option" where
  "X_of_O net nodes es x m w =
     (case gframe x of
        None \<Rightarrow> Some (Inl Undefined)
      | Some i \<Rightarrow>
          if latchState x \<noteq> OPTIMISTIC then Some (Inl Ensure_failed)
          else if fst (O_retry (x\<lparr>gstate := MOVED, latchState := UNLATCHED\<rparr>) (bflatch (bfs m ! i))) then Some (Inr (new_Guard\<lparr>gstate := RETRY\<rparr>, m, w))
          else bind_ro (bm_fix net nodes es EXCLUSIVE (pid (bfs m ! i)) m w) (\<lambda>((m, w), g). Some (
            ensure (gstate g = INITIALIZED) (ensure (latchState g = EXCLUSIVE) (
            let g = same_version i (vAcquired x) g
            in bind_r (mark_dirty g m) (\<lambda>m.
               if gstate g = RETRY \<and> latchState g = EXCLUSIVE then
                 on_frame g (\<lambda>j. ensure (isLatched (bflatch (bfs m ! j))) (
                 bind_r (unlatchExclusive (bflatch (bfs m ! j))) (\<lambda>l. Inr (g\<lparr>latchState := UNLATCHED\<rparr>, set_latch j l m, w))))
               else Inr (g, m, w)))))))"

section \<open>The latch under a conversion\<close>

lemma try_shared_undo:
  assumes "latch_ok l" and "tryLatchShared l = (True, l')"
  shows "unlatchShared l' = Inr l"
proof (cases "smut l")
  case Unlocked
  with assms show ?thesis by (auto simp: tryLatchShared_def unlatchShared_def)
next
  case (Readers n)
  with assms have "0 < n" by (cases n) (auto simp: latch_ok_def)
  with Readers assms show ?thesis by (cases n) (auto simp: tryLatchShared_def unlatchShared_def)
qed (use assms in \<open>auto simp: tryLatchShared_def\<close>)

text \<open>Taking the latch in shared mode and comparing the version: held at that version, or nothing happened to it.\<close>

definition took_shared :: "Version \<Rightarrow> 'f Guard \<Rightarrow> HybridLatch \<Rightarrow> 'f Guard \<Rightarrow> HybridLatch \<Rightarrow> bool" where
  "took_shared v x l g l' \<longleftrightarrow> latch_ok l' \<and> gframe g = gframe x
     \<and> (if gstate g = INITIALIZED then latchState g = SHARED \<and> vAcquired g = v \<and> version l = v \<and> version l' = v \<and> readers l' = readers l + 1
        else gstate g = RETRY \<and> l' = l)"

lemma shared_or_retry:
  assumes "latch_ok l"
  shows "\<exists>g' l'. (let (success, l) = tryLatchShared l
     in if success then (if version l = v then Inr (g\<lparr>gstate := INITIALIZED, latchState := SHARED, vAcquired := v\<rparr>, l) else bind_r (unlatchShared l) (\<lambda>l. Inr (g\<lparr>gstate := RETRY\<rparr>, l)))
        else Inr (g\<lparr>gstate := RETRY\<rparr>, l)) = Inr (g', l') \<and> took_shared v g l g' l'"
proof (cases "isLatched l")
  case True
  then show ?thesis using tryLatchShared_ok(1) [OF assms] assms by (simp add: took_shared_def)
next
  case False
  let ?l = "l\<lparr>smut := Readers (readers l + 1)\<rparr>"
  have t: "tryLatchShared l = (True, ?l)" "latch_ok ?l" using tryLatchShared_ok [OF assms] False by simp_all
  show ?thesis using t try_shared_undo [OF assms t(1)] assms by (cases "version l = v") (simp_all add: took_shared_def)
qed



section \<open>Upgrades to exclusive mode\<close>

lemma mark_dirty_fixed:
  assumes "fixed EXCLUSIVE p n m g"
  obtains m' i where "mark_dirty g m = Inr m'" "fixed EXCLUSIVE p n m' g" "gframe g = Some i" "dirty (bfs m' ! i)" "pt_wf m" "table m p = Some i"
    "m' = upd_frame i (\<lambda>f. f\<lparr>dirty := True\<rparr>) m"
proof -
  obtain i where i: "pt_wf m" "bmNode m = n" "gstate g = INITIALIZED" "latchState g = EXCLUSIVE" "table m p = Some i" "gframe g = Some i"
    "guard_holds g (bfs m ! i)" "allows EXCLUSIVE n (bfs m ! i)" using assms by (auto simp: fixed_def)
  let ?f = "(bfs m ! i)\<lparr>dirty := True\<rparr>"
  note t = table_frame [OF i(1,5)]
  have k: "frame_kept (bfs m ! i) ?f" "latch_ok (bflatch ?f)" "state ?f \<noteq> FREE" using t by (simp_all add: frame_kept_def)
  have u: "upd_frame i (\<lambda>f. f\<lparr>dirty := True\<rparr>) m = upd_frame i (\<lambda>_. ?f) m" by (subst upd_frame_const) simp
  note s = frame_set [OF i(1,5) k, folded u]
  have "fixed EXCLUSIVE p n (upd_frame i (\<lambda>f. f\<lparr>dirty := True\<rparr>) m) g"
    using i s by (auto simp: fixed_def guard_holds_def allows_def suffices_X_def)
  then show thesis using that [of "upd_frame i (\<lambda>f. f\<lparr>dirty := True\<rparr>) m" i] i s(3) by (simp add: mark_dirty_def on_frame_def)
qed

lemma set_latch_frame:
  assumes "pt_wf m" and "table m p = Some i" and "latch_ok l"
  shows "pt_wf (set_latch i l m)" and "table (set_latch i l m) = table m" and "bfs (set_latch i l m) ! i = (bfs m ! i)\<lparr>bflatch := l\<rparr>" and "bmNode (set_latch i l m) = bmNode m"
proof -
  let ?f = "(bfs m ! i)\<lparr>bflatch := l\<rparr>"
  have u: "set_latch i l m = upd_frame i (\<lambda>_. ?f) m" unfolding set_latch_def by (subst upd_frame_const) simp
  have k: "frame_kept (bfs m ! i) ?f" "latch_ok (bflatch ?f)" "state ?f \<noteq> FREE" using table_frame [OF assms(1,2)] assms(3) by (simp_all add: frame_kept_def)
  show "pt_wf (set_latch i l m)" "table (set_latch i l m) = table m" "bfs (set_latch i l m) ! i = ?f" "bmNode (set_latch i l m) = bmNode m"
    using frame_set [OF assms(1,2) k] unfolding u by simp_all
qed

definition upgraded :: "PID \<Rightarrow> NodeID \<Rightarrow> fref \<Rightarrow> Version \<Rightarrow> fref Guard \<Rightarrow> bufmgr \<Rightarrow> bool" where
  "upgraded p n i v g m \<longleftrightarrow> fixed EXCLUSIVE p n m g \<and> gframe g = Some i \<and> vAcquired g = v + 2 \<and> dirty (bfs m ! i)"

definition gave_up :: "fref Guard \<Rightarrow> bufmgr \<Rightarrow> bool" where
  "gave_up g m \<longleftrightarrow> pt_wf m \<and> gstate g = RETRY \<and> latchState g = UNLATCHED \<and> (\<forall>j. gframe g = Some j \<longrightarrow> \<not> isLatched (bflatch (bfs m ! j)))"

lemma X_of_O_ok:
  assumes wf: "pt_wf m" and t: "table m p = Some i" and p: "p \<noteq> EMPTY_PID" and n: "unat (bmNode m) < MAX_NODES" and fair: "\<And>e. e \<in> set es \<Longrightarrow> fair_fix p e"
    and x: "gframe x = Some i" and r: "X_of_O net nodes es x m w = Some (Inr (g, m', w'))"
  shows "upgraded p (bmNode m) i (vAcquired x) g m' \<or> gave_up g m'"
proof (cases "fst (O_retry (x\<lparr>gstate := MOVED, latchState := UNLATCHED\<rparr>) (bflatch (bfs m ! i)))")
  case True
  then have "g = new_Guard\<lparr>gstate := RETRY\<rparr>" "m' = m" using r x by (auto simp: X_of_O_def split: if_splits)
  then show ?thesis using wf by (simp add: gave_up_def new_Guard_def)
next
  case False
  have pid: "pid (bfs m ! i) = p" using table_frame(3) [OF wf t] .
  obtain m1 w1 h where h: "bm_fix net nodes es EXCLUSIVE p m w = Some (Inr ((m1, w1), h))"
    using r x False pid by (auto simp: X_of_O_def bind_ro_def split: if_splits option.splits sum.splits)
  have f: "fixed EXCLUSIVE p (bmNode m) m1 h" by (rule fix_sound [OF wf p _ n fair h]) simp_all
  then have st: "gstate h = INITIALIZED" "latchState h = EXCLUSIVE" by (auto simp: fixed_def)
  show ?thesis
  proof (cases "gframe h = Some i \<and> vAcquired h = vAcquired x + 2")
    case True
    from f obtain m2 j where d: "mark_dirty h m1 = Inr m2" "fixed EXCLUSIVE p (bmNode m) m2 h" "gframe h = Some j" "dirty (bfs m2 ! j)" by (rule mark_dirty_fixed)
    with r x False pid h st True have "g = h" "m' = m2" by (auto simp: X_of_O_def same_version_def split: if_splits)
    with d True show ?thesis by (simp add: upgraded_def)
  next
    case nv: False
    obtain j where j: "pt_wf m1" "table m1 p = Some j" "gframe h = Some j" "smut (bflatch (bfs m1 ! j)) = Writer" using f st(2) by (auto simp: fixed_def guard_holds_def)
    note tf = table_frame [OF j(1,2)]
    have w: "isLatched (bflatch (bfs m1 ! j))" using tf(1) j(4) by (simp add: latch_ok_def)
    note u = unlatchExclusive_ok [OF tf(1) w]
    let ?l = "(bflatch (bfs m1 ! j))\<lparr>version := version (bflatch (bfs m1 ! j)) + 2, smut := Unlocked\<rparr>"
    have "g = h\<lparr>gstate := RETRY, latchState := UNLATCHED\<rparr>" "m' = set_latch j ?l m1"
      using r x False pid h st nv j(3) w u(1) by (auto simp: X_of_O_def same_version_def mark_dirty_def on_frame_def split: if_splits)
    then show ?thesis using set_latch_frame [OF j(1,2) u(2)] u(2) j(3) by (simp add: gave_up_def latch_ok_def)
  qed
qed

text \<open>Nobody interferes with the worker.\<close>

definition calm :: "bufmgr \<Rightarrow> 'w fix_env list \<Rightarrow> bool" where
  "calm m es \<longleftrightarrow> (case es of [] \<Rightarrow> False | e # _ \<Rightarrow> (case fe_find e of [] \<Rightarrow> False | q # _ \<Rightarrow> before q m = m \<and> during q = (\<lambda>f. f) \<and> (\<forall>k. \<not> fails q k) \<and> \<not> fail_end q \<and> \<not> moved q))"

lemma fix_hit:
  assumes wf: "pt_wf m" and p: "p \<noteq> EMPTY_PID" and t: "table m p = Some i" and c: "calm m es"
    and f: "smut (bflatch (bfs m ! i)) = Unlocked" "\<not> mhWaiting (bfs m ! i)" "suffices_X (bmNode m) (bfs m ! i)"
  defines "l \<equiv> (bflatch (bfs m ! i))\<lparr>version := version (bflatch (bfs m ! i)) + 2, smut := Writer\<rparr>"
  shows "bm_fix net nodes es EXCLUSIVE p m w = Some (Inr ((touch i (set_latch i l m), w),
     new_Guard\<lparr>gframe := Some i, gstate := INITIALIZED, vAcquired := version (bflatch (bfs m ! i)) + 2, latchState := EXCLUSIVE\<rparr>))"
proof -
  obtain e es' q ds where e: "es = e # es'" "fe_find e = q # ds" "before q m = m" "during q = (\<lambda>f. f)" "\<forall>k. \<not> fails q k" "\<not> fail_end q" "\<not> moved q"
    using c by (auto simp: calm_def split: list.splits)
  note ok = wf [unfolded pt_wf_def]
  note d = pt_okD [OF ok bucket_lt [OF ok, of p]]
  have o: "ol_optimisticLatchOrRestart (ht_latch m (bucket m p)) = Some (typeVersionLockObsolete (ht_latch m (bucket m p)))"
    using d(6) by (simp add: ol_optimisticLatchOrRestart_def ol_isLatched_def)
  let ?g = "new_Guard\<lparr>gframe := Some i, gstate := INITIALIZED, vAcquired := version (bflatch (bfs m ! i)) + 2, latchState := EXCLUSIVE\<rparr>"
  have u: "set_latch i l m = upd_frame i (\<lambda>_. (bfs m ! i)\<lparr>bflatch := l\<rparr>) m" unfolding set_latch_def by (subst upd_frame_const) simp
  have a: "Exclusive_access (\<lambda>f. f) (bmNode m) (new_Guard\<lparr>gframe := Some i\<rparr>) (bfs m ! i) = Inr (?g, (bfs m ! i)\<lparr>bflatch := l\<rparr>)"
    using quiet_upgrades [OF table_frame(1) [OF wf t] f(1)] f(2,3)
    by (simp add: Exclusive_access_def suffices_X_def isPossessor_def bf_upgrade_def Let_def l_def)
  have "findFrameOrInsert_attempt (access_of EXCLUSIVE) (undo_of EXCLUSIVE) BLOCKING p (bmNode m) q (new_Guard, m) = Finished (?g, set_latch i l m) ?g"
    using find_walk_tbl [OF ok p, of "fails q"] o e(3-7) t a
    by (simp add: findFrameOrInsert_attempt_def Let_def table_def on_found_def of_result_def access_of_def u)
  then have "findFrameOrInsert (access_of EXCLUSIVE) (undo_of EXCLUSIVE) BLOCKING (fe_find e) p (bmNode m) m = Some (Inr ((?g, set_latch i l m), ?g))"
    by (simp add: findFrameOrInsert_def e(2))
  moreover have "fix_body net nodes e EXCLUSIVE p ?g (set_latch i l m) w = Some (Finished (touch i (set_latch i l m), w) ?g)"
    by (simp add: fix_body_def)
  ultimately show ?thesis by (simp add: e(1))
qed

text \<open>C13: the upgrade of an optimistic guard to exclusive mode, as the tree operations use it.  Whatever happens in between,
  the new guard either holds the same frame exclusively at the version right after the one the optimistic reads started
  from, with the page possessed exclusively and marked dirty, or says \<open>RETRY\<close> and holds nothing; and undisturbed it
  succeeds.\<close>

theorem exclusive_upgrade_sound:
  assumes "pt_wf m" and "table m p = Some i" and "p \<noteq> EMPTY_PID" and "unat (bmNode m) < MAX_NODES" and "\<And>e. e \<in> set es \<Longrightarrow> fair_fix p e" and "gframe x = Some i"
  shows "(\<forall>g m' w'. X_of_O net nodes es x m w = Some (Inr (g, m', w')) \<longrightarrow> upgraded p (bmNode m) i (vAcquired x) g m' \<or> gave_up g m')
    \<and> (latchState x = OPTIMISTIC \<and> vAcquired x = version (bflatch (bfs m ! i)) \<and> calm m es \<and> smut (bflatch (bfs m ! i)) = Unlocked
        \<and> \<not> mhWaiting (bfs m ! i) \<and> suffices_X (bmNode m) (bfs m ! i) \<longrightarrow>
       (\<exists>g m'. X_of_O net nodes es x m w = Some (Inr (g, m', w)) \<and> upgraded p (bmNode m) i (vAcquired x) g m'))"
proof (intro conjI allI impI; (elim conjE)?)
  show "upgraded p (bmNode m) i (vAcquired x) g m' \<or> gave_up g m'" if "X_of_O net nodes es x m w = Some (Inr (g, m', w'))" for g m' w'
    using X_of_O_ok [OF assms that] .
  assume a: "latchState x = OPTIMISTIC" "vAcquired x = version (bflatch (bfs m ! i))" "calm m es" "smut (bflatch (bfs m ! i)) = Unlocked"
    "\<not> mhWaiting (bfs m ! i)" "suffices_X (bmNode m) (bfs m ! i)"
  let ?l = "(bflatch (bfs m ! i))\<lparr>version := version (bflatch (bfs m ! i)) + 2, smut := Writer\<rparr>"
  let ?g = "new_Guard\<lparr>gframe := Some i, gstate := INITIALIZED, vAcquired := version (bflatch (bfs m ! i)) + 2, latchState := EXCLUSIVE\<rparr>"
  have h: "bm_fix net nodes es EXCLUSIVE p m w = Some (Inr ((touch i (set_latch i ?l m), w), ?g))" by (rule fix_hit [OF assms(1,3,2) a(3-6)])
  have f: "fixed EXCLUSIVE p (bmNode m) (touch i (set_latch i ?l m)) ?g" by (rule fix_sound [OF assms(1,3) _ assms(4,5) h]) simp_all
  from f obtain m2 where d: "mark_dirty ?g (touch i (set_latch i ?l m)) = Inr m2" by (rule mark_dirty_fixed)
  have x: "X_of_O net nodes es x m w = Some (Inr (?g, m2, w))"
    using assms(6) a(1,2) h d table_frame(3) [OF assms(1,2)]
    by (simp add: X_of_O_def O_retry_def optimisticCheckOrRestart_def optimisticReadUnlatchOrRestart_def same_version_def)
  from X_of_O_ok [OF assms x] have "upgraded p (bmNode m) i (vAcquired x) ?g m2" by (auto simp: gave_up_def)
  with x show "\<exists>g m'. X_of_O net nodes es x m w = Some (Inr (g, m', w)) \<and> upgraded p (bmNode m) i (vAcquired x) g m'" by blast
qed

definition calm_find :: find_env where
  "calm_find = \<lparr>before = (\<lambda>m. m), during = (\<lambda>f. f), waiting = (\<lambda>m. m\<lparr>pageFree := [512]\<rparr>), fails = (\<lambda>_. False), fail_end = False, moved = False\<rparr>"

definition calm_fix :: "'w fix_env" where
  "calm_fix = \<lparr>fe_find = [calm_find], fe_rnd = (\<lambda>_. 0), fe_tries = [], fe_gap = (\<lambda>l. l), fe_wait = (\<lambda>m. m), fe_reads = [512], fe_load = (\<lambda>_ w. w)\<rparr>"

definition no_net :: "'w net" where
  "no_net = \<lparr>send = (\<lambda>_ _ w. w), collect = (\<lambda>_ w. (EmptyMessage, w))\<rparr>"

lemma calm_fix_ok: "fair_fix p calm_fix" "calm m [calm_fix]"
proof -
  have "fair_env p calm_find"
    using table_frame(1) by (auto simp: fair_env_def lookup_env_def wait_env_def calm_find_def env_frame_def undisturbed_fields_def chains_def ht_latch_def)
  then show "fair_fix p calm_fix" by (simp add: fair_fix_def calm_fix_def keeps_node_def calm_find_def)
  show "calm m [calm_fix]" by (simp add: calm_def calm_fix_def calm_find_def)
qed

theorem exclusive_upgrade_sound_witness:
  "\<exists>m i g m'. X_of_O no_net 2 [calm_fix] (new_Guard\<lparr>gframe := Some i, latchState := OPTIMISTIC, vAcquired := 4\<rparr>) m () = Some (Inr (g, m', ())) \<and> upgraded (mk_PID 1 5) 1 i 4 g m'"
proof -
  obtain m i where m: "pt_wf m" "table m (mk_PID 1 5) = Some i" "bmNode m = 1" "suffices_X 1 (bfs m ! i)"
    using newPage_ok [OF small_bm_wf(1), of "mk_PID 1 5" "[mk_PID 1 6]" 512 "[1024]" "[]"] small_bm_wf(2) example_pid by (auto simp: small_bm_def)
  let ?f = "(bfs m ! i)\<lparr>mhWaiting := False, bflatch := new_HybridLatch\<rparr>" and ?x = "new_Guard\<lparr>gframe := Some i, latchState := OPTIMISTIC, vAcquired := 4\<rparr>"
  let ?m = "upd_frame i (\<lambda>_. ?f) m"
  have k: "frame_kept (bfs m ! i) ?f" "latch_ok (bflatch ?f)" "state ?f \<noteq> FREE" using table_frame [OF m(1,2)] new_HybridLatch_ok by (simp_all add: frame_kept_def)
  note s = frame_set [OF m(1,2) k]
  have "suffices_X 1 ?f" using m(4) by (simp add: suffices_X_def)
  moreover have "version new_HybridLatch = 4" "smut new_HybridLatch = Unlocked" by (simp_all add: new_HybridLatch_def)
  moreover have "bmNode ?m = 1" using m(3) by simp
  ultimately obtain g m' where "X_of_O no_net 2 [calm_fix] ?x ?m () = Some (Inr (g, m', ()))" "upgraded (mk_PID 1 5) 1 i 4 g m'"
    using exclusive_upgrade_sound [of ?m "mk_PID 1 5" i "[calm_fix]" ?x no_net 2 "()"] s m(2) example_pid by (auto simp: MAX_NODES_def calm_fix_ok)
  then show ?thesis by blast
qed

end
