(* ===== verification/BTree_Node.thy ===== *)
theory BTree_Node
  imports Defs_PID
begin

text \<open>
  Nodes of the B-link-free B+-tree of backend/scalestore/storage/datastructures/BTree.hpp: fence
  keys, leaves, inner nodes, the three searches inside a node, insertion, removal and splitting.
  The key and payload arrays keep their full extent, stale entries behind \<open>count\<close> included; every
  array access is checked, so that an operation that stays inside its arrays returns \<open>Inr\<close>.
  Counts are natural numbers: \<open>count\<close> is a \<open>uint16_t\<close> that never exceeds \<open>maxEntries\<close>, which is
  at most the page size.
\<close>

section \<open>Fence keys and nodes\<close>

record 'k FenceKey =
  isInfinity :: bool
  fkey :: 'k

record 'k FenceKeys =
  lowerF :: "'k FenceKey"
  upperF :: "'k FenceKey"

definition isLowerInfinity :: "'k FenceKeys \<Rightarrow> bool" where
  "isLowerInfinity f = isInfinity (lowerF f)"

definition isUpperInfinity :: "'k FenceKeys \<Rightarrow> bool" where
  "isUpperInfinity f = isInfinity (upperF f)"

definition getLower :: "'k FenceKeys \<Rightarrow> 'k FenceKey" where
  "getLower f = lowerF f"

definition getUpper :: "'k FenceKeys \<Rightarrow> 'k FenceKey" where
  "getUpper f = upperF f"

record ('k, 'v) BTreeLeaf =
  lcount :: nat
  lfences :: "'k FenceKeys"
  lkeys :: "'k list"
  lpayloads :: "'v list"

record 'k BTreeInner =
  icount :: nat
  ifences :: "'k FenceKeys"
  ikeys :: "'k list"
  ichildren :: "PID list"

text \<open>Entries that fit a page: \<open>sk\<close> and \<open>sp\<close> are the sizes of key and payload (or child id).\<close>

definition maxEntries :: "nat \<Rightarrow> nat \<Rightarrow> nat \<Rightarrow> nat \<Rightarrow> nat \<Rightarrow> nat" where
  "maxEntries pageSize szNodeBase szFK sk sp = (pageSize - szNodeBase - szFK) div (sk + sp)"

definition underflowSize :: "nat \<Rightarrow> nat" where
  "underflowSize lm = lm div 4"

text \<open>A freshly constructed node: \<open>count\<close> and the infinity flags are set, everything else is what
  the page held before (\<open>junk\<close>).\<close>

definition fence_inf :: "'k \<Rightarrow> 'k FenceKey" where
  "fence_inf k = \<lparr>isInfinity = True, fkey = k\<rparr>"

definition fence_at :: "'k \<Rightarrow> 'k FenceKey" where
  "fence_at k = \<lparr>isInfinity = False, fkey = k\<rparr>"

definition new_BTreeLeaf :: "'k \<Rightarrow> 'k list \<Rightarrow> 'v list \<Rightarrow> ('k, 'v) BTreeLeaf" where
  "new_BTreeLeaf jk ks vs =
     \<lparr>lcount = 0, lfences = \<lparr>lowerF = fence_inf jk, upperF = fence_inf jk\<rparr>, lkeys = ks, lpayloads = vs\<rparr>"

definition new_BTreeInner :: "'k \<Rightarrow> 'k list \<Rightarrow> PID list \<Rightarrow> 'k BTreeInner" where
  "new_BTreeInner jk ks cs =
     \<lparr>icount = 0, ifences = \<lparr>lowerF = fence_inf jk, upperF = fence_inf jk\<rparr>, ikeys = ks, ichildren = cs\<rparr>"

definition leaf_isFull :: "nat \<Rightarrow> ('k, 'v) BTreeLeaf \<Rightarrow> bool" where
  "leaf_isFull lm l \<longleftrightarrow> lcount l = lm"

definition leaf_isUnderflow :: "nat \<Rightarrow> ('k, 'v) BTreeLeaf \<Rightarrow> bool" where
  "leaf_isUnderflow lm l \<longleftrightarrow> lcount l \<le> underflowSize lm"

definition leaf_setFences :: "'k FenceKey \<Rightarrow> 'k FenceKey \<Rightarrow> ('k, 'v) BTreeLeaf \<Rightarrow> ('k, 'v) BTreeLeaf" where
  "leaf_setFences lo up l = l\<lparr>lfences := \<lparr>lowerF = lo, upperF = up\<rparr>\<rparr>"

definition inner_isFull :: "nat \<Rightarrow> 'k BTreeInner \<Rightarrow> bool" where
  "inner_isFull im n \<longleftrightarrow> icount n = im - 1"

definition inner_setFences :: "'k FenceKey \<Rightarrow> 'k FenceKey \<Rightarrow> 'k BTreeInner \<Rightarrow> 'k BTreeInner" where
  "inner_setFences lo up n = n\<lparr>ifences := \<lparr>lowerF = lo, upperF = up\<rparr>\<rparr>"

section \<open>Searching a node\<close>

text \<open>The \<open>do ... while (lower < upper)\<close> loops of \<open>lowerBound\<close> and \<open>upperBound\<close>: the body runs at
  least once, also on an empty node, where it looks at the stale \<open>keys[0]\<close>.\<close>

function lowerBound_loop :: "'k::linorder list \<Rightarrow> 'k \<Rightarrow> nat \<Rightarrow> nat \<Rightarrow> nat" where
  "lowerBound_loop keys k lower upper =
     (let mid = (upper - lower) div 2 + lower
      in if k < keys ! mid then (if lower < mid then lowerBound_loop keys k lower mid else lower)
         else if k > keys ! mid then
           (if mid + 1 < upper then lowerBound_loop keys k (mid + 1) upper else mid + 1)
         else mid)"
  by pat_completeness auto
termination
  by (relation "measure (\<lambda>(keys, k, lower, upper). upper - lower)") auto

function upperBound_loop :: "'k::linorder list \<Rightarrow> 'k \<Rightarrow> nat \<Rightarrow> nat \<Rightarrow> nat" where
  "upperBound_loop keys k lower upper =
     (let mid = (upper - lower) div 2 + lower
      in if k < keys ! mid then (if lower < mid then upperBound_loop keys k lower mid else lower)
         else if k \<ge> keys ! mid then
           (if mid + 1 < upper then upperBound_loop keys k (mid + 1) upper else mid + 1)
         else mid)"
  by pat_completeness auto
termination
  by (relation "measure (\<lambda>(keys, k, lower, upper). upper - lower)") auto

function lowerBoundBF_loop :: "'k::linorder list \<Rightarrow> 'k \<Rightarrow> nat \<Rightarrow> nat \<Rightarrow> nat" where
  "lowerBoundBF_loop keys k base n =
     (if n > 1 then
        let half = n div 2
        in lowerBoundBF_loop keys k (if keys ! (base + half) < k then base + half else base) (n - half)
      else base)"
  by pat_completeness auto
termination
  by (relation "measure (\<lambda>(keys, k, base, n). n)") auto

declare lowerBound_loop.simps [simp del] upperBound_loop.simps [simp del] lowerBoundBF_loop.simps [simp del]

definition leaf_lowerBound :: "('k::linorder, 'v) BTreeLeaf \<Rightarrow> 'k \<Rightarrow> nat" where
  "leaf_lowerBound l k = lowerBound_loop (lkeys l) k 0 (lcount l)"

definition leaf_lowerBoundBF :: "('k::linorder, 'v) BTreeLeaf \<Rightarrow> 'k \<Rightarrow> nat" where
  "leaf_lowerBoundBF l k =
     (let base = lowerBoundBF_loop (lkeys l) k 0 (lcount l)
      in (if lkeys l ! base < k then 1 else 0) + base)"

definition inner_lowerBound :: "'k::linorder BTreeInner \<Rightarrow> 'k \<Rightarrow> nat" where
  "inner_lowerBound n k = lowerBound_loop (ikeys n) k 0 (icount n)"

definition inner_upperBound :: "'k::linorder BTreeInner \<Rightarrow> 'k \<Rightarrow> nat" where
  "inner_upperBound n k = upperBound_loop (ikeys n) k 0 (icount n)"

definition inner_lowerBoundBF :: "'k::linorder BTreeInner \<Rightarrow> 'k \<Rightarrow> nat" where
  "inner_lowerBoundBF n k =
     (let base = lowerBoundBF_loop (ikeys n) k 0 (icount n)
      in (if ikeys n ! base < k then 1 else 0) + base)"

section \<open>Leaf operations\<close>

definition leaf_remove :: "'k::linorder \<Rightarrow> ('k, 'v) BTreeLeaf \<Rightarrow> (bool \<times> ('k, 'v) BTreeLeaf) result" where
  "leaf_remove k l =
     (if lcount l \<noteq> 0 then
        let pos = leaf_lowerBound l k
        in if pos < lcount l \<and> lkeys l ! pos = k then
             bind_r (memmove (lkeys l) pos (pos + 1) (lcount l - (pos + 1))) (\<lambda>ks.
             bind_r (memmove (lpayloads l) pos (pos + 1) (lcount l - (pos + 1))) (\<lambda>ps.
             Inr (True, l\<lparr>lkeys := ks, lpayloads := ps, lcount := lcount l - 1\<rparr>)))
           else Inr (False, l)
      else Inr (False, l))"

definition leaf_insert :: "'k::linorder \<Rightarrow> 'v \<Rightarrow> ('k, 'v) BTreeLeaf \<Rightarrow> ('k, 'v) BTreeLeaf result" where
  "leaf_insert k p l =
     (if lcount l \<noteq> 0 then
        let pos = leaf_lowerBound l k
        in if pos < lcount l \<and> lkeys l ! pos = k then
             bind_r (array_set (lpayloads l) pos p) (\<lambda>ps. Inr (l\<lparr>lpayloads := ps\<rparr>))
           else
             bind_r (memmove (lkeys l) (pos + 1) pos (lcount l - pos)) (\<lambda>ks.
             bind_r (memmove (lpayloads l) (pos + 1) pos (lcount l - pos)) (\<lambda>ps.
             bind_r (array_set ks pos k) (\<lambda>ks.
             bind_r (array_set ps pos p) (\<lambda>ps.
             Inr (l\<lparr>lkeys := ks, lpayloads := ps, lcount := lcount l + 1\<rparr>)))))
      else
        bind_r (array_set (lkeys l) 0 k) (\<lambda>ks.
        bind_r (array_set (lpayloads l) 0 p) (\<lambda>ps.
        Inr (l\<lparr>lkeys := ks, lpayloads := ps, lcount := lcount l + 1\<rparr>))))"

text \<open>\<open>split\<close> on a leaf: \<open>nl\<close> is the leaf constructed on the freshly allocated page.  The result is
  the separator, the left leaf and the new right leaf.\<close>

definition leaf_split ::
  "nat \<Rightarrow> ('k::linorder, 'v) BTreeLeaf \<Rightarrow> ('k, 'v) BTreeLeaf \<Rightarrow>
     ('k \<times> ('k, 'v) BTreeLeaf \<times> ('k, 'v) BTreeLeaf) result" where
  "leaf_split lm l nl =
     ensure (lcount l = lm)
       (let ncount = lcount l - (lcount l div 2);
            count = lcount l - ncount
        in bind_r (memcpy (lkeys nl) 0 (lkeys l) count ncount) (\<lambda>nks.
           bind_r (memcpy (lpayloads nl) 0 (lpayloads l) count ncount) (\<lambda>nps.
           bind_r (array_get (lkeys l) (count - 1)) (\<lambda>sep.
           Inr (sep,
             leaf_setFences (getLower (lfences l)) (fence_at sep) (l\<lparr>lcount := count\<rparr>),
             leaf_setFences (fence_at sep) (getUpper (lfences l))
               (nl\<lparr>lcount := ncount, lkeys := nks, lpayloads := nps\<rparr>))))))"

section \<open>Inner node operations\<close>

definition inner_split ::
  "'k::linorder BTreeInner \<Rightarrow> 'k BTreeInner \<Rightarrow> ('k \<times> 'k BTreeInner \<times> 'k BTreeInner) result" where
  "inner_split n nn =
     (let ncount = icount n - (icount n div 2);
          count = icount n - ncount - 1
      in bind_r (array_get (ikeys n) count) (\<lambda>sep.
         bind_r (memcpy (ikeys nn) 0 (ikeys n) (count + 1) (ncount + 1)) (\<lambda>nks.
         bind_r (memcpy (ichildren nn) 0 (ichildren n) (count + 1) (ncount + 1)) (\<lambda>ncs.
         Inr (sep,
           inner_setFences (getLower (ifences n)) (fence_at sep) (n\<lparr>icount := count\<rparr>),
           inner_setFences (fence_at sep) (getUpper (ifences n))
             (nn\<lparr>icount := ncount, ikeys := nks, ichildren := ncs\<rparr>))))))"

definition inner_insert :: "nat \<Rightarrow> 'k::linorder \<Rightarrow> PID \<Rightarrow> 'k BTreeInner \<Rightarrow> 'k BTreeInner result" where
  "inner_insert im k child n =
     ensure (icount n < im - 1)
       (let pos = inner_lowerBound n k
        in bind_r (memmove (ikeys n) (pos + 1) pos (icount n - pos + 1)) (\<lambda>ks.
           bind_r (memmove (ichildren n) (pos + 1) pos (icount n - pos + 1)) (\<lambda>cs.
           bind_r (array_set ks pos k) (\<lambda>ks.
           bind_r (array_set cs pos child) (\<lambda>cs.
           bind_r (array_get cs (pos + 1)) (\<lambda>c1.
           bind_r (array_set (cs[pos := c1]) (pos + 1) child) (\<lambda>cs.
           Inr (n\<lparr>ikeys := ks, ichildren := cs, icount := icount n + 1\<rparr>))))))))"

definition inner_remove :: "nat \<Rightarrow> 'k BTreeInner \<Rightarrow> (bool \<times> 'k BTreeInner) result" where
  "inner_remove pos n =
     (if icount n \<noteq> 0 \<and> pos < icount n then
        bind_r (memmove (ikeys n) pos (pos + 1) (icount n - (pos + 1))) (\<lambda>ks.
        bind_r (memmove (ichildren n) (pos + 1) (pos + 2) (icount n + 1 - (pos + 2))) (\<lambda>cs.
        Inr (True, n\<lparr>ikeys := ks, ichildren := cs, icount := icount n - 1\<rparr>)))
      else Inr (False, n))"

section \<open>What the searches compute\<close>

text \<open>Reference positions in a sorted list: the first key not below \<open>k\<close>, the first key above \<open>k\<close>.\<close>

definition lb :: "'k::linorder list \<Rightarrow> 'k \<Rightarrow> nat" where
  "lb xs k = length (takeWhile (\<lambda>x. x < k) xs)"

definition ub :: "'k::linorder list \<Rightarrow> 'k \<Rightarrow> nat" where
  "ub xs k = length (takeWhile (\<lambda>x. x \<le> k) xs)"

lemma takeWhile_length_unique:
  assumes "r \<le> length xs" and "\<And>i. i < r \<Longrightarrow> P (xs ! i)" and "r < length xs \<Longrightarrow> \<not> P (xs ! r)"
  shows "length (takeWhile P xs) = r"
  using assms
proof (induction xs arbitrary: r)
  case (Cons x xs)
  show ?case
  proof (cases r)
    case 0
    then show ?thesis using Cons.prems(3) by simp
  next
    case (Suc r')
    have "length (takeWhile P xs) = r'"
      using Cons.prems Suc by (intro Cons.IH) force+
    then show ?thesis using Cons.prems(2) [of 0] Suc by simp
  qed
qed simp

lemma lb_le: "lb xs k \<le> length xs"
  by (simp add: lb_def length_takeWhile_le)

lemma lb_below: "i < lb xs k \<Longrightarrow> xs ! i < k"
  unfolding lb_def by (metis nth_mem set_takeWhileD takeWhile_nth)

lemma lb_at: "lb xs k < length xs \<Longrightarrow> k \<le> xs ! lb xs k"
  unfolding lb_def by (metis nth_length_takeWhile not_le)

lemma sorted_nth_less:
  "sorted_wrt (<) xs \<Longrightarrow> i < j \<Longrightarrow> j < length xs \<Longrightarrow> xs ! i < (xs ! j :: 'k::linorder)"
  by (simp add: sorted_wrt_nth_less)

lemma sorted_nth_le:
  "sorted_wrt (<) xs \<Longrightarrow> i \<le> j \<Longrightarrow> j < length xs \<Longrightarrow> xs ! i \<le> (xs ! j :: 'k::linorder)"
  by (metis le_less sorted_nth_less)

lemma lb_above: "sorted_wrt (<) xs \<Longrightarrow> lb xs k \<le> i \<Longrightarrow> i < length xs \<Longrightarrow> k \<le> xs ! i"
  by (meson lb_at le_less_trans order_trans sorted_nth_le)

lemma lb_unique:
  "r \<le> length xs \<Longrightarrow> (\<And>i. i < r \<Longrightarrow> xs ! i < k) \<Longrightarrow> (r < length xs \<Longrightarrow> k \<le> xs ! r) \<Longrightarrow> lb xs k = r"
  unfolding lb_def by (rule takeWhile_length_unique) auto

lemma ub_unique:
  "r \<le> length xs \<Longrightarrow> (\<And>i. i < r \<Longrightarrow> xs ! i \<le> k) \<Longrightarrow> (r < length xs \<Longrightarrow> k < xs ! r) \<Longrightarrow> ub xs k = r"
  unfolding ub_def by (rule takeWhile_length_unique) auto

text \<open>Loop invariant of the binary searches: everything left of \<open>lower\<close> is below \<open>k\<close>, everything
  from \<open>upper\<close> on is above it.\<close>

lemma lowerBound_loop_lb:
  assumes "sorted_wrt (<) (take n keys)" and "n \<le> length keys"
    and "lower < upper" and "upper \<le> n"
    and "\<And>i. i < lower \<Longrightarrow> keys ! i < k" and "\<And>i. upper \<le> i \<Longrightarrow> i < n \<Longrightarrow> k < keys ! i"
  shows "lowerBound_loop keys k lower upper = lb (take n keys) k"
  using assms
proof (induction keys k lower upper rule: lowerBound_loop.induct)
  case (1 keys k lower upper)
  define mid where "mid = (upper - lower) div 2 + lower"
  have mid: "lower \<le> mid" "mid < upper" using "1.prems" by (auto simp: mid_def)
  have srt: "i < j \<Longrightarrow> j < n \<Longrightarrow> keys ! i < keys ! j" for i j
    using sorted_nth_less [OF "1.prems"(1), of i j] "1.prems"(2) by simp
  have eq: "lowerBound_loop keys k lower upper =
      (if k < keys ! mid then (if lower < mid then lowerBound_loop keys k lower mid else lower)
       else if k > keys ! mid then
         (if mid + 1 < upper then lowerBound_loop keys k (mid + 1) upper else mid + 1)
       else mid)"
    by (subst lowerBound_loop.simps) (simp add: mid_def Let_def)
  consider (less) "k < keys ! mid" | (greater) "\<not> k < keys ! mid" "k > keys ! mid" | (equal) "k = keys ! mid"
    by fastforce
  then show ?case
  proof cases
    case less
    have hi: "k < keys ! i" if "mid \<le> i" "i < n" for i
      using srt [of mid i] less that by (metis le_less less_trans)
    show ?thesis
    proof (cases "lower < mid")
      case True
      with less eq show ?thesis
        using "1.IH"(1) [OF mid_def less True] "1.prems" hi mid by simp
    next
      case False
      then have "lb (take n keys) k = lower"
        using mid "1.prems" hi by (intro lb_unique) (auto simp: less_imp_le)
      with False less eq show ?thesis by simp
    qed
  next
    case greater
    have lo: "keys ! i < k" if "i < mid + 1" for i
      using srt [of i mid] greater that mid "1.prems"
      by (metis Suc_eq_plus1 less_SucE less_le_trans less_trans)
    show ?thesis
    proof (cases "mid + 1 < upper")
      case True
      with greater eq show ?thesis
        using "1.IH"(2) [OF mid_def greater True] "1.prems" lo by simp
    next
      case False
      then have "lb (take n keys) k = mid + 1"
        using mid "1.prems" lo by (intro lb_unique) (auto simp: less_imp_le)
      with False greater eq show ?thesis by simp
    qed
  next
    case equal
    have "lb (take n keys) k = mid"
      using equal mid "1.prems" srt by (intro lb_unique) auto
    with equal eq show ?thesis by simp
  qed
qed

lemma upperBound_loop_ub:
  assumes "sorted_wrt (<) (take n keys)" and "n \<le> length keys"
    and "lower < upper" and "upper \<le> n"
    and "\<And>i. i < lower \<Longrightarrow> keys ! i \<le> k" and "\<And>i. upper \<le> i \<Longrightarrow> i < n \<Longrightarrow> k < keys ! i"
  shows "upperBound_loop keys k lower upper = ub (take n keys) k"
  using assms
proof (induction keys k lower upper rule: upperBound_loop.induct)
  case (1 keys k lower upper)
  define mid where "mid = (upper - lower) div 2 + lower"
  have mid: "lower \<le> mid" "mid < upper" using "1.prems" by (auto simp: mid_def)
  have srt: "i < j \<Longrightarrow> j < n \<Longrightarrow> keys ! i < keys ! j" for i j
    using sorted_nth_less [OF "1.prems"(1), of i j] "1.prems"(2) by simp
  have eq: "upperBound_loop keys k lower upper =
      (if k < keys ! mid then (if lower < mid then upperBound_loop keys k lower mid else lower)
       else (if mid + 1 < upper then upperBound_loop keys k (mid + 1) upper else mid + 1))"
    by (subst upperBound_loop.simps) (auto simp add: mid_def Let_def)
  show ?case
  proof (cases "k < keys ! mid")
    case less: True
    have hi: "k < keys ! i" if "mid \<le> i" "i < n" for i
      using srt [of mid i] less that by (metis le_less less_trans)
    show ?thesis
    proof (cases "lower < mid")
      case True
      with less eq show ?thesis
        using "1.IH"(1) [OF mid_def less True] "1.prems" hi mid by simp
    next
      case False
      then have "ub (take n keys) k = lower"
        using mid "1.prems" hi by (intro ub_unique) auto
      with False less eq show ?thesis by simp
    qed
  next
    case ge: False
    have lo: "keys ! i \<le> k" if "i < mid + 1" for i
      using srt [of i mid] ge that mid "1.prems"
      by (metis Suc_eq_plus1 less_SucE less_le_trans less_imp_le not_le order_trans)
    show ?thesis
    proof (cases "mid + 1 < upper")
      case True
      with ge eq show ?thesis
        using "1.IH"(2) [OF mid_def ge _ True] "1.prems" lo by simp
    next
      case False
      then have "ub (take n keys) k = mid + 1"
        using mid "1.prems" lo by (intro ub_unique) auto
      with False ge eq show ?thesis by simp
    qed
  qed
qed

lemma lowerBoundBF_loop_lb:
  assumes "sorted_wrt (<) (take c keys)" and "c \<le> length keys" and "0 < n" and "base + n \<le> c"
    and "base = 0 \<or> keys ! base < k" and "base + n < c \<longrightarrow> k \<le> keys ! (base + n)"
  shows "lowerBoundBF_loop keys k base n < c \<and>
     (if keys ! lowerBoundBF_loop keys k base n < k then 1 else 0) + lowerBoundBF_loop keys k base n
       = lb (take c keys) k"
  using assms
proof (induction keys k base n rule: lowerBoundBF_loop.induct)
  case (1 keys k base n)
  define half where "half = n div 2"
  define base' where "base' = (if keys ! (base + half) < k then base + half else base)"
  have eq: "lowerBoundBF_loop keys k base n =
      (if n > 1 then lowerBoundBF_loop keys k base' (n - half) else base)"
    by (subst lowerBoundBF_loop.simps) (simp add: half_def base'_def Let_def)
  have srt: "i < j \<Longrightarrow> j < c \<Longrightarrow> keys ! i < keys ! j" for i j
    using sorted_nth_less [OF "1.prems"(1), of i j] "1.prems"(2) by simp
  show ?case
  proof (cases "n > 1")
    case True
    then have half: "0 < half" "half < n" "n - half \<ge> half" by (auto simp: half_def)
    have "base' + (n - half) < c \<longrightarrow> k \<le> keys ! (base' + (n - half))"
    proof (cases "keys ! (base + half) < k")
      case True
      then show ?thesis using "1.prems" half by (simp add: base'_def)
    next
      case False
      then have "k \<le> keys ! (base + half)" by simp
      moreover have "keys ! (base + half) \<le> keys ! (base + (n - half))" if "base + (n - half) < c"
        using srt that half(3) by (metis add_le_cancel_left le_less)
      ultimately show ?thesis using False by (auto simp: base'_def)
    qed
    then have "lowerBoundBF_loop keys k base' (n - half) < c \<and>
       (if keys ! lowerBoundBF_loop keys k base' (n - half) < k then 1 else 0)
         + lowerBoundBF_loop keys k base' (n - half) = lb (take c keys) k"
      unfolding base'_def using "1.prems" half
      by (intro "1.IH" [OF True half_def]) (auto split: if_splits)
    with True eq show ?thesis by simp
  next
    case False
    with "1.prems" have n: "n = 1" by simp
    have "lb (take c keys) k = (if keys ! base < k then 1 else 0) + base"
    proof (rule lb_unique)
      have below: "keys ! i < k" if "i < base" for i
        using srt [of i base] "1.prems" n that by force
      show "(if keys ! base < k then 1 else 0) + base \<le> length (take c keys)"
        using "1.prems" n by auto
      show "take c keys ! i < k" if "i < (if keys ! base < k then 1 else 0) + base" for i
        using that below "1.prems" n by (auto simp: less_Suc_eq split: if_splits)
      show "k \<le> take c keys ! ((if keys ! base < k then 1 else 0) + base)"
        if "(if keys ! base < k then 1 else 0) + base < length (take c keys)"
        using that "1.prems" n by (auto split: if_splits)
    qed
    with n eq "1.prems" show ?thesis by simp
  qed
qed

section \<open>Live contents of a node and its well-formedness\<close>

definition leaf_keys :: "('k, 'v) BTreeLeaf \<Rightarrow> 'k list" where
  "leaf_keys l = take (lcount l) (lkeys l)"

definition leaf_vals :: "('k, 'v) BTreeLeaf \<Rightarrow> 'v list" where
  "leaf_vals l = take (lcount l) (lpayloads l)"

definition leaf_kvs :: "('k, 'v) BTreeLeaf \<Rightarrow> ('k \<times> 'v) list" where
  "leaf_kvs l = zip (leaf_keys l) (leaf_vals l)"

definition inner_keys :: "'k BTreeInner \<Rightarrow> 'k list" where
  "inner_keys n = take (icount n) (ikeys n)"

definition inner_children :: "'k BTreeInner \<Rightarrow> PID list" where
  "inner_children n = take (icount n + 1) (ichildren n)"

definition leaf_ok :: "nat \<Rightarrow> ('k::linorder, 'v) BTreeLeaf \<Rightarrow> bool" where
  "leaf_ok lm l \<longleftrightarrow> length (lkeys l) = lm \<and> length (lpayloads l) = lm \<and> lcount l \<le> lm
     \<and> sorted_wrt (<) (leaf_keys l)"

definition inner_ok :: "nat \<Rightarrow> 'k::linorder BTreeInner \<Rightarrow> bool" where
  "inner_ok im n \<longleftrightarrow> length (ikeys n) = im \<and> length (ichildren n) = im
     \<and> 1 \<le> icount n \<and> icount n < im \<and> sorted_wrt (<) (inner_keys n)"

lemma length_leaf_keys: "leaf_ok lm l \<Longrightarrow> length (leaf_keys l) = lcount l"
  by (simp add: leaf_ok_def leaf_keys_def)

lemma length_leaf_vals: "leaf_ok lm l \<Longrightarrow> length (leaf_vals l) = lcount l"
  by (simp add: leaf_ok_def leaf_vals_def)

lemma length_leaf_kvs: "leaf_ok lm l \<Longrightarrow> length (leaf_kvs l) = lcount l"
  by (simp add: leaf_kvs_def length_leaf_keys length_leaf_vals)

lemma length_inner_keys: "inner_ok im n \<Longrightarrow> length (inner_keys n) = icount n"
  by (simp add: inner_ok_def inner_keys_def)

lemma length_inner_children: "inner_ok im n \<Longrightarrow> length (inner_children n) = icount n + 1"
  by (auto simp: inner_ok_def inner_children_def)

lemma map_fst_leaf_kvs: "leaf_ok lm l \<Longrightarrow> map fst (leaf_kvs l) = leaf_keys l"
  by (simp add: leaf_kvs_def length_leaf_keys length_leaf_vals)



lemma leaf_lowerBound_lb: "leaf_ok lm l \<Longrightarrow> 0 < lcount l \<Longrightarrow> leaf_lowerBound l k = lb (leaf_keys l) k"
  using lowerBound_loop_lb [of "lcount l" "lkeys l" 0 "lcount l" k]
  by (simp add: leaf_ok_def leaf_keys_def leaf_lowerBound_def)

lemma inner_lowerBound_lb: "inner_ok im n \<Longrightarrow> inner_lowerBound n k = lb (inner_keys n) k"
  using lowerBound_loop_lb [of "icount n" "ikeys n" 0 "icount n" k]
  by (simp add: inner_ok_def inner_keys_def inner_lowerBound_def)

lemma inner_lowerBoundBF_lb: "inner_ok im n \<Longrightarrow> inner_lowerBoundBF n k = lb (inner_keys n) k"
  using lowerBoundBF_loop_lb [of "icount n" "ikeys n" "icount n" 0 k]
  by (simp add: inner_ok_def inner_keys_def inner_lowerBoundBF_def Let_def)

lemma inner_upperBound_ub: "inner_ok im n \<Longrightarrow> inner_upperBound n k = ub (inner_keys n) k"
  using upperBound_loop_ub [of "icount n" "ikeys n" 0 "icount n" k]
  by (simp add: inner_ok_def inner_keys_def inner_upperBound_def)

lemma take_lb: "take (lb xs k) xs = takeWhile (\<lambda>x. x < k) xs"
  unfolding lb_def by (rule takeWhile_eq_take [symmetric])

lemma take_lb_less: "x \<in> set (take (lb xs k) xs) \<Longrightarrow> x < k"
  unfolding take_lb by (drule set_takeWhileD) simp

lemma drop_lb_ge:
  assumes "sorted_wrt (<) xs" and "x \<in> set (drop (lb xs k) xs)"
  shows "k \<le> x"
proof -
  obtain i where "i < length (drop (lb xs k) xs)" "x = drop (lb xs k) xs ! i"
    using assms(2) by (metis in_set_conv_nth)
  then show ?thesis using lb_above [OF assms(1), of k "lb xs k + i"] by simp
qed

lemma lb_nth_eq_iff:
  assumes "sorted_wrt (<) xs"
  shows "lb xs k < length xs \<and> xs ! lb xs k = k \<longleftrightarrow> k \<in> set xs"
proof
  assume "k \<in> set xs"
  then obtain i where i: "i < length xs" "xs ! i = k" by (metis in_set_conv_nth)
  then have "lb xs k = i"
    using assms by (intro lb_unique) (auto simp: sorted_nth_less)
  with i show "lb xs k < length xs \<and> xs ! lb xs k = k" by simp
qed (metis nth_mem)

lemma sorted_insert_lb:
  assumes "sorted_wrt (<) xs" and "k \<notin> set xs"
  shows "sorted_wrt (<) (take (lb xs k) xs @ k # drop (lb xs k) xs)"
proof -
  have gt: "k < x" if "x \<in> set (drop (lb xs k) xs)" for x
    using drop_lb_ge [OF assms(1) that] that assms(2) in_set_dropD by (metis le_less)
  have "sorted_wrt (<) (take (lb xs k) xs @ drop (lb xs k) xs)"
    using assms(1) by simp
  then show ?thesis
    using take_lb_less gt unfolding sorted_wrt_append
    by (metis (no_types, lifting) less_trans set_ConsD sorted_wrt.simps(2))
qed

lemma sorted_drop_nth:
  assumes "sorted_wrt (<) xs"
  shows "sorted_wrt (<) (take p xs @ drop (p + 1) xs)"
proof (cases "p < length xs")
  case True
  then have "sorted_wrt (<) (take p xs @ xs ! p # drop (Suc p) xs)"
    using assms by (simp add: id_take_nth_drop [symmetric])
  then show ?thesis by (auto simp: sorted_wrt_append)
qed (use assms in simp)

section \<open>Leaves as sorted association lists\<close>

text \<open>Insertion, update and deletion at the search position of a key-sorted list of pairs.\<close>

definition kv_upd :: "'k::linorder \<Rightarrow> 'v \<Rightarrow> ('k \<times> 'v) list \<Rightarrow> ('k \<times> 'v) list" where
  "kv_upd k v xs =
     (let p = lb (map fst xs) k
      in if k \<in> fst ` set xs then xs[p := (k, v)] else take p xs @ (k, v) # drop p xs)"

definition kv_del :: "'k::linorder \<Rightarrow> ('k \<times> 'v) list \<Rightarrow> ('k \<times> 'v) list" where
  "kv_del k xs = (let p = lb (map fst xs) k in if k \<in> fst ` set xs then take p xs @ drop (p + 1) xs else xs)"

lemma map_of_sorted_split:
  fixes k :: "'k::linorder"
  assumes "sorted_wrt (<) (map fst (xs @ (k, v) # ys))"
  shows "map_of (xs @ (k, v) # ys) = (map_of (xs @ ys))(k \<mapsto> v)" and "map_of (xs @ ys) k = None"
proof -
  have "\<forall>x\<in>fst ` set xs. x < k" "\<forall>y\<in>fst ` set ys. k < y"
    using assms by (simp_all add: sorted_wrt_append)
  then have "k \<notin> fst ` set xs" and "k \<notin> fst ` set ys"
    using less_irrefl [of k] by auto
  then have none: "map_of xs k = None" "map_of ys k = None"
    by (simp_all add: map_of_eq_None_iff)
  then show "map_of (xs @ ys) k = None" by (simp add: map_add_def)
  show "map_of (xs @ (k, v) # ys) = (map_of (xs @ ys))(k \<mapsto> v)"
    using none by (auto simp: map_add_def fun_eq_iff split: option.splits)
qed

lemma kv_upd_sorted_map:
  assumes "sorted_wrt (<) (map fst xs)"
  shows "sorted_wrt (<) (map fst (kv_upd k v xs))" and "map_of (kv_upd k v xs) = (map_of xs)(k \<mapsto> v)"
    and "fst ` set (kv_upd k v xs) = insert k (fst ` set xs)"
proof -
  let ?p = "lb (map fst xs) k"
  have ab: "sorted_wrt (<) (map fst (kv_upd k v xs)) \<and> map_of (kv_upd k v xs) = (map_of xs)(k \<mapsto> v)
      \<and> fst ` set (kv_upd k v xs) = insert k (fst ` set xs)"
  proof (cases "k \<in> fst ` set xs")
    case True
    then have p: "?p < length xs" "fst (xs ! ?p) = k"
      using lb_nth_eq_iff [OF assms, of k] by auto
    obtain v0 where v0: "xs ! ?p = (k, v0)" using p(2) by (metis prod.collapse)
    have xs: "xs = take ?p xs @ (k, v0) # drop (Suc ?p) xs"
      using p(1) v0 by (metis id_take_nth_drop)
    have upd: "kv_upd k v xs = take ?p xs @ (k, v) # drop (Suc ?p) xs"
      using True p(1) by (simp add: kv_upd_def Let_def upd_conv_take_nth_drop)
    have keys: "map fst (kv_upd k v xs) = map fst xs"
      unfolding upd by (subst (3) xs) simp
    have "sorted_wrt (<) (map fst (take ?p xs @ (k, v) # drop (Suc ?p) xs))"
      using assms keys unfolding upd by simp
    from map_of_sorted_split(1) [OF this]
    have "map_of (kv_upd k v xs) = (map_of (take ?p xs @ drop (Suc ?p) xs))(k \<mapsto> v)"
      unfolding upd .
    moreover have "map_of xs = (map_of (take ?p xs @ drop (Suc ?p) xs))(k \<mapsto> v0)"
      using map_of_sorted_split(1) [of "take ?p xs" k v0 "drop (Suc ?p) xs"] assms xs by metis
    ultimately show ?thesis
      using assms keys True by (metis fun_upd_upd insert_absorb list.set_map)
  next
    case False
    then have upd: "kv_upd k v xs = take ?p xs @ (k, v) # drop ?p xs"
      by (simp add: kv_upd_def Let_def)
    then have s: "sorted_wrt (<) (map fst (kv_upd k v xs))"
      using sorted_insert_lb [OF assms, of k] False by (simp add: take_map drop_map)
    have "set (kv_upd k v xs) = insert (k, v) (set (take ?p xs @ drop ?p xs))"
      unfolding upd set_append by simp
    then have "fst ` set (kv_upd k v xs) = insert k (fst ` set xs)"
      by simp
    with s map_of_sorted_split(1) [of "take ?p xs" k v "drop ?p xs"] upd show ?thesis by simp
  qed
  then show "sorted_wrt (<) (map fst (kv_upd k v xs))" and "map_of (kv_upd k v xs) = (map_of xs)(k \<mapsto> v)"
    and "fst ` set (kv_upd k v xs) = insert k (fst ` set xs)"
    by simp_all
qed

lemma kv_del_sorted_map:
  assumes "sorted_wrt (<) (map fst xs)"
  shows "sorted_wrt (<) (map fst (kv_del k xs))" and "map_of (kv_del k xs) = (map_of xs)(k := None)"
    and "fst ` set (kv_del k xs) \<subseteq> fst ` set xs"
proof -
  let ?p = "lb (map fst xs) k"
  have "sorted_wrt (<) (map fst (kv_del k xs)) \<and> map_of (kv_del k xs) = (map_of xs)(k := None)
      \<and> fst ` set (kv_del k xs) \<subseteq> fst ` set xs"
  proof (cases "k \<in> fst ` set xs")
    case True
    then have p: "?p < length xs" "fst (xs ! ?p) = k"
      using lb_nth_eq_iff [OF assms, of k] by auto
    obtain v0 where v0: "xs ! ?p = (k, v0)" using p(2) by (metis prod.collapse)
    have xs: "xs = take ?p xs @ (k, v0) # drop (Suc ?p) xs"
      using p(1) v0 by (metis id_take_nth_drop)
    let ?ys = "take ?p xs @ drop (Suc ?p) xs"
    have del: "kv_del k xs = ?ys"
      using True by (simp add: kv_del_def Let_def)
    have s: "sorted_wrt (<) (map fst (take ?p xs @ (k, v0) # drop (Suc ?p) xs))"
      using assms xs by simp
    then have "sorted_wrt (<) (map fst ?ys)"
      by (auto simp: sorted_wrt_append)
    moreover have "map_of xs = (map_of ?ys)(k \<mapsto> v0)" "map_of ?ys k = None"
      using map_of_sorted_split [OF s] xs by metis+
    then have "map_of ?ys = (map_of xs)(k := None)"
      by (metis fun_upd_triv fun_upd_upd)
    moreover have "set ?ys \<subseteq> set xs"
      by (auto dest: in_set_takeD in_set_dropD)
    ultimately show ?thesis unfolding del by blast
  next
    case False
    then have "map_of xs k = None" by (simp add: map_of_eq_None_iff)
    with False assms show ?thesis by (simp add: kv_del_def Let_def fun_upd_idem)
  qed
  then show "sorted_wrt (<) (map fst (kv_del k xs))" and "map_of (kv_del k xs) = (map_of xs)(k := None)"
    and "fst ` set (kv_del k xs) \<subseteq> fst ` set xs"
    by simp_all
qed

text \<open>On a well-formed leaf with room, \<open>insert\<close> stays inside its arrays, keeps the leaf
  well-formed and updates exactly the entry of \<open>k\<close> (an existing key is overwritten).\<close>

lemma leaf_insert_ok:
  assumes "leaf_ok lm l" and "lcount l < lm"
  shows "\<exists>l'. leaf_insert k v l = Inr l' \<and> leaf_ok lm l' \<and> leaf_kvs l' = kv_upd k v (leaf_kvs l)
     \<and> lfences l' = lfences l \<and> lcount l' \<le> lcount l + 1"
proof -
  let ?c = "lcount l"
  have len: "length (lkeys l) = lm" "length (lpayloads l) = lm" "?c \<le> lm" and srt: "sorted_wrt (<) (leaf_keys l)"
    using assms(1) by (simp_all add: leaf_ok_def)
  have fst: "map fst (leaf_kvs l) = leaf_keys l" "fst ` set (leaf_kvs l) = set (leaf_keys l)"
    using map_fst_leaf_kvs [OF assms(1)] by (simp, metis list.set_map)
  have klen: "length (leaf_keys l) = ?c" "length (leaf_vals l) = ?c"
    using assms(1) by (simp_all add: length_leaf_keys length_leaf_vals)
  show ?thesis
  proof (cases "?c = 0")
    case True
    then have "leaf_insert k v l = Inr (l\<lparr>lkeys := (lkeys l)[0 := k], lpayloads := (lpayloads l)[0 := v], lcount := 1\<rparr>)"
      using assms(2) len by (simp add: leaf_insert_def)
    with True assms(2) len show ?thesis
      by (cases "lkeys l"; cases "lpayloads l")
        (simp_all add: leaf_ok_def leaf_keys_def leaf_vals_def leaf_kvs_def kv_upd_def lb_def)
  next
    case False
    define pos where "pos = lb (leaf_keys l) k"
    have pos: "leaf_lowerBound l k = pos" "pos \<le> ?c"
      using False assms(1) klen lb_le [of "leaf_keys l" k] by (simp_all add: pos_def leaf_lowerBound_lb)
    have hit: "pos < ?c \<and> lkeys l ! pos = k \<longleftrightarrow> k \<in> set (leaf_keys l)"
      using lb_nth_eq_iff [OF srt, of k] klen by (auto simp: pos_def leaf_keys_def)
    show ?thesis
    proof (cases "k \<in> set (leaf_keys l)")
      case True
      with hit have p: "pos < ?c" "lkeys l ! pos = k" by simp_all
      have ins: "leaf_insert k v l = Inr (l\<lparr>lpayloads := (lpayloads l)[pos := v]\<rparr>)"
        using False p pos len by (simp add: leaf_insert_def Let_def)
      have "leaf_keys l ! pos = k" using p by (simp add: leaf_keys_def)
      then have "(leaf_keys l)[pos := k] = leaf_keys l" by (metis list_update_id)
      then have "zip (leaf_keys l) (take ?c ((lpayloads l)[pos := v])) = (leaf_kvs l)[pos := (k, v)]"
        by (simp add: leaf_kvs_def leaf_vals_def take_update_swap update_zip)
      with ins True p len srt fst show ?thesis
        by (simp add: leaf_ok_def leaf_keys_def leaf_vals_def leaf_kvs_def kv_upd_def Let_def pos_def)
    next
      case new: False
      let ?ks = "(take (pos + 1) (lkeys l) @ take (?c - pos) (drop pos (lkeys l)) @ drop (pos + 1 + (?c - pos)) (lkeys l))[pos := k]"
      let ?vs = "(take (pos + 1) (lpayloads l) @ take (?c - pos) (drop pos (lpayloads l)) @ drop (pos + 1 + (?c - pos)) (lpayloads l))[pos := v]"
      have nh: "\<not> (pos < ?c \<and> lkeys l ! pos = k)" using hit new by blast
      have ins: "leaf_insert k v l = Inr (l\<lparr>lkeys := ?ks, lpayloads := ?vs, lcount := ?c + 1\<rparr>)"
        using False nh pos len assms(2) by (auto simp add: leaf_insert_def Let_def memmove_Inr)
      have ks: "take (?c + 1) ?ks = take pos (leaf_keys l) @ k # drop pos (leaf_keys l)"
        and vs: "take (?c + 1) ?vs = take pos (leaf_vals l) @ v # drop pos (leaf_vals l)"
        using live_insert [of pos ?c "lkeys l" k] live_insert [of pos ?c "lpayloads l" v] pos len assms(2)
        by (simp_all add: leaf_keys_def leaf_vals_def min_def)
      have "zip (take pos (leaf_keys l) @ k # drop pos (leaf_keys l)) (take pos (leaf_vals l) @ v # drop pos (leaf_vals l))
          = kv_upd k v (leaf_kvs l)"
        using new fst klen pos
        by (simp add: kv_upd_def Let_def leaf_kvs_def pos_def take_zip drop_zip)
      moreover have "sorted_wrt (<) (take pos (leaf_keys l) @ k # drop pos (leaf_keys l))"
        unfolding pos_def by (rule sorted_insert_lb [OF srt new])
      moreover have "length ?ks = lm" "length ?vs = lm"
        using len pos assms(2) by simp_all
      moreover let ?l' = "l\<lparr>lkeys := ?ks, lpayloads := ?vs, lcount := ?c + 1\<rparr>"
      have "leaf_keys ?l' = take pos (leaf_keys l) @ k # drop pos (leaf_keys l)"
        and "leaf_vals ?l' = take pos (leaf_vals l) @ v # drop pos (leaf_vals l)"
        using ks vs unfolding leaf_keys_def [of ?l'] leaf_vals_def [of ?l'] by simp_all
      moreover obtain l' where l': "l' = ?l'" by simp
      moreover have "leaf_kvs l' = zip (leaf_keys l') (leaf_vals l')" by (simp add: leaf_kvs_def)
      ultimately have "leaf_ok lm l' \<and> leaf_kvs l' = kv_upd k v (leaf_kvs l) \<and> lfences l' = lfences l \<and> lcount l' \<le> ?c + 1"
        using len assms(2) by (simp add: leaf_ok_def)
      with ins l' show ?thesis by simp
    qed
  qed
qed

text \<open>On a well-formed leaf, \<open>remove\<close> stays inside its arrays, reports whether the key was there,
  keeps the leaf well-formed and its fences, and deletes exactly the entry of \<open>k\<close>.\<close>

lemma leaf_remove_ok:
  assumes "leaf_ok lm l"
  shows "\<exists>l'. leaf_remove k l = Inr (k \<in> set (leaf_keys l), l') \<and> leaf_ok lm l'
     \<and> leaf_kvs l' = kv_del k (leaf_kvs l) \<and> lfences l' = lfences l \<and> lcount l' \<le> lcount l"
proof -
  let ?c = "lcount l"
  have len: "length (lkeys l) = lm" "length (lpayloads l) = lm" "?c \<le> lm" and srt: "sorted_wrt (<) (leaf_keys l)"
    using assms by (simp_all add: leaf_ok_def)
  have fst: "map fst (leaf_kvs l) = leaf_keys l" "fst ` set (leaf_kvs l) = set (leaf_keys l)"
    using map_fst_leaf_kvs [OF assms] by (simp, metis list.set_map)
  have klen: "length (leaf_keys l) = ?c" "length (leaf_vals l) = ?c"
    using assms by (simp_all add: length_leaf_keys length_leaf_vals)
  define pos where "pos = lb (leaf_keys l) k"
  have hit: "pos < ?c \<and> lkeys l ! pos = k \<longleftrightarrow> k \<in> set (leaf_keys l)"
    using lb_nth_eq_iff [OF srt, of k] klen by (auto simp: pos_def leaf_keys_def)
  show ?thesis
  proof (cases "k \<in> set (leaf_keys l)")
    case False
    have "leaf_remove k l = Inr (False, l)"
    proof (cases "?c = 0")
      case nz: False
      then have "leaf_lowerBound l k = pos" using assms by (simp add: pos_def leaf_lowerBound_lb)
      with False hit nz show ?thesis by (auto simp add: leaf_remove_def Let_def)
    qed (simp add: leaf_remove_def)
    with False fst assms show ?thesis by (simp add: kv_del_def Let_def)
  next
    case True
    with hit have p: "pos < ?c" "lkeys l ! pos = k" by simp_all
    then have nz: "?c \<noteq> 0" by simp
    have pos: "leaf_lowerBound l k = pos" using nz assms by (simp add: pos_def leaf_lowerBound_lb)
    let ?ks = "take pos (lkeys l) @ take (?c - (pos + 1)) (drop (pos + 1) (lkeys l)) @ drop (pos + (?c - (pos + 1))) (lkeys l)"
    let ?vs = "take pos (lpayloads l) @ take (?c - (pos + 1)) (drop (pos + 1) (lpayloads l)) @ drop (pos + (?c - (pos + 1))) (lpayloads l)"
    let ?l' = "l\<lparr>lkeys := ?ks, lpayloads := ?vs, lcount := ?c - 1\<rparr>"
    have rem: "leaf_remove k l = Inr (True, ?l')"
      using nz p pos len by (simp add: leaf_remove_def Let_def memmove_Inr)
    have ks: "leaf_keys ?l' = take pos (leaf_keys l) @ drop (pos + 1) (leaf_keys l)"
      and vs: "leaf_vals ?l' = take pos (leaf_vals l) @ drop (pos + 1) (leaf_vals l)"
      using live_remove [of pos ?c "lkeys l"] live_remove [of pos ?c "lpayloads l"] p len
      unfolding leaf_keys_def leaf_vals_def by (simp_all add: min_def)
    have "zip (take pos (leaf_keys l) @ drop (pos + 1) (leaf_keys l)) (take pos (leaf_vals l) @ drop (pos + 1) (leaf_vals l))
        = kv_del k (leaf_kvs l)"
      using True fst klen p by (simp add: kv_del_def Let_def leaf_kvs_def pos_def take_zip drop_zip)
    moreover have "sorted_wrt (<) (take pos (leaf_keys l) @ drop (Suc pos) (leaf_keys l))"
      using sorted_drop_nth [OF srt] by simp
    moreover have "length ?ks = lm" "length ?vs = lm"
      using len p by simp_all
    moreover obtain l' where l': "l' = ?l'" by simp
    moreover have "leaf_kvs l' = zip (leaf_keys l') (leaf_vals l')" by (simp add: leaf_kvs_def)
    ultimately have "leaf_ok lm l' \<and> leaf_kvs l' = kv_del k (leaf_kvs l) \<and> lfences l' = lfences l \<and> lcount l' \<le> ?c"
      using ks vs len by (simp add: leaf_ok_def)
    with True rem l' show ?thesis by simp
  qed
qed

text \<open>Splitting a full leaf: the two halves hold the old entries in order, the separator is the last
  key of the left half and becomes the fence between them.\<close>

lemma leaf_split_ok:
  assumes ok: "leaf_ok lm l" and full: "lcount l = lm" and lm: "2 \<le> lm"
    and nl: "length (lkeys nl) = lm" "length (lpayloads nl) = lm"
  shows "\<exists>sep l1 l2. leaf_split lm l nl = Inr (sep, l1, l2) \<and> leaf_ok lm l1 \<and> leaf_ok lm l2
     \<and> leaf_kvs l = leaf_kvs l1 @ leaf_kvs l2 \<and> leaf_keys l1 \<noteq> [] \<and> sep = last (leaf_keys l1)
     \<and> lcount l1 = lm div 2 \<and> lcount l2 = lm - lm div 2
     \<and> lfences l1 = \<lparr>lowerF = lowerF (lfences l), upperF = fence_at sep\<rparr>
     \<and> lfences l2 = \<lparr>lowerF = fence_at sep, upperF = upperF (lfences l)\<rparr>"
proof -
  let ?c = "lm div 2"
  let ?sep = "lkeys l ! (?c - 1)"
  let ?l1 = "leaf_setFences (getLower (lfences l)) (fence_at ?sep) (l\<lparr>lcount := ?c\<rparr>)"
  let ?l2 = "leaf_setFences (fence_at ?sep) (getUpper (lfences l))
      (nl\<lparr>lcount := lm - ?c, lkeys := drop ?c (lkeys l) @ drop (lm - ?c) (lkeys nl),
          lpayloads := drop ?c (lpayloads l) @ drop (lm - ?c) (lpayloads nl)\<rparr>)"
  have len: "length (lkeys l) = lm" "length (lpayloads l) = lm" and srt: "sorted_wrt (<) (lkeys l)"
    using ok full by (auto simp add: leaf_ok_def leaf_keys_def)
  have c: "lm - (lm - ?c) = ?c" "0 < ?c" "?c < lm" using lm by auto
  have "leaf_split lm l nl = Inr (?sep, ?l1, ?l2)"
    using full len nl c by (simp add: leaf_split_def Let_def memcpy_Inr)
  moreover have k: "leaf_keys ?l1 = take ?c (lkeys l)" "leaf_keys ?l2 = drop ?c (lkeys l)"
      "leaf_vals ?l1 = take ?c (lpayloads l)" "leaf_vals ?l2 = drop ?c (lpayloads l)"
    using len by (simp_all add: leaf_setFences_def leaf_keys_def leaf_vals_def)
  moreover have "leaf_ok lm ?l1 \<and> leaf_ok lm ?l2"
    using k srt len nl c by (simp add: leaf_ok_def sorted_wrt_take sorted_wrt_drop) (simp add: leaf_setFences_def)
  moreover have "leaf_kvs l = leaf_kvs ?l1 @ leaf_kvs ?l2"
    unfolding leaf_kvs_def k using full len
    by (simp add: leaf_keys_def leaf_vals_def zip_append [symmetric])
  moreover have "?sep = last (leaf_keys ?l1)"
    unfolding k using c len by (subst last_conv_nth) auto
  moreover have "leaf_keys ?l1 \<noteq> []" unfolding k using c len by auto
  ultimately show ?thesis
    by (intro exI [of _ ?sep] exI [of _ ?l1] exI [of _ ?l2])
      (simp add: leaf_setFences_def getLower_def getUpper_def)
qed

text \<open>Splitting an inner node moves the middle key up.\<close>

lemma inner_split_ok:
  assumes ok: "inner_ok im n" and c4: "4 \<le> icount n"
    and nn: "length (ikeys nn) = im" "length (ichildren nn) = im"
  shows "\<exists>sep n1 n2. inner_split n nn = Inr (sep, n1, n2) \<and> inner_ok im n1 \<and> inner_ok im n2
     \<and> inner_keys n = inner_keys n1 @ sep # inner_keys n2
     \<and> inner_children n = inner_children n1 @ inner_children n2
     \<and> icount n1 + 1 < icount n \<and> icount n2 + 1 < icount n"
proof -
  let ?old = "icount n"
  let ?m = "?old - ?old div 2"
  let ?c = "?old - ?m - 1"
  let ?sep = "ikeys n ! ?c"
  let ?n1 = "inner_setFences (getLower (ifences n)) (fence_at ?sep) (n\<lparr>icount := ?c\<rparr>)"
  let ?n2 = "inner_setFences (fence_at ?sep) (getUpper (ifences n))
      (nn\<lparr>icount := ?m, ikeys := take (?m + 1) (drop (?c + 1) (ikeys n)) @ drop (?m + 1) (ikeys nn),
          ichildren := take (?m + 1) (drop (?c + 1) (ichildren n)) @ drop (?m + 1) (ichildren nn)\<rparr>)"
  have len: "length (ikeys n) = im" "length (ichildren n) = im" "?old < im"
    and srt: "sorted_wrt (<) (take ?old (ikeys n))"
    using ok by (simp_all add: inner_ok_def inner_keys_def)
  have c: "0 < ?c" "?c + 1 + ?m = ?old" "0 < ?m" using c4 by auto
  have spl: "inner_split n nn = Inr (?sep, ?n1, ?n2)"
    using len nn c by (simp add: inner_split_def Let_def memcpy_Inr)
  have k: "inner_keys ?n1 = take ?c (ikeys n)" "inner_keys ?n2 = take ?m (drop (?c + 1) (ikeys n))"
      "inner_children ?n1 = take (?c + 1) (ichildren n)"
      "inner_children ?n2 = take (?m + 1) (drop (?c + 1) (ichildren n))"
    using len c nn by (simp_all add: inner_setFences_def inner_keys_def inner_children_def min_def)
  have spk: "inner_keys n = inner_keys ?n1 @ ?sep # inner_keys ?n2"
  proof -
    have "take ?old (ikeys n) = take (?c + (1 + ?m)) (ikeys n)" using c by simp
    also have "\<dots> = take ?c (ikeys n) @ take (1 + ?m) (drop ?c (ikeys n))" by (rule take_add)
    also have "drop ?c (ikeys n) = ikeys n ! ?c # drop (Suc ?c) (ikeys n)"
      using c len by (intro Cons_nth_drop_Suc [symmetric]) linarith
    finally show ?thesis unfolding k by (simp add: inner_keys_def)
  qed
  have spc: "inner_children n = inner_children ?n1 @ inner_children ?n2"
    unfolding k unfolding inner_children_def using c take_add [of "?c + 1" "?m + 1" "ichildren n"] by simp
  have srt': "sorted_wrt (<) (inner_keys ?n1)" "sorted_wrt (<) (inner_keys ?n2)"
    using srt spk unfolding inner_keys_def [of n, symmetric] by (simp_all add: sorted_wrt_append)
  have cnt: "icount ?n1 = ?c" "icount ?n2 = ?m" and lens: "length (ikeys ?n1) = im" "length (ichildren ?n1) = im"
      "length (ikeys ?n2) = im" "length (ichildren ?n2) = im"
    using c len nn by (simp_all add: inner_setFences_def)
  have "?c + 1 < ?old" "?m + 1 < ?old" using c by linarith+
  then have ok1: "inner_ok im ?n1" and ok2: "inner_ok im ?n2" and lt: "icount ?n1 + 1 < ?old" "icount ?n2 + 1 < ?old"
    using srt' cnt lens len(3) c unfolding inner_ok_def by linarith+
  show ?thesis
    by (intro exI conjI, rule spl, rule ok1, rule ok2, rule spk, rule spc, rule lt, rule lt)
qed

lemma inner_insert_ok:
  assumes ok: "inner_ok im n" and room: "icount n < im - 1" and new: "k \<notin> set (inner_keys n)"
  shows "\<exists>n'. inner_insert im k child n = Inr n' \<and> inner_ok im n' \<and> icount n' = icount n + 1
     \<and> inner_keys n' = take (lb (inner_keys n) k) (inner_keys n) @ k # drop (lb (inner_keys n) k) (inner_keys n)
     \<and> inner_children n' = take (lb (inner_keys n) k + 1) (inner_children n) @ child
          # drop (lb (inner_keys n) k + 1) (inner_children n)"
proof -
  let ?c = "icount n"
  define pos where "pos = lb (inner_keys n) k"
  have len: "length (ikeys n) = im" "length (ichildren n) = im" "?c < im" and srt: "sorted_wrt (<) (inner_keys n)"
    using ok by (simp_all add: inner_ok_def)
  have pos: "inner_lowerBound n k = pos" "pos \<le> ?c"
    using ok lb_le [of "inner_keys n" k] by (simp_all add: pos_def inner_lowerBound_lb length_inner_keys)
  define ks where "ks = (take (pos + 1) (ikeys n) @ take (?c - pos + 1) (drop pos (ikeys n)) @ drop (pos + 1 + (?c - pos + 1)) (ikeys n))[pos := k]"
  define cs where "cs = (take (pos + 1) (ichildren n) @ take (?c - pos + 1) (drop pos (ichildren n)) @ drop (pos + 1 + (?c - pos + 1)) (ichildren n))[pos := child]"
  have kslen: "length ks = im" and cslen: "length cs = im" and ind: "?c - pos + 1 = ?c + 1 - pos"
    using pos room len by (auto simp: ks_def cs_def)
  define n' where "n' = n\<lparr>ikeys := ks, ichildren := cs[pos := cs ! (pos + 1), pos + 1 := child], icount := ?c + 1\<rparr>"
  have ins: "inner_insert im k child n = Inr n'"
    using room pos len kslen cslen
    by (simp add: inner_insert_def Let_def memmove_Inr) (simp add: ks_def cs_def n'_def)
  have "inner_keys n' = take pos (inner_keys n) @ k # drop pos (inner_keys n)"
    using live_insert_inner(1) [OF pos(2) _ ks_def] pos room len by (simp add: inner_keys_def n'_def)
  moreover have "inner_children n' = take (pos + 1) (inner_children n) @ child # drop (pos + 1) (inner_children n)"
    using live_insert_inner(2) [OF pos(2) _ cs_def] pos room len by (simp add: inner_children_def n'_def)
  moreover have "sorted_wrt (<) (take pos (inner_keys n) @ k # drop pos (inner_keys n))"
    unfolding pos_def by (rule sorted_insert_lb [OF srt new])
  moreover have "icount n' = ?c + 1" "length (ikeys n') = im" "length (ichildren n') = im" "?c + 1 < im"
    using room kslen cslen by (auto simp: n'_def)
  ultimately show ?thesis
    using ins unfolding pos_def [symmetric] by (simp add: inner_ok_def)
qed

lemma inner_remove_ok:
  assumes ok: "inner_ok im n" and pos: "pos < icount n" and two: "2 \<le> icount n"
  shows "\<exists>n'. inner_remove pos n = Inr (True, n') \<and> inner_ok im n' \<and> icount n' = icount n - 1
     \<and> inner_keys n' = take pos (inner_keys n) @ drop (pos + 1) (inner_keys n)
     \<and> inner_children n' = take (pos + 1) (inner_children n) @ drop (pos + 2) (inner_children n)"
proof -
  let ?c = "icount n"
  have len: "length (ikeys n) = im" "length (ichildren n) = im" "?c < im" and srt: "sorted_wrt (<) (inner_keys n)"
    using ok by (simp_all add: inner_ok_def)
  define ks where "ks = take pos (ikeys n) @ take (?c - (pos + 1)) (drop (pos + 1) (ikeys n)) @ drop (pos + (?c - (pos + 1))) (ikeys n)"
  define cs where "cs = take (pos + 1) (ichildren n) @ take (?c + 1 - (pos + 2)) (drop (pos + 2) (ichildren n))
      @ drop (pos + 1 + (?c + 1 - (pos + 2))) (ichildren n)"
  define n' where "n' = n\<lparr>ikeys := ks, ichildren := cs, icount := ?c - 1\<rparr>"
  have rem: "inner_remove pos n = Inr (True, n')"
    using pos len by (simp add: inner_remove_def memmove_Inr ks_def cs_def n'_def)
  have "length ks = im" "length cs = im" using pos len by (auto simp: ks_def cs_def)
  moreover have k: "inner_keys n' = take pos (inner_keys n) @ drop (pos + 1) (inner_keys n)"
    using live_remove [of pos ?c "ikeys n"] pos len by (simp add: n'_def ks_def inner_keys_def min_def)
  moreover have c: "inner_children n' = take (pos + 1) (inner_children n) @ drop (pos + 2) (inner_children n)"
    using live_remove [of "pos + 1" "?c + 1" "ichildren n"] pos len two
    by (simp add: n'_def cs_def inner_children_def min_def)
  moreover have "sorted_wrt (<) (take pos (inner_keys n) @ drop (pos + 1) (inner_keys n))"
    by (rule sorted_drop_nth [OF srt])
  moreover have "1 \<le> ?c - 1" "?c - 1 < im" using len(3) two by linarith+
  ultimately have "inner_ok im n'" by (simp add: inner_ok_def n'_def)
  with rem k c show ?thesis by (simp add: n'_def)
qed

end
