(* ===== verification/BTree_Store.thy ===== *)
theory BTree_Store
  imports BTree_Node
begin

text \<open>
  The B+-tree of BTree.hpp over a page store: entry page, descent, insertion with preemptive
  splits, removal with leaf merging, and the three lookups.

  A page is what \<open>asPtr\<close>/\<open>as\<close> reinterpret: the entry record, a leaf or an inner node; the store maps
  page ids to pages.  Fresh pages come from a supply of page ids (the free lists of the owners),
  and their uninitialised contents are a parameter (\<open>junkLeaf\<close>, \<open>junkInner\<close>).

  Every \<open>goto restart\<close> of the code is taken when an optimistic guard fails to validate.  Which
  checks fail is decided by other threads, so one attempt of an operation is parameterised by a
  predicate \<open>rt\<close>: \<open>rt 0 i\<close> is the \<open>i\<close>-th check outside the descent loop, \<open>rt (Suc l) i\<close> the \<open>i\<close>-th check of
  the loop iteration at level \<open>l\<close>.  A whole call runs over a list of such predicates, one per attempt, and
  returns \<open>None\<close> when the list is used up.
\<close>

section \<open>Pages and the store\<close>

datatype ('k, 'v) page =
    EntryPage (eroot: PID) (eheight: nat)
  | LeafPage "('k, 'v) BTreeLeaf"
  | InnerPage "'k BTreeInner"

record ('k, 'v) bstore =
  bpages :: "PID \<Rightarrow> ('k, 'v) page option"
  bfree :: "PID list"
  bnode :: NodeID

record ('k, 'v) benv =
  leafMax :: nat
  innerMax :: nat
  junkLeaf :: "PID \<Rightarrow> 'k \<times> 'k list \<times> 'v list"
  junkInner :: "PID \<Rightarrow> 'k \<times> 'k list \<times> PID list"

type_synonym retries = "nat \<Rightarrow> nat \<Rightarrow> bool"

datatype ('s, 'a) attempt = Restart 's | Done 's 'a

definition setPage :: "PID \<Rightarrow> ('k, 'v) page \<Rightarrow> ('k, 'v) bstore \<Rightarrow> ('k, 'v) bstore" where
  "setPage p pg s = s\<lparr>bpages := (bpages s)(p \<mapsto> pg)\<rparr>"

definition as_leaf :: "('k, 'v) bstore \<Rightarrow> PID \<Rightarrow> ('k, 'v) BTreeLeaf result" where
  "as_leaf s p = (case bpages s p of Some (LeafPage l) \<Rightarrow> Inr l | _ \<Rightarrow> Inl Bad_page)"

definition as_inner :: "('k, 'v) bstore \<Rightarrow> PID \<Rightarrow> 'k BTreeInner result" where
  "as_inner s p = (case bpages s p of Some (InnerPage n) \<Rightarrow> Inr n | _ \<Rightarrow> Inl Bad_page)"

definition as_entry :: "('k, 'v) bstore \<Rightarrow> PID \<Rightarrow> (PID \<times> nat) result" where
  "as_entry s p = (case bpages s p of Some (EntryPage r h) \<Rightarrow> Inr (r, h) | _ \<Rightarrow> Inl Bad_page)"

text \<open>Allocation waits until an owner hands out a page id; reclaiming returns an id only to its owner.\<close>

definition alloc_pid :: "('k, 'v) bstore \<Rightarrow> (PID \<times> ('k, 'v) bstore) result" where
  "alloc_pid s = (case bfree s of [] \<Rightarrow> Inl Blocked | p # ps \<Rightarrow> Inr (p, s\<lparr>bfree := ps\<rparr>))"

definition allocate_leaf :: "('k, 'v) benv \<Rightarrow> ('k, 'v) bstore \<Rightarrow> (PID \<times> ('k, 'v) BTreeLeaf \<times> ('k, 'v) bstore) result" where
  "allocate_leaf E s = bind_r (alloc_pid s) (\<lambda>(p, s).
     let (jk, ks, vs) = junkLeaf E p; l = new_BTreeLeaf jk ks vs in Inr (p, l, setPage p (LeafPage l) s))"

definition allocate_inner :: "('k, 'v) benv \<Rightarrow> ('k, 'v) bstore \<Rightarrow> (PID \<times> 'k BTreeInner \<times> ('k, 'v) bstore) result" where
  "allocate_inner E s = bind_r (alloc_pid s) (\<lambda>(p, s).
     let (jk, ks, cs) = junkInner E p; n = new_BTreeInner jk ks cs in Inr (p, n, setPage p (InnerPage n) s))"

definition reclaim :: "PID \<Rightarrow> ('k, 'v) bstore \<Rightarrow> ('k, 'v) bstore" where
  "reclaim p s = (let s' = s\<lparr>bpages := (bpages s)(p := None)\<rparr>
     in if getOwner p = bnode s then s'\<lparr>bfree := p # bfree s\<rparr> else s')"

section \<open>Construction and root growth\<close>

definition new_BTree :: "('k, 'v) benv \<Rightarrow> ('k, 'v) bstore \<Rightarrow> (PID \<times> ('k, 'v) bstore) result" where
  "new_BTree E s =
     bind_r (alloc_pid s) (\<lambda>(e, s).
     let s = setPage e (EntryPage EMPTY_PID 0) s in
     bind_r (allocate_leaf E s) (\<lambda>(r, l, s).
     Inr (e, setPage e (EntryPage r 0) s)))"

definition makeRoot :: "('k, 'v) benv \<Rightarrow> 'k \<Rightarrow> PID \<Rightarrow> PID \<Rightarrow> PID \<Rightarrow> ('k, 'v) bstore \<Rightarrow> ('k, 'v) bstore result" where
  "makeRoot E k left right e s =
     bind_r (allocate_inner E s) (\<lambda>(r, root, s).
     bind_r (array_set (ikeys root) 0 k) (\<lambda>ks.
     bind_r (array_set (ichildren root) 0 left) (\<lambda>cs.
     bind_r (array_set cs 1 right) (\<lambda>cs.
     let s = setPage r (InnerPage (root\<lparr>icount := 1, ikeys := ks, ichildren := cs\<rparr>)) s in
     bind_r (as_entry s e) (\<lambda>(_, h). Inr (setPage e (EntryPage r (h + 1)) s))))))"

text \<open>The separator of a split goes to the parent: a new root above the entry page's child, else the
  inner node \<open>par\<close>.\<close>

definition add_separator ::
  "('k::linorder, 'v) benv \<Rightarrow> PID \<Rightarrow> PID \<Rightarrow> 'k \<Rightarrow> PID \<Rightarrow> PID \<Rightarrow> ('k, 'v) bstore \<Rightarrow> ('k, 'v) bstore result" where
  "add_separator E e par sep cur new s =
     (if par = e then makeRoot E sep cur new e s
      else bind_r (as_inner s par) (\<lambda>n.
           bind_r (inner_insert (innerMax E) sep new n) (\<lambda>n'. Inr (setPage par (InnerPage n') s))))"

section \<open>Insertion\<close>

definition split_inner_page ::
  "('k::linorder, 'v) benv \<Rightarrow> PID \<Rightarrow> 'k BTreeInner \<Rightarrow> ('k, 'v) bstore \<Rightarrow> ('k \<times> PID \<times> ('k, 'v) bstore) result" where
  "split_inner_page E cur n s =
     bind_r (allocate_inner E s) (\<lambda>(q, nn, s).
     bind_r (inner_split n nn) (\<lambda>(sep, n1, n2).
     Inr (sep, q, setPage cur (InnerPage n1) (setPage q (InnerPage n2) s))))"

definition split_leaf_page ::
  "('k::linorder, 'v) benv \<Rightarrow> PID \<Rightarrow> ('k, 'v) BTreeLeaf \<Rightarrow> ('k, 'v) bstore \<Rightarrow> ('k \<times> PID \<times> ('k, 'v) bstore) result" where
  "split_leaf_page E cur l s =
     bind_r (allocate_leaf E s) (\<lambda>(q, nl, s).
     bind_r (leaf_split (leafMax E) l nl) (\<lambda>(sep, l1, l2).
     Inr (sep, q, setPage cur (LeafPage l1) (setPage q (LeafPage l2) s))))"

definition insert_leaf ::
  "('k::linorder, 'v) benv \<Rightarrow> retries \<Rightarrow> 'k \<Rightarrow> 'v \<Rightarrow> PID \<Rightarrow> PID \<Rightarrow> PID \<Rightarrow> ('k, 'v) bstore \<Rightarrow>
     (('k, 'v) bstore, unit) attempt result" where
  "insert_leaf E rt k v e par cur s =
     (if rt 0 1 then Inr (Restart s)
      else case bpages s cur of
        Some (LeafPage leaf) \<Rightarrow>
          if rt 0 2 then Inr (Restart s)
          else if leaf_isFull (leafMax E) leaf then
            if rt 0 3 then Inr (Restart s)
            else bind_r (split_leaf_page E cur leaf s) (\<lambda>(sep, new, s).
                 bind_r (add_separator E e par sep cur new s) (\<lambda>s. Inr (Restart s)))
          else bind_r (leaf_insert k v leaf) (\<lambda>leaf'. Inr (Done (setPage cur (LeafPage leaf') s) ()))
      | _ \<Rightarrow> Inl Ensure_failed)"

fun insert_walk ::
  "('k::linorder, 'v) benv \<Rightarrow> retries \<Rightarrow> 'k \<Rightarrow> 'v \<Rightarrow> PID \<Rightarrow> nat \<Rightarrow> nat \<Rightarrow> PID \<Rightarrow> PID \<Rightarrow> ('k, 'v) bstore \<Rightarrow>
     (('k, 'v) bstore, unit) attempt result" where
  "insert_walk E rt k v e lvl 0 par cur s = insert_leaf E rt k v e par cur s"
| "insert_walk E rt k v e lvl (Suc h) par cur s =
     (if rt (Suc lvl) 0 \<or> rt (Suc lvl) 1 then Inr (Restart s)
      else case bpages s cur of
        Some (InnerPage inner) \<Rightarrow>
          if inner_isFull (innerMax E) inner then
            if rt (Suc lvl) 2 \<or> rt (Suc lvl) 3 then Inr (Restart s)
            else bind_r (split_inner_page E cur inner s) (\<lambda>(sep, new, s).
                 bind_r (add_separator E e par sep cur new s) (\<lambda>s. Inr (Restart s)))
          else if rt (Suc lvl) 4 then Inr (Restart s)
          else bind_r (array_get (ichildren inner) (inner_lowerBoundBF inner k)) (\<lambda>c.
               if rt (Suc lvl) 5 then Inr (Restart s)
               else insert_walk E rt k v e (lvl + 1) h cur c s)
      | _ \<Rightarrow> Inl Ensure_failed)"

definition insert_attempt ::
  "('k::linorder, 'v) benv \<Rightarrow> retries \<Rightarrow> 'k \<Rightarrow> 'v \<Rightarrow> PID \<Rightarrow> ('k, 'v) bstore \<Rightarrow> (('k, 'v) bstore, unit) attempt result" where
  "insert_attempt E rt k v e s =
     (if rt 0 0 then Inr (Restart s)
      else bind_r (as_entry s e) (\<lambda>(root, height). insert_walk E rt k v e 0 height e root s))"

fun bt_insert ::
  "('k::linorder, 'v) benv \<Rightarrow> retries list \<Rightarrow> 'k \<Rightarrow> 'v \<Rightarrow> PID \<Rightarrow> ('k, 'v) bstore \<Rightarrow> ('k, 'v) bstore result option" where
  "bt_insert E [] k v e s = None"
| "bt_insert E (rt # rts) k v e s =
     (case insert_attempt E rt k v e s of
        Inl err \<Rightarrow> Some (Inl err)
      | Inr (Restart s') \<Rightarrow> bt_insert E rts k v e s'
      | Inr (Done s' _) \<Rightarrow> Some (Inr s'))"

section \<open>Descent by level, shared by the lookups\<close>

text \<open>\<open>None\<close> is a restart; otherwise the parent and the leaf page the loop ends at.\<close>

fun lookup_walk ::
  "retries \<Rightarrow> 'k::linorder \<Rightarrow> nat \<Rightarrow> nat \<Rightarrow> PID \<Rightarrow> PID \<Rightarrow> ('k, 'v) bstore \<Rightarrow> (PID \<times> PID) option result" where
  "lookup_walk rt k lvl 0 par cur s = Inr (Some (par, cur))"
| "lookup_walk rt k lvl (Suc h) par cur s =
     (if rt (Suc lvl) 0 \<or> rt (Suc lvl) 1 then Inr None
      else case bpages s cur of
        Some (InnerPage inner) \<Rightarrow>
          if rt (Suc lvl) 2 then Inr None
          else bind_r (array_get (ichildren inner) (inner_lowerBoundBF inner k)) (\<lambda>c.
               if rt (Suc lvl) 3 then Inr None else lookup_walk rt k (lvl + 1) h cur c s)
      | _ \<Rightarrow> Inl Ensure_failed)"

definition lookup_descend :: "retries \<Rightarrow> 'k::linorder \<Rightarrow> PID \<Rightarrow> ('k, 'v) bstore \<Rightarrow> (PID \<times> PID) option result" where
  "lookup_descend rt k e s =
     (if rt 0 0 then Inr None
      else bind_r (as_entry s e) (\<lambda>(root, height). lookup_walk rt k 0 height e root s))"

text \<open>\<open>lookup\<close> copies \<open>payloads[pos]\<close> before it looks whether \<open>pos\<close> is an entry.\<close>

definition lookup_attempt :: "retries \<Rightarrow> 'k::linorder \<Rightarrow> PID \<Rightarrow> ('k, 'v) bstore \<Rightarrow> (unit, 'v) attempt result" where
  "lookup_attempt rt k e s =
     bind_r (lookup_descend rt k e s) (\<lambda>r. case r of
       None \<Rightarrow> Inr (Restart ())
     | Some (par, cur) \<Rightarrow>
         if rt 0 1 then Inr (Restart ())
         else bind_r (as_leaf s cur) (\<lambda>leaf.
           if rt 0 2 then Inr (Restart ())
           else let pos = leaf_lowerBound leaf k
                in bind_r (array_get (lpayloads leaf) pos) (\<lambda>returnValue.
                   if pos < lcount leaf \<and> lkeys leaf ! pos = k then Inr (Done () returnValue)
                   else Inl Ensure_failed)))"

fun bt_lookup :: "retries list \<Rightarrow> 'k::linorder \<Rightarrow> PID \<Rightarrow> ('k, 'v) bstore \<Rightarrow> 'v result option" where
  "bt_lookup [] k e s = None"
| "bt_lookup (rt # rts) k e s =
     (case lookup_attempt rt k e s of
        Inl err \<Rightarrow> Some (Inl err)
      | Inr (Restart _) \<Rightarrow> bt_lookup rts k e s
      | Inr (Done _ v) \<Rightarrow> Some (Inr v))"

text \<open>\<open>lookupAndUpdate\<close>: the callback rewrites the payload in place.\<close>

definition lookupAndUpdate_attempt ::
  "retries \<Rightarrow> 'k::linorder \<Rightarrow> ('v \<Rightarrow> 'v) \<Rightarrow> PID \<Rightarrow> ('k, 'v) bstore \<Rightarrow> (unit, ('k, 'v) bstore) attempt result" where
  "lookupAndUpdate_attempt rt k callback e s =
     bind_r (lookup_descend rt k e s) (\<lambda>r. case r of
       None \<Rightarrow> Inr (Restart ())
     | Some (par, cur) \<Rightarrow>
         if rt 0 1 then Inr (Restart ())
         else case bpages s cur of
           Some (LeafPage leaf) \<Rightarrow>
             if rt 0 2 then Inr (Restart ())
             else let pos = leaf_lowerBound leaf k
                  in if pos < lcount leaf \<and> lkeys leaf ! pos = k then
                       bind_r (array_get (lpayloads leaf) pos) (\<lambda>v.
                       bind_r (array_set (lpayloads leaf) pos (callback v)) (\<lambda>vs.
                       Inr (Done () (setPage cur (LeafPage (leaf\<lparr>lpayloads := vs\<rparr>)) s))))
                     else Inl Ensure_failed
         | _ \<Rightarrow> Inl Ensure_failed)"

fun bt_lookupAndUpdate ::
  "retries list \<Rightarrow> 'k::linorder \<Rightarrow> ('v \<Rightarrow> 'v) \<Rightarrow> PID \<Rightarrow> ('k, 'v) bstore \<Rightarrow> ('k, 'v) bstore result option" where
  "bt_lookupAndUpdate [] k f e s = None"
| "bt_lookupAndUpdate (rt # rts) k f e s =
     (case lookupAndUpdate_attempt rt k f e s of
        Inl err \<Rightarrow> Some (Inl err)
      | Inr (Restart _) \<Rightarrow> bt_lookupAndUpdate rts k f e s
      | Inr (Done _ s') \<Rightarrow> Some (Inr s'))"

text \<open>
  \<open>lookup_opt\<close> takes no latch on the leaf and validates it afterwards.  When only the leaf changed, the
  code goes back to \<open>restartLeaf\<close>; round \<open>j\<close> of that loop uses the checks \<open>rt 0 (4 * j + i)\<close>, and \<open>None\<close>
  is the loop running out of its \<open>lf\<close> rounds.  The visitor is called before the validation, so a call
  may see a value that is read again later: the model keeps the log of the values it was given.
\<close>

fun lookup_opt_leaf ::
  "retries \<Rightarrow> 'k::linorder \<Rightarrow> nat \<Rightarrow> PID \<Rightarrow> ('k, 'v) bstore \<Rightarrow> 'v list \<Rightarrow> ('v list, 'v list) attempt result option" where
  "lookup_opt_leaf rt k 0 cur s seen = None"
| "lookup_opt_leaf rt k (Suc lf) cur s seen =
     (case as_leaf s cur of
        Inl err \<Rightarrow> Some (Inl err)
      | Inr leaf \<Rightarrow>
          if rt 0 (4 * lf + 1) then Some (Inr (Restart seen))
          else if rt 0 (4 * lf + 2) then lookup_opt_leaf rt k lf cur s seen
          else let pos = leaf_lowerBound leaf k
               in if pos < lcount leaf \<and> lkeys leaf ! pos = k then
                    (case array_get (lpayloads leaf) pos of
                       Inl err \<Rightarrow> Some (Inl err)
                     | Inr v \<Rightarrow>
                         if rt 0 (4 * lf + 3) then Some (Inr (Restart (seen @ [v])))
                         else if rt 0 (4 * lf + 4) then lookup_opt_leaf rt k lf cur s (seen @ [v])
                         else Some (Inr (Done seen (seen @ [v]))))
                  else if rt 0 (4 * lf + 3) then Some (Inr (Restart seen))
                  else if rt 0 (4 * lf + 4) then lookup_opt_leaf rt k lf cur s seen
                  else Some (Inl Ensure_failed))"

fun bt_lookup_opt ::
  "retries list \<Rightarrow> nat \<Rightarrow> 'k::linorder \<Rightarrow> PID \<Rightarrow> ('k, 'v) bstore \<Rightarrow> 'v list \<Rightarrow> 'v list result option" where
  "bt_lookup_opt [] lf k e s seen = None"
| "bt_lookup_opt (rt # rts) lf k e s seen =
     (case lookup_descend rt k e s of
        Inl err \<Rightarrow> Some (Inl err)
      | Inr None \<Rightarrow> bt_lookup_opt rts lf k e s seen
      | Inr (Some (par, cur)) \<Rightarrow>
          (case lookup_opt_leaf rt k lf cur s seen of
             None \<Rightarrow> None
           | Some (Inl err) \<Rightarrow> Some (Inl err)
           | Some (Inr (Restart seen')) \<Rightarrow> bt_lookup_opt rts lf k e s seen'
           | Some (Inr (Done _ vs)) \<Rightarrow> Some (Inr vs)))"

text \<open>The overload that copies the value out: like \<open>lookup\<close> it reads \<open>payloads[pos]\<close> before it looks at
  \<open>pos\<close>, but it holds no latch and so validates before it returns or fails.\<close>

fun lookup_optValue_leaf ::
  "retries \<Rightarrow> 'k::linorder \<Rightarrow> nat \<Rightarrow> PID \<Rightarrow> ('k, 'v) bstore \<Rightarrow> (unit, 'v) attempt result option" where
  "lookup_optValue_leaf rt k 0 cur s = None"
| "lookup_optValue_leaf rt k (Suc lf) cur s =
     (case as_leaf s cur of
        Inl err \<Rightarrow> Some (Inl err)
      | Inr leaf \<Rightarrow>
          if rt 0 (4 * lf + 1) then Some (Inr (Restart ()))
          else if rt 0 (4 * lf + 2) then lookup_optValue_leaf rt k lf cur s
          else let pos = leaf_lowerBound leaf k
               in case array_get (lpayloads leaf) pos of
                    Inl err \<Rightarrow> Some (Inl err)
                  | Inr returnValue \<Rightarrow>
                      if rt 0 (4 * lf + 3) then Some (Inr (Restart ()))
                      else if rt 0 (4 * lf + 4) then lookup_optValue_leaf rt k lf cur s
                      else if pos < lcount leaf \<and> lkeys leaf ! pos = k then Some (Inr (Done () returnValue))
                      else Some (Inl Ensure_failed))"

fun bt_lookup_optValue ::
  "retries list \<Rightarrow> nat \<Rightarrow> 'k::linorder \<Rightarrow> PID \<Rightarrow> ('k, 'v) bstore \<Rightarrow> 'v result option" where
  "bt_lookup_optValue [] lf k e s = None"
| "bt_lookup_optValue (rt # rts) lf k e s =
     (case lookup_descend rt k e s of
        Inl err \<Rightarrow> Some (Inl err)
      | Inr None \<Rightarrow> bt_lookup_optValue rts lf k e s
      | Inr (Some (par, cur)) \<Rightarrow>
          (case lookup_optValue_leaf rt k lf cur s of
             None \<Rightarrow> None
           | Some (Inl err) \<Rightarrow> Some (Inl err)
           | Some (Inr (Restart _)) \<Rightarrow> bt_lookup_optValue rts lf k e s
           | Some (Inr (Done _ v)) \<Rightarrow> Some (Inr v)))"

section \<open>Removal\<close>

text \<open>The descent of \<open>remove\<close> and \<open>scan_\<close> follows the node types instead of the height; \<open>f\<close> bounds its
  iterations, \<open>nxt\<close> chooses the child.\<close>

fun type_walk ::
  "retries \<Rightarrow> ('k BTreeInner \<Rightarrow> nat) \<Rightarrow> nat \<Rightarrow> nat \<Rightarrow> PID \<Rightarrow> PID \<Rightarrow> ('k, 'v) bstore \<Rightarrow> (PID \<times> PID) option result option" where
  "type_walk rt nxt 0 lvl par cur s = None"
| "type_walk rt nxt (Suc f) lvl par cur s =
     (case bpages s cur of
        Some (InnerPage inner) \<Rightarrow>
          if rt (Suc lvl) 0 then Some (Inr None)
          else (case array_get (ichildren inner) (nxt inner) of
                  Inl err \<Rightarrow> Some (Inl err)
                | Inr c \<Rightarrow> if rt (Suc lvl) 1 \<or> rt (Suc lvl) 2 then Some (Inr None)
                           else type_walk rt nxt f (lvl + 1) cur c s)
      | Some (LeafPage _) \<Rightarrow> Some (Inr (Some (par, cur)))
      | _ \<Rightarrow> Some (Inl Bad_page))"

definition merge_leaf :: "('k, 'v) BTreeLeaf \<Rightarrow> ('k, 'v) BTreeLeaf \<Rightarrow> ('k, 'v) BTreeLeaf result" where
  "merge_leaf leaf right =
     (let leaf = leaf_setFences (getLower (lfences leaf)) (getUpper (lfences right)) leaf
      in bind_r (memcpy (lkeys leaf) (lcount leaf) (lkeys right) 0 (lcount right)) (\<lambda>ks.
         bind_r (memcpy (lpayloads leaf) (lcount leaf) (lpayloads right) 0 (lcount right)) (\<lambda>vs.
         Inr (leaf\<lparr>lkeys := ks, lpayloads := vs, lcount := lcount leaf + lcount right\<rparr>))))"

definition remove_at :: "'k::linorder \<Rightarrow> PID \<Rightarrow> ('k, 'v) BTreeLeaf \<Rightarrow> ('k, 'v) bstore \<Rightarrow> (('k, 'v) bstore, bool) attempt result" where
  "remove_at k cur leaf s = bind_r (leaf_remove k leaf) (\<lambda>(removed, leaf'). Inr (Done (setPage cur (LeafPage leaf') s) removed))"

definition remove_leaf ::
  "('k::linorder, 'v) benv \<Rightarrow> retries \<Rightarrow> 'k \<Rightarrow> PID \<Rightarrow> PID \<Rightarrow> PID \<Rightarrow> ('k, 'v) bstore \<Rightarrow> (('k, 'v) bstore, bool) attempt result" where
  "remove_leaf E rt k e par cur s =
     bind_r (as_leaf s cur) (\<lambda>leaf.
     if leaf_isUnderflow (leafMax E) leaf \<and> par \<noteq> e then
       if rt 0 3 \<or> rt 0 4 then Inr (Restart s)
       else bind_r (as_inner s par) (\<lambda>inner.
         let pos = inner_lowerBound inner k
         in if 2 \<le> icount inner \<and> pos + 1 < icount inner then
              bind_r (array_get (ichildren inner) (pos + 1)) (\<lambda>pid_right.
              if rt 0 5 then Inr (Restart s)
              else bind_r (as_leaf s pid_right) (\<lambda>right.
                if lcount leaf + lcount right \<ge> leafMax E then remove_at k cur leaf s
                else bind_r (merge_leaf leaf right) (\<lambda>leaf'.
                     bind_r (inner_remove pos inner) (\<lambda>(_, inner').
                     remove_at k cur leaf' (reclaim pid_right (setPage par (InnerPage inner') (setPage cur (LeafPage leaf') s)))))))
            else remove_at k cur leaf s)
     else if rt 0 6 \<or> rt 0 7 then Inr (Restart s)
     else remove_at k cur leaf s)"

definition remove_attempt ::
  "('k::linorder, 'v) benv \<Rightarrow> retries \<Rightarrow> nat \<Rightarrow> 'k \<Rightarrow> PID \<Rightarrow> ('k, 'v) bstore \<Rightarrow> (('k, 'v) bstore, bool) attempt result option" where
  "remove_attempt E rt f k e s =
     (if rt 0 0 then Some (Inr (Restart s))
      else case as_entry s e of
        Inl err \<Rightarrow> Some (Inl err)
      | Inr (root, height) \<Rightarrow>
          if rt 0 1 \<or> rt 0 2 then Some (Inr (Restart s))
          else (case type_walk rt (\<lambda>inner. inner_lowerBound inner k) f 0 e root s of
                  None \<Rightarrow> None
                | Some (Inl err) \<Rightarrow> Some (Inl err)
                | Some (Inr None) \<Rightarrow> Some (Inr (Restart s))
                | Some (Inr (Some (par, cur))) \<Rightarrow> Some (remove_leaf E rt k e par cur s)))"

fun bt_remove ::
  "('k::linorder, 'v) benv \<Rightarrow> retries list \<Rightarrow> nat \<Rightarrow> 'k \<Rightarrow> PID \<Rightarrow> ('k, 'v) bstore \<Rightarrow> (bool \<times> ('k, 'v) bstore) result option" where
  "bt_remove E [] f k e s = None"
| "bt_remove E (rt # rts) f k e s =
     (case remove_attempt E rt f k e s of
        None \<Rightarrow> None
      | Some (Inl err) \<Rightarrow> Some (Inl err)
      | Some (Inr (Restart s')) \<Rightarrow> bt_remove E rts f k e s'
      | Some (Inr (Done s' b)) \<Rightarrow> Some (Inr (b, s')))"

section \<open>Scans\<close>

datatype RC = FINISHED | CONTINUE

datatype scan_dir = ASC_SCAN | DESC_SCAN

record 'k op_result =
  return_code :: RC
  next_sep :: 'k

text \<open>The visitor is \<open>func\<close>: it updates its own state and returns whether to go on.\<close>

type_synonym ('k, 'v, 'a) visitor = "'k \<Rightarrow> 'v \<Rightarrow> 'a \<Rightarrow> bool \<times> 'a"

definition visit :: "('k, 'v, 'a) visitor \<Rightarrow> ('k, 'v) BTreeLeaf \<Rightarrow> nat \<Rightarrow> 'a \<Rightarrow> (bool \<times> 'a) result" where
  "visit func leaf i a =
     bind_r (array_get (lkeys leaf) i) (\<lambda>k. bind_r (array_get (lpayloads leaf) i) (\<lambda>v. Inr (func k v a)))"

function asc_loop :: "('k, 'v, 'a) visitor \<Rightarrow> ('k, 'v) BTreeLeaf \<Rightarrow> nat \<Rightarrow> 'a \<Rightarrow> (bool \<times> 'a) result" where
  "asc_loop func leaf i a =
     (if i < lcount leaf then
        bind_r (visit func leaf i a) (\<lambda>(go, a). if go then asc_loop func leaf (i + 1) a else Inr (False, a))
      else Inr (True, a))"
  by pat_completeness auto
termination
  by (relation "measure (\<lambda>(func, leaf, i, a). lcount leaf - i)") auto

declare asc_loop.simps [simp del]

fun desc_loop :: "('k, 'v, 'a) visitor \<Rightarrow> ('k, 'v) BTreeLeaf \<Rightarrow> nat \<Rightarrow> 'a \<Rightarrow> (bool \<times> 'a) result" where
  "desc_loop func leaf 0 a = visit func leaf 0 a"
| "desc_loop func leaf (Suc i) a =
     bind_r (visit func leaf (Suc i) a) (\<lambda>(go, a). if go then desc_loop func leaf i a else Inr (False, a))"

definition fence_result :: "'k FenceKey \<Rightarrow> 'k op_result" where
  "fence_result f = \<lparr>return_code = (if isInfinity f then FINISHED else CONTINUE), next_sep = fkey f\<rparr>"

definition finished :: "'k FenceKey \<Rightarrow> 'k op_result" where
  "finished f = \<lparr>return_code = FINISHED, next_sep = fkey f\<rparr>"

definition asc_scan :: "'k::linorder \<Rightarrow> ('k, 'v) BTreeLeaf \<Rightarrow> ('k, 'v, 'a) visitor \<Rightarrow> 'a \<Rightarrow> ('k op_result \<times> 'a) result" where
  "asc_scan k leaf func a =
     (if lcount leaf = 0 then Inr (fence_result (getUpper (lfences leaf)), a)
      else bind_r (asc_loop func leaf (leaf_lowerBound leaf k) a) (\<lambda>(go, a).
           Inr ((if go then fence_result else finished) (getUpper (lfences leaf)), a)))"

definition desc_scan :: "'k::linorder \<Rightarrow> ('k, 'v) BTreeLeaf \<Rightarrow> ('k, 'v, 'a) visitor \<Rightarrow> 'a \<Rightarrow> ('k op_result \<times> 'a) result" where
  "desc_scan k leaf func a =
     (if lcount leaf = 0 then Inr (fence_result (getLower (lfences leaf)), a)
      else
        let lower_bound = leaf_lowerBound leaf k;
            it = (if lower_bound \<ge> lcount leaf then lcount leaf - 1 else lower_bound)
        in if lkeys leaf ! it > k \<and> it = 0 then Inr (fence_result (getLower (lfences leaf)), a)
           else let it = (if lkeys leaf ! it > k then it - 1 else it)
                in bind_r (desc_loop func leaf it a) (\<lambda>(go, a).
                   Inr ((if go then fence_result else finished) (getLower (lfences leaf)), a)))"

definition next_node :: "scan_dir \<Rightarrow> bool \<Rightarrow> 'k::linorder \<Rightarrow> 'k BTreeInner \<Rightarrow> nat" where
  "next_node dir isFirstTraversal k inner =
     (case dir of
        DESC_SCAN \<Rightarrow> inner_lowerBound inner k
      | ASC_SCAN \<Rightarrow> if isFirstTraversal then inner_lowerBound inner k else inner_upperBound inner k)"

definition scan_attempt ::
  "scan_dir \<Rightarrow> retries \<Rightarrow> nat \<Rightarrow> bool \<Rightarrow> 'k::linorder \<Rightarrow> ('k, 'v, 'a) visitor \<Rightarrow> PID \<Rightarrow> ('k, 'v) bstore \<Rightarrow> 'a \<Rightarrow>
     (unit, 'k op_result \<times> 'a) attempt result option" where
  "scan_attempt dir rt f first k func e s a =
     (if rt 0 0 then Some (Inr (Restart ()))
      else case as_entry s e of
        Inl err \<Rightarrow> Some (Inl err)
      | Inr (root, height) \<Rightarrow>
          if rt 0 1 \<or> rt 0 2 then Some (Inr (Restart ()))
          else (case type_walk rt (next_node dir first k) f 0 e root s of
                  None \<Rightarrow> None
                | Some (Inl err) \<Rightarrow> Some (Inl err)
                | Some (Inr None) \<Rightarrow> Some (Inr (Restart ()))
                | Some (Inr (Some (par, cur))) \<Rightarrow>
                    if rt 0 3 \<or> rt 0 4 then Some (Inr (Restart ()))
                    else Some (bind_r (as_leaf s cur) (\<lambda>leaf.
                      bind_r ((case dir of ASC_SCAN \<Rightarrow> asc_scan | DESC_SCAN \<Rightarrow> desc_scan) k leaf func a) (\<lambda>r. Inr (Done () r))))))"

fun scan_loop ::
  "scan_dir \<Rightarrow> retries list \<Rightarrow> nat \<Rightarrow> bool \<Rightarrow> 'k::linorder \<Rightarrow> ('k, 'v, 'a) visitor \<Rightarrow> PID \<Rightarrow> ('k, 'v) bstore \<Rightarrow> 'a \<Rightarrow> 'a result option" where
  "scan_loop dir [] f first k func e s a = None"
| "scan_loop dir (rt # rts) f first k func e s a =
     (case scan_attempt dir rt f first k func e s a of
        None \<Rightarrow> None
      | Some (Inl err) \<Rightarrow> Some (Inl err)
      | Some (Inr (Restart _)) \<Rightarrow> scan_loop dir rts f first k func e s a
      | Some (Inr (Done _ (res, a))) \<Rightarrow>
          if return_code res = CONTINUE then scan_loop dir rts f False (next_sep res) func e s a
          else Some (Inr a))"

definition bt_scan ::
  "scan_dir \<Rightarrow> retries list \<Rightarrow> nat \<Rightarrow> 'k::linorder \<Rightarrow> ('k, 'v, 'a) visitor \<Rightarrow> PID \<Rightarrow> ('k, 'v) bstore \<Rightarrow> 'a \<Rightarrow> 'a result option" where
  "bt_scan dir rts f k func e s a = scan_loop dir rts f True k func e s a"

end
