(* ===== verification/BTree_Inv.thy ===== *)
theory BTree_Inv
  imports BTree_Store
begin

text \<open>
  The well-formedness invariant of the B+-tree and the facts its operations rely on: subtrees as
  recursion over the height, key ranges (lower bound exclusive, upper bound inclusive, as the fence
  keys have them), the in-order contents, the pages a subtree occupies, and what a local change of
  the store does to the tree around it.
\<close>

section \<open>Key ranges and forests\<close>

definition gt_lo :: "'k::linorder option \<Rightarrow> 'k \<Rightarrow> bool" where
  "gt_lo lo k \<longleftrightarrow> (case lo of None \<Rightarrow> True | Some a \<Rightarrow> a < k)"

definition le_hi :: "'k::linorder option \<Rightarrow> 'k \<Rightarrow> bool" where
  "le_hi hi k \<longleftrightarrow> (case hi of None \<Rightarrow> True | Some b \<Rightarrow> k \<le> b)"

definition lt_hi :: "'k::linorder option \<Rightarrow> 'k \<Rightarrow> bool" where
  "lt_hi hi k \<longleftrightarrow> (case hi of None \<Rightarrow> True | Some b \<Rightarrow> k < b)"

lemma range_simps [simp]:
  "gt_lo None k" "gt_lo (Some a) k \<longleftrightarrow> a < k" "le_hi None k" "le_hi (Some b) k \<longleftrightarrow> k \<le> b"
  "lt_hi None k" "lt_hi (Some b) k \<longleftrightarrow> k < b"
  by (simp_all add: gt_lo_def le_hi_def lt_hi_def)

lemma gt_lo_trans: "gt_lo lo a \<Longrightarrow> a \<le> k \<Longrightarrow> gt_lo lo k"
  by (cases lo) auto

lemma lt_hi_trans: "lt_hi hi b \<Longrightarrow> k \<le> b \<Longrightarrow> lt_hi hi k"
  by (cases hi) auto

lemma le_hi_trans: "le_hi hi b \<Longrightarrow> k \<le> b \<Longrightarrow> le_hi hi k"
  by (cases hi) auto

lemma lt_le_hi: "lt_hi hi k \<Longrightarrow> le_hi hi k"
  by (cases hi) auto

lemma le_less_lt_hi: "le_hi hi b \<Longrightarrow> k < b \<Longrightarrow> lt_hi hi k"
  by (cases hi) auto

definition fence_is :: "'k FenceKey \<Rightarrow> 'k option \<Rightarrow> bool" where
  "fence_is f b \<longleftrightarrow> (case b of None \<Rightarrow> isInfinity f | Some a \<Rightarrow> \<not> isInfinity f \<and> fkey f = a)"

lemma fence_is_simps [simp]:
  "fence_is (fence_at k) (Some k)" "fence_is (fence_inf k) None"
  by (simp_all add: fence_is_def fence_at_def fence_inf_def)

text \<open>The children \<open>cs\<close> of an inner node between its separators \<open>ks\<close>.\<close>

fun forest_ok :: "('k::linorder option \<Rightarrow> 'k option \<Rightarrow> 'c \<Rightarrow> bool) \<Rightarrow> 'k option \<Rightarrow> 'k list \<Rightarrow> 'c list \<Rightarrow> 'k option \<Rightarrow> bool" where
  "forest_ok P lo [] [c] hi \<longleftrightarrow> P lo hi c"
| "forest_ok P lo (k # ks) (c # cs) hi \<longleftrightarrow>
     gt_lo lo k \<and> lt_hi hi k \<and> P lo (Some k) c \<and> forest_ok P (Some k) ks cs hi"
| "forest_ok P lo _ _ hi \<longleftrightarrow> False"

definition clo :: "'k option \<Rightarrow> 'k list \<Rightarrow> nat \<Rightarrow> 'k option" where
  "clo lo ks i = (if i = 0 then lo else Some (ks ! (i - 1)))"

definition chi :: "'k option \<Rightarrow> 'k list \<Rightarrow> nat \<Rightarrow> 'k option" where
  "chi hi ks i = (if i < length ks then Some (ks ! i) else hi)"

lemma clo_Cons [simp]: "clo lo (k # ks) (Suc i) = clo (Some k) ks i"
  by (cases i) (simp_all add: clo_def)

lemma chi_Cons [simp]: "chi hi (k # ks) (Suc i) = chi hi ks i" "chi hi (k # ks) 0 = Some k"
  by (simp_all add: chi_def)

lemma clo_0 [simp]: "clo lo ks 0 = lo"
  by (simp add: clo_def)

lemma chi_Nil [simp]: "chi hi [] i = hi"
  by (simp add: chi_def)

lemma forest_length: "forest_ok P lo ks cs hi \<Longrightarrow> length cs = length ks + 1"
  by (induction P lo ks cs hi rule: forest_ok.induct) auto

lemma forest_keys:
  "forest_ok P lo ks cs hi \<Longrightarrow> sorted_wrt (<) ks \<and> (\<forall>k\<in>set ks. gt_lo lo k \<and> lt_hi hi k)"
proof (induction P lo ks cs hi rule: forest_ok.induct)
  case (2 P lo k ks c cs hi)
  then have "\<forall>x\<in>set ks. k < x \<and> lt_hi hi x" "gt_lo lo k" by auto
  then have "\<forall>x\<in>set ks. gt_lo lo x" using gt_lo_trans less_imp_le by blast
  with 2 show ?case by auto
qed auto

lemma forest_nth:
  "forest_ok P lo ks cs hi \<Longrightarrow> i \<le> length ks \<Longrightarrow> P (clo lo ks i) (chi hi ks i) (cs ! i)"
proof (induction P lo ks cs hi arbitrary: i rule: forest_ok.induct)
  case (2 P lo k ks c cs hi)
  then show ?case by (cases i) auto
qed auto

lemma forestI:
  assumes "length cs = length ks + 1" and "sorted_wrt (<) ks" and "\<forall>k\<in>set ks. gt_lo lo k \<and> lt_hi hi k"
    and "\<And>i. i \<le> length ks \<Longrightarrow> P (clo lo ks i) (chi hi ks i) (cs ! i)"
  shows "forest_ok P lo ks cs hi"
  using assms
proof (induction ks arbitrary: cs lo)
  case Nil
  then show ?case by (auto simp: length_Suc_conv)
next
  case (Cons k ks)
  then obtain c cs' where cs: "cs = c # cs'" by (cases cs) auto
  have "forest_ok P (Some k) ks cs' hi"
  proof (rule Cons.IH)
    show "P (clo (Some k) ks i) (chi hi ks i) (cs' ! i)" if "i \<le> length ks" for i
      using Cons.prems(4) [of "Suc i"] that cs by simp
  qed (use Cons.prems cs in auto)
  with Cons.prems Cons.prems(4) [of 0] cs show ?case by simp
qed

lemma forest_mono:
  "forest_ok P lo ks cs hi \<Longrightarrow> (\<And>lo hi c. c \<in> set cs \<Longrightarrow> P lo hi c \<Longrightarrow> Q lo hi c) \<Longrightarrow> forest_ok Q lo ks cs hi"
  by (induction P lo ks cs hi rule: forest_ok.induct) auto

lemma forest_split:
  assumes "length cs1 = length ks1 + 1"
  shows "forest_ok P lo (ks1 @ k # ks2) (cs1 @ cs2) hi \<longleftrightarrow>
     forest_ok P lo ks1 cs1 (Some k) \<and> forest_ok P (Some k) ks2 cs2 hi \<and> gt_lo lo k \<and> lt_hi hi k"
  using assms
proof (induction ks1 arbitrary: cs1 lo)
  case Nil
  then obtain c where "cs1 = [c]" by (auto simp: length_Suc_conv)
  then show ?case by auto
next
  case (Cons a ks1)
  then obtain c cs' where cs: "cs1 = c # cs'" "length cs' = length ks1 + 1" by (cases cs1) auto
  then show ?case using Cons.IH [of cs' "Some a"]
    by (auto dest: lt_hi_trans [OF _ less_imp_le] gt_lo_trans [OF _ less_imp_le])
qed

lemma forest_insert:
  assumes "forest_ok P lo ks cs hi" and "i \<le> length ks"
    and "Q (clo lo ks i) (Some sep) c" and "Q (Some sep) (chi hi ks i) q"
    and "gt_lo (clo lo ks i) sep" and "lt_hi (chi hi ks i) sep"
    and "\<And>lo hi b. b \<in> set (take i cs) \<union> set (drop (Suc i) cs) \<Longrightarrow> P lo hi b \<Longrightarrow> Q lo hi b"
  shows "forest_ok Q lo (take i ks @ sep # drop i ks) (take i cs @ c # q # drop (Suc i) cs) hi"
  using assms
proof (induction P lo ks cs hi arbitrary: i rule: forest_ok.induct)
  case (2 P lo k ks b cs hi)
  show ?case
  proof (cases i)
    case 0
    have "forest_ok Q (Some k) ks cs hi"
      by (rule forest_mono [of P]) (use "2.prems" 0 in auto)
    moreover have "lt_hi hi sep" using "2.prems"(1,6) 0 lt_hi_trans [of hi k sep] by simp
    ultimately show ?thesis using "2.prems" 0 by simp
  next
    case (Suc j)
    have "forest_ok Q (Some k) (take j ks @ sep # drop j ks) (take j cs @ c # q # drop (Suc j) cs) hi"
      by (rule "2.IH") (use "2.prems" Suc in auto)
    moreover have "Q lo (Some k) b" using "2.prems" Suc by auto
    ultimately show ?thesis using "2.prems"(1) Suc by simp
  qed
qed auto

section \<open>Subtrees\<close>

type_synonym ('k, 'v) pages = "PID \<Rightarrow> ('k, 'v) page option"

definition kids :: "('k, 'v) pages \<Rightarrow> PID \<Rightarrow> PID list" where
  "kids m p = (case m p of Some (InnerPage n) \<Rightarrow> inner_children n | _ \<Rightarrow> [])"

fun kvs :: "('k, 'v) pages \<Rightarrow> nat \<Rightarrow> PID \<Rightarrow> ('k \<times> 'v) list" where
  "kvs m 0 p = (case m p of Some (LeafPage l) \<Rightarrow> leaf_kvs l | _ \<Rightarrow> [])"
| "kvs m (Suc h) p = concat (map (kvs m h) (kids m p))"

fun pids :: "('k, 'v) pages \<Rightarrow> nat \<Rightarrow> PID \<Rightarrow> PID list" where
  "pids m 0 p = [p]"
| "pids m (Suc h) p = p # concat (map (pids m h) (kids m p))"

fun tree_ok :: "nat \<Rightarrow> nat \<Rightarrow> ('k::linorder, 'v) pages \<Rightarrow> nat \<Rightarrow> 'k option \<Rightarrow> 'k option \<Rightarrow> PID \<Rightarrow> bool" where
  "tree_ok lm im m 0 lo hi p \<longleftrightarrow> (case m p of
     Some (LeafPage l) \<Rightarrow> leaf_ok lm l \<and> (\<forall>k\<in>set (leaf_keys l). gt_lo lo k \<and> le_hi hi k)
        \<and> fence_is (lowerF (lfences l)) lo \<and> fence_is (upperF (lfences l)) hi
   | _ \<Rightarrow> False)"
| "tree_ok lm im m (Suc h) lo hi p \<longleftrightarrow> (case m p of
     Some (InnerPage n) \<Rightarrow> inner_ok im n \<and> forest_ok (\<lambda>lo hi c. tree_ok lm im m h lo hi c) lo (inner_keys n) (inner_children n) hi
   | _ \<Rightarrow> False)"

lemma tree_ok_0E:
  assumes "tree_ok lm im m 0 lo hi p"
  obtains l where "m p = Some (LeafPage l)" "leaf_ok lm l" "\<forall>k\<in>set (leaf_keys l). gt_lo lo k \<and> le_hi hi k"
    "fence_is (lowerF (lfences l)) lo" "fence_is (upperF (lfences l)) hi"
  using assms by (auto split: option.splits page.splits)

lemma tree_ok_SucE:
  assumes "tree_ok lm im m (Suc h) lo hi p"
  obtains n where "m p = Some (InnerPage n)" "inner_ok im n"
    "forest_ok (tree_ok lm im m h) lo (inner_keys n) (inner_children n) hi"
  using assms by (auto split: option.splits page.splits)

lemma root_in_pids [simp]: "p \<in> set (pids m h p)"
  by (cases h) auto

lemma pids_kid: "c \<in> set (kids m p) \<Longrightarrow> set (pids m h c) \<subseteq> set (pids m (Suc h) p)"
  by auto

lemma forest_cong:
  "(\<And>lo hi c. c \<in> set cs \<Longrightarrow> P lo hi c = Q lo hi c) \<Longrightarrow> forest_ok P lo ks cs hi = forest_ok Q lo ks cs hi"
  by (metis forest_mono)

lemma frame_subtree:
  assumes "\<forall>q\<in>set (pids m h p). m' q = m q"
  shows "pids m' h p = pids m h p" and "kvs m' h p = kvs m h p"
    and "tree_ok lm im m' h lo hi p = tree_ok lm im m h lo hi p"
  using assms
proof (induction h arbitrary: p lo hi)
  case 0
  { case 1 show ?case by simp next case 2 then show ?case by simp next case 3 then show ?case by simp }
next
  case (Suc h)
  have step: "m' p = m p" "kids m' p = kids m p" "\<forall>c\<in>set (kids m p). \<forall>q\<in>set (pids m h c). m' q = m q"
    if "\<forall>q\<in>set (pids m (Suc h) p). m' q = m q" for p
    using that by (auto simp: kids_def)
  { case 1
    note st = step [OF 1]
    have "map (pids m' h) (kids m p) = map (pids m h) (kids m p)"
      using st(3) Suc.IH(1) by (intro map_cong refl) blast
    then show ?case using st(2) by (metis pids.simps(2)) }
  { case 2
    note st = step [OF 2]
    have "map (kvs m' h) (kids m p) = map (kvs m h) (kids m p)"
      using st(3) Suc.IH(2) by (intro map_cong refl) blast
    then show ?case using st(2) by (metis kvs.simps(2)) }
  { case 3
    note st = step [OF 3]
    have eq: "tree_ok lm im m' h lo' hi' c = tree_ok lm im m h lo' hi' c" if "c \<in> set (kids m p)" for lo' hi' c
      using st(3) that Suc.IH(3) by blast
    have "forest_ok (\<lambda>lo hi c. tree_ok lm im m' h lo hi c) lo (inner_keys n) (inner_children n) hi
        = forest_ok (\<lambda>lo hi c. tree_ok lm im m h lo hi c) lo (inner_keys n) (inner_children n) hi"
      if "m p = Some (InnerPage n)" for n
      using that eq by (intro forest_cong) (simp add: kids_def)
    then show ?case using st(1) by (auto split: option.splits page.splits) }
qed


section \<open>Contents of a subtree\<close>

lemma forest_contents:
  assumes "forest_ok P lo ks cs hi"
    and "\<And>lo hi c. c \<in> set cs \<Longrightarrow> P lo hi c \<Longrightarrow> sorted_wrt (<) (map fst (f c)) \<and> (\<forall>x\<in>fst ` set (f c). gt_lo lo x \<and> le_hi hi x)"
  shows "sorted_wrt (<) (map fst (concat (map f cs))) \<and> (\<forall>x\<in>fst ` set (concat (map f cs)). gt_lo lo x \<and> le_hi hi x)"
  using assms
proof (induction P lo ks cs hi rule: forest_ok.induct)
  case (2 P lo k ks c cs hi)
  let ?rest = "concat (map f cs)"
  have c: "sorted_wrt (<) (map fst (f c))" "\<forall>x\<in>fst ` set (f c). gt_lo lo x \<and> x \<le> k"
    using "2.prems"(2) [of c lo "Some k"] "2.prems"(1) by auto
  have r: "sorted_wrt (<) (map fst ?rest)" "\<forall>x\<in>fst ` set ?rest. k < x \<and> le_hi hi x"
  proof -
    have "forest_ok P (Some k) ks cs hi" using "2.prems"(1) by simp
    from "2.IH" [OF this "2.prems"(2)]
    show "sorted_wrt (<) (map fst ?rest)" "\<forall>x\<in>fst ` set ?rest. k < x \<and> le_hi hi x" by auto
  qed
  have "gt_lo lo k" "lt_hi hi k" using "2.prems"(1) by simp_all
  then have "le_hi hi x" if "x \<in> fst ` set (f c)" for x
    using c(2) that le_hi_trans [OF lt_le_hi, of hi k x] by blast
  moreover have "gt_lo lo x" if "x \<in> fst ` set ?rest" for x
    using r(2) that gt_lo_trans [OF \<open>gt_lo lo k\<close>, of x] less_imp_le by blast
  moreover have "sorted_wrt (<) (map fst (f c) @ map fst ?rest)"
    unfolding sorted_wrt_append using c r by (metis le_less_trans list.set_map)
  ultimately show ?case
    using c(2) r(2) unfolding list.simps(9) concat.simps(2) map_append set_append image_Un by blast
qed auto

lemma kvs_sorted_bounds:
  assumes "tree_ok lm im m h lo hi p"
  shows "sorted_wrt (<) (map fst (kvs m h p)) \<and> (\<forall>x\<in>fst ` set (kvs m h p). gt_lo lo x \<and> le_hi hi x)"
  using assms
proof (induction h arbitrary: lo hi p)
  case 0
  then show ?case
  proof (rule tree_ok_0E)
    fix l assume l: "m p = Some (LeafPage l)" "leaf_ok lm l" "\<forall>k\<in>set (leaf_keys l). gt_lo lo k \<and> le_hi hi k"
    then have "fst ` set (leaf_kvs l) = set (leaf_keys l)" by (metis list.set_map map_fst_leaf_kvs)
    moreover have "sorted_wrt (<) (map fst (leaf_kvs l))"
      using l(2) map_fst_leaf_kvs [OF l(2)] by (simp add: leaf_ok_def)
    ultimately show ?thesis using l by simp
  qed
next
  case (Suc h)
  from Suc.prems show ?case
  proof (rule tree_ok_SucE)
    fix n assume n: "m p = Some (InnerPage n)" "forest_ok (tree_ok lm im m h) lo (inner_keys n) (inner_children n) hi"
    then show ?thesis
      using forest_contents [OF n(2), of "kvs m h"] Suc.IH by (simp add: kids_def)
  qed
qed

text \<open>Contents left and right of the \<open>i\<close>-th child lie outside that child's range.\<close>

lemma concat_focus:
  "i < length cs \<Longrightarrow> concat (map f cs) = concat (map f (take i cs)) @ f (cs ! i) @ concat (map f (drop (Suc i) cs))"
  by (metis append.assoc concat.simps(2) concat_append id_take_nth_drop list.simps(9) map_append)

lemma sorted_sep:
  assumes "sorted_wrt (<) ks" and "i < j" and "j < length ks"
  shows "ks ! i \<le> (ks ! j :: 'k::linorder)"
  using sorted_nth_less [OF assms] by simp

lemma kvs_outside:
  assumes t: "tree_ok lm im m (Suc h) lo hi p" and p: "m p = Some (InnerPage n)" and i: "i \<le> icount n"
  shows "\<forall>x\<in>fst ` set (concat (map (kvs m h) (take i (inner_children n)))). \<exists>a. clo lo (inner_keys n) i = Some a \<and> x \<le> a"
    and "\<forall>x\<in>fst ` set (concat (map (kvs m h) (drop (Suc i) (inner_children n)))). \<exists>b. chi hi (inner_keys n) i = Some b \<and> b < x"
proof -
  let ?ks = "inner_keys n" and ?cs = "inner_children n"
  have ok: "inner_ok im n" and f: "forest_ok (tree_ok lm im m h) lo ?ks ?cs hi"
    using t p by simp_all
  have len: "length ?ks = icount n" "length ?cs = icount n + 1"
    using ok by (simp_all add: length_inner_keys length_inner_children)
  have srt: "sorted_wrt (<) ?ks" using forest_keys [OF f] by simp
  have ch: "\<forall>x\<in>fst ` set (kvs m h (?cs ! j)). gt_lo (clo lo ?ks j) x \<and> le_hi (chi hi ?ks j) x" if "j \<le> icount n" for j
    using kvs_sorted_bounds [OF forest_nth [OF f, of j]] that len by simp
  show "\<forall>x\<in>fst ` set (concat (map (kvs m h) (take i ?cs))). \<exists>a. clo lo ?ks i = Some a \<and> x \<le> a"
  proof
    fix x assume "x \<in> fst ` set (concat (map (kvs m h) (take i ?cs)))"
    then obtain c where c: "c \<in> set (take i ?cs)" "x \<in> fst ` set (kvs m h c)" by auto
    then obtain j where j: "j < i" "c = ?cs ! j" using i len by (auto simp: in_set_conv_nth)
    then have "x \<le> ?ks ! j" using ch [of j] c i len by (auto simp: chi_def)
    also have "?ks ! j \<le> ?ks ! (i - 1)"
      using sorted_nth_le [OF srt, of j "i - 1"] j i len by simp
    finally show "\<exists>a. clo lo ?ks i = Some a \<and> x \<le> a" using j by (simp add: clo_def)
  qed
  show "\<forall>x\<in>fst ` set (concat (map (kvs m h) (drop (Suc i) ?cs))). \<exists>b. chi hi ?ks i = Some b \<and> b < x"
  proof
    fix x assume "x \<in> fst ` set (concat (map (kvs m h) (drop (Suc i) ?cs)))"
    then obtain c where c: "c \<in> set (drop (Suc i) ?cs)" "x \<in> fst ` set (kvs m h c)" by auto
    then obtain d where "d < length (drop (Suc i) ?cs)" "c = drop (Suc i) ?cs ! d"
      by (metis in_set_conv_nth)
    then have d: "Suc i + d \<le> icount n" "c = ?cs ! (Suc i + d)" using len by simp_all
    then have "?ks ! (i + d) < x" using ch [of "Suc i + d"] c by (auto simp: clo_def)
    moreover have "?ks ! i \<le> ?ks ! (i + d)"
      using sorted_nth_le [OF srt, of i "i + d"] d len by simp
    ultimately show "\<exists>b. chi hi ?ks i = Some b \<and> b < x" using d len by (simp add: chi_def)
  qed
qed

lemma kvs_outside_key:
  assumes t: "tree_ok lm im m (Suc h) lo hi p" and p: "m p = Some (InnerPage n)" and i: "i \<le> icount n"
    and k: "gt_lo (clo lo (inner_keys n) i) k" "le_hi (chi hi (inner_keys n) i) k"
  shows "\<forall>a\<in>fst ` set (concat (map (kvs m h) (take i (inner_children n)))). a < k"
    and "\<forall>b\<in>fst ` set (concat (map (kvs m h) (drop (Suc i) (inner_children n)))). k < b"
proof -
  show "\<forall>a\<in>fst ` set (concat (map (kvs m h) (take i (inner_children n)))). a < k"
  proof
    fix a assume "a \<in> fst ` set (concat (map (kvs m h) (take i (inner_children n))))"
    then obtain x where "clo lo (inner_keys n) i = Some x" "a \<le> x" using kvs_outside(1) [OF t p i] by blast
    then show "a < k" using k(1) by simp
  qed
  show "\<forall>b\<in>fst ` set (concat (map (kvs m h) (drop (Suc i) (inner_children n)))). k < b"
  proof
    fix b assume "b \<in> fst ` set (concat (map (kvs m h) (drop (Suc i) (inner_children n))))"
    then obtain x where "chi hi (inner_keys n) i = Some x" "x < b" using kvs_outside(2) [OF t p i] by blast
    then show "k < b" using k(2) by simp
  qed
qed

section \<open>Point updates inside sorted contents\<close>

lemma lb_focus:
  assumes "\<forall>a\<in>set A. a < k" and "\<forall>b\<in>set B. k < b"
  shows "lb (A @ X @ B) k = length A + lb X k"
proof -
  have "takeWhile (\<lambda>x. x < k) (X @ B) = takeWhile (\<lambda>x. x < k) X"
  proof -
    have "takeWhile (\<lambda>x. x < k) B = []" using assms(2) by (cases B) auto
    then show ?thesis by (induction X) simp_all
  qed
  then show ?thesis using assms(1) by (simp add: lb_def takeWhile_append)
qed

lemma lb_mem_less: "k \<in> set xs \<Longrightarrow> lb xs k < length xs"
  by (induction xs) (auto simp: lb_def)

lemma kv_upd_focus:
  assumes "\<forall>a\<in>fst ` set A. a < k" and "\<forall>b\<in>fst ` set B. k < b"
  shows "kv_upd k v (A @ X @ B) = A @ kv_upd k v X @ B"
proof -
  have p: "lb (map fst (A @ X @ B)) k = length A + lb (map fst X) k"
    using lb_focus [of "map fst A" k "map fst B" "map fst X"] assms by simp
  have mem: "k \<in> fst ` set (A @ X @ B) \<longleftrightarrow> k \<in> fst ` set X"
    using assms unfolding set_append image_Un by blast
  have "lb (map fst X) k \<le> length X" using lb_le [of "map fst X" k] by simp
  moreover have "lb (map fst X) k < length X" if "k \<in> fst ` set X"
    using that lb_mem_less [of k "map fst X"] by simp
  ultimately show ?thesis
    unfolding kv_upd_def Let_def p mem by (auto simp: list_update_append)
qed

lemma kv_del_focus:
  assumes "\<forall>a\<in>fst ` set A. a < k" and "\<forall>b\<in>fst ` set B. k < b"
  shows "kv_del k (A @ X @ B) = A @ kv_del k X @ B"
proof -
  have p: "lb (map fst (A @ X @ B)) k = length A + lb (map fst X) k"
    using lb_focus [of "map fst A" k "map fst B" "map fst X"] assms by simp
  have mem: "k \<in> fst ` set (A @ X @ B) \<longleftrightarrow> k \<in> fst ` set X"
    using assms unfolding set_append image_Un by blast
  have "lb (map fst X) k \<le> length X" using lb_le [of "map fst X" k] by simp
  moreover have "lb (map fst X) k < length X" if "k \<in> fst ` set X"
    using that lb_mem_less [of k "map fst X"] by simp
  ultimately show ?thesis
    unfolding kv_del_def Let_def p mem by (cases "k \<in> fst ` set X") simp_all
qed

section \<open>Routing a key to a child\<close>

lemma route_bounds:
  assumes "sorted_wrt (<) ks" and "gt_lo lo k" and "le_hi hi k"
  shows "gt_lo (clo lo ks (lb ks k)) k" and "le_hi (chi hi ks (lb ks k)) k"
proof -
  show "gt_lo (clo lo ks (lb ks k)) k"
    using assms(2) lb_below [of "lb ks k - 1" ks k] by (simp add: clo_def)
  show "le_hi (chi hi ks (lb ks k)) k"
    using assms(3) lb_at [of ks k] by (simp add: chi_def)
qed

lemma distinct_replace:
  assumes "distinct (p # A @ C @ B)" and "distinct C'" and "set C' \<subseteq> set C \<union> F" and "F \<inter> set (p # A @ C @ B) = {}"
  shows "distinct (p # A @ C' @ B)"
proof -
  have "p \<notin> set C'" "set A \<inter> set C' = {}" "set B \<inter> set C' = {}" using assms by auto
  with assms show ?thesis by auto
qed

text \<open>Exchanging the \<open>i\<close>-th child of an inner node for a changed version of itself.\<close>

lemma replace_child:
  assumes t: "tree_ok lm im m (Suc h) lo hi p" and p: "m p = Some (InnerPage n)" and i: "i \<le> icount n"
    and d: "distinct (pids m (Suc h) p)" and c: "c = inner_children n ! i"
    and agree: "\<And>q. q \<notin> set (pids m h c) \<Longrightarrow> q \<notin> F \<Longrightarrow> m' q = m q"
    and F: "F \<inter> set (pids m (Suc h) p) = {}"
    and t': "tree_ok lm im m' h (clo lo (inner_keys n) i) (chi hi (inner_keys n) i) c"
    and d': "distinct (pids m' h c)" and sub: "set (pids m' h c) \<subseteq> set (pids m h c) \<union> F"
  shows "tree_ok lm im m' (Suc h) lo hi p" and "distinct (pids m' (Suc h) p)"
    and "set (pids m' (Suc h) p) \<subseteq> set (pids m (Suc h) p) \<union> F" and "m' p = m p"
    and "kvs m' (Suc h) p = concat (map (kvs m h) (take i (inner_children n))) @ kvs m' h c
           @ concat (map (kvs m h) (drop (Suc i) (inner_children n)))"
    and "\<forall>j\<le>icount n. j \<noteq> i \<longrightarrow> (\<forall>q\<in>set (pids m h (inner_children n ! j)). m' q = m q)"
proof -
  let ?ks = "inner_keys n" and ?cs = "inner_children n"
  have ok: "inner_ok im n" and f: "forest_ok (tree_ok lm im m h) lo ?ks ?cs hi" using t p by simp_all
  have len: "length ?ks = icount n" "length ?cs = icount n + 1"
    using ok by (simp_all add: length_inner_keys length_inner_children)
  have kids: "kids m p = ?cs" using p by (simp add: kids_def)
  let ?A = "concat (map (pids m h) (take i ?cs))" and ?B = "concat (map (pids m h) (drop (Suc i) ?cs))"
  have ps: "pids m (Suc h) p = p # ?A @ pids m h c @ ?B"
    using concat_focus [of i ?cs "pids m h"] i len c kids by simp
  then have disj: "p \<notin> set (pids m h c)" "set ?A \<inter> set (pids m h c) = {}" "set ?B \<inter> set (pids m h c) = {}"
    using d by auto
  have notF: "p \<notin> F" "set ?A \<inter> F = {}" "set ?B \<inter> F = {}" using F unfolding ps by auto
  show mp: "m' p = m p" using agree disj(1) notF(1) by simp
  have oA: "\<forall>x\<in>set (take i ?cs). \<forall>q\<in>set (pids m h x). m' q = m q"
    using agree disj(2) notF(2) by fastforce
  have oB: "\<forall>x\<in>set (drop (Suc i) ?cs). \<forall>q\<in>set (pids m h x). m' q = m q"
    using agree disj(3) notF(3) by fastforce
  have other: "\<forall>q\<in>set (pids m h (?cs ! j)). m' q = m q" if "j \<le> icount n" "j \<noteq> i" for j
  proof (cases "j < i")
    case True
    then have "?cs ! j \<in> set (take i ?cs)" using i len by (force simp: in_set_conv_nth)
    then show ?thesis using oA by blast
  next
    case False
    then have "?cs ! j \<in> set (drop (Suc i) ?cs)"
      using that len by (force simp: in_set_conv_nth intro: exI [of _ "j - Suc i"])
    then show ?thesis using oB by blast
  qed
  then show "\<forall>j\<le>icount n. j \<noteq> i \<longrightarrow> (\<forall>q\<in>set (pids m h (?cs ! j)). m' q = m q)" by blast
  have "forest_ok (tree_ok lm im m' h) lo ?ks ?cs hi"
  proof (rule forestI)
    show "tree_ok lm im m' h (clo lo ?ks j) (chi hi ?ks j) (?cs ! j)" if "j \<le> length ?ks" for j
      using t' c other [of j] frame_subtree(3) forest_nth [OF f that] that len by metis
  qed (use len forest_keys [OF f] in auto)
  then show "tree_ok lm im m' (Suc h) lo hi p" using mp p ok by simp
  have kids': "kids m' p = ?cs" using mp p by (simp add: kids_def)
  have mapA: "map (pids m' h) (take i ?cs) = map (pids m h) (take i ?cs)"
      "map (pids m' h) (drop (Suc i) ?cs) = map (pids m h) (drop (Suc i) ?cs)"
    using oA oB frame_subtree(1) by (intro map_cong refl; blast)+
  have ps': "pids m' (Suc h) p = p # ?A @ pids m' h c @ ?B"
    using concat_focus [of i ?cs "pids m' h"] i len c kids' mapA by simp
  show "distinct (pids m' (Suc h) p)"
    using distinct_replace [OF d [unfolded ps] d' sub] F unfolding ps ps' by simp
  show "set (pids m' (Suc h) p) \<subseteq> set (pids m (Suc h) p) \<union> F"
    using sub unfolding ps ps' by auto
  have "map (kvs m' h) (take i ?cs) = map (kvs m h) (take i ?cs)"
      "map (kvs m' h) (drop (Suc i) ?cs) = map (kvs m h) (drop (Suc i) ?cs)"
    using oA oB frame_subtree(2) by (intro map_cong refl; blast)+
  then show "kvs m' (Suc h) p = concat (map (kvs m h) (take i ?cs)) @ kvs m' h c @ concat (map (kvs m h) (drop (Suc i) ?cs))"
    using concat_focus [of i ?cs "kvs m' h"] i len c kids' by (simp del: map_eq_conv)
qed

section \<open>Splitting a page\<close>

text \<open>What a split leaves behind: two trees of the same height around the separator that together hold
  the old contents on the old pages and the new one.\<close>

definition halves ::
  "nat \<Rightarrow> nat \<Rightarrow> ('k::linorder, 'v) pages \<Rightarrow> ('k, 'v) pages \<Rightarrow> nat \<Rightarrow> 'k option \<Rightarrow> 'k option \<Rightarrow> PID \<Rightarrow> 'k \<Rightarrow> PID \<Rightarrow> bool" where
  "halves lm im m m' h lo hi cur sep q \<longleftrightarrow>
     tree_ok lm im m' h lo (Some sep) cur \<and> tree_ok lm im m' h (Some sep) hi q \<and> gt_lo lo sep \<and> lt_hi hi sep
     \<and> kvs m h cur = kvs m' h cur @ kvs m' h q
     \<and> distinct (pids m' h cur @ pids m' h q)
     \<and> set (pids m' h cur @ pids m' h q) = insert q (set (pids m h cur))"

lemma halves_leaf:
  assumes t: "tree_ok lm im m 0 lo hi cur" and cur: "m cur = Some (LeafPage l)" and q: "q \<noteq> cur"
    and ok: "leaf_ok lm l1" "leaf_ok lm l2" and kv: "leaf_kvs l = leaf_kvs l1 @ leaf_kvs l2"
    and ne: "leaf_keys l1 \<noteq> []" "leaf_keys l2 \<noteq> []" and sep: "sep = last (leaf_keys l1)"
    and f: "lfences l1 = \<lparr>lowerF = lowerF (lfences l), upperF = fence_at sep\<rparr>"
      "lfences l2 = \<lparr>lowerF = fence_at sep, upperF = upperF (lfences l)\<rparr>"
  shows "halves lm im m (m(q \<mapsto> LeafPage l2, cur \<mapsto> LeafPage l1)) 0 lo hi cur sep q"
proof -
  have l: "leaf_ok lm l" "\<forall>k\<in>set (leaf_keys l). gt_lo lo k \<and> le_hi hi k"
      "fence_is (lowerF (lfences l)) lo" "fence_is (upperF (lfences l)) hi"
    using t cur by simp_all
  have keys: "leaf_keys l = leaf_keys l1 @ leaf_keys l2"
    using kv ok l(1) by (metis map_append map_fst_leaf_kvs)
  have srt: "sorted_wrt (<) (leaf_keys l1 @ leaf_keys l2)" using l(1) keys by (simp add: leaf_ok_def)
  obtain xs where xs: "leaf_keys l1 = xs @ [sep]" using ne(1) sep by (metis append_butlast_last_id)
  have le: "\<forall>k\<in>set (leaf_keys l1). k \<le> sep" "\<forall>k\<in>set (leaf_keys l2). sep < k"
    using srt xs by (auto simp: sorted_wrt_append)
  obtain y where y: "y \<in> set (leaf_keys l2)" using ne(2) by (meson last_in_set)
  have "gt_lo lo sep" using l(2) keys xs by simp
  moreover have "lt_hi hi sep"
    using l(2) keys y le(2) le_less_lt_hi [of hi y sep] by auto
  moreover have "\<forall>k\<in>set (leaf_keys l1). gt_lo lo k" "\<forall>k\<in>set (leaf_keys l2). le_hi hi k"
    using l(2) keys by auto
  ultimately show ?thesis
    using ok le l q cur kv f by (simp add: halves_def insert_commute)
qed

lemma halves_inner:
  assumes t: "tree_ok lm im m (Suc h) lo hi cur" and cur: "m cur = Some (InnerPage n)"
    and d: "distinct (pids m (Suc h) cur)" and q: "q \<notin> set (pids m (Suc h) cur)"
    and ok: "inner_ok im n1" "inner_ok im n2"
    and ks: "inner_keys n = inner_keys n1 @ sep # inner_keys n2"
    and cs: "inner_children n = inner_children n1 @ inner_children n2"
  shows "halves lm im m (m(q \<mapsto> InnerPage n2, cur \<mapsto> InnerPage n1)) (Suc h) lo hi cur sep q"
proof -
  let ?m' = "m(q \<mapsto> InnerPage n2, cur \<mapsto> InnerPage n1)"
  have kids: "kids m cur = inner_children n1 @ inner_children n2" using cur cs by (simp add: kids_def)
  have qc: "q \<noteq> cur" using q by auto
  have fr: "\<forall>x\<in>set (pids m h c). ?m' x = m x" if "c \<in> set (inner_children n1 @ inner_children n2)" for c
    using that d q kids by auto
  have "forest_ok (tree_ok lm im m h) lo (inner_keys n1 @ sep # inner_keys n2) (inner_children n1 @ inner_children n2) hi"
    using t cur ks cs by simp
  then have f: "forest_ok (tree_ok lm im m h) lo (inner_keys n1) (inner_children n1) (Some sep)"
      "forest_ok (tree_ok lm im m h) (Some sep) (inner_keys n2) (inner_children n2) hi" "gt_lo lo sep" "lt_hi hi sep"
    using ok by (simp_all add: forest_split length_inner_keys length_inner_children)
  have f': "forest_ok (tree_ok lm im ?m' h) lo (inner_keys n1) (inner_children n1) (Some sep)"
      "forest_ok (tree_ok lm im ?m' h) (Some sep) (inner_keys n2) (inner_children n2) hi"
    by (rule forest_mono [OF f(1)], simp add: frame_subtree(3) [OF fr],
        rule forest_mono [OF f(2)], simp add: frame_subtree(3) [OF fr])
  have mp: "map (pids ?m' h) (inner_children n1 @ inner_children n2) = map (pids m h) (inner_children n1 @ inner_children n2)"
    by (intro map_cong refl frame_subtree(1) [OF fr])
  have mk: "map (kvs ?m' h) (inner_children n1 @ inner_children n2) = map (kvs m h) (inner_children n1 @ inner_children n2)"
    by (intro map_cong refl frame_subtree(2) [OF fr])
  have kids': "kids ?m' cur = inner_children n1" "kids ?m' q = inner_children n2" using qc by (simp_all add: kids_def)
  have pc: "pids m (Suc h) cur = cur # concat (map (pids ?m' h) (inner_children n1)) @ concat (map (pids ?m' h) (inner_children n2))"
    using kids mp by (simp del: map_eq_conv)
  have "kvs m (Suc h) cur = kvs ?m' (Suc h) cur @ kvs ?m' (Suc h) q"
    using kids kids' mk by (simp del: map_eq_conv fun_upd_apply)
  moreover have "distinct (pids ?m' (Suc h) cur @ pids ?m' (Suc h) q)"
      "set (pids ?m' (Suc h) cur @ pids ?m' (Suc h) q) = insert q (set (pids m (Suc h) cur))"
    using d q unfolding pc unfolding pids.simps(2) kids' by auto
  moreover have "tree_ok lm im ?m' (Suc h) lo (Some sep) cur" "tree_ok lm im ?m' (Suc h) (Some sep) hi q"
    using f' ok qc by simp_all
  ultimately show ?thesis using f(3,4) unfolding halves_def by blast
qed

lemma sep_position:
  assumes "sorted_wrt (<) ks" and "i \<le> length ks" and "gt_lo (clo lo ks i) sep" and "lt_hi (chi hi ks i) sep"
  shows "lb ks sep = i" and "sep \<notin> set ks"
proof -
  have lt: "ks ! j < sep" if "j < i" for j
  proof -
    have "ks ! j \<le> ks ! (i - 1)" using sorted_nth_le [OF assms(1), of j "i - 1"] that assms(2) by simp
    also have "\<dots> < sep" using assms(3) that by (simp add: clo_def split: if_splits)
    finally show ?thesis .
  qed
  have gt: "sep < ks ! j" if "i \<le> j" "j < length ks" for j
  proof -
    have "sep < ks ! i" using assms(4) that by (simp add: chi_def split: if_splits)
    also have "ks ! i \<le> ks ! j" using sorted_nth_le [OF assms(1) that] .
    finally show ?thesis .
  qed
  show "lb ks sep = i" using lt gt assms(2) by (intro lb_unique) (auto simp: less_imp_le)
  show "sep \<notin> set ks"
    by (metis gt in_set_conv_nth less_irrefl lt not_less)
qed

text \<open>Hanging the new half into the parent.\<close>

lemma parent_gets_half:
  assumes t: "tree_ok lm im m (Suc h) lo hi p" and p: "m p = Some (InnerPage n)" and i: "i \<le> icount n"
    and d: "distinct (pids m (Suc h) p)" and c: "c = inner_children n ! i"
    and q: "q \<notin> set (pids m (Suc h) p)"
    and agree: "\<And>x. x \<notin> set (pids m h c) \<Longrightarrow> x \<noteq> q \<Longrightarrow> m' x = m x"
    and H: "halves lm im m m' h (clo lo (inner_keys n) i) (chi hi (inner_keys n) i) c sep q"
    and n': "inner_ok im n'" "inner_keys n' = take i (inner_keys n) @ sep # drop i (inner_keys n)"
      "inner_children n' = take (Suc i) (inner_children n) @ q # drop (Suc i) (inner_children n)"
  shows "tree_ok lm im (m'(p \<mapsto> InnerPage n')) (Suc h) lo hi p"
    and "distinct (pids (m'(p \<mapsto> InnerPage n')) (Suc h) p)"
    and "set (pids (m'(p \<mapsto> InnerPage n')) (Suc h) p) = insert q (set (pids m (Suc h) p))"
    and "kvs (m'(p \<mapsto> InnerPage n')) (Suc h) p = kvs m (Suc h) p"
proof -
  let ?ks = "inner_keys n" and ?cs = "inner_children n" and ?m2 = "m'(p \<mapsto> InnerPage n')"
  let ?lc = "take i ?cs" and ?rc = "drop (Suc i) ?cs"
  have ok: "inner_ok im n" and f: "forest_ok (tree_ok lm im m h) lo ?ks ?cs hi" using t p by simp_all
  have len: "length ?ks = icount n" "length ?cs = icount n + 1"
    using ok by (simp_all add: length_inner_keys length_inner_children)
  have cs: "?cs = ?lc @ c # ?rc" "inner_children n' = ?lc @ c # q # ?rc"
    using i len c n'(3) by (simp_all add: id_take_nth_drop take_Suc_conv_app_nth)
  have kids: "kids m p = ?lc @ c # ?rc" "kids ?m2 p = ?lc @ c # q # ?rc" using p cs by (simp_all add: kids_def)
  have dp: "distinct (p # concat (map (pids m h) ?lc) @ pids m h c @ concat (map (pids m h) ?rc))"
    using d kids by simp
  have sp: "set (pids m (Suc h) p) = insert p (set (concat (map (pids m h) ?lc)) \<union> set (pids m h c) \<union> set (concat (map (pids m h) ?rc)))"
    using kids by auto
  have fr: "\<forall>x\<in>set (pids m h b). ?m2 x = m x" if "b \<in> set ?lc \<union> set ?rc" for b
  proof
    fix x assume x: "x \<in> set (pids m h b)"
    with that have "x \<in> set (concat (map (pids m h) ?lc)) \<union> set (concat (map (pids m h) ?rc))" by auto
    moreover from this have "x \<noteq> q" using q unfolding sp by blast
    ultimately have "x \<noteq> p" "x \<notin> set (pids m h c)" "x \<noteq> q" using dp by auto
    then show "?m2 x = m x" using agree by simp
  qed
  have Hs: "set (pids m' h c) \<union> set (pids m' h q) = insert q (set (pids m h c))"
    and Hd: "distinct (pids m' h c @ pids m' h q)"
    using H by (simp_all add: halves_def)
  have "p \<notin> set (pids m h c)" "p \<noteq> q" using dp q by auto
  then have pn: "p \<notin> set (pids m' h c) \<union> set (pids m' h q)" unfolding Hs by simp
  have fc: "\<forall>x\<in>set (pids m' h c). ?m2 x = m' x" "\<forall>x\<in>set (pids m' h q). ?m2 x = m' x" using pn by auto
  have tc: "tree_ok lm im ?m2 h (clo lo ?ks i) (Some sep) c" "tree_ok lm im ?m2 h (Some sep) (chi hi ?ks i) q"
    using H frame_subtree(3) [OF fc(1)] frame_subtree(3) [OF fc(2)] by (simp_all add: halves_def del: fun_upd_apply)
  have sepr: "gt_lo (clo lo ?ks i) sep" "lt_hi (chi hi ?ks i) sep" using H by (simp_all add: halves_def)
  have "forest_ok (tree_ok lm im ?m2 h) lo (inner_keys n') (inner_children n') hi"
    unfolding n'(2) cs(2)
  proof (rule forest_insert [OF f _ tc sepr])
    show "i \<le> length ?ks" using i len by simp
    show "tree_ok lm im ?m2 h lo' hi' b" if "b \<in> set ?lc \<union> set ?rc" "tree_ok lm im m h lo' hi' b" for lo' hi' b
      using frame_subtree(3) [OF fr [OF that(1)]] that(2) by (simp del: fun_upd_apply)
  qed
  then show "tree_ok lm im ?m2 (Suc h) lo hi p" using n'(1) by simp
  have mp: "map (pids ?m2 h) ?lc = map (pids m h) ?lc" "map (pids ?m2 h) ?rc = map (pids m h) ?rc"
      "map (kvs ?m2 h) ?lc = map (kvs m h) ?lc" "map (kvs ?m2 h) ?rc = map (kvs m h) ?rc"
    using frame_subtree(1) [OF fr] frame_subtree(2) [OF fr] by (simp_all del: fun_upd_apply)
  have ps: "pids ?m2 (Suc h) p = p # concat (map (pids m h) ?lc) @ (pids m' h c @ pids m' h q) @ concat (map (pids m h) ?rc)"
    using kids(2) mp(1,2) frame_subtree(1) [OF fc(1)] frame_subtree(1) [OF fc(2)] by (simp del: map_eq_conv fun_upd_apply)
  show "distinct (pids ?m2 (Suc h) p)"
  proof -
    have "set (pids m' h c @ pids m' h q) \<subseteq> set (pids m h c) \<union> {q}" using Hs by simp
    moreover have "{q} \<inter> set (p # concat (map (pids m h) ?lc) @ pids m h c @ concat (map (pids m h) ?rc)) = {}"
      using q unfolding sp by simp
    ultimately show ?thesis unfolding ps by (rule distinct_replace [OF dp Hd])
  qed
  show "set (pids ?m2 (Suc h) p) = insert q (set (pids m (Suc h) p))"
    unfolding ps sp using Hs by auto
  show "kvs ?m2 (Suc h) p = kvs m (Suc h) p"
    using kids mp(3,4) frame_subtree(2) [OF fc(1)] frame_subtree(2) [OF fc(2)] H
    by (simp add: halves_def del: map_eq_conv fun_upd_apply)
qed

end
