(* ===== verification/BTree_Insert.thy ===== *)
theory BTree_Insert
  imports BTree_Inv
begin

text \<open>
  Correctness of insertion: whatever checks fail, every attempt keeps the tree well-formed, a
  restarted attempt leaves the contents unchanged (splits only reorganise), and the attempt that
  completes updates exactly the entry of the inserted key.
\<close>

section \<open>Invariant of the tree and its contents\<close>

definition env_ok :: "('k, 'v) benv \<Rightarrow> bool" where
  "env_ok E \<longleftrightarrow> 2 \<le> leafMax E \<and> 5 \<le> innerMax E
     \<and> (\<forall>p. length (fst (snd (junkLeaf E p))) = leafMax E \<and> length (snd (snd (junkLeaf E p))) = leafMax E)
     \<and> (\<forall>p. length (fst (snd (junkInner E p))) = innerMax E \<and> length (snd (snd (junkInner E p))) = innerMax E)"

definition free_ok :: "('k, 'v) bstore \<Rightarrow> bool" where
  "free_ok s \<longleftrightarrow> distinct (bfree s) \<and> (\<forall>q\<in>set (bfree s). bpages s q = None)"

definition bt_ok :: "('k::linorder, 'v) benv \<Rightarrow> PID \<Rightarrow> ('k, 'v) bstore \<Rightarrow> bool" where
  "bt_ok E e s \<longleftrightarrow> free_ok s \<and> (case bpages s e of
     Some (EntryPage root h) \<Rightarrow>
       tree_ok (leafMax E) (innerMax E) (bpages s) h None None root \<and> distinct (e # pids (bpages s) h root)
   | _ \<Rightarrow> False)"

definition bt_kvs :: "PID \<Rightarrow> ('k, 'v) bstore \<Rightarrow> ('k \<times> 'v) list" where
  "bt_kvs e s = (case bpages s e of Some (EntryPage root h) \<Rightarrow> kvs (bpages s) h root | _ \<Rightarrow> [])"

definition bt_map :: "PID \<Rightarrow> ('k, 'v) bstore \<Rightarrow> 'k \<Rightarrow> 'v option" where
  "bt_map e s = map_of (bt_kvs e s)"

lemma bt_okE:
  assumes "bt_ok E e s"
  obtains root h where "bpages s e = Some (EntryPage root h)"
    "tree_ok (leafMax E) (innerMax E) (bpages s) h None None root" "distinct (pids (bpages s) h root)"
    "e \<notin> set (pids (bpages s) h root)" "free_ok s"
  using assms by (auto simp: bt_ok_def split: option.splits page.splits)

lemma bt_kvs_sorted: "bt_ok E e s \<Longrightarrow> sorted_wrt (<) (map fst (bt_kvs e s))"
  by (erule bt_okE) (auto simp: bt_kvs_def dest: kvs_sorted_bounds)

lemma pids_dom: "tree_ok lm im m h lo hi p \<Longrightarrow> q \<in> set (pids m h p) \<Longrightarrow> m q \<noteq> None"
proof (induction h arbitrary: lo hi p)
  case 0
  then show ?case by (auto split: option.splits)
next
  case (Suc h)
  from Suc.prems(1) show ?case
  proof (rule tree_ok_SucE)
    fix n assume n: "m p = Some (InnerPage n)" "inner_ok im n" "forest_ok (tree_ok lm im m h) lo (inner_keys n) (inner_children n) hi"
    show ?thesis
    proof (cases "q = p")
      case False
      with Suc.prems(2) n obtain c where c: "c \<in> set (inner_children n)" "q \<in> set (pids m h c)"
        by (auto simp: kids_def)
      then obtain i where "i < length (inner_children n)" "c = inner_children n ! i" by (metis in_set_conv_nth)
      then have "tree_ok lm im m h (clo lo (inner_keys n) i) (chi hi (inner_keys n) i) c"
        using forest_nth [OF n(3), of i] forest_length [OF n(3)] by simp
      then show ?thesis using Suc.IH c(2) by blast
    qed (simp add: n)
  qed
qed

lemma free_not_in_tree:
  "free_ok s \<Longrightarrow> tree_ok lm im (bpages s) h lo hi p \<Longrightarrow> set (bfree s) \<inter> set (pids (bpages s) h p) = {}"
  using pids_dom by (fastforce simp: free_ok_def)

section \<open>Effect of a step on a subtree\<close>

text \<open>\<open>step_post E h lo hi p s s' X\<close>: the subtree at \<open>p\<close> is well-formed in \<open>s'\<close> and holds \<open>X\<close>; only its own
  pages and pages taken from the free list changed.\<close>

definition step_post ::
  "('k::linorder, 'v) benv \<Rightarrow> nat \<Rightarrow> 'k option \<Rightarrow> 'k option \<Rightarrow> PID \<Rightarrow> ('k, 'v) bstore \<Rightarrow> ('k, 'v) bstore \<Rightarrow> ('k \<times> 'v) list \<Rightarrow> bool" where
  "step_post E h lo hi p s s' X \<longleftrightarrow>
     tree_ok (leafMax E) (innerMax E) (bpages s') h lo hi p \<and> distinct (pids (bpages s') h p)
     \<and> kvs (bpages s') h p = X \<and> bnode s' = bnode s
     \<and> (\<exists>F. bfree s = F @ bfree s' \<and> length F \<le> 1
          \<and> set (pids (bpages s') h p) \<subseteq> set (pids (bpages s) h p) \<union> set F
          \<and> (\<forall>q. q \<notin> set (pids (bpages s) h p) \<union> set F \<longrightarrow> bpages s' q = bpages s q))"

lemma step_post_refl:
  "tree_ok (leafMax E) (innerMax E) (bpages s) h lo hi p \<Longrightarrow> distinct (pids (bpages s) h p) \<Longrightarrow>
     step_post E h lo hi p s s (kvs (bpages s) h p)"
  by (auto simp: step_post_def)

lemma step_post_lift:
  assumes t: "tree_ok (leafMax E) (innerMax E) (bpages s) (Suc h) lo hi p" and p: "bpages s p = Some (InnerPage n)"
    and d: "distinct (pids (bpages s) (Suc h) p)" and i: "i \<le> icount n" and fr: "free_ok s"
    and S: "step_post E h (clo lo (inner_keys n) i) (chi hi (inner_keys n) i) (inner_children n ! i) s s' X"
  shows "step_post E (Suc h) lo hi p s s' (concat (map (kvs (bpages s) h) (take i (inner_children n))) @ X
     @ concat (map (kvs (bpages s) h) (drop (Suc i) (inner_children n)))) \<and> bpages s' p = bpages s p"
proof -
  let ?c = "inner_children n ! i"
  obtain F where F: "bfree s = F @ bfree s'" "length F \<le> 1"
      "set (pids (bpages s') h ?c) \<subseteq> set (pids (bpages s) h ?c) \<union> set F"
      "\<forall>q. q \<notin> set (pids (bpages s) h ?c) \<union> set F \<longrightarrow> bpages s' q = bpages s q"
    and S': "tree_ok (leafMax E) (innerMax E) (bpages s') h (clo lo (inner_keys n) i) (chi hi (inner_keys n) i) ?c"
      "distinct (pids (bpages s') h ?c)" "kvs (bpages s') h ?c = X" "bnode s' = bnode s"
    using S by (auto simp: step_post_def)
  have disj: "set F \<inter> set (pids (bpages s) (Suc h) p) = {}"
    using free_not_in_tree [OF fr t] F(1) by auto
  have agree: "\<And>q. q \<notin> set (pids (bpages s) h ?c) \<Longrightarrow> q \<notin> set F \<Longrightarrow> bpages s' q = bpages s q"
    using F(4) by blast
  note R = replace_child [OF t p i d refl agree disj S'(1,2) F(3)]
  have cmem: "?c \<in> set (kids (bpages s) p)"
    using t p i length_inner_children [of "innerMax E" n] by (simp add: kids_def)
  then have "\<forall>q. q \<notin> set (pids (bpages s) (Suc h) p) \<union> set F \<longrightarrow> bpages s' q = bpages s q"
    using agree pids_kid [OF cmem, of h] by blast
  then show ?thesis
    using R F(1,2) S'(3,4) unfolding step_post_def by blast
qed

section \<open>How many splits an insertion can still need\<close>

text \<open>
  Along the search path of \<open>k\<close>, the first component counts the nodes that may still split before
  \<open>k\<close> is inserted, the second tells whether the topmost node is one of them: a leaf when it is full,
  an inner node when it would be full after its child has split.
\<close>

fun need :: "('k::linorder, 'v) benv \<Rightarrow> ('k, 'v) pages \<Rightarrow> 'k \<Rightarrow> nat \<Rightarrow> PID \<Rightarrow> nat \<times> nat" where
  "need E m k 0 p = (case m p of
     Some (LeafPage l) \<Rightarrow> if leaf_isFull (leafMax E) l then (1, 1) else (0, 0) | _ \<Rightarrow> (0, 0))"
| "need E m k (Suc h) p = (case m p of
     Some (InnerPage n) \<Rightarrow>
       let tu = need E m k h (inner_children n ! lb (inner_keys n) k)
       in if innerMax E - 1 \<le> icount n + snd tu then (Suc (fst tu), 1) else (fst tu, 0)
   | _ \<Rightarrow> (0, 0))"

lemma need_bound: "fst (need E m k h p) \<le> Suc h"
proof (induction h arbitrary: p)
  case 0
  show ?case by (auto split: option.split page.split)
next
  case (Suc h)
  show ?case
    using Suc.IH by (auto simp: Let_def le_SucI split: option.split page.split)
qed

lemma need_frame:
  assumes "tree_ok lm im m h lo hi p" and "\<forall>q\<in>set (pids m h p). m' q = m q"
  shows "need E m' k h p = need E m k h p"
  using assms
proof (induction h arbitrary: lo hi p)
  case (Suc h)
  from Suc.prems(1) show ?case
  proof (rule tree_ok_SucE)
    fix n assume n: "m p = Some (InnerPage n)" "inner_ok im n" "forest_ok (tree_ok lm im m h) lo (inner_keys n) (inner_children n) hi"
    let ?i = "lb (inner_keys n) k"
    have i: "?i \<le> length (inner_keys n)" "length (inner_children n) = length (inner_keys n) + 1"
      using lb_le forest_length [OF n(3)] by auto
    then have mem: "inner_children n ! ?i \<in> set (kids m p)" using n(1) by (simp add: kids_def)
    have "need E m' k h (inner_children n ! ?i) = need E m k h (inner_children n ! ?i)"
      using Suc.IH [OF forest_nth [OF n(3) i(1)]] Suc.prems(2) pids_kid [OF mem, of h] by blast
    then show ?thesis using n(1) Suc.prems(2) by simp
  qed
qed simp

definition need_dec :: "('k::linorder, 'v) benv \<Rightarrow> 'k \<Rightarrow> nat \<Rightarrow> PID \<Rightarrow> ('k, 'v) bstore \<Rightarrow> ('k, 'v) bstore \<Rightarrow> bool" where
  "need_dec E k h p s s' \<longleftrightarrow> fst (need E (bpages s) k h p) = Suc (fst (need E (bpages s') k h p))
     \<and> snd (need E (bpages s') k h p) = snd (need E (bpages s) k h p)"

definition split_need :: "('k::linorder, 'v) benv \<Rightarrow> 'k \<Rightarrow> nat \<Rightarrow> PID \<Rightarrow> ('k, 'v) bstore \<Rightarrow> 'k \<Rightarrow> PID \<Rightarrow> ('k, 'v) bstore \<Rightarrow> bool" where
  "split_need E k h cur s sep q s1 \<longleftrightarrow>
     (\<exists>t. need E (bpages s) k h cur = (Suc t, 1) \<and> need E (bpages s1) k h (if k \<le> sep then cur else q) = (t, 0))"

definition clean :: "retries \<Rightarrow> bool" where
  "clean rt \<longleftrightarrow> (\<forall>l i. \<not> rt l i)"

section \<open>Splits\<close>

definition split_post ::
  "('k::linorder, 'v) benv \<Rightarrow> nat \<Rightarrow> 'k option \<Rightarrow> 'k option \<Rightarrow> PID \<Rightarrow> ('k, 'v) bstore \<Rightarrow> 'k \<Rightarrow> PID \<Rightarrow> ('k, 'v) bstore \<Rightarrow> bool" where
  "split_post E h lo hi cur s sep q s1 \<longleftrightarrow>
     halves (leafMax E) (innerMax E) (bpages s) (bpages s1) h lo hi cur sep q
     \<and> bfree s = q # bfree s1 \<and> bnode s1 = bnode s
     \<and> (\<forall>x. x \<notin> set (pids (bpages s) h cur) \<and> x \<noteq> q \<longrightarrow> bpages s1 x = bpages s x)"

lemma new_leaf_lengths:
  "env_ok E \<Longrightarrow> junkLeaf E q = (jk, ks, vs) \<Longrightarrow> length ks = leafMax E \<and> length vs = leafMax E"
  by (metis env_ok_def fst_conv snd_conv)

lemma new_inner_lengths:
  "env_ok E \<Longrightarrow> junkInner E q = (jk, ks, cs) \<Longrightarrow> length ks = innerMax E \<and> length cs = innerMax E"
  by (metis env_ok_def fst_conv snd_conv)

lemma lb_split:
  assumes "sorted_wrt (<) (ks1 @ sep # ks2)"
  shows "lb (ks1 @ sep # ks2) k = (if k \<le> sep then lb ks1 k else Suc (length ks1 + lb ks2 k))"
proof (cases "k \<le> sep")
  case True
  have "takeWhile (\<lambda>x. x < k) (ks1 @ sep # ks2) = takeWhile (\<lambda>x. x < k) ks1"
    using True by (induction ks1) auto
  then show ?thesis using True by (simp add: lb_def)
next
  case False
  then have "\<forall>x\<in>set ks1. x < k" using assms by (force simp: sorted_wrt_append)
  then show ?thesis using False by (simp add: lb_def takeWhile_append)
qed

lemma split_leaf_page_ok:
  assumes E: "env_ok E" and t: "tree_ok (leafMax E) (innerMax E) (bpages s) 0 lo hi cur"
    and cur: "bpages s cur = Some (LeafPage l)" and full: "leaf_isFull (leafMax E) l"
    and fr: "free_ok s" and ne: "bfree s \<noteq> []"
  shows "\<exists>sep q s1. split_leaf_page E cur l s = Inr (sep, q, s1) \<and> split_post E 0 lo hi cur s sep q s1
     \<and> split_need E k 0 cur s sep q s1"
proof -
  obtain q qs where q: "bfree s = q # qs" using ne by (cases "bfree s") auto
  obtain jk ks vs where j: "junkLeaf E q = (jk, ks, vs)" by (metis prod_cases3)
  let ?nl = "new_BTreeLeaf jk ks vs"
  have lm: "2 \<le> leafMax E" using E by (simp add: env_ok_def)
  have "leaf_ok (leafMax E) l" using t cur by simp
  moreover have "lcount l = leafMax E" using full by (simp add: leaf_isFull_def)
  moreover have "length (lkeys ?nl) = leafMax E" "length (lpayloads ?nl) = leafMax E"
    using new_leaf_lengths [OF E j] by (simp_all add: new_BTreeLeaf_def)
  ultimately obtain sep l1 l2 where sp: "leaf_split (leafMax E) l ?nl = Inr (sep, l1, l2)"
      "leaf_ok (leafMax E) l1" "leaf_ok (leafMax E) l2" "leaf_kvs l = leaf_kvs l1 @ leaf_kvs l2"
      "leaf_keys l1 \<noteq> []" "sep = last (leaf_keys l1)" "lcount l2 = leafMax E - leafMax E div 2"
      "lfences l1 = \<lparr>lowerF = lowerF (lfences l), upperF = fence_at sep\<rparr>"
      "lfences l2 = \<lparr>lowerF = fence_at sep, upperF = upperF (lfences l)\<rparr>" "lcount l1 = leafMax E div 2"
    using leaf_split_ok [OF _ _ lm, of l ?nl] by blast
  have "0 < leafMax E - leafMax E div 2" using lm by auto
  then have "leaf_keys l2 \<noteq> []" using sp(3,7) length_leaf_keys [of "leafMax E" l2] by auto
  have "q \<noteq> cur" using free_not_in_tree [OF fr t] q by auto
  with \<open>leaf_keys l2 \<noteq> []\<close> have H: "halves (leafMax E) (innerMax E) (bpages s)
      ((bpages s)(q \<mapsto> LeafPage l2, cur \<mapsto> LeafPage l1)) 0 lo hi cur sep q"
    by (intro halves_leaf [OF t cur _ sp(2,3,4,5) _ sp(6,8,9)]) auto
  define s1 where "s1 = s\<lparr>bfree := qs, bpages := (bpages s)(q \<mapsto> LeafPage l2, cur \<mapsto> LeafPage l1)\<rparr>"
  have "split_leaf_page E cur l s = Inr (sep, q, s1)"
    using q j sp(1) by (simp add: split_leaf_page_def allocate_leaf_def alloc_pid_def Let_def setPage_def s1_def)
  moreover have "split_post E 0 lo hi cur s sep q s1"
    using H q by (simp add: split_post_def s1_def)
  moreover have "leafMax E div 2 \<noteq> leafMax E" "leafMax E - leafMax E div 2 \<noteq> leafMax E" using lm by auto
  then have "split_need E k 0 cur s sep q s1"
    using cur full sp(7,10) \<open>q \<noteq> cur\<close> by (simp add: split_need_def s1_def leaf_isFull_def)
  ultimately show ?thesis by blast
qed

lemma split_inner_page_ok:
  assumes E: "env_ok E" and t: "tree_ok (leafMax E) (innerMax E) (bpages s) (Suc h) lo hi cur"
    and cur: "bpages s cur = Some (InnerPage n)" and full: "inner_isFull (innerMax E) n"
    and d: "distinct (pids (bpages s) (Suc h) cur)" and fr: "free_ok s" and ne: "bfree s \<noteq> []"
  shows "\<exists>sep q s1. split_inner_page E cur n s = Inr (sep, q, s1) \<and> split_post E (Suc h) lo hi cur s sep q s1
     \<and> split_need E k (Suc h) cur s sep q s1"
proof -
  obtain q qs where q: "bfree s = q # qs" using ne by (cases "bfree s") auto
  obtain jk ks cs where j: "junkInner E q = (jk, ks, cs)" by (metis prod_cases3)
  let ?nn = "new_BTreeInner jk ks cs"
  have "inner_ok (innerMax E) n" using t cur by simp
  moreover have "5 \<le> innerMax E" using E by (simp add: env_ok_def)
  then have "4 \<le> icount n" using full by (simp add: inner_isFull_def)
  moreover have "length (ikeys ?nn) = innerMax E" "length (ichildren ?nn) = innerMax E"
    using new_inner_lengths [OF E j] by (simp_all add: new_BTreeInner_def)
  ultimately obtain sep n1 n2 where sp: "inner_split n ?nn = Inr (sep, n1, n2)"
      "inner_ok (innerMax E) n1" "inner_ok (innerMax E) n2"
      "inner_keys n = inner_keys n1 @ sep # inner_keys n2" "inner_children n = inner_children n1 @ inner_children n2"
      "icount n1 + 1 < icount n" "icount n2 + 1 < icount n"
    using inner_split_ok by blast
  have "q \<notin> set (pids (bpages s) (Suc h) cur)" using free_not_in_tree [OF fr t] q by auto
  then have H: "halves (leafMax E) (innerMax E) (bpages s)
      ((bpages s)(q \<mapsto> InnerPage n2, cur \<mapsto> InnerPage n1)) (Suc h) lo hi cur sep q"
    by (rule halves_inner [OF t cur d _ sp(2,3,4,5)])
  define s1 where "s1 = s\<lparr>bfree := qs, bpages := (bpages s)(q \<mapsto> InnerPage n2, cur \<mapsto> InnerPage n1)\<rparr>"
  have "split_inner_page E cur n s = Inr (sep, q, s1)"
    using q j sp(1) by (simp add: split_inner_page_def allocate_inner_def alloc_pid_def Let_def setPage_def s1_def)
  moreover have post: "split_post E (Suc h) lo hi cur s sep q s1"
    using H q by (simp add: split_post_def s1_def)
  moreover have "split_need E k (Suc h) cur s sep q s1"
  proof -
    let ?i = "lb (inner_keys n) k"
    let ?c = "inner_children n ! ?i"
    have kid: "?c \<in> set (kids (bpages s) cur)"
      and tc: "tree_ok (leafMax E) (innerMax E) (bpages s) h (clo lo (inner_keys n) ?i) (chi hi (inner_keys n) ?i) ?c"
      using t cur lb_le [of "inner_keys n" k] forest_nth [of "tree_ok (leafMax E) (innerMax E) (bpages s) h" lo "inner_keys n" "inner_children n" hi ?i]
      by (auto simp: kids_def dest: forest_length)
    have "\<forall>x\<in>set (pids (bpages s) h ?c). bpages s1 x = bpages s x"
      using d kid \<open>q \<notin> set (pids (bpages s) (Suc h) cur)\<close> by (auto simp: s1_def)
    then have same: "need E (bpages s1) k h ?c = need E (bpages s) k h ?c" by (rule need_frame [OF tc])
    have srt: "sorted_wrt (<) (inner_keys n1 @ sep # inner_keys n2)" using t cur sp(4) by (simp add: inner_ok_def)
    have l1: "length (inner_keys n1) = icount n1" "length (inner_children n1) = icount n1 + 1"
      using sp(2) by (simp_all add: length_inner_keys length_inner_children)
    have route: "?c = (if k \<le> sep then inner_children n1 ! lb (inner_keys n1) k else inner_children n2 ! lb (inner_keys n2) k)"
      using lb_split [OF srt, of k] l1 lb_le [of "inner_keys n1" k] sp(4,5) by (auto simp: nth_append)
    have small: "icount n1 + u < innerMax E - 1" "icount n2 + u < innerMax E - 1" if "u \<le> 1" for u
      using sp(6,7) full that by (simp_all add: inner_isFull_def)
    have u1: "snd (need E (bpages s) k h ?c) \<le> 1"
      by (cases h) (auto simp: Let_def split: option.splits page.splits)
    have "need E (bpages s) k (Suc h) cur = (Suc (fst (need E (bpages s) k h ?c)), 1)"
      using cur full by (simp add: inner_isFull_def Let_def)
    moreover have "need E (bpages s1) k (Suc h) (if k \<le> sep then cur else q) = (fst (need E (bpages s) k h ?c), 0)"
      using route same small [OF u1] \<open>q \<notin> set (pids (bpages s) (Suc h) cur)\<close>
      by (cases "k \<le> sep") (auto simp: Let_def s1_def)
    ultimately show ?thesis unfolding split_need_def by blast
  qed
  ultimately show ?thesis by blast
qed

lemma lb_take_drop:
  assumes "sorted_wrt (<) xs"
  shows "lb (take (lb xs k) xs) k = lb xs k" and "lb (drop (lb xs k) xs) k = 0"
proof -
  have "\<forall>x\<in>set (take (lb xs k) xs). x < k" using take_lb_less by blast
  then have "takeWhile (\<lambda>x. x < k) (take (lb xs k) xs) = take (lb xs k) xs" by (simp add: takeWhile_eq_all_conv)
  then have "lb (take (lb xs k) xs) k = length (take (lb xs k) xs)" unfolding lb_def [of "take _ _"] by (rule arg_cong)
  then show "lb (take (lb xs k) xs) k = lb xs k" using lb_le [of xs k] by simp
  show "lb (drop (lb xs k) xs) k = 0"
    using drop_lb_ge [OF assms, of _ k] by (cases "drop (lb xs k) xs") (auto simp: lb_def [of "_ # _"] lb_def [of "[]"] not_less)
qed

text \<open>The separator goes into an inner parent with room.\<close>

lemma add_separator_inner:
  assumes t: "tree_ok (leafMax E) (innerMax E) (bpages s) (Suc h) lo hi p" and p: "bpages s p = Some (InnerPage n)"
    and d: "distinct (pids (bpages s) (Suc h) p)" and i: "i \<le> icount n" and fr: "free_ok s"
    and room: "\<not> inner_isFull (innerMax E) n" and pe: "p \<noteq> e"
    and S: "split_post E h (clo lo (inner_keys n) i) (chi hi (inner_keys n) i) (inner_children n ! i) s sep q s1"
  shows "\<exists>n'. add_separator E e p sep (inner_children n ! i) q s1 = Inr (setPage p (InnerPage n') s1)
     \<and> step_post E (Suc h) lo hi p s (setPage p (InnerPage n') s1) (kvs (bpages s) (Suc h) p)
     \<and> (i = lb (inner_keys n) k \<longrightarrow> split_need E k h (inner_children n ! i) s sep q s1 \<longrightarrow>
          need_dec E k (Suc h) p s (setPage p (InnerPage n') s1))"
proof -
  let ?c = "inner_children n ! i" and ?ks = "inner_keys n"
  have H: "halves (leafMax E) (innerMax E) (bpages s) (bpages s1) h (clo lo ?ks i) (chi hi ?ks i) ?c sep q"
    and fq: "bfree s = q # bfree s1" and nd: "bnode s1 = bnode s"
    and agree: "\<And>x. x \<notin> set (pids (bpages s) h ?c) \<Longrightarrow> x \<noteq> q \<Longrightarrow> bpages s1 x = bpages s x"
    using S by (auto simp: split_post_def)
  have ok: "inner_ok (innerMax E) n" and srt: "sorted_wrt (<) ?ks" using t p by (simp_all add: inner_ok_def)
  have len: "length ?ks = icount n" "length (inner_children n) = icount n + 1"
    using ok by (simp_all add: length_inner_keys length_inner_children)
  have pos: "lb ?ks sep = i" "sep \<notin> set ?ks"
    using sep_position [OF srt, of i lo sep hi] i len H by (simp_all add: halves_def)
  have qn: "q \<notin> set (pids (bpages s) (Suc h) p)" using free_not_in_tree [OF fr t] fq by auto
  have cmem: "?c \<in> set (kids (bpages s) p)" using p i len by (simp add: kids_def)
  have "p \<notin> set (pids (bpages s) h ?c)" using d cmem by auto
  then have p1: "bpages s1 p = Some (InnerPage n)" using agree [of p] qn p by auto
  have "icount n < innerMax E - 1" using ok room by (auto simp: inner_ok_def inner_isFull_def)
  then obtain n' where n': "inner_insert (innerMax E) sep q n = Inr n'" "inner_ok (innerMax E) n'" "icount n' = icount n + 1"
      "inner_keys n' = take i ?ks @ sep # drop i ?ks"
      "inner_children n' = take (Suc i) (inner_children n) @ q # drop (Suc i) (inner_children n)"
    using inner_insert_ok [OF ok _ pos(2), of q] pos(1) by auto
  note R = parent_gets_half [OF t p i d refl qn agree H n'(2,4,5)]
  let ?s2 = "setPage p (InnerPage n') s1"
  have "add_separator E e p sep ?c q s1 = Inr ?s2"
    using pe p1 n'(1) by (simp add: add_separator_def as_inner_def)
  moreover have "step_post E (Suc h) lo hi p s ?s2 (kvs (bpages s) (Suc h) p)"
  proof -
    have "bpages ?s2 x = bpages s x" if "x \<notin> set (pids (bpages s) (Suc h) p) \<union> set [q]" for x
      using that agree [of x] pids_kid [OF cmem, of h] by (auto simp: setPage_def)
    moreover have "bfree s = [q] @ bfree ?s2" "bnode ?s2 = bnode s" "bpages ?s2 = (bpages s1)(p \<mapsto> InnerPage n')"
      using fq nd by (simp_all add: setPage_def)
    ultimately show ?thesis
      unfolding step_post_def using R by (intro conjI exI [of _ "[q]"]) auto
  qed
  moreover have "need_dec E k (Suc h) p s ?s2" if ik: "i = lb ?ks k" and N: "split_need E k h ?c s sep q s1"
  proof -
    let ?c' = "if k \<le> sep then ?c else q"
    obtain t where nt: "need E (bpages s) k h ?c = (Suc t, 1)" "need E (bpages s1) k h ?c' = (t, 0)"
      using N by (auto simp: split_need_def)
    have srt': "sorted_wrt (<) (take i ?ks @ sep # drop i ?ks)" using n'(2,4) by (simp add: inner_ok_def)
    have kp: "lb (take i ?ks) k = i" "lb (drop i ?ks) k = 0"
      using lb_take_drop [OF srt, of k] ik by simp_all
    have "inner_children n' ! lb (inner_keys n') k = ?c'"
      using lb_split [OF srt', of k] kp i len unfolding n'(4,5) by (simp add: nth_append)
    moreover have "need E (bpages ?s2) k h ?c' = need E (bpages s1) k h ?c'"
    proof -
      have "set (pids (bpages s1) h ?c) \<union> set (pids (bpages s1) h q) = insert q (set (pids (bpages s) h ?c))"
        using H by (simp add: halves_def)
      then have "p \<notin> set (pids (bpages s1) h ?c')" using \<open>p \<notin> set (pids (bpages s) h ?c)\<close> qn by auto
      then have "\<forall>x\<in>set (pids (bpages s1) h ?c'). bpages ?s2 x = bpages s1 x" by (auto simp: setPage_def)
      moreover have "\<exists>lo hi. tree_ok (leafMax E) (innerMax E) (bpages s1) h lo hi ?c'"
        using H by (auto simp: halves_def)
      ultimately show ?thesis using need_frame by blast
    qed
    moreover have "bpages ?s2 p = Some (InnerPage n')" by (simp add: setPage_def)
    ultimately show ?thesis
      using p nt n'(3) ik by (simp add: need_dec_def Let_def)
  qed
  ultimately show ?thesis using n' by blast
qed

section \<open>The descent\<close>

lemma leaf_insert_step:
  assumes t: "tree_ok (leafMax E) (innerMax E) (bpages s) 0 lo hi cur" and cur: "bpages s cur = Some (LeafPage l)"
    and room: "\<not> leaf_isFull (leafMax E) l" and k: "gt_lo lo k" "le_hi hi k"
  shows "\<exists>l'. leaf_insert k v l = Inr l'
     \<and> step_post E 0 lo hi cur s (setPage cur (LeafPage l') s) (kv_upd k v (kvs (bpages s) 0 cur))"
proof -
  have ok: "leaf_ok (leafMax E) l" "\<forall>x\<in>set (leaf_keys l). gt_lo lo x \<and> le_hi hi x"
      "fence_is (lowerF (lfences l)) lo" "fence_is (upperF (lfences l)) hi"
    using t cur by simp_all
  have "lcount l < leafMax E" using ok(1) room by (simp add: leaf_ok_def leaf_isFull_def)
  then obtain l' where l': "leaf_insert k v l = Inr l'" "leaf_ok (leafMax E) l'" "leaf_kvs l' = kv_upd k v (leaf_kvs l)"
      "lfences l' = lfences l"
    using leaf_insert_ok [OF ok(1)] by blast
  have "sorted_wrt (<) (map fst (leaf_kvs l))" using ok(1) map_fst_leaf_kvs [OF ok(1)] by (simp add: leaf_ok_def)
  then have "fst ` set (leaf_kvs l') = insert k (fst ` set (leaf_kvs l))" using l'(3) kv_upd_sorted_map(3) by metis
  then have "set (leaf_keys l') = insert k (set (leaf_keys l))"
    using map_fst_leaf_kvs [OF l'(2)] map_fst_leaf_kvs [OF ok(1)] by (metis list.set_map)
  then have "step_post E 0 lo hi cur s (setPage cur (LeafPage l') s) (kv_upd k v (kvs (bpages s) 0 cur))"
    using l' ok k cur by (auto simp: step_post_def setPage_def)
  with l'(1) show ?thesis by blast
qed

lemma route_child:
  assumes t: "tree_ok lm im m (Suc h) lo hi p" and p: "m p = Some (InnerPage n)" and k: "gt_lo lo k" "le_hi hi k"
  defines "i \<equiv> lb (inner_keys n) k"
  shows "i \<le> icount n" and "inner_lowerBoundBF n k = i" and "inner_lowerBound n k = i"
    and "array_get (ichildren n) i = Inr (inner_children n ! i)"
    and "tree_ok lm im m h (clo lo (inner_keys n) i) (chi hi (inner_keys n) i) (inner_children n ! i)"
    and "gt_lo (clo lo (inner_keys n) i) k" and "le_hi (chi hi (inner_keys n) i) k"
    and "inner_children n ! i \<in> set (kids m p)"
proof -
  have ok: "inner_ok im n" and f: "forest_ok (tree_ok lm im m h) lo (inner_keys n) (inner_children n) hi"
    using t p by simp_all
  have len: "length (inner_keys n) = icount n" "length (inner_children n) = icount n + 1"
    using ok by (simp_all add: length_inner_keys length_inner_children)
  show i: "i \<le> icount n" using lb_le [of "inner_keys n" k] len by (simp add: i_def)
  show "inner_lowerBoundBF n k = i" "inner_lowerBound n k = i"
    using ok by (simp_all add: i_def inner_lowerBoundBF_lb inner_lowerBound_lb)
  show "array_get (ichildren n) i = Inr (inner_children n ! i)"
    using i ok by (auto simp: array_get_def inner_children_def inner_ok_def)
  show "tree_ok lm im m h (clo lo (inner_keys n) i) (chi hi (inner_keys n) i) (inner_children n ! i)"
    using forest_nth [OF f, of i] i len by simp
  show "gt_lo (clo lo (inner_keys n) i) k" "le_hi (chi hi (inner_keys n) i) k"
    unfolding i_def using route_bounds [of "inner_keys n" lo k hi] forest_keys [OF f] k by simp_all
  show "inner_children n ! i \<in> set (kids m p)" using i len p by (simp add: kids_def)
qed

lemma distinct_kid: "distinct (pids m (Suc h) p) \<Longrightarrow> c \<in> set (kids m p) \<Longrightarrow> distinct (pids m h c)"
  by (auto simp: distinct_concat_iff)

lemma kv_upd_in_child:
  assumes t: "tree_ok lm im m (Suc h) lo hi p" and p: "m p = Some (InnerPage n)" and i: "i \<le> icount n"
    and k: "gt_lo (clo lo (inner_keys n) i) k" "le_hi (chi hi (inner_keys n) i) k"
  shows "concat (map (kvs m h) (take i (inner_children n))) @ kv_upd k v (kvs m h (inner_children n ! i))
      @ concat (map (kvs m h) (drop (Suc i) (inner_children n))) = kv_upd k v (kvs m (Suc h) p)"
    and "concat (map (kvs m h) (take i (inner_children n))) @ kv_del k (kvs m h (inner_children n ! i))
      @ concat (map (kvs m h) (drop (Suc i) (inner_children n))) = kv_del k (kvs m (Suc h) p)"
    and "concat (map (kvs m h) (take i (inner_children n))) @ kvs m h (inner_children n ! i)
      @ concat (map (kvs m h) (drop (Suc i) (inner_children n))) = kvs m (Suc h) p"
proof -
  let ?A = "concat (map (kvs m h) (take i (inner_children n)))" and ?B = "concat (map (kvs m h) (drop (Suc i) (inner_children n)))"
  note * = kv_upd_focus [OF kvs_outside_key [OF t p i k]] kv_del_focus [OF kvs_outside_key [OF t p i k]]
  have "inner_ok im n" using t p by simp
  then show eq: "?A @ kvs m h (inner_children n ! i) @ ?B = kvs m (Suc h) p"
    using concat_focus [of i "inner_children n" "kvs m h"] i p by (simp add: kids_def length_inner_children)
  show "?A @ kv_upd k v (kvs m h (inner_children n ! i)) @ ?B = kv_upd k v (kvs m (Suc h) p)"
    "?A @ kv_del k (kvs m h (inner_children n ! i)) @ ?B = kv_del k (kvs m (Suc h) p)"
    unfolding eq [symmetric] * by simp_all
qed

text \<open>One descent from \<open>cur\<close> downwards: it restarts without a visible effect, completes the update, or
  splits \<open>cur\<close> and hands the separator to the parent.\<close>

lemma insert_walk_ok:
  assumes E: "env_ok E" and fr: "free_ok s" and ne: "bfree s \<noteq> []"
    and t: "tree_ok (leafMax E) (innerMax E) (bpages s) h lo hi cur" and d: "distinct (pids (bpages s) h cur)"
    and e: "e \<notin> set (pids (bpages s) h cur)" and k: "gt_lo lo k" "le_hi hi k"
  shows "(\<exists>s'. insert_walk E rt k v e lvl h par cur s = Inr (Restart s') \<and> step_post E h lo hi cur s s' (kvs (bpages s) h cur)
          \<and> (\<not> clean rt \<and> s' = s \<or> need_dec E k h cur s s'))
     \<or> (\<exists>s'. insert_walk E rt k v e lvl h par cur s = Inr (Done s' ()) \<and> step_post E h lo hi cur s s' (kv_upd k v (kvs (bpages s) h cur)))
     \<or> (\<exists>sep q s1. split_post E h lo hi cur s sep q s1 \<and> split_need E k h cur s sep q s1 \<and>
          insert_walk E rt k v e lvl h par cur s = bind_r (add_separator E e par sep cur q s1) (\<lambda>s. Inr (Restart s)))"
    (is "?restart lvl h par cur lo hi \<or> ?done lvl h par cur lo hi \<or> ?split lvl h par cur lo hi")
  using t d e k
proof (induction h arbitrary: lvl par cur lo hi)
  case 0
  from "0.prems"(1) obtain l where l: "bpages s cur = Some (LeafPage l)" by (rule tree_ok_0E)
  note refl0 = step_post_refl [OF "0.prems"(1,2)]
  consider "rt 0 1 \<or> rt 0 2 \<or> leaf_isFull (leafMax E) l \<and> rt 0 3"
    | (full) "\<not> rt 0 1" "\<not> rt 0 2" "\<not> rt 0 3" "leaf_isFull (leafMax E) l"
    | (ins) "\<not> rt 0 1" "\<not> rt 0 2" "\<not> leaf_isFull (leafMax E) l" by blast
  then show ?case
  proof cases
    case 1
    then have "insert_walk E rt k v e lvl 0 par cur s = Inr (Restart s)" "\<not> clean rt"
      using l by (auto simp: insert_leaf_def clean_def)
    then show ?thesis using refl0 by blast
  next
    case full
    obtain sep q s1 where sp: "split_leaf_page E cur l s = Inr (sep, q, s1)" "split_post E 0 lo hi cur s sep q s1"
        "split_need E k 0 cur s sep q s1"
      using split_leaf_page_ok [OF E "0.prems"(1) l full(4) fr ne] by blast
    then have "insert_walk E rt k v e lvl 0 par cur s = bind_r (add_separator E e par sep cur q s1) (\<lambda>s. Inr (Restart s))"
      using full l by (simp add: insert_leaf_def)
    with sp(2,3) show ?thesis by blast
  next
    case ins
    obtain l' where l': "leaf_insert k v l = Inr l'"
        "step_post E 0 lo hi cur s (setPage cur (LeafPage l') s) (kv_upd k v (kvs (bpages s) 0 cur))"
      using leaf_insert_step [OF "0.prems"(1) l ins(3) "0.prems"(4,5)] by blast
    then have "insert_walk E rt k v e lvl 0 par cur s = Inr (Done (setPage cur (LeafPage l') s) ())"
      using ins l by (simp add: insert_leaf_def)
    with l'(2) show ?thesis by blast
  qed
next
  case (Suc h)
  let ?walk = "insert_walk E rt k v e lvl (Suc h) par cur s"
  from Suc.prems(1) obtain n where n: "bpages s cur = Some (InnerPage n)" by (rule tree_ok_SucE)
  note refl0 = step_post_refl [OF Suc.prems(1,2)]
  define i where "i = lb (inner_keys n) k"
  define c where "c = inner_children n ! i"
  note rc = route_child [OF Suc.prems(1) n Suc.prems(4,5), folded i_def, folded c_def]
  have walk: "?walk = (if rt (Suc lvl) 0 \<or> rt (Suc lvl) 1 then Inr (Restart s)
      else if inner_isFull (innerMax E) n then
        (if rt (Suc lvl) 2 \<or> rt (Suc lvl) 3 then Inr (Restart s)
         else bind_r (split_inner_page E cur n s) (\<lambda>(sep, new, s).
              bind_r (add_separator E e par sep cur new s) (\<lambda>s. Inr (Restart s))))
      else if rt (Suc lvl) 4 \<or> rt (Suc lvl) 5 then Inr (Restart s)
      else insert_walk E rt k v e (lvl + 1) h cur c s)"
    using n rc(2,4) by simp
  consider (retry) "?walk = Inr (Restart s)" "\<not> clean rt"
    | (full) "\<not> (rt (Suc lvl) 0 \<or> rt (Suc lvl) 1)" "\<not> (rt (Suc lvl) 2 \<or> rt (Suc lvl) 3)" "inner_isFull (innerMax E) n"
    | (down) "\<not> inner_isFull (innerMax E) n" "?walk = insert_walk E rt k v e (lvl + 1) h cur c s"
    unfolding walk clean_def by metis
  then show ?case
  proof cases
    case retry
    then show ?thesis using refl0 by blast
  next
    case full
    obtain sep q s1 where sp: "split_inner_page E cur n s = Inr (sep, q, s1)" "split_post E (Suc h) lo hi cur s sep q s1"
        "split_need E k (Suc h) cur s sep q s1"
      using split_inner_page_ok [OF E Suc.prems(1) n full(3) Suc.prems(2) fr ne] by blast
    then have "?walk = bind_r (add_separator E e par sep cur q s1) (\<lambda>s. Inr (Restart s))"
      using full n by simp
    with sp(2,3) show ?thesis by blast
  next
    case down
    have dc: "distinct (pids (bpages s) h c)" "e \<notin> set (pids (bpages s) h c)" "cur \<noteq> e"
      using distinct_kid [OF Suc.prems(2) rc(8)] pids_kid [OF rc(8), of h] Suc.prems(3) by auto
    note lift = step_post_lift [OF Suc.prems(1) n Suc.prems(2) rc(1) fr, folded c_def]
    note con = kv_upd_in_child [OF Suc.prems(1) n rc(1,6,7), folded c_def]
    from Suc.IH [OF rc(5) dc(1,2) rc(6,7), of "lvl + 1" cur]
    consider (r) "?restart (lvl + 1) h cur c (clo lo (inner_keys n) i) (chi hi (inner_keys n) i)"
      | (dn) "?done (lvl + 1) h cur c (clo lo (inner_keys n) i) (chi hi (inner_keys n) i)"
      | (sp) "?split (lvl + 1) h cur c (clo lo (inner_keys n) i) (chi hi (inner_keys n) i)" by blast
    then show ?thesis
    proof cases
      case r
      then obtain s' where s': "insert_walk E rt k v e (lvl + 1) h cur c s = Inr (Restart s')"
          "step_post E h (clo lo (inner_keys n) i) (chi hi (inner_keys n) i) c s s' (kvs (bpages s) h c)"
          "\<not> clean rt \<and> s' = s \<or> need_dec E k h c s s'" by blast
      have "need_dec E k (Suc h) cur s s'" if "need_dec E k h c s s'"
        using that lift [OF s'(2)] n by (simp add: need_dec_def Let_def c_def i_def)
      then show ?thesis using lift [OF s'(2)] con(3) down(2) s' by auto
    next
      case dn
      then show ?thesis using lift con(1) down(2) by (metis (no_types, lifting))
    next
      case sp
      then obtain sep q s1 where sp: "split_post E h (clo lo (inner_keys n) i) (chi hi (inner_keys n) i) c s sep q s1"
          "split_need E k h c s sep q s1" "?walk = bind_r (add_separator E e cur sep c q s1) (\<lambda>s. Inr (Restart s))" using down(2) by metis
      obtain s2 where "add_separator E e cur sep c q s1 = Inr s2" "step_post E (Suc h) lo hi cur s s2 (kvs (bpages s) (Suc h) cur)"
          "need_dec E k (Suc h) cur s s2"
        using add_separator_inner [OF Suc.prems(1) n Suc.prems(2) rc(1) fr down(1) dc(3), folded c_def, OF sp(1), of k]
          sp(2) i_def by blast
      then show ?thesis using sp(3) by simp
    qed
  qed
qed

section \<open>Whole attempts\<close>

lemma free_ok_step:
  assumes fr: "free_ok s" and t: "tree_ok lm im (bpages s) h lo hi p" and F: "bfree s = F @ bfree s'"
    and o: "\<forall>q. q \<notin> set (pids (bpages s) h p) \<union> set F \<longrightarrow> bpages s' q = bpages s q"
  shows "free_ok s'"
proof -
  have "bpages s' q = None" if q: "q \<in> set (bfree s')" for q
  proof -
    have "q \<in> set (bfree s)" "q \<notin> set F" using q fr F by (auto simp: free_ok_def)
    moreover from this have "q \<notin> set (pids (bpages s) h p)" using free_not_in_tree [OF fr t] by blast
    ultimately show ?thesis using o fr by (auto simp: free_ok_def)
  qed
  then show ?thesis using fr F by (simp add: free_ok_def)
qed

lemma bt_ok_step:
  assumes fr: "free_ok s" and e: "bpages s e = Some (EntryPage root h)"
    and t: "tree_ok (leafMax E) (innerMax E) (bpages s) h None None root" and en: "e \<notin> set (pids (bpages s) h root)"
    and S: "step_post E h None None root s s' X"
  shows "bt_ok E e s' \<and> bt_kvs e s' = X \<and> length (bfree s) \<le> length (bfree s') + 1
     \<and> bpages s' e = Some (EntryPage root h)"
proof -
  obtain F where F: "bfree s = F @ bfree s'" "length F \<le> 1"
      "set (pids (bpages s') h root) \<subseteq> set (pids (bpages s) h root) \<union> set F"
      "\<forall>q. q \<notin> set (pids (bpages s) h root) \<union> set F \<longrightarrow> bpages s' q = bpages s q"
    using S by (auto simp: step_post_def)
  have "e \<notin> set F" using fr F(1) e by (force simp: free_ok_def)
  then have "bpages s' e = Some (EntryPage root h)" "e \<notin> set (pids (bpages s') h root)" using F(3,4) en e by auto
  moreover have "free_ok s'" using free_ok_step [OF fr t F(1,4)] .
  ultimately show ?thesis using S F(1,2) by (simp add: step_post_def bt_ok_def bt_kvs_def)
qed

lemma make_root_ok:
  assumes E: "env_ok E" and fr: "free_ok s" and e: "bpages s e = Some (EntryPage root h)"
    and t: "tree_ok (leafMax E) (innerMax E) (bpages s) h None None root"
    and en: "e \<notin> set (pids (bpages s) h root)" and S: "split_post E h None None root s sep q s1"
    and two: "2 \<le> length (bfree s)"
  shows "\<exists>s2 r n'. add_separator E e e sep root q s1 = Inr s2 \<and> bt_ok E e s2 \<and> bt_kvs e s2 = bt_kvs e s
     \<and> bfree s = q # r # bfree s2 \<and> bpages s2 e = Some (EntryPage r (Suc h)) \<and> bpages s2 r = Some (InnerPage n')
     \<and> icount n' = 1 \<and> inner_keys n' = [sep] \<and> inner_children n' = [root, q]
     \<and> (\<forall>x \<in> set (pids (bpages s1) h root) \<union> set (pids (bpages s1) h q). bpages s2 x = bpages s1 x)"
proof -
  have H: "halves (leafMax E) (innerMax E) (bpages s) (bpages s1) h None None root sep q"
    and fq: "bfree s = q # bfree s1" and agree: "\<forall>x. x \<notin> set (pids (bpages s) h root) \<and> x \<noteq> q \<longrightarrow> bpages s1 x = bpages s x"
    using S by (auto simp: split_post_def)
  obtain r rs where r: "bfree s1 = r # rs" using two fq by (cases "bfree s1") auto
  have free: "q \<notin> set (r # rs)" "distinct (r # rs)" "bpages s q = None" "\<forall>x\<in>set (r # rs). bpages s x = None"
    using fr fq r by (auto simp: free_ok_def)
  have out: "q \<notin> set (pids (bpages s) h root)" "\<forall>x\<in>set (r # rs). x \<notin> set (pids (bpages s) h root)"
    using free_not_in_tree [OF fr t] fq r by auto
  have s1r: "bpages s1 x = bpages s x" if "x \<in> set (r # rs) \<or> x = e" for x
    using agree that out en e free by auto
  obtain jk ks cs where j: "junkInner E r = (jk, ks, cs)" by (metis prod_cases3)
  have len: "length ks = innerMax E" "length cs = innerMax E" "5 \<le> innerMax E"
    using new_inner_lengths [OF E j] E by (simp_all add: env_ok_def)
  define n' where "n' = (new_BTreeInner jk ks cs)\<lparr>icount := 1, ikeys := ks[0 := sep], ichildren := cs[0 := root, 1 := q]\<rparr>"
  define s2 where "s2 = s1\<lparr>bfree := rs, bpages := (bpages s1)(r \<mapsto> InnerPage n', e \<mapsto> EntryPage r (Suc h))\<rparr>"
  have re: "r \<noteq> e" using free(4) e by auto
  have "makeRoot E sep root q e s1 = Inr s2"
    using r j len s1r e re unfolding makeRoot_def allocate_inner_def alloc_pid_def
    by (simp add: Let_def setPage_def as_entry_def s2_def n'_def) (simp add: new_BTreeInner_def)
  then have add: "add_separator E e e sep root q s1 = Inr s2" by (simp add: add_separator_def)
  obtain k0 ks' where ks: "ks = k0 # ks'" using len by (cases ks) auto
  obtain c0 c1 cs' where cs: "cs = c0 # c1 # cs'" using len(2,3) by (cases cs; cases "tl cs") auto
  have n': "inner_ok (innerMax E) n'" "inner_keys n' = [sep]" "inner_children n' = [root, q]" "icount n' = 1"
    using len by (auto simp: n'_def inner_ok_def inner_keys_def inner_children_def ks cs)
  let ?P = "set (pids (bpages s1) h root) \<union> set (pids (bpages s1) h q)"
  have Ps: "?P = insert q (set (pids (bpages s) h root))" using H by (simp add: halves_def)
  have sub: "\<forall>x\<in>?P. bpages s2 x = bpages s1 x"
    unfolding Ps using out free en e by (auto simp: s2_def)
  have fsub: "\<forall>x\<in>set (pids (bpages s1) h root). bpages s2 x = bpages s1 x" "\<forall>x\<in>set (pids (bpages s1) h q). bpages s2 x = bpages s1 x"
    using sub by auto
  note fa = frame_subtree [OF fsub(1)] and fb = frame_subtree [OF fsub(2)]
  have pg: "bpages s2 e = Some (EntryPage r (Suc h))" "bpages s2 r = Some (InnerPage n')" "bfree s2 = rs"
    using re by (simp_all add: s2_def)
  then have kd: "kids (bpages s2) r = [root, q]" using n' by (simp add: kids_def)
  have "tree_ok (leafMax E) (innerMax E) (bpages s2) (Suc h) None None r"
    using pg n' fa(3) fb(3) H by (simp add: halves_def)
  moreover have "distinct (e # pids (bpages s2) (Suc h) r)"
  proof -
    have "r \<notin> ?P" "e \<notin> ?P" unfolding Ps using out free en e by auto
    then show ?thesis using H kd fa(1) fb(1) re by (auto simp: halves_def)
  qed
  moreover have "free_ok s2"
    using free s1r re e unfolding free_ok_def pg(3) by (auto simp: s2_def)
  ultimately have "bt_ok E e s2" using pg by (simp add: bt_ok_def)
  moreover have "bt_kvs e s2 = bt_kvs e s"
    using pg e kd fa(2) fb(2) H by (simp add: bt_kvs_def halves_def)
  ultimately show ?thesis
    using add fq r pg n' sub by (intro exI [of _ s2] exI [of _ r] exI [of _ n']) simp
qed

definition bt_need :: "('k::linorder, 'v) benv \<Rightarrow> 'k \<Rightarrow> PID \<Rightarrow> ('k, 'v) bstore \<Rightarrow> nat" where
  "bt_need E k e s = (case bpages s e of Some (EntryPage root h) \<Rightarrow> fst (need E (bpages s) k h root) | _ \<Rightarrow> 0)"

definition bt_height :: "PID \<Rightarrow> ('k, 'v) bstore \<Rightarrow> nat" where
  "bt_height e s = (case bpages s e of Some (EntryPage root h) \<Rightarrow> h | _ \<Rightarrow> 0)"

lemma bt_need_le: "bt_need E k e s \<le> bt_height e s + 1"
  using need_bound by (auto simp: bt_need_def bt_height_def split: option.split page.split)

lemma make_root_need:
  assumes E: "env_ok E" and e: "bpages s e = Some (EntryPage root h)" and N: "split_need E k h root s sep q s1"
    and S: "split_post E h None None root s sep q s1"
    and s2: "bpages s2 e = Some (EntryPage r (Suc h))" "bpages s2 r = Some (InnerPage n')"
      "icount n' = 1" "inner_keys n' = [sep]" "inner_children n' = [root, q]"
      "\<forall>x \<in> set (pids (bpages s1) h root) \<union> set (pids (bpages s1) h q). bpages s2 x = bpages s1 x"
  shows "bt_need E k e s = Suc (bt_need E k e s2)"
proof -
  let ?c = "if k \<le> sep then root else q"
  obtain t where t: "need E (bpages s) k h root = (Suc t, 1)" "need E (bpages s1) k h ?c = (t, 0)"
    using N by (auto simp: split_need_def)
  have "\<exists>lo hi. tree_ok (leafMax E) (innerMax E) (bpages s1) h lo hi ?c"
    using S by (auto simp: split_post_def halves_def)
  moreover have "\<forall>x \<in> set (pids (bpages s1) h ?c). bpages s2 x = bpages s1 x" using s2(6) by auto
  ultimately have "need E (bpages s2) k h ?c = (t, 0)" using need_frame t(2) by metis
  moreover have "inner_children n' ! lb (inner_keys n') k = ?c" using s2(4,5) by (simp add: lb_def)
  moreover have "5 \<le> innerMax E" using E by (simp add: env_ok_def)
  then have "\<not> innerMax E - 1 \<le> 1" by simp
  ultimately show ?thesis using t(1) e s2 by (simp add: bt_need_def Let_def)
qed

lemma insert_attempt_ok:
  assumes E: "env_ok E" and ok: "bt_ok E e s" and two: "2 \<le> length (bfree s)"
  shows "\<exists>s'. bt_ok E e s' \<and> length (bfree s) \<le> length (bfree s') + 2 \<and>
     (insert_attempt E rt k v e s = Inr (Restart s') \<and> bt_kvs e s' = bt_kvs e s
        \<and> (\<not> clean rt \<and> s' = s \<or> bt_need E k e s = Suc (bt_need E k e s'))
      \<or> insert_attempt E rt k v e s = Inr (Done s' ()) \<and> bt_kvs e s' = kv_upd k v (bt_kvs e s))"
proof (cases "rt 0 0")
  case True
  then have "insert_attempt E rt k v e s = Inr (Restart s)" "\<not> clean rt" by (auto simp add: insert_attempt_def clean_def)
  then show ?thesis using ok by (intro exI [of _ s]) simp
next
  case False
  from ok obtain root h where b: "bpages s e = Some (EntryPage root h)"
      "tree_ok (leafMax E) (innerMax E) (bpages s) h None None root" "distinct (pids (bpages s) h root)"
      "e \<notin> set (pids (bpages s) h root)" "free_ok s" by (rule bt_okE)
  have ne: "bfree s \<noteq> []" using two by auto
  have kv: "bt_kvs e s = kvs (bpages s) h root" using b(1) by (simp add: bt_kvs_def)
  let ?walk = "insert_walk E rt k v e 0 h e root s"
  have at: "insert_attempt E rt k v e s = ?walk"
    using False b(1) by (simp add: insert_attempt_def as_entry_def)
  note st = bt_ok_step [OF b(5,1,2,4)]
  from insert_walk_ok [OF E b(5) ne b(2-4), of k rt v 0 e]
  consider (r) s' where "?walk = Inr (Restart s')" "step_post E h None None root s s' (kvs (bpages s) h root)"
      "\<not> clean rt \<and> s' = s \<or> need_dec E k h root s s'"
    | (d) s' where "?walk = Inr (Done s' ())" "step_post E h None None root s s' (kv_upd k v (kvs (bpages s) h root))"
    | (sp) sep q s1 where "split_post E h None None root s sep q s1" "split_need E k h root s sep q s1"
        "?walk = bind_r (add_separator E e e sep root q s1) (\<lambda>s. Inr (Restart s))"
    using range_simps(1,3) by blast
  then show ?thesis
  proof cases
    case r
    have "bt_need E k e s = Suc (bt_need E k e s')" if "need_dec E k h root s s'"
      using that b(1) st [OF r(2)] by (auto simp: need_dec_def bt_need_def)
    then show ?thesis using st [OF r(2)] at kv r by (intro exI [of _ s']) auto
  next
    case d
    then show ?thesis using st [OF d(2)] at kv by (intro exI [of _ s']) simp
  next
    case sp
    obtain s2 r n' where s2: "add_separator E e e sep root q s1 = Inr s2" "bt_ok E e s2" "bt_kvs e s2 = bt_kvs e s"
        "bfree s = q # r # bfree s2" "bpages s2 e = Some (EntryPage r (Suc h))" "bpages s2 r = Some (InnerPage n')"
        "icount n' = 1" "inner_keys n' = [sep]" "inner_children n' = [root, q]"
        "\<forall>x \<in> set (pids (bpages s1) h root) \<union> set (pids (bpages s1) h q). bpages s2 x = bpages s1 x"
      using make_root_ok [OF E b(5,1,2,4) sp(1) two] by blast
    have "bt_need E k e s = Suc (bt_need E k e s2)"
      by (rule make_root_need [OF E b(1) sp(2,1) s2(5-10)])
    then show ?thesis using sp(3) at s2(1-4) by (intro exI [of _ s2]) simp
  qed
qed

lemma insert_attempt_cases:
  assumes "env_ok E" and "bt_ok E e s" and "2 \<le> length (bfree s)"
  obtains (restart) s' where "insert_attempt E rt k v e s = Inr (Restart s')" "bt_ok E e s'" "bt_kvs e s' = bt_kvs e s"
      "length (bfree s) \<le> length (bfree s') + 2" "\<not> clean rt \<and> s' = s \<or> bt_need E k e s = Suc (bt_need E k e s')"
    | (completed) s' where "insert_attempt E rt k v e s = Inr (Done s' ())" "bt_ok E e s'" "bt_kvs e s' = kv_upd k v (bt_kvs e s)"
  using insert_attempt_ok [OF assms, of rt k v] by blast

lemma bt_insert_safe:
  assumes "env_ok E" and "bt_ok E e s" and "2 * length rts \<le> length (bfree s)"
    and "bt_insert E rts k v e s = Some r"
  shows "\<exists>s'. r = Inr s' \<and> bt_ok E e s' \<and> bt_kvs e s' = kv_upd k v (bt_kvs e s)"
  using assms
proof (induction rts arbitrary: s)
  case (Cons rt rts)
  then have two: "2 \<le> length (bfree s)" by simp
  show ?case
  proof (rule insert_attempt_cases [OF Cons.prems(1,2) two, of rt k v], goal_cases)
    case (1 s')
    then show ?case using Cons.IH [OF Cons.prems(1) 1(2)] Cons.prems(3,4) by simp
  next
    case (2 s')
    then show ?case using Cons.prems(4) by auto
  qed
qed simp

text \<open>Only an attempt without a failing check can be relied on to make progress; each of those either
  completes or uses up one of the splits still needed.\<close>

lemma bt_insert_returns:
  assumes "env_ok E" and "bt_ok E e s" and "2 * length rts \<le> length (bfree s)"
    and "bt_need E k e s < length (filter clean rts)"
  shows "bt_insert E rts k v e s \<noteq> None"
  using assms
proof (induction rts arbitrary: s)
  case (Cons rt rts)
  then have two: "2 \<le> length (bfree s)" by simp
  show ?case
  proof (rule insert_attempt_cases [OF Cons.prems(1,2) two, of rt k v], goal_cases)
    case (1 s')
    then have "bt_need E k e s' < length (filter clean rts)" using Cons.prems(4) by (auto split: if_splits)
    then show ?case using Cons.IH [OF Cons.prems(1) 1(2)] Cons.prems(3) 1 by simp
  next
    case (2 s')
    then show ?case by simp
  qed
qed simp

end
