(* ===== verification/BTree_Ops.thy ===== *)
theory BTree_Ops
  imports BTree_Insert
begin

text \<open>
  Correctness of construction, lookups, in-place updates and removal: the descent ends at the leaf
  responsible for the key, and a change of that leaf (or of its parent, when leaves merge) is a point
  update of the tree's contents.
\<close>

section \<open>Following a key down the tree\<close>

fun down :: "('k::linorder, 'v) pages \<Rightarrow> 'k \<Rightarrow> nat \<Rightarrow> PID \<Rightarrow> PID" where
  "down m k 0 p = p"
| "down m k (Suc n) p = (case m p of
     Some (InnerPage i) \<Rightarrow> down m k n (inner_children i ! lb (inner_keys i) k) | _ \<Rightarrow> p)"

text \<open>A change confined to the pages of one subtree.\<close>

definition sub_post ::
  "('k::linorder, 'v) benv \<Rightarrow> nat \<Rightarrow> 'k option \<Rightarrow> 'k option \<Rightarrow> PID \<Rightarrow> ('k, 'v) bstore \<Rightarrow> ('k, 'v) bstore \<Rightarrow> ('k \<times> 'v) list \<Rightarrow> bool" where
  "sub_post E h lo hi p s s' X \<longleftrightarrow>
     tree_ok (leafMax E) (innerMax E) (bpages s') h lo hi p \<and> distinct (pids (bpages s') h p)
     \<and> kvs (bpages s') h p = X \<and> set (pids (bpages s') h p) \<subseteq> set (pids (bpages s) h p)
     \<and> (\<forall>q. q \<notin> set (pids (bpages s) h p) \<longrightarrow> bpages s' q = bpages s q)"

lemma sub_post_lift:
  assumes t: "tree_ok (leafMax E) (innerMax E) (bpages s) (Suc h) lo hi p" and p: "bpages s p = Some (InnerPage n)"
    and d: "distinct (pids (bpages s) (Suc h) p)" and i: "i \<le> icount n"
    and S: "sub_post E h (clo lo (inner_keys n) i) (chi hi (inner_keys n) i) (inner_children n ! i) s s' X"
  shows "sub_post E (Suc h) lo hi p s s' (concat (map (kvs (bpages s) h) (take i (inner_children n))) @ X
     @ concat (map (kvs (bpages s) h) (drop (Suc i) (inner_children n))))"
proof -
  let ?c = "inner_children n ! i"
  have agree: "\<And>q. q \<notin> set (pids (bpages s) h ?c) \<Longrightarrow> q \<notin> {} \<Longrightarrow> bpages s' q = bpages s q"
    and t': "tree_ok (leafMax E) (innerMax E) (bpages s') h (clo lo (inner_keys n) i) (chi hi (inner_keys n) i) ?c"
    and d': "distinct (pids (bpages s') h ?c)" and X: "kvs (bpages s') h ?c = X"
    and sub: "set (pids (bpages s') h ?c) \<subseteq> set (pids (bpages s) h ?c) \<union> {}"
    using S by (auto simp: sub_post_def)
  note R = replace_child [OF t p i d refl agree _ t' d' sub]
  have cmem: "?c \<in> set (kids (bpages s) p)"
    using t p i length_inner_children [of "innerMax E" n] by (simp add: kids_def)
  then have "\<forall>q. q \<notin> set (pids (bpages s) (Suc h) p) \<longrightarrow> bpages s' q = bpages s q"
    using agree pids_kid [OF cmem, of h] by blast
  then show ?thesis
    using R(1,2,3,5) X unfolding sub_post_def by simp
qed

lemma down_lift:
  assumes "tree_ok (leafMax E) (innerMax E) (bpages s) (n + h) lo hi p" and "distinct (pids (bpages s) (n + h) p)"
    and "gt_lo lo k" and "le_hi hi k"
  shows "\<exists>lo' hi' A B. let q = down (bpages s) k n p in
     tree_ok (leafMax E) (innerMax E) (bpages s) h lo' hi' q \<and> distinct (pids (bpages s) h q)
     \<and> gt_lo lo' k \<and> le_hi hi' k \<and> set (pids (bpages s) h q) \<subseteq> set (pids (bpages s) (n + h) p)
     \<and> (\<forall>a\<in>fst ` set A. a < k) \<and> (\<forall>b\<in>fst ` set B. k < b)
     \<and> kvs (bpages s) (n + h) p = A @ kvs (bpages s) h q @ B
     \<and> (\<forall>s' X. sub_post E h lo' hi' q s s' X \<longrightarrow> sub_post E (n + h) lo hi p s s' (A @ X @ B))"
  using assms
proof (induction n arbitrary: lo hi p)
  case 0
  then show ?case by (intro exI [of _ lo] exI [of _ hi] exI [of _ "[]"]) (simp add: Let_def)
next
  case (Suc n)
  have t: "tree_ok (leafMax E) (innerMax E) (bpages s) (Suc (n + h)) lo hi p" and d: "distinct (pids (bpages s) (Suc (n + h)) p)"
    using Suc.prems by simp_all
  from t obtain i where i: "bpages s p = Some (InnerPage i)" by (rule tree_ok_SucE)
  define j where "j = lb (inner_keys i) k"
  define c where "c = inner_children i ! j"
  note rc = route_child [OF t i Suc.prems(3,4), folded j_def, folded c_def]
  let ?q = "down (bpages s) k n c"
  obtain lo' hi' A B where IH: "tree_ok (leafMax E) (innerMax E) (bpages s) h lo' hi' ?q" "distinct (pids (bpages s) h ?q)"
     "gt_lo lo' k" "le_hi hi' k" "set (pids (bpages s) h ?q) \<subseteq> set (pids (bpages s) (n + h) c)"
     "\<forall>a\<in>fst ` set A. a < k" "\<forall>b\<in>fst ` set B. k < b" "kvs (bpages s) (n + h) c = A @ kvs (bpages s) h ?q @ B"
     "\<forall>s' X. sub_post E h lo' hi' ?q s s' X \<longrightarrow>
        sub_post E (n + h) (clo lo (inner_keys i) j) (chi hi (inner_keys i) j) c s s' (A @ X @ B)"
    using Suc.IH [OF rc(5) distinct_kid [OF d rc(8)] rc(6,7)] by (auto simp: Let_def)
  let ?A = "concat (map (kvs (bpages s) (n + h)) (take j (inner_children i)))"
    and ?B = "concat (map (kvs (bpages s) (n + h)) (drop (Suc j) (inner_children i)))"
  note out = kvs_outside_key [OF t i rc(1,6,7)]
  have down: "down (bpages s) k (Suc n) p = ?q" using i by (simp add: c_def j_def)
  have "kvs (bpages s) (Suc (n + h)) p = (?A @ A) @ kvs (bpages s) h ?q @ (B @ ?B)"
    using kv_upd_in_child(3) [OF t i rc(1,6,7)] IH(8) by (simp add: c_def)
  moreover have "sub_post E (Suc (n + h)) lo hi p s s' ((?A @ A) @ X @ (B @ ?B))" if "sub_post E h lo' hi' ?q s s' X" for s' X
    using sub_post_lift [OF t i d rc(1), folded c_def] IH(9) that by fastforce
  moreover have "set (pids (bpages s) h ?q) \<subseteq> set (pids (bpages s) (Suc (n + h)) p)"
    using IH(5) pids_kid [OF rc(8), of "n + h"] by blast
  moreover have "\<forall>a\<in>fst ` set (?A @ A). a < k" "\<forall>b\<in>fst ` set (B @ ?B). k < b"
    using out IH(6,7) unfolding set_append image_Un by blast+
  ultimately show ?case
    using IH(1-4) unfolding down Let_def add_Suc by (intro exI [of _ lo'] exI [of _ hi'] exI [of _ "?A @ A"] exI [of _ "B @ ?B"]) blast
qed

lemma map_of_focus:
  assumes "\<forall>a\<in>fst ` set A. a < k" and "\<forall>b\<in>fst ` set B. (k::'k::linorder) < b"
  shows "map_of (A @ X @ B) k = map_of X k"
proof -
  have "k \<notin> fst ` set A" "k \<notin> fst ` set B" using assms by auto
  then have "map_of A k = None" "map_of B k = None" by (simp_all add: map_of_eq_None_iff)
  then show ?thesis by (simp add: map_add_def split: option.split)
qed

section \<open>The descents\<close>

lemma lookup_walk_ok:
  assumes "tree_ok lm im (bpages s) h lo hi cur" and "gt_lo lo k" and "le_hi hi k"
  shows "lookup_walk rt k lvl h par cur s = Inr None \<and> \<not> clean rt
     \<or> (\<exists>par'. lookup_walk rt k lvl h par cur s = Inr (Some (par', down (bpages s) k h cur)))"
  using assms
proof (induction h arbitrary: lvl par cur lo hi)
  case (Suc h)
  from Suc.prems(1) obtain n where n: "bpages s cur = Some (InnerPage n)" by (rule tree_ok_SucE)
  note rc = route_child [OF Suc.prems(1) n Suc.prems(2,3)]
  from Suc.IH [OF rc(5-7), of "lvl + 1" cur] show ?case
    using n rc(2,4) by (auto simp: clean_def)
qed simp

lemma type_walk_ok:
  assumes "tree_ok lm im (bpages s) h lo hi cur" and "gt_lo lo k" and "le_hi hi k" and "h < f"
  shows "type_walk rt (\<lambda>inner. inner_lowerBound inner k) f lvl par cur s = Some (Inr None) \<and> \<not> clean rt
     \<or> type_walk rt (\<lambda>inner. inner_lowerBound inner k) f lvl par cur s
         = Some (Inr (Some (if h = 0 then par else down (bpages s) k (h - 1) cur, down (bpages s) k h cur)))"
  using assms
proof (induction h arbitrary: f lvl par cur lo hi)
  case 0
  then obtain f' where f: "f = Suc f'" by (cases f) auto
  from "0.prems"(1) obtain l where "bpages s cur = Some (LeafPage l)" by (rule tree_ok_0E)
  then show ?case by (simp add: f)
next
  case (Suc h)
  then obtain f' where f: "f = Suc f'" by (cases f) auto
  from Suc.prems(1) obtain n where n: "bpages s cur = Some (InnerPage n)" by (rule tree_ok_SucE)
  note rc = route_child [OF Suc.prems(1) n Suc.prems(2,3)]
  have "h < f'" using Suc.prems(4) f by simp
  from Suc.IH [OF rc(5-7) this, of "lvl + 1" cur] show ?case
    using n rc(3,4) f by (cases h) (auto simp: clean_def)
qed

section \<open>Lookups\<close>

lemma leaf_probe:
  fixes k :: "'k::linorder"
  assumes ok: "leaf_ok lm l"
  defines "pos \<equiv> leaf_lowerBound l k"
  shows "map_of (leaf_kvs l) k = Some v \<Longrightarrow> pos < lcount l \<and> lkeys l ! pos = k \<and> array_get (lpayloads l) pos = Inr v"
    and "map_of (leaf_kvs l) k = None \<Longrightarrow> \<not> (pos < lcount l \<and> lkeys l ! pos = k)"
proof -
  have len: "length (leaf_keys l) = lcount l" "length (leaf_vals l) = lcount l" "lcount l \<le> lm" "length (lpayloads l) = lm"
    and srt: "sorted_wrt (<) (leaf_keys l)"
    using length_leaf_keys [OF ok] length_leaf_vals [OF ok] ok by (simp_all add: leaf_ok_def)
  have dist: "distinct (leaf_keys l)" using srt by (simp add: strict_sorted_iff)
  have nth: "leaf_kvs l ! i = (lkeys l ! i, lpayloads l ! i)" "leaf_keys l ! i = lkeys l ! i" if "i < lcount l" for i
    using that len by (simp_all add: leaf_kvs_def leaf_keys_def leaf_vals_def)
  {
    assume "map_of (leaf_kvs l) k = Some v"
    then have "(k, v) \<in> set (leaf_kvs l)" by (rule map_of_SomeD)
    then obtain i where i: "i < lcount l" "leaf_kvs l ! i = (k, v)"
      using length_leaf_kvs [OF ok] by (metis in_set_conv_nth)
    then have ki: "leaf_keys l ! i = k" using nth by simp
    have "lb (leaf_keys l) k = i"
      using sorted_nth_less [OF srt, of _ i] i(1) len by (intro lb_unique) (auto simp: ki)
    then have "pos = i" using i ok by (simp add: pos_def leaf_lowerBound_lb)
    then show "pos < lcount l \<and> lkeys l ! pos = k \<and> array_get (lpayloads l) pos = Inr v"
      using i nth len by simp
  next
    assume none: "map_of (leaf_kvs l) k = None"
    show "\<not> (pos < lcount l \<and> lkeys l ! pos = k)"
    proof
      assume "pos < lcount l \<and> lkeys l ! pos = k"
      then have "k \<in> set (leaf_keys l)" using nth(2) len by (metis nth_mem)
      then show False using none map_fst_leaf_kvs [OF ok] by (metis list.set_map map_of_eq_None_iff)
    qed
  }
qed

text \<open>The descent of the lookups on a well-formed tree: a restart, or the leaf whose contents decide
  about \<open>k\<close>.\<close>

lemma lookup_descend_ok:
  assumes "bt_ok E e s"
  obtains (restart) "lookup_descend rt k e s = Inr None" "\<not> clean rt"
    | (leaf) par cur l where "lookup_descend rt k e s = Inr (Some (par, cur))" "bpages s cur = Some (LeafPage l)"
        "leaf_ok (leafMax E) l" "map_of (leaf_kvs l) k = bt_map e s k"
        "\<And>l' v. leaf_ok (leafMax E) l' \<Longrightarrow> leaf_keys l' = leaf_keys l \<Longrightarrow> lfences l' = lfences l \<Longrightarrow>
           leaf_kvs l' = kv_upd k v (leaf_kvs l) \<Longrightarrow>
           bt_ok E e (setPage cur (LeafPage l') s) \<and> bt_kvs e (setPage cur (LeafPage l') s) = kv_upd k v (bt_kvs e s)"
proof -
  from assms obtain root h where b: "bpages s e = Some (EntryPage root h)"
      "tree_ok (leafMax E) (innerMax E) (bpages s) h None None root" "distinct (pids (bpages s) h root)"
      "e \<notin> set (pids (bpages s) h root)" "free_ok s" by (rule bt_okE)
  show thesis
  proof (cases "rt 0 0")
    case True
    then show thesis using restart by (auto simp: lookup_descend_def clean_def)
  next
    case False
    then have at: "lookup_descend rt k e s = lookup_walk rt k 0 h e root s"
      using b(1) by (simp add: lookup_descend_def as_entry_def)
    let ?q = "down (bpages s) k h root"
    from lookup_walk_ok [OF b(2), of k rt 0 e] at
    consider "lookup_descend rt k e s = Inr None" "\<not> clean rt" | par where "lookup_descend rt k e s = Inr (Some (par, ?q))"
      by auto
    then show thesis
    proof cases
      case 1
      then show thesis by (rule restart)
    next
      case 2
      obtain lo hi A B where D: "tree_ok (leafMax E) (innerMax E) (bpages s) 0 lo hi ?q"
          "gt_lo lo k" "le_hi hi k" "set (pids (bpages s) 0 ?q) \<subseteq> set (pids (bpages s) h root)"
          "\<forall>a\<in>fst ` set A. a < k" "\<forall>b\<in>fst ` set B. k < b" "kvs (bpages s) h root = A @ kvs (bpages s) 0 ?q @ B"
          "\<And>s' X. sub_post E 0 lo hi ?q s s' X \<Longrightarrow> sub_post E h None None root s s' (A @ X @ B)"
        using down_lift [of E s h 0 None None root k] b(2,3) by (auto simp: Let_def)
      from D(1) obtain l where l: "bpages s ?q = Some (LeafPage l)" "leaf_ok (leafMax E) l"
          "\<forall>k\<in>set (leaf_keys l). gt_lo lo k \<and> le_hi hi k" "fence_is (lowerF (lfences l)) lo" "fence_is (upperF (lfences l)) hi"
        by (rule tree_ok_0E)
      have mp: "map_of (leaf_kvs l) k = bt_map e s k"
        using map_of_focus [OF D(5,6), of "leaf_kvs l"] D(7) l(1) b(1) by (simp add: bt_map_def bt_kvs_def)
      show thesis
      proof (rule leaf [OF 2 l(1,2) mp])
        fix l' v assume l': "leaf_ok (leafMax E) l'" "leaf_keys l' = leaf_keys l" "lfences l' = lfences l"
          "leaf_kvs l' = kv_upd k v (leaf_kvs l)"
        let ?s' = "setPage ?q (LeafPage l') s"
        have "sub_post E 0 lo hi ?q s ?s' (kv_upd k v (leaf_kvs l))"
          using l l' by (simp add: sub_post_def setPage_def)
        then have S: "sub_post E h None None root s ?s' (kv_upd k v (bt_kvs e s))"
          using D(8) kv_upd_focus [OF D(5,6), of v "leaf_kvs l"] D(7) l(1) b(1) by (simp add: bt_kvs_def)
        have "?q \<noteq> e" using D(4) b(4) by auto
        then have "bpages ?s' e = Some (EntryPage root h)" using b(1) by (simp add: setPage_def)
        moreover have "free_ok ?s'" using b(5) l(1) by (auto simp: free_ok_def setPage_def)
        ultimately show "bt_ok E e ?s' \<and> bt_kvs e ?s' = kv_upd k v (bt_kvs e s)"
          using S b(4) by (auto simp: bt_ok_def bt_kvs_def sub_post_def)
      qed
    qed
  qed
qed

lemma lookup_attempt_ok:
  assumes "bt_ok E e s"
  shows "lookup_attempt rt k e s = Inr (Restart ()) \<and> \<not> clean rt
     \<or> (case bt_map e s k of Some v \<Rightarrow> lookup_attempt rt k e s = Inr (Done () v)
         | None \<Rightarrow> \<exists>err. lookup_attempt rt k e s = Inl err)"
proof (rule lookup_descend_ok [OF assms, of rt k], goal_cases)
  case 1
  then show ?case by (simp add: lookup_attempt_def)
next
  case (2 par cur l)
  show ?case
  proof (cases "rt 0 1 \<or> rt 0 2")
    case True
    then show ?thesis using 2(1,2) by (auto simp: lookup_attempt_def as_leaf_def clean_def)
  next
    case False
    then show ?thesis
    proof (cases "bt_map e s k")
      case None
      then show ?thesis
        using leaf_probe(2) [OF 2(3), of k] 2(1,2,4) False
        by (auto simp: lookup_attempt_def as_leaf_def Let_def array_get_def)
    next
      case (Some v)
      then show ?thesis
        using leaf_probe(1) [OF 2(3), of k v] 2(1,2,4) False by (simp add: lookup_attempt_def as_leaf_def Let_def)
    qed
  qed
qed

lemma bt_lookup_ok:
  assumes "bt_ok E e s" and "bt_lookup rts k e s = Some r"
  shows "case bt_map e s k of Some v \<Rightarrow> r = Inr v | None \<Rightarrow> \<exists>err. r = Inl err"
  using assms(2)
proof (induction rts)
  case (Cons rt rts)
  then show ?case using lookup_attempt_ok [OF assms(1), of rt k] by (auto split: option.splits)
qed simp

lemma bt_lookup_returns:
  assumes "bt_ok E e s" and "\<exists>rt\<in>set rts. clean rt"
  shows "bt_lookup rts k e s \<noteq> None"
  using assms(2)
proof (induction rts)
  case (Cons rt rts)
  then show ?case using lookup_attempt_ok [OF assms(1), of rt k] by (force split: option.splits)
qed simp

section \<open>In-place updates\<close>

lemma leaf_update_value:
  fixes w :: 'v and l :: "('k::linorder, 'v) BTreeLeaf"
  assumes ok: "leaf_ok lm l" and hit: "map_of (leaf_kvs l) k = Some v"
  defines "pos \<equiv> leaf_lowerBound l k"
  defines "l' \<equiv> l\<lparr>lpayloads := (lpayloads l)[pos := w]\<rparr>"
  shows "leaf_ok lm l'" and "leaf_keys l' = leaf_keys l" and "lfences l' = lfences l"
    and "leaf_kvs l' = kv_upd k w (leaf_kvs l)"
proof -
  have pos: "pos < lcount l" "lkeys l ! pos = k" using leaf_probe(1) [OF ok hit] by (simp_all add: pos_def)
  have fst: "map fst (leaf_kvs l) = leaf_keys l" by (rule map_fst_leaf_kvs [OF ok])
  show "leaf_ok lm l'" "leaf_keys l' = leaf_keys l" "lfences l' = lfences l"
    using ok by (simp_all add: l'_def leaf_ok_def leaf_keys_def)
  have "leaf_keys l ! pos = k" using pos by (simp add: leaf_keys_def)
  then have "zip (leaf_keys l) ((leaf_vals l)[pos := w]) = (leaf_kvs l)[pos := (k, w)]"
    using update_zip [of "leaf_keys l" "leaf_vals l" pos "(k, w)"] list_update_id [of "leaf_keys l" pos]
    by (simp add: leaf_kvs_def)
  moreover have "leaf_vals l' = (leaf_vals l)[pos := w]" "leaf_keys l' = leaf_keys l"
    by (simp_all add: l'_def leaf_vals_def leaf_keys_def take_update_swap)
  moreover have "k \<in> fst ` set (leaf_kvs l)" using hit by (metis domI dom_map_of_conv_image_fst)
  moreover have "lb (map fst (leaf_kvs l)) k = pos" using fst pos ok by (simp add: pos_def leaf_lowerBound_lb)
  ultimately show "leaf_kvs l' = kv_upd k w (leaf_kvs l)" by (simp add: leaf_kvs_def [of l'] kv_upd_def)
qed

lemma lookupAndUpdate_attempt_ok:
  assumes ok: "bt_ok E e s"
  shows "lookupAndUpdate_attempt rt k f e s = Inr (Restart ()) \<and> \<not> clean rt
     \<or> (case bt_map e s k of
           Some v \<Rightarrow> \<exists>s'. lookupAndUpdate_attempt rt k f e s = Inr (Done () s') \<and> bt_ok E e s'
              \<and> bt_kvs e s' = kv_upd k (f v) (bt_kvs e s)
         | None \<Rightarrow> lookupAndUpdate_attempt rt k f e s = Inl Ensure_failed)"
proof (rule lookup_descend_ok [OF ok, of rt k], goal_cases)
  case 1
  then show ?case by (simp add: lookupAndUpdate_attempt_def)
next
  case (2 par cur l)
  show ?case
  proof (cases "rt 0 1 \<or> rt 0 2")
    case True
    then show ?thesis using 2(1,2) by (auto simp: lookupAndUpdate_attempt_def clean_def)
  next
    case False
    then show ?thesis
    proof (cases "bt_map e s k")
      case None
      then show ?thesis
        using leaf_probe(2) [OF 2(3), of k] 2(1,2,4) False by (auto simp: lookupAndUpdate_attempt_def Let_def)
    next
      case (Some v)
      let ?pos = "leaf_lowerBound l k"
      let ?l' = "l\<lparr>lpayloads := (lpayloads l)[?pos := f v]\<rparr>"
      have hit: "map_of (leaf_kvs l) k = Some v" using 2(4) Some by simp
      have p: "?pos < lcount l" "lkeys l ! ?pos = k" "array_get (lpayloads l) ?pos = Inr v"
        using leaf_probe(1) [OF 2(3) hit] by simp_all
      then have "array_set (lpayloads l) ?pos (f v) = Inr ((lpayloads l)[?pos := f v])"
        by (auto simp: array_get_def array_set_def split: if_splits)
      then have "lookupAndUpdate_attempt rt k f e s = Inr (Done () (setPage cur (LeafPage ?l') s))"
        using p 2(1,2) False by (simp add: lookupAndUpdate_attempt_def Let_def)
      moreover have "bt_ok E e (setPage cur (LeafPage ?l') s) \<and> bt_kvs e (setPage cur (LeafPage ?l') s) = kv_upd k (f v) (bt_kvs e s)"
        by (rule 2(5)) (use leaf_update_value [OF 2(3) hit, of "f v"] in simp_all)
      ultimately show ?thesis using Some by auto
    qed
  qed
qed

lemma bt_lookupAndUpdate_ok:
  assumes ok: "bt_ok E e s" and r: "bt_lookupAndUpdate rts k f e s = Some r"
  shows "case bt_map e s k of
       Some v \<Rightarrow> \<exists>s'. r = Inr s' \<and> bt_ok E e s' \<and> bt_kvs e s' = kv_upd k (f v) (bt_kvs e s)
     | None \<Rightarrow> r = Inl Ensure_failed"
  using r
proof (induction rts)
  case (Cons rt rts)
  then show ?case using lookupAndUpdate_attempt_ok [OF ok, of rt k f] by (auto split: option.splits)
qed simp

lemma bt_lookupAndUpdate_returns:
  assumes "bt_ok E e s" and "\<exists>rt\<in>set rts. clean rt"
  shows "bt_lookupAndUpdate rts k f e s \<noteq> None"
  using assms(2)
proof (induction rts)
  case (Cons rt rts)
  then show ?case using lookupAndUpdate_attempt_ok [OF assms(1), of rt k f] by (force split: option.splits)
qed simp

end
