(* ===== verification/BTree_Remove.thy ===== *)
theory BTree_Remove
  imports BTree_Ops
begin

text \<open>
  Correctness of removal, including the merge of an underfull leaf with its right sibling, and of the
  construction of an empty tree.
\<close>

section \<open>Merging leaves\<close>

lemma merge_leaf_ok:
  assumes l: "leaf_ok lm l" and r: "leaf_ok lm r" and fit: "lcount l + lcount r < lm"
    and ord: "\<forall>x\<in>set (leaf_keys l). \<forall>y\<in>set (leaf_keys r). x < y"
  shows "\<exists>l'. merge_leaf l r = Inr l' \<and> leaf_ok lm l' \<and> leaf_kvs l' = leaf_kvs l @ leaf_kvs r
     \<and> lfences l' = \<lparr>lowerF = lowerF (lfences l), upperF = upperF (lfences r)\<rparr>"
proof -
  have len: "length (lkeys l) = lm" "length (lpayloads l) = lm" "length (lkeys r) = lm" "length (lpayloads r) = lm"
      "lcount r \<le> lm"
    using l r by (simp_all add: leaf_ok_def)
  let ?ks = "take (lcount l) (lkeys l) @ take (lcount r) (lkeys r) @ drop (lcount l + lcount r) (lkeys l)"
  let ?vs = "take (lcount l) (lpayloads l) @ take (lcount r) (lpayloads r) @ drop (lcount l + lcount r) (lpayloads l)"
  define l' where "l' = (leaf_setFences (getLower (lfences l)) (getUpper (lfences r)) l)\<lparr>lkeys := ?ks, lpayloads := ?vs, lcount := lcount l + lcount r\<rparr>"
  have "merge_leaf l r = Inr l'"
    using len fit by (simp add: merge_leaf_def memcpy_Inr leaf_setFences_def l'_def)
  moreover have k: "leaf_keys l' = leaf_keys l @ leaf_keys r" "leaf_vals l' = leaf_vals l @ leaf_vals r"
    using len fit by (simp_all add: l'_def leaf_keys_def leaf_vals_def)
  moreover have "sorted_wrt (<) (leaf_keys l @ leaf_keys r)"
    using l r ord by (simp add: sorted_wrt_append leaf_ok_def)
  then have "leaf_ok lm l'" using len fit k by (simp add: leaf_ok_def l'_def)
  moreover have "leaf_kvs l' = leaf_kvs l @ leaf_kvs r"
    using k l by (simp add: leaf_kvs_def length_leaf_keys length_leaf_vals)
  ultimately show ?thesis by (simp add: l'_def leaf_setFences_def getLower_def getUpper_def)
qed

lemma forest_merge:
  assumes "forest_ok P lo ks cs hi" and "i < length ks" and "Q (clo lo ks i) (chi hi ks (Suc i)) (cs ! i)"
    and "\<And>lo hi b. b \<in> set (take i cs) \<union> set (drop (Suc (Suc i)) cs) \<Longrightarrow> P lo hi b \<Longrightarrow> Q lo hi b"
  shows "forest_ok Q lo (take i ks @ drop (Suc i) ks) (take (Suc i) cs @ drop (Suc (Suc i)) cs) hi"
  using assms
proof (induction P lo ks cs hi arbitrary: i rule: forest_ok.induct)
  case (2 P lo k ks b cs hi)
  show ?case
  proof (cases i)
    case 0
    show ?thesis
    proof (cases ks)
      case Nil
      with "2.prems"(1) have "length cs = 1" using forest_length by fastforce
      then obtain c where "cs = [c]" by (auto simp: length_Suc_conv)
      with Nil 0 "2.prems"(3) show ?thesis by simp
    next
      case (Cons k2 ks2)
      with "2.prems"(1) obtain c1 cs2 where cs: "cs = c1 # cs2" by (cases cs) auto
      have "forest_ok Q (Some k2) ks2 cs2 hi"
        by (rule forest_mono [of P]) (use "2.prems" 0 Cons cs in auto)
      moreover have "gt_lo lo k2" using "2.prems"(1) Cons cs gt_lo_trans [of lo k k2] by (simp add: less_imp_le)
      ultimately show ?thesis using "2.prems" 0 Cons cs by simp
    qed
  next
    case (Suc j)
    have "forest_ok Q (Some k) (take j ks @ drop (Suc j) ks) (take (Suc j) cs @ drop (Suc (Suc j)) cs) hi"
      by (rule "2.IH") (use "2.prems" Suc in auto)
    moreover have "Q lo (Some k) b" using "2.prems" Suc by auto
    ultimately show ?thesis using "2.prems"(1) Suc by simp
  qed
qed auto

lemma leaf_remove_step:
  assumes l: "leaf_ok lm l" "\<forall>x\<in>set (leaf_keys l). gt_lo lo x \<and> le_hi hi x"
      "fence_is (lowerF (lfences l)) lo" "fence_is (upperF (lfences l)) hi"
  shows "\<exists>l'. leaf_remove k l = Inr (map_of (leaf_kvs l) k \<noteq> None, l') \<and> leaf_kvs l' = kv_del k (leaf_kvs l)
     \<and> leaf_ok lm l' \<and> (\<forall>x\<in>set (leaf_keys l'). gt_lo lo x \<and> le_hi hi x)
     \<and> fence_is (lowerF (lfences l')) lo \<and> fence_is (upperF (lfences l')) hi"
proof -
  obtain l' where l': "leaf_remove k l = Inr (k \<in> set (leaf_keys l), l')" "leaf_ok lm l'"
      "leaf_kvs l' = kv_del k (leaf_kvs l)" "lfences l' = lfences l"
    using leaf_remove_ok [OF l(1)] by blast
  have keys: "set (leaf_keys x) = fst ` set (leaf_kvs x)" if "leaf_ok lm x" for x :: "('a, 'b) BTreeLeaf"
    using map_fst_leaf_kvs [OF that] by (metis list.set_map)
  have "sorted_wrt (<) (map fst (leaf_kvs l))" using l(1) map_fst_leaf_kvs [OF l(1)] by (simp add: leaf_ok_def)
  then have "set (leaf_keys l') \<subseteq> set (leaf_keys l)"
    using kv_del_sorted_map(3) l'(3) keys [OF l(1)] keys [OF l'(2)] by metis
  moreover have "k \<in> set (leaf_keys l) \<longleftrightarrow> map_of (leaf_kvs l) k \<noteq> None"
    using keys [OF l(1)] by (simp add: map_of_eq_None_iff)
  ultimately show ?thesis using l' l by auto
qed

text \<open>Removal without a merge: one leaf changes.\<close>

lemma remove_at_ok:
  assumes t: "tree_ok (leafMax E) (innerMax E) (bpages s) 0 lo hi cur" and cur: "bpages s cur = Some (LeafPage l)"
  shows "\<exists>s'. remove_at k cur l s = Inr (Done s' (map_of (leaf_kvs l) k \<noteq> None))
     \<and> sub_post E 0 lo hi cur s s' (kv_del k (kvs (bpages s) 0 cur)) \<and> bfree s' = bfree s \<and> bnode s' = bnode s"
proof -
  have l: "leaf_ok (leafMax E) l" "\<forall>x\<in>set (leaf_keys l). gt_lo lo x \<and> le_hi hi x"
      "fence_is (lowerF (lfences l)) lo" "fence_is (upperF (lfences l)) hi" using t cur by simp_all
  obtain l' where "leaf_remove k l = Inr (map_of (leaf_kvs l) k \<noteq> None, l')" "leaf_kvs l' = kv_del k (leaf_kvs l)"
     "leaf_ok (leafMax E) l'" "\<forall>x\<in>set (leaf_keys l'). gt_lo lo x \<and> le_hi hi x"
     "fence_is (lowerF (lfences l')) lo" "fence_is (upperF (lfences l')) hi"
    using leaf_remove_step [OF l, of k] by blast
  then show ?thesis using cur by (simp add: remove_at_def sub_post_def setPage_def)
qed

text \<open>Removal with a merge of the \<open>i\<close>-th leaf of \<open>p\<close> and its right sibling: the merged leaf covers both
  ranges.\<close>

lemma merged_leaf:
  assumes f: "forest_ok (tree_ok lm im m 0) lo ks cs hi" and i: "Suc i < length ks"
    and c: "m (cs ! i) = Some (LeafPage l)" and r: "m (cs ! Suc i) = Some (LeafPage rl)"
    and fit: "lcount l + lcount rl < lm"
  shows "\<exists>l1 l2. merge_leaf l rl = Inr l1 \<and> leaf_remove k l1 = Inr (map_of (leaf_kvs l @ leaf_kvs rl) k \<noteq> None, l2)
     \<and> leaf_kvs l2 = kv_del k (leaf_kvs l @ leaf_kvs rl)
     \<and> leaf_ok lm l2 \<and> (\<forall>x\<in>set (leaf_keys l2). gt_lo (clo lo ks i) x \<and> le_hi (chi hi ks (Suc i)) x)
     \<and> fence_is (lowerF (lfences l2)) (clo lo ks i) \<and> fence_is (upperF (lfences l2)) (chi hi ks (Suc i))"
proof -
  have tc: "tree_ok lm im m 0 (clo lo ks i) (chi hi ks i) (cs ! i)"
      "tree_ok lm im m 0 (clo lo ks (Suc i)) (chi hi ks (Suc i)) (cs ! Suc i)"
    using forest_nth [OF f, of i] forest_nth [OF f, of "Suc i"] i by simp_all
  have mid: "chi hi ks i = Some (ks ! i)" "clo lo ks (Suc i) = Some (ks ! i)"
    using i by (simp_all add: chi_def clo_def)
  have srt: "sorted_wrt (<) ks" and rng: "\<forall>x\<in>set ks. gt_lo lo x \<and> lt_hi hi x" using forest_keys [OF f] by simp_all
  have L: "leaf_ok lm l" "\<forall>x\<in>set (leaf_keys l). gt_lo (clo lo ks i) x \<and> x \<le> ks ! i" "fence_is (lowerF (lfences l)) (clo lo ks i)"
    and R: "leaf_ok lm rl" "\<forall>x\<in>set (leaf_keys rl). ks ! i < x \<and> le_hi (chi hi ks (Suc i)) x"
      "fence_is (upperF (lfences rl)) (chi hi ks (Suc i))"
    using tc c r by (simp_all add: mid)
  obtain l1 where l1: "merge_leaf l rl = Inr l1" "leaf_ok lm l1" "leaf_kvs l1 = leaf_kvs l @ leaf_kvs rl"
      "lfences l1 = \<lparr>lowerF = lowerF (lfences l), upperF = upperF (lfences rl)\<rparr>"
    using merge_leaf_ok [OF L(1) R(1) fit] L(2) R(2) by (meson le_less_trans)
  have keys1: "leaf_keys l1 = leaf_keys l @ leaf_keys rl"
    using l1(2,3) L(1) R(1) by (metis map_append map_fst_leaf_kvs)
  have "gt_lo (clo lo ks i) (ks ! i)"
  proof (cases "i = 0")
    case True
    have "ks ! i \<in> set ks" using i by simp
    then show ?thesis using rng True by (auto simp: clo_def)
  qed (use sorted_nth_less [OF srt, of "i - 1" i] i in \<open>simp add: clo_def\<close>)
  then have lo1: "gt_lo (clo lo ks i) x" if "x \<in> set (leaf_keys l1)" for x
    using that L(2) R(2) gt_lo_trans [of "clo lo ks i" "ks ! i" x] by (auto simp: keys1)
  have "le_hi (chi hi ks (Suc i)) (ks ! i)"
    using sorted_nth_less [OF srt, of i "Suc i"] i by (simp add: chi_def)
  then have hi1: "le_hi (chi hi ks (Suc i)) x" if "x \<in> set (leaf_keys l1)" for x
    using that L(2) R(2) le_hi_trans [of "chi hi ks (Suc i)" "ks ! i" x] by (auto simp: keys1)
  show ?thesis
    using leaf_remove_step [OF l1(2), of "clo lo ks i" "chi hi ks (Suc i)" k] lo1 hi1 l1(1,3,4) L(3) R(3) by auto
qed

lemma concat_pids_0 [simp]: "concat (map (pids m 0) xs) = xs"
  by (induction xs) simp_all

lemma pids_1: "pids m (Suc 0) p = p # kids m p"
  by simp

lemma two_at: "Suc i < length xs \<Longrightarrow> xs = take i xs @ xs ! i # xs ! Suc i # drop (Suc (Suc i)) xs"
  by (simp add: Cons_nth_drop_Suc)

lemma merge_sub_post:
  assumes t: "tree_ok lm im m (Suc 0) lo hi p" and p: "m p = Some (InnerPage n)"
    and d: "distinct (pids m (Suc 0) p)" and i: "Suc i < icount n"
    and l2: "leaf_ok lm l2" "\<forall>x\<in>set (leaf_keys l2). gt_lo (clo lo (inner_keys n) i) x \<and> le_hi (chi hi (inner_keys n) (Suc i)) x"
      "fence_is (lowerF (lfences l2)) (clo lo (inner_keys n) i)" "fence_is (upperF (lfences l2)) (chi hi (inner_keys n) (Suc i))"
    and n': "inner_ok im n'" "inner_keys n' = take i (inner_keys n) @ drop (Suc i) (inner_keys n)"
      "inner_children n' = take (Suc i) (inner_children n) @ drop (Suc (Suc i)) (inner_children n)"
    and m': "m' p = Some (InnerPage n')" "m' (inner_children n ! i) = Some (LeafPage l2)"
      "\<And>x. x \<noteq> p \<Longrightarrow> x \<noteq> inner_children n ! i \<Longrightarrow> x \<noteq> inner_children n ! Suc i \<Longrightarrow> m' x = m x"
  shows "tree_ok lm im m' (Suc 0) lo hi p" and "distinct (pids m' (Suc 0) p)"
    and "set (pids m' (Suc 0) p) \<subseteq> set (pids m (Suc 0) p)"
    and "kvs m' (Suc 0) p = concat (map (kvs m 0) (take i (inner_children n))) @ leaf_kvs l2
           @ concat (map (kvs m 0) (drop (Suc (Suc i)) (inner_children n)))"
proof -
  let ?ks = "inner_keys n" and ?cs = "inner_children n"
  let ?lc = "take i ?cs" and ?rc = "drop (Suc (Suc i)) ?cs"
  have ok: "inner_ok im n" and f: "forest_ok (tree_ok lm im m 0) lo ?ks ?cs hi" using t p by simp_all
  have len: "length ?ks = icount n" "length ?cs = icount n + 1"
    using ok by (simp_all add: length_inner_keys length_inner_children)
  have cs: "?cs = ?lc @ ?cs ! i # ?cs ! Suc i # ?rc"
    using i len by (intro two_at) simp
  have cs': "inner_children n' = ?lc @ ?cs ! i # ?rc"
    using n'(3) i len by (simp add: take_Suc_conv_app_nth)
  have kd: "kids m p = ?cs" "kids m' p = ?lc @ ?cs ! i # ?rc" using p m'(1) cs' by (simp_all add: kids_def)
  have dd: "distinct (p # ?lc @ ?cs ! i # ?cs ! Suc i # ?rc)" using d kd(1) cs by (simp add: pids_1)
  have same: "m' b = m b" if "b \<in> set ?lc \<union> set ?rc" for b
    using m'(3) [of b] that dd by auto
  have "forest_ok (tree_ok lm im m' 0) lo (inner_keys n') (inner_children n') hi"
    unfolding n'(2,3)
  proof (rule forest_merge [OF f])
    show "i < length ?ks" using i len by simp
    show "tree_ok lm im m' 0 (clo lo ?ks i) (chi hi ?ks (Suc i)) (?cs ! i)" using l2 m'(2) by simp
    show "tree_ok lm im m' 0 lo' hi' b" if "b \<in> set ?lc \<union> set ?rc" "tree_ok lm im m 0 lo' hi' b" for lo' hi' b
      using that same by simp
  qed
  then show "tree_ok lm im m' (Suc 0) lo hi p" using m'(1) n'(1) by simp
  show "distinct (pids m' (Suc 0) p)" using dd kd(2) by (simp add: pids_1)
  show "set (pids m' (Suc 0) p) \<subseteq> set (pids m (Suc 0) p)"
    unfolding pids_1 kd by (subst (4) cs) auto
  have "map (kvs m' 0) ?lc = map (kvs m 0) ?lc" "map (kvs m' 0) ?rc = map (kvs m 0) ?rc"
    using same by simp_all
  then show "kvs m' (Suc 0) p = concat (map (kvs m 0) ?lc) @ leaf_kvs l2 @ concat (map (kvs m 0) ?rc)"
    using kd(2) m'(2) by (simp del: map_eq_conv)
qed

lemma remove_merge_ok:
  assumes t: "tree_ok (leafMax E) (innerMax E) (bpages s) (Suc 0) lo hi p" and p: "bpages s p = Some (InnerPage n)"
    and d: "distinct (pids (bpages s) (Suc 0) p)" and k: "gt_lo lo k" "le_hi hi k"
    and i: "i = lb (inner_keys n) k" and two: "2 \<le> icount n" "Suc i < icount n"
    and c: "c = inner_children n ! i" "bpages s c = Some (LeafPage l)"
    and r: "q = inner_children n ! Suc i" "bpages s q = Some (LeafPage rl)"
    and fit: "lcount l + lcount rl < leafMax E"
  shows "\<exists>l1 n' s'. merge_leaf l rl = Inr l1 \<and> inner_remove i n = Inr (True, n')
     \<and> remove_at k c l1 (reclaim q (setPage p (InnerPage n') (setPage c (LeafPage l1) s)))
         = Inr (Done s' (map_of (kvs (bpages s) (Suc 0) p) k \<noteq> None))
     \<and> sub_post E (Suc 0) lo hi p s s' (kv_del k (kvs (bpages s) (Suc 0) p))
     \<and> bpages s' q = None \<and> bfree s' = (if getOwner q = bnode s then q # bfree s else bfree s) \<and> q \<in> set (pids (bpages s) (Suc 0) p)"
proof -
  let ?ks = "inner_keys n" and ?cs = "inner_children n" and ?m = "bpages s"
  have ok: "inner_ok (innerMax E) n" and f: "forest_ok (tree_ok (leafMax E) (innerMax E) ?m 0) lo ?ks ?cs hi" using t p by simp_all
  have len: "length ?ks = icount n" "length ?cs = icount n + 1"
    using ok by (simp_all add: length_inner_keys length_inner_children)
  obtain l1 l2 where l: "merge_leaf l rl = Inr l1" "leaf_remove k l1 = Inr (map_of (leaf_kvs l @ leaf_kvs rl) k \<noteq> None, l2)"
     "leaf_kvs l2 = kv_del k (leaf_kvs l @ leaf_kvs rl)"
     and l2: "leaf_ok (leafMax E) l2" "\<forall>x\<in>set (leaf_keys l2). gt_lo (clo lo ?ks i) x \<and> le_hi (chi hi ?ks (Suc i)) x"
     "fence_is (lowerF (lfences l2)) (clo lo ?ks i)" "fence_is (upperF (lfences l2)) (chi hi ?ks (Suc i))"
    using merged_leaf [OF f _ _ _ fit, of i k] two c r len by auto
  obtain n' where n': "inner_remove i n = Inr (True, n')" "inner_ok (innerMax E) n'"
      "inner_keys n' = take i ?ks @ drop (Suc i) ?ks" "inner_children n' = take (Suc i) ?cs @ drop (Suc (Suc i)) ?cs"
    using inner_remove_ok [OF ok _ two(1), of i] two(2) by auto
  let ?s1 = "reclaim q (setPage p (InnerPage n') (setPage c (LeafPage l1) s))"
  let ?s' = "setPage c (LeafPage l2) ?s1"
  have "p \<notin> set ?cs" "distinct ?cs" using d p by (auto simp: pids_1 kids_def)
  moreover have mem: "c \<in> set ?cs" "q \<in> set ?cs" using c r two len by simp_all
  ultimately have ne: "c \<noteq> p" "q \<noteq> p" "c \<noteq> q" using c(1) r(1) two len by (auto simp: nth_eq_iff_index_eq)
  have m': "bpages ?s' p = Some (InnerPage n')" "bpages ?s' c = Some (LeafPage l2)" "bpages ?s' q = None"
      "\<And>x. x \<noteq> p \<Longrightarrow> x \<noteq> c \<Longrightarrow> x \<noteq> q \<Longrightarrow> bpages ?s' x = bpages s x"
      "bfree ?s' = (if getOwner q = bnode s then q # bfree s else bfree s)"
    using ne by (simp_all add: setPage_def reclaim_def Let_def)
  note R = merge_sub_post [where m' = "bpages ?s'", OF t p d two(2) l2 n'(2-4) m'(1), folded c(1) r(1), OF m'(2,4)]
  let ?A = "concat (map (kvs ?m 0) (take i ?cs))" and ?B = "concat (map (kvs ?m 0) (drop (Suc (Suc i)) ?cs))"
  have kv: "kvs ?m (Suc 0) p = ?A @ (leaf_kvs l @ leaf_kvs rl) @ ?B"
  proof -
    have "?cs = take i ?cs @ c # q # drop (Suc (Suc i)) ?cs"
      unfolding c(1) r(1) using two len by (intro two_at) simp
    then have "concat (map (kvs ?m 0) ?cs) = concat (map (kvs ?m 0) (take i ?cs @ c # q # drop (Suc (Suc i)) ?cs))" by simp
    then show ?thesis using p c(2) r(2) by (simp add: kids_def)
  qed
  have sub: "set ?B \<subseteq> set (concat (map (kvs ?m 0) (drop (Suc i) ?cs)))"
    using set_drop_subset_set_drop [of "Suc i" "Suc (Suc i)" ?cs] by auto
  have rb: "gt_lo (clo lo ?ks i) k" "le_hi (chi hi ?ks i) k"
    using route_bounds [of ?ks lo k hi] forest_keys [OF f] k i by simp_all
  have "i \<le> icount n" using two by simp
  note ok = kvs_outside_key [OF t p this rb]
  have out: "\<forall>a\<in>fst ` set ?A. a < k" "\<forall>b\<in>fst ` set ?B. k < b"
    using ok(1) image_mono [OF sub, of fst] ok(2) by blast+
  have "remove_at k c l1 ?s1 = Inr (Done ?s' (map_of (kvs ?m (Suc 0) p) k \<noteq> None))"
    unfolding kv remove_at_def l(2) map_of_focus [OF out] by simp
  moreover have "sub_post E (Suc 0) lo hi p s ?s' (kv_del k (kvs ?m (Suc 0) p))"
  proof -
    have "bpages ?s' x = bpages s x" if "x \<notin> set (pids ?m (Suc 0) p)" for x
      using m'(4) [of x] that mem p by (auto simp: kids_def)
    moreover have "kvs (bpages ?s') (Suc 0) p = kv_del k (kvs ?m (Suc 0) p)"
      using R(4) unfolding l(3) kv kv_del_focus [OF out] .
    ultimately show ?thesis using R(1-3) unfolding sub_post_def by blast
  qed
  moreover have "q \<in> set (pids ?m (Suc 0) p)" using mem p by (simp add: pids_1 kids_def)
  ultimately show ?thesis using l(1) n'(1) m'(3,5) by blast
qed

section \<open>Whole removals\<close>

lemma bt_ok_sub:
  assumes fr: "free_ok s" and e: "bpages s e = Some (EntryPage root h)"
    and t: "tree_ok (leafMax E) (innerMax E) (bpages s) h None None root" and en: "e \<notin> set (pids (bpages s) h root)"
    and S: "sub_post E h None None root s s' X"
    and F: "bfree s' = bfree s \<or> (\<exists>q\<in>set (pids (bpages s) h root). bfree s' = q # bfree s \<and> bpages s' q = None)"
  shows "bt_ok E e s' \<and> bt_kvs e s' = X"
proof -
  have out: "bpages s' q = bpages s q" if "q \<notin> set (pids (bpages s) h root)" for q
    using S that by (simp add: sub_post_def)
  have "q \<notin> set (pids (bpages s) h root)" if "q \<in> set (bfree s)" for q
    using free_not_in_tree [OF fr t] that by blast
  then have "free_ok s'" using F out fr by (auto simp: free_ok_def)
  moreover have "bpages s' e = Some (EntryPage root h)" using out en e by simp
  ultimately show ?thesis using S en by (auto simp: bt_ok_def bt_kvs_def sub_post_def)
qed

lemma bt_ok_at:
  assumes ok: "bt_ok E e s" and e: "bpages s e = Some (EntryPage root (n + h))"
  obtains lo hi A B where
     "tree_ok (leafMax E) (innerMax E) (bpages s) h lo hi (down (bpages s) k n root)"
     "distinct (pids (bpages s) h (down (bpages s) k n root))" "gt_lo lo k" "le_hi hi k"
     "\<forall>a\<in>fst ` set A. a < k" "\<forall>b\<in>fst ` set B. k < b"
     "bt_kvs e s = A @ kvs (bpages s) h (down (bpages s) k n root) @ B"
     "e \<notin> set (pids (bpages s) h (down (bpages s) k n root))"
     "\<And>s' X. sub_post E h lo hi (down (bpages s) k n root) s s' X \<Longrightarrow>
        bfree s' = bfree s \<or> (\<exists>q\<in>set (pids (bpages s) h (down (bpages s) k n root)). bfree s' = q # bfree s \<and> bpages s' q = None) \<Longrightarrow>
        bt_ok E e s' \<and> bt_kvs e s' = A @ X @ B"
proof -
  have b: "tree_ok (leafMax E) (innerMax E) (bpages s) (n + h) None None root" "distinct (pids (bpages s) (n + h) root)"
      "e \<notin> set (pids (bpages s) (n + h) root)" "free_ok s"
    using ok e by (auto simp: bt_ok_def)
  let ?q = "down (bpages s) k n root"
  obtain lo hi A B where D: "tree_ok (leafMax E) (innerMax E) (bpages s) h lo hi ?q" "distinct (pids (bpages s) h ?q)"
      "gt_lo lo k" "le_hi hi k" "set (pids (bpages s) h ?q) \<subseteq> set (pids (bpages s) (n + h) root)"
      "\<forall>a\<in>fst ` set A. a < k" "\<forall>b\<in>fst ` set B. k < b" "kvs (bpages s) (n + h) root = A @ kvs (bpages s) h ?q @ B"
      "\<And>s' X. sub_post E h lo hi ?q s s' X \<Longrightarrow> sub_post E (n + h) None None root s s' (A @ X @ B)"
    using down_lift [OF b(1,2), of k] by (auto simp: Let_def)
  show thesis
  proof (rule that [OF D(1-4) D(6,7)])
    show "bt_kvs e s = A @ kvs (bpages s) h ?q @ B" using D(8) e by (simp add: bt_kvs_def)
    show "e \<notin> set (pids (bpages s) h ?q)" using D(5) b(3) by blast
    fix s' X
    assume S: "sub_post E h lo hi ?q s s' X"
      and F: "bfree s' = bfree s \<or> (\<exists>q\<in>set (pids (bpages s) h ?q). bfree s' = q # bfree s \<and> bpages s' q = None)"
    have "bfree s' = bfree s \<or> (\<exists>q\<in>set (pids (bpages s) (n + h) root). bfree s' = q # bfree s \<and> bpages s' q = None)"
      using F D(5) by blast
    then show "bt_ok E e s' \<and> bt_kvs e s' = A @ X @ B"
      by (rule bt_ok_sub [OF b(4) e b(1,3) D(9) [OF S]])
  qed
qed

definition removed_post :: "('k::linorder, 'v) benv \<Rightarrow> PID \<Rightarrow> 'k \<Rightarrow> ('k, 'v) bstore \<Rightarrow> (('k, 'v) bstore, bool) attempt result \<Rightarrow> bool" where
  "removed_post E e k s res \<longleftrightarrow>
     (\<exists>s'. res = Inr (Done s' (bt_map e s k \<noteq> None)) \<and> bt_ok E e s' \<and> bt_kvs e s' = kv_del k (bt_kvs e s))"

lemma remove_at_root_ok:
  assumes ok: "bt_ok E e s" and e: "bpages s e = Some (EntryPage root h)"
    and l: "bpages s (down (bpages s) k h root) = Some (LeafPage l)"
  shows "removed_post E e k s (remove_at k (down (bpages s) k h root) l s)"
proof -
  let ?c = "down (bpages s) k h root"
  from e have "bpages s e = Some (EntryPage root (h + 0))" by simp
  from ok this show ?thesis
  proof (rule bt_ok_at [of _ _ _ _ _ _ k])
    fix lo hi A B assume D: "tree_ok (leafMax E) (innerMax E) (bpages s) 0 lo hi ?c"
     "\<forall>a\<in>fst ` set A. a < k" "\<forall>b\<in>fst ` set B. k < b" "bt_kvs e s = A @ kvs (bpages s) 0 ?c @ B"
     "\<And>s' X. sub_post E 0 lo hi ?c s s' X \<Longrightarrow>
        bfree s' = bfree s \<or> (\<exists>q\<in>set (pids (bpages s) 0 ?c). bfree s' = q # bfree s \<and> bpages s' q = None) \<Longrightarrow>
        bt_ok E e s' \<and> bt_kvs e s' = A @ X @ B"
    obtain s' where s': "remove_at k ?c l s = Inr (Done s' (map_of (leaf_kvs l) k \<noteq> None))"
        "sub_post E 0 lo hi ?c s s' (kv_del k (kvs (bpages s) 0 ?c))" "bfree s' = bfree s"
      using remove_at_ok [OF D(1) l] by blast
    have "bt_map e s k = map_of (leaf_kvs l) k" using D(4) map_of_focus [OF D(2,3)] l by (simp add: bt_map_def)
    moreover have "bt_ok E e s' \<and> bt_kvs e s' = kv_del k (bt_kvs e s)"
      using D(5) [OF s'(2)] s'(3) D(4) kv_del_focus [OF D(2,3)] by simp
    ultimately show ?thesis using s'(1) by (simp add: removed_post_def)
  qed
qed

lemma down_Suc:
  assumes "tree_ok lm im m (n + Suc h) lo hi p" and "gt_lo lo k" and "le_hi hi k"
    and "m (down m k n p) = Some (InnerPage i)"
  shows "down m k (Suc n) p = inner_children i ! lb (inner_keys i) k"
  using assms
proof (induction n arbitrary: p lo hi)
  case (Suc n)
  have t: "tree_ok lm im m (Suc (n + Suc h)) lo hi p" using Suc.prems(1) by simp
  from t obtain j where j: "m p = Some (InnerPage j)" by (rule tree_ok_SucE)
  note rc = route_child [OF t j Suc.prems(2,3)]
  have "m (down m k n (inner_children j ! lb (inner_keys j) k)) = Some (InnerPage i)" using Suc.prems(4) j by simp
  from Suc.IH [OF rc(5-7) this] show ?case using j by simp
qed simp

text \<open>The leaf part of \<open>remove\<close>, with \<open>par\<close> and \<open>cur\<close> as the descent delivers them.\<close>

lemma remove_leaf_eq:
  assumes l: "bpages s cur = Some (LeafPage l)"
  shows "\<not> (leaf_isUnderflow (leafMax E) l \<and> par \<noteq> e) \<Longrightarrow>
      remove_leaf E rt k e par cur s = (if rt 0 6 \<or> rt 0 7 then Inr (Restart s) else remove_at k cur l s)"
    and "leaf_isUnderflow (leafMax E) l \<and> par \<noteq> e \<Longrightarrow> bpages s par = Some (InnerPage n) \<Longrightarrow>
      array_get (ichildren n) (inner_lowerBound n k + 1) = Inr q \<Longrightarrow> bpages s q = Some (LeafPage rl) \<Longrightarrow>
      remove_leaf E rt k e par cur s =
        (if rt 0 3 \<or> rt 0 4 then Inr (Restart s)
         else if 2 \<le> icount n \<and> inner_lowerBound n k + 1 < icount n then
           (if rt 0 5 then Inr (Restart s)
            else if leafMax E \<le> lcount l + lcount rl then remove_at k cur l s
            else bind_r (merge_leaf l rl) (\<lambda>l'. bind_r (inner_remove (inner_lowerBound n k) n) (\<lambda>(_, n').
                 remove_at k cur l' (reclaim q (setPage par (InnerPage n') (setPage cur (LeafPage l') s))))))
         else remove_at k cur l s)"
    and "leaf_isUnderflow (leafMax E) l \<and> par \<noteq> e \<Longrightarrow> bpages s par = Some (InnerPage n) \<Longrightarrow>
      \<not> (2 \<le> icount n \<and> inner_lowerBound n k + 1 < icount n) \<Longrightarrow>
      remove_leaf E rt k e par cur s = (if rt 0 3 \<or> rt 0 4 then Inr (Restart s) else remove_at k cur l s)"
  using l by (auto simp add: remove_leaf_def as_leaf_def as_inner_def Let_def)

lemma remove_leaf_under_ok:
  assumes ok: "bt_ok E e s" and e: "bpages s e = Some (EntryPage root (n + Suc 0))"
    and par: "par = down (bpages s) k n root" and cur: "cur = down (bpages s) k (Suc n) root"
    and l: "bpages s cur = Some (LeafPage l)" and under: "leaf_isUnderflow (leafMax E) l \<and> par \<noteq> e"
    and plain: "removed_post E e k s (remove_at k cur l s)"
  shows "remove_leaf E rt k e par cur s = Inr (Restart s) \<and> \<not> clean rt \<or> removed_post E e k s (remove_leaf E rt k e par cur s)"
  using ok e
proof (rule bt_ok_at [of _ _ _ _ _ _ k], unfold par [symmetric])
  fix lo hi A B assume D: "tree_ok (leafMax E) (innerMax E) (bpages s) (Suc 0) lo hi par"
    "distinct (pids (bpages s) (Suc 0) par)" "gt_lo lo k" "le_hi hi k" "\<forall>a\<in>fst ` set A. a < k" "\<forall>b\<in>fst ` set B. k < b"
    "bt_kvs e s = A @ kvs (bpages s) (Suc 0) par @ B"
    "\<And>s' X. sub_post E (Suc 0) lo hi par s s' X \<Longrightarrow>
      bfree s' = bfree s \<or> (\<exists>q\<in>set (pids (bpages s) (Suc 0) par). bfree s' = q # bfree s \<and> bpages s' q = None) \<Longrightarrow>
      bt_ok E e s' \<and> bt_kvs e s' = A @ X @ B"
  from D(1) obtain i where i: "bpages s par = Some (InnerPage i)" by (rule tree_ok_SucE)
  define pos where "pos = lb (inner_keys i) k"
  note rc = route_child [OF D(1) i D(3,4), folded pos_def]
  have oki: "inner_ok (innerMax E) i" and f: "forest_ok (tree_ok (leafMax E) (innerMax E) (bpages s) 0) lo (inner_keys i) (inner_children i) hi"
    using D(1) i by simp_all
  have "tree_ok (leafMax E) (innerMax E) (bpages s) (n + Suc 0) None None root" using ok e by (simp add: bt_ok_def)
  from down_Suc [OF this, of k i] have c: "cur = inner_children i ! pos" using i cur par by (simp add: pos_def)
  show ?thesis
  proof (cases "2 \<le> icount i \<and> pos + 1 < icount i")
    case False
    then show ?thesis using remove_leaf_eq(3) [OF l under i] rc(3) plain by (auto simp: clean_def)
  next
    case two: True
    let ?q = "inner_children i ! Suc pos"
    have "tree_ok (leafMax E) (innerMax E) (bpages s) 0 (clo lo (inner_keys i) (Suc pos)) (chi hi (inner_keys i) (Suc pos)) ?q"
      using forest_nth [OF f, of "Suc pos"] two oki by (simp add: length_inner_keys)
    then obtain rl where r: "bpages s ?q = Some (LeafPage rl)" by (rule tree_ok_0E)
    have get: "array_get (ichildren i) (inner_lowerBound i k + 1) = Inr ?q"
      using two oki rc(3) by (simp add: inner_ok_def inner_children_def)
    note eq = remove_leaf_eq(2) [OF l under i get r, where rt = rt]
    show ?thesis
    proof (cases "lcount l + lcount rl < leafMax E")
      case False
      then show ?thesis using eq plain two rc(3) by (auto simp: clean_def)
    next
      case fit: True
      obtain l1 n' s' where m: "merge_leaf l rl = Inr l1" "inner_remove pos i = Inr (True, n')"
         "remove_at k cur l1 (reclaim ?q (setPage par (InnerPage n') (setPage cur (LeafPage l1) s)))
           = Inr (Done s' (map_of (kvs (bpages s) (Suc 0) par) k \<noteq> None))"
         "sub_post E (Suc 0) lo hi par s s' (kv_del k (kvs (bpages s) (Suc 0) par))"
         "bpages s' ?q = None" "bfree s' = (if getOwner ?q = bnode s then ?q # bfree s else bfree s)"
         "?q \<in> set (pids (bpages s) (Suc 0) par)"
        using remove_merge_ok [OF D(1) i D(2-4) pos_def _ _ c l refl r fit] two by auto
      have "bt_ok E e s' \<and> bt_kvs e s' = A @ kv_del k (kvs (bpages s) (Suc 0) par) @ B"
        using m(5-7) by (intro D(8) [OF m(4)]) auto
      then have "removed_post E e k s (Inr (Done s' (map_of (kvs (bpages s) (Suc 0) par) k \<noteq> None)))"
        unfolding removed_post_def bt_map_def D(7) map_of_focus [OF D(5,6)] kv_del_focus [OF D(5,6)] by blast
      then show ?thesis using eq two fit rc(3) m(1-3) by (auto simp: clean_def)
    qed
  qed
qed

lemma remove_attempt_ok:
  assumes ok: "bt_ok E e s" and f: "bt_height e s < f"
  shows "remove_attempt E rt f k e s = Some (Inr (Restart s)) \<and> \<not> clean rt
     \<or> (\<exists>res. remove_attempt E rt f k e s = Some res \<and> removed_post E e k s res)"
proof -
  from ok obtain root h where b: "bpages s e = Some (EntryPage root h)"
      "tree_ok (leafMax E) (innerMax E) (bpages s) h None None root" by (rule bt_okE)
  let ?par = "if h = 0 then e else down (bpages s) k (h - 1) root" and ?cur = "down (bpages s) k h root"
  have fh: "h < f" using f b(1) by (simp add: bt_height_def)
  have leaf: "remove_leaf E rt k e ?par ?cur s = Inr (Restart s) \<and> \<not> clean rt \<or> removed_post E e k s (remove_leaf E rt k e ?par ?cur s)"
  proof -
    from b(1) have e0: "bpages s e = Some (EntryPage root (h + 0))" by simp
    obtain l where l: "bpages s ?cur = Some (LeafPage l)"
      using bt_ok_at [OF ok e0, of k] tree_ok_0E by metis
    have plain: "removed_post E e k s (remove_at k ?cur l s)" by (rule remove_at_root_ok [OF ok b(1) l])
    show ?thesis
    proof (cases "leaf_isUnderflow (leafMax E) l \<and> ?par \<noteq> e")
      case False
      then show ?thesis using remove_leaf_eq(1) [OF l False] plain by (auto simp: clean_def)
    next
      case True
      then obtain n where n: "h = Suc n" by (cases h) auto
      show ?thesis
        by (rule remove_leaf_under_ok [OF ok _ _ _ l True plain, of root n]) (use n b(1) in simp_all)
    qed
  qed
  consider "rt 0 0 \<or> rt 0 1 \<or> rt 0 2" | "\<not> rt 0 0" "\<not> rt 0 1" "\<not> rt 0 2" by blast
  then show ?thesis
  proof cases
    case 1
    then show ?thesis using b(1) by (auto simp: remove_attempt_def as_entry_def clean_def)
  next
    case 2
    then show ?thesis
      using type_walk_ok [OF b(2) _ _ fh, of k rt 0 e] leaf b(1)
      by (fastforce simp: remove_attempt_def as_entry_def)
  qed
qed

lemma bt_remove_safe:
  assumes "bt_ok E e s" and "bt_height e s < f" and "bt_remove E rts f k e s = Some r"
  shows "\<exists>s'. r = Inr (bt_map e s k \<noteq> None, s') \<and> bt_ok E e s' \<and> bt_kvs e s' = kv_del k (bt_kvs e s)"
  using assms(3)
proof (induction rts)
  case (Cons rt rts)
  then show ?case
    using remove_attempt_ok [OF assms(1,2), of rt k] by (auto simp: removed_post_def)
qed simp

lemma bt_remove_returns:
  assumes "bt_ok E e s" and "bt_height e s < f" and "\<exists>rt\<in>set rts. clean rt"
  shows "bt_remove E rts f k e s \<noteq> None"
  using assms(3)
proof (induction rts)
  case (Cons rt rts)
  then show ?case
    using remove_attempt_ok [OF assms(1,2), of rt k] by (force simp: removed_post_def)
qed simp

section \<open>An empty tree\<close>

lemma new_BTree_ok:
  assumes E: "env_ok E" and fr: "free_ok s" and two: "2 \<le> length (bfree s)"
  shows "\<exists>e s'. new_BTree E s = Inr (e, s') \<and> bt_ok E e s' \<and> bt_kvs e s' = [] \<and> length (bfree s') = length (bfree s) - 2"
proof -
  obtain e r fs where fs: "bfree s = e # r # fs" using two by (cases "bfree s"; cases "tl (bfree s)") auto
  obtain jk ks vs where j: "junkLeaf E r = (jk, ks, vs)" by (metis prod_cases3)
  let ?l = "new_BTreeLeaf jk ks vs"
  define s' where "s' = s\<lparr>bfree := fs, bpages := (bpages s)(r \<mapsto> LeafPage ?l, e \<mapsto> EntryPage r 0)\<rparr>"
  have ne: "e \<noteq> r" "distinct fs" "e \<notin> set fs" "r \<notin> set fs" "\<forall>q\<in>set fs. bpages s q = None" using fr fs by (auto simp: free_ok_def)
  have "new_BTree E s = Inr (e, s')"
    using fs j ne(1) by (simp add: new_BTree_def allocate_leaf_def alloc_pid_def Let_def setPage_def s'_def fun_upd_twist)
  moreover have "leaf_ok (leafMax E) ?l" "leaf_keys ?l = []" "leaf_kvs ?l = []"
    using new_leaf_lengths [OF E j] by (simp_all add: new_BTreeLeaf_def leaf_ok_def leaf_keys_def leaf_kvs_def)
  then have "bt_ok E e s'" "bt_kvs e s' = []"
    using ne by (auto simp: bt_ok_def bt_kvs_def free_ok_def s'_def new_BTreeLeaf_def)
  ultimately show ?thesis using fs by (simp add: s'_def)
qed

end
