(* ===== verification/BTree_Scan.thy ===== *)
theory BTree_Scan
  imports BTree_Remove
begin

text \<open>
  Correctness of the range scans.  A scan visits one leaf per traversal and continues at the fence key
  of that leaf; the theorems say that the visitor sees exactly the entries from the start key on (in
  ascending or descending order) until it asks to stop, and that the scan ends.
\<close>

section \<open>What a scan means\<close>

fun visit_all :: "('k, 'v, 'a) visitor \<Rightarrow> ('k \<times> 'v) list \<Rightarrow> 'a \<Rightarrow> bool \<times> 'a" where
  "visit_all func [] a = (True, a)"
| "visit_all func ((k, v) # xs) a = (case func k v a of (go, a') \<Rightarrow> if go then visit_all func xs a' else (False, a'))"

lemma visit_all_append:
  "visit_all func (xs @ ys) a = (case visit_all func xs a of (go, a') \<Rightarrow> if go then visit_all func ys a' else (False, a'))"
  by (induction func xs a rule: visit_all.induct) (auto split: prod.splits)

lemma visit_ok:
  assumes ok: "leaf_ok lm l" and i: "i < lcount l"
  shows "visit func l i a = Inr (func (fst (leaf_kvs l ! i)) (snd (leaf_kvs l ! i)) a)"
  using assms by (simp add: visit_def leaf_ok_def leaf_kvs_def leaf_keys_def leaf_vals_def)

lemma visit_all_Cons:
  "visit_all func (x # xs) a = (case func (fst x) (snd x) a of (go, a') \<Rightarrow> if go then visit_all func xs a' else (False, a'))"
  by (cases x) simp

lemma asc_loop_ok:
  assumes "leaf_ok lm l"
  shows "asc_loop func l i a = Inr (visit_all func (drop i (leaf_kvs l)) a)"
  using assms
proof (induction func l i a rule: asc_loop.induct)
  case (1 func l i a)
  show ?case
  proof (cases "i < lcount l")
    case True
    then have "drop i (leaf_kvs l) = leaf_kvs l ! i # drop (i + 1) (leaf_kvs l)"
      using length_leaf_kvs [OF "1.prems"] by (simp add: Cons_nth_drop_Suc)
    then show ?thesis
      using 1 True by (subst asc_loop.simps) (auto simp: visit_ok visit_all_Cons split: prod.splits)
  next
    case False
    then show ?thesis
      using length_leaf_kvs [OF "1.prems"] by (subst asc_loop.simps) simp
  qed
qed

lemma desc_loop_ok:
  assumes ok: "leaf_ok lm l" and "i < lcount l"
  shows "desc_loop func l i a = Inr (visit_all func (rev (take (Suc i) (leaf_kvs l))) a)"
  using assms(2)
proof (induction i arbitrary: a)
  case 0
  obtain x xs where x: "leaf_kvs l = x # xs" using 0 length_leaf_kvs [OF ok] by (cases "leaf_kvs l") auto
  have "visit func l 0 a = Inr (func (fst x) (snd x) a)" using visit_ok [OF ok 0, of func a] x by simp
  then show ?case using x by (auto simp: visit_all_Cons split: prod.splits)
next
  case (Suc i)
  have "rev (take (Suc (Suc i)) (leaf_kvs l)) = leaf_kvs l ! Suc i # rev (take (Suc i) (leaf_kvs l))"
    using Suc.prems length_leaf_kvs [OF ok] by (simp add: take_Suc_conv_app_nth)
  then show ?case
    using Suc visit_ok [OF ok Suc.prems, of func a] by (auto simp: visit_all_Cons split: prod.splits)
qed

section \<open>Selecting entries by key\<close>

definition from_key :: "'k::linorder \<Rightarrow> ('k \<times> 'v) list \<Rightarrow> ('k \<times> 'v) list" where
  "from_key k xs = filter (\<lambda>x. k \<le> fst x) xs"

definition after_key :: "'k::linorder \<Rightarrow> ('k \<times> 'v) list \<Rightarrow> ('k \<times> 'v) list" where
  "after_key k xs = filter (\<lambda>x. k < fst x) xs"

definition upto_key :: "'k::linorder \<Rightarrow> ('k \<times> 'v) list \<Rightarrow> ('k \<times> 'v) list" where
  "upto_key k xs = filter (\<lambda>x. fst x \<le> k) xs"

lemma filter_prefix:
  assumes "\<forall>x\<in>set (take n xs). P x" and "\<forall>x\<in>set (drop n xs). \<not> P x"
  shows "filter P xs = take n xs" and "filter (\<lambda>x. \<not> P x) xs = drop n xs"
proof -
  have "filter Q xs = filter Q (take n xs) @ filter Q (drop n xs)" for Q
    by (metis append_take_drop_id filter_append)
  with assms show "filter P xs = take n xs" "filter (\<lambda>x. \<not> P x) xs = drop n xs" by simp_all
qed

lemma in_set_drop_nth:
  assumes "x \<in> set (drop n xs)"
  shows "\<exists>j. n + j < length xs \<and> x = xs ! (n + j)"
proof -
  obtain j where "j < length (drop n xs)" "x = drop n xs ! j" using assms by (metis in_set_conv_nth)
  then show ?thesis by (intro exI [of _ j]) simp
qed

lemma leaf_split_at:
  fixes k :: "'k::linorder"
  assumes ok: "leaf_ok lm l" and c: "0 < lcount l"
  defines "p \<equiv> leaf_lowerBound l k"
  shows "\<forall>x\<in>set (take p (leaf_kvs l)). fst x < k" and "\<forall>x\<in>set (drop p (leaf_kvs l)). k \<le> fst x"
    and "p \<le> lcount l" and "p < lcount l \<Longrightarrow> lkeys l ! p = fst (leaf_kvs l ! p)"
proof -
  have p: "p = lb (map fst (leaf_kvs l)) k" using ok c by (simp add: p_def leaf_lowerBound_lb map_fst_leaf_kvs)
  have srt: "sorted_wrt (<) (map fst (leaf_kvs l))" using ok by (simp add: map_fst_leaf_kvs) (simp add: leaf_ok_def)
  have len: "length (leaf_kvs l) = lcount l" by (rule length_leaf_kvs [OF ok])
  show "p \<le> lcount l" using lb_le [of "map fst (leaf_kvs l)" k] len p by simp
  show "\<forall>x\<in>set (take p (leaf_kvs l)). fst x < k"
    using take_lb_less [of _ "map fst (leaf_kvs l)" k] p by (auto simp: take_map)
  show "\<forall>x\<in>set (drop p (leaf_kvs l)). k \<le> fst x"
    using drop_lb_ge [OF srt, of _ k] p by (auto simp: drop_map)
  show "p < lcount l \<Longrightarrow> lkeys l ! p = fst (leaf_kvs l ! p)"
    using ok by (simp add: leaf_kvs_def leaf_keys_def leaf_vals_def leaf_ok_def)
qed

lemma asc_scan_ok:
  assumes ok: "leaf_ok lm l"
  shows "asc_scan k l func a = (case visit_all func (from_key k (leaf_kvs l)) a of
     (go, a') \<Rightarrow> Inr ((if go then fence_result else finished) (upperF (lfences l)), a'))"
proof (cases "lcount l = 0")
  case True
  then have "leaf_kvs l = []" using length_leaf_kvs [OF ok] by simp
  with True show ?thesis by (simp add: asc_scan_def from_key_def getUpper_def)
next
  case False
  then have "from_key k (leaf_kvs l) = drop (leaf_lowerBound l k) (leaf_kvs l)"
    using leaf_split_at(1,2) [OF ok, of k] filter_prefix(2) [of "leaf_lowerBound l k" "leaf_kvs l" "\<lambda>x. fst x < k"]
    by (simp add: from_key_def not_less)
  with False show ?thesis
    using asc_loop_ok [OF ok, of func] by (simp add: asc_scan_def getUpper_def split: prod.splits)
qed

lemma desc_scan_ok:
  assumes ok: "leaf_ok lm l"
  shows "desc_scan k l func a = (case visit_all func (rev (upto_key k (leaf_kvs l))) a of
     (go, a') \<Rightarrow> Inr ((if go then fence_result else finished) (lowerF (lfences l)), a'))"
proof (cases "lcount l = 0")
  case True
  then have "leaf_kvs l = []" using length_leaf_kvs [OF ok] by simp
  with True show ?thesis by (simp add: desc_scan_def upto_key_def getLower_def)
next
  case c: False
  let ?p = "leaf_lowerBound l k" and ?kv = "leaf_kvs l"
  have len: "length ?kv = lcount l" by (rule length_leaf_kvs [OF ok])
  note at = leaf_split_at [OF ok, of k]
  have srt: "sorted_wrt (<) (map fst ?kv)" using ok by (simp add: map_fst_leaf_kvs) (simp add: leaf_ok_def)
  have upto: "upto_key k ?kv = take n ?kv" if "\<forall>x\<in>set (take n ?kv). fst x \<le> k" "\<forall>x\<in>set (drop n ?kv). k < fst x" for n
    using filter_prefix(1) [of n ?kv "\<lambda>x. fst x \<le> k"] that by (simp add: upto_key_def not_le)
  consider (all) "?p \<ge> lcount l" | (hit) "?p < lcount l" "lkeys l ! ?p = k" | (miss) "?p < lcount l" "k < lkeys l ! ?p"
    using at(2,4) c len by (metis antisym_conv1 linorder_not_le drop_eq_Nil hd_drop_conv_nth hd_in_set neq0_conv not_le)
  then show ?thesis
  proof cases
    case all
    then have p: "?p = lcount l" using at(3) c by simp
    have "lkeys l ! (lcount l - 1) < k"
      using at(1) c p len nth_mem [of "lcount l - 1" ?kv] ok
      by (force simp: leaf_kvs_def leaf_keys_def leaf_vals_def leaf_ok_def)
    moreover have "upto_key k ?kv = take (Suc (lcount l - 1)) ?kv"
      using at(1) c p len by (intro upto) (auto simp: less_imp_le)
    moreover from calculation(1) have "\<not> k < lkeys l ! (lcount l - 1)" by simp
    ultimately show ?thesis
      using c p desc_loop_ok [OF ok, of "lcount l - 1" func] by (simp add: desc_scan_def getLower_def Let_def split: prod.splits)
  next
    case hit
    have "\<forall>x\<in>set (drop (Suc ?p) ?kv). k < fst x"
    proof
      fix x assume "x \<in> set (drop (Suc ?p) ?kv)"
      then obtain j where j: "Suc (?p + j) < lcount l" "x = ?kv ! Suc (?p + j)"
        using in_set_drop_nth [of x "Suc ?p" ?kv] len by auto
      then show "k < fst x"
        using sorted_nth_less [OF srt, of ?p "Suc (?p + j)"] hit at(4) c len by simp
    qed
    moreover have "\<forall>x\<in>set (take (Suc ?p) ?kv). fst x \<le> k"
      using at(1,4) c hit len by (auto simp: take_Suc_conv_app_nth less_imp_le)
    ultimately have "upto_key k ?kv = take (Suc ?p) ?kv" by (intro upto)
    then show ?thesis
      using c hit desc_loop_ok [OF ok hit(1), of func] by (simp add: desc_scan_def getLower_def Let_def split: prod.splits)
  next
    case miss
    have "\<forall>x\<in>set (drop ?p ?kv). k < fst x"
    proof
      fix x assume "x \<in> set (drop ?p ?kv)"
      then obtain j where j: "?p + j < lcount l" "x = ?kv ! (?p + j)"
        using in_set_drop_nth [of x ?p ?kv] len by auto
      then show "k < fst x"
        using sorted_nth_le [OF srt, of ?p "?p + j"] miss at(4) c len by simp
    qed
    then have u: "upto_key k ?kv = take ?p ?kv" using at(1) c by (intro upto) (auto simp: less_imp_le)
    show ?thesis
    proof (cases ?p)
      case 0
      then show ?thesis using c miss u by (simp add: desc_scan_def getLower_def Let_def)
    next
      case (Suc j)
      then show ?thesis
        using c miss u desc_loop_ok [OF ok, of j func] by (simp add: desc_scan_def getLower_def Let_def split: prod.splits)
    qed
  qed
qed

section \<open>One traversal\<close>

definition lo_le :: "'k::linorder option \<Rightarrow> 'k option \<Rightarrow> bool" where
  "lo_le lo lo' \<longleftrightarrow> (case lo of None \<Rightarrow> True | Some a \<Rightarrow> (\<exists>b. lo' = Some b \<and> a \<le> b))"

definition hi_ge :: "'k::linorder option \<Rightarrow> 'k option \<Rightarrow> bool" where
  "hi_ge hi hi' \<longleftrightarrow> (case hi of None \<Rightarrow> True | Some a \<Rightarrow> (\<exists>b. hi' = Some b \<and> b \<le> a))"

definition ge_lo :: "'k::linorder option \<Rightarrow> 'k \<Rightarrow> bool" where
  "ge_lo lo k \<longleftrightarrow> (case lo of None \<Rightarrow> True | Some a \<Rightarrow> a \<le> k)"

lemma opt_order_simps [simp]:
  "lo_le None lo'" "lo_le (Some a) lo' \<longleftrightarrow> (\<exists>b. lo' = Some b \<and> a \<le> b)"
  "hi_ge None hi'" "hi_ge (Some a) hi' \<longleftrightarrow> (\<exists>b. hi' = Some b \<and> b \<le> a)"
  "ge_lo None k" "ge_lo (Some a) k \<longleftrightarrow> a \<le> k"
  by (simp_all add: lo_le_def hi_ge_def ge_lo_def)

lemma lo_le_trans: "lo_le a b \<Longrightarrow> lo_le b c \<Longrightarrow> lo_le a c"
  by (cases a; cases b) (auto intro: order_trans)

lemma hi_ge_trans: "hi_ge a b \<Longrightarrow> hi_ge b c \<Longrightarrow> hi_ge a c"
  by (cases a; cases b) (auto intro: order_trans)

lemma lo_le_refl [simp]: "lo_le a a" and hi_ge_refl [simp]: "hi_ge a a"
  by (cases a; simp)+

lemma clo_ge: "(\<forall>x\<in>set ks. gt_lo lo x) \<Longrightarrow> i \<le> length ks \<Longrightarrow> lo_le lo (clo lo ks i)"
  by (cases lo) (auto simp: clo_def less_imp_le)

lemma chi_le: "(\<forall>x\<in>set ks. lt_hi hi x) \<Longrightarrow> hi_ge hi (chi hi ks i)"
  by (cases hi) (auto simp: chi_def less_imp_le)

fun seps :: "('k, 'v) pages \<Rightarrow> nat \<Rightarrow> PID \<Rightarrow> 'k list" where
  "seps m 0 p = []"
| "seps m (Suc h) p = (case m p of
     Some (InnerPage n) \<Rightarrow> inner_keys n @ concat (map (seps m h) (inner_children n)) | _ \<Rightarrow> [])"

text \<open>\<open>leaf_at m h lo hi p q lo' hi' l A B\<close>: the leaf \<open>l\<close> on page \<open>q\<close> covers the range from \<open>lo'\<close> to \<open>hi'\<close> of
  the subtree at \<open>p\<close>, with the contents \<open>A\<close> left and \<open>B\<close> right of it.\<close>

definition leaf_at where
  "leaf_at lm m h lo hi p q lo' hi' l A B \<longleftrightarrow>
     m q = Some (LeafPage l) \<and> leaf_ok lm l \<and> fence_is (lowerF (lfences l)) lo' \<and> fence_is (upperF (lfences l)) hi'
     \<and> lo_le lo lo' \<and> hi_ge hi hi' \<and> kvs m h p = A @ leaf_kvs l @ B
     \<and> (\<forall>x\<in>fst ` set A. \<exists>b. lo' = Some b \<and> x \<le> b) \<and> (\<forall>x\<in>fst ` set B. \<exists>b. hi' = Some b \<and> b < x)
     \<and> (\<forall>x\<in>fst ` set (leaf_kvs l). gt_lo lo' x \<and> le_hi hi' x)
     \<and> (\<forall>b. lo' = Some b \<longrightarrow> b \<in> set (seps m h p) \<or> lo = Some b)
     \<and> (\<forall>b. hi' = Some b \<longrightarrow> b \<in> set (seps m h p) \<or> hi = Some b)
     \<and> (\<forall>b\<in>set (seps m h p). (\<exists>a. lo' = Some a \<and> b \<le> a) \<or> (\<exists>a. hi' = Some a \<and> a \<le> b))"

lemma seps_bounds:
  assumes "tree_ok lm im m h lo hi p"
  shows "\<forall>b\<in>set (seps m h p). gt_lo lo b \<and> lt_hi hi b"
  using assms
proof (induction h arbitrary: lo hi p)
  case (Suc h)
  from Suc.prems show ?case
  proof (rule tree_ok_SucE)
    fix n assume n: "m p = Some (InnerPage n)" "inner_ok im n" "forest_ok (tree_ok lm im m h) lo (inner_keys n) (inner_children n) hi"
    have "gt_lo lo b \<and> lt_hi hi b" if c: "c \<in> set (inner_children n)" "b \<in> set (seps m h c)" for c b
    proof -
      obtain i where i: "i \<le> length (inner_keys n)" "c = inner_children n ! i"
        using c(1) forest_length [OF n(3)] by (metis Suc_eq_plus1 in_set_conv_nth less_Suc_eq_le)
      have b: "gt_lo (clo lo (inner_keys n) i) b" "lt_hi (chi hi (inner_keys n) i) b"
        using Suc.IH [OF forest_nth [OF n(3) i(1)]] c(2) i(2) by simp_all
      have "lo_le lo (clo lo (inner_keys n) i)" "hi_ge hi (chi hi (inner_keys n) i)"
        using clo_ge chi_le forest_keys [OF n(3)] i(1) by blast+
      with b show ?thesis by (cases lo; cases hi) auto
    qed
    then show ?thesis using n(1) forest_keys [OF n(3)] by auto
  qed
qed simp

lemma seps_other_child:
  assumes f: "forest_ok (tree_ok lm im m h) lo ks cs hi" and i: "i \<le> length ks" and j: "j \<le> length ks" "j \<noteq> i"
    and b: "b \<in> set (seps m h (cs ! j))"
  shows "(\<exists>a. clo lo ks i = Some a \<and> b \<le> a) \<or> (\<exists>a. chi hi ks i = Some a \<and> a \<le> b)"
proof -
  have bb: "gt_lo (clo lo ks j) b" "lt_hi (chi hi ks j) b" using seps_bounds [OF forest_nth [OF f j(1)]] b by simp_all
  have srt: "sorted_wrt (<) ks" using forest_keys [OF f] by simp
  show ?thesis
  proof (cases "j < i")
    case True
    then have "b \<le> ks ! j" using bb(2) i by (simp add: chi_def)
    also have "ks ! j \<le> ks ! (i - 1)" using sorted_nth_le [OF srt, of j "i - 1"] True i by simp
    finally show ?thesis using True by (simp add: clo_def)
  next
    case False
    with j have "i < j" by simp
    then have "ks ! i \<le> ks ! (j - 1)" using sorted_nth_le [OF srt, of i "j - 1"] j by simp
    also have "ks ! (j - 1) \<le> b" using bb(1) \<open>i < j\<close> by (simp add: clo_def)
    finally show ?thesis using \<open>i < j\<close> j by (simp add: chi_def)
  qed
qed

lemma leaf_at_lift:
  assumes t: "tree_ok lm im m (Suc h) lo hi p" and n: "m p = Some (InnerPage n)" and i: "i \<le> icount n"
    and L: "leaf_at lm m h (clo lo (inner_keys n) i) (chi hi (inner_keys n) i) (inner_children n ! i) q lo' hi' l A B"
  shows "leaf_at lm m (Suc h) lo hi p q lo' hi' l
     (concat (map (kvs m h) (take i (inner_children n))) @ A) (B @ concat (map (kvs m h) (drop (Suc i) (inner_children n))))"
proof -
  let ?ks = "inner_keys n" and ?c = "inner_children n ! i"
  have ok: "inner_ok im n" and f: "forest_ok (tree_ok lm im m h) lo ?ks (inner_children n) hi" using t n by simp_all
  have len: "length ?ks = icount n" "length (inner_children n) = icount n + 1"
    using ok by (simp_all add: length_inner_keys length_inner_children)
  have rng: "\<forall>x\<in>set ?ks. gt_lo lo x" "\<forall>x\<in>set ?ks. lt_hi hi x" using forest_keys [OF f] by simp_all
  have up: "lo_le (clo lo ?ks i) lo'" "hi_ge (chi hi ?ks i) hi'" using L by (simp_all add: leaf_at_def)
  have 1: "lo_le lo lo'" "hi_ge hi hi'"
    using lo_le_trans [OF clo_ge [OF rng(1)] up(1)] hi_ge_trans [OF chi_le [OF rng(2)] up(2)] i len by simp_all
  have A: "\<forall>x\<in>fst ` set (concat (map (kvs m h) (take i (inner_children n)))). \<exists>b. lo' = Some b \<and> x \<le> b"
    using kvs_outside(1) [OF t n i] up(1) by (metis opt_order_simps(2) order_trans)
  have B: "\<forall>x\<in>fst ` set (concat (map (kvs m h) (drop (Suc i) (inner_children n)))). \<exists>b. hi' = Some b \<and> b < x"
    using kvs_outside(2) [OF t n i] up(2) by (metis opt_order_simps(4) le_less_trans)
  have sub: "set (seps m h ?c) \<subseteq> set (seps m (Suc h) p)" using n i len by auto
  have ends: "\<forall>b. clo lo ?ks i = Some b \<longrightarrow> b \<in> set (seps m (Suc h) p) \<or> lo = Some b"
      "\<forall>b. chi hi ?ks i = Some b \<longrightarrow> b \<in> set (seps m (Suc h) p) \<or> hi = Some b"
    using n i len by (auto simp: clo_def chi_def)
  have "\<forall>b. lo' = Some b \<longrightarrow> b \<in> set (seps m h ?c) \<or> clo lo ?ks i = Some b"
      "\<forall>b. hi' = Some b \<longrightarrow> b \<in> set (seps m h ?c) \<or> chi hi ?ks i = Some b"
    using L by (simp_all add: leaf_at_def)
  then have 2: "\<forall>b. lo' = Some b \<longrightarrow> b \<in> set (seps m (Suc h) p) \<or> lo = Some b"
    and 3: "\<forall>b. hi' = Some b \<longrightarrow> b \<in> set (seps m (Suc h) p) \<or> hi = Some b"
    using sub ends by blast+
  have gap: "(\<exists>a. clo lo ?ks i = Some a \<and> b \<le> a) \<or> (\<exists>a. chi hi ?ks i = Some a \<and> a \<le> b) \<or> b \<in> set (seps m h ?c)"
    if "b \<in> set (seps m (Suc h) p)" for b
  proof -
    have "b \<in> set ?ks \<or> (\<exists>c\<in>set (inner_children n). b \<in> set (seps m h c))" using that n by simp
    then consider j where "j < icount n" "b = ?ks ! j" | j where "j \<le> icount n" "b \<in> set (seps m h (inner_children n ! j))"
      using len by (metis Suc_eq_plus1 in_set_conv_nth less_Suc_eq_le)
    then show ?thesis
    proof cases
      case 1
      then show ?thesis
        using sorted_nth_le [of ?ks j "i - 1"] sorted_nth_le [of ?ks i j] forest_keys [OF f] i len
        by (cases "j < i") (auto simp: clo_def chi_def)
    next
      case 2
      then show ?thesis using seps_other_child [OF f, of i j b] i len by (cases "j = i") auto
    qed
  qed
  have 4: "\<forall>b\<in>set (seps m (Suc h) p). (\<exists>a. lo' = Some a \<and> b \<le> a) \<or> (\<exists>a. hi' = Some a \<and> a \<le> b)"
  proof
    fix b assume "b \<in> set (seps m (Suc h) p)"
    from gap [OF this] show "(\<exists>a. lo' = Some a \<and> b \<le> a) \<or> (\<exists>a. hi' = Some a \<and> a \<le> b)"
      using up L by (auto simp: leaf_at_def intro: order_trans)
  qed
  have "kvs m (Suc h) p = (concat (map (kvs m h) (take i (inner_children n))) @ A) @ leaf_kvs l
      @ (B @ concat (map (kvs m h) (drop (Suc i) (inner_children n))))"
    using concat_focus [of i "inner_children n" "kvs m h"] L n i len by (simp add: leaf_at_def kids_def)
  then show ?thesis
    using L 1 A B 2 3 4 unfolding leaf_at_def set_append image_Un ball_Un by (elim conjE, intro conjI) (assumption | simp)+
qed

lemma scan_walk:
  assumes "tree_ok lm im (bpages s) h lo hi cur" and "R lo hi" and "h < f"
    and nxt: "\<And>n lo hi. inner_ok im n \<Longrightarrow> R lo hi \<Longrightarrow>
       nxt n \<le> icount n \<and> R (clo lo (inner_keys n) (nxt n)) (chi hi (inner_keys n) (nxt n))"
  shows "type_walk rt nxt f lvl par cur s = Some (Inr None) \<and> \<not> clean rt
     \<or> (\<exists>par' q lo' hi' l A B. type_walk rt nxt f lvl par cur s = Some (Inr (Some (par', q)))
         \<and> R lo' hi' \<and> leaf_at lm (bpages s) h lo hi cur q lo' hi' l A B)"
  using assms(1-3)
proof (induction h arbitrary: f lvl par cur lo hi)
  case 0
  then obtain f' where f: "f = Suc f'" by (cases f) auto
  from "0.prems"(1) obtain l where l: "bpages s cur = Some (LeafPage l)" "leaf_ok lm l"
      "\<forall>k\<in>set (leaf_keys l). gt_lo lo k \<and> le_hi hi k" "fence_is (lowerF (lfences l)) lo" "fence_is (upperF (lfences l)) hi"
    by (rule tree_ok_0E)
  have "set (leaf_keys l) = fst ` set (leaf_kvs l)" using map_fst_leaf_kvs [OF l(2)] by (metis list.set_map)
  then have "leaf_at lm (bpages s) 0 lo hi cur cur lo hi l [] []" using l by (simp add: leaf_at_def)
  then show ?case using l(1) f "0.prems"(2) by simp blast
next
  case (Suc h)
  then obtain f' where f: "f = Suc f'" by (cases f) auto
  from Suc.prems(1) obtain n where n: "bpages s cur = Some (InnerPage n)" "inner_ok im n"
      "forest_ok (tree_ok lm im (bpages s) h) lo (inner_keys n) (inner_children n) hi" by (rule tree_ok_SucE)
  define i where "i = nxt n"
  have i: "i \<le> icount n" "R (clo lo (inner_keys n) i) (chi hi (inner_keys n) i)"
    using nxt [OF n(2) Suc.prems(2)] by (simp_all add: i_def)
  have get: "array_get (ichildren n) i = Inr (inner_children n ! i)"
    using i n(2) by (auto simp: array_get_def inner_children_def inner_ok_def)
  have "tree_ok lm im (bpages s) h (clo lo (inner_keys n) i) (chi hi (inner_keys n) i) (inner_children n ! i)"
    using forest_nth [OF n(3), of i] i n(2) by (simp add: length_inner_keys)
  moreover have "h < f'" using Suc.prems(3) f by simp
  moreover note Suc.IH [OF calculation(1) i(2) calculation(2), of "lvl + 1" cur]
  ultimately show ?case
    using leaf_at_lift [OF Suc.prems(1) n(1) i(1)] n(1) get f by (simp add: i_def [symmetric] clean_def) blast
qed

section \<open>Whole scans\<close>

lemma ub_facts:
  fixes ks :: "'k::linorder list"
  shows "ub ks k \<le> length ks" and "i < ub ks k \<Longrightarrow> ks ! i \<le> k" and "ub ks k < length ks \<Longrightarrow> k < ks ! ub ks k"
  unfolding ub_def by (simp add: length_takeWhile_le, metis nth_mem set_takeWhileD takeWhile_nth, metis nth_length_takeWhile not_le)

lemma route_ub:
  assumes "ge_lo lo k" and "lt_hi hi k"
  shows "ge_lo (clo lo ks (ub ks k)) k" and "lt_hi (chi hi ks (ub ks k)) k"
  using assms ub_facts(2) [of "ub ks k - 1" ks k] ub_facts(3) [of ks k] by (auto simp: clo_def chi_def)

lemma filter_all_none:
  "(\<forall>x\<in>set xs. \<not> P x) \<Longrightarrow> filter P xs = []" "(\<forall>x\<in>set xs. P x) \<Longrightarrow> filter P xs = xs"
  by simp_all

definition scan_rest :: "scan_dir \<Rightarrow> bool \<Rightarrow> 'k::linorder \<Rightarrow> ('k \<times> 'v) list \<Rightarrow> ('k \<times> 'v) list" where
  "scan_rest dir first k xs = (case dir of
     ASC_SCAN \<Rightarrow> if first then from_key k xs else after_key k xs
   | DESC_SCAN \<Rightarrow> rev (upto_key k xs))"

definition scan_range :: "scan_dir \<Rightarrow> bool \<Rightarrow> 'k::linorder \<Rightarrow> 'k option \<Rightarrow> 'k option \<Rightarrow> bool" where
  "scan_range dir first k lo hi \<longleftrightarrow> (if dir = DESC_SCAN \<or> first then gt_lo lo k \<and> le_hi hi k else ge_lo lo k \<and> lt_hi hi k)"

lemma scan_range_step:
  assumes ok: "inner_ok im n" and R: "scan_range dir first k lo hi"
  shows "next_node dir first k n \<le> icount n \<and> scan_range dir first k (clo lo (inner_keys n) (next_node dir first k n))
     (chi hi (inner_keys n) (next_node dir first k n))"
proof (cases "dir = DESC_SCAN \<or> first")
  case True
  then have "next_node dir first k n = lb (inner_keys n) k"
    using ok by (auto simp: next_node_def inner_lowerBound_lb split: scan_dir.split)
  moreover have "sorted_wrt (<) (inner_keys n)" using ok by (simp add: inner_ok_def)
  ultimately show ?thesis
    using R True route_bounds [of "inner_keys n" lo k hi] lb_le [of "inner_keys n" k] length_inner_keys [OF ok]
    by (simp add: scan_range_def)
next
  case False
  then have "next_node dir first k n = ub (inner_keys n) k"
    using ok by (auto simp: next_node_def inner_upperBound_ub split: scan_dir.split)
  then show ?thesis
    using R False route_ub [of lo k hi "inner_keys n"] ub_facts(1) [of "inner_keys n" k] length_inner_keys [OF ok]
    by (simp add: scan_range_def)
qed

definition visit_leaf :: "scan_dir \<Rightarrow> 'k::linorder \<Rightarrow> ('k, 'v) BTreeLeaf \<Rightarrow> ('k \<times> 'v) list" where
  "visit_leaf dir k l = (case dir of ASC_SCAN \<Rightarrow> from_key k (leaf_kvs l) | DESC_SCAN \<Rightarrow> rev (upto_key k (leaf_kvs l)))"

definition exit_fence :: "scan_dir \<Rightarrow> ('k, 'v) BTreeLeaf \<Rightarrow> 'k FenceKey" where
  "exit_fence dir l = (case dir of ASC_SCAN \<Rightarrow> upperF (lfences l) | DESC_SCAN \<Rightarrow> lowerF (lfences l))"

text \<open>The rest of the scan is what the leaf contributes, followed by the rest from the leaf's fence on.\<close>

lemma asc_rest:
  assumes L: "leaf_at lm m h None None p q lo hi l A B" and R: "scan_range ASC_SCAN first k lo hi"
    and b: "first \<or> k \<in> set (seps m h p)"
  shows "scan_rest ASC_SCAN first k (kvs m h p) = from_key k (leaf_kvs l) @ B"
    and "hi = None \<Longrightarrow> B = []"
    and "hi = Some c \<Longrightarrow> after_key c (kvs m h p) = B \<and> c \<in> set (seps m h p) \<and> (first \<or> k < c)"
proof -
  have kv: "kvs m h p = A @ leaf_kvs l @ B" and A: "\<And>x. x \<in> set A \<Longrightarrow> \<exists>b. lo = Some b \<and> fst x \<le> b"
    and B: "\<And>x. x \<in> set B \<Longrightarrow> \<exists>b. hi = Some b \<and> b < fst x" and C: "\<And>x. x \<in> set (leaf_kvs l) \<Longrightarrow> gt_lo lo (fst x) \<and> le_hi hi (fst x)"
    and gap: "\<forall>b\<in>set (seps m h p). (\<exists>a. lo = Some a \<and> b \<le> a) \<or> (\<exists>a. hi = Some a \<and> a \<le> b)"
    and hs: "\<forall>b. hi = Some b \<longrightarrow> b \<in> set (seps m h p)"
    using L unfolding leaf_at_def by auto
  show "hi = None \<Longrightarrow> B = []" using B by (cases B) auto
  have lohi: "a \<le> b" if "lo = Some a" "hi = Some b" for a b
    using R that by (auto simp: scan_range_def split: if_splits)
  show "scan_rest ASC_SCAN first k (kvs m h p) = from_key k (leaf_kvs l) @ B"
  proof (cases first)
    case True
    with R have "gt_lo lo k" "le_hi hi k" by (simp_all add: scan_range_def)
    then have "\<forall>x\<in>set A. \<not> k \<le> fst x" "\<forall>x\<in>set B. k \<le> fst x"
      by (auto dest!: A, auto dest!: B)
    then show ?thesis using True kv by (simp add: scan_rest_def from_key_def)
  next
    case False
    with R have R': "ge_lo lo k" "lt_hi hi k" by (simp_all add: scan_range_def)
    have "k \<in> set (seps m h p)" using b False by simp
    then have lo: "lo = Some k" using bspec [OF gap] R' by (cases hi; fastforce)
    have "\<forall>x\<in>set A. \<not> k < fst x" "\<forall>x\<in>set B. k < fst x" "\<forall>x\<in>set (leaf_kvs l). k < fst x"
      using lo R' by (auto dest!: A, auto dest!: B, auto dest!: C)
    then show ?thesis using False kv by (simp add: scan_rest_def after_key_def from_key_def less_imp_le)
  qed
  assume c: "hi = Some c"
  have "\<not> c < fst x" if "x \<in> set A" for x
    using A [OF that] lohi [OF _ c] by (metis le_less_trans not_le)
  moreover have "\<forall>x\<in>set (leaf_kvs l). \<not> c < fst x" "\<forall>x\<in>set B. c < fst x"
    using c by (auto dest!: C, auto dest!: B)
  ultimately show "after_key c (kvs m h p) = B \<and> c \<in> set (seps m h p) \<and> (first \<or> k < c)"
    using hs c R kv by (auto simp: after_key_def scan_range_def split: if_splits)
qed

lemma desc_rest:
  assumes L: "leaf_at lm m h None None p q lo hi l A B" and R: "scan_range DESC_SCAN first k lo hi"
  shows "scan_rest DESC_SCAN first k (kvs m h p) = rev (upto_key k (leaf_kvs l)) @ rev A"
    and "lo = None \<Longrightarrow> A = []"
    and "lo = Some c \<Longrightarrow> rev (upto_key c (kvs m h p)) = rev A \<and> c \<in> set (seps m h p) \<and> c < k"
proof -
  have kv: "kvs m h p = A @ leaf_kvs l @ B" and A: "\<And>x. x \<in> set A \<Longrightarrow> \<exists>b. lo = Some b \<and> fst x \<le> b"
    and B: "\<And>x. x \<in> set B \<Longrightarrow> \<exists>b. hi = Some b \<and> b < fst x" and C: "\<And>x. x \<in> set (leaf_kvs l) \<Longrightarrow> gt_lo lo (fst x) \<and> le_hi hi (fst x)"
    and hs: "\<forall>b. lo = Some b \<longrightarrow> b \<in> set (seps m h p)"
    using L unfolding leaf_at_def by auto
  show "lo = None \<Longrightarrow> A = []" using A by (cases A) auto
  have R': "gt_lo lo k" "le_hi hi k" using R by (simp_all add: scan_range_def)
  have "\<forall>x\<in>set A. fst x \<le> k" "\<forall>x\<in>set B. \<not> fst x \<le> k" using R' by (auto dest!: A, auto dest!: B)
  then show "scan_rest DESC_SCAN first k (kvs m h p) = rev (upto_key k (leaf_kvs l)) @ rev A"
    using kv by (simp add: scan_rest_def upto_key_def)
  assume c: "lo = Some c"
  have "\<forall>x\<in>set A. fst x \<le> c" "\<forall>x\<in>set (leaf_kvs l). \<not> fst x \<le> c" "\<forall>x\<in>set B. \<not> fst x \<le> c"
    using c R' by (auto dest!: A, auto dest!: C, auto dest!: B)
  then show "rev (upto_key c (kvs m h p)) = rev A \<and> c \<in> set (seps m h p) \<and> c < k"
    using hs c R' kv by (simp add: upto_key_def)
qed

definition bt_seps :: "PID \<Rightarrow> ('k, 'v) bstore \<Rightarrow> 'k list" where
  "bt_seps e s = (case bpages s e of Some (EntryPage root h) \<Rightarrow> seps (bpages s) h root | _ \<Rightarrow> [])"

definition scan_progress :: "scan_dir \<Rightarrow> bool \<Rightarrow> 'k::linorder \<Rightarrow> 'k \<Rightarrow> bool" where
  "scan_progress dir first k k' \<longleftrightarrow> (case dir of ASC_SCAN \<Rightarrow> first \<or> k < k' | DESC_SCAN \<Rightarrow> k' < k)"

definition scan_step_ok where
  "scan_step_ok dir first k func kv sps a res a' \<longleftrightarrow>
     (if return_code res = CONTINUE
      then visit_all func (scan_rest dir first k kv) a = visit_all func (scan_rest dir False (next_sep res) kv) a'
         \<and> next_sep res \<in> set sps \<and> scan_progress dir first k (next_sep res)
      else a' = snd (visit_all func (scan_rest dir first k kv) a))"

lemma scan_leaf_ok:
  assumes L: "leaf_at lm m h None None p q lo hi l A B" and R: "scan_range dir first k lo hi"
    and b: "first \<or> dir = DESC_SCAN \<or> k \<in> set (seps m h p)"
  shows "\<exists>res a'. (case dir of ASC_SCAN \<Rightarrow> asc_scan | DESC_SCAN \<Rightarrow> desc_scan) k l func a = Inr (res, a')
     \<and> scan_step_ok dir first k func (kvs m h p) (seps m h p) a res a'"
proof -
  have ok: "leaf_ok lm l" and f: "fence_is (lowerF (lfences l)) lo" "fence_is (upperF (lfences l)) hi"
    using L by (simp_all add: leaf_at_def)
  show ?thesis
  proof (cases dir)
    case ASC_SCAN
    note rest = asc_rest [OF L R [unfolded ASC_SCAN]]
    obtain go a' where v: "visit_all func (from_key k (leaf_kvs l)) a = (go, a')" by (cases "visit_all func (from_key k (leaf_kvs l)) a")
    have first: "first \<or> k \<in> set (seps m h p)" using b ASC_SCAN by simp
    have tot: "visit_all func (scan_rest dir first k (kvs m h p)) a = (if go then visit_all func B a' else (False, a'))"
      using rest(1) [OF first] v ASC_SCAN by (simp add: visit_all_append)
    show ?thesis
      using asc_scan_ok [OF ok, of k func a] v tot f(2) rest(2) [OF first] rest(3) [OF first] ASC_SCAN
      by (cases hi) (auto simp: scan_step_ok_def fence_is_def fence_result_def finished_def scan_rest_def scan_progress_def)
  next
    case DESC_SCAN
    note rest = desc_rest [OF L R [unfolded DESC_SCAN]]
    obtain go a' where v: "visit_all func (rev (upto_key k (leaf_kvs l))) a = (go, a')"
      by (cases "visit_all func (rev (upto_key k (leaf_kvs l))) a")
    have tot: "visit_all func (scan_rest dir first k (kvs m h p)) a = (if go then visit_all func (rev A) a' else (False, a'))"
      using rest(1) v DESC_SCAN by (simp add: visit_all_append)
    show ?thesis
      using desc_scan_ok [OF ok, of k func a] v tot f(1) rest(2,3) DESC_SCAN
      by (cases lo) (auto simp: scan_step_ok_def fence_is_def fence_result_def finished_def scan_rest_def scan_progress_def)
  qed
qed

lemma scan_attempt_ok:
  assumes ok: "bt_ok E e s" and f: "bt_height e s < f" and b: "first \<or> dir = DESC_SCAN \<or> k \<in> set (bt_seps e s)"
  shows "scan_attempt dir rt f first k func e s a = Some (Inr (Restart ())) \<and> \<not> clean rt
     \<or> (\<exists>res a'. scan_attempt dir rt f first k func e s a = Some (Inr (Done () (res, a')))
          \<and> scan_step_ok dir first k func (bt_kvs e s) (bt_seps e s) a res a')"
proof -
  from ok obtain root h where t: "bpages s e = Some (EntryPage root h)"
      "tree_ok (leafMax E) (innerMax E) (bpages s) h None None root" by (rule bt_okE)
  have fh: "h < f" using f t(1) by (simp add: bt_height_def)
  have R: "scan_range dir first k None None" by (simp add: scan_range_def)
  have bs: "bt_seps e s = seps (bpages s) h root" "bt_kvs e s = kvs (bpages s) h root"
    using t(1) by (simp_all add: bt_seps_def bt_kvs_def)
  consider "rt 0 0 \<or> rt 0 1 \<or> rt 0 2" | "\<not> rt 0 0" "\<not> rt 0 1" "\<not> rt 0 2" by blast
  then show ?thesis
  proof cases
    case 1
    then show ?thesis using t(1) by (auto simp: scan_attempt_def as_entry_def clean_def)
  next
    case 2
    have "\<And>n lo hi. inner_ok (innerMax E) n \<Longrightarrow> scan_range dir first k lo hi \<Longrightarrow> next_node dir first k n \<le> icount n
        \<and> scan_range dir first k (clo lo (inner_keys n) (next_node dir first k n)) (chi hi (inner_keys n) (next_node dir first k n))"
      by (rule scan_range_step)
    from scan_walk [where R = "scan_range dir first k" and nxt = "next_node dir first k" and rt = rt and lvl = 0 and par = e,
        OF t(2) R fh this]
    consider (retry) "type_walk rt (next_node dir first k) f 0 e root s = Some (Inr None)" "\<not> clean rt"
      | (leaf) par q lo hi l A B where "type_walk rt (next_node dir first k) f 0 e root s = Some (Inr (Some (par, q)))"
          "scan_range dir first k lo hi" "leaf_at (leafMax E) (bpages s) h None None root q lo hi l A B" by blast
    then show ?thesis
    proof cases
      case retry
      then show ?thesis using 2 t(1) by (simp add: scan_attempt_def as_entry_def)
    next
      case leaf
      have l: "bpages s q = Some (LeafPage l)" using leaf(3) by (simp add: leaf_at_def)
      obtain res a' where "(case dir of ASC_SCAN \<Rightarrow> asc_scan | DESC_SCAN \<Rightarrow> desc_scan) k l func a = Inr (res, a')"
          "scan_step_ok dir first k func (bt_kvs e s) (bt_seps e s) a res a'"
        using scan_leaf_ok [OF leaf(3,2), of func a] b bs by auto
      then show ?thesis
        using 2 t(1) leaf(1) l by (cases "rt 0 3 \<or> rt 0 4") (auto simp: scan_attempt_def as_entry_def as_leaf_def clean_def)
    qed
  qed
qed

lemma scan_loop_ok:
  assumes "bt_ok E e s" and "bt_height e s < f" and "first \<or> dir = DESC_SCAN \<or> k \<in> set (bt_seps e s)"
    and "scan_loop dir rts f first k func e s a = Some r"
  shows "r = Inr (snd (visit_all func (scan_rest dir first k (bt_kvs e s)) a))"
  using assms(3,4)
proof (induction rts arbitrary: first k a)
  case (Cons rt rts)
  from scan_attempt_ok [OF assms(1,2) Cons.prems(1), of rt func a] show ?case
  proof (elim disjE exE conjE)
    assume "scan_attempt dir rt f first k func e s a = Some (Inr (Restart ()))"
    then show ?thesis using Cons by simp
  next
    fix res a' assume at: "scan_attempt dir rt f first k func e s a = Some (Inr (Done () (res, a')))"
      and st: "scan_step_ok dir first k func (bt_kvs e s) (bt_seps e s) a res a'"
    show ?thesis
      using Cons.IH [of False "next_sep res" a'] at st Cons.prems(2)
      by (auto simp: scan_step_ok_def split: if_splits)
  qed
qed simp

definition scan_left :: "scan_dir \<Rightarrow> bool \<Rightarrow> 'k::linorder \<Rightarrow> 'k list \<Rightarrow> nat" where
  "scan_left dir first k sps = (case dir of
     ASC_SCAN \<Rightarrow> if first then card (set sps) + 1 else card {x \<in> set sps. k < x}
   | DESC_SCAN \<Rightarrow> card {x \<in> set sps. x < k})"

lemma scan_left_decreases:
  assumes "scan_progress dir first k k'" and "k' \<in> set sps"
  shows "scan_left dir False k' sps < scan_left dir first k sps"
proof -
  have "card {x \<in> set sps. k' < x} \<le> card (set sps)" by (rule card_mono) auto
  moreover have "card {x \<in> set sps. k' < x} < card {x \<in> set sps. k < x}" if "k < k'"
    using that assms(2) by (intro psubset_card_mono) auto
  moreover have "card {x \<in> set sps. x < k'} < card {x \<in> set sps. x < k}" if "k' < k"
    using that assms(2) by (intro psubset_card_mono) auto
  ultimately show ?thesis using assms(1) by (auto simp: scan_left_def scan_progress_def split: scan_dir.splits)
qed

lemma scan_left_le: "scan_left dir first k sps \<le> length sps + 1"
proof -
  have "card {x \<in> set sps. P x} \<le> length sps" for P
    by (rule order_trans [OF card_mono card_length]) auto
  then show ?thesis using card_length [of sps] by (auto simp: scan_left_def le_SucI split: scan_dir.split)
qed

lemma scan_loop_returns:
  assumes "bt_ok E e s" and "bt_height e s < f" and "first \<or> dir = DESC_SCAN \<or> k \<in> set (bt_seps e s)"
    and "scan_left dir first k (bt_seps e s) < length (filter clean rts)"
  shows "scan_loop dir rts f first k func e s a \<noteq> None"
  using assms(3,4)
proof (induction rts arbitrary: first k a)
  case (Cons rt rts)
  from scan_attempt_ok [OF assms(1,2) Cons.prems(1), of rt func a] show ?case
  proof (elim disjE exE conjE)
    assume "scan_attempt dir rt f first k func e s a = Some (Inr (Restart ()))" "\<not> clean rt"
    then show ?thesis using Cons by simp
  next
    fix res a' assume at: "scan_attempt dir rt f first k func e s a = Some (Inr (Done () (res, a')))"
      and st: "scan_step_ok dir first k func (bt_kvs e s) (bt_seps e s) a res a'"
    show ?thesis
    proof (cases "return_code res = CONTINUE")
      case True
      then have c: "next_sep res \<in> set (bt_seps e s)" "scan_progress dir first k (next_sep res)" using st by (simp_all add: scan_step_ok_def)
      have "scan_left dir False (next_sep res) (bt_seps e s) < length (filter clean rts)"
        using scan_left_decreases [OF c(2,1)] Cons.prems(2) by (simp split: if_splits)
      then show ?thesis using Cons.IH [of False "next_sep res" a'] c(1) at True by simp
    qed (use at in simp)
  qed
qed simp

end
