(* ===== verification/BTree_Spec.thy ===== *)
theory BTree_Spec
  imports BTree_Scan
begin

text \<open>
  The B+-tree as an ordered map.  The locale \<open>ordered_map\<close> is the contract its clients rely on
  (catalog, key-value and TPC-C adapters): sorted contents, point updates, deletions and lookups.
  It is interpreted on the operations of BTree.hpp, and the top-level theorems state what each
  operation does.
\<close>

section \<open>The optimistic lookup\<close>

lemma lookup_opt_leaf_ok:
  assumes l: "bpages s cur = Some (LeafPage l)" "leaf_ok lm l" and r: "lookup_opt_leaf rt k lf cur s seen = Some r"
    and seen: "\<forall>x\<in>set seen. map_of (leaf_kvs l) k = Some x"
  shows "(\<exists>xs. r = Inr (Restart xs) \<and> (\<forall>x\<in>set xs. map_of (leaf_kvs l) k = Some x)) \<and> \<not> clean rt
     \<or> (case map_of (leaf_kvs l) k of
          Some v \<Rightarrow> \<exists>old vs. r = Inr (Done old vs) \<and> vs \<noteq> [] \<and> (\<forall>x\<in>set vs. x = v)
        | None \<Rightarrow> r = Inl Ensure_failed)"
  using r seen
proof (induction lf arbitrary: seen)
  case (Suc lf)
  show ?case
  proof (cases "map_of (leaf_kvs l) k")
    case None
    then show ?thesis
      using leaf_probe(2) [OF l(2) None] Suc.IH [OF _ Suc.prems(2)] Suc.prems l(1)
      by (auto simp: as_leaf_def Let_def clean_def split: if_splits)
  next
    case (Some v)
    show ?thesis
      using leaf_probe(1) [OF l(2) Some] Suc.IH [of "seen @ [v]"] Suc.IH [OF _ Suc.prems(2)] Suc.prems l(1) Some
      by (auto simp: as_leaf_def Let_def clean_def split: if_splits)
  qed
qed simp

text \<open>An attempt whose \<open>restartLeaf\<close> loop gets one round in which the leaf did not change.\<close>

definition leaf_settles :: "nat \<Rightarrow> retries \<Rightarrow> bool" where
  "leaf_settles lf rt \<longleftrightarrow> (\<exists>j<lf. \<not> rt 0 (4 * j + 2) \<and> \<not> rt 0 (4 * j + 4))"

lemma leaf_settles_Suc:
  "leaf_settles (Suc lf) rt \<Longrightarrow> rt 0 (4 * lf + 2) \<or> rt 0 (4 * lf + 4) \<Longrightarrow> leaf_settles lf rt"
  by (auto simp: leaf_settles_def less_Suc_eq)

lemma lookup_opt_leaf_settles:
  assumes "bpages s cur = Some (LeafPage l)"
  shows "leaf_settles lf rt \<Longrightarrow> lookup_opt_leaf rt k lf cur s seen \<noteq> None"
proof (induction lf arbitrary: seen)
  case (Suc lf)
  then show ?case using assms leaf_settles_Suc [of lf rt] by (auto simp: as_leaf_def Let_def split: sum.splits)
qed (simp add: leaf_settles_def)

lemma lookup_optValue_leaf_settles:
  assumes "bpages s cur = Some (LeafPage l)"
  shows "leaf_settles lf rt \<Longrightarrow> lookup_optValue_leaf rt k lf cur s \<noteq> None"
proof (induction lf)
  case (Suc lf)
  then show ?case using assms leaf_settles_Suc [of lf rt] by (auto simp: as_leaf_def Let_def split: sum.splits)
qed (simp add: leaf_settles_def)

lemma lookup_optValue_leaf_ok:
  assumes l: "bpages s cur = Some (LeafPage l)" "leaf_ok lm l" and r: "lookup_optValue_leaf rt k lf cur s = Some r"
  shows "r = Inr (Restart ()) \<and> \<not> clean rt
     \<or> (case map_of (leaf_kvs l) k of Some v \<Rightarrow> r = Inr (Done () v) | None \<Rightarrow> \<exists>err. r = Inl err)"
  using r
proof (induction lf)
  case (Suc lf)
  show ?case
  proof (cases "map_of (leaf_kvs l) k")
    case None
    then show ?thesis
      using leaf_probe(2) [OF l(2) None] Suc l(1)
      by (auto simp: as_leaf_def Let_def clean_def array_get_def split: if_splits)
  next
    case (Some v)
    then show ?thesis
      using leaf_probe(1) [OF l(2) Some] Suc l(1)
      by (auto simp: as_leaf_def Let_def clean_def split: if_splits)
  qed
qed simp

lemma bt_lookup_optValue_ok:
  assumes ok: "bt_ok E e s" and "\<exists>rt\<in>set rts. clean rt" and "\<forall>rt\<in>set rts. leaf_settles lf rt"
  shows "case bt_map e s k of Some v \<Rightarrow> bt_lookup_optValue rts lf k e s = Some (Inr v)
     | None \<Rightarrow> \<exists>err. bt_lookup_optValue rts lf k e s = Some (Inl err)"
  using assms(2,3)
proof (induction rts)
  case (Cons rt rts)
  show ?case
  proof (rule lookup_descend_ok [OF ok, of rt k], goal_cases)
    case 1
    then show ?case using Cons by (auto split: option.splits)
  next
    case (2 par cur l)
    obtain x where x: "lookup_optValue_leaf rt k lf cur s = Some x"
      using lookup_optValue_leaf_settles [OF 2(2)] Cons.prems(2) by fastforce
    have "\<not> clean rt \<Longrightarrow> \<exists>r\<in>set rts. clean r" using Cons.prems(1) by auto
    with lookup_optValue_leaf_ok [OF 2(2,3) x] show ?case
      using 2(1,4) x Cons by (auto split: option.splits)
  qed
qed simp

lemma bt_lookup_opt_ok:
  assumes ok: "bt_ok E e s" and "bt_lookup_opt rts lf k e s seen = Some r" and "\<forall>x\<in>set seen. bt_map e s k = Some x"
  shows "case bt_map e s k of Some v \<Rightarrow> \<exists>vs. r = Inr vs \<and> vs \<noteq> [] \<and> (\<forall>x\<in>set vs. x = v) | None \<Rightarrow> r = Inl Ensure_failed"
  using assms(2,3)
proof (induction rts arbitrary: seen)
  case (Cons rt rts)
  show ?case
  proof (rule lookup_descend_ok [OF ok, of rt k], goal_cases)
    case 1
    then show ?case using Cons by simp
  next
    case (2 par cur l)
    show ?case
    proof (cases "lookup_opt_leaf rt k lf cur s seen")
      case None
      then show ?thesis using 2(1) Cons.prems(1) by simp
    next
      case (Some x)
      from lookup_opt_leaf_ok [OF 2(2,3) Some] show ?thesis
        using 2(1,4) Some Cons by (auto split: option.splits)
    qed
  qed
qed simp

lemma bt_lookup_opt_returns:
  assumes ok: "bt_ok E e s" and "\<exists>rt\<in>set rts. clean rt" and "\<forall>rt\<in>set rts. leaf_settles lf rt"
    and "\<forall>x\<in>set seen. bt_map e s k = Some x"
  shows "bt_lookup_opt rts lf k e s seen \<noteq> None"
  using assms(2,3,4)
proof (induction rts arbitrary: seen)
  case (Cons rt rts)
  show ?case
  proof (rule lookup_descend_ok [OF ok, of rt k], goal_cases)
    case 1
    then show ?case using Cons by auto
  next
    case (2 par cur l)
    obtain x where x: "lookup_opt_leaf rt k lf cur s seen = Some x"
      using lookup_opt_leaf_settles [OF 2(2)] Cons.prems(2) by fastforce
    from lookup_opt_leaf_ok [OF 2(2,3) x] Cons.prems(3) 2(4)
    consider xs where "x = Inr (Restart xs)" "\<forall>y\<in>set xs. bt_map e s k = Some y" "\<not> clean rt"
      | old vs where "x = Inr (Done old vs)" | "x = Inl Ensure_failed" by (auto split: option.splits)
    then show ?case
    proof cases
      case (1 xs)
      then show ?thesis using Cons 2(1) x by auto
    qed (use 2(1) x in simp_all)
  qed
qed simp

section \<open>The ordered map contract\<close>

datatype ('k, 'v) map_op = Put 'k 'v | Del 'k | Get 'k

datatype 'v map_out = Unit_out | Bool_out bool | Val_out "'v option"

text \<open>The outcome of an operation sequence on an abstract map.\<close>

fun spec_step :: "('k, 'v) map_op \<Rightarrow> ('k \<rightharpoonup> 'v) \<Rightarrow> 'v map_out \<times> ('k \<rightharpoonup> 'v)" where
  "spec_step (Put k v) m = (Unit_out, m(k \<mapsto> v))"
| "spec_step (Del k) m = (Bool_out (m k \<noteq> None), m(k := None))"
| "spec_step (Get k) m = (Val_out (m k), m)"

fun spec_run :: "('k, 'v) map_op list \<Rightarrow> ('k \<rightharpoonup> 'v) \<Rightarrow> 'v map_out list \<times> ('k \<rightharpoonup> 'v)" where
  "spec_run [] m = ([], m)"
| "spec_run (x # xs) m = (let (out, m') = spec_step x m; (outs, m'') = spec_run xs m' in (out # outs, m''))"

text \<open>Histories of an implementation given by the outcomes its operations can have.\<close>

inductive history ::
  "('k \<Rightarrow> 'v \<Rightarrow> 's \<Rightarrow> 's \<Rightarrow> bool) \<Rightarrow> ('k \<Rightarrow> 's \<Rightarrow> bool \<Rightarrow> 's \<Rightarrow> bool) \<Rightarrow> ('k \<Rightarrow> 's \<Rightarrow> 'v option \<Rightarrow> bool) \<Rightarrow>
     ('k, 'v) map_op list \<Rightarrow> 's \<Rightarrow> 'v map_out list \<Rightarrow> 's \<Rightarrow> bool"
  for put del get where
  h_nil: "history put del get [] s [] s"
| h_put: "put k v s s' \<Longrightarrow> history put del get xs s' outs s'' \<Longrightarrow> history put del get (Put k v # xs) s (Unit_out # outs) s''"
| h_del: "del k s b s' \<Longrightarrow> history put del get xs s' outs s'' \<Longrightarrow> history put del get (Del k # xs) s (Bool_out b # outs) s''"
| h_get: "get k s r \<Longrightarrow> history put del get xs s outs s'' \<Longrightarrow> history put del get (Get k # xs) s (Val_out r # outs) s''"

locale ordered_map =
  fixes inv :: "'s \<Rightarrow> bool" and contents :: "'s \<Rightarrow> ('k::linorder \<times> 'v) list"
    and put :: "'k \<Rightarrow> 'v \<Rightarrow> 's \<Rightarrow> 's \<Rightarrow> bool" and del :: "'k \<Rightarrow> 's \<Rightarrow> bool \<Rightarrow> 's \<Rightarrow> bool"
    and get :: "'k \<Rightarrow> 's \<Rightarrow> 'v option \<Rightarrow> bool"
  assumes sorted: "inv s \<Longrightarrow> sorted_wrt (<) (map fst (contents s))"
    and put_ok: "inv s \<Longrightarrow> put k v s s' \<Longrightarrow> inv s' \<and> contents s' = kv_upd k v (contents s)"
    and del_ok: "inv s \<Longrightarrow> del k s b s' \<Longrightarrow>
       inv s' \<and> contents s' = kv_del k (contents s) \<and> b = (map_of (contents s) k \<noteq> None)"
    and get_ok: "inv s \<Longrightarrow> get k s r \<Longrightarrow> r = map_of (contents s) k"
begin

lemma put_map: "inv s \<Longrightarrow> put k v s s' \<Longrightarrow> map_of (contents s') = (map_of (contents s))(k \<mapsto> v)"
  using put_ok sorted kv_upd_sorted_map(2) by metis

lemma del_map: "inv s \<Longrightarrow> del k s b s' \<Longrightarrow> map_of (contents s') = (map_of (contents s))(k := None)"
  using del_ok sorted kv_del_sorted_map(2) by metis

lemma get_after_put: "inv s \<Longrightarrow> put k v s s' \<Longrightarrow> get k' s' r \<Longrightarrow> r = (if k' = k then Some v else map_of (contents s) k')"
  using put_ok get_ok put_map by (metis fun_upd_apply)

lemma history_refines:
  "history put del get xs s outs s' \<Longrightarrow> inv s \<Longrightarrow>
     inv s' \<and> spec_run xs (map_of (contents s)) = (outs, map_of (contents s'))"
proof (induction xs s outs s' rule: history.induct)
  case (h_put k v s s' xs outs s'')
  then show ?case using put_ok [of s k v s'] put_map [of s k v s'] by simp
next
  case (h_del k s b s' xs outs s'')
  then show ?case using del_ok [of s k b s'] del_map [of s k b s'] by simp
next
  case (h_get k s r xs outs s'')
  then show ?case using get_ok [of s k r] by simp
qed simp

end

section \<open>The tree implements the contract\<close>

definition bt_put :: "('k::linorder, 'v) benv \<Rightarrow> PID \<Rightarrow> 'k \<Rightarrow> 'v \<Rightarrow> ('k, 'v) bstore \<Rightarrow> ('k, 'v) bstore \<Rightarrow> bool" where
  "bt_put E e k v s s' \<longleftrightarrow> (\<exists>rts. 2 * length rts \<le> length (bfree s) \<and> bt_insert E rts k v e s = Some (Inr s'))"

definition bt_del :: "('k::linorder, 'v) benv \<Rightarrow> PID \<Rightarrow> 'k \<Rightarrow> ('k, 'v) bstore \<Rightarrow> bool \<Rightarrow> ('k, 'v) bstore \<Rightarrow> bool" where
  "bt_del E e k s b s' \<longleftrightarrow> (\<exists>rts f. bt_height e s < f \<and> bt_remove E rts f k e s = Some (Inr (b, s')))"

definition bt_get :: "PID \<Rightarrow> 'k::linorder \<Rightarrow> ('k, 'v) bstore \<Rightarrow> 'v option \<Rightarrow> bool" where
  "bt_get e k s r \<longleftrightarrow> (\<exists>rts res. bt_lookup rts k e s = Some res \<and> r = (case res of Inl _ \<Rightarrow> None | Inr v \<Rightarrow> Some v))"

interpretation bt: ordered_map "\<lambda>s. env_ok E \<and> bt_ok E e s" "bt_kvs e" "bt_put E e" "bt_del E e" "bt_get e"
  for E :: "('k::linorder, 'v) benv" and e
proof
  fix s s' :: "('k, 'v) bstore" and k v b r
  assume ok: "env_ok E \<and> bt_ok E e s"
  show "sorted_wrt (<) (map fst (bt_kvs e s))" using ok bt_kvs_sorted by blast
  show "(env_ok E \<and> bt_ok E e s') \<and> bt_kvs e s' = kv_upd k v (bt_kvs e s)" if "bt_put E e k v s s'"
    using that ok bt_insert_safe [of E e s _ k v "Inr s'"] by (auto simp: bt_put_def)
  show "(env_ok E \<and> bt_ok E e s') \<and> bt_kvs e s' = kv_del k (bt_kvs e s) \<and> b = (map_of (bt_kvs e s) k \<noteq> None)"
    if d: "bt_del E e k s b s'"
  proof -
    obtain rts f where "bt_height e s < f" "bt_remove E rts f k e s = Some (Inr (b, s'))" using d by (auto simp: bt_del_def)
    from bt_remove_safe [OF conjunct2 [OF ok] this] show ?thesis using ok by (simp add: bt_map_def)
  qed
  show "r = map_of (bt_kvs e s) k" if "bt_get e k s r"
    using that ok bt_lookup_ok [of E e s _ k] by (fastforce simp: bt_get_def bt_map_def split: option.splits)
qed

section \<open>A small tree\<close>

text \<open>Leaves of two entries and inner nodes of five, a tree of one full leaf, and a supply of page ids.\<close>

definition ex_pid :: "u64 \<Rightarrow> PID" where
  "ex_pid n = \<lparr>PID.id = n\<rparr>"

definition ex_env :: "(int, int) benv" where
  "ex_env = \<lparr>leafMax = 2, innerMax = 5, junkLeaf = (\<lambda>_. (0, [0, 0], [0, 0])),
     junkInner = (\<lambda>_. (0, [0, 0, 0, 0, 0], [EMPTY_PID, EMPTY_PID, EMPTY_PID, EMPTY_PID, EMPTY_PID]))\<rparr>"

definition ex_leaf :: "(int, int) BTreeLeaf" where
  "ex_leaf = \<lparr>lcount = 2, lfences = \<lparr>lowerF = fence_inf 0, upperF = fence_inf 0\<rparr>, lkeys = [1, 3], lpayloads = [10, 30]\<rparr>"

definition ex_store :: "(int, int) bstore" where
  "ex_store = \<lparr>bpages = [ex_pid 1 \<mapsto> EntryPage (ex_pid 2) 0, ex_pid 2 \<mapsto> LeafPage ex_leaf],
     bfree = map ex_pid [3, 4, 5, 6, 7, 8, 9, 10, 11, 12], bnode = 0\<rparr>"

definition undisturbed :: retries where
  "undisturbed = (\<lambda>_ _. False)"

lemma ex_pid_eq [simp]: "ex_pid m = ex_pid n \<longleftrightarrow> m = n"
  by (simp add: ex_pid_def)

lemma ex_env_ok: "env_ok ex_env"
  by (simp add: env_ok_def ex_env_def)

lemma ex_kvs: "leaf_kvs ex_leaf = [(1, 10), (3, 30)]" "leaf_keys ex_leaf = [1, 3]"
  by (simp_all add: ex_leaf_def leaf_kvs_def leaf_keys_def leaf_vals_def)

lemma ex_free: "bfree ex_store = map ex_pid [3, 4, 5, 6, 7, 8, 9, 10, 11, 12]" "free_ok ex_store"
  by (simp_all add: ex_store_def free_ok_def)

lemma ex_store_ok: "bt_ok ex_env (ex_pid 1) ex_store"
  using ex_free(2)
  by (simp add: bt_ok_def ex_store_def ex_env_def leaf_ok_def ex_kvs) (simp add: ex_leaf_def)

lemma ex_store_facts:
  "bt_height (ex_pid 1) ex_store = 0" "bt_seps (ex_pid 1) ex_store = []"
  "bt_map (ex_pid 1) ex_store = [1 \<mapsto> 10, 3 \<mapsto> 30]" "bt_kvs (ex_pid 1) ex_store = [(1, 10), (3, 30)]"
  by (simp_all add: bt_height_def bt_seps_def bt_map_def bt_kvs_def ex_store_def ex_kvs) (auto simp: fun_eq_iff)

lemma undisturbed_clean [simp]: "clean undisturbed"
  by (simp add: clean_def undisturbed_def)

lemma undisturbed_settles: "leaf_settles lf undisturbed \<longleftrightarrow> 0 < lf"
  by (auto simp: leaf_settles_def undisturbed_def)

section \<open>What the operations do\<close>

text \<open>C1: insertion.  With two free page ids per attempt and more undisturbed attempts than there are
  levels plus one, whatever else is disturbed, \<open>insert\<close> returns, the tree is well-formed and its map
  has changed at exactly the inserted key.\<close>

theorem bt_insert_correct:
  assumes "env_ok E" and "bt_ok E e s" and "2 * length rts \<le> length (bfree s)"
    and "bt_height e s + 1 < length (filter clean rts)"
  shows "\<exists>s'. bt_insert E rts k v e s = Some (Inr s') \<and> bt_ok E e s' \<and> bt_map e s' = (bt_map e s)(k \<mapsto> v)"
proof -
  have "bt_insert E rts k v e s \<noteq> None"
    using bt_insert_returns [OF assms(1-3)] bt_need_le [of E k e s] assms(4) by simp
  then obtain r where r: "bt_insert E rts k v e s = Some r" by blast
  from bt_insert_safe [OF assms(1-3) r] show ?thesis
    using r kv_upd_sorted_map(2) [OF bt_kvs_sorted [OF assms(2)]] by (auto simp: bt_map_def)
qed

theorem bt_insert_correct_witness:
  "env_ok ex_env \<and> bt_ok ex_env (ex_pid 1) ex_store \<and> (\<exists>s'. bt_insert ex_env [undisturbed, undisturbed, undisturbed] 2 20 (ex_pid 1) ex_store = Some (Inr s')
     \<and> bt_ok ex_env (ex_pid 1) s' \<and> bt_map (ex_pid 1) s' = [1 \<mapsto> 10, 3 \<mapsto> 30, 2 \<mapsto> 20])"
  using bt_insert_correct [OF ex_env_ok ex_store_ok, of "[undisturbed, undisturbed, undisturbed]" 2 20] ex_env_ok ex_store_ok
  by (simp add: ex_store_facts ex_free del: bt_insert.simps)

text \<open>a restart never shows.  Whatever checks fail, an attempt of \<open>insert\<close> that ends with
  \<open>goto restart\<close> leaves a well-formed tree with unchanged contents, even when it has split a node; no
  attempt fails.\<close>

theorem insert_attempt_restart_invisible:
  assumes "env_ok E" and "bt_ok E e s" and "2 \<le> length (bfree s)"
  shows "case insert_attempt E rt k v e s of
       Inl err \<Rightarrow> False
     | Inr (Restart s') \<Rightarrow> bt_ok E e s' \<and> bt_kvs e s' = bt_kvs e s
     | Inr (Done s' _) \<Rightarrow> bt_ok E e s' \<and> bt_kvs e s' = kv_upd k v (bt_kvs e s)"
  by (rule insert_attempt_cases [OF assms, of rt k v]) simp_all

theorem insert_attempt_restart_invisible_witness:
  "case insert_attempt ex_env undisturbed 2 20 (ex_pid 1) ex_store of
     Inl err \<Rightarrow> False
   | Inr (Restart s') \<Rightarrow> bt_ok ex_env (ex_pid 1) s' \<and> bt_kvs (ex_pid 1) s' = bt_kvs (ex_pid 1) ex_store
   | Inr (Done s' _) \<Rightarrow> bt_ok ex_env (ex_pid 1) s' \<and> bt_kvs (ex_pid 1) s' = kv_upd 2 20 (bt_kvs (ex_pid 1) ex_store)"
  by (rule insert_attempt_restart_invisible [OF ex_env_ok ex_store_ok]) (simp add: ex_free)

text \<open>C5: removal returns whether the key was there, keeps the tree well-formed also when it merges
  leaves, and deletes exactly that key.  \<open>f\<close> bounds the descent.\<close>

theorem bt_remove_correct:
  assumes "bt_ok E e s" and "bt_height e s < f" and "\<exists>rt\<in>set rts. clean rt"
  shows "\<exists>s'. bt_remove E rts f k e s = Some (Inr (bt_map e s k \<noteq> None, s')) \<and> bt_ok E e s'
     \<and> bt_map e s' = (bt_map e s)(k := None)"
proof -
  obtain r where r: "bt_remove E rts f k e s = Some r" using bt_remove_returns [OF assms, of k] by blast
  from bt_remove_safe [OF assms(1,2) r] show ?thesis
    using r kv_del_sorted_map(2) [OF bt_kvs_sorted [OF assms(1)]] by (auto simp: bt_map_def)
qed

theorem bt_remove_correct_witness:
  "\<exists>s'. bt_remove ex_env [undisturbed] 1 3 (ex_pid 1) ex_store = Some (Inr (True, s')) \<and> bt_ok ex_env (ex_pid 1) s'
     \<and> bt_map (ex_pid 1) s' = [1 \<mapsto> 10]"
  using bt_remove_correct [OF ex_store_ok, of 1 "[undisturbed]" 3] by (simp add: ex_store_facts del: bt_remove.simps)

text \<open>\<open>lookup\<close> returns the value of a key that is present; for an absent key it never returns false
  but fails.\<close>

theorem bt_lookup_correct:
  assumes "bt_ok E e s" and "\<exists>rt\<in>set rts. clean rt"
  shows "case bt_map e s k of
       Some v \<Rightarrow> bt_lookup rts k e s = Some (Inr v)
     | None \<Rightarrow> \<exists>err. bt_lookup rts k e s = Some (Inl err)"
proof -
  obtain r where r: "bt_lookup rts k e s = Some r" using bt_lookup_returns [OF assms, of k] by blast
  from bt_lookup_ok [OF assms(1) r] r show ?thesis by (auto split: option.splits)
qed

theorem bt_lookup_correct_witness:
  "bt_lookup [undisturbed] 3 (ex_pid 1) ex_store = Some (Inr 30) \<and> (\<exists>err. bt_lookup [undisturbed] 2 (ex_pid 1) ex_store = Some (Inl err))"
  using bt_lookup_correct [OF ex_store_ok, of "[undisturbed]" 3] bt_lookup_correct [OF ex_store_ok, of "[undisturbed]" 2]
  by (simp add: ex_store_facts del: bt_lookup.simps)

text \<open>\<open>lookupAndUpdate\<close> applies the callback to the value of a present key and to nothing else;
  for an absent key it fails its \<open>ensure(false)\<close>.\<close>

theorem bt_lookupAndUpdate_correct:
  assumes "bt_ok E e s" and "\<exists>rt\<in>set rts. clean rt"
  shows "case bt_map e s k of
       Some v \<Rightarrow> \<exists>s'. bt_lookupAndUpdate rts k f e s = Some (Inr s') \<and> bt_ok E e s' \<and> bt_map e s' = (bt_map e s)(k \<mapsto> f v)
     | None \<Rightarrow> bt_lookupAndUpdate rts k f e s = Some (Inl Ensure_failed)"
proof -
  obtain r where r: "bt_lookupAndUpdate rts k f e s = Some r" using bt_lookupAndUpdate_returns [OF assms, of k f] by blast
  show ?thesis
    using bt_lookupAndUpdate_ok [OF assms(1) r] r kv_upd_sorted_map(2) [OF bt_kvs_sorted [OF assms(1)]]
    by (auto simp: bt_map_def split: option.splits)
qed

theorem bt_lookupAndUpdate_correct_witness:
  "\<exists>s'. bt_lookupAndUpdate [undisturbed] 3 (\<lambda>x. x + 1) (ex_pid 1) ex_store = Some (Inr s') \<and> bt_ok ex_env (ex_pid 1) s'
     \<and> bt_map (ex_pid 1) s' = [1 \<mapsto> 10, 3 \<mapsto> 31]"
  using bt_lookupAndUpdate_correct [OF ex_store_ok, of "[undisturbed]" 3 "\<lambda>x. x + 1"]
  by (simp add: ex_store_facts del: bt_lookupAndUpdate.simps)

text \<open>The optimistic lookups hold no latch on the leaf and validate afterwards.  Given an undisturbed
  attempt, and in every attempt a round of the leaf loop that validates, they return.  The one with a
  visitor has called it at least once and only with the value of the key; the other has copied that value;
  for an absent key both fail.\<close>

theorem bt_lookup_opt_correct:
  assumes "bt_ok E e s" and "\<exists>rt\<in>set rts. clean rt" and "\<forall>rt\<in>set rts. leaf_settles lf rt"
  shows "case bt_map e s k of
       Some v \<Rightarrow> (\<exists>vs. bt_lookup_opt rts lf k e s [] = Some (Inr vs) \<and> vs \<noteq> [] \<and> (\<forall>x\<in>set vs. x = v))
          \<and> bt_lookup_optValue rts lf k e s = Some (Inr v)
     | None \<Rightarrow> bt_lookup_opt rts lf k e s [] = Some (Inl Ensure_failed)
          \<and> (\<exists>err. bt_lookup_optValue rts lf k e s = Some (Inl err))"
proof -
  obtain r where r: "bt_lookup_opt rts lf k e s [] = Some r" using bt_lookup_opt_returns [OF assms, of "[]" k] by auto
  show ?thesis
    using bt_lookup_opt_ok [OF assms(1) r] r bt_lookup_optValue_ok [OF assms, of k] by (auto split: option.splits)
qed

theorem bt_lookup_opt_correct_witness:
  "(\<exists>vs. bt_lookup_opt [undisturbed] 1 3 (ex_pid 1) ex_store [] = Some (Inr vs) \<and> set vs = {30})
     \<and> bt_lookup_optValue [undisturbed] 1 3 (ex_pid 1) ex_store = Some (Inr 30)"
  using bt_lookup_opt_correct [OF ex_store_ok, of "[undisturbed]" 1 3]
  by (auto simp: ex_store_facts undisturbed_settles simp del: bt_lookup_opt.simps bt_lookup_optValue.simps
      intro!: set_eqI dest!: last_in_set)

text \<open>\<open>lookup\<close> reads \<open>payloads[pos]\<close> before it compares \<open>pos\<close> with \<open>count\<close>: for a key above all keys
  of a full last leaf the read is one element past the array.\<close>

theorem bt_lookup_reads_past_array:
  "bt_ok ex_env (ex_pid 1) ex_store \<and> bt_lookup [undisturbed] 4 (ex_pid 1) ex_store = Some (Inl Out_of_bounds)"
proof -
  have "leaf_lowerBound ex_leaf 4 = 2" by code_simp
  then show ?thesis
    using ex_store_ok
    by (simp add: lookup_attempt_def lookup_descend_def as_entry_def as_leaf_def ex_store_def undisturbed_def array_get_def)
      (simp add: ex_leaf_def)
qed

text \<open>C7: scans.  Given enough undisturbed attempts, an ascending scan from \<open>k\<close> calls the visitor on
  exactly the entries with keys from \<open>k\<close> on, in ascending order, across all leaves and empty leaves,
  until the visitor stops; a descending scan does so for the keys up to \<open>k\<close> in descending order.\<close>

theorem bt_scan_correct:
  assumes "bt_ok E e s" and "bt_height e s < f" and "length (bt_seps e s) + 1 < length (filter clean rts)"
  shows "bt_scan ASC_SCAN rts f k func e s a = Some (Inr (snd (visit_all func (filter (\<lambda>x. k \<le> fst x) (bt_kvs e s)) a)))
     \<and> bt_scan DESC_SCAN rts f k func e s a = Some (Inr (snd (visit_all func (rev (filter (\<lambda>x. fst x \<le> k) (bt_kvs e s))) a)))"
proof -
  have ret: "\<exists>r. scan_loop dir rts f True k func e s a = Some r" for dir
    using scan_loop_returns [OF assms(1,2), of True dir k rts func a] scan_left_le [of dir True k "bt_seps e s"] assms(3) by auto
  have "scan_loop dir rts f True k func e s a = Some (Inr (snd (visit_all func (scan_rest dir True k (bt_kvs e s)) a)))" for dir
    using scan_loop_ok [OF assms(1,2), of True dir k rts func a] ret [of dir] by auto
  then show ?thesis
    by (simp_all add: bt_scan_def scan_rest_def from_key_def upto_key_def)
qed

theorem bt_scan_correct_witness:
  "bt_scan ASC_SCAN [undisturbed, undisturbed] 1 2 (\<lambda>k v a. (True, a @ [(k, v)])) (ex_pid 1) ex_store [] = Some (Inr [(3, 30)])
   \<and> bt_scan DESC_SCAN [undisturbed, undisturbed] 1 3 (\<lambda>k v a. (True, a @ [(k, v)])) (ex_pid 1) ex_store [] = Some (Inr [(3, 30), (1, 10)])"
  using bt_scan_correct [OF ex_store_ok, of 1 "[undisturbed, undisturbed]" 2 "\<lambda>k v a. (True, a @ [(k, v)])" "[]"]
    bt_scan_correct [OF ex_store_ok, of 1 "[undisturbed, undisturbed]" 3 "\<lambda>k v a. (True, a @ [(k, v)])" "[]"]
  by (simp add: ex_store_facts)



text \<open>The constructor yields an empty, well-formed tree.\<close>

theorem new_BTree_correct:
  assumes "env_ok E" and "free_ok s" and "2 \<le> length (bfree s)"
  shows "\<exists>e s'. new_BTree E s = Inr (e, s') \<and> bt_ok E e s' \<and> bt_map e s' = Map.empty"
  using new_BTree_ok [OF assms] by (force simp: bt_map_def)


theorem new_BTree_correct_witness:
  "\<exists>e s'. new_BTree ex_env ex_store = Inr (e, s') \<and> bt_ok ex_env e s' \<and> bt_map e s' = Map.empty"
  using new_BTree_correct [OF ex_env_ok ex_free(2)] by (simp add: ex_free(1))
end
