(* ===== verification/LinkedList.thy ===== *)
theory LinkedList
  imports Defs_PID
begin

text \<open>
  The linked list of pages (storage/datastructures/Vector.hpp), which bulk loads data and shares it between nodes: fixed
  arrays of entries on pages, chained by page ids.  The code is declared not thread safe, so an operation runs alone; a page
  that the store does not have is \<open>Bad_page\<close>, and an allocation functor takes the next page id of a supply whose pages hold
  arbitrary old entries.
\<close>

section \<open>The code\<close>

record 'a LinkedListNode =
  llcount :: nat
  llnext :: PID
  llentries :: "'a list"

record 'a llstore =
  llpages :: "PID \<Rightarrow> 'a LinkedListNode option"
  llepoch :: "PID \<Rightarrow> u64"
  llfree :: "(PID \<times> 'a list) list"

definition ll_maxEntries :: "nat \<Rightarrow> nat" where
  "ll_maxEntries sizeofT = (504 - 8 - 8) div sizeofT"

definition isFull :: "nat \<Rightarrow> 'a LinkedListNode \<Rightarrow> bool" where
  "isFull m n \<longleftrightarrow> llcount n = m"

definition node_push :: "nat \<Rightarrow> 'a \<Rightarrow> 'a LinkedListNode \<Rightarrow> 'a LinkedListNode result" where
  "node_push m element n = ensure (\<not> isFull m n)
     (bind_r (array_set (llentries n) (llcount n) element) (\<lambda>es. Inr (n\<lparr>llentries := es, llcount := llcount n + 1\<rparr>)))"

definition node_get :: "nat \<Rightarrow> 'a LinkedListNode \<Rightarrow> 'a result" where
  "node_get idx n = ensure (idx < llcount n) (array_get (llentries n) idx)"

text \<open>The node behind a guard, writing it back, and a new page with an empty node in it.\<close>

definition as_node :: "PID \<Rightarrow> 'a llstore \<Rightarrow> 'a LinkedListNode result" where
  "as_node p s = (case llpages s p of None \<Rightarrow> Inl Bad_page | Some n \<Rightarrow> Inr n)"

definition set_node :: "PID \<Rightarrow> 'a LinkedListNode \<Rightarrow> 'a llstore \<Rightarrow> 'a llstore" where
  "set_node p n s = s\<lparr>llpages := (llpages s)(p \<mapsto> n)\<rparr>"

definition allocate_node :: "'a llstore \<Rightarrow> (PID \<times> 'a llstore) result" where
  "allocate_node s = (case llfree s of [] \<Rightarrow> Inl Blocked
     | (p, old) # fs \<Rightarrow> Inr (p, set_node p \<lparr>llcount = 0, llnext = EMPTY_PID, llentries = old\<rparr> (s\<lparr>llfree := fs\<rparr>)))"

definition new_LinkedList :: "'a llstore \<Rightarrow> (PID \<times> 'a llstore) result" where
  "new_LinkedList s = bind_r (allocate_node s) (\<lambda>(p, s).
     let s = s\<lparr>llepoch := (llepoch s)(p := NOT 0)\<rparr> in
     bind_r (as_node p s) (\<lambda>n. ensure (llcount n = 0) (ensure (llnext n = EMPTY_PID) (Inr (p, s)))))"

text \<open>The loop that walks to the last page.  On a cyclic chain it does not return: \<open>None\<close>.\<close>

partial_function (option) seek_tail :: "'a llstore \<Rightarrow> PID \<Rightarrow> PID result option" where
  "seek_tail s p = (case as_node p s of
      Inl e \<Rightarrow> Some (Inl e)
    | Inr n \<Rightarrow> if llnext n \<noteq> EMPTY_PID then seek_tail s (llnext n) else Some (Inr p))"

text \<open>Inside the loops: a full node gets a successor, which becomes the current page; then the element is pushed.\<close>

definition make_room :: "nat \<Rightarrow> PID \<Rightarrow> 'a llstore \<Rightarrow> (PID \<times> 'a llstore) result" where
  "make_room m cur s = bind_r (as_node cur s) (\<lambda>n.
     if isFull m n then
       bind_r (allocate_node s) (\<lambda>(p, s).
       bind_r (as_node cur s) (\<lambda>n.
         Inr (p, set_node cur (n\<lparr>llnext := p\<rparr>) s)))
     else Inr (cur, s))"

definition push_at :: "nat \<Rightarrow> PID \<Rightarrow> 'a \<Rightarrow> 'a llstore \<Rightarrow> 'a llstore result" where
  "push_at m cur c s = bind_r (as_node cur s) (\<lambda>n. bind_r (node_push m c n) (\<lambda>n. Inr (set_node cur n s)))"

fun fill_loop :: "nat \<Rightarrow> PID \<Rightarrow> 'a list \<Rightarrow> 'a llstore \<Rightarrow> 'a llstore result" where
  "fill_loop m cur [] s = Inr s"
| "fill_loop m cur (c # content) s =
     bind_r (make_room m cur s) (\<lambda>(cur, s). bind_r (push_at m cur c s) (fill_loop m cur content))"

definition fill :: "nat \<Rightarrow> PID \<Rightarrow> 'a list \<Rightarrow> 'a llstore \<Rightarrow> 'a llstore result option" where
  "fill m head content s = map_option (\<lambda>r. bind_r r (\<lambda>cur. fill_loop m cur content s)) (seek_tail s head)"

text \<open>The iterator is what is left of the vector; reading it at the end is undefined.\<close>

fun fill_iter_loop :: "nat \<Rightarrow> PID \<Rightarrow> nat \<Rightarrow> 'a list \<Rightarrow> 'a llstore \<Rightarrow> ('a list \<times> 'a llstore) result" where
  "fill_iter_loop m cur 0 it s = Inr (it, s)"
| "fill_iter_loop m cur (Suc k) it s =
     bind_r (make_room m cur s) (\<lambda>(cur, s).
       case it of [] \<Rightarrow> Inl Undefined
       | c # it \<Rightarrow> bind_r (push_at m cur c s) (fill_iter_loop m cur k it))"

definition fill_iter :: "nat \<Rightarrow> PID \<Rightarrow> 'a list \<Rightarrow> nat \<Rightarrow> 'a llstore \<Rightarrow> ('a list \<times> 'a llstore) result option" where
  "fill_iter m head startIterator numberElements s =
     map_option (\<lambda>r. bind_r r (\<lambda>cur. fill_iter_loop m cur numberElements startIterator s)) (seek_tail s head)"

text \<open>The two loops that fill in numbers; \<open>k\<close> is the number of elements still to come, \<open>elements\<close> the one pushed next.\<close>

fun fillNumbers_loop :: "nat \<Rightarrow> PID \<Rightarrow> nat \<Rightarrow> u64 \<Rightarrow> u64 llstore \<Rightarrow> u64 llstore result" where
  "fillNumbers_loop m cur 0 elements s = Inr s"
| "fillNumbers_loop m cur (Suc k) elements s =
     bind_r (make_room m cur s) (\<lambda>(cur, s). bind_r (push_at m cur elements s) (fillNumbers_loop m cur k (elements + 1)))"

definition fillNumbers :: "nat \<Rightarrow> PID \<Rightarrow> u64 \<Rightarrow> u64 llstore \<Rightarrow> u64 llstore result option" where
  "fillNumbers m head numberElements s =
     map_option (\<lambda>r. bind_r r (\<lambda>cur. fillNumbers_loop m cur (unat numberElements) 0 s)) (seek_tail s head)"

fun fillNumbers_incr_loop :: "nat \<Rightarrow> (u64 \<Rightarrow> PID \<Rightarrow> 'a) \<Rightarrow> PID \<Rightarrow> nat \<Rightarrow> u64 \<Rightarrow> PID list \<Rightarrow> 'a llstore \<Rightarrow> (PID list \<times> 'a llstore) result" where
  "fillNumbers_incr_loop m incrFunction cur 0 elements pids s = Inr (pids, s)"
| "fillNumbers_incr_loop m incrFunction cur (Suc k) elements pids s =
     bind_r (as_node cur s) (\<lambda>n.
     bind_r (make_room m cur s) (\<lambda>(cur, s).
     let pids = (if isFull m n then pids @ [cur] else pids) in
     bind_r (push_at m cur (incrFunction elements cur) s) (fillNumbers_incr_loop m incrFunction cur k (elements + 1) pids)))"

definition fillNumbers_incr :: "nat \<Rightarrow> PID \<Rightarrow> (u64 \<Rightarrow> PID \<Rightarrow> 'a) \<Rightarrow> u64 \<Rightarrow> PID list \<Rightarrow> 'a llstore \<Rightarrow> (PID list \<times> 'a llstore) result option" where
  "fillNumbers_incr m head incrFunction numberElements pids s =
     map_option (\<lambda>r. bind_r r (\<lambda>cur. fillNumbers_incr_loop m incrFunction cur (unat numberElements) 0 pids s)) (seek_tail s head)"

definition ll_push :: "nat \<Rightarrow> PID \<Rightarrow> 'a \<Rightarrow> 'a llstore \<Rightarrow> 'a llstore result option" where
  "ll_push m head element s = map_option (\<lambda>r. bind_r r (\<lambda>cur.
     bind_r (make_room m cur s) (\<lambda>(cur, s). push_at m cur element s))) (seek_tail s head)"

text \<open>Reading: skip whole pages, then index into the page.\<close>

fun skip_pages :: "nat \<Rightarrow> PID \<Rightarrow> 'a llstore \<Rightarrow> PID result" where
  "skip_pages 0 p s = bind_r (as_node p s) (\<lambda>_. Inr p)"
| "skip_pages (Suc pages) p s = bind_r (as_node p s) (\<lambda>n. skip_pages pages (llnext n) s)"

definition ll_get :: "nat \<Rightarrow> PID \<Rightarrow> nat \<Rightarrow> 'a llstore \<Rightarrow> 'a result" where
  "ll_get m head idx s =
     bind_r (skip_pages (idx div m) head s) (\<lambda>p.
     bind_r (as_node p s) (\<lambda>n.
       let page_idx = idx mod m in ensure (page_idx < llcount n) (array_get (llentries n) page_idx)))"

text \<open>The inner loop of \<open>applyToRange\<close> over one node: where the range ends inside the node it returns (\<open>True\<close>).\<close>

function apply_node :: "('a \<Rightarrow> 'w \<Rightarrow> 'w) \<Rightarrow> 'a LinkedListNode \<Rightarrow> nat \<Rightarrow> nat \<Rightarrow> nat \<Rightarrow> 'w \<Rightarrow> (bool \<times> nat \<times> 'w) result" where
  "apply_node func n page_idx startIdx endIdx w =
     (if page_idx < llcount n then
        if startIdx = endIdx then Inr (True, startIdx, w)
        else bind_r (array_get (llentries n) page_idx) (\<lambda>x. apply_node func n (page_idx + 1) (startIdx + 1) endIdx (func x w))
      else Inr (False, startIdx, w))"
  by auto
termination
  by (relation "measure (\<lambda>(func, n, page_idx, _). llcount n - page_idx)") auto

declare apply_node.simps [simp del]

partial_function (option) apply_pages :: "('a \<Rightarrow> 'w \<Rightarrow> 'w) \<Rightarrow> PID \<Rightarrow> nat \<Rightarrow> nat \<Rightarrow> nat \<Rightarrow> 'a llstore \<Rightarrow> 'w \<Rightarrow> 'w result option" where
  "apply_pages func p page_idx startIdx endIdx s w =
     (if startIdx < endIdx then
        case bind_r (as_node p s) (\<lambda>n. bind_r (apply_node func n page_idx startIdx endIdx w) (\<lambda>r. Inr (n, r))) of
          Inl e \<Rightarrow> Some (Inl e)
        | Inr (n, returned, startIdx, w) \<Rightarrow>
            if returned \<or> startIdx = endIdx then Some (Inr w)
            else (case as_node (llnext n) s of
                Inl e \<Rightarrow> Some (Inl e)
              | Inr _ \<Rightarrow> apply_pages func (llnext n) 0 startIdx endIdx s w)
      else Some (Inr w))"

definition applyToRange :: "nat \<Rightarrow> PID \<Rightarrow> ('a \<Rightarrow> 'w \<Rightarrow> 'w) \<Rightarrow> nat \<Rightarrow> nat \<Rightarrow> 'a llstore \<Rightarrow> 'w \<Rightarrow> 'w result option" where
  "applyToRange m head func startIdx endIdx s w =
     (case bind_r (skip_pages (startIdx div m) head s) (\<lambda>p. bind_r (as_node p s) (\<lambda>n. ensure (startIdx mod m < llcount n) (Inr p))) of
        Inl e \<Rightarrow> Some (Inl e)
      | Inr p \<Rightarrow> apply_pages func p (startIdx mod m) startIdx endIdx s w)"

section \<open>What a list holds\<close>

text \<open>The pages of a list in order, the entries of a node, and the representation: all pages but the last one are full.\<close>

fun chain :: "'a llstore \<Rightarrow> PID \<Rightarrow> PID list \<Rightarrow> bool" where
  "chain s p [] \<longleftrightarrow> p = EMPTY_PID"
| "chain s p (q # qs) \<longleftrightarrow> p = q \<and> p \<noteq> EMPTY_PID \<and> (\<exists>n. llpages s p = Some n \<and> chain s (llnext n) qs)"

definition node_contents :: "'a LinkedListNode \<Rightarrow> 'a list" where
  "node_contents n = take (llcount n) (llentries n)"

definition page_contents :: "'a llstore \<Rightarrow> PID \<Rightarrow> 'a list" where
  "page_contents s p = (case llpages s p of None \<Rightarrow> [] | Some n \<Rightarrow> node_contents n)"

definition node_ok :: "nat \<Rightarrow> 'a llstore \<Rightarrow> PID \<Rightarrow> bool" where
  "node_ok m s p \<longleftrightarrow> (case llpages s p of None \<Rightarrow> False | Some n \<Rightarrow> length (llentries n) = m \<and> llcount n \<le> m)"

definition ll_rep :: "nat \<Rightarrow> 'a llstore \<Rightarrow> PID \<Rightarrow> PID list \<Rightarrow> PID \<Rightarrow> 'a list \<Rightarrow> bool" where
  "ll_rep m s head ps p xs \<longleftrightarrow> chain s head (ps @ [p]) \<and> distinct (ps @ [p]) \<and> (\<forall>q\<in>set (ps @ [p]). node_ok m s q)
     \<and> (\<forall>q\<in>set ps. length (page_contents s q) = m) \<and> xs = concat (map (page_contents s) (ps @ [p])) \<and> llpages s EMPTY_PID = None"

definition supply_ok :: "nat \<Rightarrow> 'a llstore \<Rightarrow> bool" where
  "supply_ok m s \<longleftrightarrow> distinct (map fst (llfree s)) \<and> (\<forall>x\<in>set (llfree s). llpages s (fst x) = None \<and> fst x \<noteq> EMPTY_PID \<and> length (snd x) = m)"

lemma as_node_eq [simp]: "as_node p s = Inr n \<longleftrightarrow> llpages s p = Some n" "llpages s p = None \<Longrightarrow> as_node p s = Inl Bad_page"
  by (auto simp: as_node_def split: option.splits)

lemma as_node_Some [simp]: "llpages s p = Some n \<Longrightarrow> as_node p s = Inr n"
  by simp

lemma set_node_simps [simp]: "llpages (set_node p n s) = (llpages s)(p \<mapsto> n)" "llfree (set_node p n s) = llfree s" "llepoch (set_node p n s) = llepoch s"
  by (simp_all add: set_node_def)

lemma chain_cong: "(\<And>q. q \<in> set qs \<Longrightarrow> llpages s' q = llpages s q) \<Longrightarrow> chain s' p qs \<longleftrightarrow> chain s p qs"
  by (induction s p qs rule: chain.induct) auto

text \<open>Changing the last page: a node with the same successor, or one with a further page behind it.\<close>

lemma chain_last:
  assumes "chain s p (qs @ [q])" and "q \<notin> set qs" and "llnext n = EMPTY_PID"
    and "\<And>r. r \<in> set qs \<Longrightarrow> llpages s' r = llpages s r" and "llpages s' q = Some n"
  shows "chain s' p (qs @ [q])"
  using assms(1,2,4)
proof (induction qs arbitrary: p)
  case Nil
  then show ?case using assms(3,5) by auto
next
  case (Cons r qs)
  then show ?case by auto
qed

lemma chain_extend:
  assumes "chain s p (qs @ [q])" and "q \<notin> set qs" and "llnext n = u" and "u \<noteq> EMPTY_PID" and "llnext v = EMPTY_PID"
    and "\<And>r. r \<in> set qs \<Longrightarrow> llpages s' r = llpages s r" and "llpages s' q = Some n" and "llpages s' u = Some v"
  shows "chain s' p (qs @ [q, u])"
  using assms(1,2,6)
proof (induction qs arbitrary: p)
  case Nil
  then show ?case using assms(3-5,7,8) by auto
next
  case (Cons r qs)
  then show ?case by auto
qed

lemma chain_tail_node: "chain s p (qs @ [q]) \<Longrightarrow> \<exists>n. llpages s q = Some n \<and> llnext n = EMPTY_PID"
  by (induction qs arbitrary: p) auto

lemma seek_tail_chain: "chain s p (qs @ [q]) \<Longrightarrow> seek_tail s p = Some (Inr q)"
proof (induction qs arbitrary: p)
  case Nil
  then show ?case by (subst seek_tail.simps) auto
next
  case (Cons r qs)
  then obtain n where n: "llpages s p = Some n" "chain s (llnext n) (qs @ [q])" by auto
  then have "llnext n \<noteq> EMPTY_PID" by (cases qs) auto
  then show ?case using n Cons.IH [OF n(2)] by (subst seek_tail.simps) simp
qed

lemma page_contents_Some [simp]: "llpages s p = Some n \<Longrightarrow> page_contents s p = node_contents n"
  by (simp add: page_contents_def)

lemma page_contents_cong: "llpages s' q = llpages s q \<Longrightarrow> page_contents s' q = page_contents s q"
  by (simp add: page_contents_def)

lemma node_ok_cong: "llpages s' q = llpages s q \<Longrightarrow> node_ok m s' q \<longleftrightarrow> node_ok m s q"
  by (simp add: node_ok_def)

text \<open>Pushing into a node with room.\<close>

lemma push_at_rep:
  assumes "ll_rep m s head ps p xs" and "length (page_contents s p) < m"
  obtains s' where "push_at m p c s = Inr s'" "ll_rep m s' head ps p (xs @ [c])" "length (page_contents s' p) = Suc (length (page_contents s p))"
    "llfree s' = llfree s" "dom (llpages s') = dom (llpages s)"
proof -
  have r: "chain s head (ps @ [p])" "p \<notin> set ps" "node_ok m s p" using assms(1) by (auto simp: ll_rep_def)
  obtain n where n: "llpages s p = Some n" "llnext n = EMPTY_PID" using chain_tail_node [OF r(1)] by blast
  have len: "length (llentries n) = m" "llcount n < m" using r(3) n(1) assms(2) by (auto simp: node_ok_def node_contents_def)
  let ?n = "n\<lparr>llentries := (llentries n)[llcount n := c], llcount := llcount n + 1\<rparr>" and ?s = "set_node p (n\<lparr>llentries := (llentries n)[llcount n := c], llcount := llcount n + 1\<rparr>) s"
  have c: "node_contents ?n = node_contents n @ [c]" using len by (simp add: node_contents_def take_Suc_conv_app_nth)
  have same: "llpages ?s q = llpages s q" if "q \<in> set ps" for q using that r(2) by auto
  have map: "map (page_contents ?s) ps = map (page_contents s) ps" using page_contents_cong [OF same] by simp
  have chain: "chain ?s head (ps @ [p])" by (rule chain_last [OF r(1,2)]) (use n(2) same in auto)
  have ok: "node_ok m ?s q" if "q \<in> set (ps @ [p])" for q
    using that assms(1) node_ok_cong [OF same, of q m] len by (cases "q = p") (auto simp: ll_rep_def node_ok_def)
  have full: "length (page_contents ?s q) = m" if "q \<in> set ps" for q
    using that assms(1) page_contents_cong [OF same [OF that]] by (simp add: ll_rep_def)
  have "p \<noteq> EMPTY_PID" "llpages s EMPTY_PID = None" using assms(1) n(1) by (auto simp: ll_rep_def)
  then have empty: "llpages ?s EMPTY_PID = None" by simp
  have cs: "page_contents ?s p = page_contents s p @ [c]" using c n(1) by simp
  have xs: "xs = concat (map (page_contents s) ps) @ page_contents s p" and d: "distinct (ps @ [p])" using assms(1) by (simp_all add: ll_rep_def)
  have "xs @ [c] = concat (map (page_contents ?s) (ps @ [p]))"
    unfolding map_append concat_append map xs using cs by simp
  then have "ll_rep m ?s head ps p (xs @ [c])" unfolding ll_rep_def using chain ok full empty d by blast
  moreover have "push_at m p c s = Inr ?s" using n len by (simp add: push_at_def node_push_def isFull_def array_set_def)
  moreover have "dom (llpages ?s) = dom (llpages s)" using n(1) by auto
  ultimately show ?thesis using that [of ?s] cs by simp
qed

text \<open>A full last node gets a fresh successor.\<close>

lemma make_room_rep:
  assumes rep: "ll_rep m s head ps p xs" and sup: "supply_ok m s" and free: "length (page_contents s p) < m \<or> llfree s \<noteq> []" and m: "0 < m"
  obtains ps' p' s' where "make_room m p s = Inr (p', s')" "ll_rep m s' head ps' p' xs" "supply_ok m s'" "length (page_contents s' p') < m"
    "if length (page_contents s p) < m then s' = s \<and> p' = p \<and> ps' = ps
     else ps' = ps @ [p] \<and> page_contents s' p' = [] \<and> (\<exists>old. llfree s = (p', old) # llfree s')"
proof -
  have r: "chain s head (ps @ [p])" "p \<notin> set ps" "node_ok m s p" "distinct ps" using rep by (auto simp: ll_rep_def)
  obtain n where n: "llpages s p = Some n" "llnext n = EMPTY_PID" using chain_tail_node [OF r(1)] by blast
  have len: "length (llentries n) = m" "llcount n \<le> m" "length (page_contents s p) = llcount n" using r(3) n(1) by (auto simp: node_ok_def node_contents_def)
  show ?thesis
  proof (cases "llcount n < m")
    case True
    then have "make_room m p s = Inr (p, s)" using n by (simp add: make_room_def isFull_def)
    then show ?thesis using that [of p s ps] rep sup True len(3) by simp
  next
    case False
    then have full: "llcount n = m" using len(2) by simp
    obtain u old fs where f: "llfree s = (u, old) # fs" using free False len(3) by (cases "llfree s") auto
    have u: "llpages s u = None" "u \<noteq> EMPTY_PID" "length old = m" "u \<notin> fst ` set fs" using sup f by (auto simp: supply_ok_def)
    let ?v = "\<lparr>llcount = 0, llnext = EMPTY_PID, llentries = old\<rparr>" and ?n = "n\<lparr>llnext := u\<rparr>"
    let ?s = "set_node p ?n (set_node u ?v (s\<lparr>llfree := fs\<rparr>))"
    have up: "u \<noteq> p" "u \<notin> set ps" using u(1) n(1) rep by (auto simp: ll_rep_def node_ok_def)
    have same: "llpages ?s q = llpages s q" if "q \<in> set ps" for q using that r(2) up by auto
    have chain: "chain ?s head (ps @ [p, u])" by (rule chain_extend [OF r(1,2), of ?n u ?v]) (use u(2) up same in auto)
    have pc: "page_contents ?s q = page_contents s q" if "q \<in> set (ps @ [p])" for q
      using that page_contents_cong [OF same] n(1) by (cases "q = p") (auto simp: node_contents_def)
    have pu: "page_contents ?s u = []" using up by (simp add: node_contents_def)
    have ok: "node_ok m ?s q" if "q \<in> set (ps @ [p, u])" for q
      using that rep node_ok_cong [OF same, of q m] len(1,2) u(3) up n(1) by (cases "q = p \<or> q = u") (auto simp: ll_rep_def node_ok_def)
    have map: "map (page_contents ?s) (ps @ [p]) = map (page_contents s) (ps @ [p])" using pc by (intro map_cong) auto
    have "concat (map (page_contents ?s) ((ps @ [p]) @ [u])) = concat (map (page_contents s) (ps @ [p]))"
      unfolding map_append [of _ "ps @ [p]" "[u]"] map using pu by simp
    moreover have "xs = concat (map (page_contents s) (ps @ [p]))" "llpages s EMPTY_PID = None" "p \<noteq> EMPTY_PID" using rep n(1) by (auto simp: ll_rep_def)
    moreover have "length (page_contents ?s q) = m" if "q \<in> set (ps @ [p])" for q
      using pc [OF that] that rep full len(3) by (auto simp: ll_rep_def)
    ultimately have "ll_rep m ?s head (ps @ [p]) u xs" unfolding ll_rep_def using chain ok u(2) up r(2,4) by auto
    moreover have "supply_ok m ?s" using sup f u(4) n(1) by (auto simp: supply_ok_def image_iff)
    moreover have "make_room m p s = Inr (u, ?s)" using n f up full by (simp add: make_room_def isFull_def allocate_node_def)
    ultimately show ?thesis using that [of u ?s "ps @ [p]"] pu f full len(3) m by simp
  qed
qed

text \<open>What is left on the last page and the supply is the room for further entries.\<close>

definition room :: "nat \<Rightarrow> 'a llstore \<Rightarrow> PID \<Rightarrow> nat" where
  "room m s p = m * length (llfree s) + (m - length (page_contents s p))"

lemma append_rep:
  assumes rep: "ll_rep m s head ps p xs" and sup: "supply_ok m s" and room: "0 < room m s p" and m: "0 < m"
  obtains ps1 p' s1 s' where "make_room m p s = Inr (p', s1)" "push_at m p' c s1 = Inr s'"
    "ll_rep m s' head ps1 p' (xs @ [c])" "supply_ok m s'" "room m s' p' = room m s p - 1"
    "page_contents s' p' \<noteq> []" "if length (page_contents s p) < m then ps1 = ps \<and> p' = p else ps1 = ps @ [p]"
proof -
  have "node_ok m s p" using rep by (simp add: ll_rep_def)
  then have le: "length (page_contents s p) \<le> m" by (auto simp: node_ok_def page_contents_def node_contents_def split: option.splits)
  have "length (page_contents s p) < m \<or> llfree s \<noteq> []" using room by (auto simp: room_def)
  then obtain ps1 p' s1 where a: "make_room m p s = Inr (p', s1)" "ll_rep m s1 head ps1 p' xs" "supply_ok m s1" "length (page_contents s1 p') < m"
    and c: "if length (page_contents s p) < m then s1 = s \<and> p' = p \<and> ps1 = ps
      else ps1 = ps @ [p] \<and> page_contents s1 p' = [] \<and> (\<exists>old. llfree s = (p', old) # llfree s1)"
    using make_room_rep [OF rep sup _ m] by metis
  obtain s' where b: "push_at m p' c s1 = Inr s'" "ll_rep m s' head ps1 p' (xs @ [c])" "length (page_contents s' p') = Suc (length (page_contents s1 p'))"
    "llfree s' = llfree s1" "dom (llpages s') = dom (llpages s1)"
    using push_at_rep [OF a(2,4)] by blast
  have n: "llpages s' q = None \<longleftrightarrow> llpages s1 q = None" for q using b(5) by (metis domIff)
  have "supply_ok m s'" using a(3) b(4) n by (simp add: supply_ok_def)
  moreover have "room m s' p' = room m s p - 1"
    using c a(4) b(3,4) le by (auto simp: room_def algebra_simps split: if_splits)
  moreover have "page_contents s' p' \<noteq> []" using b(3) by auto
  ultimately show ?thesis using that [OF a(1) b(1,2)] c by (auto split: if_splits)
qed

lemma fill_loop_rep:
  assumes "ll_rep m s head ps p xs" and "supply_ok m s" and "length cs \<le> room m s p" and "0 < m"
  shows "\<exists>s' ps' p'. fill_loop m p cs s = Inr s' \<and> ll_rep m s' head ps' p' (xs @ cs) \<and> supply_ok m s'"
  using assms(1-3)
proof (induction cs arbitrary: s ps p xs)
  case Nil
  then show ?case by auto
next
  case (Cons c cs)
  obtain ps1 p' s1 s' where a: "make_room m p s = Inr (p', s1)" "push_at m p' c s1 = Inr s'"
    "ll_rep m s' head ps1 p' (xs @ [c])" "supply_ok m s'" "room m s' p' = room m s p - 1"
    using append_rep [OF Cons.prems(1,2) _ assms(4), of c] Cons.prems(3) by (metis length_Cons less_le_trans zero_less_Suc)
  show ?case using Cons.IH [OF a(3,4)] a(1,2,5) Cons.prems(3) by simp
qed

lemma fill_iter_loop_eq:
  "k \<le> length it \<Longrightarrow> fill_iter_loop m p k it s = bind_r (fill_loop m p (take k it) s) (\<lambda>s. Inr (drop k it, s))"
proof (induction k arbitrary: it p s)
  case 0
  then show ?case by simp
next
  case (Suc k)
  then obtain c it' where it: "it = c # it'" "k \<le> length it'" by (cases it) auto
  have "bind_r (push_at m q c t) (fill_iter_loop m q k it') =
      bind_r (bind_r (push_at m q c t) (fill_loop m q (take k it'))) (\<lambda>s. Inr (drop k it', s))" for q t
    using Suc.IH [OF it(2)] by (cases "push_at m q c t") simp_all
  then show ?case using it(1) by (cases "make_room m p s") (simp_all add: case_prod_unfold)
qed

lemma fillNumbers_loop_eq: "fillNumbers_loop m p k e s = fill_loop m p (map (\<lambda>i. e + of_nat i) [0..<k]) s"
proof (induction k arbitrary: p e s)
  case 0
  then show ?case by simp
next
  case (Suc k)
  have "map (\<lambda>i. e + of_nat i) [0..<Suc k] = e # map (\<lambda>i. (e + 1) + of_nat i) [0..<k]"
    by (simp add: upt_conv_Cons map_Suc_upt [symmetric] comp_def add.assoc del: upt_Suc)
  moreover have "fillNumbers_loop m q k (e + 1) = fill_loop m q (map (\<lambda>i. (e + 1) + of_nat i) [0..<k])" for q
    using Suc.IH by blast
  ultimately show ?case by (simp del: upt_Suc)
qed

section \<open>Positions\<close>

lemma concat_blocks:
  assumes "\<forall>ys\<in>set yss. length ys = m" and "length zs \<le> m" and "i < m * length yss + length zs"
  shows "i div m \<le> length yss \<and> i mod m < length ((yss @ [zs]) ! (i div m))
    \<and> drop i (concat (yss @ [zs])) = drop (i mod m) ((yss @ [zs]) ! (i div m)) @ concat (drop (Suc (i div m)) (yss @ [zs]))"
  using assms
proof (induction yss arbitrary: i)
  case Nil
  then show ?case by simp
next
  case (Cons ys yss)
  have ys: "length ys = m" using Cons.prems(1) by simp
  show ?case
  proof (cases "i < m")
    case True
    then show ?thesis using ys by simp
  next
    case False
    then have i: "i - m < m * length yss + length zs" using Cons.prems(3) by simp
    have m: "0 < m" using Cons.prems(2) i by (cases m) auto
    have d: "i div m = Suc ((i - m) div m)" "i mod m = (i - m) mod m" using False m by (simp_all add: le_div_geq le_mod_geq)
    show ?thesis using Cons.IH [OF _ Cons.prems(2) i] Cons.prems(1) d ys False by simp
  qed
qed

lemma concat_length_blocks: "\<forall>ys\<in>set yss. length ys = m \<Longrightarrow> length (concat (yss @ [zs])) = m * length yss + length zs"
  by (induction yss) auto

lemma ll_rep_position:
  assumes rep: "ll_rep m s head ps p xs"
  shows "length xs = m * length ps + length (page_contents s p)"
    and "i < length xs \<Longrightarrow> i div m \<le> length ps \<and> i mod m < length (page_contents s ((ps @ [p]) ! (i div m)))
      \<and> drop i xs = drop (i mod m) (page_contents s ((ps @ [p]) ! (i div m))) @ concat (map (page_contents s) (drop (Suc (i div m)) (ps @ [p])))"
proof -
  have full: "\<forall>ys\<in>set (map (page_contents s) ps). length ys = m" and ok: "node_ok m s p" and xs: "xs = concat (map (page_contents s) ps @ [page_contents s p])"
    using rep by (simp_all add: ll_rep_def)
  show len: "length xs = m * length ps + length (page_contents s p)" unfolding xs concat_length_blocks [OF full] by simp
  have le: "length (page_contents s p) \<le> m"
    using ok by (auto simp: node_ok_def page_contents_def node_contents_def split: option.splits)
  assume "i < length xs"
  then have i: "i < m * length (map (page_contents s) ps) + length (page_contents s p)" using len by simp
  have d: "i div m \<le> length ps" using concat_blocks [OF full le i] by simp
  then have nth: "(map (page_contents s) ps @ [page_contents s p]) ! (i div m) = page_contents s ((ps @ [p]) ! (i div m))"
    by (cases "i div m = length ps") (simp_all add: nth_append)
  show "i div m \<le> length ps \<and> i mod m < length (page_contents s ((ps @ [p]) ! (i div m)))
      \<and> drop i xs = drop (i mod m) (page_contents s ((ps @ [p]) ! (i div m))) @ concat (map (page_contents s) (drop (Suc (i div m)) (ps @ [p])))"
    using concat_blocks [OF full le i] unfolding nth xs [symmetric]
    by (cases "Suc (i div m) - length ps") (simp_all add: drop_map)
qed

lemma last_position:
  assumes rep: "ll_rep m s head ps p (xs @ [c])" and "page_contents s p \<noteq> []" and "0 < m"
  shows "length xs div m = length ps"
proof -
  have "length (page_contents s p) \<le> m" using rep by (auto simp: ll_rep_def node_ok_def page_contents_def node_contents_def split: option.splits)
  moreover have "length xs + 1 = m * length ps + length (page_contents s p)" using ll_rep_position(1) [OF rep] by simp
  moreover have "0 < length (page_contents s p)" using assms(2) by simp
  ultimately have "length xs = m * length ps + (length (page_contents s p) - 1)" "length (page_contents s p) - 1 < m" by linarith+
  then show ?thesis using assms(3) by simp
qed

lemma skip_pages_chain: "chain s p qs \<Longrightarrow> k < length qs \<Longrightarrow> skip_pages k p s = Inr (qs ! k) \<and> chain s (qs ! k) (drop k qs)"
  by (induction k arbitrary: p qs; case_tac qs) auto

lemma skip_pages_beyond: "chain s p qs \<Longrightarrow> length qs \<le> k \<Longrightarrow> llpages s EMPTY_PID = None \<Longrightarrow> skip_pages k p s = Inl Bad_page"
proof (induction qs arbitrary: p k)
  case Nil
  then show ?case by (cases k) simp_all
next
  case (Cons q qs)
  then obtain k' where "k = Suc k'" by (cases k) auto
  then show ?case using Cons by auto
qed

text \<open>The page that holds position \<open>i\<close>, where one exists.\<close>

lemma locate:
  assumes rep: "ll_rep m s head ps p xs"
  shows "bind_r (skip_pages (i div m) head s) (\<lambda>q. bind_r (as_node q s) (\<lambda>n. ensure (i mod m < llcount n) (Inr q))) =
    (if i < length xs then Inr ((ps @ [p]) ! (i div m)) else if i div m \<le> length ps then Inl Ensure_failed else Inl Bad_page)"
proof (cases "i div m \<le> length ps")
  case True
  have chain: "chain s head (ps @ [p])" using rep by (simp add: ll_rep_def)
  have skip: "skip_pages (i div m) head s = Inr ((ps @ [p]) ! (i div m))" using skip_pages_chain [OF chain, of "i div m"] True by simp
  have "(ps @ [p]) ! (i div m) \<in> set (ps @ [p])" using True by (intro nth_mem) simp
  then have "node_ok m s ((ps @ [p]) ! (i div m))" using rep unfolding ll_rep_def by blast
  then obtain n where n: "llpages s ((ps @ [p]) ! (i div m)) = Some n" "length (llentries n) = m" "llcount n \<le> m"
    by (auto simp: node_ok_def split: option.splits)
  have "i mod m < llcount n \<longleftrightarrow> i < length xs"
  proof (cases "i < length xs")
    case True
    then show ?thesis using ll_rep_position(2) [OF rep True] n by (simp add: node_contents_def)
  next
    case False
    have l: "m * length ps + length (page_contents s p) \<le> i" using False ll_rep_position(1) [OF rep] by simp
    have "m * (i div m) + i mod m = i" by simp
    moreover have "m * (i div m) \<le> m * length ps" using \<open>i div m \<le> length ps\<close> by simp
    ultimately have "length (page_contents s p) \<le> i mod m" "m = 0 \<or> i div m = length ps"
      using l \<open>i div m \<le> length ps\<close> by (linarith, smt (verit) add_leD1 div_le_mono le_antisym le_neq_implies_less less_nat_zero_code mult_div_mod_eq nonzero_mult_div_cancel_left)
    then show ?thesis using False n by (auto simp: node_contents_def)
  qed
  then show ?thesis using skip n True by (simp add: ensure_def)
next
  case False
  have "chain s head (ps @ [p])" "llpages s EMPTY_PID = None" using rep by (simp_all add: ll_rep_def)
  then have "skip_pages (i div m) head s = Inl Bad_page" using skip_pages_beyond [of s head "ps @ [p]" "i div m"] False by simp
  moreover have "\<not> i < length xs" using ll_rep_position(2) [OF rep] False by blast
  ultimately show ?thesis using False by simp
qed

section \<open>Reading\<close>

lemma apply_node_spec:
  assumes "length (llentries n) = m" and "llcount n \<le> m" and "i \<le> llcount n" and "a \<le> b"
  shows "apply_node func n i a b w = Inr (b - a < llcount n - i, a + min (llcount n - i) (b - a), fold func (take (b - a) (drop i (node_contents n))) w)"
  using assms
proof (induction func n i a b w rule: apply_node.induct)
  case (1 func n i a b w)
  show ?case
  proof (cases "i < llcount n \<and> a < b")
    case True
    then have "drop i (node_contents n) = llentries n ! i # drop (Suc i) (node_contents n)"
      using 1(2,3) by (simp add: node_contents_def flip: Cons_nth_drop_Suc)
    moreover have "b - a = Suc (b - Suc a)" "min (llcount n - i) (b - a) = Suc (min (llcount n - Suc i) (b - Suc a))" using True by auto
    ultimately show ?thesis using 1 True by (subst apply_node.simps) auto
  next
    case False
    then show ?thesis using 1(2-5) by (subst apply_node.simps) (auto simp: node_contents_def)
  qed
qed

lemma apply_pages_chain:
  assumes "chain s p (p # qs)" and "\<forall>q\<in>set (p # qs). node_ok m s q" and "llpages s EMPTY_PID = None" and "i \<le> length (page_contents s p)" and "a \<le> b"
  shows "apply_pages func p i a b s w =
    (let rest = drop i (page_contents s p) @ concat (map (page_contents s) qs)
     in Some (if b - a \<le> length rest then Inr (fold func (take (b - a) rest) w) else Inl Bad_page))"
  using assms
proof (induction qs arbitrary: p i a w)
  case Nil
  obtain n where n: "llpages s p = Some n" "llnext n = EMPTY_PID" using Nil.prems(1) by auto
  have ok: "length (llentries n) = m" "llcount n \<le> m" "i \<le> llcount n" "length (node_contents n) = llcount n"
    using Nil.prems(2,4) n(1) by (auto simp: node_ok_def node_contents_def)
  show ?case using n apply_node_spec [OF ok(1-3) Nil.prems(5), of func w] Nil.prems(3,5) ok(4)
    by (subst apply_pages.simps) (auto simp: Let_def min_def)
next
  case (Cons q qs)
  obtain n where n: "llpages s p = Some n" "llnext n = q" "chain s q (q # qs)" using Cons.prems(1) by auto
  obtain nq where nq: "llpages s q = Some nq" using n(3) by auto
  have ok: "length (llentries n) = m" "llcount n \<le> m" "i \<le> llcount n" "length (node_contents n) = llcount n"
    using Cons.prems(2,4) n(1) by (auto simp: node_ok_def node_contents_def)
  note spec = apply_node_spec [OF ok(1-3) Cons.prems(5), of func w]
  show ?case
  proof (cases "b - a \<le> llcount n - i")
    case True
    then show ?thesis using n(1) spec ok(4) Cons.prems(5) by (subst apply_pages.simps) (auto simp: Let_def min_def)
  next
    case False
    let ?w = "fold func (drop i (node_contents n)) w"
    have "apply_pages func p i a b s w = apply_pages func q 0 (a + (llcount n - i)) b s ?w"
      using n(1,2) nq spec ok(3,4) False by (subst apply_pages.simps) (auto simp: min_def)
    moreover have "apply_pages func q 0 (a + (llcount n - i)) b s ?w =
      (let rest = drop 0 (page_contents s q) @ concat (map (page_contents s) qs)
       in Some (if b - (a + (llcount n - i)) \<le> length rest then Inr (fold func (take (b - (a + (llcount n - i))) rest) ?w) else Inl Bad_page))"
      by (rule Cons.IH) (use n(3) Cons.prems(2,3) False in auto)
    ultimately show ?thesis using n(1) ok(4) False by (auto simp: Let_def)
  qed
qed

text \<open>Reading a list.  \<open>get\<close> returns the entry at the index, and stops with an error for every index outside; \<open>applyToRange\<close>
  applies the function to the entries of the range in order when the range is inside the list, and reaches for a page that does
  not exist when it ends outside.  A range that starts at the end stops with an error even when it is empty.\<close>

theorem linked_list_reads:
  assumes rep: "ll_rep m s head ps p xs"
  shows "(if i < length xs then ll_get m head i s = Inr (xs ! i) else \<exists>e. ll_get m head i s = Inl e)
    \<and> (if i < length xs then applyToRange m head func i j s w =
           Some (if j \<le> length xs then Inr (fold func (take (j - i) (drop i xs)) w) else Inl Bad_page)
       else \<exists>e. applyToRange m head func i j s w = Some (Inl e))"
proof (cases "i < length xs")
  case False
  have "ll_get m head i s = bind_r (bind_r (skip_pages (i div m) head s) (\<lambda>q. bind_r (as_node q s) (\<lambda>n. ensure (i mod m < llcount n) (Inr q))))
      (\<lambda>q. bind_r (as_node q s) (\<lambda>n. array_get (llentries n) (i mod m)))"
    by (cases "skip_pages (i div m) head s"; cases "as_node (projr (skip_pages (i div m) head s)) s") (auto simp: ll_get_def Let_def ensure_def)
  then show ?thesis using False locate [OF rep, of i] by (auto simp: applyToRange_def)
next
  case True
  let ?q = "(ps @ [p]) ! (i div m)" and ?qs = "drop (Suc (i div m)) (ps @ [p])"
  note pos = ll_rep_position(2) [OF rep True]
  have drop: "drop (i div m) (ps @ [p]) = ?q # ?qs" using pos by (intro Cons_nth_drop_Suc [symmetric]) simp
  have c: "skip_pages (i div m) head s = Inr ?q" "chain s ?q (?q # ?qs)"
    using skip_pages_chain [of s head "ps @ [p]" "i div m"] rep pos unfolding drop [symmetric] by (auto simp: ll_rep_def)
  have ok: "\<forall>q\<in>set (?q # ?qs). node_ok m s q" using rep set_drop_subset [of "i div m" "ps @ [p]"] unfolding drop ll_rep_def by blast
  obtain n where n: "llpages s ?q = Some n" using c(2) by auto
  have len: "length (llentries n) = m" "llcount n \<le> m" "i mod m < llcount n" using ok n pos by (auto simp: node_ok_def node_contents_def)
  have "xs ! i = node_contents n ! (i mod m)" using hd_drop_conv_nth [OF True] pos n len
    by (metis append_is_Nil_conv drop_eq_Nil hd_append2 hd_drop_conv_nth not_le page_contents_Some)
  then have "ll_get m head i s = Inr (xs ! i)" using c(1) n len by (simp add: ll_get_def node_contents_def)
  moreover have "applyToRange m head func i j s w = Some (if j \<le> length xs then Inr (fold func (take (j - i) (drop i xs)) w) else Inl Bad_page)"
  proof (cases "i \<le> j")
    case le: True
    have e: "llpages s EMPTY_PID = None" "i mod m \<le> length (page_contents s ?q)" using rep pos by (simp_all add: ll_rep_def)
    have "drop i xs = drop (i mod m) (page_contents s ?q) @ concat (map (page_contents s) ?qs)" using pos by blast
    then have "apply_pages func ?q (i mod m) i j s w = Some (if j - i \<le> length (drop i xs) then Inr (fold func (take (j - i) (drop i xs)) w) else Inl Bad_page)"
      using apply_pages_chain [OF c(2) ok e le, of func w] by (simp only: Let_def)
    then show ?thesis using locate [OF rep, of i] True le by (auto simp: applyToRange_def)
  next
    case False
    then show ?thesis using locate [OF rep, of i] True by (simp add: applyToRange_def apply_pages.simps)
  qed
  ultimately show ?thesis using True by simp
qed

section \<open>Appending\<close>

lemma new_LinkedList_rep:
  assumes "supply_ok m s" and "llfree s = (p, old) # fs" and "llpages s EMPTY_PID = None"
  obtains s' where "new_LinkedList s = Inr (p, s')" "ll_rep m s' p [] p []" "supply_ok m s'" "llfree s' = fs" "llepoch s' p = NOT 0" "page_contents s' p = []"
proof -
  let ?n = "\<lparr>llcount = 0, llnext = EMPTY_PID, llentries = old\<rparr>"
  let ?s = "(set_node p ?n (s\<lparr>llfree := fs\<rparr>))\<lparr>llepoch := (llepoch s)(p := NOT 0)\<rparr>"
  have p: "p \<noteq> EMPTY_PID" "length old = m" "p \<notin> fst ` set fs" using assms(1,2) by (auto simp: supply_ok_def)
  have "new_LinkedList s = Inr (p, ?s)" using assms(2) by (simp add: new_LinkedList_def allocate_node_def)
  moreover have "ll_rep m ?s p [] p []" using p assms(3) by (simp add: ll_rep_def node_ok_def page_contents_def node_contents_def)
  moreover have "supply_ok m ?s" using assms(1,2) p(3) by (auto simp: supply_ok_def image_iff)
  moreover have "page_contents ?s p = []" by (simp add: page_contents_def node_contents_def)
  ultimately show ?thesis using that [of ?s] by simp
qed

lemma seek_tail_rep: "ll_rep m s head ps p xs \<Longrightarrow> seek_tail s head = Some (Inr p)"
  using seek_tail_chain by (auto simp: ll_rep_def)

lemma fillNumbers_rep:
  assumes "ll_rep m s head ps p xs" and "supply_ok m s" and "unat k \<le> room m s p" and "0 < m"
  shows "\<exists>s' ps' p'. fillNumbers m head k s = Some (Inr s') \<and> ll_rep m s' head ps' p' (xs @ map of_nat [0..<unat k]) \<and> supply_ok m s'"
proof -
  have "\<exists>s' ps' p'. fill_loop m p (map of_nat [0..<unat k]) s = Inr s' \<and> ll_rep m s' head ps' p' (xs @ map of_nat [0..<unat k]) \<and> supply_ok m s'"
    by (rule fill_loop_rep [OF assms(1,2) _ assms(4)]) (use assms(3) in simp)
  then show ?thesis using seek_tail_rep [OF assms(1)] by (simp add: fillNumbers_def fillNumbers_loop_eq)
qed

text \<open>The variant that computes an entry from its number and the id of its page, and collects the new pages: entry \<open>i\<close> was
  computed with the page it is on.\<close>

lemma fillNumbers_incr_loop_rep:
  assumes "ll_rep m s head ps p xs" and "supply_ok m s" and "k \<le> room m s p" and "0 < m"
  shows "\<exists>s' ps' p' ys new. fillNumbers_incr_loop m f p k e pids s = Inr (pids @ new, s') \<and> ll_rep m s' head ps' p' (xs @ ys) \<and> supply_ok m s'
    \<and> ps' @ [p'] = ps @ [p] @ new \<and> length ys = k
    \<and> (\<forall>i<k. ys ! i = f (e + of_nat i) ((ps' @ [p']) ! ((length xs + i) div m)))"
  using assms(1-3)
proof (induction k arbitrary: s ps p xs e pids)
  case 0
  then show ?case by auto
next
  case (Suc k)
  obtain n where n: "llpages s p = Some n" "llcount n \<le> m" "length (llentries n) = m"
    using Suc.prems(1) by (auto simp: ll_rep_def node_ok_def split: option.splits)
  obtain q where q: "fst (projr (make_room m p s)) = q" by blast
  have pos: "0 < room m s p" using Suc.prems(3) by simp
  obtain ps1 p' s1 s' where a: "make_room m p s = Inr (p', s1)" "push_at m p' (f e q) s1 = Inr s'"
    "ll_rep m s' head ps1 p' (xs @ [f e q])" "supply_ok m s'" "room m s' p' = room m s p - 1" "page_contents s' p' \<noteq> []"
    and c: "if length (page_contents s p) < m then ps1 = ps \<and> p' = p else ps1 = ps @ [p]"
    by (rule append_rep [OF Suc.prems(1,2) pos assms(4), of "f e q"])
  have qp: "q = p'" using q a(1) by simp
  let ?pids = "if isFull m n then pids @ [p'] else pids"
  have r: "k \<le> room m s' p'" using a(5) Suc.prems(3) by simp
  obtain s2 ps2 p2 ys new where b: "fillNumbers_incr_loop m f p' k (e + 1) ?pids s' = Inr (?pids @ new, s2)" "ll_rep m s2 head ps2 p2 ((xs @ [f e p']) @ ys)" "supply_ok m s2"
    "ps2 @ [p2] = ps1 @ [p'] @ new" "length ys = k" "\<forall>i<k. ys ! i = f (e + 1 + of_nat i) ((ps2 @ [p2]) ! ((length (xs @ [f e p']) + i) div m))"
    using Suc.IH [OF a(3,4) r, of "e + 1" ?pids] qp by blast
  have full: "isFull m n \<longleftrightarrow> \<not> length (page_contents s p) < m" using n by (auto simp: isFull_def node_contents_def)
  let ?new = "(if isFull m n then [p'] else []) @ new"
  have "fillNumbers_incr_loop m f p (Suc k) e pids s = Inr (pids @ ?new, s2)" using n(1) a(1,2) b(1) qp by simp
  moreover have "ps2 @ [p2] = ps @ [p] @ ?new" using b(4) c full by (auto split: if_splits)
  moreover have "(f e p' # ys) ! i = f (e + of_nat i) ((ps2 @ [p2]) ! ((length xs + i) div m))" if "i < Suc k" for i
  proof (cases i)
    case 0
    have "length xs div m = length ps1" by (rule last_position [OF a(3,6) assms(4)])
    then show ?thesis using 0 b(4) by (simp add: nth_append)
  next
    case (Suc j)
    then show ?thesis using b(6) that by (simp add: add.assoc)
  qed
  ultimately show ?case using b(2,3,5) by (intro exI [of _ s2] exI [of _ ps2] exI [of _ p2] exI [of _ "f e p' # ys"] exI [of _ ?new]) auto
qed

text \<open>C33: appending.  While the last page and the supply of pages have room, \<open>push\<close>, both forms of \<open>fill\<close> and the generating
  \<open>fillNumbers\<close> return and append their elements in order: the list stays a chain of pages of which all but the last are full,
  the iterator is advanced past what was taken, and the collected page ids are the pages added.\<close>

theorem linked_list_appends:
  assumes rep: "ll_rep m s head ps p xs" and sup: "supply_ok m s" and m: "0 < m" and room: "k \<le> room m s p" and k: "k < 2 ^ 64"
  shows "(k \<le> length it \<longrightarrow> (\<exists>s' ps' p'. fill m head (take k it) s = Some (Inr s') \<and> fill_iter m head it k s = Some (Inr (drop k it, s'))
        \<and> ll_rep m s' head ps' p' (xs @ take k it) \<and> supply_ok m s'))
    \<and> (0 < k \<longrightarrow> (\<exists>s' ps' p'. ll_push m head x s = Some (Inr s') \<and> ll_rep m s' head ps' p' (xs @ [x]) \<and> supply_ok m s'))
    \<and> (\<exists>s' ps' p' ys new. fillNumbers_incr m head f (of_nat k) pids s = Some (Inr (pids @ new, s')) \<and> ll_rep m s' head ps' p' (xs @ ys) \<and> supply_ok m s'
        \<and> ps' @ [p'] = ps @ [p] @ new \<and> length ys = k \<and> (\<forall>i<k. ys ! i = f (of_nat i) ((ps' @ [p']) ! ((length xs + i) div m))))"
proof (intro conjI impI)
  note tail = seek_tail_rep [OF rep]
  assume it: "k \<le> length it"
  then obtain s' ps' p' where "fill_loop m p (take k it) s = Inr s'" "ll_rep m s' head ps' p' (xs @ take k it)" "supply_ok m s'"
    using fill_loop_rep [OF rep sup _ m, of "take k it"] room by auto
  then show "\<exists>s' ps' p'. fill m head (take k it) s = Some (Inr s') \<and> fill_iter m head it k s = Some (Inr (drop k it, s'))
      \<and> ll_rep m s' head ps' p' (xs @ take k it) \<and> supply_ok m s'"
    using tail fill_iter_loop_eq [OF it, of m p s] by (intro exI [of _ s'] exI [of _ ps'] exI [of _ p']) (simp add: fill_def fill_iter_def)
next
  assume "0 < k"
  then have "0 < room m s p" using room by simp
  then obtain ps1 p' s1 s' where "make_room m p s = Inr (p', s1)" "push_at m p' x s1 = Inr s'" "ll_rep m s' head ps1 p' (xs @ [x])" "supply_ok m s'"
    using append_rep [OF rep sup _ m, of x] by metis
  then show "\<exists>s' ps' p'. ll_push m head x s = Some (Inr s') \<and> ll_rep m s' head ps' p' (xs @ [x]) \<and> supply_ok m s'"
    using seek_tail_rep [OF rep] by (auto simp: ll_push_def)
next
  have "unat (of_nat k :: u64) = k" using k by (simp add: unat_of_nat take_bit_nat_eq_self)
  then show "\<exists>s' ps' p' ys new. fillNumbers_incr m head f (of_nat k) pids s = Some (Inr (pids @ new, s')) \<and> ll_rep m s' head ps' p' (xs @ ys) \<and> supply_ok m s'
      \<and> ps' @ [p'] = ps @ [p] @ new \<and> length ys = k \<and> (\<forall>i<k. ys ! i = f (of_nat i) ((ps' @ [p']) ! ((length xs + i) div m)))"
    using fillNumbers_incr_loop_rep [OF rep sup room m, of f 0 pids] seek_tail_rep [OF rep] by (auto simp: fillNumbers_incr_def)
qed

text \<open>A list of three entries on two pages of two, with one more page in the supply.\<close>

definition three_entries :: "nat llstore" where
  "three_entries = \<lparr>llpages = [\<lparr>id = 1\<rparr> \<mapsto> \<lparr>llcount = 2, llnext = \<lparr>id = 2\<rparr>, llentries = [10, 20]\<rparr>, \<lparr>id = 2\<rparr> \<mapsto> \<lparr>llcount = 1, llnext = EMPTY_PID, llentries = [30, 0]\<rparr>],
     llepoch = (\<lambda>_. 0), llfree = [(\<lparr>id = 3\<rparr>, [0, 0])]\<rparr>"

lemma three_entries_rep: "ll_rep 2 three_entries \<lparr>id = 1\<rparr> [\<lparr>id = 1\<rparr>] \<lparr>id = 2\<rparr> [10, 20, 30]" "supply_ok 2 three_entries" "room 2 three_entries \<lparr>id = 2\<rparr> = 3"
  by (simp_all add: ll_rep_def three_entries_def EMPTY_PID_def mk_PID_def PAGEID_BITS_NODEID_def node_ok_def page_contents_def node_contents_def supply_ok_def room_def)

theorem linked_list_reads_witness:
  "ll_get 2 \<lparr>id = 1\<rparr> 2 three_entries = Inr 30 \<and> applyToRange 2 \<lparr>id = 1\<rparr> (#) 1 3 three_entries [] = Some (Inr [30, 20])"
  using linked_list_reads [OF three_entries_rep(1), of 2 "(#)" 2 "[]"] linked_list_reads [OF three_entries_rep(1), of 1 "(#)" 3 "[]"] by simp

theorem linked_list_appends_witness:
  "\<exists>s' ps' p'. fill 2 \<lparr>id = 1\<rparr> [40, 50, 60] three_entries = Some (Inr s') \<and> ll_rep 2 s' \<lparr>id = 1\<rparr> ps' p' [10, 20, 30, 40, 50, 60]"
proof -
  have r: "3 \<le> room 2 three_entries \<lparr>id = 2\<rparr>" using three_entries_rep(3) by simp
  show ?thesis using linked_list_appends [OF three_entries_rep(1,2) _ r, of "[40, 50, 60]" 0 "\<lambda>_ _. 0" "[]"] by auto
qed

end
