(* ===== verification/Catalog.thy ===== *)
theory Catalog
  imports Defs_PID
begin

unbundle bit_operations_syntax

text \<open>
  The catalog (storage/buffermanager/Catalog.hpp): one page, owned by node 0, that maps the ids of data structures to their
  root pages.  An exclusive or a shared guard of the page makes a section of the code one step.
\<close>

section \<open>The code\<close>

datatype DS_TYPE = EMPTY | BARRIER | TABLE | BTREE | LLIST | MISC

record CatalogEntry =
  datastructureId :: u64
  ds_type :: DS_TYPE
  ds_pid :: PID

text \<open>The page, with the epoch of its frame, which every access sets to its maximum.\<close>

record CatalogPage =
  datastructureIds :: u64
  numEntries :: u64
  isInitialized :: bool
  catalog_entries :: "CatalogEntry list"
  catalog_epoch :: u64

definition catalog_maxEntries :: nat where
  "catalog_maxEntries = (504 - (8 + 8 + 8 + 1)) div 24"

definition touch_catalog :: "CatalogPage \<Rightarrow> CatalogPage" where
  "touch_catalog c = c\<lparr>catalog_epoch := NOT 0\<rparr>"

text \<open>On the owner \<open>init\<close> marks the page; on every other node it polls until it reads the mark, here over the pages that its
  shared guards see one after the other.\<close>

definition catalog_init_owner :: "CatalogPage \<Rightarrow> CatalogPage" where
  "catalog_init_owner c = touch_catalog (c\<lparr>isInitialized := True\<rparr>)"

fun catalog_init_poll :: "CatalogPage list \<Rightarrow> bool" where
  "catalog_init_poll [] \<longleftrightarrow> False"
| "catalog_init_poll (c # cs) \<longleftrightarrow> (if isInitialized (touch_catalog c) then True else catalog_init_poll cs)"

definition catalog_init :: "NodeID \<Rightarrow> CatalogPage \<Rightarrow> CatalogPage list \<Rightarrow> CatalogPage option" where
  "catalog_init nodeId c views =
     (if nodeId = CATALOG_OWNER then Some (catalog_init_owner c)
      else if catalog_init_poll views then Some (touch_catalog c) else None)"

text \<open>\<open>None\<close>: still polling.\<close>

fun getCatalogEntry :: "u64 \<Rightarrow> CatalogPage list \<Rightarrow> CatalogEntry result option" where
  "getCatalogEntry i [] = None"
| "getCatalogEntry i (c # cs) =
     (if datastructureIds (touch_catalog c) \<ge> i then
        (case array_get (catalog_entries (touch_catalog c)) (unat i) of
           Inl e \<Rightarrow> Some (Inl e)
         | Inr entry \<Rightarrow> if ds_type entry \<noteq> EMPTY then Some (Inr entry) else getCatalogEntry i cs)
      else getCatalogEntry i cs)"

definition insertCatalogEntry :: "DS_TYPE \<Rightarrow> PID \<Rightarrow> CatalogPage \<Rightarrow> (u64 \<times> CatalogPage) result" where
  "insertCatalogEntry t pid c =
     (let c = touch_catalog c in
      bind_r (array_set (catalog_entries c) (unat (datastructureIds c)) \<lparr>datastructureId = datastructureIds c, ds_type = t, ds_pid = pid\<rparr>) (\<lambda>es.
        let c = c\<lparr>catalog_entries := es\<rparr>; tmp = datastructureIds c
        in Inr (tmp, c\<lparr>datastructureIds := datastructureIds c + 1\<rparr>)))"

section \<open>Properties\<close>

text \<open>The entries below the counter are in place, the others are still empty.\<close>

definition catalog_ok :: "CatalogPage \<Rightarrow> bool" where
  "catalog_ok c \<longleftrightarrow> length (catalog_entries c) = catalog_maxEntries \<and> unat (datastructureIds c) \<le> catalog_maxEntries
     \<and> (\<forall>i < catalog_maxEntries. if i < unat (datastructureIds c)
          then datastructureId (catalog_entries c ! i) = of_nat i \<and> ds_type (catalog_entries c ! i) \<noteq> EMPTY
          else ds_type (catalog_entries c ! i) = EMPTY)"

fun catalog_inserts :: "(DS_TYPE \<times> PID) list \<Rightarrow> CatalogPage \<Rightarrow> (u64 list \<times> CatalogPage) result" where
  "catalog_inserts [] c = Inr ([], c)"
| "catalog_inserts ((t, p) # xs) c =
     bind_r (insertCatalogEntry t p c) (\<lambda>(i, c). bind_r (catalog_inserts xs c) (\<lambda>(is, c). Inr (i # is, c)))"

lemma catalog_maxEntries_val [simp]: "catalog_maxEntries = 19"
  by (simp add: catalog_maxEntries_def)

lemma touch_catalog_simps [simp]: "datastructureIds (touch_catalog c) = datastructureIds c" "catalog_entries (touch_catalog c) = catalog_entries c"
  "isInitialized (touch_catalog c) = isInitialized c" "catalog_epoch (touch_catalog c) = NOT 0" "numEntries (touch_catalog c) = numEntries c"
  by (simp_all add: touch_catalog_def)

lemma insertCatalogEntry_ok:
  assumes ok: "catalog_ok c" and t: "t \<noteq> EMPTY" and n: "unat (datastructureIds c) < 19"
  obtains c' where "insertCatalogEntry t p c = Inr (datastructureIds c, c')" "catalog_ok c'" "unat (datastructureIds c') = Suc (unat (datastructureIds c))"
    "catalog_entries c' = (catalog_entries c)[unat (datastructureIds c) := \<lparr>datastructureId = datastructureIds c, ds_type = t, ds_pid = p\<rparr>]"
proof -
  let ?n = "unat (datastructureIds c)" and ?e = "\<lparr>datastructureId = datastructureIds c, ds_type = t, ds_pid = p\<rparr>"
  let ?c = "(touch_catalog c)\<lparr>catalog_entries := (catalog_entries c)[?n := ?e], datastructureIds := datastructureIds c + 1\<rparr>"
  have len: "length (catalog_entries c) = 19" using ok by (simp add: catalog_ok_def)
  have suc: "unat (datastructureIds c + 1) = Suc ?n" using n by (simp add: unat_word_ariths)
  have "insertCatalogEntry t p c = Inr (datastructureIds c, ?c)"
    using n len by (simp add: insertCatalogEntry_def array_set_def Let_def)
  moreover have "catalog_ok ?c" using ok t n suc len by (auto simp: catalog_ok_def nth_list_update)
  ultimately show ?thesis using that [of ?c] suc by simp
qed

lemma insertCatalogEntry_full: "catalog_ok c \<Longrightarrow> unat (datastructureIds c) = 19 \<Longrightarrow> insertCatalogEntry t p c = Inl Out_of_bounds"
  by (simp add: insertCatalogEntry_def array_set_def catalog_ok_def Let_def)

lemma getCatalogEntry_found:
  assumes "catalog_ok c" and "unat i < unat (datastructureIds c)"
  shows "getCatalogEntry i (c # cs) = Some (Inr (catalog_entries c ! unat i))"
proof -
  have "i \<le> datastructureIds c" using assms(2) by (simp add: word_le_nat_alt)
  then show ?thesis using assms by (simp add: catalog_ok_def)
qed

text \<open>Inserting a list of structures: consecutive ids from the counter on, and the entries behind them.\<close>

lemma catalog_inserts_ok:
  assumes "catalog_ok c" and "\<forall>x\<in>set xs. fst x \<noteq> EMPTY" and "unat (datastructureIds c) + length xs \<le> 19"
  shows "\<exists>is c'. catalog_inserts xs c = Inr (is, c') \<and> catalog_ok c' \<and> is = map (\<lambda>k. datastructureIds c + of_nat k) [0..<length xs]
    \<and> unat (datastructureIds c') = unat (datastructureIds c) + length xs
    \<and> (\<forall>k<unat (datastructureIds c). catalog_entries c' ! k = catalog_entries c ! k)
    \<and> (\<forall>k<length xs. catalog_entries c' ! (unat (datastructureIds c) + k) = \<lparr>datastructureId = datastructureIds c + of_nat k, ds_type = fst (xs ! k), ds_pid = snd (xs ! k)\<rparr>)"
  using assms
proof (induction xs c rule: catalog_inserts.induct)
  case (1 c)
  then show ?case by simp
next
  case (2 t p xs c)
  let ?n = "unat (datastructureIds c)"
  obtain c1 where c1: "insertCatalogEntry t p c = Inr (datastructureIds c, c1)" "catalog_ok c1" "unat (datastructureIds c1) = Suc ?n"
    "catalog_entries c1 = (catalog_entries c)[?n := \<lparr>datastructureId = datastructureIds c, ds_type = t, ds_pid = p\<rparr>]"
    using insertCatalogEntry_ok [OF 2(2), of t p] 2(3,4) by auto
  have d1: "datastructureIds c1 = datastructureIds c + 1"
    using c1(3) 2(4) by (intro word_unat_eq_iff [THEN iffD2]) (simp add: unat_word_ariths)
  have len: "length (catalog_entries c) = 19" using 2(2) by (simp add: catalog_ok_def)
  obtain "is" c' where r: "catalog_inserts xs c1 = Inr (is, c')" "catalog_ok c'" "is = map (\<lambda>k. datastructureIds c1 + of_nat k) [0..<length xs]"
    "unat (datastructureIds c') = Suc ?n + length xs" "\<forall>k<Suc ?n. catalog_entries c' ! k = catalog_entries c1 ! k"
    "\<forall>k<length xs. catalog_entries c' ! (Suc ?n + k) = \<lparr>datastructureId = datastructureIds c1 + of_nat k, ds_type = fst (xs ! k), ds_pid = snd (xs ! k)\<rparr>"
    using 2(1) [OF c1(2)] 2(3,4) c1(3) by auto
  have "catalog_inserts ((t, p) # xs) c = Inr (datastructureIds c # is, c')" using c1(1) r(1) by simp
  moreover have "datastructureIds c # is = map (\<lambda>k. datastructureIds c + of_nat k) [0..<length ((t, p) # xs)]"
    unfolding r(3) d1 by (simp add: upt_conv_Cons map_Suc_upt [symmetric] comp_def add.assoc del: upt_Suc)
  moreover have "catalog_entries c' ! (?n + k) = \<lparr>datastructureId = datastructureIds c + of_nat k, ds_type = fst (((t, p) # xs) ! k), ds_pid = snd (((t, p) # xs) ! k)\<rparr>"
    if "k < length ((t, p) # xs)" for k
    using that r(5,6) c1(4) len 2(4) d1 by (cases k) (auto simp: add.assoc)
  ultimately show ?case using r(2,4,5) c1(4) by auto
qed

text \<open>C35: what is inserted into the catalog is found.  Up to the capacity of the page the structures get consecutive ids, and a
  reader that asks for one of these ids returns its type and root page from any later contents of the page, whatever it
  polled before the insertion; at the capacity an insertion writes behind the page's array.\<close>

theorem catalog_roundtrip:
  assumes "catalog_ok c" and "\<forall>x\<in>set (xs @ ys). fst x \<noteq> EMPTY" and "unat (datastructureIds c) + length (xs @ ys) \<le> 19"
  shows "\<exists>is c1 js c2. catalog_inserts xs c = Inr (is, c1) \<and> catalog_inserts ys c1 = Inr (js, c2) \<and> length is = length xs \<and> distinct (is @ js)
    \<and> (\<forall>k<length xs. \<forall>cs. getCatalogEntry (is ! k) (c2 # cs) = Some (Inr \<lparr>datastructureId = is ! k, ds_type = fst (xs ! k), ds_pid = snd (xs ! k)\<rparr>)
         \<and> getCatalogEntry (is ! k) (c # c2 # cs) = getCatalogEntry (is ! k) (c2 # cs))
    \<and> (unat (datastructureIds c2) = 19 \<longrightarrow> (\<forall>t p. insertCatalogEntry t p c2 = Inl Out_of_bounds))"
proof -
  let ?n = "unat (datastructureIds c)"
  obtain "is" c1 where x: "catalog_inserts xs c = Inr (is, c1)" "catalog_ok c1" "is = map (\<lambda>k. datastructureIds c + of_nat k) [0..<length xs]"
    "unat (datastructureIds c1) = ?n + length xs"
    "\<forall>k<length xs. catalog_entries c1 ! (?n + k) = \<lparr>datastructureId = datastructureIds c + of_nat k, ds_type = fst (xs ! k), ds_pid = snd (xs ! k)\<rparr>"
    using catalog_inserts_ok [of c xs] assms by auto
  obtain js c2 where y: "catalog_inserts ys c1 = Inr (js, c2)" "catalog_ok c2" "js = map (\<lambda>k. datastructureIds c1 + of_nat k) [0..<length ys]"
    "unat (datastructureIds c2) = ?n + length xs + length ys" "\<forall>k<?n + length xs. catalog_entries c2 ! k = catalog_entries c1 ! k"
    using catalog_inserts_ok [OF x(2), of ys] assms(2,3) x(4) by auto
  have nat: "unat (datastructureIds c + of_nat k) = ?n + k" if "?n + k \<le> 19" for k
    using that by (simp add: unat_word_ariths unat_of_nat take_bit_nat_eq_self)
  have d1: "datastructureIds c1 = datastructureIds c + of_nat (length xs)"
    using x(4) nat [of "length xs"] assms(3) by (intro word_unat_eq_iff [THEN iffD2]) simp
  have ids: "is @ js = map (\<lambda>k. datastructureIds c + of_nat k) [0..<length xs + length ys]"
    unfolding x(3) y(3) d1 by (rule nth_equalityI) (auto simp: nth_append of_nat_diff)
  have "map unat (is @ js) = map (\<lambda>k. ?n + k) [0..<length xs + length ys]"
    unfolding ids using nat assms(3) by simp
  moreover have "distinct (map (\<lambda>k. ?n + k) [0..<length xs + length ys])" by (simp add: distinct_map inj_on_def)
  ultimately have dist: "distinct (is @ js)" using distinct_map by metis
  have get: "getCatalogEntry (is ! k) (c2 # cs) = Some (Inr \<lparr>datastructureId = is ! k, ds_type = fst (xs ! k), ds_pid = snd (xs ! k)\<rparr>)" if "k < length xs" for k cs
  proof -
    have i: "is ! k = datastructureIds c + of_nat k" "unat (is ! k) = ?n + k" using x(3) that nat [of k] assms(3) by simp_all
    show ?thesis using getCatalogEntry_found [OF y(2), of "is ! k" cs] i x(5) y(4,5) that by simp
  qed
  have before: "getCatalogEntry (is ! k) (c # c2 # cs) = getCatalogEntry (is ! k) (c2 # cs)" if "k < length xs" for k cs
  proof -
    have i: "unat (is ! k) = ?n + k" "?n + k < 19" using x(3) that nat [of k] assms(3) by simp_all
    then have "ds_type (catalog_entries c ! unat (is ! k)) = EMPTY" "length (catalog_entries c) = 19" using assms(1) by (simp_all add: catalog_ok_def)
    then show ?thesis using i by simp
  qed
  show ?thesis using x(1,3) y(1,2) dist get before insertCatalogEntry_full [OF y(2)]
    by (intro exI [of _ "is"] exI [of _ c1] exI [of _ js] exI [of _ c2]) auto
qed

text \<open>The catalog page as node 0 sets it up.\<close>

definition empty_catalog :: CatalogPage where
  "empty_catalog = \<lparr>datastructureIds = 0, numEntries = 0, isInitialized = False,
     catalog_entries = replicate 19 \<lparr>datastructureId = 0, ds_type = EMPTY, ds_pid = EMPTY_PID\<rparr>, catalog_epoch = 0\<rparr>"

lemma empty_catalog_ok: "catalog_ok empty_catalog" "unat (datastructureIds empty_catalog) < 19"
  by (simp_all add: catalog_ok_def empty_catalog_def)

theorem catalog_roundtrip_witness:
  "\<exists>is c1. catalog_inserts [(BTREE, \<lparr>id = 7\<rparr>)] empty_catalog = Inr (is, c1)"
  using catalog_roundtrip [of empty_catalog "[(BTREE, \<lparr>id = 7\<rparr>)]" "[(BARRIER, \<lparr>id = 9\<rparr>)]"]
  by (auto simp: empty_catalog_def catalog_ok_def)

text \<open>The reader's check compares with \<open>>=\<close>: on a full page it reads the entry behind the array for the id 19.\<close>

lemma getCatalogEntry_beyond: "catalog_ok c \<Longrightarrow> datastructureIds c = 19 \<Longrightarrow> getCatalogEntry 19 (c # cs) = Some (Inl Out_of_bounds)"
  by (simp add: catalog_ok_def array_get_def)

end
