(* ===== verification/Barrier.thy ===== *)
theory Barrier
  imports ScalePrelude
begin

unbundle bit_operations_syntax

text \<open>
  The distributed barrier (storage/datastructures/DistributedBarrier.hpp): a counter and a round number on a page that
  all nodes share.  A thread arrives inside an exclusive guard of the page; the last one resets the counter, runs the
  finalizer and advances the 8-bit round; the others poll the round optimistically.  An exclusive section and a validated
  optimistic read are single steps, which is what the guards of the page give.
\<close>

section \<open>The code\<close>

record Body =
  threadCount :: u64
  cntr :: u64
  round :: u8

definition initialize :: "u64 \<Rightarrow> Body" where
  "initialize threads = \<lparr>threadCount = threads, cntr = threads, round = 0\<rparr>"

text \<open>The page of the barrier: the body, and the epoch of the frame that holds it, which every access sets to its maximum so
  that the page provider never takes the page for a cold one.\<close>

record barrier_page = Body +
  frame_epoch :: u64

definition pin_epoch :: "barrier_page \<Rightarrow> barrier_page" where
  "pin_epoch b = b\<lparr>frame_epoch := NOT 0\<rparr>"

definition new_DistributedBarrier :: "u64 \<Rightarrow> u64 \<Rightarrow> barrier_page" where
  "new_DistributedBarrier epoch0 threads =
     pin_epoch (Body.extend (initialize threads) (barrier_page.fields epoch0))"

text \<open>The exclusive section: the round before, and for the last thread the result of its finalizer.\<close>

definition arrive :: "('w \<Rightarrow> bool \<times> 'w) \<Rightarrow> barrier_page \<Rightarrow> 'w \<Rightarrow> u8 \<times> bool option \<times> barrier_page \<times> 'w" where
  "arrive finalizer b w =
     (let b = pin_epoch b; prevRound = round b; prv = cntr b; b = b\<lparr>cntr := cntr b - 1\<rparr>
      in if prv = 1 then
           let b = b\<lparr>cntr := threadCount b\<rparr>; (r, w) = finalizer w
           in (prevRound, Some r, b\<lparr>round := round b + 1\<rparr>, w)
         else (prevRound, None, b, w))"

text \<open>The polling loop: per iteration whether the first validation fails, the page that is read, and whether the second
  validation fails.\<close>

fun spin :: "u8 \<Rightarrow> (bool \<times> barrier_page \<times> bool) list \<Rightarrow> bool option" where
  "spin prevRound [] = None"
| "spin prevRound ((retry1, b, retry2) # polls) =
     (if retry1 then spin prevRound polls
      else if retry2 then spin prevRound polls
      else if round b \<noteq> prevRound then Some False
      else spin prevRound polls)"

definition wait :: "('w \<Rightarrow> bool \<times> 'w) \<Rightarrow> (bool \<times> barrier_page \<times> bool) list \<Rightarrow> barrier_page \<Rightarrow> 'w \<Rightarrow> bool option \<times> barrier_page \<times> 'w" where
  "wait finalizer polls b w =
     (case arrive finalizer b w of
        (prevRound, Some r, b, w) \<Rightarrow> (Some r, b, w)
      | (prevRound, None, b, w) \<Rightarrow> (spin prevRound polls, if polls = [] then b else pin_epoch b, w))"

lemma spin_Some: "spin p polls = Some r \<longleftrightarrow> \<not> r \<and> (\<exists>(retry1, b, retry2)\<in>set polls. \<not> retry1 \<and> \<not> retry2 \<and> round b \<noteq> p)"
  by (induction p polls rule: spin.induct) auto

section \<open>Threads at the barrier\<close>

text \<open>A thread is outside, or polls for a round other than the one it saw.  \<open>arrived\<close> and \<open>left\<close> count its calls of
  \<open>wait\<close> that passed the exclusive section and that returned.\<close>

datatype bpc = Outside | Polling u8

record 'w bsys =
  body :: barrier_page
  world :: 'w
  pc :: "nat \<Rightarrow> bpc"
  arrived :: "nat \<Rightarrow> nat"
  left :: "nat \<Rightarrow> nat"

inductive bstep :: "('w \<Rightarrow> bool \<times> 'w) \<Rightarrow> nat \<Rightarrow> 'w bsys \<Rightarrow> 'w bsys \<Rightarrow> bool" for fin and n where
  Arrive_last: "bstep fin n s (s\<lparr>body := b, world := w, arrived := (arrived s)(t := arrived s t + 1), left := (left s)(t := left s t + 1)\<rparr>)"
    if "t < n" "pc s t = Outside" "arrive fin (body s) (world s) = (r, Some x, b, w)"
| Arrive: "bstep fin n s (s\<lparr>body := b, world := w, pc := (pc s)(t := Polling r), arrived := (arrived s)(t := arrived s t + 1)\<rparr>)"
    if "t < n" "pc s t = Outside" "arrive fin (body s) (world s) = (r, None, b, w)"
| Leave: "bstep fin n s (s\<lparr>body := pin_epoch (body s), pc := (pc s)(t := Outside), left := (left s)(t := left s t + 1)\<rparr>)"
    if "t < n" "pc s t = Polling r" "spin r [(False, pin_epoch (body s), False)] = Some x"

definition start :: "u64 \<Rightarrow> nat \<Rightarrow> 'w \<Rightarrow> 'w bsys" where
  "start epoch0 n w = \<lparr>body = new_DistributedBarrier epoch0 (of_nat n), world = w, pc = (\<lambda>_. Outside), arrived = (\<lambda>_. 0), left = (\<lambda>_. 0)\<rparr>"

section \<open>The invariant\<close>

text \<open>\<open>k\<close> is the number of completed rounds.  A thread outside has taken part in all of them; a polling thread waits
  for the current round or has not yet seen that its round is complete.\<close>

definition inside :: "nat \<Rightarrow> nat \<Rightarrow> 'w bsys \<Rightarrow> nat set" where
  "inside n k s = {t. t < n \<and> pc s t \<noteq> Outside \<and> left s t = k}"

definition thread_ok :: "nat \<Rightarrow> 'w bsys \<Rightarrow> nat \<Rightarrow> bool" where
  "thread_ok k s t \<longleftrightarrow>
     (case pc s t of
        Outside \<Rightarrow> arrived s t = k \<and> left s t = k
      | Polling r \<Rightarrow> arrived s t = left s t + 1 \<and> r = of_nat (left s t) \<and> (left s t = k \<or> left s t + 1 = k))"

definition barrier_inv :: "('w \<Rightarrow> bool \<times> 'w) \<Rightarrow> nat \<Rightarrow> 'w \<Rightarrow> nat \<Rightarrow> 'w bsys \<Rightarrow> bool" where
  "barrier_inv fin n w0 k s \<longleftrightarrow> (\<forall>t<n. thread_ok k s t) \<and> round (body s) = of_nat k \<and> threadCount (body s) = of_nat n
     \<and> card (inside n k s) < n \<and> cntr (body s) = of_nat (n - card (inside n k s)) \<and> world s = ((\<lambda>w. snd (fin w)) ^^ k) w0 \<and> frame_epoch (body s) = NOT 0"

lemma pin_epoch_simps [simp]:
  "round (pin_epoch b) = round b" "cntr (pin_epoch b) = cntr b" "threadCount (pin_epoch b) = threadCount b" "frame_epoch (pin_epoch b) = NOT 0"
  by (simp_all add: pin_epoch_def)

lemma thread_ok_cong: "pc s' t = pc s t \<Longrightarrow> arrived s' t = arrived s t \<Longrightarrow> left s' t = left s t \<Longrightarrow> thread_ok k s' t \<longleftrightarrow> thread_ok k s t"
  by (cases "pc s t") (simp_all add: thread_ok_def)

lemma thread_ok_bounds: "thread_ok k s t \<Longrightarrow> left s t \<le> k" "thread_ok k s t \<Longrightarrow> k \<le> arrived s t" "thread_ok k s t \<Longrightarrow> arrived s t \<le> left s t + 1"
  by (cases "pc s t"; auto simp: thread_ok_def)+

lemma finite_inside [simp]: "finite (inside n k s)"
  by (rule finite_subset [of _ "{..<n}"]) (auto simp: inside_def)

lemma start_inv: "0 < n \<Longrightarrow> barrier_inv fin n w 0 (start epoch0 n w)"
  by (simp add: barrier_inv_def start_def new_DistributedBarrier_def Body.defs barrier_page.defs initialize_def thread_ok_def inside_def)

text \<open>Two rounds in a row have different numbers.\<close>

lemma round_ne: "(of_nat (Suc k) :: u8) \<noteq> of_nat k"
  by simp

lemma of_nat_cntr:
  assumes "c < n" and "n < 2 ^ 64"
  shows "(of_nat (n - c) :: u64) = 1 \<longleftrightarrow> Suc c = n" and "(of_nat (n - c) :: u64) - 1 = of_nat (n - Suc c)"
proof -
  have lt: "n - c < 2 ^ LENGTH(64)" using assms(2) by simp
  have "(of_nat (n - c) :: u64) = 1 \<longleftrightarrow> unat (of_nat (n - c) :: u64) = unat (1 :: u64)" by (simp only: word_unat_eq_iff)
  also have "\<dots> \<longleftrightarrow> n - c = 1" using lt by (simp add: unat_of_nat take_bit_nat_eq_self)
  finally show "(of_nat (n - c) :: u64) = 1 \<longleftrightarrow> Suc c = n" using assms(1) by auto
  have "n - c = Suc (n - Suc c)" using assms(1) by simp
  then show "(of_nat (n - c) :: u64) - 1 = of_nat (n - Suc c)" by simp
qed

lemma arrive_cases:
  assumes "barrier_inv fin n w0 k s" and "n < 2 ^ 64"
  shows "arrive fin (body s) (world s) =
     (if Suc (card (inside n k s)) = n then (of_nat k, Some (fst (fin (world s))), (body s)\<lparr>cntr := of_nat n, round := of_nat (Suc k), frame_epoch := NOT 0\<rparr>, snd (fin (world s)))
      else (of_nat k, None, (body s)\<lparr>cntr := of_nat (n - Suc (card (inside n k s))), frame_epoch := NOT 0\<rparr>, world s))"
proof -
  have c: "card (inside n k s) < n" "cntr (body s) = of_nat (n - card (inside n k s))" "round (body s) = of_nat k" "threadCount (body s) = of_nat n"
    using assms(1) by (simp_all add: barrier_inv_def)
  show ?thesis using of_nat_cntr [OF c(1) assms(2)] c by (simp add: arrive_def pin_epoch_def Let_def case_prod_unfold add.commute)
qed

lemma bstep_inv:
  assumes "bstep fin n s s'" and inv: "barrier_inv fin n w0 k s" and n: "n < 2 ^ 64"
  shows "barrier_inv fin n w0 k s' \<or> barrier_inv fin n w0 (Suc k) s'"
  using assms(1)
proof cases
  case (Arrive_last t r x b w)
  let ?I = "inside n k s"
  have a: "Suc (card ?I) = n" "b = (body s)\<lparr>cntr := of_nat n, round := of_nat (Suc k), frame_epoch := NOT 0\<rparr>" "w = snd (fin (world s))"
    using Arrive_last(4) arrive_cases [OF inv n] by (auto split: if_splits)
  have t: "t \<notin> ?I" "thread_ok k s t" using Arrive_last(2,3) inv by (simp_all add: inside_def barrier_inv_def)
  have "insert t ?I = {..<n}"
    by (rule card_subset_eq) (use a(1) t(1) Arrive_last(2) in \<open>auto simp: inside_def\<close>)
  then have others: "u \<in> ?I" if "u < n" "u \<noteq> t" for u using that by auto
  have ok: "thread_ok (Suc k) s' u" if u: "u < n" for u
  proof (cases "u = t")
    case True
    then show ?thesis using t(2) Arrive_last(1,3) by (simp add: thread_ok_def)
  next
    case False
    have "thread_ok k s u" "pc s u \<noteq> Outside" "left s u = k" using others [OF u False] inv u by (simp_all add: inside_def barrier_inv_def)
    then show ?thesis using False Arrive_last(1) by (auto simp: thread_ok_def split: bpc.splits)
  qed
  have "u \<notin> inside n (Suc k) s'" if "u < n" for u
    using others [OF that] t(2) Arrive_last(1,3) by (cases "u = t") (auto simp: inside_def thread_ok_def)
  then have "inside n (Suc k) s' = {}" by (auto simp: inside_def)
  then have "barrier_inv fin n w0 (Suc k) s'" using ok inv a Arrive_last(1) by (simp add: barrier_inv_def)
  then show ?thesis ..
next
  case (Arrive t r b w)
  let ?I = "inside n k s"
  have a: "Suc (card ?I) \<noteq> n" "r = of_nat k" "b = (body s)\<lparr>cntr := of_nat (n - Suc (card ?I)), frame_epoch := NOT 0\<rparr>" "w = world s"
    using Arrive(4) arrive_cases [OF inv n] by (auto split: if_splits)
  have t: "t \<notin> ?I" "thread_ok k s t" "card ?I < n" using Arrive(2,3) inv by (simp_all add: inside_def barrier_inv_def)
  have I: "inside n k s' = insert t ?I" using Arrive(1-3) t(2) by (auto simp: inside_def thread_ok_def)
  have ok: "thread_ok k s' u" if "u < n" for u
  proof (cases "u = t")
    case True
    then show ?thesis using t(2) Arrive(1,3) a(2) by (simp add: thread_ok_def)
  next
    case False
    then show ?thesis using inv that thread_ok_cong [of s' u s k] Arrive(1) by (simp add: barrier_inv_def)
  qed
  have "card (insert t ?I) = Suc (card ?I)" using t(1) by simp
  moreover have "world s' = world s" "body s' = b" using Arrive(1) a(4) by simp_all
  ultimately have "barrier_inv fin n w0 k s'" using ok inv a(1,3) I t(3) by (simp add: barrier_inv_def)
  then show ?thesis ..
next
  case (Leave t r x)
  have t: "thread_ok k s t" "r \<noteq> of_nat k" using Leave(2,4) inv by (simp_all add: barrier_inv_def split: if_splits)
  then have l: "left s t + 1 = k" "arrived s t = k" using Leave(3) by (auto simp: thread_ok_def)
  have I: "inside n k s' = inside n k s" using Leave(1,3) l by (auto simp: inside_def)
  have ok: "thread_ok k s' u" if "u < n" for u
  proof (cases "u = t")
    case True
    then show ?thesis using l Leave(1) by (simp add: thread_ok_def)
  next
    case False
    then show ?thesis using inv that thread_ok_cong [of s' u s k] Leave(1) by (simp add: barrier_inv_def)
  qed
  have "barrier_inv fin n w0 k s'" using ok inv Leave(1) I by (simp add: barrier_inv_def)
  then show ?thesis ..
qed

lemma reachable_inv:
  assumes "(bstep fin n)\<^sup>*\<^sup>* (start epoch0 n w0) s" and "0 < n" and "n < 2 ^ 64"
  shows "\<exists>k. barrier_inv fin n w0 k s"
  using assms(1)
proof (induction rule: rtranclp_induct)
  case base
  then show ?case using start_inv [OF assms(2), of fin w0] by blast
next
  case (step s s')
  then show ?case using bstep_inv [OF step.hyps(2) _ assms(3)] by blast
qed

text \<open>C19: the barrier holds.  However the threads' calls of \<open>wait\<close> interleave, a thread returns from its call number \<open>c\<close>
  only after every thread has arrived for its call number \<open>c\<close>, although the round number on the page wraps after 256
  rounds; and the finalizer ran once per completed round.\<close>

theorem barrier_holds:
  assumes "(bstep fin n)\<^sup>*\<^sup>* (start epoch0 n w0) s" and "0 < n" and "n < 2 ^ 64" and "t < n" and "u < n"
  shows "left s t \<le> arrived s u \<and> arrived s t \<le> left s t + 1
    \<and> (\<exists>k. world s = ((\<lambda>w. snd (fin w)) ^^ k) w0 \<and> left s t \<le> k \<and> k \<le> arrived s u)"
proof -
  obtain k where k: "barrier_inv fin n w0 k s" using reachable_inv [OF assms(1-3)] by blast
  have "thread_ok k s t" "thread_ok k s u" using k assms(4,5) by (simp_all add: barrier_inv_def)
  then have "left s t \<le> k" "k \<le> arrived s u" "arrived s t \<le> left s t + 1" using thread_ok_bounds by blast+
  moreover have "world s = ((\<lambda>w. snd (fin w)) ^^ k) w0" using k by (simp add: barrier_inv_def)
  ultimately show ?thesis by (metis le_trans)
qed

text \<open>A polling thread has been released when its round is behind the completed ones.\<close>

lemma released:
  assumes "barrier_inv fin n w0 k s" and "t < n" and "pc s t = Polling r"
  shows "spin r [(False, pin_epoch (body s), False)] = (if left s t + 1 = k then Some False else None)"
proof -
  have t: "r = of_nat (left s t)" "left s t = k \<or> left s t + 1 = k" "round (body s) = of_nat k"
    using assms by (auto simp: barrier_inv_def thread_ok_def)
  then show ?thesis using round_ne [of "left s t"] by auto
qed

lemma all_arrived:
  assumes k: "barrier_inv fin n w0 k s" and t: "t < n" "pc s t = Polling r"
  shows "(\<forall>u<n. arrived s t \<le> arrived s u) \<longleftrightarrow> left s t + 1 = k"
proof
  have tok: "thread_ok k s t" using k t(1) by (simp add: barrier_inv_def)
  assume all: "\<forall>u<n. arrived s t \<le> arrived s u"
  show "left s t + 1 = k"
  proof (rule ccontr)
    assume "left s t + 1 \<noteq> k"
    then have "arrived s t = Suc k" using tok t(2) by (auto simp: thread_ok_def)
    then have "u \<in> inside n k s" if "u < n" for u
    proof -
      have "thread_ok k s u" "Suc k \<le> arrived s u" using that all k \<open>arrived s t = Suc k\<close> by (auto simp: barrier_inv_def)
      then show ?thesis using that by (cases "pc s u") (auto simp: thread_ok_def inside_def)
    qed
    then have "{..<n} \<subseteq> inside n k s" by auto
    then have "n \<le> card (inside n k s)" using card_mono [OF finite_inside, of "{..<n}" n k s] by simp
    then show False using k by (simp add: barrier_inv_def)
  qed
next
  assume l: "left s t + 1 = k"
  have "thread_ok k s t" using k t(1) by (simp add: barrier_inv_def)
  then have "arrived s t = k" using l t(2) by (simp add: thread_ok_def)
  moreover have "k \<le> arrived s u" if "u < n" for u
    using k that thread_ok_bounds(2) [of k s u] by (simp add: barrier_inv_def)
  ultimately show "\<forall>u<n. arrived s t \<le> arrived s u" by simp
qed


text \<open>Two threads, the first of which has arrived.\<close>

definition one_waiting :: "nat bsys" where
  "one_waiting = \<lparr>body = \<lparr>threadCount = 2, cntr = 1, round = 0, frame_epoch = NOT 0\<rparr>, world = 7, pc = (\<lambda>_. Outside)(0 := Polling 0),
     arrived = (\<lambda>_. 0)(0 := 1), left = (\<lambda>_. 0)\<rparr>"

lemma one_waiting_reachable: "(bstep (\<lambda>w. (True, w + 1)) 2)\<^sup>*\<^sup>* (start 3 2 7) one_waiting"
proof -
  let ?s = "start 3 2 7 :: nat bsys" and ?b = "\<lparr>threadCount = 2, cntr = 1, round = 0, frame_epoch = NOT 0\<rparr>"
  have "arrive (\<lambda>w. (True, w + 1)) (body ?s) (world ?s) = (0, None, ?b, 7)"
    by (simp add: start_def new_DistributedBarrier_def initialize_def arrive_def pin_epoch_def Body.defs barrier_page.defs)
  moreover have "pc ?s 0 = Outside" by (simp add: start_def)
  ultimately have "bstep (\<lambda>w. (True, w + 1)) 2 ?s
     (?s\<lparr>body := ?b, world := 7, pc := (pc ?s)(0 := Polling 0), arrived := (arrived ?s)(0 := arrived ?s 0 + 1)\<rparr>)"
    by (intro bstep.Arrive) simp_all
  then show ?thesis by (simp add: one_waiting_def start_def r_into_rtranclp)
qed

theorem barrier_holds_witness:
  "left one_waiting 0 \<le> arrived one_waiting 1 \<and> arrived one_waiting 0 \<le> left one_waiting 0 + 1"
  using barrier_holds [OF one_waiting_reachable, of 0 1] by simp


end
