(* ===== verification/Sharing.thy ===== *)
theory Sharing
  imports BTree_Spec LinkedList Catalog Barrier
begin

text \<open>
  How nodes share structures (ScaleStore.hpp): a structure is created on pages of the store and registered in the catalog; any
  other node asks the catalog for the id and opens the structure at the page it finds there.  The locale
  \<open>published_structure\<close> is the contract between a structure and the catalog; trees, lists and barriers are interpretations.
\<close>

section \<open>The code\<close>

text \<open>The constructor of the store finds the number of its node by its address; a store of one node is node 0.\<close>

fun find_node_loop :: "'ip list \<Rightarrow> 'ip \<Rightarrow> nat \<Rightarrow> nat \<Rightarrow> nat result" where
  "find_node_loop nodes ownIp nodeId 0 = Inr nodeId"
| "find_node_loop nodes ownIp nodeId (Suc n) =
     bind_r (array_get nodes nodeId) (\<lambda>ip. if ownIp = ip then Inr nodeId else find_node_loop nodes ownIp (nodeId + 1) n)"

definition find_nodeId :: "'ip list \<Rightarrow> 'ip \<Rightarrow> nat \<Rightarrow> nat result" where
  "find_nodeId nodes ownIp n = bind_r (if n \<noteq> 1 then find_node_loop nodes ownIp 0 n else Inr 0) (\<lambda>nodeId. ensure (nodeId < n) (Inr nodeId))"

definition createBTree :: "('k, 'v) benv \<Rightarrow> ('k, 'v) bstore \<Rightarrow> CatalogPage \<Rightarrow> (PID \<times> ('k, 'v) bstore \<times> CatalogPage) result" where
  "createBTree E s c = bind_r (new_BTree E s) (\<lambda>(e, s). bind_r (insertCatalogEntry BTREE e c) (\<lambda>(_, c). Inr (e, s, c)))"

definition createLinkedList :: "'a llstore \<Rightarrow> CatalogPage \<Rightarrow> (PID \<times> u64 \<times> 'a llstore \<times> CatalogPage) result" where
  "createLinkedList s c = bind_r (new_LinkedList s) (\<lambda>(h, s). bind_r (insertCatalogEntry LLIST h c) (\<lambda>(i, c). Inr (h, i, s, c)))"

text \<open>Pages of barriers: their contents and the page ids that are n, each with the epoch of its new frame.\<close>

record barrier_store =
  barriers :: "PID \<Rightarrow> barrier_page option"
  barrier_free :: "(PID \<times> u64) list"

definition allocate_barrier :: "u64 \<Rightarrow> barrier_store \<Rightarrow> (PID \<times> barrier_store) result" where
  "allocate_barrier threads s = (case barrier_free s of [] \<Rightarrow> Inl Blocked
     | (p, epoch0) # fs \<Rightarrow> Inr (p, s\<lparr>barriers := (barriers s)(p \<mapsto> new_DistributedBarrier epoch0 threads), barrier_free := fs\<rparr>))"

definition createBarrier :: "u64 \<Rightarrow> barrier_store \<Rightarrow> CatalogPage \<Rightarrow> (PID \<times> barrier_store \<times> CatalogPage) result" where
  "createBarrier threads s c = bind_r (allocate_barrier threads s) (\<lambda>(p, s). bind_r (insertCatalogEntry BARRIER p c) (\<lambda>(_, c). Inr (p, s, c)))"

section \<open>Node numbers\<close>

lemma find_node_loop_found:
  "distinct nodes \<Longrightarrow> i < length nodes \<Longrightarrow> k \<le> i \<Longrightarrow> i < k + n \<Longrightarrow> find_node_loop nodes (nodes ! i) k n = Inr i"
proof (induction n arbitrary: k)
  case (Suc n)
  then show ?case by (cases "k = i") (auto simp: nth_eq_iff_index_eq)
qed simp

lemma find_node_loop_missing: "ip \<notin> set nodes \<Longrightarrow> k + n \<le> length nodes \<Longrightarrow> find_node_loop nodes ip k n = Inr (k + n)"
proof (induction n arbitrary: k)
  case (Suc n)
  then have "nodes ! k \<noteq> ip" using nth_mem [of k nodes] by auto
  then show ?case using Suc by auto
qed simp

text \<open>Every node of a cluster gets its own number, and a node that is not in the list of addresses stops.\<close>

lemma find_nodeId_unique:
  assumes "distinct nodes" and "length nodes = n" and "0 < n"
  shows "i < n \<Longrightarrow> find_nodeId nodes (nodes ! i) n = Inr i" and "ip \<notin> set nodes \<Longrightarrow> n \<noteq> 1 \<Longrightarrow> find_nodeId nodes ip n = Inl Ensure_failed"
  using assms find_node_loop_found [of nodes i 0 n] find_node_loop_missing [of ip nodes 0 n] by (auto simp: find_nodeId_def)

section \<open>Publishing a structure\<close>

text \<open>A page from which a reader may ask for an id: the page before the registration, or any later one.\<close>

definition later :: "CatalogPage \<Rightarrow> CatalogPage \<Rightarrow> bool" where
  "later c c' \<longleftrightarrow> (\<exists>ys js. (\<forall>y\<in>set ys. fst y \<noteq> EMPTY) \<and> unat (datastructureIds c) + length ys \<le> 19 \<and> catalog_inserts ys c = Inr (js, c'))"

lemma registered_found:
  assumes ok: "catalog_ok c" and t: "t \<noteq> EMPTY" and n: "unat (datastructureIds c) < 19"
  shows "\<exists>c1. insertCatalogEntry t p c = Inr (datastructureIds c, c1) \<and> catalog_ok c1
    \<and> (\<forall>c2 cs. later c1 c2 \<longrightarrow> getCatalogEntry (datastructureIds c) (c2 # cs) = Some (Inr \<lparr>datastructureId = datastructureIds c, ds_type = t, ds_pid = p\<rparr>))"
proof -
  let ?n = "unat (datastructureIds c)" and ?e = "\<lparr>datastructureId = datastructureIds c, ds_type = t, ds_pid = p\<rparr>"
  obtain c1 where c1: "insertCatalogEntry t p c = Inr (datastructureIds c, c1)" "catalog_ok c1" "unat (datastructureIds c1) = Suc ?n"
    "catalog_entries c1 = (catalog_entries c)[?n := ?e]"
    using insertCatalogEntry_ok [OF ok t n, of p] by blast
  have e1: "catalog_entries c1 ! ?n = ?e" using c1(4) ok n by (simp add: catalog_ok_def)
  have "getCatalogEntry (datastructureIds c) (c2 # cs) = Some (Inr ?e)" if l: "later c1 c2" for c2 cs
  proof -
    obtain ys js where y: "\<forall>y\<in>set ys. fst y \<noteq> EMPTY" "unat (datastructureIds c1) + length ys \<le> 19" "catalog_inserts ys c1 = Inr (js, c2)"
      using l by (auto simp: later_def)
    have c2: "catalog_ok c2" "unat (datastructureIds c2) = Suc ?n + length ys" "catalog_entries c2 ! ?n = ?e"
      using catalog_inserts_ok [OF c1(2) y(1,2)] y(3) c1(3) e1 by auto
    show ?thesis using getCatalogEntry_found [OF c2(1), of "datastructureIds c" cs] c2(2,3) by simp
  qed
  then show ?thesis using c1(1,2) by blast
qed

locale published_structure =
  fixes create :: "'s \<Rightarrow> (PID \<times> 's) result" and ty :: DS_TYPE and ready :: "'s \<Rightarrow> bool" and opened :: "PID \<Rightarrow> 's \<Rightarrow> bool"
  assumes create_ok: "ready s \<Longrightarrow> \<exists>p s'. create s = Inr (p, s') \<and> opened p s'"
    and ty_not_EMPTY: "ty \<noteq> EMPTY"
begin

lemma published:
  assumes "ready s" and "catalog_ok c" and "unat (datastructureIds c) < 19"
  shows "\<exists>p s' c1. create s = Inr (p, s') \<and> insertCatalogEntry ty p c = Inr (datastructureIds c, c1) \<and> catalog_ok c1 \<and> opened p s'
    \<and> (\<forall>c2 cs. later c1 c2 \<longrightarrow> (\<exists>q. getCatalogEntry (datastructureIds c) (c2 # cs) = Some (Inr \<lparr>datastructureId = datastructureIds c, ds_type = ty, ds_pid = q\<rparr>) \<and> opened q s'))"
proof -
  obtain p s' where p: "create s = Inr (p, s')" "opened p s'" using create_ok [OF assms(1)] by blast
  obtain c1 where "insertCatalogEntry ty p c = Inr (datastructureIds c, c1)" "catalog_ok c1"
    "\<forall>c2 cs. later c1 c2 \<longrightarrow> getCatalogEntry (datastructureIds c) (c2 # cs) = Some (Inr \<lparr>datastructureId = datastructureIds c, ds_type = ty, ds_pid = p\<rparr>)"
    using registered_found [OF assms(2) ty_not_EMPTY assms(3), of p] by blast
  then show ?thesis using p by blast
qed

end

interpretation shared_tree: published_structure "new_BTree E" BTREE "\<lambda>s. env_ok E \<and> free_ok s \<and> 2 \<le> length (bfree s)" "\<lambda>e s. bt_ok E e s \<and> bt_kvs e s = []"
  by unfold_locales (auto dest: new_BTree_ok)

interpretation shared_list: published_structure new_LinkedList LLIST
  "\<lambda>s. supply_ok m s \<and> llfree s \<noteq> [] \<and> llpages s EMPTY_PID = None \<and> m * length (llfree s) = k"
  "\<lambda>h s. ll_rep m s h [] h [] \<and> supply_ok m s \<and> room m s h = k"
proof
  fix s :: "'a llstore"
  assume a: "supply_ok m s \<and> llfree s \<noteq> [] \<and> llpages s EMPTY_PID = None \<and> m * length (llfree s) = k"
  then obtain p old fs where f: "llfree s = (p, old) # fs" by (cases "llfree s") auto
  obtain s' where s': "new_LinkedList s = Inr (p, s')" "ll_rep m s' p [] p []" "supply_ok m s'" "llfree s' = fs" "llepoch s' p = NOT 0" "page_contents s' p = []"
    by (rule new_LinkedList_rep [of m s p old fs]) (use a f in auto)
  then have "room m s' p = k" using a f by (auto simp: room_def)
  then show "\<exists>p s'. new_LinkedList s = Inr (p, s') \<and> ll_rep m s' p [] p [] \<and> supply_ok m s' \<and> room m s' p = k" using s' by blast
qed simp

interpretation shared_barrier: published_structure "allocate_barrier threads" BARRIER "\<lambda>s. barrier_free s \<noteq> []"
  "\<lambda>p s. \<exists>b. barriers s p = Some b \<and> threadCount b = threads \<and> cntr b = threads \<and> round b = 0 \<and> frame_epoch b = NOT 0"
proof
  fix s :: barrier_store assume "barrier_free s \<noteq> []"
  then obtain p e fs where "barrier_free s = (p, e) # fs" by (cases "barrier_free s") auto
  then show "\<exists>p s'. allocate_barrier threads s = Inr (p, s') \<and> (\<exists>b. barriers s' p = Some b \<and> threadCount b = threads \<and> cntr b = threads \<and> round b = 0 \<and> frame_epoch b = NOT 0)"
    by (auto simp: allocate_barrier_def new_DistributedBarrier_def initialize_def pin_epoch_def Body.defs barrier_page.defs)
qed simp

section \<open>Using a published structure\<close>

lemma fill_rep:
  assumes "ll_rep m s h ps p xs" and "supply_ok m s" and "length content \<le> room m s p" and "0 < m"
  shows "\<exists>s' ps' p'. fill m h content s = Some (Inr s') \<and> ll_rep m s' h ps' p' (xs @ content)"
  using fill_loop_rep [OF assms] seek_tail_rep [OF assms(1)] by (auto simp: fill_def)

lemma createLinkedList_published:
  assumes "supply_ok m s" and "llfree s \<noteq> []" and "llpages s EMPTY_PID = None" and "catalog_ok c" and "unat (datastructureIds c) < 19"
    and "length content \<le> m * length (llfree s)" and "0 < m"
  shows "\<exists>h s1 c1 s2 ps p. createLinkedList s c = Inr (h, datastructureIds c, s1, c1) \<and> fill m h content s1 = Some (Inr s2) \<and> ll_rep m s2 h ps p content
    \<and> (\<forall>c2 cs. later c1 c2 \<longrightarrow> getCatalogEntry (datastructureIds c) (c2 # cs) = Some (Inr \<lparr>datastructureId = datastructureIds c, ds_type = LLIST, ds_pid = h\<rparr>))"
proof -
  have r: "supply_ok m s \<and> llfree s \<noteq> [] \<and> llpages s EMPTY_PID = None \<and> m * length (llfree s) = m * length (llfree s)" using assms(1-3) by simp
  obtain h s1 where h: "new_LinkedList s = Inr (h, s1)" "ll_rep m s1 h [] h []" "supply_ok m s1" "room m s1 h = m * length (llfree s)"
    using shared_list.create_ok [OF r] by blast
  obtain c1 where c: "insertCatalogEntry LLIST h c = Inr (datastructureIds c, c1)"
    "\<forall>c2 cs. later c1 c2 \<longrightarrow> getCatalogEntry (datastructureIds c) (c2 # cs) = Some (Inr \<lparr>datastructureId = datastructureIds c, ds_type = LLIST, ds_pid = h\<rparr>)"
    using registered_found [OF assms(4) shared_list.ty_not_EMPTY assms(5), of h] by blast
  obtain s2 ps p where f: "fill m h content s1 = Some (Inr s2)" "ll_rep m s2 h ps p content"
    using fill_rep [OF h(2,3), of content] h(4) assms(6,7) by auto
  have "createLinkedList s c = Inr (h, datastructureIds c, s1, c1)" using h(1) c(1) by (simp add: createLinkedList_def)
  then show ?thesis using f c(2) by blast
qed

lemma later_refl: "unat (datastructureIds c) \<le> 19 \<Longrightarrow> later c c"
  unfolding later_def by (rule exI [of _ "[]"]) simp

end
