(* ===== verification/Client_Schema.thy ===== *)
theory Client_Schema
  imports Sharing "HOL-Library.List_Lexorder" "HOL-Library.Product_Lexorder"
begin

text \<open>
  The tables of the TPC-C client (src/frontend/tpcc/types.hpp, schema.hpp, adapter.hpp): strings of bounded length, the keys of the
  tables with their comparison operators, and the adapter through which a table is a B+-tree found in the catalog.  The tree
  needs a linear order; every key type is an instance of \<open>linorder\<close> by the operators of the code.  The integers of a key are
  32-bit signed and are only compared, so they are \<open>int\<close> here; the \<open>int16_t\<close> length of a string is at most the length of its
  array (50 bytes in the schema) and is a \<open>nat\<close>.  The assertions on the length are off in a release build: a copy beyond the
  array is the error \<open>Inl\<close>.
\<close>

section \<open>Strings of bounded length\<close>

type_synonym Integer = int
type_synonym string8 = "u8 list"

text \<open>The array has the maximal length; what lies behind the length is left over.\<close>

record Varchar =
  vlength :: nat
  vdata :: string8

definition Varchar_of :: "string8 \<Rightarrow> string8 \<Rightarrow> Varchar result" where
  "Varchar_of junk str = bind_r (memcpy junk 0 str 0 (length str)) (\<lambda>d. Inr \<lparr>vlength = length str, vdata = d\<rparr>)"

definition Varchar_copy :: "string8 \<Rightarrow> Varchar \<Rightarrow> Varchar result" where
  "Varchar_copy junk other = bind_r (memcpy junk 0 (vdata other) 0 (vlength other)) (\<lambda>d. Inr \<lparr>vlength = vlength other, vdata = d\<rparr>)"

definition Varchar_append :: "u8 \<Rightarrow> Varchar \<Rightarrow> Varchar result" where
  "Varchar_append x v = bind_r (array_set (vdata v) (vlength v) x) (\<lambda>d. Inr (v\<lparr>vdata := d, vlength := vlength v + 1\<rparr>))"

definition toString :: "Varchar \<Rightarrow> string8" where
  "toString v = take (vlength v) (vdata v)"

definition Varchar_concat :: "string8 \<Rightarrow> Varchar \<Rightarrow> Varchar \<Rightarrow> Varchar result" where
  "Varchar_concat junk v other =
     bind_r (memcpy junk 0 (vdata v) 0 (vlength v)) (\<lambda>d.
     bind_r (memcpy d (vlength v) (vdata other) 0 (vlength other)) (\<lambda>d. Inr \<lparr>vlength = vlength v + vlength other, vdata = d\<rparr>))"

text \<open>The sign of the first difference of two byte arrays within a length.\<close>

fun memcmp :: "string8 \<Rightarrow> string8 \<Rightarrow> nat \<Rightarrow> int" where
  "memcmp (x # xs) (y # ys) (Suc n) = (if x < y then -1 else if x > y then 1 else memcmp xs ys n)"
| "memcmp _ _ _ = 0"

definition Varchar_eq :: "Varchar \<Rightarrow> Varchar \<Rightarrow> bool" where
  "Varchar_eq v other \<longleftrightarrow> vlength v = vlength other \<and> memcmp (vdata v) (vdata other) (vlength v) = 0"

definition Varchar_greater :: "Varchar \<Rightarrow> Varchar \<Rightarrow> bool" where
  "Varchar_greater v other =
     (let cmp = memcmp (vdata v) (vdata other) (if vlength v < vlength other then vlength v else vlength other)
      in if cmp \<noteq> 0 then cmp > 0 else vlength v > vlength other)"

definition Varchar_less :: "Varchar \<Rightarrow> Varchar \<Rightarrow> bool" where
  "Varchar_less v other =
     (let cmp = memcmp (vdata v) (vdata other) (if vlength v < vlength other then vlength v else vlength other)
      in if cmp \<noteq> 0 then cmp < 0 else vlength v < vlength other)"

definition Varchar_ok :: "Varchar \<Rightarrow> bool" where
  "Varchar_ok v \<longleftrightarrow> vlength v \<le> length (vdata v)"

text \<open>Operations and comparisons are those of the strings stored, in lexicographic order.\<close>

lemma memcmp_take: "n \<le> length xs \<Longrightarrow> n \<le> length ys \<Longrightarrow>
    memcmp xs ys n = (if take n xs = take n ys then 0 else if take n xs < take n ys then -1 else 1)"
  by (induction xs ys n rule: memcmp.induct) auto

lemma lex_take:
  fixes xs ys :: "'a :: linorder list"
  shows "xs < ys \<longleftrightarrow> (let n = min (length xs) (length ys) in take n xs < take n ys \<or> take n xs = take n ys \<and> length xs < length ys)"
proof (induction xs arbitrary: ys)
  case Nil
  then show ?case by (cases ys) (simp_all add: Let_def)
next
  case (Cons x xs)
  show ?case
  proof (cases ys)
    case Nil
    then show ?thesis by simp
  next
    case (Cons y zs)
    then show ?thesis using Cons.IH [of zs] by (auto simp: Let_def)
  qed
qed

lemma Varchar_order:
  assumes "Varchar_ok v" and "Varchar_ok v'"
  shows "Varchar_eq v v' \<longleftrightarrow> toString v = toString v'" "Varchar_less v v' \<longleftrightarrow> toString v < toString v'" "Varchar_greater v v' \<longleftrightarrow> toString v > toString v'"
proof -
  let ?n = "min (vlength v) (vlength v')"
  have len: "length (toString v) = vlength v" "length (toString v') = vlength v'" using assms by (simp_all add: toString_def Varchar_ok_def)
  have t: "take ?n (toString v) = take ?n (vdata v)" "take ?n (toString v') = take ?n (vdata v')" by (simp_all add: toString_def)
  have m: "memcmp (vdata v) (vdata v') ?n = (if take ?n (vdata v) = take ?n (vdata v') then 0 else if take ?n (vdata v) < take ?n (vdata v') then -1 else 1)"
    using assms by (intro memcmp_take) (auto simp: Varchar_ok_def)
  have n: "(if vlength v < vlength v' then vlength v else vlength v') = ?n" by simp
  show "Varchar_less v v' \<longleftrightarrow> toString v < toString v'"
    unfolding lex_take [of "toString v"] len t Let_def Varchar_less_def n m by auto
  show "Varchar_greater v v' \<longleftrightarrow> toString v > toString v'"
    unfolding lex_take [of "toString v'"] len min.commute [of "vlength v'"] t Let_def Varchar_greater_def n m by auto
  show "Varchar_eq v v' \<longleftrightarrow> toString v = toString v'"
  proof (cases "vlength v = vlength v'")
    case True
    then show ?thesis using m t len by (auto simp: Varchar_eq_def toString_def)
  next
    case False
    then show ?thesis using len by (auto simp: Varchar_eq_def)
  qed
qed

lemma Varchar_ops:
  "length str \<le> length junk \<Longrightarrow> \<exists>v. Varchar_of junk str = Inr v \<and> toString v = str \<and> Varchar_ok v"
  "Varchar_ok v \<Longrightarrow> vlength v < length (vdata v) \<Longrightarrow> \<exists>v'. Varchar_append x v = Inr v' \<and> toString v' = toString v @ [x] \<and> Varchar_ok v'"
  "Varchar_ok v \<Longrightarrow> Varchar_ok v' \<Longrightarrow> vlength v + vlength v' \<le> length junk \<Longrightarrow>
     \<exists>u. Varchar_concat junk v v' = Inr u \<and> toString u = toString v @ toString v' \<and> Varchar_ok u"
  by (auto simp: Varchar_of_def Varchar_append_def Varchar_concat_def Varchar_ok_def toString_def memcpy_def array_set_def take_Suc_conv_app_nth min_def)

section \<open>Keys of the tables\<close>

text \<open>A key with strings holds the strings stored: keys that the code takes for equal are equal.\<close>

datatype warehouse_key = warehouse_Key (w_id: Integer)
datatype district_key = district_Key (d_w_id: Integer) (d_id: Integer)
datatype customer_key = customer_Key (c_w_id: Integer) (c_d_id: Integer) (c_id: Integer)
datatype customer_wdl_key = customer_wdl_strings (cl_w_id: Integer) (cl_d_id: Integer) (c_last: string8) (c_first: string8)
datatype history_key = history_Key (thread_id: Integer) (h_pk: Integer)
datatype neworder_key = neworder_Key (no_w_id: Integer) (no_d_id: Integer) (no_o_id: Integer)
datatype order_key = order_Key (o_w_id: Integer) (o_d_id: Integer) (o_id: Integer)
datatype order_wdc_key = order_wdc_Key (oc_w_id: Integer) (oc_d_id: Integer) (oc_c_id: Integer) (oc_id: Integer)
datatype orderline_key = orderline_Key (ol_w_id: Integer) (ol_d_id: Integer) (ol_o_id: Integer) (ol_number: Integer)
datatype item_key = item_Key (i_id: Integer)
datatype stock_key = stock_Key (s_w_id: Integer) (s_i_id: Integer)

text \<open>The key of the index on customer names as the code has it, with its arrays and its comparison.\<close>

record customer_wdl_Key =
  k_w_id :: Integer
  k_d_id :: Integer
  k_last :: Varchar
  k_first :: Varchar

definition customer_wdl_Key_less :: "customer_wdl_Key \<Rightarrow> customer_wdl_Key \<Rightarrow> bool" where
  "customer_wdl_Key_less k other = (if k_w_id k < k_w_id other then True else if k_w_id k > k_w_id other then False
      else if k_d_id k < k_d_id other then True else if k_d_id k > k_d_id other then False
      else if Varchar_less (k_last k) (k_last other) then True else if Varchar_greater (k_last k) (k_last other) then False
      else Varchar_less (k_first k) (k_first other))"

definition customer_wdl_Key_eq :: "customer_wdl_Key \<Rightarrow> customer_wdl_Key \<Rightarrow> bool" where
  "customer_wdl_Key_eq k other \<longleftrightarrow> k_w_id k = k_w_id other \<and> k_d_id k = k_d_id other \<and> Varchar_eq (k_last k) (k_last other) \<and> Varchar_eq (k_first k) (k_first other)"

text \<open>The comparison operators \<open><\<close> of the keys.\<close>

definition warehouse_less :: "warehouse_key \<Rightarrow> warehouse_key \<Rightarrow> bool" where
  "warehouse_less k other = (w_id k < w_id other)"

definition district_less :: "district_key \<Rightarrow> district_key \<Rightarrow> bool" where
  "district_less k other = (if d_w_id k < d_w_id other then True else if d_w_id k > d_w_id other then False
      else d_id k < d_id other)"

definition customer_less :: "customer_key \<Rightarrow> customer_key \<Rightarrow> bool" where
  "customer_less k other = (if c_w_id k < c_w_id other then True else if c_w_id k > c_w_id other then False
      else if c_d_id k < c_d_id other then True else if c_d_id k > c_d_id other then False
      else c_id k < c_id other)"

definition customer_wdl_less :: "customer_wdl_key \<Rightarrow> customer_wdl_key \<Rightarrow> bool" where
  "customer_wdl_less k other = (if cl_w_id k < cl_w_id other then True else if cl_w_id k > cl_w_id other then False
      else if cl_d_id k < cl_d_id other then True else if cl_d_id k > cl_d_id other then False
      else if c_last k < c_last other then True else if c_last k > c_last other then False
      else c_first k < c_first other)"

definition history_less :: "history_key \<Rightarrow> history_key \<Rightarrow> bool" where
  "history_less k other = (if thread_id k < thread_id other then True else if thread_id k > thread_id other then False
      else h_pk k < h_pk other)"

definition neworder_less :: "neworder_key \<Rightarrow> neworder_key \<Rightarrow> bool" where
  "neworder_less k other = (if no_w_id k < no_w_id other then True else if no_w_id k > no_w_id other then False
      else if no_d_id k < no_d_id other then True else if no_d_id k > no_d_id other then False
      else no_o_id k < no_o_id other)"

definition order_less :: "order_key \<Rightarrow> order_key \<Rightarrow> bool" where
  "order_less k other = (if o_w_id k < o_w_id other then True else if o_w_id k > o_w_id other then False
      else if o_d_id k < o_d_id other then True else if o_d_id k > o_d_id other then False
      else o_id k < o_id other)"

definition order_wdc_less :: "order_wdc_key \<Rightarrow> order_wdc_key \<Rightarrow> bool" where
  "order_wdc_less k other = (if oc_w_id k < oc_w_id other then True else if oc_w_id k > oc_w_id other then False
      else if oc_d_id k < oc_d_id other then True else if oc_d_id k > oc_d_id other then False
      else if oc_c_id k < oc_c_id other then True else if oc_c_id k > oc_c_id other then False
      else oc_id k < oc_id other)"

definition orderline_less :: "orderline_key \<Rightarrow> orderline_key \<Rightarrow> bool" where
  "orderline_less k other = (if ol_w_id k < ol_w_id other then True else if ol_w_id k > ol_w_id other then False
      else if ol_d_id k < ol_d_id other then True else if ol_d_id k > ol_d_id other then False
      else if ol_o_id k < ol_o_id other then True else if ol_o_id k > ol_o_id other then False
      else ol_number k < ol_number other)"

definition item_less :: "item_key \<Rightarrow> item_key \<Rightarrow> bool" where
  "item_less k other = (i_id k < i_id other)"

definition stock_less :: "stock_key \<Rightarrow> stock_key \<Rightarrow> bool" where
  "stock_less k other = (if s_w_id k < s_w_id other then True else if s_w_id k > s_w_id other then False
      else s_i_id k < s_i_id other)"

text \<open>The comparisons of the arrays are those of the strings they hold.\<close>

definition customer_wdl_abs :: "customer_wdl_Key \<Rightarrow> customer_wdl_key" where
  "customer_wdl_abs k = customer_wdl_strings (k_w_id k) (k_d_id k) (toString (k_last k)) (toString (k_first k))"

lemma customer_wdl_Key_less_abs:
  assumes "Varchar_ok (k_last k)" "Varchar_ok (k_first k)" "Varchar_ok (k_last other)" "Varchar_ok (k_first other)"
  shows "customer_wdl_Key_less k other \<longleftrightarrow> customer_wdl_less (customer_wdl_abs k) (customer_wdl_abs other)"
    and "customer_wdl_Key_eq k other \<longleftrightarrow> customer_wdl_abs k = customer_wdl_abs other"
  using assms by (simp_all add: customer_wdl_Key_less_def customer_wdl_Key_eq_def customer_wdl_less_def customer_wdl_abs_def Varchar_order)

section \<open>Linear orders\<close>

text \<open>Each comparison is the lexicographic order of the fields, from which the laws of a linear order follow.\<close>

definition warehouse_fields where "warehouse_fields k = w_id k"

lemma warehouse_less_lex: "warehouse_less k other \<longleftrightarrow> warehouse_fields k < warehouse_fields other" and warehouse_fields_inj: "warehouse_fields k = warehouse_fields other \<longleftrightarrow> k = other"
  by (auto simp: warehouse_less_def warehouse_fields_def intro: warehouse_key.expand)

instantiation warehouse_key :: linorder
begin

definition less_warehouse_key :: "warehouse_key \<Rightarrow> warehouse_key \<Rightarrow> bool" where "less_warehouse_key = warehouse_less"

definition less_eq_warehouse_key :: "warehouse_key \<Rightarrow> warehouse_key \<Rightarrow> bool" where "less_eq_warehouse_key k other = (\<not> warehouse_less other k)"

instance
  by standard (auto simp: less_warehouse_key_def less_eq_warehouse_key_def warehouse_less_lex not_less order.antisym simp flip: warehouse_fields_inj)

end

definition district_fields where "district_fields k = (d_w_id k, d_id k)"

lemma district_less_lex: "district_less k other \<longleftrightarrow> district_fields k < district_fields other" and district_fields_inj: "district_fields k = district_fields other \<longleftrightarrow> k = other"
  by (auto simp: district_less_def district_fields_def intro: district_key.expand)

instantiation district_key :: linorder
begin

definition less_district_key :: "district_key \<Rightarrow> district_key \<Rightarrow> bool" where "less_district_key = district_less"

definition less_eq_district_key :: "district_key \<Rightarrow> district_key \<Rightarrow> bool" where "less_eq_district_key k other = (\<not> district_less other k)"

instance
  by standard (auto simp: less_district_key_def less_eq_district_key_def district_less_lex not_less order.antisym simp flip: district_fields_inj)

end

definition customer_fields where "customer_fields k = (c_w_id k, c_d_id k, c_id k)"

lemma customer_less_lex: "customer_less k other \<longleftrightarrow> customer_fields k < customer_fields other" and customer_fields_inj: "customer_fields k = customer_fields other \<longleftrightarrow> k = other"
  by (auto simp: customer_less_def customer_fields_def intro: customer_key.expand)

instantiation customer_key :: linorder
begin

definition less_customer_key :: "customer_key \<Rightarrow> customer_key \<Rightarrow> bool" where "less_customer_key = customer_less"

definition less_eq_customer_key :: "customer_key \<Rightarrow> customer_key \<Rightarrow> bool" where "less_eq_customer_key k other = (\<not> customer_less other k)"

instance
  by standard (auto simp: less_customer_key_def less_eq_customer_key_def customer_less_lex not_less order.antisym simp flip: customer_fields_inj)

end

definition customer_wdl_fields where "customer_wdl_fields k = (cl_w_id k, cl_d_id k, c_last k, c_first k)"

lemma customer_wdl_less_lex: "customer_wdl_less k other \<longleftrightarrow> customer_wdl_fields k < customer_wdl_fields other" and customer_wdl_fields_inj: "customer_wdl_fields k = customer_wdl_fields other \<longleftrightarrow> k = other"
  by (auto simp: customer_wdl_less_def customer_wdl_fields_def intro: customer_wdl_key.expand)

instantiation customer_wdl_key :: linorder
begin

definition less_customer_wdl_key :: "customer_wdl_key \<Rightarrow> customer_wdl_key \<Rightarrow> bool" where "less_customer_wdl_key = customer_wdl_less"

definition less_eq_customer_wdl_key :: "customer_wdl_key \<Rightarrow> customer_wdl_key \<Rightarrow> bool" where "less_eq_customer_wdl_key k other = (\<not> customer_wdl_less other k)"

instance
  by standard (auto simp: less_customer_wdl_key_def less_eq_customer_wdl_key_def customer_wdl_less_lex not_less order.antisym simp flip: customer_wdl_fields_inj)

end

definition history_fields where "history_fields k = (thread_id k, h_pk k)"

lemma history_less_lex: "history_less k other \<longleftrightarrow> history_fields k < history_fields other" and history_fields_inj: "history_fields k = history_fields other \<longleftrightarrow> k = other"
  by (auto simp: history_less_def history_fields_def intro: history_key.expand)

instantiation history_key :: linorder
begin

definition less_history_key :: "history_key \<Rightarrow> history_key \<Rightarrow> bool" where "less_history_key = history_less"

definition less_eq_history_key :: "history_key \<Rightarrow> history_key \<Rightarrow> bool" where "less_eq_history_key k other = (\<not> history_less other k)"

instance
  by standard (auto simp: less_history_key_def less_eq_history_key_def history_less_lex not_less order.antisym simp flip: history_fields_inj)

end

definition neworder_fields where "neworder_fields k = (no_w_id k, no_d_id k, no_o_id k)"

lemma neworder_less_lex: "neworder_less k other \<longleftrightarrow> neworder_fields k < neworder_fields other" and neworder_fields_inj: "neworder_fields k = neworder_fields other \<longleftrightarrow> k = other"
  by (auto simp: neworder_less_def neworder_fields_def intro: neworder_key.expand)

instantiation neworder_key :: linorder
begin

definition less_neworder_key :: "neworder_key \<Rightarrow> neworder_key \<Rightarrow> bool" where "less_neworder_key = neworder_less"

definition less_eq_neworder_key :: "neworder_key \<Rightarrow> neworder_key \<Rightarrow> bool" where "less_eq_neworder_key k other = (\<not> neworder_less other k)"

instance
  by standard (auto simp: less_neworder_key_def less_eq_neworder_key_def neworder_less_lex not_less order.antisym simp flip: neworder_fields_inj)

end

definition order_fields where "order_fields k = (o_w_id k, o_d_id k, o_id k)"

lemma order_less_lex: "order_less k other \<longleftrightarrow> order_fields k < order_fields other" and order_fields_inj: "order_fields k = order_fields other \<longleftrightarrow> k = other"
  by (auto simp: order_less_def order_fields_def intro: order_key.expand)

instantiation order_key :: linorder
begin

definition less_order_key :: "order_key \<Rightarrow> order_key \<Rightarrow> bool" where "less_order_key = order_less"

definition less_eq_order_key :: "order_key \<Rightarrow> order_key \<Rightarrow> bool" where "less_eq_order_key k other = (\<not> order_less other k)"

instance
  by standard (auto simp: less_order_key_def less_eq_order_key_def order_less_lex not_less order.antisym simp flip: order_fields_inj)

end

definition order_wdc_fields where "order_wdc_fields k = (oc_w_id k, oc_d_id k, oc_c_id k, oc_id k)"

lemma order_wdc_less_lex: "order_wdc_less k other \<longleftrightarrow> order_wdc_fields k < order_wdc_fields other" and order_wdc_fields_inj: "order_wdc_fields k = order_wdc_fields other \<longleftrightarrow> k = other"
  by (auto simp: order_wdc_less_def order_wdc_fields_def intro: order_wdc_key.expand)

instantiation order_wdc_key :: linorder
begin

definition less_order_wdc_key :: "order_wdc_key \<Rightarrow> order_wdc_key \<Rightarrow> bool" where "less_order_wdc_key = order_wdc_less"

definition less_eq_order_wdc_key :: "order_wdc_key \<Rightarrow> order_wdc_key \<Rightarrow> bool" where "less_eq_order_wdc_key k other = (\<not> order_wdc_less other k)"

instance
  by standard (auto simp: less_order_wdc_key_def less_eq_order_wdc_key_def order_wdc_less_lex not_less order.antisym simp flip: order_wdc_fields_inj)

end

definition orderline_fields where "orderline_fields k = (ol_w_id k, ol_d_id k, ol_o_id k, ol_number k)"

lemma orderline_less_lex: "orderline_less k other \<longleftrightarrow> orderline_fields k < orderline_fields other" and orderline_fields_inj: "orderline_fields k = orderline_fields other \<longleftrightarrow> k = other"
  by (auto simp: orderline_less_def orderline_fields_def intro: orderline_key.expand)

instantiation orderline_key :: linorder
begin

definition less_orderline_key :: "orderline_key \<Rightarrow> orderline_key \<Rightarrow> bool" where "less_orderline_key = orderline_less"

definition less_eq_orderline_key :: "orderline_key \<Rightarrow> orderline_key \<Rightarrow> bool" where "less_eq_orderline_key k other = (\<not> orderline_less other k)"

instance
  by standard (auto simp: less_orderline_key_def less_eq_orderline_key_def orderline_less_lex not_less order.antisym simp flip: orderline_fields_inj)

end

definition item_fields where "item_fields k = i_id k"

lemma item_less_lex: "item_less k other \<longleftrightarrow> item_fields k < item_fields other" and item_fields_inj: "item_fields k = item_fields other \<longleftrightarrow> k = other"
  by (auto simp: item_less_def item_fields_def intro: item_key.expand)

instantiation item_key :: linorder
begin

definition less_item_key :: "item_key \<Rightarrow> item_key \<Rightarrow> bool" where "less_item_key = item_less"

definition less_eq_item_key :: "item_key \<Rightarrow> item_key \<Rightarrow> bool" where "less_eq_item_key k other = (\<not> item_less other k)"

instance
  by standard (auto simp: less_item_key_def less_eq_item_key_def item_less_lex not_less order.antisym simp flip: item_fields_inj)

end

definition stock_fields where "stock_fields k = (s_w_id k, s_i_id k)"

lemma stock_less_lex: "stock_less k other \<longleftrightarrow> stock_fields k < stock_fields other" and stock_fields_inj: "stock_fields k = stock_fields other \<longleftrightarrow> k = other"
  by (auto simp: stock_less_def stock_fields_def intro: stock_key.expand)

instantiation stock_key :: linorder
begin

definition less_stock_key :: "stock_key \<Rightarrow> stock_key \<Rightarrow> bool" where "less_stock_key = stock_less"

definition less_eq_stock_key :: "stock_key \<Rightarrow> stock_key \<Rightarrow> bool" where "less_eq_stock_key k other = (\<not> stock_less other k)"

instance
  by standard (auto simp: less_stock_key_def less_eq_stock_key_def stock_less_lex not_less order.antisym simp flip: stock_fields_inj)

end

end
