(* ===== verification/Client_Adapter.thy ===== *)
theory Client_Adapter
  imports Client_Schema
begin

text \<open>
  \<open>ScaleStoreAdapter\<close> (src/frontend/tpcc/adapter.hpp): a table of the TPC-C client is a B+-tree that node 0 creates and that every
  node finds in the catalog under the number of the table.
\<close>

section \<open>The code\<close>

text \<open>The constructor: \<open>views\<close> are the contents of the catalog page that the polling reader sees, after the page that the creation
  left behind.  \<open>None\<close>: still polling.\<close>

definition adapter_new ::
  "('k::linorder, 'v) benv \<Rightarrow> u64 \<Rightarrow> NodeID \<Rightarrow> (CatalogPage \<Rightarrow> CatalogPage list) \<Rightarrow> ('k, 'v) bstore \<Rightarrow> CatalogPage \<Rightarrow> (PID \<times> ('k, 'v) bstore \<times> CatalogPage) result option" where
  "adapter_new E record_id nodeId views s c =
     (case (if nodeId = 0 then bind_r (createBTree E s c) (\<lambda>(_, s, c). Inr (s, c)) else Inr (s, c)) of
        Inl e \<Rightarrow> Some (Inl e)
      | Inr (s, c) \<Rightarrow> map_option (\<lambda>r. bind_r r (\<lambda>entry. Inr (ds_pid entry, s, c))) (getCatalogEntry record_id (views c)))"

definition adapter_insert where
  "adapter_insert E rts tree_pid rec_key record s = bt_insert E rts rec_key record tree_pid s"

definition adapter_scan where
  "adapter_scan rts f tree_pid key fn s a = bt_scan ASC_SCAN rts f key fn tree_pid s a"

definition adapter_scanDesc where
  "adapter_scanDesc rts f tree_pid key fn s a = bt_scan DESC_SCAN rts f key fn tree_pid s a"

text \<open>The visitor of \<open>lookup_opt\<close> may run on a record several times before the read is validated; the last run counts.\<close>

definition lookupField where
  "lookupField rts lf tree_pid key fld s = map_option (\<lambda>r. bind_r r (\<lambda>vs. Inr (fld (last vs)))) (bt_lookup_opt rts lf key tree_pid s [])"

definition update1 where
  "update1 rts tree_pid key fn s = bt_lookupAndUpdate rts key fn tree_pid s"

definition lookup1 where
  "lookup1 rts lf tree_pid key s = bt_lookup_opt rts lf key tree_pid s []"

definition adapter_erase where
  "adapter_erase E rts f tree_pid key s = bt_remove E rts f key tree_pid s"

section \<open>Opening a table\<close>

text \<open>A table is opened at the tree that was created for it when its number is the next id of the catalog at the time of the
  creation, and then by every node; the next table may then have the next number.\<close>

theorem adapter_opens_its_tree:
  assumes E: "env_ok E" and free: "free_ok s" "2 \<le> length (bfree s)" and c: "catalog_ok c" "unat record_id < 19" and id: "datastructureIds c = record_id"
    and views: "\<And>c. \<exists>c2 cs. views c = c2 # cs \<and> later c c2"
  shows "\<exists>e s1 c1. new_BTree E s = Inr (e, s1) \<and> adapter_new E record_id 0 views s c = Some (Inr (e, s1, c1))
    \<and> bt_ok E e s1 \<and> bt_map e s1 = Map.empty \<and> catalog_ok c1 \<and> datastructureIds c1 = record_id + 1
    \<and> (\<forall>nodeId c2 cs s2. nodeId \<noteq> 0 \<and> later c1 c2 \<longrightarrow> adapter_new E record_id nodeId (\<lambda>c. c # cs) s2 c2 = Some (Inr (e, s2, c2)))"
proof -
  obtain e s1 where t: "new_BTree E s = Inr (e, s1)" "bt_ok E e s1" "bt_kvs e s1 = []" using new_BTree_ok [OF E free] by blast
  have lt: "unat (datastructureIds c) < 19" using c(2) id by simp
  obtain c1 where c1: "insertCatalogEntry BTREE e c = Inr (record_id, c1)" "catalog_ok c1" "unat (datastructureIds c1) = Suc (unat record_id)"
    using insertCatalogEntry_ok [OF c(1) _ lt, of BTREE e] id by auto
  have get: "getCatalogEntry record_id (c2 # cs) = Some (Inr \<lparr>datastructureId = record_id, ds_type = BTREE, ds_pid = e\<rparr>)" if "later c1 c2" for c2 cs
    using registered_found [OF c(1) _ lt, of BTREE e] c1(1) id that by auto
  obtain c2 cs where v: "views c1 = c2 # cs" "later c1 c2" using views by blast
  have "createBTree E s c = Inr (e, s1, c1)" using t(1) c1(1) by (simp add: createBTree_def)
  then have "adapter_new E record_id 0 views s c = Some (Inr (e, s1, c1))" using get [OF v(2)] v(1) by (simp add: adapter_new_def del: getCatalogEntry.simps)
  moreover have "datastructureIds c1 = record_id + 1"
    using c1(3) c(2) by (intro word_unat_eq_iff [THEN iffD2]) (simp add: unat_word_ariths)
  moreover have "adapter_new E record_id nodeId (\<lambda>c. c # cs) s2 c2 = Some (Inr (e, s2, c2))" if "nodeId \<noteq> 0" "later c1 c2" for nodeId c2 cs and s2 :: "('a, 'b) bstore"
    using that get [OF that(2)] by (simp add: adapter_new_def del: getCatalogEntry.simps)
  moreover have "bt_map e s1 = Map.empty" using t(3) by (simp add: bt_map_def)
  ultimately show ?thesis using t(1,2) c1(2) by blast
qed

text \<open>Registered in another order, a table is opened at another structure: the adapter does not compare the type or the number
  it finds.\<close>

lemma adapter_opens_other_tree:
  assumes "catalog_ok c" and "unat record_id < unat (datastructureIds c)" and "nodeId \<noteq> 0"
  shows "adapter_new E record_id nodeId (\<lambda>c. [c]) s c = Some (Inr (ds_pid (catalog_entries c ! unat record_id), s, c))"
  using getCatalogEntry_found [OF assms(1,2), of "[]"] assms(3) by (simp add: adapter_new_def del: getCatalogEntry.simps)

section \<open>Using a table\<close>

text \<open>On an open table, with undisturbed attempts, the operations are those of a map from keys to records: a lookup of a field and
  an update fail for an absent key, removal reports whether the key was there.\<close>

theorem table_operations:
  fixes k :: "'k::linorder"
  assumes ok: "bt_ok E e s" and rts: "\<exists>rt\<in>set rts. clean rt" "\<forall>rt\<in>set rts. leaf_settles lf rt" and f: "bt_height e s < f"
  shows "lookupField rts lf e k fld s = Some (case bt_map e s k of Some r \<Rightarrow> Inr (fld r) | None \<Rightarrow> Inl Ensure_failed)"
    and "case bt_map e s k of
        Some r \<Rightarrow> \<exists>s'. update1 rts e k fn s = Some (Inr s') \<and> bt_ok E e s' \<and> bt_map e s' = (bt_map e s)(k \<mapsto> fn r)
      | None \<Rightarrow> update1 rts e k fn s = Some (Inl Ensure_failed)"
    and "\<exists>s'. adapter_erase E rts f e k s = Some (Inr (bt_map e s k \<noteq> None, s')) \<and> bt_ok E e s' \<and> bt_map e s' = (bt_map e s)(k := None)"
proof -
  show "lookupField rts lf e k fld s = Some (case bt_map e s k of Some r \<Rightarrow> Inr (fld r) | None \<Rightarrow> Inl Ensure_failed)"
  proof (cases "bt_map e s k")
    case None
    then show ?thesis using bt_lookup_opt_correct [OF ok rts, of k] by (simp add: lookupField_def del: bt_lookup_opt.simps)
  next
    case (Some v)
    then obtain vs where vs: "bt_lookup_opt rts lf k e s [] = Some (Inr vs)" "vs \<noteq> []" "\<forall>x\<in>set vs. x = v"
      using bt_lookup_opt_correct [OF ok rts, of k] by auto
    have "last vs = v" using vs(2,3) last_in_set by blast
    then show ?thesis using Some vs(1) by (simp add: lookupField_def del: bt_lookup_opt.simps)
  qed
  obtain r where r: "bt_lookupAndUpdate rts k fn e s = Some r" using bt_lookupAndUpdate_returns [OF ok rts(1), of k fn] by auto
  have upd: "map_of (kv_upd k v (bt_kvs e s)) = (map_of (bt_kvs e s))(k \<mapsto> v)" for v using kv_upd_sorted_map(2) [OF bt_kvs_sorted [OF ok], of k v] .
  show "case bt_map e s k of
        Some r \<Rightarrow> \<exists>s'. update1 rts e k fn s = Some (Inr s') \<and> bt_ok E e s' \<and> bt_map e s' = (bt_map e s)(k \<mapsto> fn r)
      | None \<Rightarrow> update1 rts e k fn s = Some (Inl Ensure_failed)"
  proof (cases "bt_map e s k")
    case None
    then show ?thesis using bt_lookupAndUpdate_ok [OF ok r] r by (simp add: update1_def)
  next
    case (Some v)
    then obtain s' where "r = Inr s'" "bt_ok E e s'" "bt_kvs e s' = kv_upd k (fn v) (bt_kvs e s)" using bt_lookupAndUpdate_ok [OF ok r] by auto
    then show ?thesis using Some r upd [of "fn v"] by (simp add: update1_def bt_map_def)
  qed
  obtain q where q: "bt_remove E rts f k e s = Some q" using bt_remove_returns [OF ok f rts(1), of k] by auto
  then obtain s' where "q = Inr (bt_map e s k \<noteq> None, s')" "bt_ok E e s'" "bt_kvs e s' = kv_del k (bt_kvs e s)" using bt_remove_safe [OF ok f q] by blast
  then show "\<exists>s'. adapter_erase E rts f e k s = Some (Inr (bt_map e s k \<noteq> None, s')) \<and> bt_ok E e s' \<and> bt_map e s' = (bt_map e s)(k := None)"
    using q kv_del_sorted_map(2) [OF bt_kvs_sorted [OF ok], of k] by (simp add: adapter_erase_def bt_map_def)
qed

text \<open>With pages of 512 bytes, of which the leaf header and the fences take a part, no leaf of the warehouse table can hold an entry:
  a record has 1024 bytes of padding alone.\<close>

lemma warehouse_leaf_empty: "1024 \<le> sizeof_record \<Longrightarrow> maxEntries 504 szNodeBase szFK sizeof_key sizeof_record = 0"
  by (simp add: maxEntries_def)

end
