(* ===== verification/WorkerPool.thy ===== *)
theory WorkerPool
  imports ScalePrelude
begin

text \<open>
  The worker pool (threads/WorkerPool.hpp, WorkerPool.cpp): a worker thread waits for jobs in a monitor, a mutex and one
  condition variable, which client threads use to schedule jobs, to wait for them and to stop the pool.

  The workers of a pool share nothing but \<open>keepRunning\<close>, so the model has one worker and any number of clients.  A critical
  section is one step of the thread that runs it; a thread that waits on the condition variable is blocked until it is
  notified (or wakes up spuriously) and then evaluates its predicate again.  Only the step of the worker from its predicate to
  the blocking is split in two, with the mutex held in between (\<open>WGoing\<close>): the destructor changes \<open>keepRunning\<close> and notifies
  without the mutex.  \<open>accepted\<close> and \<open>executed\<close> record the jobs handed to the worker and the jobs it has run.
\<close>

section \<open>The code\<close>

datatype wpc = WTop | WGoing | WBlocked | WWoken | WStopped

datatype 'j cpc =
    Idle
  | Sched 'j bool | SchedBlocked 'j bool | Notify 'j bool | WaitDone 'j | DoneBlocked 'j
  | Join | JoinBlocked
  | Stop | StopNotify | StopSpin

record 'j wpool =
  wtReady :: bool
  jobSet :: bool
  jobDone :: bool
  job :: "'j option"
  keepRunning :: bool
  worker :: wpc
  clients :: "'j cpc list"
  accepted :: "'j list"
  executed :: "'j list"

definition new_pool :: "nat \<Rightarrow> 'j wpool" where
  "new_pool n = \<lparr>wtReady = True, jobSet = False, jobDone = False, job = None, keepRunning = True, worker = WTop,
     clients = replicate n Idle, accepted = [], executed = []\<rparr>"

text \<open>The condition variable: who is blocked on it, and \<open>notify_one\<close>, whose choice is an argument.\<close>

datatype waiter = TheWorker | Client nat

fun unblock :: "'j cpc \<Rightarrow> 'j cpc option" where
  "unblock (SchedBlocked j sync) = Some (Sched j sync)"
| "unblock (DoneBlocked j) = Some (WaitDone j)"
| "unblock JoinBlocked = Some Join"
| "unblock _ = None"

definition blocked :: "'j wpool \<Rightarrow> waiter \<Rightarrow> bool" where
  "blocked s x = (case x of TheWorker \<Rightarrow> worker s = WBlocked | Client c \<Rightarrow> c < length (clients s) \<and> unblock (clients s ! c) \<noteq> None)"

definition someone_blocked :: "'j wpool \<Rightarrow> bool" where
  "someone_blocked s \<longleftrightarrow> worker s = WBlocked \<or> (\<exists>p\<in>set (clients s). unblock p \<noteq> None)"

definition wake :: "waiter \<Rightarrow> 'j wpool \<Rightarrow> 'j wpool" where
  "wake x s = (case x of TheWorker \<Rightarrow> s\<lparr>worker := WWoken\<rparr> | Client c \<Rightarrow> s\<lparr>clients := (clients s)[c := the (unblock (clients s ! c))]\<rparr>)"

definition notify_one :: "waiter option \<Rightarrow> 'j wpool \<Rightarrow> 'j wpool option" where
  "notify_one choice s = (case choice of
      None \<Rightarrow> if someone_blocked s then None else Some s
    | Some x \<Rightarrow> if blocked s x then Some (wake x s) else None)"

text \<open>The worker: the loop condition, the predicate of the wait, the job, and the flags.\<close>

definition worker_section :: "waiter option \<Rightarrow> 'j wpool \<Rightarrow> 'j wpool option" where
  "worker_section choice s =
     (if \<not> keepRunning s \<or> jobSet s then
        if \<not> keepRunning s then Some (s\<lparr>worker := WStopped\<rparr>)
        else (case job s of
            None \<Rightarrow> None
          | Some j \<Rightarrow> notify_one choice (s\<lparr>executed := executed s @ [j], wtReady := True, jobDone := True, jobSet := False, worker := WTop\<rparr>))
      else Some (s\<lparr>worker := WGoing\<rparr>))"

definition worker_step :: "waiter option \<Rightarrow> 'j wpool \<Rightarrow> 'j wpool option" where
  "worker_step choice s = (case worker s of
      WTop \<Rightarrow> if keepRunning s then worker_section choice s else Some (s\<lparr>worker := WStopped\<rparr>)
    | WWoken \<Rightarrow> worker_section choice s
    | WGoing \<Rightarrow> Some (s\<lparr>worker := WBlocked\<rparr>)
    | WBlocked \<Rightarrow> None
    | WStopped \<Rightarrow> None)"

definition set_client :: "nat \<Rightarrow> 'j cpc \<Rightarrow> 'j wpool \<Rightarrow> 'j wpool" where
  "set_client c p s = s\<lparr>clients := (clients s)[c := p]\<rparr>"

text \<open>The sections of the clients; the mutex is not free while the worker goes to block.\<close>

definition sched_section :: "nat \<Rightarrow> 'j \<Rightarrow> bool \<Rightarrow> 'j wpool \<Rightarrow> 'j wpool" where
  "sched_section c j sync s =
     (if \<not> jobSet s \<and> wtReady s
      then set_client c (Notify j sync) (s\<lparr>jobSet := True, jobDone := False, job := Some j, accepted := accepted s @ [j]\<rparr>)
      else set_client c (SchedBlocked j sync) s)"

definition done_section :: "nat \<Rightarrow> 'j \<Rightarrow> 'j wpool \<Rightarrow> 'j wpool" where
  "done_section c j s = (if jobDone s then set_client c Idle s else set_client c (DoneBlocked j) s)"

definition join_section :: "nat \<Rightarrow> 'j wpool \<Rightarrow> 'j wpool" where
  "join_section c s = (if wtReady s \<and> \<not> jobSet s then set_client c Idle s else set_client c JoinBlocked s)"

definition client_step :: "nat \<Rightarrow> waiter option \<Rightarrow> 'j wpool \<Rightarrow> 'j wpool option" where
  "client_step c choice s = (case clients s ! c of
      Sched j sync \<Rightarrow> if worker s = WGoing then None else Some (sched_section c j sync s)
    | Notify j sync \<Rightarrow> notify_one choice (set_client c (if sync then WaitDone j else Idle) s)
    | WaitDone j \<Rightarrow> if worker s = WGoing then None else Some (done_section c j s)
    | Join \<Rightarrow> if worker s = WGoing then None else Some (join_section c s)
    | Stop \<Rightarrow> Some (set_client c StopNotify (s\<lparr>keepRunning := False\<rparr>))
    | StopNotify \<Rightarrow> notify_one choice (set_client c StopSpin s)
    | StopSpin \<Rightarrow> if worker s = WStopped then Some (set_client c Idle s) else None
    | _ \<Rightarrow> None)"

text \<open>What threads do: a client calls \<open>scheduleJobSync\<close>, \<open>scheduleJobAsync\<close>, \<open>joinAll\<close> or the destructor, or a thread takes its
  next step.\<close>

datatype 'j action = Call_schedule nat 'j bool | Call_join nat | Call_stop nat | Worker_does "waiter option" | Client_does nat "waiter option"

fun act :: "'j action \<Rightarrow> 'j wpool \<Rightarrow> 'j wpool option" where
  "act (Call_schedule c j sync) s = (if c < length (clients s) \<and> clients s ! c = Idle then Some (set_client c (Sched j sync) s) else None)"
| "act (Call_join c) s = (if c < length (clients s) \<and> clients s ! c = Idle then Some (set_client c Join s) else None)"
| "act (Call_stop c) s = (if c < length (clients s) \<and> clients s ! c = Idle then Some (set_client c Stop s) else None)"
| "act (Worker_does choice) s = worker_step choice s"
| "act (Client_does c choice) s = (if c < length (clients s) then client_step c choice s else None)"

fun acts :: "'j action list \<Rightarrow> 'j wpool \<Rightarrow> 'j wpool option" where
  "acts [] s = Some s"
| "acts (a # as) s = (case act a s of None \<Rightarrow> None | Some s \<Rightarrow> acts as s)"

inductive pool_reach :: "nat \<Rightarrow> 'j wpool \<Rightarrow> bool" for n where
  new: "pool_reach n (new_pool n)"
| act: "pool_reach n s \<Longrightarrow> act a s = Some s' \<Longrightarrow> pool_reach n s'"
| spurious: "pool_reach n s \<Longrightarrow> blocked s x \<Longrightarrow> pool_reach n (wake x s)"

section \<open>Safety\<close>

text \<open>What holds for any number of clients.\<close>

fun handed_over :: "'j cpc \<Rightarrow> 'j option" where
  "handed_over (Notify j sync) = Some j"
| "handed_over (WaitDone j) = Some j"
| "handed_over (DoneBlocked j) = Some j"
| "handed_over _ = None"

definition clients_ok :: "'j cpc list \<Rightarrow> 'j list \<Rightarrow> bool" where
  "clients_ok ps js \<longleftrightarrow> (\<forall>p\<in>set ps. set_option (handed_over p) \<subseteq> set js)"

definition pool_inv :: "'j wpool \<Rightarrow> bool" where
  "pool_inv s \<longleftrightarrow> wtReady s \<and> accepted s = executed s @ (if jobSet s then [the (job s)] else [])
     \<and> (jobSet s \<longrightarrow> job s \<noteq> None \<and> \<not> jobDone s) \<and> (worker s = WStopped \<longrightarrow> \<not> keepRunning s)
     \<and> clients_ok (clients s) (accepted s)"

lemma clients_ok_update: "clients_ok ps js \<Longrightarrow> set_option (handed_over p) \<subseteq> set js \<Longrightarrow> clients_ok (ps[c := p]) js"
  using set_update_subset_insert [of ps c p] unfolding clients_ok_def by blast

lemma clients_ok_more: "clients_ok ps js \<Longrightarrow> clients_ok ps (js @ js')"
  by (auto simp: clients_ok_def)

lemma clients_ok_nth: "clients_ok ps js \<Longrightarrow> c < length ps \<Longrightarrow> set_option (handed_over (ps ! c)) \<subseteq> set js"
  by (auto simp: clients_ok_def)

lemma set_client_simps [simp]:
  "clients (set_client c p s) = (clients s)[c := p]" "worker (set_client c p s) = worker s" "jobSet (set_client c p s) = jobSet s"
  "jobDone (set_client c p s) = jobDone s" "wtReady (set_client c p s) = wtReady s" "job (set_client c p s) = job s"
  "keepRunning (set_client c p s) = keepRunning s" "accepted (set_client c p s) = accepted s" "executed (set_client c p s) = executed s"
  by (simp_all add: set_client_def)

lemma wake_simps [simp]:
  "jobSet (wake x s) = jobSet s" "jobDone (wake x s) = jobDone s" "wtReady (wake x s) = wtReady s" "job (wake x s) = job s"
  "keepRunning (wake x s) = keepRunning s" "accepted (wake x s) = accepted s" "executed (wake x s) = executed s" "length (clients (wake x s)) = length (clients s)"
  by (simp_all add: wake_def split: waiter.split)

lemma unblock_Some: "unblock p = Some q \<longleftrightarrow> (\<exists>j b. p = SchedBlocked j b \<and> q = Sched j b) \<or> (\<exists>j. p = DoneBlocked j \<and> q = WaitDone j) \<or> p = JoinBlocked \<and> q = Join"
  by (cases p) auto

lemma handed_over_unblock: "unblock p = Some q \<Longrightarrow> handed_over q = handed_over p"
  by (cases p) auto

lemma set_client_inv: "pool_inv s \<Longrightarrow> set_option (handed_over p) \<subseteq> set (accepted s) \<Longrightarrow> pool_inv (set_client c p s)"
  unfolding pool_inv_def set_client_simps by (blast intro: clients_ok_update)

lemma wake_client: "wake (Client c) s = set_client c (the (unblock (clients s ! c))) s"
  by (simp add: wake_def set_client_def)

lemma wake_inv:
  assumes "pool_inv s" and "blocked s x"
  shows "pool_inv (wake x s)"
proof (cases x)
  case TheWorker
  then show ?thesis using assms(1) by (cases "jobSet s") (auto simp: pool_inv_def wake_def)
next
  case (Client c)
  then obtain q where q: "c < length (clients s)" "unblock (clients s ! c) = Some q" using assms(2) by (auto simp: blocked_def)
  have "set_option (handed_over q) \<subseteq> set (accepted s)"
    using handed_over_unblock [OF q(2)] assms(1) clients_ok_nth [OF _ q(1)] unfolding pool_inv_def by metis
  then show ?thesis using Client q(2) set_client_inv [OF assms(1), of q c] by (simp add: wake_client)
qed

lemma notify_one_inv: "pool_inv s \<Longrightarrow> notify_one choice s = Some s' \<Longrightarrow> pool_inv s'"
  by (auto simp: notify_one_def wake_inv split: option.splits if_splits)

lemma worker_step_inv:
  assumes "pool_inv s" and "worker_step choice s = Some s'"
  shows "pool_inv s'"
proof (cases "\<exists>j. keepRunning s \<and> jobSet s \<and> job s = Some j \<and> worker s \<in> {WTop, WWoken}")
  case True
  then obtain j where j: "keepRunning s" "jobSet s" "job s = Some j" "worker s \<in> {WTop, WWoken}" by blast
  let ?s = "s\<lparr>executed := executed s @ [j], wtReady := True, jobDone := True, jobSet := False, worker := WTop\<rparr>"
  have "pool_inv ?s" using assms(1) j by (auto simp: pool_inv_def)
  moreover have "notify_one choice ?s = Some s'" using assms(2) j by (auto simp: worker_step_def worker_section_def)
  ultimately show ?thesis by (rule notify_one_inv)
next
  case False
  then show ?thesis using assms by (auto simp: worker_step_def worker_section_def pool_inv_def split: wpc.splits if_splits option.splits)
qed

lemma client_step_inv:
  assumes inv: "pool_inv s" and c: "c < length (clients s)" and step: "client_step c choice s = Some s'"
  shows "pool_inv s'"
proof (cases "clients s ! c")
  case (Sched j b)
  have "pool_inv (s\<lparr>jobSet := True, jobDone := False, job := Some j, accepted := accepted s @ [j]\<rparr>)" if "\<not> jobSet s"
    using inv that by (auto simp: pool_inv_def clients_ok_more)
  then show ?thesis using step Sched inv by (auto simp: client_step_def sched_section_def intro!: set_client_inv split: if_splits)
next
  case (Notify j b)
  then have "j \<in> set (accepted s)" using inv clients_ok_nth [OF _ c, of "accepted s"] unfolding pool_inv_def by auto
  then have "pool_inv (set_client c (if b then WaitDone j else Idle) s)" using inv by (auto intro: set_client_inv)
  then show ?thesis using step Notify notify_one_inv by (auto simp: client_step_def)
next
  case (WaitDone j)
  then have "j \<in> set (accepted s)" using inv clients_ok_nth [OF _ c, of "accepted s"] unfolding pool_inv_def by auto
  then show ?thesis using step WaitDone inv by (auto simp: client_step_def done_section_def intro!: set_client_inv split: if_splits)
next
  case Join
  then show ?thesis using step inv by (auto simp: client_step_def join_section_def intro!: set_client_inv split: if_splits)
next
  case Stop
  have "pool_inv (s\<lparr>keepRunning := False\<rparr>)" using inv by (auto simp: pool_inv_def)
  then show ?thesis using step Stop by (auto simp: client_step_def intro!: set_client_inv)
next
  case StopNotify
  have "pool_inv (set_client c StopSpin s)" using inv by (auto intro: set_client_inv)
  then show ?thesis using step StopNotify notify_one_inv by (auto simp: client_step_def)
next
  case StopSpin
  then show ?thesis using step inv by (auto simp: client_step_def intro!: set_client_inv split: if_splits)
qed (use step in \<open>simp_all add: client_step_def\<close>)

lemma act_inv:
  assumes inv: "pool_inv s" and act: "act a s = Some s'"
  shows "pool_inv s'"
proof (cases a)
  case (Worker_does choice)
  then show ?thesis using worker_step_inv [OF inv] act by simp
next
  case (Client_does c choice)
  then show ?thesis using client_step_inv [OF inv] act by (simp split: if_splits)
qed (use act set_client_inv [OF inv] in \<open>auto split: if_splits\<close>)

lemma reach_inv: "pool_reach n s \<Longrightarrow> pool_inv s"
proof (induction rule: pool_reach.induct)
  case new
  then show ?case by (simp add: pool_inv_def new_pool_def clients_ok_def)
qed (auto intro: act_inv wake_inv)


section \<open>Progress for one client\<close>

text \<open>With one client no notification is lost: a blocked worker with a job in its slot is about to be notified, and a blocked
  client waits for a job that is still in the slot.\<close>

definition solo_ok :: "'j cpc \<Rightarrow> 'j wpool \<Rightarrow> bool" where
  "solo_ok p s \<longleftrightarrow> clients s = [p] \<and> pool_inv s \<and> (keepRunning s \<longrightarrow>
     (worker s = WGoing \<longrightarrow> \<not> jobSet s) \<and> (jobSet s \<and> worker s = WBlocked \<longrightarrow> (\<exists>j b. p = Notify j b))
     \<and> (unblock p \<noteq> None \<longrightarrow> jobSet s) \<and> (handed_over p \<noteq> None \<longrightarrow> jobSet s \<or> jobDone s) \<and> p \<notin> {StopNotify, StopSpin})"

definition in_call :: "'j cpc \<Rightarrow> bool" where
  "in_call p \<longleftrightarrow> p \<notin> {Idle, Stop, StopNotify, StopSpin}"

text \<open>Steps that are left in a call, at most.\<close>

fun client_rank :: "'j cpc \<Rightarrow> nat" where
  "client_rank (Sched j b) = 40"
| "client_rank (SchedBlocked j b) = 39"
| "client_rank (Notify j b) = 20"
| "client_rank (WaitDone j) = 10"
| "client_rank (DoneBlocked j) = 9"
| "client_rank Join = 10"
| "client_rank JoinBlocked = 9"
| "client_rank _ = 0"

fun worker_rank :: "wpc \<Rightarrow> nat" where
  "worker_rank WTop = 3"
| "worker_rank WWoken = 2"
| "worker_rank WGoing = 1"
| "worker_rank _ = 0"

definition rank :: "'j cpc \<Rightarrow> 'j wpool \<Rightarrow> nat" where
  "rank p s = client_rank p + (if jobSet s then 10 else 0) + worker_rank (worker s)"

lemma notify_one_solo:
  assumes "notify_one choice s = Some s'" and "clients s = [p]"
  shows "worker s = WBlocked \<and> s' = s\<lparr>worker := WWoken\<rparr> \<or> (\<exists>q. unblock p = Some q \<and> s' = set_client 0 q s)
    \<or> worker s \<noteq> WBlocked \<and> unblock p = None \<and> s' = s"
  using assms by (auto simp: notify_one_def someone_blocked_def blocked_def wake_def set_client_def split: option.splits if_splits waiter.splits)

lemma rank_unblock: "unblock p = Some q \<Longrightarrow> client_rank q = Suc (client_rank p) \<and> handed_over q = handed_over p \<and> unblock q = None \<and> in_call q \<and> in_call p"
  by (cases p) (auto simp: in_call_def)

lemma solo_pool_inv: "solo_ok p s \<Longrightarrow> pool_inv s" "solo_ok p s \<Longrightarrow> clients s = [p]"
  by (simp_all add: solo_ok_def)

lemma solo_worker_step:
  assumes ok: "solo_ok p s" and step: "worker_step choice s = Some s'"
  shows "\<exists>p'. solo_ok p' s' \<and> (keepRunning s \<and> in_call p \<longrightarrow> rank p' s' < rank p s \<and> keepRunning s' \<and> in_call p')"
proof (cases "keepRunning s \<and> jobSet s \<and> worker s \<in> {WTop, WWoken}")
  case True
  obtain j where j: "job s = Some j" using solo_pool_inv(1) [OF ok] True by (auto simp: pool_inv_def)
  let ?s = "s\<lparr>executed := executed s @ [j], wtReady := True, jobDone := True, jobSet := False, worker := WTop\<rparr>"
  have n: "notify_one choice ?s = Some s'" using step True j by (auto simp: worker_step_def worker_section_def)
  have c: "clients ?s = [p]" using solo_pool_inv(2) [OF ok] by simp
  have inv: "pool_inv s'" by (rule worker_step_inv [OF solo_pool_inv(1) [OF ok] step])
  have p: "p \<notin> {StopNotify, StopSpin}" using ok True by (simp add: solo_ok_def)
  from notify_one_solo [OF n c] show ?thesis
  proof (elim disjE exE conjE)
    fix q assume q: "unblock p = Some q" "s' = set_client 0 q ?s"
    have "solo_ok q s'" using inv q c rank_unblock [OF q(1)] by (auto simp: solo_ok_def in_call_def)
    moreover have "rank q s' < rank p s" using q rank_unblock [OF q(1)] True by (auto simp: rank_def)
    ultimately show ?thesis using q True rank_unblock [OF q(1)] by (intro exI [of _ q]) auto
  next
    assume q: "unblock p = None" "s' = ?s"
    have "solo_ok p s'" using inv q c p by (auto simp: solo_ok_def)
    moreover have "rank p s' < rank p s" using q True by (auto simp: rank_def)
    ultimately show ?thesis using q True by (intro exI [of _ p]) auto
  qed simp
next
  case False
  have inv: "pool_inv s'" by (rule worker_step_inv [OF solo_pool_inv(1) [OF ok] step])
  show ?thesis using False step ok inv
    by (intro exI [of _ p]) (auto simp: solo_ok_def worker_step_def worker_section_def rank_def split: wpc.splits if_splits option.splits)
qed

lemma solo_client_step:
  assumes ok: "solo_ok p s" and step: "client_step 0 choice s = Some s'"
  shows "\<exists>p'. solo_ok p' s' \<and> (keepRunning s \<and> in_call p \<longrightarrow> rank p' s' < rank p s \<and> keepRunning s' \<and> (p' = Idle \<or> in_call p'))"
proof -
  have c: "clients s = [p]" by (rule solo_pool_inv(2) [OF ok])
  have inv: "pool_inv s'" by (rule client_step_inv [OF solo_pool_inv(1) [OF ok] _ step]) (simp add: c)
  show ?thesis
  proof (cases p)
    case (Sched j b)
    then show ?thesis using step ok inv c
      by (intro exI [of _ "if jobSet s then SchedBlocked j b else Notify j b"])
        (auto simp: client_step_def sched_section_def solo_ok_def rank_def in_call_def pool_inv_def [of s] split: if_splits)
  next
    case (Notify j b)
    let ?q = "if b then WaitDone j else Idle"
    have n: "notify_one choice (set_client 0 ?q s) = Some s'" using step c Notify by (simp add: client_step_def)
    have c': "clients (set_client 0 ?q s) = [?q]" using c by simp
    have "unblock ?q = None" by simp
    then have "worker s = WBlocked \<and> s' = (set_client 0 ?q s)\<lparr>worker := WWoken\<rparr> \<or> worker s \<noteq> WBlocked \<and> s' = set_client 0 ?q s"
      using notify_one_solo [OF n c'] by auto
    then show ?thesis using ok inv c Notify
      by (intro exI [of _ ?q]) (auto simp: solo_ok_def rank_def in_call_def)
  next
    case (WaitDone j)
    then show ?thesis using step ok inv c
      by (intro exI [of _ "if jobDone s then Idle else DoneBlocked j"])
        (auto simp: client_step_def done_section_def solo_ok_def rank_def in_call_def split: if_splits)
  next
    case Join
    then show ?thesis using step ok inv c
      by (intro exI [of _ "if jobSet s then JoinBlocked else Idle"])
        (auto simp: client_step_def join_section_def solo_ok_def rank_def in_call_def pool_inv_def [of s] split: if_splits)
  next
    case Stop
    then show ?thesis using step ok inv c
      by (intro exI [of _ StopNotify]) (auto simp: client_step_def solo_ok_def in_call_def)
  next
    case StopNotify
    have n: "notify_one choice (set_client 0 StopSpin s) = Some s'" using step c StopNotify by (simp add: client_step_def)
    have k: "\<not> keepRunning s" using ok StopNotify by (auto simp: solo_ok_def)
    have "clients s' = [StopSpin] \<and> keepRunning s' = keepRunning s" using notify_one_solo [OF n, of StopSpin] c by auto
    then show ?thesis using inv k StopNotify by (intro exI [of _ StopSpin]) (auto simp: solo_ok_def in_call_def)
  next
    case StopSpin
    then show ?thesis using step ok inv c
      by (intro exI [of _ Idle]) (auto simp: client_step_def solo_ok_def in_call_def split: if_splits)
  qed (use step c in \<open>simp_all add: client_step_def\<close>)
qed

lemma solo_act:
  assumes ok: "solo_ok p s" and act: "act a s = Some s'"
  shows "\<exists>p'. solo_ok p' s' \<and> (keepRunning s \<and> in_call p \<longrightarrow> rank p' s' < rank p s \<and> keepRunning s' \<and> (p' = Idle \<or> in_call p'))"
proof (cases a)
  case (Worker_does choice)
  then show ?thesis using solo_worker_step [OF ok] act by fastforce
next
  case (Client_does c choice)
  then show ?thesis using solo_client_step [OF ok] act solo_pool_inv(2) [OF ok] by (auto split: if_splits)
next
  case (Call_schedule c j b)
  then show ?thesis using act ok act_inv [OF solo_pool_inv(1) [OF ok] act]
    by (intro exI [of _ "Sched j b"]) (auto simp: solo_ok_def in_call_def split: if_splits)
next
  case (Call_join c)
  then show ?thesis using act ok act_inv [OF solo_pool_inv(1) [OF ok] act]
    by (intro exI [of _ Join]) (auto simp: solo_ok_def in_call_def split: if_splits)
next
  case (Call_stop c)
  then show ?thesis using act ok act_inv [OF solo_pool_inv(1) [OF ok] act]
    by (intro exI [of _ Stop]) (auto simp: solo_ok_def in_call_def split: if_splits)
qed

lemma solo_wake:
  assumes ok: "solo_ok p s" and b: "blocked s x"
  shows "\<exists>p'. solo_ok p' (wake x s)"
proof (cases x)
  case TheWorker
  then show ?thesis using wake_inv [OF solo_pool_inv(1) [OF ok] b] ok by (intro exI [of _ p]) (auto simp: solo_ok_def wake_def)
next
  case (Client c)
  then obtain q where q: "c = 0" "unblock p = Some q" using b ok by (auto simp: blocked_def solo_ok_def)
  have "clients (wake x s) = [q]" "worker (wake x s) = worker s" using Client q ok by (simp_all add: wake_client solo_ok_def)
  then have "solo_ok q (wake x s)" using wake_inv [OF solo_pool_inv(1) [OF ok] b] ok rank_unblock [OF q(2)] q(2)
    by (auto simp: solo_ok_def in_call_def)
  then show ?thesis ..
qed

lemma reach_solo: "pool_reach 1 s \<Longrightarrow> \<exists>p. solo_ok p s"
proof (induction rule: pool_reach.induct)
  case new
  have "pool_inv (new_pool 1)" by (rule reach_inv [OF pool_reach.new])
  then show ?case by (intro exI [of _ Idle]) (auto simp: solo_ok_def new_pool_def)
next
  case (act s a s')
  then show ?case using solo_act by blast
next
  case (spurious s x)
  then show ?case using solo_wake by blast
qed

text \<open>Nobody waits for a notification that never comes.\<close>

lemma notify_one_exists: "\<exists>choice s'. notify_one choice s = Some s'"
proof (cases "someone_blocked s")
  case True
  then have "worker s = WBlocked \<or> (\<exists>c<length (clients s). unblock (clients s ! c) \<noteq> None)" by (auto simp: someone_blocked_def in_set_conv_nth)
  then have "\<exists>x. blocked s x"
  proof (elim disjE exE conjE)
    assume "worker s = WBlocked"
    then show ?thesis by (intro exI [of _ TheWorker]) (simp add: blocked_def)
  next
    fix c assume "c < length (clients s)" "unblock (clients s ! c) \<noteq> None"
    then show ?thesis by (intro exI [of _ "Client c"]) (simp add: blocked_def)
  qed
  then obtain x where "blocked s x" by blast
  then show ?thesis by (intro exI [of _ "Some x"]) (simp add: notify_one_def)
next
  case False
  then show ?thesis by (intro exI [of _ None]) (simp add: notify_one_def)
qed

lemma worker_can_step:
  assumes "pool_inv s" and "worker s \<notin> {WBlocked, WStopped}"
  shows "\<exists>choice s'. worker_step choice s = Some s'"
proof -
  have "\<exists>choice s'. worker_section choice s = Some s'"
  proof (cases "keepRunning s \<and> jobSet s")
    case True
    then obtain j where j: "job s = Some j" using assms(1) by (auto simp: pool_inv_def)
    then show ?thesis using True notify_one_exists [of "s\<lparr>executed := executed s @ [j], wtReady := True, jobDone := True, jobSet := False, worker := WTop\<rparr>"]
      by (simp add: worker_section_def)
  next
    case False
    then show ?thesis by (auto simp: worker_section_def)
  qed
  then show ?thesis using assms(2) by (cases "worker s") (auto simp: worker_step_def)
qed

lemma solo_progress:
  assumes ok: "solo_ok p s" and k: "keepRunning s" and p: "in_call p"
  shows "\<exists>a s'. act a s = Some s'"
proof (cases "worker s \<in> {WBlocked, WStopped}")
  case False
  then obtain choice s' where "worker_step choice s = Some s'" using worker_can_step [OF solo_pool_inv(1) [OF ok]] by blast
  then have "act (Worker_does choice) s = Some s'" by simp
  then show ?thesis by blast
next
  case True
  then have w: "worker s = WBlocked" using ok k by (auto simp: solo_ok_def pool_inv_def)
  then have "unblock p = None" using ok k by (auto simp: solo_ok_def)
  then have "\<exists>choice s'. client_step 0 choice s = Some s'"
    using p w ok notify_one_exists by (cases p) (auto simp: client_step_def solo_ok_def in_call_def)
  then obtain choice s' where "client_step 0 choice s = Some s'" by blast
  then have "act (Client_does 0 choice) s = Some s'" using ok by (simp add: solo_ok_def)
  then show ?thesis by blast
qed

lemma solo_bounded:
  assumes "solo_ok p (f 0)" and "keepRunning (f 0)" and "in_call p"
    and "\<forall>i<k. clients (f i) \<noteq> [Idle] \<and> (\<exists>a. act a (f i) = Some (f (Suc i)))"
  shows "k \<le> rank p (f 0)"
  using assms
proof (induction k arbitrary: f p)
  case 0
  then show ?case by simp
next
  case (Suc k)
  obtain a where "act a (f 0) = Some (f 1)" using Suc.prems(4) by auto
  then obtain p' where p': "solo_ok p' (f 1)" "rank p' (f 1) < rank p (f 0)" "keepRunning (f 1)" "p' = Idle \<or> in_call p'"
    using solo_act [OF Suc.prems(1)] Suc.prems(2,3) by blast
  show ?case
  proof (cases "k = 0")
    case True
    then show ?thesis using p'(2) by simp
  next
    case False
    then have "clients (f 1) \<noteq> [Idle]" using Suc.prems(4) by auto
    then have "in_call p'" using p'(1,4) by (auto simp: solo_ok_def)
    then have "k \<le> rank p' (f 1)" using Suc.IH [of p' "\<lambda>i. f (Suc i)"] p'(1,3) Suc.prems(4) by simp
    then show ?thesis using p'(2) by simp
  qed
qed

text \<open>C22: a single client's calls return.  When one thread uses a worker, then from every reachable state inside one of its calls
  of \<open>scheduleJobSync\<close>, \<open>scheduleJobAsync\<close> or \<open>joinAll\<close> the client or the worker can take a step, and after at most 53 steps of the
  two the call has returned.\<close>

theorem pool_calls_return:
  assumes "pool_reach 1 s" and "keepRunning s" and "in_call (clients s ! 0)"
  shows "(\<exists>a s'. act a s = Some s')
    \<and> (\<forall>f k. f 0 = s \<and> (\<forall>i<k. clients (f i) \<noteq> [Idle] \<and> (\<exists>a. act a (f i) = Some (f (Suc i)))) \<longrightarrow> k \<le> 53)"
proof -
  obtain p where ok: "solo_ok p s" using reach_solo [OF assms(1)] by blast
  then have p: "in_call p" using assms(3) by (simp add: solo_ok_def)
  have "client_rank p \<le> 40" "worker_rank (worker s) \<le> 3" by (cases p; simp) (cases "worker s"; simp)
  then have le: "rank p s \<le> 53" by (simp add: rank_def)
  have "k \<le> 53" if "f 0 = s" "\<forall>i<k. clients (f i) \<noteq> [Idle] \<and> (\<exists>a. act a (f i) = Some (f (Suc i)))" for f k
    using solo_bounded [of p f k] that ok p assms(2) le by simp
  then show ?thesis using solo_progress [OF ok assms(2) p] by blast
qed

lemma acts_reach: "pool_reach n s \<Longrightarrow> acts as s = Some s' \<Longrightarrow> pool_reach n s'"
  by (induction as arbitrary: s) (auto split: option.splits intro: pool_reach.act)

theorem pool_calls_return_witness:
  "\<exists>s :: nat wpool. clients s = [Sched 5 True] \<and> (\<exists>a s'. act a s = Some s')"
proof -
  let ?s = "set_client 0 (Sched 5 True) (new_pool 1) :: nat wpool"
  have "pool_reach 1 ?s" by (rule acts_reach [OF pool_reach.new, of "[Call_schedule 0 5 True]"]) (simp add: new_pool_def)
  moreover have "keepRunning ?s" "in_call (clients ?s ! 0)" "clients ?s = [Sched 5 True]" by (simp_all add: new_pool_def in_call_def)
  ultimately show ?thesis using pool_calls_return [of ?s] by blast
qed


section \<open>Lost notifications\<close>

text \<open>C39: two clients of one worker can block each other for ever.  All threads wait on one condition variable and are woken one
  at a time, so the notification that a job is done can go to a client that waits for the slot, and that client's notification of
  the new job to the first client: the job stays in the slot, the worker and both clients stay blocked, and no thread can take a
  step.\<close>

theorem pool_clients_deadlock:
  "\<exists>s. pool_reach 2 s \<and> keepRunning s \<and> jobSet s \<and> accepted s = [10, 20 :: nat] \<and> executed s = [10]
    \<and> worker s = WBlocked \<and> clients s = [DoneBlocked 10, DoneBlocked 20] \<and> (\<forall>a. act a s = None)"
proof -
  let ?as = "[Worker_does None, Worker_does None,
     Call_schedule 0 10 True, Client_does 0 None, Client_does 0 (Some TheWorker),
     Call_schedule 1 20 True, Client_does 1 None, Client_does 0 None,
     Worker_does (Some (Client 1)), Worker_does None, Worker_does None,
     Client_does 1 None, Client_does 1 (Some (Client 0)), Client_does 0 None, Client_does 1 None]"
  let ?s = "\<lparr>wtReady = True, jobSet = True, jobDone = False, job = Some 20, keepRunning = True, worker = WBlocked,
     clients = [DoneBlocked 10, DoneBlocked 20], accepted = [10, 20], executed = [10]\<rparr> :: nat wpool"
  have "acts ?as (new_pool 2) = Some ?s"
    by (simp add: new_pool_def worker_step_def worker_section_def client_step_def sched_section_def done_section_def notify_one_def
        someone_blocked_def blocked_def wake_def set_client_def numeral_2_eq_2)
  then have "pool_reach 2 ?s" by (rule acts_reach [OF pool_reach.new])
  moreover have "act a ?s = None" for a
    by (cases a) (auto simp: worker_step_def client_step_def less_Suc_eq numeral_2_eq_2 nth_Cons split: nat.splits)
  ultimately show ?thesis by (intro exI [of _ ?s]) simp
qed

text \<open>The destructor can wait for ever.  It clears \<open>keepRunning\<close> and notifies without holding the mutex, so both can happen
  between the worker's evaluation of its predicate and its blocking; the worker then sleeps and \<open>runningThreads\<close> never drops.\<close>

theorem pool_stop_hangs:
  "\<exists>s :: nat wpool. pool_reach 1 s \<and> \<not> keepRunning s \<and> worker s = WBlocked \<and> clients s = [StopSpin] \<and> (\<forall>a. act a s = None)"
proof -
  let ?as = "[Worker_does None, Call_stop 0, Client_does 0 None, Client_does 0 None, Worker_does None]"
  let ?s = "\<lparr>wtReady = True, jobSet = False, jobDone = False, job = None, keepRunning = False, worker = WBlocked,
     clients = [StopSpin], accepted = [], executed = []\<rparr> :: nat wpool"
  have "acts ?as (new_pool 1) = Some ?s"
    by (simp add: new_pool_def worker_step_def worker_section_def client_step_def notify_one_def someone_blocked_def set_client_def)
  then have "pool_reach 1 ?s" by (rule acts_reach [OF pool_reach.new])
  moreover have "act a ?s = None" for a by (cases a) (auto simp: worker_step_def client_step_def)
  ultimately show ?thesis by (intro exI [of _ ?s]) simp
qed

end
