(* ===== verification/AtomicBitmap.thy ===== *)
theory AtomicBitmap
  imports Bitmap
begin

unbundle bit_operations_syntax

text \<open>
  \<open>AtomicBitmap\<close> of storage/datastructures/Bitmap.hpp: an array of atomic words.  Every access is one atomic operation on one
  word, so other threads run between the accesses of a call; what a call reads is the contents at that time, which is an
  argument of the two operations that read more than one word.
\<close>

section \<open>The code\<close>

record AtomicBitmap =
  ab_sizeBits :: nat
  ab_words :: words

definition ab_init :: "nat \<Rightarrow> AtomicBitmap" where
  "ab_init n = \<lparr>ab_sizeBits = n, ab_words = replicate (n div 64) 0\<rparr>"

definition ab_set :: "AtomicBitmap \<Rightarrow> u64 \<Rightarrow> AtomicBitmap result" where
  "ab_set b p = bind_r (array_get (ab_words b) (word_pos p)) (\<lambda>w. Inr (b\<lparr>ab_words := (ab_words b)[word_pos p := w OR bm64_bit p]\<rparr>))"

definition ab_reset :: "AtomicBitmap \<Rightarrow> u64 \<Rightarrow> AtomicBitmap result" where
  "ab_reset b p = bind_r (array_get (ab_words b) (word_pos p)) (\<lambda>w. Inr (b\<lparr>ab_words := (ab_words b)[word_pos p := w AND NOT (bm64_bit p)]\<rparr>))"

definition ab_test :: "AtomicBitmap \<Rightarrow> u64 \<Rightarrow> bool result" where
  "ab_test b p = bind_r (array_get (ab_words b) (word_pos p)) (\<lambda>w. Inr (w AND bm64_bit p \<noteq> 0))"

text \<open>\<open>views k\<close> is the bitmap when word \<open>k\<close> is loaded.\<close>

definition ab_count :: "nat \<Rightarrow> (nat \<Rightarrow> words) \<Rightarrow> nat" where
  "ab_count sz views = fold (\<lambda>k answ. answ + popcountll (views k ! k)) [0..<sz] 0"

function ab_pick_loop :: "nat \<Rightarrow> u64 \<Rightarrow> nat option" where
  "ab_pick_loop pick bitset =
     (if bitset \<noteq> 0 then
        let r = ctzll bitset + 64 * (pick div 64)
        in if r \<ge> pick then Some r else ab_pick_loop pick (bitset XOR (bitset AND (- bitset)))
      else None)"
  by pat_completeness auto
termination
  by (relation "measure (\<lambda>(pick, bitset). length (bits_of bitset))") (simp_all add: bits_of_clear_lowest)

declare ab_pick_loop.simps [simp del]

text \<open>The outer loop, over the random picks and the contents at each load; \<open>None\<close> when none of them makes it return.\<close>

fun ab_applyToOneRnd :: "(nat \<Rightarrow> 's \<Rightarrow> 's) \<Rightarrow> (nat \<times> words) list \<Rightarrow> 's \<Rightarrow> 's result option" where
  "ab_applyToOneRnd func [] s = None"
| "ab_applyToOneRnd func ((pick, ws) # draws) s =
     (case array_get ws (pick div 64) of
        Inl e \<Rightarrow> Some (Inl e)
      | Inr bitset \<Rightarrow> (case ab_pick_loop pick bitset of
            Some r \<Rightarrow> Some (Inr (func r s))
          | None \<Rightarrow> ab_applyToOneRnd func draws s))"

definition ab_applyForAll :: "(nat \<Rightarrow> 's \<Rightarrow> 's) \<Rightarrow> u64 \<Rightarrow> u64 \<Rightarrow> nat \<Rightarrow> (nat \<Rightarrow> words) \<Rightarrow> 's \<Rightarrow> (nat \<times> 's) result" where
  "ab_applyForAll func startIdx blocks sz views s =
     ensure (unat (startIdx + blocks) < sz)
       (Inr (0, fold (\<lambda>k. bits_loop (\<lambda>r. func (k * 64 + r)) (views k ! k)) [unat startIdx..<unat (startIdx + blocks)] s))"

section \<open>Properties\<close>

lemma ab_ops_static:
  "ab_set b p = bind_r (static_set (ab_words b) p) (\<lambda>ws. Inr (b\<lparr>ab_words := ws\<rparr>))"
  "ab_reset b p = bind_r (static_reset (ab_words b) p) (\<lambda>ws. Inr (b\<lparr>ab_words := ws\<rparr>))"
  "ab_test b p = static_test (ab_words b) p"
  by (simp_all add: ab_set_def ab_reset_def ab_test_def static_set_def static_reset_def static_test_def bind_r_def split: sum.splits)

text \<open>The inner loop finds the least set position of the word at or after the pick.\<close>

lemma ab_pick_loop_find: "ab_pick_loop pick w = find (\<lambda>r. r \<ge> pick) (map (\<lambda>r. r + 64 * (pick div 64)) (bits_of w))"
proof (induction pick w rule: ab_pick_loop.induct)
  case (1 pick w)
  show ?case
  proof (cases "w = 0")
    case True
    then show ?thesis by (simp add: ab_pick_loop.simps)
  next
    case False
    then show ?thesis using 1 by (subst ab_pick_loop.simps) (simp add: bits_of_clear_lowest [OF False] Let_def)
  qed
qed

lemma word_position: "bit (ws ! (n div 64)) r \<Longrightarrow> n div 64 < length ws \<Longrightarrow> r + 64 * (n div 64) \<in> words_nodes ws" for ws :: words
proof -
  assume a: "bit (ws ! (n div 64)) r" "n div 64 < length ws"
  then have "r < 64" using bit_imp_le_length [OF a(1)] by simp
  then have "(r + 64 * (n div 64)) div 64 = n div 64" "(r + 64 * (n div 64)) mod 64 = r" by simp_all
  then show ?thesis using a unfolding words_nodes_def by simp
qed

lemma ab_pick_loop_None:
  assumes "pick div 64 < length ws"
  shows "ab_pick_loop pick (ws ! (pick div 64)) = None \<longleftrightarrow> (\<forall>r\<in>words_nodes ws. r div 64 = pick div 64 \<longrightarrow> r < pick)"
proof -
  have "(\<forall>r\<in>words_nodes ws. r div 64 = pick div 64 \<longrightarrow> r < pick) \<longleftrightarrow> (\<forall>r. bit (ws ! (pick div 64)) r \<longrightarrow> r + 64 * (pick div 64) < pick)"
  proof
    assume all: "\<forall>r\<in>words_nodes ws. r div 64 = pick div 64 \<longrightarrow> r < pick"
    show "\<forall>r. bit (ws ! (pick div 64)) r \<longrightarrow> r + 64 * (pick div 64) < pick"
    proof (intro allI impI)
      fix r assume b: "bit (ws ! (pick div 64)) r"
      then have "r < 64" using bit_imp_le_length [OF b] by simp
      then show "r + 64 * (pick div 64) < pick" using all word_position [OF b assms] by auto
    qed
  next
    assume all: "\<forall>r. bit (ws ! (pick div 64)) r \<longrightarrow> r + 64 * (pick div 64) < pick"
    show "\<forall>r\<in>words_nodes ws. r div 64 = pick div 64 \<longrightarrow> r < pick"
    proof (intro ballI impI)
      fix r assume r: "r \<in> words_nodes ws" "r div 64 = pick div 64"
      then have "r mod 64 + 64 * (pick div 64) < pick" using all by (simp add: words_nodes_def)
      moreover have "r mod 64 + 64 * (pick div 64) = r" using r(2) by (metis mod_mult_div_eq)
      ultimately show "r < pick" by simp
    qed
  qed
  then show ?thesis by (auto simp: ab_pick_loop_find find_None_iff set_bits_of not_le)
qed

text \<open>\<open>applyToOneRnd\<close> returns at the first pick that has a set position of the same word at or after it, and calls its
  function once, on such a position of the contents it loaded; before it returns, every pick was behind the last set
  position of its word.\<close>

theorem ab_applyToOneRnd_member:
  assumes "\<forall>(pick, ws)\<in>set draws. pick div 64 < length ws"
  shows "case ab_applyToOneRnd func draws s of
      None \<Rightarrow> \<forall>(pick, ws)\<in>set draws. \<forall>r\<in>words_nodes ws. r div 64 = pick div 64 \<longrightarrow> r < pick
    | Some res \<Rightarrow> \<exists>(pick, ws)\<in>set draws. \<exists>r\<in>words_nodes ws. pick \<le> r \<and> r div 64 = pick div 64 \<and> res = Inr (func r s)"
  using assms
proof (induction func draws s rule: ab_applyToOneRnd.induct)
  case (1 func s)
  then show ?case by simp
next
  case (2 func pick ws draws s)
  have in_ws: "pick div 64 < length ws" using 2(2) by simp
  show ?case
  proof (cases "ab_pick_loop pick (ws ! (pick div 64))")
    case None
    then show ?thesis using 2 in_ws ab_pick_loop_None [OF in_ws] by (auto split: option.splits)
  next
    case (Some r)
    then have "r \<in> (\<lambda>r. r + 64 * (pick div 64)) ` set (bits_of (ws ! (pick div 64)))" and "pick \<le> r"
      by (auto simp: ab_pick_loop_find find_Some_iff)
    then obtain b where b: "bit (ws ! (pick div 64)) b" "r = b + 64 * (pick div 64)" "pick \<le> r" by (auto simp: set_bits_of)
    then have "r \<in> words_nodes ws" "r div 64 = pick div 64"
      using word_position [OF b(1) in_ws] bit_imp_le_length [OF b(1)] by simp_all
    then show ?thesis using Some in_ws b(3) by auto
  qed
qed

theorem ab_applyToOneRnd_member_witness:
  "\<exists>(pick, ws)\<in>set [(70, [1, 2 :: u64]), (64, [1, 2])]. \<exists>r\<in>words_nodes ws. pick \<le> r \<and> r div 64 = pick div 64 \<and> Inr [65] = Inr (r # [])"
proof -
  have "ab_applyToOneRnd (#) [(70, [1, 2 :: u64]), (64, [1, 2])] [] = Some (Inr [65])"
    by code_simp
  then show ?thesis using ab_applyToOneRnd_member [of "[(70, [1, 2 :: u64]), (64, [1, 2])]" "(#)" "[]"] by simp
qed

text \<open>\<open>applyForAll\<close> visits exactly the positions that are set in the blocks asked for, as each word was when it was loaded;
  but its check never lets a call reach the last word.\<close>

theorem ab_applyForAll_visits:
  assumes "unat startIdx + unat blocks < 2 ^ 64" and "\<And>k. length (views k) = sz"
  shows "if unat startIdx + unat blocks < sz
     then \<exists>xs. ab_applyForAll func startIdx blocks sz views s = Inr (0, fold func xs s)
       \<and> set xs = {i. unat startIdx \<le> i div 64 \<and> i div 64 < unat startIdx + unat blocks \<and> i \<in> words_nodes (views (i div 64))}
     else ab_applyForAll func startIdx blocks sz views s = Inl Ensure_failed"
proof -
  have sum: "unat (startIdx + blocks) = unat startIdx + unat blocks" using assms(1) by (simp add: unat_word_ariths)
  let ?ks = "[unat startIdx..<unat startIdx + unat blocks]"
  let ?xs = "concat (map (\<lambda>k. map (\<lambda>r. k * 64 + r) (bits_of (views k ! k))) ?ks)"
  have fold: "fold (\<lambda>k. bits_loop (\<lambda>r. func (k * 64 + r)) (views k ! k)) ks s = fold func (concat (map (\<lambda>k. map (\<lambda>r. k * 64 + r) (bits_of (views k ! k))) ks)) s" for ks s
    by (induction ks arbitrary: s) (simp_all add: bits_loop_fold fold_map comp_def)
  have "i \<in> set ?xs \<longleftrightarrow> unat startIdx \<le> i div 64 \<and> i div 64 < unat startIdx + unat blocks \<and> i \<in> words_nodes (views (i div 64))"
    if "unat startIdx + unat blocks < sz" for i
  proof
    assume "i \<in> set ?xs"
    then obtain k r where k: "k \<in> set ?ks" "bit (views k ! k) r" "i = k * 64 + r" by (auto simp: set_bits_of)
    then have "r < 64" using bit_imp_le_length [OF k(2)] by simp
    then have "i div 64 = k" "i mod 64 = r" using k(3) by simp_all
    then show "unat startIdx \<le> i div 64 \<and> i div 64 < unat startIdx + unat blocks \<and> i \<in> words_nodes (views (i div 64))"
      using k that assms(2) by (auto simp: words_nodes_def)
  next
    assume i: "unat startIdx \<le> i div 64 \<and> i div 64 < unat startIdx + unat blocks \<and> i \<in> words_nodes (views (i div 64))"
    then have "i div 64 \<in> set ?ks" "bit (views (i div 64) ! (i div 64)) (i mod 64)" "i = i div 64 * 64 + i mod 64" by (auto simp: words_nodes_def)
    then show "i \<in> set ?xs" by (auto simp: set_bits_of image_iff simp del: div_mult_mod_eq mod_mult_self1 intro!: bexI [of _ "i div 64"])
  qed
  then show ?thesis using sum fold [of ?ks s] by (auto simp: ab_applyForAll_def intro!: exI [of _ ?xs])
qed

theorem ab_applyForAll_visits_witness:
  "(\<exists>xs. ab_applyForAll (#) 0 1 2 (\<lambda>_. [5, 1]) [] = Inr (0, fold (#) xs [])) \<and> ab_applyForAll (#) 0 2 2 (\<lambda>_. [5, 1]) [] = Inl Ensure_failed"
  using ab_applyForAll_visits [of 0 1 "\<lambda>_. [5, 1]" 2 "(#)" "[]"] ab_applyForAll_visits [of 0 2 "\<lambda>_. [5, 1]" 2 "(#)" "[]"] by auto

text \<open>Any interleaving of \<open>set\<close> and \<open>reset\<close> calls of several threads keeps the sizes and leaves the set they describe.\<close>

datatype ab_op = AbSet u64 | AbReset u64

fun ab_run :: "ab_op list \<Rightarrow> AtomicBitmap \<Rightarrow> AtomicBitmap result" where
  "ab_run [] b = Inr b"
| "ab_run (AbSet p # ops) b = bind_r (ab_set b p) (ab_run ops)"
| "ab_run (AbReset p # ops) b = bind_r (ab_reset b p) (ab_run ops)"

fun ab_abs :: "ab_op list \<Rightarrow> nat set \<Rightarrow> nat set" where
  "ab_abs [] X = X"
| "ab_abs (AbSet p # ops) X = ab_abs ops (insert (unat p) X)"
| "ab_abs (AbReset p # ops) X = ab_abs ops (X - {unat p})"

definition op_pos :: "ab_op \<Rightarrow> nat" where
  "op_pos x = (case x of AbSet p \<Rightarrow> unat p | AbReset p \<Rightarrow> unat p)"

theorem ab_interleaving:
  assumes "\<forall>x\<in>set ops. op_pos x < 64 * length (ab_words b)"
  shows "\<exists>b'. ab_run ops b = Inr b' \<and> ab_sizeBits b' = ab_sizeBits b \<and> length (ab_words b') = length (ab_words b)
    \<and> words_nodes (ab_words b') = ab_abs ops (words_nodes (ab_words b))"
  using assms
proof (induction ops b rule: ab_run.induct)
  case (1 b)
  then show ?case by simp
next
  case (2 p ops b)
  obtain ws where "static_set (ab_words b) p = Inr ws" "length ws = length (ab_words b)" "words_nodes ws = insert (unat p) (words_nodes (ab_words b))"
    using static_bitmap_set_ops [of p "ab_words b"] 2(2) by (auto simp: op_pos_def)
  then show ?case using 2(1) [of "b\<lparr>ab_words := ws\<rparr>"] 2(2) by (simp add: ab_ops_static)
next
  case (3 p ops b)
  obtain ws where "static_reset (ab_words b) p = Inr ws" "length ws = length (ab_words b)" "words_nodes ws = words_nodes (ab_words b) - {unat p}"
    using static_bitmap_set_ops [of p "ab_words b"] 3(2) by (auto simp: op_pos_def)
  then show ?case using 3(1) [of "b\<lparr>ab_words := ws\<rparr>"] 3(2) by (simp add: ab_ops_static)
qed

end
