(* ===== verification/Utilities.thy ===== *)
theory Utilities
  imports AtomicBitmap
begin

unbundle bit_operations_syntax

text \<open>
  The utilities the store computes with: the random generators (utils/RandomGenerator.hpp, RandomGenerator.cpp), the hash
  (utils/FNVHash.cpp) and the generator of scrambled values (utils/ScrambledZipfGenerator.cpp), the split of a range over threads
  (utils/Parallelize.hpp) and the core manager (threads/CoreManager.hpp).
\<close>

section \<open>Random generators\<close>

record MersenneTwister =
  mt :: "u64 list"
  mti :: nat

definition NN :: nat where "NN = 312"
definition MM :: nat where "MM = 156"
definition MATRIX_A :: u64 where "MATRIX_A = 0xB5026F5AA96619E9"
definition UM :: u64 where "UM = 0xFFFFFFFF80000000"
definition LM :: u64 where "LM = 0x7FFFFFFF"

definition mt_init :: "u64 \<Rightarrow> MersenneTwister" where
  "mt_init seed = \<lparr>mt = fold (\<lambda>i xs. xs @ [6364136223846793005 * (last xs XOR drop_bit 62 (last xs)) + of_nat i]) [1..<NN] [seed], mti = NN\<rparr>"

text \<open>The seed is mixed with a counter of the constructed generators and a value of the random device.\<close>

definition new_MersenneTwister :: "u64 \<Rightarrow> u64 \<Rightarrow> u64 \<Rightarrow> MersenneTwister" where
  "new_MersenneTwister seed mt_counter rd = mt_init ((seed XOR mt_counter) XOR rd)"

definition mag01 :: "u64 \<Rightarrow> u64" where
  "mag01 x = (if x AND 1 = 0 then 0 else MATRIX_A)"

text \<open>One word of the next block: at \<open>i\<close>, from its neighbour \<open>j\<close> and the word \<open>k\<close>.\<close>

definition twist :: "nat \<Rightarrow> nat \<Rightarrow> nat \<Rightarrow> u64 list \<Rightarrow> u64 list" where
  "twist i j k m = (let x = (m ! i AND UM) OR (m ! j AND LM) in m[i := (m ! k XOR drop_bit 1 x) XOR mag01 x])"

definition mt_block :: "u64 list \<Rightarrow> u64 list" where
  "mt_block m =
     (let m = fold (\<lambda>i. twist i (i + 1) (i + MM)) [0..<NN - MM] m;
          m = fold (\<lambda>i. twist i (i + 1) (i + MM - NN)) [NN - MM..<NN - 1] m
      in twist (NN - 1) 0 (MM - 1) m)"

definition mt_temper :: "u64 \<Rightarrow> u64" where
  "mt_temper x =
     (let x = x XOR (drop_bit 29 x AND 0x5555555555555555);
          x = x XOR (push_bit 17 x AND 0x71D67FFFEDA60000);
          x = x XOR (push_bit 37 x AND 0xFFF7EEE000000000)
      in x XOR drop_bit 43 x)"

definition mt_rnd :: "MersenneTwister \<Rightarrow> u64 \<times> MersenneTwister" where
  "mt_rnd g =
     (let g = (if mti g \<ge> NN then g\<lparr>mt := mt_block (mt g), mti := 0\<rparr> else g)
      in (mt_temper (mt g ! mti g), g\<lparr>mti := mti g + 1\<rparr>))"

definition new_Xorshift64star :: "u64 \<Rightarrow> u64 \<Rightarrow> u64 \<Rightarrow> u64" where
  "new_Xorshift64star seed mt_counter rd = (seed XOR mt_counter) XOR rd"

definition xorshift_rnd :: "u64 \<Rightarrow> u64 \<times> u64" where
  "xorshift_rnd seed =
     (let x = seed; x = x XOR drop_bit 12 x; x = x XOR push_bit 25 x; x = x XOR drop_bit 27 x
      in (x * 0x2545F4914F6CDD1D, x))"

text \<open>A remainder by zero has no meaning.\<close>

definition getRandU64 :: "u64 \<Rightarrow> u64 \<Rightarrow> MersenneTwister \<Rightarrow> (u64 \<times> MersenneTwister) result" where
  "getRandU64 lo hi g =
     (if hi - lo = 0 then Inl Undefined
      else let (r, g) = mt_rnd g; rand = lo + r mod (hi - lo)
        in ensure (rand < hi) (ensure (rand \<ge> lo) (Inr (rand, g))))"

definition getRandU64PowerTwo :: "u64 \<Rightarrow> MersenneTwister \<Rightarrow> u64 \<times> MersenneTwister" where
  "getRandU64PowerTwo maxPowerTwo g = (let (r, g) = mt_rnd g in (r AND (maxPowerTwo - 1), g))"

fun getRandString :: "nat \<Rightarrow> MersenneTwister \<Rightarrow> (u8 list \<times> MersenneTwister) result" where
  "getRandString 0 g = Inr ([], g)"
| "getRandString (Suc n) g = bind_r (getRandU64 48 123 g) (\<lambda>(r, g). bind_r (getRandString n g) (\<lambda>(rs, g). Inr (ucast r # rs, g)))"

section \<open>Hash and scrambled values\<close>

definition FNV_step :: "u64 \<times> u64 \<Rightarrow> u64 \<times> u64" where
  "FNV_step x = (case x of (val, hash_val) \<Rightarrow>
     let octet = val AND 0xff; val = drop_bit 8 val; hash_val = hash_val XOR octet in (val, hash_val * 1099511628211))"

definition FNV_hash :: "u64 \<Rightarrow> u64" where
  "FNV_hash val = snd ((FNV_step ^^ 8) (val, 0xCBF29CE484222325))"

text \<open>The value drawn from the Zipf distribution is an argument.\<close>

definition scrambled_rand :: "u64 \<Rightarrow> u64 \<Rightarrow> u64 \<Rightarrow> u64 result" where
  "scrambled_rand lo hi zipf_value =
     (let n = hi - lo in if n = 0 then Inl Undefined else Inr (lo + FNV_hash zipf_value mod n))"

definition scrambled_rand_offset :: "u64 \<Rightarrow> u64 \<Rightarrow> u64 \<Rightarrow> u64 \<Rightarrow> u64 result" where
  "scrambled_rand_offset lo hi zipf_value offset =
     (let n = hi - lo in if n = 0 then Inl Undefined else Inr (lo + FNV_hash (zipf_value + offset) mod n))"

section \<open>Ranges over threads and cores\<close>

text \<open>The ranges that \<open>parallelRange\<close> hands to its threads, in the order of the thread numbers.\<close>

definition parallelRange :: "nat \<Rightarrow> nat \<Rightarrow> (nat \<times> nat) list result" where
  "parallelRange threads n = ensure (threads > 0)
     (let blockSize = n div threads in ensure (blockSize > 0)
       (Inr (map (\<lambda>workerId. (workerId * blockSize, if workerId = threads - 1 then n else workerId * blockSize + blockSize)) [0..<threads])))"

record CoreManager =
  cores :: "nat list"
  hts :: "nat list"

definition new_CoreManager :: "nat \<Rightarrow> CoreManager" where
  "new_CoreManager cpus = (let pCores = cpus div 2 in \<lparr>cores = [0..<pCores], hts = [pCores..<pCores + pCores]\<rparr>)"

definition pinThreadToHT :: "CoreManager \<Rightarrow> (nat \<times> CoreManager) result" where
  "pinThreadToHT m = (case hts m of [] \<Rightarrow> Inl Ensure_failed | i # is \<Rightarrow> Inr (i, m\<lparr>hts := is\<rparr>))"

definition pinThreadToCore :: "CoreManager \<Rightarrow> (nat \<times> CoreManager) result" where
  "pinThreadToCore m = (case cores m of [] \<Rightarrow> Inl Ensure_failed | i # is \<Rightarrow> Inr (i, m\<lparr>cores := is\<rparr>))"

definition pinThread :: "CoreManager \<Rightarrow> (nat \<times> CoreManager) result" where
  "pinThread m = (if cores m \<noteq> [] then pinThreadToCore m else if hts m \<noteq> [] then pinThreadToHT m else Inl (Runtime_error '' Cannot pin thread''))"

definition pinThreadRoundRobin :: "CoreManager \<Rightarrow> (nat \<times> CoreManager) result" where
  "pinThreadRoundRobin m =
     (if cores m = [] \<and> hts m = [] then Inl (Runtime_error '' Cannot pin thread'')
      else if length (cores m) \<ge> length (hts m) then pinThreadToCore m
      else pinThreadToHT m)"

section \<open>Properties\<close>

lemma length_twist [simp]: "length (twist i j k m) = length m"
  by (simp add: twist_def Let_def)

lemma length_fold_twist [simp]: "length (fold (\<lambda>i. twist i (f i) (g i)) is m) = length m"
  by (induction "is" arbitrary: m) simp_all

lemma length_mt_block [simp]: "length (mt_block m) = length m"
  by (simp add: mt_block_def Let_def)

text \<open>The state of the twister always has its \<open>NN\<close> words, and the next word read is one of them.\<close>

definition mt_ok :: "MersenneTwister \<Rightarrow> bool" where
  "mt_ok g \<longleftrightarrow> length (mt g) = NN \<and> mti g \<le> NN"

lemma mt_init_ok: "mt_ok (mt_init seed)"
proof -
  have "length (fold (\<lambda>i xs. xs @ [6364136223846793005 * (last xs XOR drop_bit 62 (last xs)) + of_nat i]) is xs) = length xs + length is" for "is" and xs :: "u64 list"
    by (induction "is" arbitrary: xs) simp_all
  then show ?thesis by (simp add: mt_ok_def mt_init_def NN_def)
qed

lemma mt_rnd_ok: "mt_ok g \<Longrightarrow> mt_ok (snd (mt_rnd g))"
  by (auto simp: mt_ok_def mt_rnd_def Let_def NN_def)

text \<open>The values are in the half-open interval that the comment promises.\<close>

lemma half_open:
  fixes lo hi r :: u64
  assumes "lo < hi"
  shows "lo \<le> lo + r mod (hi - lo) \<and> lo + r mod (hi - lo) < hi"
proof -
  have lt: "unat hi < 2 ^ 64" using unsigned_less [of hi] by simp
  have d: "unat (hi - lo) = unat hi - unat lo" using assms by (simp add: unat_sub word_le_nat_alt word_less_nat_alt)
  then have "unat (r mod (hi - lo)) < unat hi - unat lo" using assms by (simp add: unat_mod word_less_nat_alt)
  moreover then have "unat (lo + r mod (hi - lo)) = unat lo + unat (r mod (hi - lo))"
    using lt by (simp add: unat_word_ariths)
  ultimately show ?thesis by (simp add: word_le_nat_alt word_less_nat_alt)
qed

lemma getRandU64_returns:
  assumes "lo < hi" and "mt_ok g"
  shows "\<exists>r g'. getRandU64 lo hi g = Inr (r, g') \<and> lo \<le> r \<and> r < hi \<and> mt_ok g'"
proof -
  have "hi - lo \<noteq> 0" using assms(1) by simp
  then show ?thesis using half_open [OF assms(1)] mt_rnd_ok [OF assms(2)] by (simp add: getRandU64_def Let_def case_prod_unfold)
qed

lemma getRandString_printable: "mt_ok g \<Longrightarrow> \<exists>cs g'. getRandString n g = Inr (cs, g') \<and> length cs = n \<and> (\<forall>c\<in>set cs. 48 \<le> unat c \<and> unat c < 123) \<and> mt_ok g'"
proof (induction n arbitrary: g)
  case 0
  then show ?case by simp
next
  case (Suc n)
  obtain r g1 where r: "getRandU64 48 123 g = Inr (r, g1)" "48 \<le> r" "r < 123" "mt_ok g1" using getRandU64_returns [of 48 123 g] Suc.prems by auto
  have "unat r < 123" "48 \<le> unat r" using r(2,3) by (simp_all add: word_less_nat_alt word_le_nat_alt)
  then have "unat (ucast r :: u8) = unat r" by (simp add: unsigned_ucast_eq unsigned_take_bit_eq take_bit_nat_eq_self)
  then show ?case using Suc.IH [OF r(4)] r(1) \<open>unat r < 123\<close> \<open>48 \<le> unat r\<close> by auto
qed

text \<open>The generator state of \<open>Xorshift64star\<close> must not be zero: it then never becomes zero, and from zero it never leaves it.\<close>

lemma xor_eq_0: "v XOR w = 0 \<Longrightarrow> w = v" for v w :: u64
proof -
  assume "v XOR w = 0"
  then have "v XOR (v XOR w) = v" by simp
  then show "w = v" by (simp add: xor.assoc [symmetric])
qed

lemma xor_drop_bit_eq_0: "0 < n \<Longrightarrow> w XOR drop_bit n w = 0 \<Longrightarrow> w = (0 :: u64)"
proof (rule ccontr)
  assume a: "0 < n" "w XOR drop_bit n w = 0" "w \<noteq> 0"
  have eq: "drop_bit n w = w" by (rule xor_eq_0 [OF a(2)])
  obtain m where m: "bit w m" using a(3) by (auto simp: bit_eq_iff)
  have "bit w (m + k * n)" for k
  proof (induction k)
    case (Suc k)
    have "bit (drop_bit n w) (m + k * n)" using Suc eq by simp
    then show ?case by (simp add: bit_drop_bit_eq algebra_simps)
  qed (simp add: m)
  then have "bit w (m + 64 * n)" by blast
  then have "m + 64 * n < 64" using bit_imp_le_length by fastforce
  then show False using a(1) by simp
qed

lemma xor_push_bit_eq_0: "0 < n \<Longrightarrow> w XOR push_bit n w = 0 \<Longrightarrow> w = (0 :: u64)"
proof -
  assume a: "0 < n" "w XOR push_bit n w = 0"
  have eq: "push_bit n w = w" by (rule xor_eq_0 [OF a(2)])
  have "\<not> bit w m" for m
  proof (induction m rule: less_induct)
    case (less m)
    have "bit w m \<longleftrightarrow> bit (push_bit n w) m" using eq by simp
    then show ?case using less [of "m - n"] a(1) by (auto simp: bit_push_bit_iff)
  qed
  then show "w = 0" by (auto simp: bit_eq_iff)
qed

lemma xorshift_nonzero: "snd (xorshift_rnd seed) = 0 \<longleftrightarrow> seed = 0"
proof -
  have d: "v XOR drop_bit n v = 0 \<longleftrightarrow> v = 0" if "0 < n" for n and v :: u64 by (rule iffI, erule xor_drop_bit_eq_0 [OF that]) simp
  have p: "v XOR push_bit n v = 0 \<longleftrightarrow> v = 0" if "0 < n" for n and v :: u64 by (rule iffI, erule xor_push_bit_eq_0 [OF that]) simp
  show ?thesis unfolding xorshift_rnd_def Let_def snd_conv by (simp only: d p zero_less_numeral)
qed

text \<open>Random numbers stay in their interval.  \<open>getRandU64(min, max)\<close> returns for \<open>min < max\<close> a value of the half-open
  interval, its two checks never fail and the twister's state keeps its shape; \<open>getRandU64PowerTwo\<close> returns a value below a
  power of two; the values of the scrambled generator are in the same interval.\<close>

theorem random_in_interval:
  assumes "lo < hi" and "mt_ok g" and "k < 64"
  shows "(\<exists>r g'. getRandU64 lo hi g = Inr (r, g') \<and> lo \<le> r \<and> r < hi \<and> mt_ok g')
    \<and> fst (getRandU64PowerTwo (push_bit k 1) g) < push_bit k 1
    \<and> (\<exists>r. scrambled_rand lo hi z = Inr r \<and> lo \<le> r \<and> r < hi) \<and> (\<exists>r. scrambled_rand_offset lo hi z off = Inr r \<and> lo \<le> r \<and> r < hi)"
proof -
  have "x AND (push_bit k 1 - 1) < push_bit k 1" for x :: u64
  proof -
    have "x AND (push_bit k 1 - 1) = take_bit k x" by (simp add: take_bit_eq_mask mask_eq_exp_minus_1 push_bit_eq_mult)
    moreover have "unat (take_bit k x) < 2 ^ k" by (simp add: unsigned_take_bit_eq)
    moreover have "unat (push_bit k 1 :: u64) = 2 ^ k"
    proof -
      have "unat (of_nat (2 ^ k) :: u64) = take_bit 64 (2 ^ k)" by (simp only: unsigned_of_nat) simp
      then show ?thesis using assms(3) by (simp add: take_bit_nat_eq_self)
    qed
    ultimately show ?thesis by (simp add: word_less_nat_alt)
  qed
  then show ?thesis using getRandU64_returns [OF assms(1,2)] half_open [OF assms(1)] assms(1)
    by (auto simp: getRandU64PowerTwo_def scrambled_rand_def scrambled_rand_offset_def Let_def case_prod_unfold)
qed

theorem random_in_interval_witness: "\<exists>r g'. getRandU64 1 100 (mt_init 7) = Inr (r, g') \<and> 1 \<le> r \<and> r < 100"
  using random_in_interval [of 1 100 "mt_init 7" 5 0 0] mt_init_ok by auto

text \<open>C40: the node with the highest number is never drawn.  \<open>applyToOneRnd\<close> asks for a number in the interval from 0 to the
  count minus one, but that interval is half-open: as soon as two nodes are in the set the function is never called on the
  highest one, and of two nodes always the lower one is taken.\<close>

theorem last_sharer_never_drawn:
  assumes g: "mt_ok g" and two: "2 \<le> bm64_count bm" and r: "getRandU64 0 (of_nat (bm64_count bm) - 1) g = Inr (r, g')"
  shows "\<exists>n\<in>bm64_nodes bm. bm64_applyToOneRnd (\<lambda>_. unat r) func bm s = func n s \<and> (\<exists>m\<in>bm64_nodes bm. n < m)"
proof -
  let ?c = "bm64_count bm"
  have c: "?c = length (bits_of bm)" by (simp add: bm64_count_def popcountll_def)
  have le: "length (bits_of bm) \<le> 64" using length_filter_le [of "bit bm" "[0..<64]"] by (simp add: bits_of_def)
  have nat: "unat (of_nat ?c - 1 :: u64) = ?c - 1"
  proof -
    have "(of_nat ?c - 1 :: u64) = of_nat (?c - 1)" using two by (simp add: of_nat_diff)
    then show ?thesis using c le by (simp add: unat_of_nat take_bit_nat_eq_self)
  qed
  have "(0 :: u64) < of_nat ?c - 1" using nat two by (simp add: word_less_nat_alt)
  then have "r < of_nat ?c - 1" using getRandU64_returns [OF _ g] r by fastforce
  then have i: "Suc (unat r) < length (bits_of bm)" using nat c by (simp add: word_less_nat_alt)
  have "bm64_applyToOneRnd (\<lambda>_. unat r) func bm s = func (bits_of bm ! unat r) s"
    using two c i by (simp add: bm64_applyToOneRnd_def Let_def pick_loop_nth)
  moreover have "bits_of bm ! unat r < bits_of bm ! Suc (unat r)" using sorted_bits_of [of bm] i by (simp add: sorted_wrt_iff_nth_less)
  moreover have "bits_of bm ! unat r \<in> bm64_nodes bm" "bits_of bm ! Suc (unat r) \<in> bm64_nodes bm" using i by (auto simp: bm64_nodes_def)
  ultimately show ?thesis by blast
qed

theorem last_sharer_never_drawn_witness:
  "\<exists>r g'. getRandU64 0 (of_nat (bm64_count 6) - 1) (mt_init 7) = Inr (r, g') \<and> (\<exists>n\<in>bm64_nodes 6. bm64_applyToOneRnd (\<lambda>_. unat r) (#) 6 [] = [n] \<and> (\<exists>m\<in>bm64_nodes 6. n < m))"
proof -
  have c: "bm64_count 6 = 2" by code_simp
  have "(0 :: u64) < of_nat (bm64_count 6) - 1" unfolding c by simp
  then obtain r g' where r: "getRandU64 0 (of_nat (bm64_count 6) - 1) (mt_init 7) = Inr (r, g')" using getRandU64_returns [OF _ mt_init_ok] by blast
  then show ?thesis using last_sharer_never_drawn [OF mt_init_ok _ r, of "(#)" "[]"] c by auto
qed

text \<open>The ranges of \<open>parallelRange\<close>, one after the other, are the whole range.\<close>

theorem parallelRange_covers:
  "case parallelRange threads n of
     Inl e \<Rightarrow> e = Ensure_failed \<and> (threads = 0 \<or> n < threads)
   | Inr rs \<Rightarrow> length rs = threads \<and> concat (map (\<lambda>(b, e). [b..<e]) rs) = [0..<n]"
proof (cases "threads = 0 \<or> n < threads")
  case True
  then show ?thesis by (auto simp: parallelRange_def Let_def)
next
  case False
  then obtain t where t: "threads = Suc t" by (cases threads) auto
  let ?b = "n div threads"
  have "?b > 0" using False by (simp add: div_greater_zero_iff)
  have le: "t * ?b \<le> n" using div_times_less_eq_dividend [of n threads] t by (simp add: mult.commute)
  have pre: "concat (map (\<lambda>w. [w * ?b..<w * ?b + ?b]) [0..<k]) = [0..<k * ?b]" for k
  proof (induction k)
    case (Suc k)
    have "[0..<k * ?b] @ [k * ?b..<k * ?b + ?b] = [0..<k * ?b + ?b]" by (rule upt_add_eq_append [symmetric]) simp
    then show ?case using Suc by (simp add: add.commute)
  qed simp
  have "map (\<lambda>w. [w * ?b..<if w = threads - 1 then n else w * ?b + ?b]) [0..<t] = map (\<lambda>w. [w * ?b..<w * ?b + ?b]) [0..<t]"
    using t by (intro map_cong) auto
  then have part: "concat (map (\<lambda>w. [w * ?b..<if w = threads - 1 then n else w * ?b + ?b]) [0..<t]) = [0..<t * ?b]"
    using pre [of t] by argo
  have "concat (map (\<lambda>(b, e). [b..<e]) (map (\<lambda>w. (w * ?b, if w = threads - 1 then n else w * ?b + ?b)) [0..<threads])) =
      concat (map (\<lambda>w. [w * ?b..<if w = threads - 1 then n else w * ?b + ?b]) [0..<t]) @ [t * ?b..<n]"
    by (subst (4) t) (simp add: comp_def t)
  also have "\<dots> = [0..<t * ?b] @ [t * ?b..<n]" unfolding part ..
  also have "\<dots> = [0..<n]" using le using upt_add_eq_append [of 0 "t * ?b" "n - t * ?b"] by simp
  finally show ?thesis using False \<open>?b > 0\<close> by (simp add: parallelRange_def Let_def)
qed

text \<open>The core manager pins threads round robin to cores and their hyper threads: every CPU is used once, and when all are in use
  a request stops with an error.\<close>

fun pin_many :: "nat \<Rightarrow> CoreManager \<Rightarrow> nat list result" where
  "pin_many 0 m = Inr []"
| "pin_many (Suc k) m = bind_r (pinThreadRoundRobin m) (\<lambda>(i, m). bind_r (pin_many k m) (\<lambda>is. Inr (i # is)))"

lemma pin_many_set:
  assumes "k = length (cores m) + length (hts m)" and "length (cores m) = length (hts m) \<or> length (hts m) = Suc (length (cores m))"
  shows "\<exists>is. pin_many k m = Inr is \<and> mset is = mset (cores m @ hts m) \<and> pin_many (Suc k) m = Inl (Runtime_error '' Cannot pin thread'')"
  using assms
proof (induction k arbitrary: m)
  case 0
  then show ?case by (simp add: pinThreadRoundRobin_def)
next
  case (Suc k)
  obtain i m' where p: "pinThreadRoundRobin m = Inr (i, m')" "mset (cores m @ hts m) = add_mset i (mset (cores m' @ hts m'))"
    "k = length (cores m') + length (hts m')" "length (cores m') = length (hts m') \<or> length (hts m') = Suc (length (cores m'))"
    using Suc.prems by (cases "cores m"; cases "hts m") (auto simp: pinThreadRoundRobin_def pinThreadToCore_def pinThreadToHT_def)
  have nxt: "pin_many (Suc n) m = bind_r (pin_many n m') (\<lambda>is. Inr (i # is))" for n using p(1) by simp
  obtain "is" where "pin_many k m' = Inr is" "mset is = mset (cores m' @ hts m')" "pin_many (Suc k) m' = Inl (Runtime_error '' Cannot pin thread'')"
    using Suc.IH [OF p(3,4)] by blast
  then show ?case unfolding nxt [of k] nxt [of "Suc k"] p(2) by simp
qed

lemma pins_distinct: "\<exists>is. pin_many (2 * (cpus div 2)) (new_CoreManager cpus) = Inr is \<and> distinct is \<and> set is = {0..<2 * (cpus div 2)}"
proof -
  let ?m = "new_CoreManager cpus" and ?p = "cpus div 2"
  have l: "2 * ?p = length (cores ?m) + length (hts ?m)" "length (cores ?m) = length (hts ?m)" by (simp_all add: new_CoreManager_def Let_def)
  obtain "is" where i: "pin_many (2 * ?p) ?m = Inr is" "mset is = mset (cores ?m @ hts ?m)" using pin_many_set [OF l(1)] l(2) by blast
  have "cores ?m @ hts ?m = [0..<2 * ?p]" by (simp add: new_CoreManager_def Let_def mult_2 flip: upt_add_eq_append)
  then have "mset is = mset [0..<2 * ?p]" using i(2) by simp
  then show ?thesis using i(1) by (metis atLeastLessThan_upt distinct_upt mset_eq_imp_distinct_iff mset_eq_setD)
qed

end
