(* ===== verification/MemoryManagement.thy ===== *)
theory MemoryManagement
  imports ScalePrelude
begin

text \<open>
  The memory resources of utils/MemoryManagement.hpp: a buffer of huge pages and the monotonic resource that hands out aligned
  blocks of it, from which the buffers that RDMA needs are allocated.  Addresses are natural numbers below the end of the
  address space; \<open>posix_memalign\<close> answers with an address or fails.
\<close>

section \<open>The code\<close>

record HugePages =
  hp_memory :: nat
  hp_size :: nat
  highWaterMark :: nat

definition new_HugePages :: "(nat \<Rightarrow> nat \<Rightarrow> nat option) \<Rightarrow> nat \<Rightarrow> nat \<Rightarrow> HugePages result" where
  "new_HugePages memalign sizeofT sz =
     (case memalign (2 ^ 21) sz of
        None \<Rightarrow> Inl (Runtime_error ''Posix alignment failed'')
      | Some p \<Rightarrow> Inr \<lparr>hp_memory = p, hp_size = sz, highWaterMark = sz div sizeofT\<rparr>)"

definition hp_get_size :: "HugePages \<Rightarrow> nat" where
  "hp_get_size h = highWaterMark h"

definition hp_index :: "nat \<Rightarrow> HugePages \<Rightarrow> nat \<Rightarrow> nat" where
  "hp_index sizeofT h i = hp_memory h + i * sizeofT"

record MonotonicBufferResource =
  bufferPosition :: nat
  bufferSize :: nat
  sizeLeft :: nat
  mbuffer :: HugePages

definition new_MonotonicBufferResource :: "(nat \<Rightarrow> nat \<Rightarrow> nat option) \<Rightarrow> nat \<Rightarrow> MonotonicBufferResource result" where
  "new_MonotonicBufferResource memalign sz =
     bind_r (new_HugePages memalign 1 sz) (\<lambda>h. Inr \<lparr>bufferPosition = hp_memory h, bufferSize = sz, sizeLeft = sz, mbuffer = h\<rparr>)"

text \<open>\<open>std::align\<close>: the first aligned address with room for the block behind it, and the room from there on.\<close>

definition align_up :: "nat \<Rightarrow> nat \<Rightarrow> nat" where
  "align_up alignment p = (p + (alignment - 1)) div alignment * alignment"

definition std_align :: "nat \<Rightarrow> nat \<Rightarrow> nat \<Rightarrow> nat \<Rightarrow> (nat \<times> nat) option" where
  "std_align alignment sz ptr space =
     (let aligned = align_up alignment ptr; diff = aligned - ptr
      in if sz + diff > space then None else Some (aligned, space - diff))"

definition do_allocate :: "nat \<Rightarrow> nat \<Rightarrow> MonotonicBufferResource \<Rightarrow> (nat \<times> MonotonicBufferResource) result" where
  "do_allocate bytes alignment m =
     (if sizeLeft m < bytes then Inl (Runtime_error ''std::bad_alloc'')
      else case std_align alignment bytes (bufferPosition m) (sizeLeft m) of
        None \<Rightarrow> Inl (Runtime_error ''std::bad_alloc'')
      | Some (p, left) \<Rightarrow>
          let m = m\<lparr>bufferPosition := p + bytes, sizeLeft := left - bytes\<rparr>
          in if p mod alignment \<noteq> 0 then Inl (Runtime_error ''Alignment failed'') else Inr (p, m))"

definition do_deallocate :: "nat \<Rightarrow> nat \<Rightarrow> nat \<Rightarrow> MonotonicBufferResource \<Rightarrow> unit result" where
  "do_deallocate p bytes alignment m = Inl (Runtime_error '' Function not supported in monotonic increasing buffer'')"

text \<open>The synchronized resource takes its mutex and asks its parent, so that the requests of several threads are one sequence of
  requests to the parent.\<close>

fun allocations :: "(nat \<times> nat) list \<Rightarrow> MonotonicBufferResource \<Rightarrow> nat result list \<times> MonotonicBufferResource" where
  "allocations [] m = ([], m)"
| "allocations ((bytes, alignment) # rs) m =
     (case do_allocate bytes alignment m of
        Inl e \<Rightarrow> (let (xs, m) = allocations rs m in (Inl e # xs, m))
      | Inr (p, m) \<Rightarrow> (let (xs, m) = allocations rs m in (Inr p # xs, m)))"

section \<open>Properties\<close>

definition mbr_ok :: "MonotonicBufferResource \<Rightarrow> bool" where
  "mbr_ok m \<longleftrightarrow> hp_memory (mbuffer m) \<le> bufferPosition m \<and> bufferPosition m + sizeLeft m = hp_memory (mbuffer m) + bufferSize m"

lemma new_mbr_ok: "new_MonotonicBufferResource memalign sz = Inr m \<Longrightarrow> mbr_ok m \<and> sizeLeft m = sz \<and> bufferSize m = sz"
  by (auto simp: new_MonotonicBufferResource_def new_HugePages_def mbr_ok_def bind_r_eq_Inr split: option.splits)

lemma aligned_bounds:
  assumes "0 < a"
  shows "p \<le> align_up a p" "align_up a p < p + a" "align_up a p mod a = 0"
    "p \<le> q \<Longrightarrow> q mod a = 0 \<Longrightarrow> align_up a p \<le> q"
  unfolding align_up_def
proof -
  let ?k = "(p + (a - 1)) div a"
  have eq: "?k * a + (p + (a - 1)) mod a = p + (a - 1)" by (rule div_mult_mod_eq)
  moreover have "(p + (a - 1)) mod a < a" using assms by simp
  ultimately show "p \<le> ?k * a" "?k * a < p + a" using assms by linarith+
  show "?k * a mod a = 0" by simp
  assume q: "p \<le> q" "q mod a = 0"
  have "?k \<le> (q + (a - 1)) div a" using q(1) by (intro div_le_mono) simp
  also have "\<dots> = q div a"
  proof -
    have "q = q div a * a" using q(2) by (metis add_0_right div_mult_mod_eq)
    then have "(q + (a - 1)) div a = q div a + (a - 1) div a" using assms by (metis div_mult_self3 add.commute less_irrefl)
    then show ?thesis using assms by simp
  qed
  finally show "?k * a \<le> q" using q(2) by (metis mult_le_mono1 add_0_right div_mult_mod_eq)
qed

text \<open>An allocation: the lowest aligned address at or above the position, as long as the block fits; otherwise the resource is
  unchanged.\<close>

lemma do_allocate_cases:
  assumes ok: "mbr_ok m" and a: "0 < alignment"
  shows "case do_allocate bytes alignment m of
      Inr (p, m') \<Rightarrow> mbr_ok m' \<and> mbuffer m' = mbuffer m \<and> bufferSize m' = bufferSize m \<and> p mod alignment = 0 \<and> bufferPosition m \<le> p \<and> p + bytes = bufferPosition m'
        \<and> p + bytes \<le> hp_memory (mbuffer m) + bufferSize m \<and> p < bufferPosition m + alignment
    | Inl e \<Rightarrow> e = Runtime_error ''std::bad_alloc''
        \<and> (\<forall>p. bufferPosition m \<le> p \<and> p mod alignment = 0 \<longrightarrow> \<not> p + bytes \<le> hp_memory (mbuffer m) + bufferSize m)"
proof -
  let ?p = "align_up alignment (bufferPosition m)"
  note b = aligned_bounds [OF a, of "bufferPosition m"]
  have fit: "sizeLeft m < bytes \<or> bytes + (?p - bufferPosition m) > sizeLeft m \<longleftrightarrow> \<not> ?p + bytes \<le> hp_memory (mbuffer m) + bufferSize m"
    using ok b(1) by (auto simp: mbr_ok_def)
  show ?thesis
  proof (cases "?p + bytes \<le> hp_memory (mbuffer m) + bufferSize m")
    case True
    then show ?thesis using fit ok b(1-3) by (auto simp: do_allocate_def std_align_def Let_def mbr_ok_def)
  next
    case False
    have "\<not> p + bytes \<le> hp_memory (mbuffer m) + bufferSize m" if "bufferPosition m \<le> p" "p mod alignment = 0" for p
      using b(4) [OF that] False by linarith
    then show ?thesis using fit False by (auto simp: do_allocate_def std_align_def Let_def)
  qed
qed

text \<open>The blocks a sequence of requests got.\<close>

fun blocks :: "(nat \<times> nat) list \<Rightarrow> nat result list \<Rightarrow> (nat \<times> nat \<times> nat) list" where
  "blocks ((bytes, alignment) # rs) (Inr p # xs) = (p, bytes, alignment) # blocks rs xs"
| "blocks (r # rs) (Inl e # xs) = blocks rs xs"
| "blocks _ _ = []"

lemma allocations_inv:
  assumes "mbr_ok m" and "\<forall>(b, a)\<in>set rs. 0 < a" and "allocations rs m = (xs, m')"
  shows "mbr_ok m' \<and> mbuffer m' = mbuffer m \<and> bufferSize m' = bufferSize m \<and> bufferPosition m \<le> bufferPosition m' \<and> length xs = length rs
    \<and> (\<forall>(p, b, a)\<in>set (blocks rs xs). p mod a = 0 \<and> bufferPosition m \<le> p \<and> p + b \<le> bufferPosition m')
    \<and> sorted_wrt (\<lambda>(p, b, a) (q, _). p + b \<le> q) (blocks rs xs)"
  using assms
proof (induction rs m arbitrary: xs m' rule: allocations.induct)
  case (1 m)
  then show ?case by simp
next
  case (2 b a rs m)
  have a: "0 < a" using 2(4) by simp
  note c = do_allocate_cases [OF 2(3) a, of b]
  show ?case
  proof (cases "do_allocate b a m")
    case (Inl e)
    obtain ys m1 where y: "allocations rs m = (ys, m1)" by (cases "allocations rs m")
    then have "xs = Inl e # ys" "m' = m1" using 2(5) Inl by auto
    then show ?thesis using 2(1) [OF Inl 2(3) _ y] 2(4) by simp
  next
    case (Inr x)
    obtain p m0 where x: "x = (p, m0)" by (cases x)
    obtain ys m1 where y: "allocations rs m0 = (ys, m1)" by (cases "allocations rs m0")
    have eq: "xs = Inr p # ys" "m' = m1" using 2(5) Inr x y by auto
    have c': "mbr_ok m0" "mbuffer m0 = mbuffer m" "bufferSize m0 = bufferSize m" "p mod a = 0" "bufferPosition m \<le> p" "p + b = bufferPosition m0" using c Inr x by auto
    have IH: "mbr_ok m1 \<and> mbuffer m1 = mbuffer m0 \<and> bufferSize m1 = bufferSize m0 \<and> bufferPosition m0 \<le> bufferPosition m1 \<and> length ys = length rs
      \<and> (\<forall>(p, b, a)\<in>set (blocks rs ys). p mod a = 0 \<and> bufferPosition m0 \<le> p \<and> p + b \<le> bufferPosition m1)
      \<and> sorted_wrt (\<lambda>(p, b, a) (q, _). p + b \<le> q) (blocks rs ys)"
      using 2(2) [OF Inr x [symmetric] c'(1) _ y] 2(4) by simp
    then show ?thesis using eq c' by (auto simp: case_prod_unfold)
  qed
qed

text \<open>C36: blocks of a monotonic resource are aligned and disjoint.  After any sequence of requests, of any threads, every block
  handed out starts at a multiple of its alignment, lies inside the buffer and behind the blocks handed out before it; a request
  is refused only when no aligned block of its size fits behind them, and returning a block always fails.\<close>

theorem allocations_disjoint:
  assumes "new_MonotonicBufferResource memalign sz = Inr m0" and "\<forall>(b, a)\<in>set rs. 0 < a" and "allocations rs m0 = (xs, m)"
  shows "(\<forall>(p, b, a)\<in>set (blocks rs xs). p mod a = 0 \<and> hp_memory (mbuffer m0) \<le> p \<and> p + b \<le> hp_memory (mbuffer m0) + sz)
    \<and> sorted_wrt (\<lambda>(p, b, a) (q, _). p + b \<le> q) (blocks rs xs)
    \<and> (0 < a \<longrightarrow> (do_allocate b a m = Inl (Runtime_error ''std::bad_alloc'') \<longleftrightarrow>
         \<not> (\<exists>p. bufferPosition m \<le> p \<and> p mod a = 0 \<and> p + b \<le> hp_memory (mbuffer m0) + sz)))
    \<and> (\<exists>e. do_deallocate p b a m = Inl e)"
proof -
  have ok: "mbr_ok m0" "bufferSize m0 = sz" using new_mbr_ok [OF assms(1)] by simp_all
  note inv = allocations_inv [OF ok(1) assms(2,3)]
  have lim: "bufferPosition m \<le> hp_memory (mbuffer m0) + sz" "hp_memory (mbuffer m0) \<le> bufferPosition m0" using inv ok by (auto simp: mbr_ok_def)
  have blocks: "\<forall>(p, b, a)\<in>set (blocks rs xs). p mod a = 0 \<and> hp_memory (mbuffer m0) \<le> p \<and> p + b \<le> hp_memory (mbuffer m0) + sz"
    using inv lim by fastforce
  have "do_allocate b a m = Inl (Runtime_error ''std::bad_alloc'') \<longleftrightarrow>
      \<not> (\<exists>p. bufferPosition m \<le> p \<and> p mod a = 0 \<and> p + b \<le> hp_memory (mbuffer m0) + sz)" if "0 < a"
    using do_allocate_cases [of m a b] that inv ok(2) by (auto split: sum.splits)
  then show ?thesis using blocks inv by (simp add: do_deallocate_def)
qed

theorem allocations_disjoint_witness:
  "\<exists>m0 xs m. new_MonotonicBufferResource (\<lambda>_ _. Some (2 ^ 21)) 100 = Inr m0 \<and> allocations [(10, 1), (20, 64)] m0 = (xs, m)
    \<and> xs = [Inr 2097152, Inr 2097216] \<and> sorted_wrt (\<lambda>(p, b, a) (q, _). p + b \<le> q) (blocks [(10, 1), (20, 64)] xs)"
proof -
  let ?h = "\<lparr>hp_memory = 2 ^ 21, hp_size = 100, highWaterMark = 100\<rparr>"
  let ?m0 = "\<lparr>bufferPosition = 2 ^ 21, bufferSize = 100, sizeLeft = 100, mbuffer = ?h\<rparr>"
  have n: "new_MonotonicBufferResource (\<lambda>_ _. Some (2 ^ 21)) 100 = Inr ?m0" by (simp add: new_MonotonicBufferResource_def new_HugePages_def)
  obtain xs m where r: "allocations [(10, 1), (20, 64)] ?m0 = (xs, m)" by (cases "allocations [(10, 1), (20, 64)] ?m0")
  have "xs = [Inr 2097152, Inr 2097216]" using r by (simp add: do_allocate_def std_align_def align_up_def Let_def)
  moreover have "sorted_wrt (\<lambda>(p, b, a) (q, _). p + b \<le> q) (blocks [(10, 1), (20, 64)] xs)"
    using allocations_disjoint [OF n _ r, of 1 0 0] by simp
  ultimately show ?thesis using n r by blast
qed

end
