(* ===== verification/Spec2Isabelle.thy ===== *)
theory Spec2Isabelle
  imports PageTable_Spec BatchQueue_Proof AsyncIO Mailboxes MessageHandler_Moves BFGuards Client_Adapter WorkerPool Utilities MemoryManagement
begin

text \<open>
  \<^bold>\<open>ScaleStore\<close> is a distributed storage engine: nodes connected by RDMA share a pool of pages, each page has an owner
  node (the top byte of its page id), and every node caches pages of all nodes in its buffer manager.  This
  development models its C++ core (paths below are relative to src/backend/scalestore unless they start with src/) and
  proves the properties its clients rely on.

  \<^bold>\<open>Conventions.\<close>  A 64-bit integer is a \<^typ>\<open>64 word\<close> wherever it can wrap (versions, counters, bitmaps, page ids) and
  a number where the code indexes.  An array is a list of the array's full extent, stale entries included.
  Errors are values (\<^typ>\<open>'a result\<close>): a failed \<open>ensure\<close>, a thrown exception, an access out of bounds, use of an
  uninitialised member (\<open>Undefined\<close>), waiting for something that does not come (\<open>Blocked\<close>).  \<open>ensure\<close> is always
  checked; \<open>assert\<close> is compiled out of the release build and is not part of the model.  The outer option of a loop is
  \<open>None\<close> when its fuel or its list of attempts is used up.  Concurrency appears in three forms: a function argument for
  what other threads do in a gap of an operation (\<open>gap\<close>, \<open>before\<close>, \<open>during\<close>), a list with one such environment per
  attempt of a loop that restarts (the theorems say that an undisturbed attempt ends it), and inductive step relations
  (latches, free lists, the coherence protocol).  Counters for statistics, prefetches, back-off pauses and thread
  pinning are left out.

  \<^bold>\<open>Parts, bottom up.\<close>

  \<^descr>[ScalePrelude, Defs\_PID] errors, C memory moves, list and word lemmas; page ids and power-of-two helpers of
  src/shared-headers/Defs.hpp.

  \<^descr>[Bitmap, AtomicBitmap] storage/datastructures/Bitmap.hpp.  The 64-bit bitmap is a set of node ids; the array bitmaps are
  sets of positions; enumeration visits them in order.  For the atomic bitmap the contents at every load are arguments.

  \<^descr>[Utilities, MemoryManagement] utils/RandomGenerator, FNVHash, ScrambledZipfGenerator, Parallelize and
  threads/CoreManager.hpp: random numbers stay in their half-open intervals (and therefore \<open>applyToOneRnd\<close> never draws the
  highest node), ranges cover, threads are pinned to different CPUs; utils/MemoryManagement.hpp: blocks are aligned and
  disjoint.

  \<^descr>[BTree\_Node, BTree\_Store, BTree\_Inv, BTree\_Ops, BTree\_Insert, BTree\_Remove, BTree\_Scan, BTree\_Spec]
  storage/datastructures/BTree.hpp: nodes with fence keys and their searches, the tree over a page store with optimistic
  restarts (a parameter decides which validation fails), its invariant, and every operation.  The locale \<open>ordered_map\<close>
  states what clients get and is interpreted on the tree; any history of operations refines a mathematical map.
  Attempts are a list per call; fuel of a descent is the height, of a scan the number of separators.

  \<^descr>[Latch] syncprimitives/HybridLatch.hpp: the version-only latch of hash buckets and the hybrid latch of frames.  The
  locale \<open>version_latch\<close> is the contract to optimistic readers (both latches are interpretations); the step system at
  the end interleaves all functions at the granularity of their accesses and gives mutual exclusion.

  \<^descr>[Frame, Guard] storage/buffermanager/BufferFrame.hpp, Guard.hpp, AccessFunctors.hpp: frames with the possession
  union, guards, and the functors that acquire a frame; the locale \<open>access_functor\<close> is their contract, interpreted on
  the functors of workers and of the message handler.

  \<^descr>[PageTable, PageTable\_Map, PageTable\_Ops, PageTable\_Spec] storage/buffermanager/Buffermanager.hpp, .tpp, .cpp: the
  hash table of frames with its chains, insertion, removal, lookups with restarts, allocation of pages, construction.
  \<open>pt_wf\<close> is the invariant, \<open>table\<close> the map it stands for; the lookups are proved once for every access functor in the
  locales \<open>frame_lookup\<close> and \<open>live_functor\<close>.

  \<^descr>[Containers, BatchQueue, BatchQueue\_Proof] utils/BatchQueue.hpp, storage/buffermanager/PartitionedQueue.hpp: the
  free lists.  The locale \<open>container\<close> is the contract of a batch; no interleaving loses or duplicates an element.

  \<^descr>[AsyncIO] storage/datastructures/RingBuffer.hpp, storage/buffermanager/AsyncReadBuffer, AsyncWriteBuffer: slots of
  asynchronous I/O.

  \<^descr>[Messages, MessageHandler, Directory, MessageHandler\_Proof, MessageHandler\_Moves, Mailboxes] rdma/messages/Messages.hpp,
  rdma/MessageHandler.hpp, .cpp: the requests between nodes and how a node serves them.  \<open>Directory\<close> states what the
  owner's frame means as an abstract directory (possessors, mode, version) and proves in the locale
  \<open>directory_service\<close> that the handlers' decisions refine it; the other theories prove the whole handlers: answers,
  invalidation batches, pages that wait for a write, mailboxes.

  \<^descr>[Fix, Coherence] \<open>Buffermanager::fix\<close> (Buffermanager.tpp, with the messaging of threads/Worker.hpp): acquiring a page
  from other nodes.  The network is a record of two functions; \<open>Coherence\<close> instantiates it with a cluster whose nodes
  answer by the definitions of the message handler.

  \<^descr>[PageProvider, PageProvider\_Traverse, PageProvider\_Proof] storage/buffermanager/PageProvider.hpp, .cpp: the threads that
  evict pages.  Traversal and sampling of the page table and their termination; what evictions do to the directory.
  The fuel of a traversal bounds its levels; one more than the number of frames is enough.

  \<^descr>[Protocol] the composition: the step relation \<open>protocol\<close> lets nodes fix, write, latch and evict a page by the
  definitions above, and the invariant says that all copies stay equal to the last written contents.

  \<^descr>[Fix\_Proof] what a call of \<open>Buffermanager::fix\<close> as a whole gives its caller: the composition of the lookups of the page
  table, the access functors, the requests to other nodes and the downgrade of the latch.  Whatever returns is the frame of the
  page in the mode asked for, and on a cluster that follows the protocol a missing page is fetched at the first undisturbed
  attempt.

  \<^descr>[BFGuards] storage/buffermanager/BufferFrameGuards.hpp, .cpp: the guards of clients and their conversions; what other
  threads do between the release of one mode and the acquisition of the next is an argument.

  \<^descr>[Barrier, LinkedList, Catalog] structures on shared pages: storage/datastructures/DistributedBarrier.hpp as a step system of
  any number of threads, storage/datastructures/Vector.hpp as a chain of pages that stands for a list,
  storage/buffermanager/Catalog.hpp.

  \<^descr>[Sharing] ScaleStore.hpp: creating a tree, a list or a barrier and registering it in the catalog.  The locale
  \<open>published_structure\<close> is the contract between a structure and the catalog, with the three structures as interpretations; the
  theorems below say what another node finds under the id.

  \<^descr>[Client_Schema, Client_Adapter] the tables of the TPC-C client (src/frontend/tpcc/types.hpp, schema.hpp, adapter.hpp):
  bounded strings, the keys, each an instance of \<open>linorder\<close> by the comparison of the code, and the adapter, which opens the
  tree of a table through the catalog when the tables are created in the order of their numbers.

  \<^descr>[WorkerPool] threads/WorkerPool.hpp, .cpp: the monitor between a worker and its clients as a step system with the
  condition variable's choice as part of a step.  Jobs run once and in order for any number of clients, calls return for
  one client, and for two clients or a concurrent destructor there are runs in which a notification is lost.

  \<^bold>\<open>Bounds.\<close>  Node ids are below 64 (the width of the possessor bitmap) where a theorem is about the directory;
  version counters are compared for equality, and the theorems on optimistic reads allow fewer than \<open>2 ^ 62\<close> writers
  between read and validation; \<open>nextPowerTwo\<close> is right up to \<open>2 ^ 32\<close>.

  \<^bold>\<open>Not modelled.\<close>  RDMA connection management (rdma/CommunicationManager.hpp) and the exchange of buffer addresses at
  start-up; the connection set-up of the workers and the thread groups of the benchmarks (threads/Worker.cpp,
  ThreadContext.hpp, Concurrency.hpp); profiling; Zipf distributions in floating point, timers, the MPMC queue and SmallMap, which
  the store does not use (utils/, storage/datastructures/SmallMap.hpp);
  flags and the rest of start-up (Config, ScaleStore.cpp); the other benchmarks and tests under src/frontend; the third-party headers
  Tabulate.hpp and PerfEvent.hpp.  Eviction to disk (\<open>evict_to_ssd\<close>, off by default) is modelled, but the directory
  theorems are for the default.
\<close>

section \<open>Structures shared through the catalog\<close>



text \<open>C34: what one node fills into a list another node reads.  \<open>createLinkedList\<close> registers an empty list under the next id of the
  catalog; after \<open>fill\<close>, a node that asks the catalog for the id, whatever was registered since then, reads at the page it gets
  every element at its index, and visits them all in order.\<close>

theorem list_shared_through_catalog:
  assumes "supply_ok m s" and "llfree s \<noteq> []" and "llpages s EMPTY_PID = None" and "catalog_ok c" and "unat (datastructureIds c) < 19"
    and "length content \<le> m * length (llfree s)" and "0 < m"
  shows "\<exists>h s1 c1 s2. createLinkedList s c = Inr (h, datastructureIds c, s1, c1) \<and> fill m h content s1 = Some (Inr s2)
    \<and> (\<forall>c2 cs. later c1 c2 \<longrightarrow> (\<exists>q. getCatalogEntry (datastructureIds c) (c2 # cs) = Some (Inr \<lparr>datastructureId = datastructureIds c, ds_type = LLIST, ds_pid = q\<rparr>)
         \<and> (\<forall>i<length content. ll_get m q i s2 = Inr (content ! i))
         \<and> (content \<noteq> [] \<longrightarrow> applyToRange m q func 0 (length content) s2 w = Some (Inr (fold func content w)))))"
proof -
  obtain h s1 c1 s2 ps p where a: "createLinkedList s c = Inr (h, datastructureIds c, s1, c1)" "fill m h content s1 = Some (Inr s2)" "ll_rep m s2 h ps p content"
    and get: "\<forall>c2 cs. later c1 c2 \<longrightarrow> getCatalogEntry (datastructureIds c) (c2 # cs) = Some (Inr \<lparr>datastructureId = datastructureIds c, ds_type = LLIST, ds_pid = h\<rparr>)"
    using createLinkedList_published [OF assms] by blast
  have "\<forall>i<length content. ll_get m h i s2 = Inr (content ! i)"
    using linked_list_reads [OF a(3), where func = func and w = w] by (auto split: if_splits)
  moreover have "content \<noteq> [] \<longrightarrow> applyToRange m h func 0 (length content) s2 w = Some (Inr (fold func content w))"
    using linked_list_reads [OF a(3), of 0 func "length content" w] by simp
  ultimately show ?thesis using a(1,2) get by blast
qed

theorem list_shared_through_catalog_witness:
  "\<exists>h s1 c1 s2. createLinkedList three_entries empty_catalog = Inr (h, datastructureIds empty_catalog, s1, c1) \<and> fill 2 h [7, 8] s1 = Some (Inr s2)"
proof -
  have l: "llfree three_entries \<noteq> []" "llpages three_entries EMPTY_PID = None" "length [7, 8 :: nat] \<le> 2 * length (llfree three_entries)"
    by (simp_all add: three_entries_def EMPTY_PID_def mk_PID_def PAGEID_BITS_NODEID_def)
  show ?thesis
    using list_shared_through_catalog [OF three_entries_rep(2) l(1,2) empty_catalog_ok(1) empty_catalog_ok(2) l(3), of "\<lambda>_ w. w" "()"] by fastforce
qed

end
